(* ===== verification/Prelude.thy ===== *)
theory Prelude
  imports Complex_Main "HOL-Library.Word"
begin

section \<open>Shared vocabulary of the runtime model\<close>

text \<open>
  What every component of the model uses: the exceptions the C runtime raises
  (\<^verbatim>\<open>vl_throwf\<close>, \<^verbatim>\<open>vl_fault\<close>), the sums that carry them, the hint collections of the
  development, and generic facts on lists and digit strings.

  A C \<^verbatim>\<open>char\<close> is an Isabelle \<^typ>\<open>char\<close> (one byte): \<open>of_char\<close> is the cast to
  \<^verbatim>\<open>unsigned char\<close>, \<open>char_of\<close> the truncating cast \<^verbatim>\<open>(char)\<close>. Text is a
  \<^typ>\<open>string\<close>, as a Voila \<^verbatim>\<open>str\<close> is a byte string.
\<close>

named_theorems digit_simps
named_theorems dec_ok_intros

subsection \<open>Exceptions\<close>

text \<open>A thrown Voila exception has a class (\<^verbatim>\<open>RangeError\<close>, ...) and a message, or, for a
  failed conversion, the fields \<^verbatim>\<open>from\<close>, \<^verbatim>\<open>to\<close> and \<^verbatim>\<open>value\<close>
  (\<^verbatim>\<open>vl_throw_conv\<close>); a fault is the abort a recovery point may contain.\<close>

datatype exn =
    Throw string string
  | ConvError string string string
  | Fault string

type_synonym 'a result = "exn + 'a"

text \<open>An operation that throws ends the expression it stands in.\<close>

fun bind_result :: "'a result \<Rightarrow> ('a \<Rightarrow> 'b result) \<Rightarrow> 'b result" where
  "bind_result (Inl e) f = Inl e"
| "bind_result (Inr x) f = f x"

subsection \<open>Positional notation\<close>

text \<open>The value of a big-endian list of decimal digits.\<close>

definition dval :: "nat list \<Rightarrow> nat" where
  "dval ds = foldl (\<lambda>a d. 10 * a + d) 0 ds"

lemma dval_foldl: "foldl (\<lambda>a d. 10 * a + d) n ds = n * 10 ^ length ds + dval ds"
proof (induction ds arbitrary: n)
  case Nil
  show ?case by (simp add: dval_def)
next
  case (Cons d ds)
  from Cons.IH [of "10 * n + d"] Cons.IH [of d] show ?case
    by (simp add: dval_def algebra_simps)
qed

lemma dval_Nil [simp, digit_simps]: "dval [] = 0"
  by (simp add: dval_def)

lemma dval_Cons [digit_simps]: "dval (d # ds) = d * 10 ^ length ds + dval ds"
  using dval_foldl [of d ds] by (simp add: dval_def)

lemma dval_append [digit_simps]: "dval (xs @ ys) = dval xs * 10 ^ length ys + dval ys"
  using dval_foldl [of "dval xs" ys] by (simp add: dval_def)

lemma dval_replicate0 [simp, digit_simps]: "dval (replicate n 0) = 0"
  by (induction n) (simp_all add: dval_Cons)

lemma dval_single [simp]: "dval [d] = d"
  by (simp add: dval_Cons)

definition digits :: "nat list \<Rightarrow> bool" where
  "digits ds \<longleftrightarrow> (\<forall>d \<in> set ds. d < 10)"

lemma digits_Nil [simp]: "digits []"
  and digits_Cons [simp]: "digits (d # ds) \<longleftrightarrow> d < 10 \<and> digits ds"
  and digits_append [simp]: "digits (xs @ ys) \<longleftrightarrow> digits xs \<and> digits ys"
  and digits_replicate [simp]: "d < 10 \<Longrightarrow> digits (replicate n d)"
  and digits_take [simp, intro]: "digits ds \<Longrightarrow> digits (take n ds)"
  and digits_drop [simp, intro]: "digits ds \<Longrightarrow> digits (drop n ds)"
  and digits_update [simp]: "digits ds \<Longrightarrow> d < 10 \<Longrightarrow> digits (ds[i := d])"
  by (auto simp: digits_def dest: in_set_takeD in_set_dropD dest!: set_update_subset_insert [THEN subsetD])

lemma digitsD: "digits ds \<Longrightarrow> i < length ds \<Longrightarrow> ds ! i < 10"
  by (simp add: digits_def)

lemma dval_bound: "digits ds \<Longrightarrow> dval ds < 10 ^ length ds"
proof (induction ds)
  case Nil
  show ?case by simp
next
  case (Cons d ds)
  then have "d \<le> 9" and "dval ds < 10 ^ length ds" by auto
  then have "d * 10 ^ length ds + dval ds < 9 * 10 ^ length ds + 10 ^ length ds"
    by (meson add_le_less_mono mult_le_mono1)
  then show ?case by (simp add: dval_Cons)
qed

lemma dval_bound_le: "digits ds \<Longrightarrow> length ds \<le> n \<Longrightarrow> dval ds < 10 ^ n"
  using dval_bound [of ds] power_increasing [of "length ds" n "10::nat"] by linarith

lemma dval_ge_hd: "hd ds \<noteq> 0 \<Longrightarrow> ds \<noteq> [] \<Longrightarrow> 10 ^ (length ds - 1) \<le> dval ds"
  by (cases ds) (auto simp: dval_Cons trans_le_add1)

lemma dval_zero_iff: "dval ds = 0 \<longleftrightarrow> (\<forall>d \<in> set ds. d = 0)"
  by (induction ds) (auto simp: dval_Cons)

lemma dval_eq_length:
  "digits xs \<Longrightarrow> digits ys \<Longrightarrow> length xs = length ys \<Longrightarrow> dval xs = dval ys \<Longrightarrow> xs = ys"
proof (induction xs ys rule: list_induct2')
  case (4 x xs y ys)
  let ?m = "10 ^ length ys :: nat"
  from 4 have b: "dval xs < ?m" "dval ys < ?m"
    using dval_bound [of xs] dval_bound [of ys] by auto
  from 4 have e: "x * ?m + dval xs = y * ?m + dval ys" by (simp add: dval_Cons)
  have "x = (x * ?m + dval xs) div ?m" using b by simp
  also have "\<dots> = (y * ?m + dval ys) div ?m" by (simp only: e)
  also have "\<dots> = y" using b by simp
  finally show ?case using 4 e by simp
qed auto

lemma dval_take_div:
  assumes "digits ds" "k \<le> length ds"
  shows "dval (take k ds) = dval ds div 10 ^ (length ds - k)"
    and "dval (drop k ds) = dval ds mod 10 ^ (length ds - k)"
proof -
  have "dval ds = dval (take k ds) * 10 ^ length (drop k ds) + dval (drop k ds)"
    using dval_append [of "take k ds" "drop k ds"] by simp
  moreover have "dval (drop k ds) < 10 ^ (length ds - k)"
    using assms dval_bound [of "drop k ds"] by auto
  ultimately show "dval (take k ds) = dval ds div 10 ^ (length ds - k)"
    and "dval (drop k ds) = dval ds mod 10 ^ (length ds - k)"
    by simp_all
qed

subsection \<open>Digits as text\<close>

definition digit_char :: "nat \<Rightarrow> char" where
  "digit_char d = char_of (48 + d)"

definition is_digit :: "char \<Rightarrow> bool" where
  "is_digit c \<longleftrightarrow> 48 \<le> (of_char c :: nat) \<and> (of_char c :: nat) \<le> 57"

definition digit_val :: "char \<Rightarrow> nat" where
  "digit_val c = of_char c - 48"

lemma of_char_digit [simp]: "d < 10 \<Longrightarrow> (of_char (digit_char d) :: nat) = 48 + d"
  by (simp add: digit_char_def)

lemma digit_char_props [simp]:
  assumes "d < 10"
  shows "is_digit (digit_char d)" "digit_val (digit_char d) = d"
  using assms by (simp_all add: is_digit_def digit_val_def)

lemma of_char_inject_iff: "c = c' \<longleftrightarrow> (of_char c :: nat) = of_char c'"
  by (metis char_of_char)

lemma is_digit_not [simp]: "\<not> is_digit CHR ''.''" "\<not> is_digit CHR ''_''" "\<not> is_digit CHR ''-''"
  "\<not> is_digit CHR ''+''" "\<not> is_digit CHR '' ''" "\<not> is_digit CHR 0x09" "\<not> is_digit CHR ''e''"
  "\<not> is_digit CHR ''E''" "\<not> is_digit CHR 0x0A" "\<not> is_digit CHR 0x0D"
  by (simp_all add: is_digit_def)

lemma digit_char_neq [simp]:
  "d < 10 \<Longrightarrow> \<not> is_digit c \<Longrightarrow> digit_char d \<noteq> c"
  by auto

text \<open>C's \<^verbatim>\<open>isspace\<close> in the C locale.\<close>

definition is_space :: "char \<Rightarrow> bool" where
  "is_space c \<longleftrightarrow> c = CHR '' '' \<or> c = CHR 0x09 \<or> c = CHR 0x0A \<or> c = CHR 0x0B \<or> c = CHR 0x0C \<or> c = CHR 0x0D"

lemma is_space_digit [simp]: "d < 10 \<Longrightarrow> \<not> is_space (digit_char d)"
  by (auto simp: is_space_def of_char_inject_iff)

lemma digit_char_0: "digit_char 0 = CHR ''0''"
  by (simp add: digit_char_def of_char_inject_iff)

subsection \<open>Prefixes\<close>

text \<open>Scanning to the first character that stops a run.\<close>

lemma takeWhile_run:
  assumes "\<forall>c \<in> set xs. P c" "ys = [] \<or> \<not> P (hd ys)"
  shows "takeWhile P (xs @ ys) = xs" "dropWhile P (xs @ ys) = ys"
  using assms by (induction xs) (cases ys; auto)+

subsection \<open>Signed words\<close>

lemma sint_cases: "sint (n :: 64 word) = (if unat n < 2 ^ 63 then int (unat n) else int (unat n) - 2 ^ 64)"
proof -
  have u: "0 \<le> uint n" "uint n < 2 ^ 64" using uint_lt2p [of n] by simp_all
  have "sint n = take_bit (Suc 63) (uint n) - 2 ^ Suc 63 * of_bool (bit (uint n) 63)"
    by (simp only: sint_uint signed_take_bit_eq_take_bit_minus) simp
  moreover have "take_bit (Suc 63) (uint n) = uint n" using u by (simp add: take_bit_int_eq_self)
  moreover have "bit (uint n) 63 \<longleftrightarrow> 2 ^ 63 \<le> uint n"
  proof -
    have "uint n div 2 ^ 63 < 2" using u by simp
    moreover have "0 \<le> uint n div 2 ^ 63" using u(1) by (simp add: pos_imp_zdiv_nonneg_iff)
    ultimately have "uint n div 2 ^ 63 = 0 \<or> uint n div 2 ^ 63 = 1" by linarith
    then show ?thesis using u by (auto simp: bit_iff_odd)
  qed
  moreover have "int (unat n) = uint n" by simp
  moreover have "unat n < 2 ^ 63 \<longleftrightarrow> \<not> 2 ^ 63 \<le> uint n"
    unfolding unat_eq_nat_uint using nat_less_iff [OF u(1), of "2 ^ 63"] by (auto simp: not_le)
  ultimately show ?thesis by auto
qed

end
