(* ===== verification/DecMag.thy ===== *)
theory DecMag
  imports Prelude
begin

section \<open>Decimal magnitudes (dec.c: cmp\_mag .. divmod\_mag)\<close>

text \<open>
  A magnitude is the coefficient of a \<^verbatim>\<open>VlDec\<close>: decimal digits, most significant first.
  The C code holds them as the characters \<^verbatim>\<open>'0'\<close>..\<^verbatim>\<open>'9'\<close> and subtracts \<^verbatim>\<open>'0'\<close> at every
  use; the model holds the digit values.  Every loop of the source is a recursion over
  the same index in the same direction, and every lemma relates it to \<^const>\<open>dval\<close>.
\<close>

subsection \<open>Stripping and comparing\<close>

fun strip0 :: "nat list \<Rightarrow> nat list" where
  "strip0 (d # e # ds) = (if d = 0 then strip0 (e # ds) else d # e # ds)"
| "strip0 ds = ds"

text \<open>\<^verbatim>\<open>memcmp\<close> on two digit runs of the same length: the sign of the first difference.\<close>

fun mem_cmp :: "nat list \<Rightarrow> nat list \<Rightarrow> int" where
  "mem_cmp (x # xs) (y # ys) = (if x < y then - 1 else if y < x then 1 else mem_cmp xs ys)"
| "mem_cmp _ _ = 0"

definition cmp_mag :: "nat list \<Rightarrow> nat list \<Rightarrow> int" where
  "cmp_mag a b =
     (let a' = strip0 a; b' = strip0 b
      in if length a' \<noteq> length b' then (if length a' < length b' then - 1 else 1)
         else mem_cmp a' b')"

lemma strip0_digits: "digits ds \<Longrightarrow> digits (strip0 ds)"
  by (induction ds rule: strip0.induct) auto

lemma strip0_dval [simp]: "dval (strip0 ds) = dval ds"
  by (induction ds rule: strip0.induct) (auto simp: dval_Cons)

lemma strip0_length: "length (strip0 ds) \<le> length ds"
  by (induction ds rule: strip0.induct) auto

lemma strip0_Nil [simp]: "strip0 ds = [] \<longleftrightarrow> ds = []"
  by (induction ds rule: strip0.induct) auto

text \<open>A stripped digit run is a single digit or starts with a non-zero one.\<close>

definition stripped :: "nat list \<Rightarrow> bool" where
  "stripped ds \<longleftrightarrow> length ds \<le> 1 \<or> hd ds \<noteq> 0"

lemma strip0_stripped: "stripped (strip0 ds)"
  by (induction ds rule: strip0.induct) (auto simp: stripped_def)

lemma strip0_id: "stripped ds \<Longrightarrow> strip0 ds = ds"
  by (induction ds rule: strip0.induct) (auto simp: stripped_def)

lemma stripped_length_less:
  assumes "digits a" "stripped b" "length a < length b" "a \<noteq> []"
  shows "dval a < dval b"
proof -
  from assms have "hd b \<noteq> 0" "b \<noteq> []" by (auto simp: stripped_def) (cases a; simp)+
  then have "10 ^ (length b - 1) \<le> dval b" by (rule dval_ge_hd)
  moreover have "dval a < 10 ^ (length b - 1)"
    using assms(1,3) by (intro dval_bound_le) auto
  ultimately show ?thesis by simp
qed

lemma mem_cmp_sgn:
  "digits xs \<Longrightarrow> digits ys \<Longrightarrow> length xs = length ys \<Longrightarrow>
    mem_cmp xs ys = sgn (int (dval xs) - int (dval ys))"
proof (induction xs ys rule: list_induct2')
  case (4 x xs y ys)
  let ?m = "10 ^ length ys :: nat"
  from 4 have b: "dval xs < ?m" "dval ys < ?m"
    using dval_bound [of xs] dval_bound [of ys] by auto
  have less: "u * ?m + p < v * ?m + q" if "u < v" "p < ?m" for u v p q :: nat
  proof -
    from that have "u * ?m + p < (u + 1) * ?m" by simp
    also have "\<dots> \<le> v * ?m" using that(1) by (intro mult_le_mono1) simp
    finally show ?thesis by simp
  qed
  consider "x < y" | "y < x" | "x = y" by linarith
  then show ?case
  proof cases
    case 1
    have "dval (x # xs) < dval (y # ys)" using less [OF 1 b(1)] 4 by (simp add: dval_Cons)
    with 1 show ?thesis by simp
  next
    case 2
    have "dval (y # ys) < dval (x # xs)" using less [OF 2 b(2)] 4 by (simp add: dval_Cons)
    with 2 show ?thesis by simp
  next
    case 3
    with 4 show ?thesis by (simp add: dval_Cons)
  qed
qed auto

lemma cmp_mag_sgn:
  assumes "digits a" "digits b" "a \<noteq> []" "b \<noteq> []"
  shows "cmp_mag a b = sgn (int (dval a) - int (dval b))"
proof -
  let ?a = "strip0 a" and ?b = "strip0 b"
  have d: "digits ?a" "digits ?b" using assms by (simp_all add: strip0_digits)
  consider "length ?a < length ?b" | "length ?b < length ?a" | "length ?a = length ?b"
    by linarith
  then show ?thesis
  proof cases
    case 1
    then have "dval ?a < dval ?b"
      using assms d by (intro stripped_length_less strip0_stripped) auto
    with 1 show ?thesis by (simp add: cmp_mag_def)
  next
    case 2
    then have "dval ?b < dval ?a"
      using assms d by (intro stripped_length_less strip0_stripped) auto
    with 2 show ?thesis by (simp add: cmp_mag_def)
  next
    case 3
    with mem_cmp_sgn [OF d 3] show ?thesis by (simp add: cmp_mag_def)
  qed
qed

subsection \<open>Addition\<close>

text \<open>\<^verbatim>\<open>i < na ? a[na - 1 - i] - '0' : 0\<close>: the digit of weight \<open>10 ^ i\<close>.\<close>

definition digit_at :: "nat list \<Rightarrow> nat \<Rightarrow> nat" where
  "digit_at a i = (if i < length a then a ! (length a - 1 - i) else 0)"

text \<open>The loop of \<^verbatim>\<open>add_mag\<close>: \<open>k\<close> steps remain, \<open>i\<close> is the index, and \<open>out\<close> is what has been
  written, from the right.\<close>

fun add_loop :: "nat list \<Rightarrow> nat list \<Rightarrow> nat \<Rightarrow> nat \<Rightarrow> nat \<Rightarrow> nat list \<Rightarrow> nat list" where
  "add_loop a b 0 i carry out = out"
| "add_loop a b (Suc k) i carry out =
     (let s = digit_at a i + digit_at b i + carry
      in add_loop a b k (Suc i) (s div 10) (s mod 10 # out))"

definition add_mag :: "nat list \<Rightarrow> nat list \<Rightarrow> nat list" where
  "add_mag a b = add_loop a b (max (length a) (length b) + 1) 0 0 []"

text \<open>What is left of a number above its \<open>i\<close> low digits.\<close>

lemma digit_at_step:
  assumes "digits a"
  shows "dval a div 10 ^ i = digit_at a i + 10 * (dval a div 10 ^ Suc i)"
proof (cases "i < length a")
  case True
  let ?k = "length a - i"
  have k: "?k \<le> length a" "length a - ?k = i" "0 < ?k" "length a - (?k - 1) = Suc i"
    using True by auto
  have "take ?k a = take (?k - 1) a @ [a ! (?k - 1)]"
    using take_Suc_conv_app_nth [of "?k - 1" a] True by (simp add: Suc_diff_Suc)
  then have "dval (take ?k a) = 10 * dval (take (?k - 1) a) + a ! (?k - 1)"
    by (simp add: dval_append)
  moreover have "dval (take ?k a) = dval a div 10 ^ i"
    using dval_take_div(1) [OF assms k(1)] k(2) by simp
  moreover have "dval (take (?k - 1) a) = dval a div 10 ^ Suc i"
    using dval_take_div(1) [OF assms, of "?k - 1"] k by simp
  moreover have "a ! (?k - 1) = digit_at a i"
    using True by (simp add: digit_at_def)
  ultimately show ?thesis by simp
next
  case False
  then have "dval a < 10 ^ i" "dval a < 10 ^ Suc i"
    using dval_bound_le [OF assms, of i] dval_bound_le [OF assms, of "Suc i"] by linarith+
  with False show ?thesis by (simp add: digit_at_def)
qed

lemma digit_at_less: "digits a \<Longrightarrow> digit_at a i < 10"
  by (auto simp: digit_at_def digitsD)

lemma add_loop_props:
  "digits out \<Longrightarrow> digits (add_loop a b k i carry out)"
  by (induction k arbitrary: i carry out) (simp_all add: Let_def)

lemma add_loop_dval:
  assumes "digits a" "digits b"
  shows "dval (add_loop a b k i c out) =
    ((dval a div 10 ^ i + dval b div 10 ^ i + c) mod 10 ^ k) * 10 ^ length out + dval out"
proof (induction k arbitrary: i c out)
  case 0
  show ?case by simp
next
  case (Suc k)
  let ?s = "digit_at a i + digit_at b i + c"
  let ?u = "dval a div 10 ^ Suc i + dval b div 10 ^ Suc i"
  have e: "dval a div 10 ^ i + dval b div 10 ^ i + c = ?s + 10 * ?u"
    using digit_at_step [OF assms(1), of i] digit_at_step [OF assms(2), of i] by simp
  have q: "(s + 10 * u) mod 10 ^ Suc k = s mod 10 + 10 * ((u + s div 10) mod 10 ^ k)"
    for s u :: nat
  proof -
    have "(s + 10 * u) mod (10 * 10 ^ k)
        = 10 * ((s + 10 * u) div 10 mod 10 ^ k) + (s + 10 * u) mod 10"
      by (rule mod_mult2_eq)
    also have "(s + 10 * u) div 10 = u + s div 10" by simp
    also have "(s + 10 * u) mod 10 = s mod 10" by simp
    finally show ?thesis by simp
  qed
  show ?case
    unfolding add_loop.simps Let_def Suc.IH e q
    by (simp add: dval_Cons algebra_simps)
qed

lemma add_mag_length [simp]:
  "length (add_mag a b) = max (length a) (length b) + 1"
proof -
  have "length (add_loop a b k i c out) = k + length out" for k i c out
    by (induction a b k i c out rule: add_loop.induct) (simp_all add: Let_def)
  then show ?thesis by (simp add: add_mag_def del: add_loop.simps)
qed

lemma add_mag_nonempty [simp]: "add_mag a b \<noteq> []"
  using add_mag_length [of a b] by (metis One_nat_def add_is_0 list.size(3) nat.distinct(1))

lemma add_mag_correct:
  assumes "digits a" "digits b"
  shows "dval (add_mag a b) = dval a + dval b" and "digits (add_mag a b)"
proof -
  let ?n = "max (length a) (length b)"
  have "dval a < 10 ^ ?n" "dval b < 10 ^ ?n" using assms by (auto intro!: dval_bound_le)
  then have "dval a + dval b < 10 ^ (?n + 1)" by simp
  then show "dval (add_mag a b) = dval a + dval b"
    using add_loop_dval [OF assms, of "?n + 1" 0 0 "[]"]
    by (simp add: add_mag_def del: add_loop.simps)
  show "digits (add_mag a b)"
    using add_loop_props [of "[]"] by (simp add: add_mag_def del: add_loop.simps)
qed

subsection \<open>Subtraction\<close>

fun sub_loop :: "nat list \<Rightarrow> nat list \<Rightarrow> nat \<Rightarrow> nat \<Rightarrow> int \<Rightarrow> nat list \<Rightarrow> nat list" where
  "sub_loop a b 0 i borrow out = out"
| "sub_loop a b (Suc k) i borrow out =
     (let s = int (digit_at a i) - int (digit_at b i) - borrow
      in if s < 0 then sub_loop a b k (Suc i) 1 (nat (s + 10) # out)
         else sub_loop a b k (Suc i) 0 (nat s # out))"

definition sub_mag :: "nat list \<Rightarrow> nat list \<Rightarrow> nat list" where
  "sub_mag a b = sub_loop a b (length a) 0 0 []"

lemma sub_loop_props:
  "digits a \<Longrightarrow> digits b \<Longrightarrow> c = 0 \<or> c = 1 \<Longrightarrow> digits out \<Longrightarrow>
    digits (sub_loop a b k i c out)"
proof (induction a b k i c out rule: sub_loop.induct)
  case (2 a b k i c out)
  then have "digit_at a i < 10" "digit_at b i < 10" by (simp_all add: digit_at_less)
  with 2 show ?case by (auto simp: Let_def nat_less_iff)
qed simp

lemma sub_mag_length [simp]: "length (sub_mag a b) = length a"
proof -
  have "length (sub_loop a b k i c out) = k + length out" for k i c out
    by (induction a b k i c out rule: sub_loop.induct) (simp_all add: Let_def)
  then show ?thesis by (simp add: sub_mag_def)
qed

lemma sub_mag_Nil [simp]: "sub_mag a b = [] \<longleftrightarrow> a = []"
  using sub_mag_length [of a b] by (metis length_0_conv)

lemma sub_loop_dval:
  assumes "digits a" "digits b"
  shows "c = 0 \<or> c = 1 \<Longrightarrow> int (dval (sub_loop a b k i c out)) =
    ((int (dval a div 10 ^ i) - int (dval b div 10 ^ i) - c) mod 10 ^ k) * 10 ^ length out
      + int (dval out)"
proof (induction k arbitrary: i c out)
  case 0
  show ?case by simp
next
  case (Suc k)
  define t where "t = int (digit_at a i) - int (digit_at b i) - c"
  define u where "u = int (dval a div 10 ^ Suc i) - int (dval b div 10 ^ Suc i)"
  define w where "w = int (dval a div 10 ^ i) - int (dval b div 10 ^ i) - c"
  have b10: "digit_at a i < 10" "digit_at b i < 10"
    using assms by (simp_all add: digit_at_less)
  have w: "w = t + 10 * u"
    unfolding w_def t_def u_def
    using digit_at_step [OF assms(1), of i] digit_at_step [OF assms(2), of i] by simp
  have q: "(t + 10 * v) mod 10 ^ Suc k = t + 10 * (v mod 10 ^ k)"
    if "0 \<le> t" "t < 10" for t v :: int
  proof -
    have "(t + 10 * v) mod (10 * 10 ^ k)
        = 10 * ((t + 10 * v) div 10 mod 10 ^ k) + (t + 10 * v) mod 10"
      by (rule zmod_zmult2_eq) simp
    with that show ?thesis by simp
  qed
  have "- 10 \<le> t" "t < 10" using b10 Suc.prems by (auto simp: t_def)
  show ?case
  proof (cases "t < 0")
    case True
    have "w mod 10 ^ Suc k = t + 10 + 10 * ((u - 1) mod 10 ^ k)"
      using q [of "t + 10" "u - 1"] True \<open>- 10 \<le> t\<close> by (simp add: w algebra_simps)
    moreover have "int (dval (sub_loop a b k (Suc i) 1 (nat (t + 10) # out)))
        = (u - 1) mod 10 ^ k * 10 ^ length (nat (t + 10) # out) + int (dval (nat (t + 10) # out))"
      using Suc.IH [of 1 "Suc i" "nat (t + 10) # out"] by (simp add: u_def)
    moreover have "sub_loop a b (Suc k) i c out = sub_loop a b k (Suc i) 1 (nat (t + 10) # out)"
      using True by (simp add: t_def)
    ultimately show ?thesis
      using True \<open>- 10 \<le> t\<close> unfolding w_def [symmetric]
      by (simp add: dval_Cons algebra_simps del: sub_loop.simps)
  next
    case False
    have "w mod 10 ^ Suc k = t + 10 * (u mod 10 ^ k)"
      using q [of t u] False \<open>t < 10\<close> by (simp add: w)
    moreover have "int (dval (sub_loop a b k (Suc i) 0 (nat t # out)))
        = u mod 10 ^ k * 10 ^ length (nat t # out) + int (dval (nat t # out))"
      using Suc.IH [of 0 "Suc i" "nat t # out"] by (simp add: u_def)
    moreover have "sub_loop a b (Suc k) i c out = sub_loop a b k (Suc i) 0 (nat t # out)"
      using False by (simp add: t_def)
    ultimately show ?thesis
      using False unfolding w_def [symmetric]
      by (simp add: dval_Cons algebra_simps del: sub_loop.simps)
  qed
qed

lemma sub_mag_correct:
  assumes "digits a" "digits b" "dval b \<le> dval a"
  shows "dval (sub_mag a b) = dval a - dval b" and "digits (sub_mag a b)"
proof -
  have "int (dval a) < 10 ^ length a"
    using dval_bound [OF assms(1)] by (simp flip: of_nat_less_iff)
  then have "int (dval a) - int (dval b) < 10 ^ length a" by linarith
  then have "int (dval (sub_mag a b)) = int (dval a) - int (dval b)"
    using sub_loop_dval [OF assms(1,2), of 0 "length a" 0 "[]"] assms(3)
    by (simp add: sub_mag_def)
  then show "dval (sub_mag a b) = dval a - dval b" by linarith
  show "digits (sub_mag a b)"
    using sub_loop_props [OF assms(1,2), of 0 "[]"] by (simp add: sub_mag_def)
qed

subsection \<open>Multiplication\<close>

text \<open>The schoolbook product into the accumulator array: the inner loop over \<open>j\<close>, the
  outer over \<open>i\<close> (both downwards, a zero digit of \<open>a\<close> skipped), then one carry pass.\<close>

fun mul_inner :: "nat \<Rightarrow> nat \<Rightarrow> nat list \<Rightarrow> nat \<Rightarrow> nat list \<Rightarrow> nat list" where
  "mul_inner da i b 0 acc = acc"
| "mul_inner da i b (Suc j) acc =
     mul_inner da i b j (acc[i + j + 1 := acc ! (i + j + 1) + da * b ! j])"

fun mul_outer :: "nat list \<Rightarrow> nat list \<Rightarrow> nat \<Rightarrow> nat list \<Rightarrow> nat list" where
  "mul_outer a b 0 acc = acc"
| "mul_outer a b (Suc i) acc =
     (let da = a ! i
      in mul_outer a b i (if da = 0 then acc else mul_inner da i b (length b) acc))"

fun mul_carry :: "nat list \<Rightarrow> nat \<Rightarrow> nat \<Rightarrow> nat list \<Rightarrow> nat list" where
  "mul_carry acc 0 carry out = out"
| "mul_carry acc (Suc i) carry out =
     (let s = acc ! i + carry in mul_carry acc i (s div 10) (s mod 10 # out))"

definition mul_mag :: "nat list \<Rightarrow> nat list \<Rightarrow> nat list" where
  "mul_mag a b =
     (let n = length a + length b
      in mul_carry (mul_outer a b (length a) (replicate n 0)) n 0 [])"

lemma mul_inner_length [simp]: "length (mul_inner da i b j acc) = length acc"
  by (induction j arbitrary: acc) simp_all

lemma mul_outer_length [simp]: "length (mul_outer a b i acc) = length acc"
  by (induction i arbitrary: acc) (simp_all add: Let_def)

text \<open>\<^const>\<open>dval\<close> also weighs an accumulator whose cells are not digits yet.\<close>

lemma dval_update:
  assumes "k < length acc"
  shows "dval (acc[k := acc ! k + d]) = dval acc + d * 10 ^ (length acc - 1 - k)"
proof -
  have "acc[k := acc ! k + d] = take k acc @ (acc ! k + d) # drop (Suc k) acc"
    using assms by (rule upd_conv_take_nth_drop)
  moreover have "acc = take k acc @ acc ! k # drop (Suc k) acc"
    using assms by (rule id_take_nth_drop)
  then have "dval acc = dval (take k acc @ acc ! k # drop (Suc k) acc)" by simp
  ultimately show ?thesis by (simp add: dval_append dval_Cons algebra_simps)
qed

lemma dval_take_Suc: "j < length b \<Longrightarrow> dval (take (Suc j) b) = 10 * dval (take j b) + b ! j"
  by (simp add: take_Suc_conv_app_nth dval_append)

lemma mul_inner_dval:
  assumes "length acc = na + length b" "i < na" "j \<le> length b"
  shows "dval (mul_inner da i b j acc) =
    dval acc + da * dval (take j b) * 10 ^ (length b - j) * 10 ^ (na - 1 - i)"
  using assms
proof (induction j arbitrary: acc)
  case 0
  show ?case by simp
next
  case (Suc j)
  let ?acc = "acc[i + j + 1 := acc ! (i + j + 1) + da * b ! j]"
  have "length acc - 1 - (i + j + 1) = (length b - Suc j) + (na - 1 - i)"
    using Suc.prems by simp
  then have pw: "(10::nat) ^ (length acc - 1 - (i + j + 1))
      = 10 ^ (length b - Suc j) * 10 ^ (na - 1 - i)"
    by (simp only: power_add)
  have "dval ?acc = dval acc + da * b ! j * 10 ^ (length acc - 1 - (i + j + 1))"
    using Suc.prems by (intro dval_update) simp
  then have "dval ?acc = dval acc + da * b ! j * 10 ^ (length b - Suc j) * 10 ^ (na - 1 - i)"
    unfolding pw by (simp only: mult.assoc)
  moreover have "length b - j = Suc (length b - Suc j)" using Suc.prems by simp
  ultimately show ?case
    using Suc.IH [of ?acc] Suc.prems
    by (simp add: dval_take_Suc algebra_simps del: length_greater_0_conv)
qed

lemma mul_outer_dval:
  assumes "length acc = length a + length b" "i \<le> length a"
  shows "dval (mul_outer a b i acc) =
    dval acc + dval (take i a) * 10 ^ (length a - i) * dval b"
  using assms
proof (induction i arbitrary: acc)
  case 0
  show ?case by simp
next
  case (Suc i)
  let ?acc = "if a ! i = 0 then acc else mul_inner (a ! i) i b (length b) acc"
  have "dval ?acc = dval acc + a ! i * dval b * 10 ^ (length a - 1 - i)"
    using Suc.prems mul_inner_dval [of acc "length a" b i "length b" "a ! i"] by simp
  moreover have "length a - i = Suc (length a - Suc i)" using Suc.prems by simp
  moreover have "length ?acc = length a + length b" using Suc.prems by simp
  ultimately show ?case
    using Suc.IH [of ?acc] Suc.prems
    by (simp add: Let_def dval_take_Suc algebra_simps)
qed

lemma mul_carry_props:
  "digits out \<Longrightarrow> digits (mul_carry acc i c out) \<and> length (mul_carry acc i c out) = i + length out"
  by (induction i arbitrary: c out) (simp_all add: Let_def)

lemma mul_carry_dval:
  "i \<le> length acc \<Longrightarrow> dval (mul_carry acc i c out) =
    ((dval (take i acc) + c) mod 10 ^ i) * 10 ^ length out + dval out"
proof (induction i arbitrary: c out)
  case 0
  show ?case by simp
next
  case (Suc i)
  define s where "s = acc ! i + c"
  define u where "u = dval (take i acc)"
  have e: "dval (take (Suc i) acc) + c = 10 * u + s"
    using Suc.prems by (simp add: dval_take_Suc s_def u_def)
  have "(10 * u + s) mod (10 * 10 ^ i) = 10 * ((10 * u + s) div 10 mod 10 ^ i) + (10 * u + s) mod 10"
    by (rule mod_mult2_eq)
  then have q: "(10 * u + s) mod 10 ^ Suc i = 10 * ((u + s div 10) mod 10 ^ i) + s mod 10"
    by simp
  have "dval (mul_carry acc (Suc i) c out) = dval (mul_carry acc i (s div 10) (s mod 10 # out))"
    by (simp add: s_def Let_def)
  also have "\<dots> = (u + s div 10) mod 10 ^ i * 10 ^ length (s mod 10 # out) + dval (s mod 10 # out)"
    using Suc by (simp add: u_def)
  finally show ?case
    unfolding e q by (simp add: dval_Cons algebra_simps)
qed

lemma mul_mag_length [simp]: "length (mul_mag a b) = length a + length b"
  using mul_carry_props [of "[]"] by (simp add: mul_mag_def Let_def)

lemma mul_mag_correct:
  assumes "digits a" "digits b"
  shows "dval (mul_mag a b) = dval a * dval b" and "digits (mul_mag a b)"
proof -
  let ?n = "length a + length b"
  let ?acc = "mul_outer a b (length a) (replicate ?n 0)"
  have v: "dval ?acc = dval a * dval b" by (subst mul_outer_dval) simp_all
  have "dval a * dval b < 10 ^ length a * 10 ^ length b"
    using dval_bound [OF assms(1)] dval_bound [OF assms(2)] by (rule mult_strict_mono') auto
  then have "dval a * dval b < 10 ^ ?n" by (simp add: power_add)
  then show "dval (mul_mag a b) = dval a * dval b"
    using mul_carry_dval [of ?n ?acc 0 "[]"] v by (simp add: mul_mag_def Let_def)
  show "digits (mul_mag a b)"
    using mul_carry_props [of "[]"] by (simp add: mul_mag_def Let_def)
qed

subsection \<open>Long division\<close>

text \<open>\<^verbatim>\<open>divmod_mag\<close>.  The inner \<^verbatim>\<open>while\<close> subtracts the divisor as long as the remainder is not
  smaller, which never ends when the divisor is zero: it is a partial function, and its
  return for a non-zero divisor is \<open>divmod_mag_correct\<close>.\<close>

partial_function (option) div_digit ::
    "nat list \<Rightarrow> nat list \<Rightarrow> nat \<Rightarrow> (nat list \<times> nat) option" where
  "div_digit r b digit =
     (if 0 \<le> cmp_mag r b then div_digit (strip0 (sub_mag r b)) b (digit + 1)
      else Some (r, digit))"

declare div_digit.simps [code]

text \<open>\<^verbatim>\<open>rem = rem * 10 + a[i]\<close>: a remainder that is empty or a lone zero is replaced.\<close>

definition push_digit :: "nat list \<Rightarrow> nat \<Rightarrow> nat list" where
  "push_digit r d =
     strip0 (if \<not> (length r = 1 \<and> r ! 0 = 0) \<and> 0 < length r then r @ [d] else [d])"

fun div_loop :: "nat list \<Rightarrow> nat list \<Rightarrow> nat list \<Rightarrow> nat list \<Rightarrow> (nat list \<times> nat list) option" where
  "div_loop [] b r q = Some (q, r)"
| "div_loop (d # a) b r q =
     (case div_digit (push_digit r d) b 0 of
        None \<Rightarrow> None
      | Some (r', n) \<Rightarrow> div_loop a b r' (q @ [n]))"

definition divmod_mag :: "nat list \<Rightarrow> nat list \<Rightarrow> (nat list \<times> nat list) option" where
  "divmod_mag a b = div_loop a b [] []"

lemma push_digit:
  assumes "digits r" "d < 10"
  shows "dval (push_digit r d) = 10 * dval r + d" "digits (push_digit r d)"
    "push_digit r d \<noteq> []" "stripped (push_digit r d)"
proof -
  let ?r = "if \<not> (length r = 1 \<and> r ! 0 = 0) \<and> 0 < length r then r @ [d] else [d]"
  have "dval ?r = 10 * dval r + d"
    by (cases "r = []"; cases "length r = 1 \<and> r ! 0 = 0")
      (auto simp: dval_append length_Suc_conv)
  then show "dval (push_digit r d) = 10 * dval r + d" by (simp add: push_digit_def)
  show "digits (push_digit r d)" "push_digit r d \<noteq> []" "stripped (push_digit r d)"
    using assms by (simp_all add: push_digit_def strip0_digits strip0_stripped)
qed

lemma div_digit_correct:
  assumes "digits r" "r \<noteq> []" "digits b" "b \<noteq> []" "0 < dval b"
  shows "\<exists>r'. div_digit r b n = Some (r', n + dval r div dval b) \<and>
    dval r' = dval r mod dval b \<and> digits r' \<and> r' \<noteq> [] \<and> (stripped r \<longrightarrow> stripped r')"
  using assms(1,2)
proof (induction "dval r" arbitrary: r n rule: less_induct)
  case less
  have c: "0 \<le> cmp_mag r b \<longleftrightarrow> dval b \<le> dval r"
    using cmp_mag_sgn [of r b] less.prems assms(3,4) by (auto simp: sgn_if)
  show ?case
  proof (cases "dval b \<le> dval r")
    case True
    let ?r = "strip0 (sub_mag r b)"
    have s: "dval ?r = dval r - dval b" "digits ?r" "?r \<noteq> []" "stripped ?r"
      using sub_mag_correct [OF less.prems(1) assms(3) True] less.prems(2)
      by (simp_all add: strip0_digits strip0_stripped)
    have "dval ?r < dval r" using s(1) True assms(5) by simp
    from less.hyps [OF this s(2,3), of "n + 1"] s(1,4)
    obtain r' where r': "div_digit ?r b (n + 1) = Some (r', n + 1 + (dval r - dval b) div dval b)"
      "dval r' = (dval r - dval b) mod dval b" "digits r'" "r' \<noteq> []" "stripped r'"
      by auto
    have q: "n + dval r div dval b = n + 1 + (dval r - dval b) div dval b"
      using le_div_geq [OF assms(5) True] by simp
    have m: "dval r mod dval b = (dval r - dval b) mod dval b"
      using True by (rule le_mod_geq)
    have "div_digit r b n = div_digit ?r b (n + 1)"
      using c True by (subst div_digit.simps) (simp only: if_True)
    then show ?thesis
      unfolding q m using r' by (intro exI [of _ r']) simp
  next
    case False
    with less.prems show ?thesis by (subst div_digit.simps) (simp add: c)
  qed
qed

lemma div_loop_correct:
  assumes "digits b" "b \<noteq> []" "0 < dval b"
    and "digits a" "digits r" "digits q" "dval r < dval b"
  shows "\<exists>q' r'. div_loop a b r q = Some (q', r') \<and> digits q' \<and> digits r' \<and>
    length q' = length q + length a \<and>
    dval q' = dval q * 10 ^ length a + (dval r * 10 ^ length a + dval a) div dval b \<and>
    dval r' = (dval r * 10 ^ length a + dval a) mod dval b \<and>
    (a \<noteq> [] \<longrightarrow> r' \<noteq> [] \<and> stripped r')"
  using assms(4-)
proof (induction a arbitrary: r q)
  case Nil
  then show ?case by simp
next
  case (Cons d a)
  let ?p = "push_digit r d" and ?m = "10 ^ length a :: nat"
  from Cons.prems have p: "dval ?p = 10 * dval r + d" "digits ?p" "?p \<noteq> []" "stripped ?p"
    by (simp_all add: push_digit)
  obtain r' where r': "div_digit ?p b 0 = Some (r', dval ?p div dval b)"
    "dval r' = dval ?p mod dval b" "digits r'" "r' \<noteq> []" "stripped r'"
    using div_digit_correct [OF p(2,3) assms(1-3), of 0] p(4) by auto
  let ?n = "dval ?p div dval b"
  have "dval ?p < dval b * 10" using p(1) Cons.prems by simp
  then have n: "?n < 10" by (simp add: less_mult_imp_div_less mult.commute)
  have lt: "dval r' < dval b" using r'(2) assms(3) by simp
  obtain q' r'' where IH: "div_loop a b r' (q @ [?n]) = Some (q', r'')" "digits q'" "digits r''"
    "length q' = length (q @ [?n]) + length a"
    "dval q' = dval (q @ [?n]) * ?m + (dval r' * ?m + dval a) div dval b"
    "dval r'' = (dval r' * ?m + dval a) mod dval b" "a \<noteq> [] \<longrightarrow> r'' \<noteq> [] \<and> stripped r''"
    using Cons.IH [of r' "q @ [?n]"] Cons.prems r'(3) n lt by auto
  have split: "dval r * 10 ^ length (d # a) + dval (d # a)
      = (?n * dval b + dval r') * ?m + dval a"
  proof -
    have "dval ?p = ?n * dval b + dval r'" using r'(2) by simp
    with p(1) have "10 * dval r + d = ?n * dval b + dval r'" by simp
    then have "(10 * dval r + d) * ?m = (?n * dval b + dval r') * ?m" by simp
    then show ?thesis by (simp add: dval_Cons algebra_simps)
  qed
  have e: "(?n * dval b + dval r') * ?m + dval a = (dval r' * ?m + dval a) + ?n * ?m * dval b"
    by (simp add: algebra_simps)
  have e': "((dval r' * ?m + dval a) + ?n * ?m * dval b) div dval b
      = ?n * ?m + (dval r' * ?m + dval a) div dval b"
    using assms(3) by simp
  have "dval q' = dval q * 10 ^ length (d # a)
      + (dval r * 10 ^ length (d # a) + dval (d # a)) div dval b"
    unfolding split e e' using IH(5) by (simp add: dval_append algebra_simps)
  moreover have "dval r'' = (dval r * 10 ^ length (d # a) + dval (d # a)) mod dval b"
    unfolding split e using IH(6) by simp
  moreover have "r'' \<noteq> [] \<and> stripped r''"
    using IH(1,7) r'(4,5) by (cases "a = []") auto
  ultimately show ?case
    using r'(1) IH by simp
qed

lemma divmod_mag_correct:
  assumes "digits a" "a \<noteq> []" "digits b" "b \<noteq> []" "0 < dval b"
  obtains q r where "divmod_mag a b = Some (q, r)" "length q = length a"
    "dval q = dval a div dval b" "dval r = dval a mod dval b"
    "digits q" "digits r" "r \<noteq> []" "stripped r"
  using div_loop_correct [OF assms(3-5,1), of "[]" "[]"] assms(2,5)
  by (auto simp: divmod_mag_def)

end
