(* ===== verification/DecCore.thy ===== *)
theory DecCore
  imports DecMag
begin

section \<open>Decimals: representation, rounding and alignment (dec.c)\<close>

text \<open>
  The \<^verbatim>\<open>VlDec\<close> object, its well-formedness \<open>dec_ok\<close>, its value \<open>dec_rat\<close>, the specification
  of correct rounding \<open>sig_round\<close>, and the helpers \<^verbatim>\<open>make\<close>, \<^verbatim>\<open>reduce_exp\<close>,
  \<^verbatim>\<open>round_to\<close>, \<^verbatim>\<open>normalize\<close> and \<^verbatim>\<open>scale\<close> every operation is built from.

  Exponents and digit counts are \<^verbatim>\<open>int32_t\<close> and \<^verbatim>\<open>int\<close> in the code, and the code computes with them
  without a check: every such sum or difference is wrapped to 32 bits here (\<open>w32\<close>).  (Signed overflow
  is undefined in C; wrapping is what the compiled code does.)  A theorem about a value therefore has a
  bound on the exponents and lengths of its operands, \<open>dec_small\<close>, which every decimal of the parser
  with at most twenty million digits meets; without it the theorems are false, see \<open>DecOps\<close>.
\<close>

subsection \<open>The code's int\<close>

definition i32 :: "int \<Rightarrow> bool" where
  "i32 n \<longleftrightarrow> - 2147483648 \<le> n \<and> n \<le> 2147483647"

definition w32 :: "int \<Rightarrow> int" where
  "w32 n = (n + 2147483648) mod 4294967296 - 2147483648"

lemma w32_range: "i32 (w32 n)"
  using pos_mod_bound [of 4294967296 "n + 2147483648"] pos_mod_sign [of 4294967296 "n + 2147483648"]
  unfolding i32_def w32_def by linarith

lemma w32_id [simp]: "- 2147483648 \<le> n \<Longrightarrow> n \<le> 2147483647 \<Longrightarrow> w32 n = n"
  by (simp add: w32_def)

subsection \<open>Decimals\<close>

record dec =
  d_neg :: bool
  d_exp :: int
  d_dig :: "nat list"

subsection \<open>Powers of ten\<close>

definition p10 :: "int \<Rightarrow> rat" where
  "p10 e = (if 0 \<le> e then 10 ^ nat e else 1 / 10 ^ nat (- e))"

lemma p10_powi: "p10 e = 10 powi e"
  by (simp add: p10_def power_int_def inverse_eq_divide power_one_over)

lemma p10_pos [simp]: "0 < p10 e"
  by (simp add: p10_powi)

lemma p10_nonneg [simp]: "0 \<le> p10 e"
  using p10_pos [of e] by (rule less_imp_le)

lemma p10_nz [simp]: "p10 e \<noteq> 0"
  using p10_pos [of e] by (metis less_irrefl)

lemma p10_0 [simp]: "p10 0 = 1"
  by (simp add: p10_def)

lemma p10_add: "p10 (a + b) = p10 a * p10 b"
  by (simp add: p10_powi power_int_add)

lemma p10_diff: "p10 (a - b) = p10 a / p10 b"
  by (simp add: p10_powi power_int_diff)

lemma p10_nat: "p10 (int n) = 10 ^ n"
  by (simp add: p10_powi)

lemma p10_nonneg_exp: "0 \<le> e \<Longrightarrow> p10 e = 10 ^ nat e"
  by (simp add: p10_def)

lemma p10_strict_mono: "a < b \<Longrightarrow> p10 a < p10 b"
  unfolding p10_powi by (rule power_int_strict_increasing) simp_all

lemma p10_less_iff [simp]: "p10 a < p10 b \<longleftrightarrow> a < b"
  by (metis p10_strict_mono less_irrefl less_linear less_trans)

lemma p10_le_iff [simp]: "p10 a \<le> p10 b \<longleftrightarrow> a \<le> b"
  by (metis p10_less_iff not_less)

subsection \<open>Value and well-formedness\<close>

definition sg :: "bool \<Rightarrow> rat" where
  "sg n = (if n then - 1 else 1)"

definition dec_rat :: "dec \<Rightarrow> rat" where
  "dec_rat d = sg (d_neg d) * of_nat (dval (d_dig d)) * p10 (d_exp d)"

definition dec_is_zero :: "dec \<Rightarrow> bool" where
  "dec_is_zero d \<longleftrightarrow> list_all (\<lambda>x. x = 0) (d_dig d)"

text \<open>What \<^verbatim>\<open>make\<close> guarantees: digits, no leading zero, and one representation of zero.  The exponent is
  a 32-bit integer; its smallest value, which has no negation in the type, is left out.\<close>

definition dec_ok :: "dec \<Rightarrow> bool" where
  "dec_ok d \<longleftrightarrow> digits (d_dig d) \<and> d_dig d \<noteq> [] \<and> - 2147483648 < d_exp d \<and> d_exp d \<le> 2147483647 \<and>
     (hd (d_dig d) \<noteq> 0 \<or> d = \<lparr>d_neg = False, d_exp = 0, d_dig = [0]\<rparr>)"

definition make :: "bool \<Rightarrow> nat list \<Rightarrow> int \<Rightarrow> dec" where
  "make n ds e =
     (let ds' = strip0 ds
      in if list_all (\<lambda>x. x = 0) ds' then \<lparr>d_neg = False, d_exp = 0, d_dig = [0]\<rparr>
         else \<lparr>d_neg = n, d_exp = e, d_dig = ds'\<rparr>)"

lemma sg_simps [simp]: "sg True = - 1" "sg False = 1" "\<bar>sg n\<bar> = 1" "sg n \<noteq> 0"
  "sg (\<not> n) = - sg n" "sg n * sg n = 1"
  by (simp_all add: sg_def)

lemma sg_xor: "sg (m \<noteq> n) = sg m * sg n"
  by (simp add: sg_def)

lemma all0_dval: "list_all (\<lambda>x. x = 0) ds \<longleftrightarrow> dval ds = 0"
  by (simp add: dval_zero_iff list_all_iff)

lemma dec_okD:
  assumes "dec_ok d"
  shows "digits (d_dig d)" "d_dig d \<noteq> []" "stripped (d_dig d)" "- 2147483648 < d_exp d" "d_exp d \<le> 2147483647"
  using assms by (auto simp: dec_ok_def stripped_def)

lemma dec_is_zero_dval: "dec_is_zero d \<longleftrightarrow> dval (d_dig d) = 0"
  by (simp add: dec_is_zero_def all0_dval)

lemma dec_is_zero_rat: "dec_is_zero d \<longleftrightarrow> dec_rat d = 0"
  by (simp add: dec_is_zero_dval dec_rat_def)

lemma dec_ok_zero: "dec_ok d \<Longrightarrow> dec_is_zero d \<Longrightarrow> d = \<lparr>d_neg = False, d_exp = 0, d_dig = [0]\<rparr>"
  by (cases "d_dig d") (auto simp: dec_ok_def dec_is_zero_def)

lemma dec_ok_hd: "dec_ok d \<Longrightarrow> \<not> dec_is_zero d \<Longrightarrow> hd (d_dig d) \<noteq> 0"
  by (auto simp: dec_ok_def dec_is_zero_def)

lemma make_ok [simp, dec_ok_intros]:
  assumes "digits ds" "- 2147483648 < e" "e \<le> 2147483647"
  shows "dec_ok (make n ds e)"
proof -
  note d = assms
  have "hd (strip0 ds) \<noteq> 0 \<and> strip0 ds \<noteq> []" if "\<not> list_all (\<lambda>x. x = 0) (strip0 ds)"
    using that strip0_stripped [of ds]
    by (cases "strip0 ds") (auto simp: stripped_def)
  with d show ?thesis by (auto simp: make_def dec_ok_def Let_def strip0_digits)
qed

lemma make_rat [simp]: "dec_rat (make n ds e) = sg n * of_nat (dval ds) * p10 e"
  by (simp add: make_def dec_rat_def Let_def all0_dval)

lemma make_id: "dec_ok d \<Longrightarrow> make (d_neg d) (d_dig d) (d_exp d) = d"
  by (cases "dec_is_zero d")
    (auto simp: make_def Let_def strip0_id dec_okD dec_is_zero_def dest: dec_ok_zero)

lemma dec_rat_abs: "\<bar>dec_rat d\<bar> = of_nat (dval (d_dig d)) * p10 (d_exp d)"
  by (simp add: dec_rat_def abs_mult)

text \<open>A non-zero coefficient of \<open>n\<close> digits lies in its decade.\<close>

lemma dec_ok_decade:
  assumes "dec_ok d" "\<not> dec_is_zero d"
  shows "10 ^ (length (d_dig d) - 1) \<le> dval (d_dig d)" "dval (d_dig d) < 10 ^ length (d_dig d)"
  using assms dval_ge_hd [OF dec_ok_hd] dval_bound by (auto simp: dec_okD)

lemma dec_rat_decade:
  assumes "dec_ok d" "\<not> dec_is_zero d"
  shows "p10 (d_exp d + int (length (d_dig d)) - 1) \<le> \<bar>dec_rat d\<bar>"
    and "\<bar>dec_rat d\<bar> < p10 (d_exp d + int (length (d_dig d)))"
proof -
  let ?n = "length (d_dig d)" and ?c = "dval (d_dig d)"
  have n: "0 < ?n" using assms dec_okD(2) by blast
  have b: "10 ^ (?n - 1) \<le> ?c" "?c < 10 ^ ?n" using dec_ok_decade [OF assms] .
  have "d_exp d + int ?n - 1 = int (?n - 1) + d_exp d" using n by linarith
  then have "p10 (d_exp d + int ?n - 1) = 10 ^ (?n - 1) * p10 (d_exp d)"
    by (simp only: p10_add p10_nat)
  moreover have "(10::rat) ^ (?n - 1) \<le> of_nat ?c"
    using b(1) by (metis of_nat_le_iff of_nat_numeral of_nat_power)
  ultimately show "p10 (d_exp d + int ?n - 1) \<le> \<bar>dec_rat d\<bar>"
    by (simp add: dec_rat_abs mult_right_mono)
  have "of_nat ?c < (10::rat) ^ ?n"
    using b(2) by (metis of_nat_less_iff of_nat_numeral of_nat_power)
  then show "\<bar>dec_rat d\<bar> < p10 (d_exp d + int ?n)"
    by (simp add: dec_rat_abs p10_add p10_nat mult.commute)
qed

text \<open>Room: the digits, and the place of the point, are counted by \<^verbatim>\<open>int\<close>.  The operands of the
  arithmetic are \<open>dec_small\<close>: an exponent the parser accepts, and few enough digits for the sums of the
  code, the accumulators of \<^verbatim>\<open>mul_mag\<close> among them.\<close>

definition dec_room :: "dec \<Rightarrow> bool" where
  "dec_room d \<longleftrightarrow> dec_ok d \<and> int (length (d_dig d)) \<le> 2147483647 \<and>
     d_exp d + int (length (d_dig d)) \<le> 2147483647"

definition dec_small :: "dec \<Rightarrow> bool" where
  "dec_small d \<longleftrightarrow> dec_ok d \<and> \<bar>d_exp d\<bar> \<le> 999999999 \<and> length (d_dig d) \<le> 20000000"

lemma dec_room_ok: "dec_room d \<Longrightarrow> dec_ok d"
  by (simp add: dec_room_def)

lemma dec_smallD:
  assumes "dec_small d"
  shows "dec_ok d" "- 999999999 \<le> d_exp d" "d_exp d \<le> 999999999" "int (length (d_dig d)) \<le> 20000000"
  using assms by (auto simp: dec_small_def)

lemma dec_small_room: "dec_small d \<Longrightarrow> dec_room d"
  using dec_smallD [of d] unfolding dec_room_def by linarith

lemma make_len: "length (d_dig (make n ds e)) \<le> max 1 (length ds)"
  using strip0_length [of ds] by (auto simp: make_def Let_def)

lemma make_exp: "d_exp (make n ds e) = e \<or> d_exp (make n ds e) = 0 \<and> length (d_dig (make n ds e)) = 1"
  by (simp add: make_def Let_def)

lemma make_room:
  assumes "digits ds" "- 2147483648 < e" "int (length ds) \<le> 2147483647" "e + int (length ds) \<le> 2147483647"
    "ds \<noteq> []"
  shows "dec_room (make n ds e)"
proof -
  have "1 \<le> length ds" using assms(5) by (cases ds) auto
  then have "length (d_dig (make n ds e)) \<le> length ds" using make_len [of n ds e] by simp
  then show ?thesis
    using assms make_exp [of n ds e] by (auto simp: dec_room_def)
qed

subsection \<open>Half-even rounding: the specification\<close>

definition half_even :: "nat \<Rightarrow> nat \<Rightarrow> nat" where
  "half_even n m =
     (if m < 2 * (n mod m) \<or> 2 * (n mod m) = m \<and> odd (n div m) then n div m + 1 else n div m)"

definition round_he :: "rat \<Rightarrow> int" where
  "round_he x =
     (let f = \<lfloor>x\<rfloor>; r = x - of_int f
      in if r < 1 / 2 then f else if 1 / 2 < r then f + 1 else if even f then f else f + 1)"

text \<open>\<open>sig_round n x y\<close>: \<open>y\<close> is \<open>x\<close> rounded half-even to \<open>n\<close> significant digits, in the
  decade \<open>x\<close> lies in.\<close>

definition sig_round :: "nat \<Rightarrow> rat \<Rightarrow> rat \<Rightarrow> bool" where
  "sig_round n x y \<longleftrightarrow>
     (x = 0 \<and> y = 0 \<or>
      (\<exists>e. p10 (e + int n - 1) \<le> \<bar>x\<bar> \<and> \<bar>x\<bar> < p10 (e + int n) \<and>
           y = of_int (round_he (x / p10 e)) * p10 e))"

lemma round_he_int [simp]: "round_he (of_int n) = n"
  by (simp add: round_he_def)

lemma round_he_0 [simp]: "round_he 0 = 0"
  using round_he_int [of 0] by simp

lemma round_he_error: "\<bar>of_int (round_he x) - x\<bar> \<le> 1 / 2"
proof -
  define r where "r = x - of_int \<lfloor>x\<rfloor>"
  have "0 \<le> r" "r < 1" unfolding r_def by linarith+
  moreover have "x = of_int \<lfloor>x\<rfloor> + r" by (simp add: r_def)
  ultimately show ?thesis
    by (auto simp: round_he_def Let_def simp flip: r_def)
qed

lemma round_he_minus: "round_he (- x) = - round_he x"
proof (cases "x \<in> \<int>")
  case True
  then obtain n where "x = of_int n" by (auto elim: Ints_cases)
  then show ?thesis using round_he_int [of "- n"] by simp
next
  case False
  define f where "f = \<lfloor>x\<rfloor>"
  define r where "r = x - of_int f"
  have r: "0 < r" "r < 1" "x = of_int f + r"
  proof -
    have "x \<noteq> of_int f" using False by auto
    then show "0 < r" unfolding r_def f_def by linarith
    show "r < 1" unfolding r_def f_def by linarith
    show "x = of_int f + r" by (simp add: r_def)
  qed
  have "\<lfloor>- x\<rfloor> = - f - 1"
    by (rule floor_unique) (use r in auto)
  moreover have "- x - of_int (- f - 1) = 1 - r" using r(3) by simp
  moreover have "x - of_int \<lfloor>x\<rfloor> = r" "\<lfloor>x\<rfloor> = f" by (simp_all add: r_def f_def)
  ultimately show ?thesis
    using r by (auto simp: round_he_def Let_def)
qed

lemma round_he_nat: "0 < m \<Longrightarrow> round_he (of_nat n / of_nat m) = int (half_even n m)"
proof -
  assume m: "0 < m"
  let ?x = "of_nat n / of_nat m :: rat"
  have f: "\<lfloor>?x\<rfloor> = int (n div m)" by (simp add: floor_divide_of_nat_eq)
  have "of_nat n = of_nat (n div m) * of_nat m + (of_nat (n mod m) :: rat)"
    by (metis div_mult_mod_eq of_nat_add of_nat_mult)
  with m have r: "?x - of_int \<lfloor>?x\<rfloor> = of_nat (n mod m) / of_nat m"
    unfolding f by (simp add: field_simps)
  have "of_nat (n mod m) / of_nat m < (1 / 2 :: rat) \<longleftrightarrow> 2 * (n mod m) < m"
    using m by (simp add: field_simps) (metis of_nat_less_iff of_nat_mult of_nat_numeral mult.commute)
  moreover have "1 / 2 < of_nat (n mod m) / (of_nat m :: rat) \<longleftrightarrow> m < 2 * (n mod m)"
    using m by (simp add: field_simps) (metis of_nat_less_iff of_nat_mult of_nat_numeral mult.commute)
  ultimately show ?thesis
    unfolding round_he_def Let_def r
    by (auto simp: f half_even_def)
qed

lemma round_he_signed:
  assumes "0 < m"
  shows "round_he (sg s * of_nat n / of_nat m) = (if s then - int (half_even n m) else int (half_even n m))"
  using round_he_nat [OF assms, of n] round_he_minus [of "of_nat n / of_nat m"]
  by (simp add: sg_def)

lemma half_even_exact: "m dvd n \<Longrightarrow> 0 < m \<Longrightarrow> half_even n m = n div m"
  by (auto simp: half_even_def)

text \<open>The decade is unique, so correct rounding is a function.\<close>

lemma p10_decade_unique:
  assumes "p10 (e + n - 1) \<le> x" "x < p10 (e + n)" "p10 (e' + n - 1) \<le> x" "x < p10 (e' + n)"
  shows "e = e'"
proof -
  have "p10 (e + n - 1) < p10 (e' + n)" "p10 (e' + n - 1) < p10 (e + n)"
    using assms by linarith+
  then show ?thesis by simp
qed

lemma sig_round_unique:
  assumes "sig_round n x y" "sig_round n x z"
  shows "y = z"
  using assms p10_decade_unique [of _ "int n" "\<bar>x\<bar>"] p10_pos
  unfolding sig_round_def by (metis abs_zero not_le)

lemma sig_round_error:
  assumes "sig_round n x y" "x \<noteq> 0"
  obtains e where "p10 (e + int n - 1) \<le> \<bar>x\<bar>" "\<bar>x\<bar> < p10 (e + int n)" "\<bar>y - x\<bar> \<le> p10 e / 2"
proof -
  from assms obtain e where e: "p10 (e + int n - 1) \<le> \<bar>x\<bar>" "\<bar>x\<bar> < p10 (e + int n)"
    and y: "y = of_int (round_he (x / p10 e)) * p10 e"
    by (auto simp: sig_round_def)
  have "y - x = (of_int (round_he (x / p10 e)) - x / p10 e) * p10 e"
    by (simp add: y algebra_simps)
  then have "\<bar>y - x\<bar> = \<bar>of_int (round_he (x / p10 e)) - x / p10 e\<bar> * p10 e"
    by (simp add: abs_mult)
  also have "\<dots> \<le> 1 / 2 * p10 e"
    by (rule mult_right_mono [OF round_he_error]) simp
  finally show thesis using e that by simp
qed

subsection \<open>Incrementing a digit run\<close>

text \<open>The carry loop shared by \<^verbatim>\<open>reduce_exp\<close> and \<^verbatim>\<open>vl_dec_div\<close>: from the last digit, a nine
  becomes zero and the carry moves left; off the front (\<^verbatim>\<open>i < 0\<close>) a one is prepended.\<close>

fun bump :: "nat list \<Rightarrow> nat \<Rightarrow> nat list \<times> bool" where
  "bump ds 0 = (ds, True)"
| "bump ds (Suc i) =
     (if ds ! i < 9 then (ds[i := ds ! i + 1], False) else bump (ds[i := 0]) i)"

definition incr :: "nat list \<Rightarrow> nat list" where
  "incr ds = (case bump ds (length ds) of (ds', off) \<Rightarrow> if off then 1 # ds' else ds')"

lemma bump_props:
  assumes "digits ds" "i \<le> length ds" "bump ds i = (ds', off)"
  shows "digits ds'" "length ds' = length ds"
    "dval ds + 10 ^ (length ds - i) = (if off then 10 ^ length ds else 0) + dval ds'"
  using assms
proof (atomize (full), induction ds i arbitrary: ds' off rule: bump.induct)
  case (1 ds)
  then show ?case by auto
next
  case (2 ds i)
  let ?k = "length ds - Suc i"
  have d: "digits ds" and i: "i < length ds" using "2.prems" by auto
  have k: "(10::nat) ^ (length ds - i) = 10 * 10 ^ ?k" using i by (simp flip: power_Suc add: Suc_diff_Suc)
  show ?case
  proof (cases "ds ! i < 9")
    case True
    then have "ds' = ds[i := ds ! i + 1]" "\<not> off" using "2.prems" by auto
    with True d i dval_update [of i ds 1] show ?thesis by simp
  next
    case False
    then have nine: "ds ! i = 9" using digitsD [OF d i] by simp
    let ?ds = "ds[i := 0]"
    have "ds = ?ds[i := ?ds ! i + 9]"
      using nine i by (metis add_0 list_update_id list_update_overwrite nth_list_update_eq)
    then have v: "dval ds = dval ?ds + 9 * 10 ^ ?k"
      using dval_update [of i ?ds 9] i by simp
    have "digits ds' \<and> length ds' = length ?ds \<and>
        dval ?ds + 10 ^ (length ?ds - i) = (if off then 10 ^ length ?ds else 0) + dval ds'"
      using "2.IH" [OF False] "2.prems" False d by simp
    then show ?thesis using v k by (cases off) simp_all
  qed
qed

lemma incr_props:
  assumes "digits ds"
  shows "digits (incr ds)" "dval (incr ds) = dval ds + 1"
    "length (incr ds) = length ds \<or> (length (incr ds) = length ds + 1 \<and> dval (incr ds) = 10 ^ length ds)"
proof -
  obtain ds' off where b: "bump ds (length ds) = (ds', off)" by fastforce
  note p = bump_props [OF assms le_refl b]
  show "digits (incr ds)" using p b by (simp add: incr_def)
  show v: "dval (incr ds) = dval ds + 1" using p b by (simp add: incr_def dval_Cons)
  show "length (incr ds) = length ds \<or>
    (length (incr ds) = length ds + 1 \<and> dval (incr ds) = 10 ^ length ds)"
  proof (cases off)
    case True
    have "10 ^ length ds \<le> dval (incr ds)" using True b p(2) by (simp add: incr_def dval_Cons)
    moreover have "dval (incr ds) \<le> 10 ^ length ds" using v dval_bound [OF assms] by simp
    ultimately show ?thesis using True b p(2) by (simp add: incr_def)
  next
    case False
    then show ?thesis using b p(2) by (simp add: incr_def)
  qed
qed

subsection \<open>Rounding\<close>

definition reduce_exp :: "dec \<Rightarrow> int \<Rightarrow> dec" where
  "reduce_exp d target =
     (let drp = w32 (target - d_exp d); nd = length (d_dig d)
      in if drp \<le> 0 then d
         else if int nd \<le> drp then
           let first = d_dig d ! 0;
               round_up =
                 (if drp = int nd \<and> 5 < first then True
                  else if drp = int nd \<and> first = 5 then list_ex (\<lambda>x. x \<noteq> 0) (drop 1 (d_dig d))
                  else False)
           in make (d_neg d) (if round_up then [1] else [0]) target
         else
           let keep = nd - nat drp;
               ds = take keep (d_dig d);
               first = d_dig d ! keep;
               rest_nonzero = list_ex (\<lambda>x. x \<noteq> 0) (drop (keep + 1) (d_dig d));
               up = (if 5 < first then True
                     else if first = 5 then rest_nonzero \<or> ds ! (keep - 1) mod 2 \<noteq> 0
                     else False)
           in make (d_neg d) (if up then incr ds else ds) target)"

definition eff_digits :: "int \<Rightarrow> nat" where
  "eff_digits n = (if n \<le> 0 then 28 else nat n)"

definition round_to :: "dec \<Rightarrow> int \<Rightarrow> dec" where
  "round_to d n =
     (let n' = (if n \<le> 0 then 28 else n); nd = int (length (d_dig d))
      in if nd \<le> n' then d else reduce_exp d (w32 (d_exp d + (nd - n'))))"

lemma list_ex_dval: "list_ex (\<lambda>x. x \<noteq> 0) ds \<longleftrightarrow> dval ds \<noteq> 0"
  by (auto simp: dval_zero_iff list_ex_iff)

text \<open>The digit after the cut, and whether anything follows it, decide half-even rounding.\<close>

lemma half_even_digit:
  assumes "f < 10" "r < 10 ^ k"
  shows "half_even (q * 10 ^ Suc k + (f * 10 ^ k + r)) (10 ^ Suc k) =
    (if 5 < f \<or> f = 5 \<and> (r \<noteq> 0 \<or> odd q) then q + 1 else q)"
proof -
  let ?m = "10 ^ Suc k :: nat" and ?t = "f * 10 ^ k + r"
  have lt: "?t < ?m"
  proof -
    have "?t < (f + 1) * 10 ^ k" using assms(2) by simp
    also have "\<dots> \<le> 10 * 10 ^ k" using assms(1) by (intro mult_le_mono1) simp
    finally show ?thesis by simp
  qed
  have qr: "(q * ?m + ?t) div ?m = q" "(q * ?m + ?t) mod ?m = ?t"
    using lt by simp_all
  define x y where "x = (10::nat) ^ k" and "y = f * x"
  have t: "?m = 10 * x" "?t = y + r" "r < x" using assms(2) by (simp_all add: x_def y_def)
  have c: "?m < 2 * ?t \<longleftrightarrow> 5 < f \<or> f = 5 \<and> r \<noteq> 0"
    "2 * ?t = ?m \<longleftrightarrow> f = 5 \<and> r = 0"
  proof -
    have "f \<le> 4 \<or> f = 5 \<or> 6 \<le> f" by arith
    then consider "f \<le> 4" "y \<le> 4 * x" | "f = 5" "y = 5 * x" | "6 \<le> f" "6 * x \<le> y"
      unfolding y_def using mult_le_mono1 by blast
    then have "(10 * x < 2 * (y + r) \<longleftrightarrow> 5 < f \<or> f = 5 \<and> r \<noteq> 0) \<and>
        (2 * (y + r) = 10 * x \<longleftrightarrow> f = 5 \<and> r = 0)"
      using t(3) by cases auto
    then show "?m < 2 * ?t \<longleftrightarrow> 5 < f \<or> f = 5 \<and> r \<noteq> 0" "2 * ?t = ?m \<longleftrightarrow> f = 5 \<and> r = 0"
      unfolding t(1,2) by blast+
  qed
  show ?thesis
    unfolding half_even_def qr c by auto
qed

lemma dval_cut:
  assumes "digits ds" "k < length ds"
  shows "dval ds = dval (take k ds) * 10 ^ Suc (length ds - Suc k)
      + (ds ! k * 10 ^ (length ds - Suc k) + dval (drop (Suc k) ds))"
    and "dval (drop (Suc k) ds) < 10 ^ (length ds - Suc k)"
proof -
  have "ds = take k ds @ ds ! k # drop (Suc k) ds" using assms(2) by (rule id_take_nth_drop)
  then have "dval ds = dval (take k ds @ ds ! k # drop (Suc k) ds)" by simp
  then show "dval ds = dval (take k ds) * 10 ^ Suc (length ds - Suc k)
      + (ds ! k * 10 ^ (length ds - Suc k) + dval (drop (Suc k) ds))"
    using assms(2) by (simp add: dval_append dval_Cons Suc_diff_Suc)
  show "dval (drop (Suc k) ds) < 10 ^ (length ds - Suc k)"
    using dval_bound [of "drop (Suc k) ds"] assms by simp
qed

lemma dval_parity: "digits ds \<Longrightarrow> ds \<noteq> [] \<Longrightarrow> odd (dval ds) \<longleftrightarrow> odd (last ds)"
  by (cases ds rule: rev_cases) (auto simp: dval_append)

lemma reduce_exp_rat:
  assumes d: "dec_ok d" and t: "d_exp d < target" and i: "target \<le> 2147483647" "target - d_exp d \<le> 2147483647"
  shows "dec_rat (reduce_exp d target) =
      sg (d_neg d) * of_nat (half_even (dval (d_dig d)) (10 ^ nat (target - d_exp d))) * p10 target"
    and "dec_ok (reduce_exp d target)"
proof -
  let ?ds = "d_dig d" and ?nd = "length (d_dig d)" and ?drp = "target - d_exp d"
  note ok = dec_okD [OF d]
  define up0 where "up0 = (if ?drp = int ?nd \<and> 5 < ?ds ! 0 then True
    else if ?drp = int ?nd \<and> ?ds ! 0 = 5 then list_ex (\<lambda>x. x \<noteq> 0) (drop 1 ?ds) else False)"
  define keep where "keep = ?nd - nat ?drp"
  define up1 where "up1 = (if 5 < ?ds ! keep then True
    else if ?ds ! keep = 5 then list_ex (\<lambda>x. x \<noteq> 0) (drop (keep + 1) ?ds)
      \<or> take keep ?ds ! (keep - 1) mod 2 \<noteq> 0 else False)"
  have e: "reduce_exp d target =
    (if int ?nd \<le> ?drp then make (d_neg d) (if up0 then [1] else [0]) target
     else make (d_neg d) (if up1 then incr (take keep ?ds) else take keep ?ds) target)"
  proof -
    have w: "w32 ?drp = ?drp" "\<not> ?drp \<le> 0" using t i by simp_all
    show ?thesis
      unfolding reduce_exp_def Let_def w(1) if_not_P [OF w(2)] up0_def up1_def keep_def by simp
  qed
  have tb: "- 2147483648 < target" using t ok(4) by linarith
  have "dec_rat (reduce_exp d target) =
      sg (d_neg d) * of_nat (half_even (dval ?ds) (10 ^ nat ?drp)) * p10 target \<and>
    dec_ok (reduce_exp d target)"
  proof (cases "int ?nd \<le> ?drp")
    case True
    have "half_even (dval ?ds) (10 ^ nat ?drp) = (if up0 then 1 else 0)"
    proof (cases "?drp = int ?nd")
      case eq: True
      have n: "0 < ?nd" "nat ?drp = Suc (?nd - Suc 0)" using eq ok(2) by auto
      have he: "half_even (dval ?ds) (10 ^ Suc (?nd - Suc 0)) =
        (if 5 < ?ds ! 0 \<or> ?ds ! 0 = 5 \<and> dval (drop (Suc 0) ?ds) \<noteq> 0 then 1 else 0)"
        using half_even_digit [OF digitsD [OF ok(1) n(1)] dval_cut(2) [OF ok(1) n(1)], of 0]
          dval_cut(1) [OF ok(1) n(1)] by simp
      show ?thesis unfolding n(2) he up0_def list_ex_dval using eq by simp
    next
      case False
      with True have lt: "?nd + 1 \<le> nat ?drp" by linarith
      have "10 * dval ?ds < 10 ^ (?nd + 1)" using dval_bound [OF ok(1)] by simp
      also have "\<dots> \<le> 10 ^ nat ?drp" using lt by (intro power_increasing) simp_all
      finally have "10 * dval ?ds < 10 ^ nat ?drp" .
      then have "half_even (dval ?ds) (10 ^ nat ?drp) = 0" by (simp add: half_even_def)
      with False show ?thesis by (simp add: up0_def)
    qed
    with True i(1) tb show ?thesis by (simp add: e)
  next
    case False
    have k: "keep < ?nd" "0 < keep" "nat ?drp = Suc (?nd - Suc keep)"
      using t False by (auto simp: keep_def)
    have tk: "digits (take keep ?ds)" "take keep ?ds \<noteq> []" using ok k by auto
    have "last (take keep ?ds) = take keep ?ds ! (keep - 1)"
      using last_conv_nth [OF tk(2)] k by simp
    then have odd: "odd (dval (take keep ?ds)) \<longleftrightarrow> take keep ?ds ! (keep - 1) mod 2 \<noteq> 0"
      unfolding dval_parity [OF tk] by presburger
    have up1: "up1 \<longleftrightarrow> 5 < ?ds ! keep \<or>
        ?ds ! keep = 5 \<and> (dval (drop (Suc keep) ?ds) \<noteq> 0 \<or> odd (dval (take keep ?ds)))"
      unfolding up1_def list_ex_dval odd by simp
    have "half_even (dval ?ds) (10 ^ nat ?drp) =
      (if up1 then dval (take keep ?ds) + 1 else dval (take keep ?ds))"
      unfolding k(3) using half_even_digit [OF digitsD [OF ok(1) k(1)] dval_cut(2) [OF ok(1) k(1)],
          of "dval (take keep ?ds)"] dval_cut(1) [OF ok(1) k(1)]
      unfolding up1 by simp
    with False i(1) tb show ?thesis
      using incr_props [OF tk(1)] tk(1) by (simp add: e)
  qed
  then show "dec_rat (reduce_exp d target) =
      sg (d_neg d) * of_nat (half_even (dval ?ds) (10 ^ nat ?drp)) * p10 target"
    and "dec_ok (reduce_exp d target)" by simp_all
qed

text \<open>With room, the target exponent of \<^verbatim>\<open>round_to\<close> does not wrap.\<close>

lemma round_to_exact:
  assumes "dec_room d"
  shows "round_to d n =
     (let n' = int (eff_digits n); nd = int (length (d_dig d))
      in if nd \<le> n' then d else reduce_exp d (d_exp d + (nd - n')))"
    and "int (eff_digits n) < int (length (d_dig d)) \<Longrightarrow>
      d_exp d < d_exp d + (int (length (d_dig d)) - int (eff_digits n)) \<and>
      d_exp d + (int (length (d_dig d)) - int (eff_digits n)) \<le> 2147483647 \<and>
      (d_exp d + (int (length (d_dig d)) - int (eff_digits n))) - d_exp d \<le> 2147483647"
proof -
  have n: "int (eff_digits n) = (if n \<le> 0 then 28 else n)" by (simp add: eff_digits_def)
  have "0 < int (eff_digits n)" by (simp add: eff_digits_def)
  with assms dec_okD(4) [OF dec_room_ok [OF assms]]
  show g: "int (eff_digits n) < int (length (d_dig d)) \<Longrightarrow>
      d_exp d < d_exp d + (int (length (d_dig d)) - int (eff_digits n)) \<and>
      d_exp d + (int (length (d_dig d)) - int (eff_digits n)) \<le> 2147483647 \<and>
      (d_exp d + (int (length (d_dig d)) - int (eff_digits n))) - d_exp d \<le> 2147483647"
    unfolding dec_room_def by linarith
  show "round_to d n =
     (let n' = int (eff_digits n); nd = int (length (d_dig d))
      in if nd \<le> n' then d else reduce_exp d (d_exp d + (nd - n')))"
    using g dec_okD(4) [OF dec_room_ok [OF assms]]
    by (auto simp: round_to_def Let_def simp flip: n)
qed

lemma round_to_ok [dec_ok_intros]: "dec_room d \<Longrightarrow> dec_ok (round_to d n)"
  using reduce_exp_rat(2) [OF dec_room_ok, of d] round_to_exact(2) [of d n]
  by (simp add: round_to_exact(1) Let_def dec_room_ok)

text \<open>\<^verbatim>\<open>round_to\<close> rounds correctly.\<close>

lemma round_to_sig:
  assumes room: "dec_room d"
  shows "sig_round (eff_digits n) (dec_rat d) (dec_rat (round_to d n))"
proof (cases "dec_is_zero d")
  case True
  have "length (d_dig d) = 1" using dec_ok_zero [OF dec_room_ok [OF room] True] by simp
  then have "round_to d n = d" by (simp add: round_to_def Let_def)
  with True show ?thesis by (simp add: sig_round_def dec_is_zero_rat)
next
  case False
  note d = dec_room_ok [OF room] and rt = round_to_exact [OF room, of n]
  let ?c = "dval (d_dig d)" and ?nd = "int (length (d_dig d))"
  define n' where "n' = int (eff_digits n)"
  have n': "n' = (if n \<le> 0 then 28 else n)" by (simp add: n'_def eff_digits_def)
  define e where "e = d_exp d + (?nd - n')"
  have dec: "p10 (e + n' - 1) \<le> \<bar>dec_rat d\<bar>" "\<bar>dec_rat d\<bar> < p10 (e + n')"
    using dec_rat_decade [OF d False] by (simp_all add: e_def)
  have "dec_rat (round_to d n) = of_int (round_he (dec_rat d / p10 e)) * p10 e"
  proof (cases "?nd \<le> n'")
    case True
    let ?k = "nat (n' - ?nd)"
    have "dec_rat d / p10 e = sg (d_neg d) * of_nat ?c * p10 (d_exp d - e)"
      by (simp add: dec_rat_def p10_diff)
    also have "p10 (d_exp d - e) = 10 ^ ?k" using True by (simp add: e_def p10_nonneg_exp)
    finally have q: "dec_rat d / p10 e = of_int ((if d_neg d then - 1 else 1) * int ?c * 10 ^ ?k)"
      by (simp add: sg_def)
    then have "of_int (round_he (dec_rat d / p10 e)) = dec_rat d / p10 e"
      by (simp only: round_he_int)
    with True show ?thesis by (simp add: rt(1) Let_def flip: n'_def)
  next
    case False
    let ?k = "nat (e - d_exp d)"
    have lt: "d_exp d < e" "e \<le> 2147483647" "e - d_exp d \<le> 2147483647"
      using False rt(2) by (simp_all add: e_def flip: n'_def)
    have "dec_rat d / p10 e = sg (d_neg d) * of_nat ?c / p10 (e - d_exp d)"
      by (simp add: dec_rat_def p10_diff)
    also have "p10 (e - d_exp d) = of_nat (10 ^ ?k)"
      using lt(1) by (simp add: p10_nonneg_exp)
    finally have "round_he (dec_rat d / p10 e) =
        (if d_neg d then - int (half_even ?c (10 ^ ?k)) else int (half_even ?c (10 ^ ?k)))"
      by (simp only: round_he_signed [of "10 ^ ?k"] zero_less_power zero_less_numeral)
    then have "of_int (round_he (dec_rat d / p10 e)) = sg (d_neg d) * of_nat (half_even ?c (10 ^ ?k))"
      by (simp add: sg_def)
    moreover have "round_to d n = reduce_exp d e"
      using False by (simp add: rt(1) Let_def e_def flip: n'_def)
    ultimately show ?thesis
      using reduce_exp_rat(1) [OF d lt] by simp
  qed
  with dec show ?thesis unfolding sig_round_def n'_def by blast
qed

lemma eff_digits_pos [simp]: "0 < eff_digits n"
  by (simp add: eff_digits_def)

lemma round_to_id: "int (length (d_dig d)) \<le> int (eff_digits n) \<Longrightarrow> round_to d n = d"
  by (auto simp: round_to_def eff_digits_def Let_def split: if_splits)

text \<open>A sum or product whose coefficient fits is not touched.\<close>

lemma make_length:
  assumes "digits ds" "dval ds < 10 ^ n" "0 < n" "- 2147483648 < e" "e \<le> 2147483647"
  shows "length (d_dig (make s ds e)) \<le> n"
proof (rule ccontr)
  let ?d = "make s ds e"
  assume "\<not> length (d_dig ?d) \<le> n"
  then have l: "n < length (d_dig ?d)" by simp
  have z: "\<not> dec_is_zero ?d"
  proof
    assume "dec_is_zero ?d"
    with assms(1,4,5) have "?d = \<lparr>d_neg = False, d_exp = 0, d_dig = [0]\<rparr>"
      by (intro dec_ok_zero) simp_all
    with l assms(3) show False by simp
  qed
  then have "d_dig ?d = strip0 ds"
    by (auto simp: make_def Let_def dec_is_zero_def split: if_splits)
  moreover have "10 ^ (length (d_dig ?d) - 1) \<le> dval (d_dig ?d)"
    using dec_ok_decade(1) [OF _ z] assms(1,4,5) by simp
  moreover have "(10::nat) ^ n \<le> 10 ^ (length (d_dig ?d) - 1)"
    using l by (intro power_increasing) auto
  moreover have "dval (d_dig ?d) = dval ds"
    using \<open>d_dig ?d = strip0 ds\<close> by simp
  ultimately show False using assms(2) by linarith
qed

lemma len_fit:
  assumes "dec_ok d" "dval (d_dig d) < 10 ^ n" "0 < n"
  shows "length (d_dig d) \<le> n"
  using make_length [OF dec_okD(1) [OF assms(1)] assms(2,3) dec_okD(4,5) [OF assms(1)], of "d_neg d"]
  by (simp add: make_id [OF assms(1)])

subsection \<open>Normalising and aligning\<close>

fun norm_loop :: "nat list \<Rightarrow> nat \<Rightarrow> int \<Rightarrow> nat \<times> int" where
  "norm_loop ds nd e =
     (if e < 0 \<and> 1 < nd \<and> ds ! (nd - 1) = 0 then norm_loop ds (nd - 1) (e + 1) else (nd, e))"

declare norm_loop.simps [simp del]

definition normalize :: "dec \<Rightarrow> dec" where
  "normalize d =
     (if dec_is_zero d then d
      else case norm_loop (d_dig d) (length (d_dig d)) (d_exp d) of
        (nd, e) \<Rightarrow>
          if nd = length (d_dig d) \<and> e = d_exp d then d
          else make (d_neg d) (take nd (d_dig d)) e)"

text \<open>The count \<^verbatim>\<open>nd + k\<close> and the exponent are \<^verbatim>\<open>int\<close>s.  (A negative count asks \<^verbatim>\<open>vl_alloc\<close> for a huge
  block and ends the program; here the digits are then cut to none.)\<close>

definition scale :: "dec \<Rightarrow> int \<Rightarrow> dec" where
  "scale d k =
     (if k \<le> 0 then d
      else
        let n = w32 (int (length (d_dig d)) + k)
        in make (d_neg d) (take (nat n) (d_dig d @ replicate (nat k) 0)) (w32 (d_exp d - k)))"

definition can_scale :: "dec \<Rightarrow> int \<Rightarrow> bool" where
  "can_scale d k \<longleftrightarrow> dec_ok d \<and>
     (k \<le> 0 \<or> int (length (d_dig d)) + k \<le> 2147483647 \<and> - 2147483648 < d_exp d - k)"

lemma scale_exact:
  assumes "can_scale d k"
  shows "scale d k =
     (if k \<le> 0 then d
      else make (d_neg d) (d_dig d @ replicate (nat k) 0) (d_exp d - k))"
proof (cases "k \<le> 0")
  case False
  then have k: "int (length (d_dig d)) + k \<le> 2147483647" "- 2147483648 < d_exp d - k" "0 < k"
    using assms by (auto simp: can_scale_def)
  have e: "d_exp d \<le> 2147483647" using assms dec_okD(5) by (simp add: can_scale_def)
  have "w32 (int (length (d_dig d)) + k) = int (length (d_dig d)) + k" using k by simp
  moreover have "w32 (d_exp d - k) = d_exp d - k" using k e by simp
  moreover have "nat (int (length (d_dig d)) + k) = length (d_dig d) + nat k" using k by simp
  ultimately show ?thesis using False by (simp add: scale_def Let_def)
qed (simp add: scale_def)

lemma can_scaleD: "can_scale d k \<Longrightarrow> dec_ok d"
  by (simp add: can_scale_def)

lemma scale_length:
  assumes "can_scale d k"
  shows "int (length (d_dig (scale d k))) \<le> int (length (d_dig d)) + max 0 k"
proof (cases "k \<le> 0")
  case False
  then show ?thesis
    using make_len [of "d_neg d" "d_dig d @ replicate (nat k) 0" "d_exp d - k"] by (auto simp: scale_exact [OF assms])
qed (simp add: scale_def)

lemma norm_loop_props:
  assumes "0 < nd" "nd \<le> length ds" "norm_loop ds nd e = (nd', e')"
  shows "0 < nd' \<and> nd' \<le> nd \<and> e' - e = int (nd - nd') \<and>
    dval (take nd ds) = dval (take nd' ds) * 10 ^ (nd - nd') \<and>
    \<not> (e' < 0 \<and> 1 < nd' \<and> ds ! (nd' - 1) = 0)"
  using assms
proof (induction ds nd e rule: norm_loop.induct)
  case (1 ds nd e)
  show ?case
  proof (cases "e < 0 \<and> 1 < nd \<and> ds ! (nd - 1) = 0")
    case True
    then have IH: "0 < nd' \<and> nd' \<le> nd - 1 \<and> e' - (e + 1) = int (nd - 1 - nd') \<and>
        dval (take (nd - 1) ds) = dval (take nd' ds) * 10 ^ (nd - 1 - nd') \<and>
        \<not> (e' < 0 \<and> 1 < nd' \<and> ds ! (nd' - 1) = 0)"
      using "1.IH" "1.prems" by (simp add: norm_loop.simps [of ds nd e])
    moreover have "dval (take nd ds) = 10 * dval (take (nd - 1) ds)"
    proof -
      have "nd - 1 < length ds" "Suc (nd - 1) = nd" using True "1.prems" by linarith+
      with True dval_take_Suc [of "nd - 1" ds] show ?thesis by simp
    qed
    moreover have "nd - nd' = Suc (nd - 1 - nd')" using IH True by arith
    ultimately show ?thesis by auto
  next
    case False
    with "1.prems" show ?thesis by (auto simp: norm_loop.simps [of ds nd e])
  qed
qed

lemma norm_loop_exp: "norm_loop ds nd e = (nd', e') \<Longrightarrow> e \<le> e' \<and> e' \<le> max e 0"
proof (induction ds nd e rule: norm_loop.induct)
  case (1 ds nd e)
  show ?case
  proof (cases "e < 0 \<and> 1 < nd \<and> ds ! (nd - 1) = 0")
    case True
    then have "e + 1 \<le> e' \<and> e' \<le> max (e + 1) 0"
      using "1.IH" "1.prems" by (simp add: norm_loop.simps [of ds nd e])
    with True show ?thesis by auto
  next
    case False
    with "1.prems" show ?thesis by (auto simp: norm_loop.simps [of ds nd e])
  qed
qed

lemma normalize_rat [simp]:
  assumes "dec_ok d"
  shows "dec_rat (normalize d) = dec_rat d" and "dec_ok (normalize d)"
proof -
  obtain nd e where n: "norm_loop (d_dig d) (length (d_dig d)) (d_exp d) = (nd, e)" by fastforce
  have l: "0 < length (d_dig d)" using dec_okD(2) [OF assms] by simp
  note p = norm_loop_props [OF l le_refl n]
  have "p10 e = 10 ^ (length (d_dig d) - nd) * p10 (d_exp d)"
    using p by (metis p10_add p10_nat diff_add_cancel)
  then have "of_nat (dval (take nd (d_dig d))) * p10 e = of_nat (dval (d_dig d)) * p10 (d_exp d)"
    using p by simp
  then show "dec_rat (normalize d) = dec_rat d"
    by (simp add: normalize_def n) (simp add: dec_rat_def mult.assoc)
  show "dec_ok (normalize d)"
  proof -
    have "- 2147483648 < e" "e \<le> 2147483647"
      using norm_loop_exp [OF n] dec_okD(4,5) [OF assms] by auto
    then show ?thesis using assms dec_okD(1) [OF assms] by (simp add: normalize_def n)
  qed
qed

lemma scale_rat [simp]: "can_scale d k \<Longrightarrow> dec_rat (scale d k) = dec_rat d"
proof (cases "k \<le> 0")
  case False
  assume c: "can_scale d k"
  have "p10 (d_exp d) = 10 ^ nat k * p10 (d_exp d - k)"
    using False by (metis p10_add p10_nonneg_exp add.commute diff_add_cancel linorder_not_le order_less_imp_le)
  moreover have "dec_rat (scale d k) = sg (d_neg d) * (of_nat (dval (d_dig d)) * 10 ^ nat k) * p10 (d_exp d - k)"
    using False by (simp add: scale_exact [OF c] dval_append)
  ultimately show ?thesis by (simp add: dec_rat_def)
qed (simp add: scale_def)

lemma scale_ok [simp, dec_ok_intros]: "can_scale d k \<Longrightarrow> dec_ok (scale d k)"
  using dec_okD [of d] by (auto simp: scale_exact) (auto simp: can_scale_def)

lemma scale_neg: "can_scale d k \<Longrightarrow> d_neg (scale d k) = d_neg d"
  using dec_ok_zero [OF can_scaleD, of d k]
  by (cases "dec_is_zero d")
    (auto simp: scale_exact make_def Let_def all0_dval dval_append dec_is_zero_dval)

text \<open>Aligned to exponent \<open>e\<close>, a decimal's signed coefficient is its value over \<open>10 ^ e\<close>.\<close>

lemma scale_coef:
  assumes c: "can_scale d (d_exp d - e)" and "e \<le> d_exp d \<or> dec_is_zero d"
  shows "dec_rat d = sg (d_neg (scale d (d_exp d - e))) * of_nat (dval (d_dig (scale d (d_exp d - e)))) * p10 e"
proof (cases "dec_is_zero d")
  case True
  then have "dec_is_zero (scale d (d_exp d - e))" using c by (simp add: dec_is_zero_rat)
  then have "dval (d_dig (scale d (d_exp d - e))) = 0" by (simp only: dec_is_zero_dval)
  with True show ?thesis by (simp add: dec_is_zero_rat)
next
  case False
  have "d_exp (scale d (d_exp d - e)) = e"
    using assms False
    by (auto simp: scale_exact [OF c] make_def Let_def all0_dval dval_append dec_is_zero_dval)
  then show ?thesis using scale_rat [OF c] by (simp add: dec_rat_def)
qed

end
