(* ===== verification/DecOps.thy ===== *)
theory DecOps
  imports DecCore
begin

section \<open>Decimal operations (dec.c: vl\_dec\_from\_int .. vl\_dec\_to\_int)\<close>

text \<open>
  The arithmetic of \<^verbatim>\<open>dec\<close>.  \<open>ctx\<close> is the thread's \<^verbatim>\<open>numeric digits\<close> (\<^verbatim>\<open>vl_get_digits\<close>),
  an argument of every operation that rounds.  A division that divides by zero throws; that
  it returns at all is part of what is proved, as the digit loop is a partial function
  (\<^const>\<open>None\<close>: the loop does not return).  Sums and differences of exponents are \<^verbatim>\<open>int\<close>s and
  wrap (\<^const>\<open>w32\<close>); the theorems on values are about \<^const>\<open>dec_small\<close> operands, where none does, and
  the last section shows what happens beyond them.
\<close>

subsection \<open>From machine integers\<close>

definition i64 :: "int \<Rightarrow> bool" where
  "i64 n \<longleftrightarrow> - (2 ^ 63) \<le> n \<and> n < 2 ^ 63"

fun int_digits :: "nat \<Rightarrow> nat list \<Rightarrow> nat list" where
  "int_digits m buf = (if m = 0 then buf else int_digits (m div 10) (m mod 10 # buf))"

declare int_digits.simps [simp del]

text \<open>The magnitude is taken as \<^verbatim>\<open>-(n + 1)\<close> in the signed type, plus one in the unsigned.\<close>

definition vl_dec_from_int :: "int \<Rightarrow> dec" where
  "vl_dec_from_int n =
     (let m = nat (if n < 0 then - (n + 1) + 1 else n)
      in make (n < 0) (if m = 0 then [0] else int_digits m []) 0)"

lemma int_digits_props: "digits buf \<Longrightarrow>
    digits (int_digits m buf) \<and> dval (int_digits m buf) = m * 10 ^ length buf + dval buf"
proof (induction m buf rule: int_digits.induct)
  case (1 m buf)
  show ?case
  proof (cases "m = 0")
    case True
    with 1 show ?thesis by (simp add: int_digits.simps)
  next
    case False
    with 1 have "digits (int_digits (m div 10) (m mod 10 # buf)) \<and>
      dval (int_digits (m div 10) (m mod 10 # buf))
        = m div 10 * 10 ^ length (m mod 10 # buf) + dval (m mod 10 # buf)" by simp
    moreover have "m div 10 * (10 * 10 ^ length buf) + m mod 10 * 10 ^ length buf = m * 10 ^ length buf"
      by (metis add_mult_distrib div_mult_mod_eq mult.assoc)
    ultimately show ?thesis
      using False by (simp add: int_digits.simps [of m buf] dval_Cons)
  qed
qed

lemma from_int_ok [simp, dec_ok_intros]: "dec_ok (vl_dec_from_int n)"
  using int_digits_props [of "[]"] by (simp add: vl_dec_from_int_def Let_def)

lemma from_int_rat [simp]: "dec_rat (vl_dec_from_int n) = of_int n"
  using int_digits_props [of "[]"] by (auto simp: vl_dec_from_int_def Let_def sg_def)

lemma from_int_exp [simp]: "d_exp (vl_dec_from_int n) = 0"
  by (simp add: vl_dec_from_int_def Let_def make_def)

lemma from_int_small [simp]: "i64 n \<Longrightarrow> dec_small (vl_dec_from_int n)"
proof -
  assume n: "i64 n"
  define m where "m = nat (if n < 0 then - (n + 1) + 1 else n)"
  have "m < 10 ^ 19" using n by (auto simp: m_def i64_def nat_less_iff)
  then have "length (d_dig (vl_dec_from_int n)) \<le> 19"
    using int_digits_props [of "[]" m] unfolding vl_dec_from_int_def Let_def m_def [symmetric]
    by (intro make_length) auto
  then show ?thesis by (simp add: dec_small_def)
qed

text \<open>The two machine steps of the magnitude stay in range for every \<^verbatim>\<open>int64_t\<close>.\<close>

lemma from_int_range: "i64 n \<Longrightarrow> n < 0 \<Longrightarrow> i64 (- (n + 1)) \<and> - (n + 1) + 1 < 2 ^ 64"
  by (auto simp: i64_def)

subsection \<open>Addition and subtraction\<close>

text \<open>\<^verbatim>\<open>add_signed\<close> up to its final \<^verbatim>\<open>round_to\<close>.\<close>

definition add_exact :: "dec \<Rightarrow> dec \<Rightarrow> bool \<Rightarrow> dec" where
  "add_exact a b bneg =
     (let e = min (d_exp a) (d_exp b);
          x = scale a (w32 (d_exp a - e));
          y = scale b (w32 (d_exp b - e));
          yneg = (if bneg then \<not> d_neg y else d_neg y)
      in if d_neg x = yneg then make (d_neg x) (add_mag (d_dig x) (d_dig y)) e
         else
           let c = cmp_mag (d_dig x) (d_dig y)
           in if c = 0 then vl_dec_from_int 0
              else if 0 < c then make (d_neg x) (sub_mag (d_dig x) (d_dig y)) e
              else make yneg (sub_mag (d_dig y) (d_dig x)) e)"

definition add_signed :: "int \<Rightarrow> dec \<Rightarrow> dec \<Rightarrow> bool \<Rightarrow> dec" where
  "add_signed ctx a b bneg = round_to (add_exact a b bneg) ctx"

definition vl_dec_add :: "int \<Rightarrow> dec \<Rightarrow> dec \<Rightarrow> dec" where
  "vl_dec_add ctx a b = add_signed ctx a b False"

definition vl_dec_sub :: "int \<Rightarrow> dec \<Rightarrow> dec \<Rightarrow> dec" where
  "vl_dec_sub ctx a b = add_signed ctx a b True"

text \<open>Two decimals that can be written with one exponent: the digits of the aligned coefficients, and
  the places of their points, can be counted.\<close>

definition aligns :: "dec \<Rightarrow> dec \<Rightarrow> bool" where
  "aligns a b \<longleftrightarrow> dec_ok a \<and> dec_ok b \<and>
     int (length (d_dig a)) < 2147483647 \<and> d_exp a + int (length (d_dig a)) < 2147483647 \<and>
     int (length (d_dig b)) < 2147483647 \<and> d_exp b + int (length (d_dig b)) < 2147483647 \<and>
     d_exp a - d_exp b + int (length (d_dig a)) < 2147483647 \<and>
     d_exp b - d_exp a + int (length (d_dig b)) < 2147483647"

lemma small_aligns: "dec_small a \<Longrightarrow> dec_small b \<Longrightarrow> aligns a b"
  using dec_smallD [of a] dec_smallD [of b] unfolding aligns_def by linarith

lemma aligns_sym: "aligns a b \<Longrightarrow> aligns b a"
  by (auto simp: aligns_def)

lemma alignsD:
  assumes "aligns a b" "e = min (d_exp a) (d_exp b)"
  shows "w32 (d_exp a - e) = d_exp a - e" "w32 (d_exp b - e) = d_exp b - e"
    "can_scale a (d_exp a - e)" "can_scale b (d_exp b - e)" "dec_ok a" "dec_ok b"
    "- 2147483648 < e" "e \<le> 2147483647"
    "int (length (d_dig (scale a (d_exp a - e)))) < 2147483647"
    "int (length (d_dig (scale b (d_exp b - e)))) < 2147483647"
    "e + int (length (d_dig (scale a (d_exp a - e)))) < 2147483647"
    "e + int (length (d_dig (scale b (d_exp b - e)))) < 2147483647"
proof -
  note a = assms(1) [unfolded aligns_def]
  note oka = dec_okD [OF conjunct1 [OF a]] and okb = dec_okD [OF conjunct1 [OF conjunct2 [OF a]]]
  have e: "e \<le> d_exp a" "e \<le> d_exp b" "e = d_exp a \<or> e = d_exp b" using assms(2) by auto
  show "w32 (d_exp a - e) = d_exp a - e" "w32 (d_exp b - e) = d_exp b - e"
    "dec_ok a" "dec_ok b" "- 2147483648 < e" "e \<le> 2147483647"
    using e a oka(4,5) okb(4,5) by auto
  show c: "can_scale a (d_exp a - e)" "can_scale b (d_exp b - e)"
    using e a oka(4,5) okb(4,5) by (auto simp: can_scale_def)
  have "max 0 (d_exp a - e) = d_exp a - e" "max 0 (d_exp b - e) = d_exp b - e" using e by auto
  with scale_length [OF c(1)] scale_length [OF c(2)]
  have "int (length (d_dig (scale a (d_exp a - e)))) \<le> int (length (d_dig a)) + (d_exp a - e)"
    "int (length (d_dig (scale b (d_exp b - e)))) \<le> int (length (d_dig b)) + (d_exp b - e)" by simp_all
  with e a show "int (length (d_dig (scale a (d_exp a - e)))) < 2147483647"
    "int (length (d_dig (scale b (d_exp b - e)))) < 2147483647"
    "e + int (length (d_dig (scale a (d_exp a - e)))) < 2147483647"
    "e + int (length (d_dig (scale b (d_exp b - e)))) < 2147483647" by auto
qed

lemma add_exact_correct:
  assumes al: "aligns a b"
  shows "dec_room (add_exact a b s)"
    and "dec_rat (add_exact a b s) = dec_rat a + (if s then - dec_rat b else dec_rat b)"
proof -
  define e where "e = min (d_exp a) (d_exp b)"
  note al' = alignsD [OF al e_def]
  define x where "x = scale a (d_exp a - e)"
  define y where "y = scale b (d_exp b - e)"
  define yn where "yn = (if s then \<not> d_neg y else d_neg y)"
  have ok: "dec_ok x" "dec_ok y" using al' by (simp_all add: x_def y_def)
  note okx = dec_okD [OF ok(1)] and oky = dec_okD [OF ok(2)]
  let ?cx = "dval (d_dig x)" and ?cy = "dval (d_dig y)"
  have cmp: "cmp_mag (d_dig x) (d_dig y) = sgn (int ?cx - int ?cy)"
    using okx oky by (intro cmp_mag_sgn)
  have cx: "sg (d_neg x) * of_nat ?cx * p10 e = dec_rat a"
    using scale_coef [OF al'(3)] by (simp add: x_def e_def)
  have cy: "sg (d_neg y) * of_nat ?cy * p10 e = dec_rat b"
    using scale_coef [OF al'(4)] by (simp add: y_def e_def)
  have cy': "sg yn * of_nat ?cy * p10 e = (if s then - dec_rat b else dec_rat b)"
    using cy by (simp add: yn_def)
  have eq: "add_exact a b s =
    (if d_neg x = yn then make (d_neg x) (add_mag (d_dig x) (d_dig y)) e
     else if ?cx = ?cy then vl_dec_from_int 0
     else if ?cy < ?cx then make (d_neg x) (sub_mag (d_dig x) (d_dig y)) e
     else make yn (sub_mag (d_dig y) (d_dig x)) e)"
    unfolding add_exact_def Let_def e_def [symmetric] al'(1,2) x_def [symmetric] y_def [symmetric]
      yn_def [symmetric] cmp
    by (simp add: sgn_if)
  note add = add_mag_correct [OF okx(1) oky(1)]
  note sub = sub_mag_correct [OF okx(1) oky(1)] and sub' = sub_mag_correct [OF oky(1) okx(1)]
  have l: "add_mag (d_dig x) (d_dig y) \<noteq> []" "sub_mag (d_dig x) (d_dig y) \<noteq> []" "sub_mag (d_dig y) (d_dig x) \<noteq> []"
    using okx(2) oky(2) by (metis add_mag_length sub_mag_length add_is_0 length_0_conv zero_neq_one)+
  note len = al'(7-12) [folded x_def y_def]
  have room: "dec_room (make n (add_mag (d_dig x) (d_dig y)) e)"
    "?cy \<le> ?cx \<Longrightarrow> dec_room (make n (sub_mag (d_dig x) (d_dig y)) e)"
    "?cx \<le> ?cy \<Longrightarrow> dec_room (make n (sub_mag (d_dig y) (d_dig x)) e)" for n
    using add(2) sub(2) sub'(2) l len by (auto intro!: make_room)
  show "dec_room (add_exact a b s)"
    using room dec_small_room [OF from_int_small, of 0] by (auto simp: eq i64_def)
  consider (same) "d_neg x = yn" | (eq) "d_neg x \<noteq> yn" "?cx = ?cy"
    | (gt) "d_neg x \<noteq> yn" "?cy < ?cx" | (lt) "d_neg x \<noteq> yn" "?cx < ?cy" by linarith
  then show "dec_rat (add_exact a b s) = dec_rat a + (if s then - dec_rat b else dec_rat b)"
  proof cases
    case same
    then show ?thesis using add(1) unfolding cx [symmetric] cy' [symmetric]
      by (simp add: eq algebra_simps)
  next
    case eq
    then have "yn = (\<not> d_neg x)" by blast
    then show ?thesis using eq unfolding cx [symmetric] cy' [symmetric]
      by (simp add: \<open>add_exact a b s = _\<close>)
  next
    case gt
    then have "yn = (\<not> d_neg x)" by blast
    then show ?thesis using gt sub unfolding cx [symmetric] cy' [symmetric]
      by (simp add: eq of_nat_diff algebra_simps)
  next
    case lt
    then have "d_neg x = (\<not> yn)" by blast
    then show ?thesis using lt sub' unfolding cx [symmetric] cy' [symmetric]
      by (simp add: eq of_nat_diff algebra_simps)
  qed
qed

lemma add_signed_ok [dec_ok_intros]: "aligns a b \<Longrightarrow> dec_ok (add_signed ctx a b s)"
  by (simp add: add_signed_def add_exact_correct round_to_ok)

lemma add_signed_sig:
  assumes "aligns a b"
  shows "sig_round (eff_digits ctx) (dec_rat a + (if s then - dec_rat b else dec_rat b))
    (dec_rat (add_signed ctx a b s))"
  using round_to_sig [OF add_exact_correct(1) [OF assms]]
  by (simp add: add_signed_def add_exact_correct(2) [OF assms])

lemma add_ok [simp, dec_ok_intros]: "aligns a b \<Longrightarrow> dec_ok (vl_dec_add ctx a b)"
  by (simp add: vl_dec_add_def add_signed_ok)

lemma sub_ok [simp, dec_ok_intros]: "aligns a b \<Longrightarrow> dec_ok (vl_dec_sub ctx a b)"
  by (simp add: vl_dec_sub_def add_signed_ok)

lemma sub_sig:
  "aligns a b \<Longrightarrow> sig_round (eff_digits ctx) (dec_rat a - dec_rat b) (dec_rat (vl_dec_sub ctx a b))"
  using add_signed_sig [of a b ctx True] by (simp add: vl_dec_sub_def)

lemma add_sig:
  "aligns a b \<Longrightarrow> sig_round (eff_digits ctx) (dec_rat a + dec_rat b) (dec_rat (vl_dec_add ctx a b))"
  using add_signed_sig [of a b ctx False] by (simp add: vl_dec_add_def)

text \<open>Rounding leaves a value with at most \<open>n\<close> significant digits alone, and never makes a
  non-zero value zero.\<close>

lemma sig_round_exact:
  assumes "sig_round n x y" "x = of_int k * p10 j" "\<bar>k\<bar> < 10 ^ n"
  shows "y = x"
proof (cases "x = 0")
  case True
  then show ?thesis using assms(1) by (auto simp: sig_round_def)
next
  case False
  from assms(1) False obtain e where e: "p10 (e + int n - 1) \<le> \<bar>x\<bar>"
    and y: "y = of_int (round_he (x / p10 e)) * p10 e" by (auto simp: sig_round_def)
  have "of_int \<bar>k\<bar> < (10::rat) ^ n"
    using assms(3) by (metis of_int_less_iff of_int_numeral of_int_power)
  then have "\<bar>x\<bar> < p10 (j + int n)"
    by (simp add: assms(2) abs_mult p10_add p10_nat mult.commute)
  with e have "e + int n - 1 < j + int n" by (metis le_less_trans p10_less_iff)
  then have le: "e \<le> j" by simp
  have "x / p10 e = of_int k * p10 (j - e)" by (simp add: assms(2) p10_diff)
  also have "\<dots> = of_int (k * 10 ^ nat (j - e))" using le by (simp add: p10_nonneg_exp)
  finally have "of_int (round_he (x / p10 e)) = x / p10 e" by (simp only: round_he_int)
  then show ?thesis by (simp add: y)
qed

lemma sig_round_zero_iff:
  assumes "sig_round n x y" "0 < n"
  shows "y = 0 \<longleftrightarrow> x = 0"
proof
  assume "x = 0"
  then show "y = 0" using assms(1) by (auto simp: sig_round_def)
next
  assume y0: "y = 0"
  show "x = 0"
  proof (rule ccontr)
    assume x: "x \<noteq> 0"
    then obtain e where e: "p10 (e + int n - 1) \<le> \<bar>x\<bar>"
      and y: "y = of_int (round_he (x / p10 e)) * p10 e"
      using assms(1) by (auto simp: sig_round_def)
    have "p10 e \<le> \<bar>x\<bar>" using e assms(2) order_trans [OF _ e, of "p10 e"] by simp
    then have "1 \<le> \<bar>x / p10 e\<bar>" by (simp add: field_simps)
    moreover have "round_he (x / p10 e) = 0" using y y0 by simp
    then have "\<bar>- (x / p10 e)\<bar> \<le> 1 / 2" using round_he_error [of "x / p10 e"] by simp
    ultimately show False by linarith
  qed
qed

text \<open>Correct rounding is monotone, also across a decade boundary.\<close>

lemma round_he_mono: "x \<le> y \<Longrightarrow> round_he x \<le> round_he y"
proof (cases "\<lfloor>x\<rfloor> = \<lfloor>y\<rfloor>")
  case True
  assume "x \<le> y"
  with True show ?thesis by (auto simp: round_he_def Let_def)
next
  case False
  assume "x \<le> y"
  with False have "\<lfloor>x\<rfloor> + 1 \<le> \<lfloor>y\<rfloor>" using floor_mono [of x y] by simp
  moreover have "round_he x \<le> \<lfloor>x\<rfloor> + 1" "\<lfloor>y\<rfloor> \<le> round_he y" by (simp_all add: round_he_def Let_def)
  ultimately show ?thesis by simp
qed

lemma sig_round_minus: "sig_round n x y \<Longrightarrow> sig_round n (- x) (- y)"
  by (auto simp: sig_round_def round_he_minus simp flip: minus_divide_left)

lemma sig_round_pos:
  assumes "sig_round n x y" "0 < x" "0 < n"
  obtains e where "p10 (e + int n - 1) \<le> x" "x < p10 (e + int n)" "y = of_int (round_he (x / p10 e)) * p10 e"
    "p10 (e + int n - 1) \<le> y" "y \<le> p10 (e + int n)"
proof -
  from assms obtain e where e: "p10 (e + int n - 1) \<le> x" "x < p10 (e + int n)"
    and y: "y = of_int (round_he (x / p10 e)) * p10 e"
    by (auto simp: sig_round_def)
  have lo: "p10 (e + int n - 1) = of_int (10 ^ (n - 1)) * p10 e"
    and hi: "p10 (e + int n) = of_int (10 ^ n) * p10 e"
  proof -
    have "e + int n - 1 = int (n - 1) + e" "e + int n = int n + e" using assms(3) by simp_all
    then show "p10 (e + int n - 1) = of_int (10 ^ (n - 1)) * p10 e"
      "p10 (e + int n) = of_int (10 ^ n) * p10 e"
      by (simp_all only: p10_add p10_nat of_int_power of_int_numeral)
  qed
  have "of_int (10 ^ (n - 1)) \<le> x / p10 e" "x / p10 e \<le> of_int (10 ^ n)"
    using e unfolding lo hi by (simp_all only: pos_le_divide_eq pos_divide_le_eq p10_pos less_imp_le)
  then have "10 ^ (n - 1) \<le> round_he (x / p10 e)" "round_he (x / p10 e) \<le> 10 ^ n"
    using round_he_mono round_he_int by metis+
  then have "p10 (e + int n - 1) \<le> y" "y \<le> p10 (e + int n)"
    unfolding y lo hi by (simp_all only: mult_right_mono p10_nonneg of_int_le_iff)
  with e y that show thesis by blast
qed

lemma sig_round_mono_pos:
  assumes "sig_round n x x'" "sig_round n y y'" "0 < x" "x \<le> y" "0 < n"
  shows "x' \<le> y'"
proof -
  have "0 < y" using assms(3,4) by simp
  obtain e where e: "p10 (e + int n - 1) \<le> x" "x < p10 (e + int n)"
    "x' = of_int (round_he (x / p10 e)) * p10 e" "x' \<le> p10 (e + int n)"
    using sig_round_pos [OF assms(1,3,5)] by metis
  obtain f where f: "p10 (f + int n - 1) \<le> y" "y < p10 (f + int n)"
    "y' = of_int (round_he (y / p10 f)) * p10 f" "p10 (f + int n - 1) \<le> y'"
    using sig_round_pos [OF assms(2) \<open>0 < y\<close> assms(5)] by metis
  have "p10 (e + int n - 1) < p10 (f + int n)" using e(1) f(2) assms(4) by linarith
  then have "e \<le> f" by simp
  show ?thesis
  proof (cases "e = f")
    case True
    have "x / p10 e \<le> y / p10 e" using assms(4) by (simp add: divide_right_mono)
    then show ?thesis unfolding e(3) f(3) True
      by (intro mult_right_mono) (simp_all add: round_he_mono)
  next
    case False
    with \<open>e \<le> f\<close> have "p10 (e + int n) \<le> p10 (f + int n - 1)" by simp
    with e(4) f(4) show ?thesis by linarith
  qed
qed

lemma sig_round_sgn: "sig_round n x y \<Longrightarrow> 0 < n \<Longrightarrow> 0 < x \<Longrightarrow> 0 < y"
  by (erule sig_round_pos) (auto intro: less_le_trans [OF p10_pos])

lemma sig_round_mono:
  assumes "sig_round n x x'" "sig_round n y y'" "x \<le> y" "0 < n"
  shows "x' \<le> y'"
proof -
  consider "0 < x" | "y < 0" | "x \<le> 0" "0 \<le> y" by linarith
  then show ?thesis
  proof cases
    case 1
    show ?thesis by (rule sig_round_mono_pos [OF assms(1,2) 1 assms(3,4)])
  next
    case 2
    then have "- y' \<le> - x'"
      using sig_round_mono_pos [OF sig_round_minus [OF assms(2)] sig_round_minus [OF assms(1)]] assms
      by simp
    then show ?thesis by simp
  next
    case 3
    have "x' \<le> 0"
      using 3(1) sig_round_sgn [OF sig_round_minus [OF assms(1)] assms(4)] sig_round_zero_iff [OF assms(1,4)]
      by (cases "x = 0") auto
    moreover have "0 \<le> y'"
      using 3(2) sig_round_sgn [OF assms(2,4)] sig_round_zero_iff [OF assms(2,4)]
      by (cases "y = 0") auto
    ultimately show ?thesis by simp
  qed
qed

subsection \<open>The contract of correctly rounded arithmetic\<close>

text \<open>What the clients of the decimal operations rely on: on operands that are \<open>ok\<close>, every result is
  well-formed and is the exact result rounded to \<open>prec\<close> digits.  The laws follow from that alone.\<close>

locale rounded_arith =
  fixes ok :: "'d \<Rightarrow> bool" and wf :: "'d \<Rightarrow> bool" and val :: "'d \<Rightarrow> rat" and prec :: nat
    and add :: "'d \<Rightarrow> 'd \<Rightarrow> 'd" and sub :: "'d \<Rightarrow> 'd \<Rightarrow> 'd" and mul :: "'d \<Rightarrow> 'd \<Rightarrow> 'd"
  assumes prec_pos: "0 < prec"
    and add_law: "ok a \<Longrightarrow> ok b \<Longrightarrow> wf (add a b) \<and> sig_round prec (val a + val b) (val (add a b))"
    and sub_law: "ok a \<Longrightarrow> ok b \<Longrightarrow> wf (sub a b) \<and> sig_round prec (val a - val b) (val (sub a b))"
    and mul_law: "ok a \<Longrightarrow> ok b \<Longrightarrow> wf (mul a b) \<and> sig_round prec (val a * val b) (val (mul a b))"
begin

lemma add_commute: "ok a \<Longrightarrow> ok b \<Longrightarrow> val (add a b) = val (add b a)"
  using add_law [of a b] add_law [of b a] sig_round_unique by (metis add.commute)

lemma mul_commute: "ok a \<Longrightarrow> ok b \<Longrightarrow> val (mul a b) = val (mul b a)"
  using mul_law [of a b] mul_law [of b a] sig_round_unique by (metis mult.commute)

lemma sub_zero_iff: "ok a \<Longrightarrow> ok b \<Longrightarrow> val (sub a b) = 0 \<longleftrightarrow> val a = val b"
  using sub_law [of a b] sig_round_zero_iff [OF _ prec_pos] by fastforce

lemma mul_zero_iff: "ok a \<Longrightarrow> ok b \<Longrightarrow> val (mul a b) = 0 \<longleftrightarrow> val a = 0 \<or> val b = 0"
  using mul_law [of a b] sig_round_zero_iff [OF _ prec_pos] by fastforce

lemma add_mono: "ok a \<Longrightarrow> ok b \<Longrightarrow> ok c \<Longrightarrow> val a \<le> val b \<Longrightarrow> val (add a c) \<le> val (add b c)"
  using sig_round_mono [OF conjunct2 [OF add_law [of a c]] conjunct2 [OF add_law [of b c]] _ prec_pos]
  by simp

lemma sub_exact:
  "ok a \<Longrightarrow> ok b \<Longrightarrow> val a - val b = of_int k * p10 j \<Longrightarrow> \<bar>k\<bar> < 10 ^ prec \<Longrightarrow>
    val (sub a b) = val a - val b"
  using sub_law [of a b] sig_round_exact by blast

lemma mul_exact:
  "ok a \<Longrightarrow> ok b \<Longrightarrow> val a * val b = of_int k * p10 j \<Longrightarrow> \<bar>k\<bar> < 10 ^ prec \<Longrightarrow>
    val (mul a b) = val a * val b"
  using mul_law [of a b] sig_round_exact by blast

lemma add_exact_val:
  "ok a \<Longrightarrow> ok b \<Longrightarrow> val a + val b = of_int k * p10 j \<Longrightarrow> \<bar>k\<bar> < 10 ^ prec \<Longrightarrow>
    val (add a b) = val a + val b"
  using add_law [of a b] sig_round_exact by blast

end

subsection \<open>Multiplication\<close>

definition vl_dec_mul :: "int \<Rightarrow> dec \<Rightarrow> dec \<Rightarrow> dec" where
  "vl_dec_mul ctx a b =
     round_to (make (d_neg a \<noteq> d_neg b) (mul_mag (d_dig a) (d_dig b)) (w32 (d_exp a + d_exp b))) ctx"

text \<open>Factors whose product has a countable exponent and number of digits.\<close>

definition multiplies :: "dec \<Rightarrow> dec \<Rightarrow> bool" where
  "multiplies a b \<longleftrightarrow> dec_ok a \<and> dec_ok b \<and> - 2147483648 < d_exp a + d_exp b \<and>
     int (length (d_dig a)) + int (length (d_dig b)) \<le> 2147483647 \<and>
     d_exp a + d_exp b + (int (length (d_dig a)) + int (length (d_dig b))) \<le> 2147483647"

lemma small_multiplies: "dec_small a \<Longrightarrow> dec_small b \<Longrightarrow> multiplies a b"
  using dec_smallD [of a] dec_smallD [of b] unfolding multiplies_def by linarith

lemma mul_exact_room:
  assumes "multiplies a b"
  shows "vl_dec_mul ctx a b =
      round_to (make (d_neg a \<noteq> d_neg b) (mul_mag (d_dig a) (d_dig b)) (d_exp a + d_exp b)) ctx"
    and "dec_room (make (d_neg a \<noteq> d_neg b) (mul_mag (d_dig a) (d_dig b)) (d_exp a + d_exp b))"
proof -
  note m = assms [unfolded multiplies_def]
  note oka = dec_okD [OF conjunct1 [OF m]] and okb = dec_okD [OF conjunct1 [OF conjunct2 [OF m]]]
  have "w32 (d_exp a + d_exp b) = d_exp a + d_exp b" using m by (intro w32_id) linarith+
  then show "vl_dec_mul ctx a b =
      round_to (make (d_neg a \<noteq> d_neg b) (mul_mag (d_dig a) (d_dig b)) (d_exp a + d_exp b)) ctx"
    by (simp add: vl_dec_mul_def)
  have "mul_mag (d_dig a) (d_dig b) \<noteq> []"
    using oka(2) by (metis mul_mag_length add_is_0 length_0_conv)
  then show "dec_room (make (d_neg a \<noteq> d_neg b) (mul_mag (d_dig a) (d_dig b)) (d_exp a + d_exp b))"
    using m mul_mag_correct(2) [OF oka(1) okb(1)] by (intro make_room) simp_all
qed

lemma mul_ok [simp, dec_ok_intros]: "multiplies a b \<Longrightarrow> dec_ok (vl_dec_mul ctx a b)"
  unfolding mul_exact_room(1) by (intro round_to_ok mul_exact_room(2))

lemma mul_rat:
  assumes "dec_ok a" "dec_ok b"
  shows "dec_rat (make (d_neg a \<noteq> d_neg b) (mul_mag (d_dig a) (d_dig b)) (d_exp a + d_exp b)) = dec_rat a * dec_rat b"
proof -
  note m = mul_mag_correct [OF dec_okD(1) [OF assms(1)] dec_okD(1) [OF assms(2)]]
  show ?thesis by (simp only: make_rat m(1) sg_xor p10_add) (simp add: dec_rat_def)
qed

lemma mul_sig:
  assumes "multiplies a b"
  shows "sig_round (eff_digits ctx) (dec_rat a * dec_rat b) (dec_rat (vl_dec_mul ctx a b))"
proof -
  have "dec_ok a" "dec_ok b" using assms by (auto simp: multiplies_def)
  from mul_rat [OF this] round_to_sig [OF mul_exact_room(2) [OF assms], of ctx] show ?thesis
    by (simp add: mul_exact_room(1) [OF assms])
qed

text \<open>A product whose coefficient fits in the context is not rounded: its exponent is the sum.\<close>

lemma mul_unrounded:
  assumes m: "multiplies a b" and fit: "dval (d_dig a) * dval (d_dig b) < 10 ^ eff_digits ctx"
  shows "vl_dec_mul ctx a b = make (d_neg a \<noteq> d_neg b) (mul_mag (d_dig a) (d_dig b)) (d_exp a + d_exp b)"
    and "length (d_dig (vl_dec_mul ctx a b)) \<le> eff_digits ctx"
proof -
  let ?p = "make (d_neg a \<noteq> d_neg b) (mul_mag (d_dig a) (d_dig b)) (d_exp a + d_exp b)"
  note r = mul_exact_room [OF m]
  have ok: "dec_ok a" "dec_ok b" using m by (auto simp: multiplies_def)
  have "length (d_dig ?p) \<le> eff_digits ctx"
    using mul_mag_correct [OF dec_okD(1) [OF ok(1)] dec_okD(1) [OF ok(2)]] fit m
    by (intro make_length) (auto simp: multiplies_def)
  with r(1) round_to_id [of ?p ctx] show "vl_dec_mul ctx a b = ?p"
    "length (d_dig (vl_dec_mul ctx a b)) \<le> eff_digits ctx" by simp_all
qed

interpretation da: rounded_arith dec_small dec_ok dec_rat "eff_digits ctx" "vl_dec_add ctx" "vl_dec_sub ctx" "vl_dec_mul ctx"
  for ctx
  by unfold_locales (simp_all add: add_sig sub_sig mul_sig small_aligns small_multiplies)

subsection \<open>Comparison\<close>

definition vl_dec_cmp :: "dec \<Rightarrow> dec \<Rightarrow> int" where
  "vl_dec_cmp a b =
     (let za = dec_is_zero a; zb = dec_is_zero b
      in if za \<and> zb then 0
         else
           let sa = (if za then 0 else if d_neg a then - 1 else 1) :: int;
               sb = (if zb then 0 else if d_neg b then - 1 else 1)
           in if sa \<noteq> sb then (if sa < sb then - 1 else 1)
              else if sa = 0 then 0
              else
                let e = min (d_exp a) (d_exp b);
                    c = cmp_mag (d_dig (scale a (w32 (d_exp a - e)))) (d_dig (scale b (w32 (d_exp b - e))))
                in if d_neg a then - c else c)"

lemma dec_rat_sgn: "sgn (dec_rat d) = (if dec_is_zero d then 0 else if d_neg d then - 1 else 1)"
  by (simp add: dec_rat_def sgn_mult dec_is_zero_dval sg_def)

lemma vl_dec_cmp_sgn:
  assumes al: "aligns a b"
  shows "of_int (vl_dec_cmp a b) = sgn (dec_rat a - dec_rat b)"
proof -
  define e where "e = min (d_exp a) (d_exp b)"
  note al' = alignsD [OF al e_def]
  define x where "x = scale a (d_exp a - e)"
  define y where "y = scale b (d_exp b - e)"
  have ok: "dec_ok x" "dec_ok y" using al' by (simp_all add: x_def y_def)
  let ?cx = "dval (d_dig x)" and ?cy = "dval (d_dig y)"
  have cmp: "cmp_mag (d_dig x) (d_dig y) = sgn (int ?cx - int ?cy)"
    using dec_okD [OF ok(1)] dec_okD [OF ok(2)] by (intro cmp_mag_sgn)
  have ca: "dec_rat a = sg (d_neg a) * of_nat ?cx * p10 e"
    using scale_coef [OF al'(3)] by (simp add: x_def e_def scale_neg [OF al'(3) [unfolded e_def]])
  have cb: "dec_rat b = sg (d_neg b) * of_nat ?cy * p10 e"
    using scale_coef [OF al'(4)] by (simp add: y_def e_def scale_neg [OF al'(4) [unfolded e_def]])
  have sgns: "sgn (dec_rat a - dec_rat b) = of_int (sgn (int ?cx - int ?cy)) * sg (d_neg a)"
    if "d_neg a = d_neg b"
  proof -
    have "dec_rat a - dec_rat b = sg (d_neg a) * of_int (int ?cx - int ?cy) * p10 e"
      unfolding ca cb that by (simp add: algebra_simps)
    then have "sgn (dec_rat a - dec_rat b) = sg (d_neg a) * sgn (of_int (int ?cx - int ?cy))"
      by (simp add: sgn_mult sg_def)
    then show ?thesis by (simp add: sgn_if)
  qed
  show ?thesis
  proof (cases "dec_is_zero a \<or> dec_is_zero b \<or> d_neg a \<noteq> d_neg b")
    case True
    then show ?thesis
      using dec_rat_sgn [of a] dec_rat_sgn [of b]
      by (auto simp: vl_dec_cmp_def Let_def sgn_if dec_is_zero_rat split: if_splits)
  next
    case False
    then show ?thesis
      using cmp sgns
      by (simp add: vl_dec_cmp_def Let_def al'(1,2) sg_def flip: e_def x_def y_def)
  qed
qed

lemma vl_dec_cmp_cases:
  assumes "aligns a b"
  shows "vl_dec_cmp a b =
    (if dec_rat a < dec_rat b then - 1 else if dec_rat a = dec_rat b then 0 else 1)"
proof -
  have "of_int (vl_dec_cmp a b) =
      (of_int (if dec_rat a < dec_rat b then - 1 else if dec_rat a = dec_rat b then 0 else 1) :: rat)"
    unfolding vl_dec_cmp_sgn [OF assms] by (simp add: sgn_if)
  then show ?thesis by (simp only: of_int_eq_iff)
qed

subsection \<open>Division\<close>

definition vl_dec_div :: "int \<Rightarrow> dec \<Rightarrow> dec \<Rightarrow> dec result option" where
  "vl_dec_div ctx a b =
     (if dec_is_zero b then Some (Inl (Throw ''RangeError'' ''division by zero''))
      else if dec_is_zero a then Some (Inr (vl_dec_from_int 0))
      else
        let n = (if ctx \<le> 0 then 28 else ctx);
            shift = w32 (n + int (length (d_dig b)) - int (length (d_dig a)) + 1);
            num = (if 0 < shift then scale a shift else a);
            e = w32 (d_exp a - d_exp b - (if 0 < shift then shift else 0))
        in case divmod_mag (d_dig num) (d_dig b) of
             None \<Rightarrow> None
           | Some (q, r) \<Rightarrow>
               let c = cmp_mag (add_mag r r) (d_dig b);
                   up = (0 < c \<or> c = 0 \<and> q ! (length q - 1) mod 2 \<noteq> 0);
                   q' = (if up then incr q else q)
               in Some (Inr (normalize (round_to (make (d_neg a \<noteq> d_neg b) q' e) n))))"

text \<open>The quotient digits, rounded half-even on the remainder.\<close>

lemma half_even_divmod:
  assumes "digits q" "q \<noteq> []" "digits r" "r \<noteq> []" "digits b" "b \<noteq> []"
    and "dval q = n div dval b" "dval r = n mod dval b"
  shows "(let c = cmp_mag (add_mag r r) b
      in dval (if 0 < c \<or> c = 0 \<and> q ! (length q - 1) mod 2 \<noteq> 0 then incr q else q))
    = half_even n (dval b)"
proof -
  have "cmp_mag (add_mag r r) b = sgn (int (2 * dval r) - int (dval b))"
    using cmp_mag_sgn [of "add_mag r r" b] add_mag_correct [of r r] assms by simp
  moreover have "q ! (length q - 1) mod 2 \<noteq> 0 \<longleftrightarrow> odd (n div dval b)"
    unfolding assms(7) [symmetric] dval_parity [OF assms(1,2)] last_conv_nth [OF assms(2)]
    by presburger
  ultimately show ?thesis
    unfolding Let_def half_even_def assms(8) [symmetric]
    using incr_props(2) [OF assms(1)] assms(7) by (auto simp: sgn_if)
qed

text \<open>What a division computes: the quotient rounded at an exponent \<open>e\<close> that leaves more
  than \<open>n\<close> digits, and that result rounded again to \<open>n\<close> digits.\<close>

lemma vl_dec_div_rounds:
  assumes small: "dec_small a" "dec_small b" and ctx: "ctx \<le> 100000000"
    and nz: "\<not> dec_is_zero a" "\<not> dec_is_zero b"
  obtains d e z where "vl_dec_div ctx a b = Some (Inr d)" "dec_ok d"
    "p10 (e + int (eff_digits ctx)) < \<bar>dec_rat a / dec_rat b\<bar>"
    "z = of_int (round_he (dec_rat a / dec_rat b / p10 e)) * p10 e"
    "sig_round (eff_digits ctx) z (dec_rat d)"
proof -
  note ok = dec_smallD(1) [OF small(1)] dec_smallD(1) [OF small(2)]
  define n where "n = int (eff_digits ctx)"
  have n: "n = (if ctx \<le> 0 then 28 else ctx)" by (simp add: n_def eff_digits_def)
  let ?nb = "length (d_dig b)" and ?na = "length (d_dig a)"
  define shift where "shift = n + int ?nb - int ?na + 1"
  define s where "s = (if 0 < shift then shift else 0)"
  define num where "num = (if 0 < shift then scale a shift else a)"
  define e where "e = d_exp a - d_exp b - s"
  note sa = dec_smallD [OF small(1)] and sb = dec_smallD [OF small(2)]
  have n1: "1 \<le> n" "n \<le> 100000000" using n ctx by (simp_all split: if_splits)
  have na: "1 \<le> int ?na" "1 \<le> int ?nb" using dec_okD(2) [OF ok(1)] dec_okD(2) [OF ok(2)] by (simp_all add: Suc_leI)
  have s: "0 \<le> s" "s \<le> 120000001" "shift \<le> s" "s = 0 \<or> s = shift"
    using n1 na sb by (auto simp: s_def shift_def)
  have w: "w32 (n + int ?nb - int ?na + 1) = shift" "w32 (d_exp a - d_exp b - s) = e"
    using n1 na sa sb s unfolding shift_def e_def by (intro w32_id; linarith)+
  have can: "can_scale a shift"
    using ok(1) n1 na sa sb s unfolding can_scale_def by (intro conjI disjI2) linarith+
  have nok: "dec_ok num" using ok can by (simp add: num_def)
  have nl: "int (length (d_dig num)) \<le> int ?na + s"
    using scale_length [OF can] s by (auto simp: num_def s_def)
  have nz': "\<not> dec_is_zero num" using nz can by (simp add: num_def dec_is_zero_rat)
  have ca: "0 < dval (d_dig a)" and cb: "0 < dval (d_dig b)"
    using nz by (simp_all add: dec_is_zero_dval)
  have N: "dval (d_dig num) = dval (d_dig a) * 10 ^ nat s"
    using ca by (simp add: num_def s_def scale_exact [OF can] make_def Let_def all0_dval dval_append)
  note okn = dec_okD [OF nok] and okb = dec_okD [OF ok(2)]
  obtain q r where qr: "divmod_mag (d_dig num) (d_dig b) = Some (q, r)" "length q = length (d_dig num)"
    "dval q = dval (d_dig num) div dval (d_dig b)" "dval r = dval (d_dig num) mod dval (d_dig b)"
    "digits q" "digits r" "r \<noteq> []"
    using divmod_mag_correct [OF okn(1,2) okb(1,2) cb] by blast
  have qne: "q \<noteq> []" using qr(2) okn(2) by (metis length_0_conv)
  define c where "c = cmp_mag (add_mag r r) (d_dig b)"
  define q' where "q' = (if 0 < c \<or> c = 0 \<and> q ! (length q - 1) mod 2 \<noteq> 0 then incr q else q)"
  define out where "out = make (d_neg a \<noteq> d_neg b) q' e"
  have dq: "digits q'" using incr_props(1) [OF qr(5)] qr(5) by (simp add: q'_def)
  have lq: "int (length q') \<le> int ?na + s + 1" "q' \<noteq> []"
    using incr_props(3) [OF qr(5)] qr(2) nl qne by (auto simp: q'_def)
  have room: "dec_room out"
    unfolding out_def by (rule make_room [OF dq]) (use lq sa sb s in \<open>simp_all add: e_def\<close>)
  have vq: "dval q' = half_even (dval (d_dig num)) (dval (d_dig b))"
    using half_even_divmod [OF qr(5) qne qr(6,7) okb(1,2) qr(3,4)]
    by (simp add: q'_def c_def Let_def)
  have quo: "dec_rat a / dec_rat b / p10 e
      = sg (d_neg a \<noteq> d_neg b) * of_nat (dval (d_dig num)) / of_nat (dval (d_dig b))"
  proof -
    have "p10 s = 10 ^ nat s" by (simp add: s_def p10_nonneg_exp)
    moreover have "sg (d_neg a) / sg (d_neg b) = sg (d_neg a \<noteq> d_neg b)" by (simp add: sg_def)
    ultimately show ?thesis
      unfolding N e_def p10_diff dec_rat_def
      by (simp add: field_simps)
  qed
  have z: "dec_rat out = of_int (round_he (dec_rat a / dec_rat b / p10 e)) * p10 e"
    unfolding quo round_he_signed [OF cb] by (simp add: out_def vq sg_def)
  have res: "vl_dec_div ctx a b = Some (Inr (normalize (round_to out n)))"
    unfolding vl_dec_div_def Let_def n [symmetric] w s_def [symmetric] num_def [symmetric]
    using nz by (simp add: qr(1) out_def q'_def c_def)
  have big: "p10 (e + n) < \<bar>dec_rat a / dec_rat b\<bar>"
  proof -
    let ?x = "sg (d_neg a \<noteq> d_neg b) * of_nat (dval (d_dig num)) / (of_nat (dval (d_dig b)) :: rat)"
    have l: "n + int ?nb + 1 \<le> int (length (d_dig num))"
    proof (cases "0 < shift")
      case True
      have "length (d_dig num) = ?na + nat shift"
        using True ca dec_okD(2,3) [OF ok(1)] dec_ok_hd [OF ok(1) nz(1)]
        by (simp add: num_def scale_exact [OF can] make_def Let_def all0_dval dval_append strip0_id stripped_def)
      then show ?thesis using True by (simp add: shift_def)
    next
      case False
      then show ?thesis by (simp add: num_def shift_def)
    qed
    have "10 ^ nat n * dval (d_dig b) < 10 ^ nat n * 10 ^ ?nb"
      using dec_ok_decade(2) [OF ok(2) nz(2)] by simp
    also have "\<dots> = 10 ^ (nat n + ?nb)" by (simp add: power_add)
    also have "\<dots> \<le> 10 ^ (length (d_dig num) - 1)"
      using l by (intro power_increasing) (auto simp: n_def)
    also have "\<dots> \<le> dval (d_dig num)" by (rule dec_ok_decade(1) [OF nok nz'])
    finally have "(of_nat (10 ^ nat n * dval (d_dig b)) :: rat) < of_nat (dval (d_dig num))"
      by (simp only: of_nat_less_iff)
    then have "10 ^ nat n < \<bar>?x\<bar>"
      using cb by (simp add: abs_mult field_simps)
    moreover have "p10 n = 10 ^ nat n" by (simp add: n_def p10_nonneg_exp)
    ultimately have "p10 n < \<bar>dec_rat a / dec_rat b / p10 e\<bar>" by (simp only: quo)
    moreover have "\<bar>x / p10 e\<bar> = \<bar>x\<bar> / p10 e" for x by simp
    ultimately have "p10 n < \<bar>dec_rat a / dec_rat b\<bar> / p10 e" by metis
    then have "p10 n * p10 e < \<bar>dec_rat a / dec_rat b\<bar>"
      by (simp only: pos_less_divide_eq p10_pos)
    then show ?thesis by (simp only: p10_add mult.commute)
  qed
  have "eff_digits n = eff_digits ctx" by (simp add: n_def eff_digits_def)
  then have "sig_round (eff_digits ctx) (dec_rat out) (dec_rat (normalize (round_to out n)))"
    using round_to_sig [OF room, of n] round_to_ok [OF room, of n] by simp
  moreover have "dec_ok (normalize (round_to out n))" using round_to_ok [OF room] by simp
  ultimately show thesis using that [of _ e "dec_rat out"] res big z by (simp add: n_def)
qed


lemma vl_dec_div_0: "\<not> dec_is_zero b \<Longrightarrow> dec_is_zero a \<Longrightarrow>
    vl_dec_div ctx a b = Some (Inr (vl_dec_from_int 0))"
  by (simp add: vl_dec_div_def)

text \<open>A quotient that fits in the context is exact.\<close>

lemma vl_dec_div_exact:
  assumes ok: "dec_small a" "dec_small b" and ctx: "ctx \<le> 100000000" and nz: "\<not> dec_is_zero b"
    and q: "dec_rat a / dec_rat b = of_int k * p10 j" "\<bar>k\<bar> < 10 ^ eff_digits ctx"
  obtains d where "vl_dec_div ctx a b = Some (Inr d)" "dec_ok d" "dec_rat d = dec_rat a / dec_rat b"
proof (cases "dec_is_zero a")
  case True
  then show thesis using that [of "vl_dec_from_int 0"] nz
    by (simp add: vl_dec_div_0 dec_is_zero_rat dec_smallD)
next
  case False
  obtain d e z where d: "vl_dec_div ctx a b = Some (Inr d)" "dec_ok d"
    and big: "p10 (e + int (eff_digits ctx)) < \<bar>dec_rat a / dec_rat b\<bar>"
    and z: "z = of_int (round_he (dec_rat a / dec_rat b / p10 e)) * p10 e"
    and s: "sig_round (eff_digits ctx) z (dec_rat d)"
    using vl_dec_div_rounds [OF ok ctx False nz] by metis
  have "of_int \<bar>k\<bar> < (10::rat) ^ eff_digits ctx"
    using q(2) by (metis of_int_less_iff of_int_numeral of_int_power)
  then have "\<bar>dec_rat a / dec_rat b\<bar> < p10 (j + int (eff_digits ctx))"
    by (simp add: q(1) abs_mult p10_add p10_nat mult.commute)
  with big have "e + int (eff_digits ctx) < j + int (eff_digits ctx)"
    by (metis less_trans p10_less_iff)
  then have le: "e \<le> j" by simp
  have "dec_rat a / dec_rat b / p10 e = of_int (k * 10 ^ nat (j - e))"
    using le by (simp add: q(1) p10_diff flip: p10_nonneg_exp)
  then have "of_int (round_he (dec_rat a / dec_rat b / p10 e)) = dec_rat a / dec_rat b / p10 e"
    by (simp only: round_he_int)
  then have "z = dec_rat a / dec_rat b" by (simp add: z)
  with s q have "dec_rat d = dec_rat a / dec_rat b"
    by (metis sig_round_exact)
  with d show thesis by (rule that)
qed


subsection \<open>Properties\<close>

text \<open>C37. Addition and subtraction of small decimals (exponent within 999999999, at most twenty million
  digits) return well-formed decimals, and each result is the exact sum or difference rounded half-even,
  once, to the context's significant digits, whatever the signs and the distance of the exponents.\<close>

theorem dec_add_sub_correct:
  assumes "dec_small a" "dec_small b"
  shows "dec_ok (vl_dec_add ctx a b) \<and> dec_ok (vl_dec_sub ctx a b) \<and>
    sig_round (eff_digits ctx) (dec_rat a + dec_rat b) (dec_rat (vl_dec_add ctx a b)) \<and>
    sig_round (eff_digits ctx) (dec_rat a - dec_rat b) (dec_rat (vl_dec_sub ctx a b))"
  using da.add_law [OF assms] da.sub_law [OF assms] by simp

theorem dec_add_sub_correct_witness:
  "let a = \<lparr>d_neg = False, d_exp = - 2, d_dig = [1, 9, 9, 9]\<rparr>;
       b = \<lparr>d_neg = True, d_exp = 1, d_dig = [7]\<rparr>
   in dec_ok (vl_dec_add 3 a b) \<and> dec_ok (vl_dec_sub 3 a b) \<and>
    sig_round (eff_digits 3) (dec_rat a + dec_rat b) (dec_rat (vl_dec_add 3 a b)) \<and>
    sig_round (eff_digits 3) (dec_rat a - dec_rat b) (dec_rat (vl_dec_sub 3 a b))"
  unfolding Let_def by (rule dec_add_sub_correct) (simp_all add: dec_small_def dec_ok_def)

text \<open>C38. Multiplication of small decimals is the exact product rounded half-even once; a product that
  fits in the context is exact.\<close>

theorem dec_mul_correct:
  assumes "dec_small a" "dec_small b"
  shows "dec_ok (vl_dec_mul ctx a b) \<and>
    sig_round (eff_digits ctx) (dec_rat a * dec_rat b) (dec_rat (vl_dec_mul ctx a b)) \<and>
    (dval (d_dig a) * dval (d_dig b) < 10 ^ eff_digits ctx \<longrightarrow>
      dec_rat (vl_dec_mul ctx a b) = dec_rat a * dec_rat b)"
proof -
  have "dec_rat (vl_dec_mul ctx a b) = dec_rat a * dec_rat b"
    if "dval (d_dig a) * dval (d_dig b) < 10 ^ eff_digits ctx"
    using mul_unrounded(1) [OF small_multiplies [OF assms] that] mul_rat dec_smallD(1) assms by metis
  then show ?thesis using da.mul_law [OF assms] by blast
qed

theorem dec_mul_correct_witness:
  "let a = \<lparr>d_neg = False, d_exp = - 2, d_dig = [1, 9, 9, 9]\<rparr>;
       b = \<lparr>d_neg = True, d_exp = 0, d_dig = [3]\<rparr>
   in dec_rat (vl_dec_mul 28 a b) = dec_rat a * dec_rat b \<and> dec_rat a * dec_rat b = - 5997 / 100"
proof -
  let ?a = "\<lparr>d_neg = False, d_exp = - 2, d_dig = [1, 9, 9, 9]\<rparr>"
  let ?b = "\<lparr>d_neg = True, d_exp = 0, d_dig = [3]\<rparr>"
  have "dec_small ?a" "dec_small ?b" by (simp_all add: dec_small_def dec_ok_def)
  from dec_mul_correct [OF this, of 28] show ?thesis
    by (simp add: dval_Cons eff_digits_def dec_rat_def p10_def)
qed



text \<open>A quotient that has at most the context's digits is computed exactly.\<close>

theorem dec_div_exact:
  assumes "dec_small a" "dec_small b" "ctx \<le> 100000000" "\<not> dec_is_zero b"
    and "dec_rat a / dec_rat b = of_int k * p10 j" "\<bar>k\<bar> < 10 ^ eff_digits ctx"
  shows "\<exists>d. vl_dec_div ctx a b = Some (Inr d) \<and> dec_ok d \<and> dec_rat d = dec_rat a / dec_rat b"
  using vl_dec_div_exact [OF assms] by metis

theorem dec_div_exact_witness:
  "let a = \<lparr>d_neg = False, d_exp = 0, d_dig = [1]\<rparr>; b = \<lparr>d_neg = False, d_exp = 0, d_dig = [8]\<rparr>
   in \<exists>d. vl_dec_div 3 a b = Some (Inr d) \<and> dec_ok d \<and> dec_rat d = dec_rat a / dec_rat b"
  unfolding Let_def
  by (rule dec_div_exact [where k = 125 and j = "- 3"])
    (simp_all add: dec_small_def dec_ok_def dec_is_zero_def dec_rat_def p10_def eff_digits_def)

definition div_num :: dec where
  "div_num = \<lparr>d_neg = False, d_exp = 0, d_dig = [1,8,0,0,0,0,0,0,0,0,0,0,0,0,0,0,0,0,0,0,0,0,0,0,0,0,0,1,3,2]\<rparr>"

definition div_den :: dec where
  "div_den = \<lparr>d_neg = False, d_exp = 0, d_dig = [9]\<rparr>"

text \<open>Division is not correctly rounded, although \<^verbatim>\<open>dec.c\<close>'s header promises exactly one
  half-even rounding: with the default 28 digits \<^verbatim>\<open>180000000000000000000000000132 / 9\<close> is
  \<^verbatim>\<open>20000000000000000000000000014.66...\<close>, whose 28-digit rounding ends in \<^verbatim>\<open>01\<close>; the code first
  rounds it to \<^verbatim>\<open>...015\<close> and then, on that tie, to \<^verbatim>\<open>...02\<close>.\<close>

theorem dec_div_rounds_twice:
  "\<exists>d. vl_dec_div 28 div_num div_den = Some (Inr d) \<and>
    dec_rat d = 20000000000000000000000000020 \<and>
    sig_round 28 (dec_rat div_num / dec_rat div_den) 20000000000000000000000000010 \<and>
    \<not> sig_round 28 (dec_rat div_num / dec_rat div_den) (dec_rat d)"
proof -
  let ?d = "\<lparr>d_neg = False, d_exp = 1, d_dig = [2,0,0,0,0,0,0,0,0,0,0,0,0,0,0,0,0,0,0,0,0,0,0,0,0,0,0,2]\<rparr>"
  have 1: "vl_dec_div 28 div_num div_den = Some (Inr ?d)" by code_simp
  have 2: "dec_rat ?d = 20000000000000000000000000020"
    by (simp add: dec_rat_def dval_def p10_def)
  have q: "dec_rat div_num / dec_rat div_den = 60000000000000000000000000044 / 3"
    by (simp add: dec_rat_def div_num_def div_den_def dval_def)
  have 3: "sig_round 28 (60000000000000000000000000044 / 3) 20000000000000000000000000010"
  proof -
    have f: "\<lfloor>30000000000000000000000000022 / 15 :: rat\<rfloor> = 2000000000000000000000000001"
      by (rule floor_unique) simp_all
    show ?thesis unfolding sig_round_def
      by (intro disjI2 exI [of _ 1]) (simp add: p10_def round_he_def Let_def f)
  qed
  have 4: "\<not> sig_round 28 (60000000000000000000000000044 / 3) 20000000000000000000000000020"
  proof
    assume "sig_round 28 (60000000000000000000000000044 / 3) 20000000000000000000000000020"
    from sig_round_unique [OF 3 this] show False by simp
  qed
  show ?thesis
    unfolding q by (intro exI conjI, rule 1, rule 2, rule 3, unfold 2, rule 4)
qed

text \<open>\<^verbatim>\<open>vl_dec_cmp\<close> orders small decimals by value, however they are represented.\<close>

theorem dec_cmp_correct:
  assumes "dec_small a" "dec_small b"
  shows "vl_dec_cmp a b =
    (if dec_rat a < dec_rat b then - 1 else if dec_rat a = dec_rat b then 0 else 1)"
  by (rule vl_dec_cmp_cases [OF small_aligns [OF assms]])

theorem dec_cmp_correct_witness:
  "vl_dec_cmp \<lparr>d_neg = False, d_exp = - 2, d_dig = [1, 5, 0]\<rparr> \<lparr>d_neg = False, d_exp = - 1, d_dig = [1, 5]\<rparr> = 0"
proof -
  let ?a = "\<lparr>d_neg = False, d_exp = - 2, d_dig = [1, 5, 0]\<rparr>" and ?b = "\<lparr>d_neg = False, d_exp = - 1, d_dig = [1, 5]\<rparr>"
  have "dec_small ?a" "dec_small ?b" by (simp_all add: dec_small_def dec_ok_def)
  from dec_cmp_correct [OF this] show ?thesis by (simp add: dec_rat_def dval_Cons p10_def)
qed

text \<open>The laws a program may use although every operation rounds: sums and products commute
  in value, a difference is zero exactly when the operands are equal, a product exactly when a
  factor is zero, and adding the same decimal keeps the order.\<close>

theorem dec_arith_laws:
  assumes "dec_small a" "dec_small b" "dec_small c"
  shows "dec_rat (vl_dec_add ctx a b) = dec_rat (vl_dec_add ctx b a) \<and>
    dec_rat (vl_dec_mul ctx a b) = dec_rat (vl_dec_mul ctx b a) \<and>
    (dec_rat (vl_dec_sub ctx a b) = 0 \<longleftrightarrow> dec_rat a = dec_rat b) \<and>
    (dec_rat (vl_dec_mul ctx a b) = 0 \<longleftrightarrow> dec_rat a = 0 \<or> dec_rat b = 0) \<and>
    (dec_rat a \<le> dec_rat b \<longrightarrow> dec_rat (vl_dec_add ctx a c) \<le> dec_rat (vl_dec_add ctx b c))"
  using da.add_commute [OF assms(1,2)] da.mul_commute [OF assms(1,2)] da.sub_zero_iff [OF assms(1,2)]
    da.mul_zero_iff [OF assms(1,2)] da.add_mono [OF assms] by blast

theorem dec_arith_laws_witness:
  "let a = \<lparr>d_neg = False, d_exp = - 2, d_dig = [1, 5, 0]\<rparr>; b = \<lparr>d_neg = True, d_exp = 0, d_dig = [7]\<rparr>
   in dec_rat (vl_dec_add 2 a b) = dec_rat (vl_dec_add 2 b a) \<and> dec_rat (vl_dec_sub 2 a a) = 0"
proof -
  let ?a = "\<lparr>d_neg = False, d_exp = - 2, d_dig = [1, 5, 0]\<rparr>" and ?b = "\<lparr>d_neg = True, d_exp = 0, d_dig = [7]\<rparr>"
  have "dec_small ?a" "dec_small ?b" by (simp_all add: dec_small_def dec_ok_def)
  then show ?thesis
    using dec_arith_laws [of ?a ?b ?a 2] dec_arith_laws [of ?a ?a ?a 2] unfolding Let_def by blast
qed

subsection \<open>Beyond the bounds\<close>

definition big_dec :: dec where
  "big_dec = \<lparr>d_neg = False, d_exp = 999999999, d_dig = [1]\<rparr>"

definition tiny_dec :: dec where
  "tiny_dec = \<lparr>d_neg = False, d_exp = - 999999999, d_dig = [1]\<rparr>"

text \<open>The operands of the theorems above are small, and their results need not be: nothing checks the
  exponent of a result.  The square of the largest decimal of one digit the parser accepts has exponent
  1999999998; its product with the same decimal once more has an exponent beyond \<^verbatim>\<open>int\<close>, which wraps, so
  the product of three numbers above one is below one.\<close>

theorem dec_mul_exponent_overflow:
  "dec_small big_dec \<and> 1 < dec_rat big_dec \<and>
   d_exp (vl_dec_mul 28 big_dec big_dec) = 1999999998 \<and>
   \<not> i32 (d_exp (vl_dec_mul 28 big_dec big_dec) + d_exp big_dec) \<and>
   dec_rat (vl_dec_mul 28 (vl_dec_mul 28 big_dec big_dec) big_dec) < 1"
proof -
  have sq: "vl_dec_mul 28 big_dec big_dec = \<lparr>d_neg = False, d_exp = 1999999998, d_dig = [1]\<rparr>" by code_simp
  have cu: "vl_dec_mul 28 \<lparr>d_neg = False, d_exp = 1999999998, d_dig = [1]\<rparr> big_dec
      = \<lparr>d_neg = False, d_exp = - 1294967299, d_dig = [1]\<rparr>" by code_simp
  have p: "1 < p10 999999999" "p10 (- 1294967299) < 1"
    using p10_strict_mono [of 0 999999999] p10_strict_mono [of "- 1294967299" 0] by simp_all
  show ?thesis
    unfolding sq cu using p
    by (simp add: dec_small_def dec_ok_def big_dec_def dec_rat_def dval_Cons i32_def)
qed

text \<open>\<^verbatim>\<open>vl_dec_cmp\<close> subtracts exponents: \<^verbatim>\<open>1E1999999998\<close>, that square, against \<^verbatim>\<open>1E-999999999\<close> gives
  2999999997, which wraps to a negative shift, no coefficient is scaled, and the two are reported
  equal.\<close>

theorem dec_cmp_overflow:
  "dec_small tiny_dec \<and> dec_rat tiny_dec < dec_rat (vl_dec_mul 28 big_dec big_dec) \<and>
   \<not> i32 (d_exp (vl_dec_mul 28 big_dec big_dec) - d_exp tiny_dec) \<and>
   vl_dec_cmp (vl_dec_mul 28 big_dec big_dec) tiny_dec = 0"
proof -
  have sq: "vl_dec_mul 28 big_dec big_dec = \<lparr>d_neg = False, d_exp = 1999999998, d_dig = [1]\<rparr>" by code_simp
  have c: "vl_dec_cmp \<lparr>d_neg = False, d_exp = 1999999998, d_dig = [1]\<rparr> tiny_dec = 0" by code_simp
  have p: "p10 (- 999999999) < p10 1999999998" by simp
  show ?thesis
    unfolding sq c using p
    by (simp add: dec_small_def dec_ok_def tiny_dec_def dec_rat_def dval_Cons i32_def)
qed

end
