(* ===== verification/DecShape.thy ===== *)
theory DecShape
  imports DecOps
begin

section \<open>Integer-valued and shaping operations of decimals (dec.c)\<close>

text \<open>
  \<^verbatim>\<open>vl_dec_idiv\<close>, \<^verbatim>\<open>vl_dec_mod\<close>, \<^verbatim>\<open>vl_dec_pow\<close>, and the shape functions \<^verbatim>\<open>abs\<close>,
  \<^verbatim>\<open>neg\<close>, \<^verbatim>\<open>round\<close>, \<^verbatim>\<open>trunc\<close>, \<^verbatim>\<open>floor\<close>, \<^verbatim>\<open>ceil\<close>, \<^verbatim>\<open>is_int\<close> and
  \<^verbatim>\<open>to_int\<close>, related to the floor, ceiling and rounding functions of the rationals.
  As in \<open>DecOps\<close>, the theorems on values are about \<^const>\<open>dec_small\<close> decimals.
\<close>

subsection \<open>Floor division and modulus\<close>

definition vl_dec_idiv :: "int \<Rightarrow> dec \<Rightarrow> dec \<Rightarrow> dec result option" where
  "vl_dec_idiv ctx a b =
     (if dec_is_zero b then Some (Inl (Throw ''RangeError'' ''division by zero''))
      else
        let e = min (d_exp a) (d_exp b);
            x = scale a (w32 (d_exp a - e));
            y = scale b (w32 (d_exp b - e))
        in case divmod_mag (d_dig x) (d_dig y) of
             None \<Rightarrow> None
           | Some (q, r) \<Rightarrow>
               let n = (d_neg x \<noteq> d_neg y);
                   rem_nonzero = (\<not> (length r = 1 \<and> r ! 0 = 0));
                   out = make n q 0
               in if n \<and> rem_nonzero
                  then Some (Inr (add_signed ctx out (vl_dec_from_int 1) True))
                  else Some (Inr out))"

definition vl_dec_mod :: "int \<Rightarrow> dec \<Rightarrow> dec \<Rightarrow> dec result option" where
  "vl_dec_mod ctx a b =
     (case vl_dec_idiv ctx a b of
        None \<Rightarrow> None
      | Some (Inl e) \<Rightarrow> Some (Inl e)
      | Some (Inr q) \<Rightarrow> Some (Inr (vl_dec_sub ctx a (vl_dec_mul ctx q b))))"

lemma stripped_zero: "stripped r \<Longrightarrow> r \<noteq> [] \<Longrightarrow> (length r = 1 \<and> r ! 0 = 0) \<longleftrightarrow> dval r = 0"
  by (cases r) (auto simp: stripped_def dval_Cons)

lemma floor_sg:
  assumes "0 < m"
  shows "\<lfloor>sg s * of_nat n / of_nat m\<rfloor> =
    (if s then - int (n div m) - (if n mod m = 0 then 0 else 1) else int (n div m))"
proof (cases s)
  case True
  have e: "(of_nat n :: rat) = of_nat (n div m) * of_nat m + of_nat (n mod m)"
    by (metis div_mult_mod_eq of_nat_add of_nat_mult)
  have lt: "(of_nat (n mod m) :: rat) < of_nat m" using assms by simp
  have "\<lfloor>- (of_nat n / of_nat m :: rat)\<rfloor> = - int (n div m) - (if n mod m = 0 then 0 else 1)"
    using assms lt by (intro floor_unique) (auto simp: e field_simps)
  with True show ?thesis by simp
next
  case False
  then show ?thesis by (simp add: floor_divide_of_nat_eq)
qed

text \<open>Floor division, up to the rounding of the adjusted quotient.\<close>

lemma vl_dec_idiv_spec:
  assumes small: "dec_small a" "dec_small b" and nz: "\<not> dec_is_zero b"
  obtains d where "vl_dec_idiv ctx a b = Some (Inr d)" "dec_ok d"
    "dec_rat d = of_int \<lfloor>dec_rat a / dec_rat b\<rfloor> \<or>
     dec_rat a / dec_rat b < 0 \<and>
     sig_round (eff_digits ctx) (of_int \<lfloor>dec_rat a / dec_rat b\<rfloor>) (dec_rat d)"
    "\<bar>\<lfloor>dec_rat a / dec_rat b\<rfloor>\<bar> < 10 ^ eff_digits ctx \<Longrightarrow>
     d_exp d = 0 \<and> length (d_dig d) \<le> eff_digits ctx"
proof -
  define e where "e = min (d_exp a) (d_exp b)"
  note al = alignsD [OF small_aligns [OF small] e_def]
  define x where "x = scale a (d_exp a - e)"
  define y where "y = scale b (d_exp b - e)"
  have xy: "dec_ok x" "dec_ok y" using al by (simp_all add: x_def y_def)
  note okx = dec_okD [OF xy(1)] and oky = dec_okD [OF xy(2)]
  have "\<not> dec_is_zero y" using nz al(4) by (simp add: y_def dec_is_zero_rat)
  then have cy: "0 < dval (d_dig y)" by (simp add: dec_is_zero_dval)
  have ra: "dec_rat a = sg (d_neg x) * of_nat (dval (d_dig x)) * p10 e"
    using scale_coef [OF al(3)] by (simp add: x_def e_def)
  have rb: "dec_rat b = sg (d_neg y) * of_nat (dval (d_dig y)) * p10 e"
    using scale_coef [OF al(4)] by (simp add: y_def e_def)
  let ?n = "d_neg x \<noteq> d_neg y"
  have quo: "dec_rat a / dec_rat b = sg ?n * of_nat (dval (d_dig x)) / of_nat (dval (d_dig y))"
    unfolding ra rb by (simp add: sg_def)
  obtain q r where qr: "divmod_mag (d_dig x) (d_dig y) = Some (q, r)"
    "dval q = dval (d_dig x) div dval (d_dig y)" "dval r = dval (d_dig x) mod dval (d_dig y)"
    "digits q" "r \<noteq> []" "stripped r" "length q = length (d_dig x)"
    using divmod_mag_correct [OF okx(1,2) oky(1,2) cy] by blast
  note rz = stripped_zero [OF qr(6,5)]
  define out where "out = make ?n q 0"
  have oo: "dec_ok out" and ro: "dec_rat out = sg ?n * of_nat (dval (d_dig x) div dval (d_dig y))"
    using qr(2,4) by (simp_all add: out_def)
  have fl: "\<lfloor>dec_rat a / dec_rat b\<rfloor> = (if ?n then - int (dval (d_dig x) div dval (d_dig y)) -
      (if dval r = 0 then 0 else 1) else int (dval (d_dig x) div dval (d_dig y)))"
    unfolding quo floor_sg [OF cy] qr(3) ..
  have eq: "vl_dec_idiv ctx a b = Some (Inr (if ?n \<and> dval r \<noteq> 0
      then add_signed ctx out (vl_dec_from_int 1) True else out))"
    unfolding vl_dec_idiv_def Let_def e_def [symmetric] al(1,2) x_def [symmetric] y_def [symmetric]
    using nz rz by (cases "dval r = 0") (auto simp: qr(1) out_def)
  have xl: "int (length (d_dig x)) \<le> 2019999998"
  proof -
    have "e \<le> d_exp a" "- 999999999 \<le> e" using dec_smallD [OF small(1)] dec_smallD [OF small(2)] by (auto simp: e_def)
    then show ?thesis
      using scale_length [OF al(3)] dec_smallD [OF small(1)] by (simp add: x_def)
  qed
  have oe: "d_exp out = 0" by (auto simp: out_def make_def Let_def)
  have ol: "int (length (d_dig out)) \<le> 2019999998"
    using make_len [of ?n q 0] xl okx(2) by (simp add: out_def qr(7) Suc_leI)
  let ?one = "vl_dec_from_int 1"
  have one: "dec_small ?one" by (simp add: i64_def)
  have al1: "aligns out ?one"
    using oo oe ol dec_smallD [OF one] by (simp add: aligns_def)
  show thesis
  proof (cases "?n \<and> dval r \<noteq> 0")
    case True
    let ?d = "add_signed ctx out ?one True"
    have "0 < dval (d_dig x)" using True qr(3) by (metis gr0I mod_0)
    then have "dec_rat a / dec_rat b < 0"
      using True cy unfolding quo by (simp add: divide_neg_pos)
    moreover have "sig_round (eff_digits ctx) (of_int \<lfloor>dec_rat a / dec_rat b\<rfloor>) (dec_rat ?d)"
      using add_signed_sig [OF al1, of ctx True] True by (simp add: ro fl)
    moreover have "d_exp ?d = 0 \<and> length (d_dig ?d) \<le> eff_digits ctx"
      if "\<bar>\<lfloor>dec_rat a / dec_rat b\<rfloor>\<bar> < 10 ^ eff_digits ctx"
    proof -
      let ?s = "add_exact out ?one True"
      have ex: "d_exp ?s = 0"
        unfolding add_exact_def Let_def oe from_int_exp by (simp add: make_def Let_def)
      have "dec_rat ?s = of_int \<lfloor>dec_rat a / dec_rat b\<rfloor>"
        using add_exact_correct(2) [OF al1] True by (simp add: ro fl)
      then have "of_nat (dval (d_dig ?s)) = \<bar>of_int \<lfloor>dec_rat a / dec_rat b\<rfloor> :: rat\<bar>"
        using dec_rat_abs [of ?s] by (simp add: ex)
      then have "int (dval (d_dig ?s)) = \<bar>\<lfloor>dec_rat a / dec_rat b\<rfloor>\<bar>"
        by (metis of_int_abs of_int_eq_iff of_int_of_nat_eq)
      then have v: "dval (d_dig ?s) < 10 ^ eff_digits ctx"
        using that by (metis of_nat_less_iff of_nat_numeral of_nat_power)
      have sok: "dec_ok ?s" by (rule dec_room_ok [OF add_exact_correct(1) [OF al1]])
      have "length (d_dig ?s) \<le> eff_digits ctx"
        by (rule len_fit [OF sok v eff_digits_pos])
      with ex show ?thesis using round_to_id [of ?s ctx] by (simp add: add_signed_def)
    qed
    ultimately show thesis
      using that [of ?d] eq True al1 by (simp add: add_signed_ok)
  next
    case False
    then have r: "dec_rat out = of_int \<lfloor>dec_rat a / dec_rat b\<rfloor>"
      unfolding ro fl by (auto simp: sg_def)
    have "length (d_dig out) \<le> eff_digits ctx" if "\<bar>\<lfloor>dec_rat a / dec_rat b\<rfloor>\<bar> < 10 ^ eff_digits ctx"
    proof -
      have "int (dval q) = \<bar>\<lfloor>dec_rat a / dec_rat b\<rfloor>\<bar>"
        using False unfolding fl qr(2) by auto
      then have "dval q < 10 ^ eff_digits ctx"
        using that by (metis of_nat_less_iff of_nat_numeral of_nat_power)
      then show ?thesis unfolding out_def by (intro make_length qr(4)) simp_all
    qed
    with r show thesis using that [of out] eq False oo oe by auto
  qed
qed

lemma vl_dec_idiv_floor:
  assumes "dec_small a" "dec_small b" "\<not> dec_is_zero b"
    and "\<bar>\<lfloor>dec_rat a / dec_rat b\<rfloor>\<bar> < 10 ^ eff_digits ctx \<or> 0 \<le> dec_rat a / dec_rat b"
  obtains d where "vl_dec_idiv ctx a b = Some (Inr d)" "dec_ok d"
    "dec_rat d = of_int \<lfloor>dec_rat a / dec_rat b\<rfloor>"
    "\<bar>\<lfloor>dec_rat a / dec_rat b\<rfloor>\<bar> < 10 ^ eff_digits ctx \<Longrightarrow>
     d_exp d = 0 \<and> length (d_dig d) \<le> eff_digits ctx"
proof -
  obtain d where d: "vl_dec_idiv ctx a b = Some (Inr d)" "dec_ok d"
    "dec_rat d = of_int \<lfloor>dec_rat a / dec_rat b\<rfloor> \<or>
     dec_rat a / dec_rat b < 0 \<and>
     sig_round (eff_digits ctx) (of_int \<lfloor>dec_rat a / dec_rat b\<rfloor>) (dec_rat d)"
    "\<bar>\<lfloor>dec_rat a / dec_rat b\<rfloor>\<bar> < 10 ^ eff_digits ctx \<Longrightarrow>
     d_exp d = 0 \<and> length (d_dig d) \<le> eff_digits ctx"
    using vl_dec_idiv_spec [OF assms(1-3)] by metis
  from d(3) have "dec_rat d = of_int \<lfloor>dec_rat a / dec_rat b\<rfloor>"
    using assms(4) sig_round_exact [of _ _ "dec_rat d" "\<lfloor>dec_rat a / dec_rat b\<rfloor>" 0] by auto
  with d show thesis using that by blast
qed

text \<open>Every decimal is an integer multiple of a power of ten at or below its exponent.\<close>

lemma dec_rat_multiple:
  assumes "e \<le> d_exp d \<or> dec_is_zero d"
  obtains k where "dec_rat d = of_int k * p10 e"
proof (cases "dec_is_zero d")
  case True
  then show thesis using that [of 0] by (simp add: dec_is_zero_rat)
next
  case False
  then have "p10 (d_exp d) = 10 ^ nat (d_exp d - e) * p10 e"
    using assms p10_add [of "d_exp d - e" e] p10_nonneg_exp [of "d_exp d - e"] by simp
  then have "dec_rat d = of_int ((if d_neg d then - 1 else 1) * int (dval (d_dig d)) * 10 ^ nat (d_exp d - e)) * p10 e"
    by (simp add: dec_rat_def sg_def)
  then show thesis by (rule that)
qed

lemma vl_dec_mod_exact:
  assumes small: "dec_small a" "dec_small b" and ctx: "ctx \<le> 100000000" and nz: "\<not> dec_is_zero b"
    and q: "\<lfloor>dec_rat a / dec_rat b\<rfloor> = k" "\<bar>k\<bar> < 10 ^ eff_digits ctx"
    and e: "e = min (d_exp a) (d_exp b)"
    and p: "\<bar>of_int k * dec_rat b\<bar> < p10 (e + int (eff_digits ctx))"
    and bb: "\<bar>dec_rat b\<bar> \<le> p10 (e + int (eff_digits ctx))"
  obtains d where "vl_dec_mod ctx a b = Some (Inr d)" "dec_ok d"
    "dec_rat d = dec_rat a - of_int k * dec_rat b"
proof -
  let ?n = "eff_digits ctx"
  note ok = dec_smallD(1) [OF small(1)] dec_smallD(1) [OF small(2)]
  obtain d where d: "vl_dec_idiv ctx a b = Some (Inr d)" "dec_ok d" "dec_rat d = of_int k"
    "d_exp d = 0" "length (d_dig d) \<le> ?n"
    using vl_dec_idiv_floor [OF small nz, of ctx] q by auto
  obtain ka where ka: "dec_rat a = of_int ka * p10 e" using dec_rat_multiple [of e a] e by auto
  obtain kb where kb: "dec_rat b = of_int kb * p10 e" using dec_rat_multiple [of e b] e by auto
  have fits: "\<bar>j\<bar> < 10 ^ ?n" if "\<bar>of_int j * p10 e\<bar> < p10 (e + int ?n)" for j
  proof -
    have "of_int \<bar>j\<bar> * p10 e < 10 ^ ?n * p10 e"
      using that by (simp add: abs_mult p10_add p10_nat mult.commute)
    then have "of_int \<bar>j\<bar> < (10::rat) ^ ?n" by simp
    then show ?thesis by (metis of_int_less_iff of_int_numeral of_int_power)
  qed
  have bz: "dec_rat b \<noteq> 0" using nz by (simp add: dec_is_zero_rat)
  define m where "m = vl_dec_mul ctx d b"
  have n8: "int ?n \<le> 100000000" using ctx by (auto simp: eff_digits_def)
  have mm: "multiplies d b"
    using d(2,4,5) n8 dec_smallD [OF small(2)] by (simp add: multiplies_def)
  have "\<bar>dec_rat d * dec_rat b\<bar> = of_nat (dval (d_dig d) * dval (d_dig b)) * p10 (d_exp b)"
    by (simp add: abs_mult dec_rat_abs d(4))
  moreover have "p10 (e + int ?n) \<le> 10 ^ ?n * p10 (d_exp b)"
    using e by (simp add: p10_add p10_nat mult.commute)
  ultimately have "of_nat (dval (d_dig d) * dval (d_dig b)) * p10 (d_exp b) < 10 ^ ?n * p10 (d_exp b)"
    using p unfolding d(3) by linarith
  then have "(of_nat (dval (d_dig d) * dval (d_dig b)) :: rat) < 10 ^ ?n" by simp
  then have fit: "dval (d_dig d) * dval (d_dig b) < 10 ^ ?n"
    by (metis of_nat_less_iff of_nat_numeral of_nat_power)
  note mu = mul_unrounded [OF mm fit, folded m_def]
  have "dec_rat m = of_int k * dec_rat b"
    unfolding mu(1) mul_rat [OF d(2) ok(2)] d(3) ..
  moreover have "aligns a m"
  proof -
    have me: "d_exp m = d_exp b \<or> d_exp m = 0" by (simp add: mu(1) d(4) make_def Let_def)
    have "dec_ok m" using mul_ok [OF mm] by (simp add: m_def)
    with me mu(2) n8 dec_smallD [OF small(1)] dec_smallD [OF small(2)] show ?thesis
      unfolding aligns_def by linarith
  qed
  moreover have "dec_rat (vl_dec_sub ctx a m) = dec_rat a - of_int k * dec_rat b"
  proof (rule sig_round_exact)
    show "sig_round ?n (dec_rat a - of_int k * dec_rat b) (dec_rat (vl_dec_sub ctx a m))"
      using sub_sig [of a m ctx] \<open>dec_rat m = _\<close> \<open>aligns a m\<close> by simp
    show e2: "dec_rat a - of_int k * dec_rat b = of_int (ka - k * kb) * p10 e"
      by (simp add: ka kb algebra_simps)
    have "of_int k \<le> dec_rat a / dec_rat b" "dec_rat a / dec_rat b < of_int k + 1"
      using q(1) by linarith+
    moreover have "dec_rat a - of_int k * dec_rat b = (dec_rat a / dec_rat b - of_int k) * dec_rat b"
      using bz by (simp add: field_simps)
    ultimately have "\<bar>dec_rat a - of_int k * dec_rat b\<bar> < 1 * \<bar>dec_rat b\<bar>"
      using bz by (simp only: abs_mult) (intro mult_strict_right_mono; simp)
    then have "\<bar>of_int (ka - k * kb) * p10 e\<bar> < p10 (e + int ?n)"
      using bb unfolding e2 [symmetric] by linarith
    then show "\<bar>ka - k * kb\<bar> < 10 ^ ?n" by (rule fits)
  qed
  ultimately show thesis
    using that [of "vl_dec_sub ctx a m"] d by (simp add: vl_dec_mod_def m_def)
qed

subsection \<open>Powers\<close>

fun pow_loop :: "int \<Rightarrow> dec \<Rightarrow> dec \<Rightarrow> nat \<Rightarrow> dec" where
  "pow_loop ctx res base n =
     (if n = 0 then res
      else
        let res' = (if n mod 2 = 1 then vl_dec_mul ctx res base else res);
            n' = n div 2;
            base' = (if n' \<noteq> 0 then vl_dec_mul ctx base base else base)
        in pow_loop ctx res' base' n')"

declare pow_loop.simps [simp del]

definition vl_dec_pow :: "int \<Rightarrow> dec \<Rightarrow> int \<Rightarrow> dec result option" where
  "vl_dec_pow ctx a n =
     (let r = pow_loop ctx (vl_dec_from_int 1) a (nat \<bar>n\<bar>)
      in if n < 0 then vl_dec_div ctx (vl_dec_from_int 1) r else Some (Inr r))"

lemma pow_step: "(m + m) * (n div 2) + m * (n mod 2) = m * (n :: nat)"
proof -
  have "(m + m) * h + m * b = m * (h * 2 + b)" for h b :: nat by (simp add: algebra_simps)
  from this [of "n div 2" "n mod 2"] show ?thesis by (simp only: div_mult_mod_eq)
qed

text \<open>\<open>is_pow a j r\<close>: the decimal \<open>r\<close> has the coefficient, the exponent and the sign of \<open>a ^ j\<close>.\<close>

definition is_pow :: "dec \<Rightarrow> nat \<Rightarrow> dec \<Rightarrow> bool" where
  "is_pow a j r \<longleftrightarrow> dec_ok r \<and> dval (d_dig r) = dval (d_dig a) ^ j \<and> d_exp r = d_exp a * int j \<and>
     d_neg r = (d_neg a \<and> odd j)"

lemma is_pow_rat: "is_pow a j r \<Longrightarrow> dec_rat r = dec_rat a ^ j"
proof -
  have "p10 (d_exp a * int j) = p10 (d_exp a) ^ j" by (simp add: p10_powi power_int_mult)
  moreover have "sg (d_neg a \<and> odd j) = sg (d_neg a) ^ j" by (cases "d_neg a"; cases "even j") simp_all
  moreover assume "is_pow a j r"
  ultimately show ?thesis by (simp add: is_pow_def dec_rat_def power_mult_distrib)
qed

text \<open>When \<open>a ^ n\<close> fits in the context, every intermediate product does, and none is rounded.\<close>

lemma pow_mul:
  assumes a: "\<not> dec_is_zero a" and ctx: "ctx \<le> 100000000" and fit: "dval (d_dig a) ^ n < 10 ^ eff_digits ctx"
    and e: "\<bar>d_exp a\<bar> * int n \<le> 1900000000"
    and x: "is_pow a u x" and y: "is_pow a v y" and uv: "u + v \<le> n"
  shows "is_pow a (u + v) (vl_dec_mul ctx x y)"
proof -
  let ?c = "dval (d_dig a)" and ?p = "eff_digits ctx"
  have c: "0 < ?c" using a by (simp add: dec_is_zero_dval)
  have le: "?c ^ j < 10 ^ ?p" if "j \<le> n" for j
    using power_increasing [OF that, of ?c] c fit by linarith
  have "int ?p \<le> 100000000" using ctx by (auto simp: eff_digits_def)
  moreover have "length (d_dig x) \<le> ?p" "length (d_dig y) \<le> ?p"
    using x y le [of u] le [of v] uv by (auto simp: is_pow_def intro: len_fit)
  moreover have "\<bar>d_exp x + d_exp y\<bar> \<le> 1900000000"
  proof -
    have "\<bar>d_exp x + d_exp y\<bar> = \<bar>d_exp a\<bar> * int (u + v)"
      using x y by (simp add: is_pow_def abs_mult flip: distrib_left)
    also have "\<dots> \<le> \<bar>d_exp a\<bar> * int n" using uv by (intro mult_left_mono) simp_all
    finally show ?thesis using e by simp
  qed
  ultimately have m: "multiplies x y"
    using x y unfolding multiplies_def is_pow_def by linarith
  have xy: "dval (d_dig x) * dval (d_dig y) = ?c ^ (u + v)" using x y by (simp add: is_pow_def power_add)
  have digs: "dval (mul_mag (d_dig x) (d_dig y)) = ?c ^ (u + v)"
    using x y xy mul_mag_correct(1) by (simp add: is_pow_def dec_okD)
  have "vl_dec_mul ctx x y = make (d_neg x \<noteq> d_neg y) (mul_mag (d_dig x) (d_dig y)) (d_exp x + d_exp y)"
    using mul_unrounded(1) [OF m] le [OF uv] xy by simp
  also have "\<dots> = \<lparr>d_neg = (d_neg x \<noteq> d_neg y), d_exp = d_exp x + d_exp y,
      d_dig = strip0 (mul_mag (d_dig x) (d_dig y))\<rparr>"
    using c digs by (simp add: make_def Let_def all0_dval)
  finally show ?thesis
    using x y mul_ok [OF m, of ctx] digs by (auto simp: is_pow_def algebra_simps)
qed

lemma pow_loop_exact:
  assumes "\<not> dec_is_zero a" "ctx \<le> 100000000" "dval (d_dig a) ^ N < 10 ^ eff_digits ctx"
    and "\<bar>d_exp a\<bar> * int N \<le> 1900000000"
    and "is_pow a j r" "is_pow a m b" "N = j + m * n"
  shows "is_pow a N (pow_loop ctx r b n)"
  using assms(5-7)
proof (induction n arbitrary: r b j m rule: less_induct)
  case (less n)
  show ?case
  proof (cases "n = 0")
    case True
    with less.prems show ?thesis by (simp add: pow_loop.simps)
  next
    case False
    define r' where "r' = (if n mod 2 = 1 then vl_dec_mul ctx r b else r)"
    define b' where "b' = (if n div 2 \<noteq> 0 then vl_dec_mul ctx b b else b)"
    define j' where "j' = (if n mod 2 = 1 then j + m else j)"
    have step: "pow_loop ctx r b n = pow_loop ctx r' b' (n div 2)"
      using False by (simp add: pow_loop.simps [of ctx r b n] r'_def b'_def)
    note mul = pow_mul [OF assms(1-4)]
    have "m * 1 \<le> m * n" using False by (intro mult_le_mono2) simp
    then have r': "is_pow a j' r'"
      using mul [OF less.prems(1,2)] less.prems by (auto simp: r'_def j'_def)
    show ?thesis
    proof (cases "n div 2 = 0")
      case True
      then have "n = 1" using False by simp
      with True step r' less.prems(3) show ?thesis by (simp add: j'_def pow_loop.simps)
    next
      case n2: False
      then have "m * 2 \<le> m * n" by (intro mult_le_mono2) simp
      then have b': "is_pow a (m + m) b'"
        using mul [OF less.prems(2,2)] less.prems(3) n2 by (simp add: b'_def mult_2_right)
      have "N = j' + (m + m) * (n div 2)"
        using pow_step [of m n] less.prems(3) by (cases "n mod 2 = 1") (simp_all add: j'_def)
      from less.IH [OF _ r' b' this] False show ?thesis
        by (simp only: step)
    qed
  qed
qed

text \<open>A power whose coefficient fits in the context is exact.\<close>

lemma vl_dec_pow_exact_lemma:
  assumes "dec_ok a" "\<not> dec_is_zero a" "ctx \<le> 100000000" "dval (d_dig a) ^ n < 10 ^ eff_digits ctx"
    and "\<bar>d_exp a\<bar> * int n \<le> 1900000000"
  shows "\<exists>d. vl_dec_pow ctx a (int n) = Some (Inr d) \<and> dec_ok d \<and> dec_rat d = dec_rat a ^ n"
proof -
  have "is_pow a 0 (vl_dec_from_int 1)"
    using from_int_ok [of 1] int_digits_props [of "[]" 1]
    by (simp add: is_pow_def) (simp add: vl_dec_from_int_def make_def Let_def all0_dval)
  moreover have "is_pow a 1 a" using assms(1) by (simp add: is_pow_def)
  ultimately have "is_pow a n (pow_loop ctx (vl_dec_from_int 1) a n)"
    using assms(2-5) by (intro pow_loop_exact [where j = 0 and m = 1]) simp_all
  from this is_pow_rat [OF this] show ?thesis by (simp add: vl_dec_pow_def is_pow_def)
qed

subsection \<open>Absolute value and negation\<close>

definition vl_dec_abs :: "dec \<Rightarrow> dec" where
  "vl_dec_abs d = (if \<not> d_neg d then d else make False (d_dig d) (d_exp d))"

definition vl_dec_neg_v :: "dec \<Rightarrow> dec" where
  "vl_dec_neg_v d = (if dec_is_zero d then d else make (\<not> d_neg d) (d_dig d) (d_exp d))"

lemma dec_abs_neg [simp]:
  assumes "dec_ok d"
  shows "dec_ok (vl_dec_abs d)" "dec_rat (vl_dec_abs d) = \<bar>dec_rat d\<bar>"
    "dec_ok (vl_dec_neg_v d)" "dec_rat (vl_dec_neg_v d) = - dec_rat d"
  using assms dec_okD(1,4,5) [OF assms] dec_is_zero_rat [of d]
  by (auto simp: vl_dec_abs_def vl_dec_neg_v_def dec_rat_abs) (simp_all add: dec_rat_def)

subsection \<open>Rounding, truncation, floor, ceiling\<close>

definition vl_dec_round :: "dec \<Rightarrow> int \<Rightarrow> dec" where
  "vl_dec_round d places =
     (if w32 (- places) \<le> d_exp d then d else reduce_exp d (w32 (- places)))"

definition vl_dec_trunc :: "dec \<Rightarrow> dec" where
  "vl_dec_trunc d =
     (if 0 \<le> d_exp d then d
      else
        let drp = w32 (- d_exp d)
        in if int (length (d_dig d)) \<le> drp then vl_dec_from_int 0
           else make (d_neg d) (take (length (d_dig d) - nat drp) (d_dig d)) 0)"

definition vl_dec_floor :: "int \<Rightarrow> dec \<Rightarrow> dec" where
  "vl_dec_floor ctx a =
     (let t = vl_dec_trunc a
      in if \<not> d_neg a then t
         else if dec_is_zero (vl_dec_sub ctx a t) then t
         else vl_dec_sub ctx t (vl_dec_from_int 1))"

definition vl_dec_ceil :: "int \<Rightarrow> dec \<Rightarrow> dec" where
  "vl_dec_ceil ctx a = vl_dec_neg_v (vl_dec_floor ctx (vl_dec_neg_v a))"

definition vl_dec_is_int :: "dec \<Rightarrow> bool" where
  "vl_dec_is_int d =
     (if 0 \<le> d_exp d then True
      else
        let drp = w32 (- d_exp d); nd = length (d_dig d)
        in if int nd \<le> drp then dec_is_zero d
           else list_all (\<lambda>x. x = 0) (drop (nd - nat drp) (d_dig d)))"

text \<open>\<^verbatim>\<open>vl_dec_to_int\<close> accumulates in \<^verbatim>\<open>long double\<close>: with the 64-bit significand of the
  x87 format every value up to the limit is exact, so the accumulator is a natural number
  here; the limit \<^verbatim>\<open>9.2233720368547758e18L\<close> is the integer below.\<close>

definition to_int_limit :: nat where
  "to_int_limit = 9223372036854775800"

definition vl_dec_to_int :: "dec \<Rightarrow> int option" where
  "vl_dec_to_int a =
     (if \<not> vl_dec_is_int a then None
      else
        let t = vl_dec_trunc a;
            acc = foldl (\<lambda>acc x. acc * 10 + x) 0 (d_dig t);
            acc' = acc * 10 ^ nat (d_exp t)
        in if to_int_limit < acc' then None
           else Some (if d_neg t then - int acc' else int acc'))"

lemma vl_dec_round_exact:
  assumes "dec_small d" "\<bar>p\<bar> \<le> 1000000000"
  shows "vl_dec_round d p = (if - p \<le> d_exp d then d else reduce_exp d (- p))"
    and "- p \<le> 2147483647" "- p - d_exp d \<le> 2147483647"
proof -
  show "- p \<le> 2147483647" "- p - d_exp d \<le> 2147483647"
    using assms(2) dec_smallD [OF assms(1)] by simp_all
  have "w32 (- p) = - p" using assms(2) by simp
  then show "vl_dec_round d p = (if - p \<le> d_exp d then d else reduce_exp d (- p))"
    by (simp add: vl_dec_round_def)
qed

lemma vl_dec_round_correct:
  assumes small: "dec_small d" and places: "\<bar>p\<bar> \<le> 1000000000"
  shows "dec_ok (vl_dec_round d p)"
    and "dec_rat (vl_dec_round d p) = of_int (round_he (dec_rat d * p10 p)) * p10 (- p)"
proof -
  note assms = dec_smallD(1) [OF small] and vr = vl_dec_round_exact [OF small places]
  show "dec_ok (vl_dec_round d p)"
    using assms reduce_exp_rat(2) [OF assms _ vr(2,3)] by (simp add: vr(1))
  have inv: "p10 p * p10 (- p) = 1" "p10 (- p) * p10 p = 1" by (simp_all flip: p10_add)
  show "dec_rat (vl_dec_round d p) = of_int (round_he (dec_rat d * p10 p)) * p10 (- p)"
  proof (cases "- p \<le> d_exp d")
    case True
    obtain k where "dec_rat d = of_int k * p10 (- p)" using dec_rat_multiple True by blast
    then have "dec_rat d * p10 p = of_int k" using inv by (simp only: mult.assoc mult_1_right)
    then have "round_he (dec_rat d * p10 p) = k" by (simp only: round_he_int)
    with True \<open>dec_rat d = _\<close> show ?thesis by (simp add: vr(1))
  next
    case False
    let ?m = "10 ^ nat (- p - d_exp d) :: nat"
    have m: "of_nat ?m = p10 (- p - d_exp d)" using False by (simp add: p10_nonneg_exp)
    have "dec_rat d * p10 p = sg (d_neg d) * of_nat (dval (d_dig d)) / of_nat ?m"
      unfolding m by (simp add: dec_rat_def p10_diff field_simps) (metis inv(1) mult.commute)
    then have "round_he (dec_rat d * p10 p) =
        (if d_neg d then - int (half_even (dval (d_dig d)) ?m) else int (half_even (dval (d_dig d)) ?m))"
      using round_he_signed [of ?m] by simp
    then show ?thesis
      using False reduce_exp_rat(1) [OF assms _ vr(2,3)]
      by (simp add: vr(1) sg_def)
  qed
qed

definition trunc_rat :: "rat \<Rightarrow> int" where
  "trunc_rat x = (if x < 0 then \<lceil>x\<rceil> else \<lfloor>x\<rfloor>)"

lemma dec_neg_rat: "dec_ok d \<Longrightarrow> d_neg d \<longleftrightarrow> dec_rat d < 0"
proof -
  assume "dec_ok d"
  then have "dec_is_zero d \<Longrightarrow> \<not> d_neg d" using dec_ok_zero by fastforce
  then show ?thesis using dec_rat_sgn [of d] by (auto simp: sgn_if split: if_splits)
qed

lemma trunc_frac:
  assumes "dec_ok d" "d_exp d < 0"
  shows "dec_rat d = sg (d_neg d) * of_nat (dval (d_dig d)) / of_nat (10 ^ nat (- d_exp d))"
  using assms by (simp add: dec_rat_def p10_def)

lemma trunc_rat_sg:
  assumes "0 < m"
  shows "trunc_rat (sg s * of_nat n / of_nat m) = (if s then - int (n div m) else int (n div m))"
proof (cases s)
  case True
  have "trunc_rat (- x) = - \<lfloor>x\<rfloor>" if "0 \<le> x" for x
    using that by (cases "x = 0") (auto simp: trunc_rat_def ceiling_def)
  from this [of "of_nat n / of_nat m"]
  have "trunc_rat (- (of_nat n / of_nat m)) = - \<lfloor>of_nat n / of_nat m :: rat\<rfloor>" by simp
  with True show ?thesis by (simp add: floor_divide_of_nat_eq)
next
  case False
  have "\<not> (of_nat n / of_nat m :: rat) < 0" by (simp add: not_less)
  with False show ?thesis by (simp add: trunc_rat_def floor_divide_of_nat_eq)
qed

lemma vl_dec_trunc_correct:
  assumes "dec_ok d"
  shows "dec_ok (vl_dec_trunc d)" "dec_rat (vl_dec_trunc d) = of_int (trunc_rat (dec_rat d))"
    "0 \<le> d_exp (vl_dec_trunc d)"
proof -
  let ?ds = "d_dig d" and ?k = "nat (- d_exp d)"
  note ok = dec_okD [OF assms]
  show "dec_ok (vl_dec_trunc d)" using assms ok by (simp add: vl_dec_trunc_def Let_def)
  have w: "w32 (- d_exp d) = - d_exp d" using ok(4,5) by simp
  show "0 \<le> d_exp (vl_dec_trunc d)"
    by (simp add: vl_dec_trunc_def Let_def vl_dec_from_int_def make_def)
  show "dec_rat (vl_dec_trunc d) = of_int (trunc_rat (dec_rat d))"
  proof (cases "0 \<le> d_exp d")
    case True
    obtain k where "dec_rat d = of_int k * p10 0" using dec_rat_multiple True by blast
    with True show ?thesis by (simp add: vl_dec_trunc_def trunc_rat_def)
  next
    case False
    have t: "trunc_rat (dec_rat d) = (if d_neg d then - int (dval ?ds div 10 ^ ?k) else int (dval ?ds div 10 ^ ?k))"
      using False trunc_frac [OF assms] trunc_rat_sg [of "10 ^ ?k"] by simp
    show ?thesis
    proof (cases "int (length ?ds) \<le> - d_exp d")
      case True
      then have "dval ?ds < 10 ^ ?k" using ok(1) by (intro dval_bound_le) auto
      with True False t show ?thesis by (simp add: vl_dec_trunc_def w)
    next
      case lt: False
      let ?n = "length ?ds - ?k"
      have "dval (take ?n ?ds) = dval ?ds div 10 ^ ?k"
        using dval_take_div(1) [OF ok(1), of ?n] lt False by simp
      with lt False t show ?thesis by (simp add: vl_dec_trunc_def Let_def w sg_def)
    qed
  qed
qed

lemma vl_dec_trunc_small: "dec_small d \<Longrightarrow> dec_small (vl_dec_trunc d)"
proof -
  assume d: "dec_small d"
  note ok = dec_smallD [OF d] and t = vl_dec_trunc_correct(1) [OF dec_smallD(1) [OF d]]
  have "vl_dec_trunc d = d \<or> vl_dec_trunc d = vl_dec_from_int 0 \<or>
      vl_dec_trunc d = make (d_neg d) (take (length (d_dig d) - nat (w32 (- d_exp d))) (d_dig d)) 0"
    by (simp add: vl_dec_trunc_def Let_def)
  then consider "vl_dec_trunc d = d" | "vl_dec_trunc d = vl_dec_from_int 0"
    | ds where "vl_dec_trunc d = make (d_neg d) ds 0" "length ds \<le> length (d_dig d)"
    using that by fastforce
  then show ?thesis
  proof cases
    case 3
    then show ?thesis
      using make_len [of "d_neg d" ds 0] make_exp [of "d_neg d" ds 0] ok t by (auto simp: dec_small_def)
  qed (use d in \<open>simp_all add: i64_def\<close>)
qed

lemma dec_neg_small: "dec_small d \<Longrightarrow> dec_small (vl_dec_neg_v d)"
proof -
  assume d: "dec_small d"
  note ok = dec_smallD [OF d]
  have "1 \<le> length (d_dig d)" using dec_okD(2) [OF ok(1)] by (simp add: Suc_leI)
  then show ?thesis
    using d ok make_len [of "\<not> d_neg d" "d_dig d" "d_exp d"] make_exp [of "\<not> d_neg d" "d_dig d" "d_exp d"]
      dec_abs_neg(3) [OF ok(1)]
    by (auto simp: dec_small_def vl_dec_neg_v_def)
qed

lemma vl_dec_is_int_correct:
  assumes "dec_ok d"
  shows "vl_dec_is_int d \<longleftrightarrow> dec_rat d \<in> \<int>"
proof (cases "0 \<le> d_exp d")
  case True
  obtain k where "dec_rat d = of_int k * p10 0" using dec_rat_multiple True by blast
  with True show ?thesis by (simp add: vl_dec_is_int_def)
next
  case False
  let ?ds = "d_dig d" and ?k = "nat (- d_exp d)"
  note ok = dec_okD [OF assms]
  have w: "w32 (- d_exp d) = - d_exp d" using ok(4,5) by simp
  have dvd: "dec_rat d \<in> \<int> \<longleftrightarrow> 10 ^ ?k dvd dval ?ds"
  proof -
    have "dec_rat d \<in> \<int> \<longleftrightarrow> of_int (int (dval ?ds)) / of_int (int (10 ^ ?k)) \<in> (\<int> :: rat set)"
      using trunc_frac [OF assms] False by (auto simp: sg_def minus_in_Ints_iff)
    also have "\<dots> \<longleftrightarrow> int (10 ^ ?k) dvd int (dval ?ds)"
      by (subst of_int_div_of_int_in_Ints_iff) auto
    finally show ?thesis by (simp only: int_dvd_int_iff)
  qed
  show ?thesis
  proof (cases "int (length ?ds) \<le> - d_exp d")
    case True
    then have "dval ?ds < 10 ^ ?k" using ok(1) by (intro dval_bound_le) auto
    then have "10 ^ ?k dvd dval ?ds \<longleftrightarrow> dval ?ds = 0" by (auto dest: dvd_imp_le)
    with True False dvd show ?thesis by (simp add: vl_dec_is_int_def w dec_is_zero_dval)
  next
    case lt: False
    let ?n = "length ?ds - ?k"
    have "dval (drop ?n ?ds) = dval ?ds mod 10 ^ ?k"
      using dval_take_div(2) [OF ok(1), of ?n] lt False by simp
    with lt False dvd show ?thesis
      by (simp add: vl_dec_is_int_def w Let_def all0_dval dvd_eq_mod_eq_0)
  qed
qed

lemma vl_dec_floor_lemma:
  assumes small: "dec_small a" and fit: "\<bar>\<lfloor>dec_rat a\<rfloor>\<bar> < 10 ^ eff_digits ctx \<or> 0 \<le> dec_rat a"
  shows "dec_ok (vl_dec_floor ctx a)" "dec_rat (vl_dec_floor ctx a) = of_int \<lfloor>dec_rat a\<rfloor>"
proof -
  let ?t = "vl_dec_trunc a"
  note ok = dec_smallD(1) [OF small] and ts = vl_dec_trunc_small [OF small]
  note t = vl_dec_trunc_correct [OF ok]
  have at: "aligns a ?t" and t1: "aligns ?t (vl_dec_from_int 1)"
    using small ts by (simp_all add: small_aligns i64_def)
  show "dec_ok (vl_dec_floor ctx a)" using t t1 by (simp add: vl_dec_floor_def Let_def)
  have z: "dec_is_zero (vl_dec_sub ctx a ?t) \<longleftrightarrow> dec_rat a = dec_rat ?t"
    using sig_round_zero_iff [OF sub_sig [OF at, of ctx]] by (simp add: dec_is_zero_rat)
  show "dec_rat (vl_dec_floor ctx a) = of_int \<lfloor>dec_rat a\<rfloor>"
  proof (cases "d_neg a")
    case True
    then have neg: "dec_rat a < 0" using dec_neg_rat [OF ok] by simp
    then have tr: "dec_rat ?t = of_int \<lceil>dec_rat a\<rceil>" using t(2) by (simp add: trunc_rat_def)
    show ?thesis
    proof (cases "dec_rat a = dec_rat ?t")
      case eq: True
      have "\<lfloor>x\<rfloor> = \<lceil>x\<rceil>" if "x = of_int \<lceil>x\<rceil>" for x :: rat
        using that by (metis floor_of_int)
      then have "\<lfloor>dec_rat a\<rfloor> = \<lceil>dec_rat a\<rceil>" using eq tr by metis
      moreover have "vl_dec_floor ctx a = ?t" using z eq by (simp add: vl_dec_floor_def Let_def)
      ultimately show ?thesis by (simp only: tr)
    next
      case ne: False
      have "\<lfloor>x\<rfloor> = \<lceil>x\<rceil> - 1" if "x \<noteq> of_int \<lceil>x\<rceil>" for x :: rat
        using that by (intro floor_unique) linarith+
      then have fc: "\<lfloor>dec_rat a\<rfloor> = \<lceil>dec_rat a\<rceil> - 1" using ne tr by metis
      have "dec_rat (vl_dec_sub ctx ?t (vl_dec_from_int 1)) = of_int \<lfloor>dec_rat a\<rfloor>"
        using sig_round_exact [OF sub_sig [OF t1, of ctx], of "\<lfloor>dec_rat a\<rfloor>" 0]
          fit neg
        by (simp add: tr fc)
      then show ?thesis using True ne z by (simp add: vl_dec_floor_def Let_def)
    qed
  next
    case False
    then have "0 \<le> dec_rat a" using dec_neg_rat [OF ok] by simp
    with False t(2) show ?thesis by (simp add: vl_dec_floor_def trunc_rat_def)
  qed
qed

lemma vl_dec_to_int_correct:
  assumes "dec_ok a"
  shows "vl_dec_to_int a = Some n \<longleftrightarrow> dec_rat a = of_int n \<and> \<bar>n\<bar> \<le> int to_int_limit"
proof (cases "vl_dec_is_int a")
  case False
  then have "dec_rat a \<noteq> of_int n" using vl_dec_is_int_correct [OF assms] by auto
  with False show ?thesis by (simp add: vl_dec_to_int_def)
next
  case True
  let ?t = "vl_dec_trunc a"
  note t = vl_dec_trunc_correct [OF assms]
  obtain m where m: "dec_rat a = of_int m"
    using True vl_dec_is_int_correct [OF assms] by (auto elim: Ints_cases)
  then have rt: "dec_rat ?t = of_int m" using t(2) by (simp add: trunc_rat_def)
  define c where "c = dval (d_dig ?t) * 10 ^ nat (d_exp ?t)"
  have "dec_rat ?t = of_int ((if d_neg ?t then - 1 else 1) * int c)"
    using t(3) by (simp add: dec_rat_def c_def p10_nonneg_exp sg_def)
  then have "m = (if d_neg ?t then - 1 else 1) * int c" unfolding rt by (simp only: of_int_eq_iff)
  then have mc: "m = (if d_neg ?t then - int c else int c)" by simp
  have "foldl (\<lambda>acc x. acc * 10 + x) 0 (d_dig ?t) = dval (d_dig ?t)"
    by (simp add: dval_def mult.commute)
  then have "vl_dec_to_int a = (if to_int_limit < c then None else Some m)"
    using True by (simp add: vl_dec_to_int_def Let_def c_def mc)
  moreover have "to_int_limit < c \<longleftrightarrow> int to_int_limit < \<bar>m\<bar>" using mc by auto
  ultimately show ?thesis using m by auto
qed

subsection \<open>Properties\<close>

text \<open>Floor division and modulus implement the division algorithm: when the quotient and the
  operands fit in the context, \<^verbatim>\<open>a // b\<close> is the floor of the exact quotient and
  \<^verbatim>\<open>a % b\<close> is the exact \<open>a - b * \<lfloor>a / b\<rfloor>\<close>, which lies between zero and the divisor.\<close>

theorem dec_idiv_mod_correct:
  assumes "dec_small a" "dec_small b" "ctx \<le> 100000000" "\<not> dec_is_zero b"
    and "\<lfloor>dec_rat a / dec_rat b\<rfloor> = k" "\<bar>k\<bar> < 10 ^ eff_digits ctx"
    and "e = min (d_exp a) (d_exp b)"
    and "\<bar>of_int k * dec_rat b\<bar> < p10 (e + int (eff_digits ctx))"
    and "\<bar>dec_rat b\<bar> \<le> p10 (e + int (eff_digits ctx))"
  shows "\<exists>q m. vl_dec_idiv ctx a b = Some (Inr q) \<and> vl_dec_mod ctx a b = Some (Inr m) \<and>
    dec_ok q \<and> dec_ok m \<and> dec_rat q = of_int k \<and> dec_rat a = dec_rat q * dec_rat b + dec_rat m \<and>
    (0 < dec_rat b \<longrightarrow> 0 \<le> dec_rat m \<and> dec_rat m < dec_rat b) \<and>
    (dec_rat b < 0 \<longrightarrow> dec_rat b < dec_rat m \<and> dec_rat m \<le> 0)"
proof -
  obtain q where q: "vl_dec_idiv ctx a b = Some (Inr q)" "dec_ok q" "dec_rat q = of_int k"
    using vl_dec_idiv_floor [OF assms(1,2,4), of ctx] assms(5,6) by auto
  obtain m where m: "vl_dec_mod ctx a b = Some (Inr m)" "dec_ok m"
    "dec_rat m = dec_rat a - of_int k * dec_rat b"
    using vl_dec_mod_exact [OF assms] by metis
  have "of_int k \<le> dec_rat a / dec_rat b" "dec_rat a / dec_rat b < of_int k + 1"
    using assms(5) by linarith+
  then have "0 < dec_rat b \<longrightarrow> 0 \<le> dec_rat m \<and> dec_rat m < dec_rat b"
    "dec_rat b < 0 \<longrightarrow> dec_rat b < dec_rat m \<and> dec_rat m \<le> 0"
    by (auto simp: m(3) field_simps)
  with q m show ?thesis by auto
qed

theorem dec_idiv_mod_correct_witness:
  "let a = \<lparr>d_neg = True, d_exp = - 1, d_dig = [7, 5]\<rparr>; b = \<lparr>d_neg = False, d_exp = 0, d_dig = [2]\<rparr>
   in \<exists>q m. vl_dec_idiv 28 a b = Some (Inr q) \<and> vl_dec_mod 28 a b = Some (Inr m) \<and>
    dec_rat q = - 4 \<and> 0 \<le> dec_rat m \<and> dec_rat m < dec_rat b"
proof -
  let ?a = "\<lparr>d_neg = True, d_exp = - 1, d_dig = [7, 5]\<rparr>" and ?b = "\<lparr>d_neg = False, d_exp = 0, d_dig = [2]\<rparr>"
  have f: "\<lfloor>- (15 / 4) :: rat\<rfloor> = - 4" by (rule floor_unique) simp_all
  have "\<exists>q m. vl_dec_idiv 28 ?a ?b = Some (Inr q) \<and> vl_dec_mod 28 ?a ?b = Some (Inr m) \<and>
    dec_ok q \<and> dec_ok m \<and> dec_rat q = of_int (- 4) \<and> dec_rat ?a = dec_rat q * dec_rat ?b + dec_rat m \<and>
    (0 < dec_rat ?b \<longrightarrow> 0 \<le> dec_rat m \<and> dec_rat m < dec_rat ?b) \<and>
    (dec_rat ?b < 0 \<longrightarrow> dec_rat ?b < dec_rat m \<and> dec_rat m \<le> 0)"
    by (rule dec_idiv_mod_correct [OF _ _ _ _ _ _ refl])
      (simp_all add: dec_small_def dec_ok_def dec_is_zero_def dec_rat_def dval_Cons p10_def eff_digits_def f)
  moreover have "0 < dec_rat ?b" by (simp add: dec_rat_def dval_Cons)
  ultimately show ?thesis unfolding Let_def by (auto simp del: of_int_minus)
qed

definition mod_num :: dec where
  "mod_num = \<lparr>d_neg = False, d_exp = 30, d_dig = [1]\<rparr>"

definition mod_den :: dec where
  "mod_den = \<lparr>d_neg = False, d_exp = 0, d_dig = [7]\<rparr>"

text \<open>Without that room the modulus is not one: with the default 28 digits,
  \<^verbatim>\<open>1E30 % 7\<close> is 0, where \<open>10 ^ 30 mod 7\<close> is 1, because the product \<^verbatim>\<open>q * b\<close> is rounded.\<close>

theorem dec_mod_rounded:
  "vl_dec_mod 28 mod_num mod_den = Some (Inr (vl_dec_from_int 0)) \<and>
   dec_rat mod_num = of_int (10 ^ 30) \<and> dec_rat mod_den = of_int 7 \<and> (10 ^ 30 :: int) mod 7 = 1"
proof -
  have "vl_dec_mod 28 mod_num mod_den = Some (Inr (vl_dec_from_int 0))" by code_simp
  then show ?thesis by (simp add: mod_num_def mod_den_def dec_rat_def p10_def)
qed

text \<open>\<^verbatim>\<open>vl_dec_pow\<close> by a non-negative exponent is exact whenever the power of the coefficient
  fits in the context and the exponent stays an \<^verbatim>\<open>int\<close>: repeated squaring never rounds an intermediate
  product then.\<close>

theorem dec_pow_exact:
  assumes "dec_ok a" "\<not> dec_is_zero a" "ctx \<le> 100000000" "dval (d_dig a) ^ n < 10 ^ eff_digits ctx"
    and "\<bar>d_exp a\<bar> * int n \<le> 1900000000"
  shows "\<exists>d. vl_dec_pow ctx a (int n) = Some (Inr d) \<and> dec_ok d \<and> dec_rat d = dec_rat a ^ n"
  by (rule vl_dec_pow_exact_lemma [OF assms])

theorem dec_pow_exact_witness:
  "\<exists>d. vl_dec_pow 28 \<lparr>d_neg = True, d_exp = - 1, d_dig = [1, 5]\<rparr> (int 7) = Some (Inr d) \<and> dec_ok d \<and>
    dec_rat d = dec_rat \<lparr>d_neg = True, d_exp = - 1, d_dig = [1, 5]\<rparr> ^ 7"
  by (rule dec_pow_exact) (simp_all add: dec_ok_def dec_is_zero_def dval_Cons eff_digits_def)

text \<open>\<^verbatim>\<open>round(d, places)\<close> is exactly one half-even rounding at that place, for any number of
  places, negative ones included, and for coefficients dropped entirely.\<close>

theorem dec_round_correct:
  assumes "dec_small d" "\<bar>p\<bar> \<le> 1000000000"
  shows "dec_ok (vl_dec_round d p) \<and>
    dec_rat (vl_dec_round d p) = of_int (round_he (dec_rat d * p10 p)) * p10 (- p)"
  using vl_dec_round_correct [OF assms] by simp

theorem dec_round_correct_witness:
  "dec_rat (vl_dec_round \<lparr>d_neg = True, d_exp = - 3, d_dig = [1, 9, 9, 9, 5]\<rparr> 2) = - 20"
proof -
  let ?d = "\<lparr>d_neg = True, d_exp = - 3, d_dig = [1, 9, 9, 9, 5]\<rparr>"
  have f: "\<lfloor>- (3999 / 2) :: rat\<rfloor> = - 2000" by (rule floor_unique) simp_all
  have "dec_small ?d" by (simp add: dec_small_def dec_ok_def)
  from dec_round_correct [OF this, of 2] show ?thesis
    by (simp add: dec_rat_def dval_Cons p10_def round_he_def Let_def f)
qed

text \<open>Truncation, floor and ceiling are those of the value; only the adjustment of a negative
  floor may round, so a floor that fits in the context (and the mirrored ceiling) is exact.\<close>

theorem dec_floor_ceil_trunc_correct:
  assumes small: "dec_small a"
  shows "dec_rat (vl_dec_trunc a) = of_int (trunc_rat (dec_rat a)) \<and>
    (\<bar>\<lfloor>dec_rat a\<rfloor>\<bar> < 10 ^ eff_digits ctx \<or> 0 \<le> dec_rat a \<longrightarrow>
      dec_rat (vl_dec_floor ctx a) = of_int \<lfloor>dec_rat a\<rfloor>) \<and>
    (\<bar>\<lceil>dec_rat a\<rceil>\<bar> < 10 ^ eff_digits ctx \<or> dec_rat a \<le> 0 \<longrightarrow>
      dec_rat (vl_dec_ceil ctx a) = of_int \<lceil>dec_rat a\<rceil>)"
proof -
  let ?m = "vl_dec_neg_v a"
  note ok = dec_smallD(1) [OF small]
  have m: "dec_small ?m" "dec_rat ?m = - dec_rat a" using dec_neg_small [OF small] ok by simp_all
  have "dec_rat (vl_dec_ceil ctx a) = of_int \<lceil>dec_rat a\<rceil>"
    if "\<bar>\<lceil>dec_rat a\<rceil>\<bar> < 10 ^ eff_digits ctx \<or> dec_rat a \<le> 0"
    using vl_dec_floor_lemma [OF m(1), of ctx] that
    by (simp add: vl_dec_ceil_def m(2) floor_minus)
  then show ?thesis
    using vl_dec_trunc_correct(2) [OF ok] vl_dec_floor_lemma(2) [OF small, of ctx] by blast
qed

theorem dec_floor_ceil_trunc_correct_witness:
  "let a = \<lparr>d_neg = True, d_exp = - 1, d_dig = [2, 5]\<rparr>
   in dec_rat (vl_dec_floor 28 a) = - 3 \<and> dec_rat (vl_dec_ceil 28 a) = - 2"
proof -
  let ?a = "\<lparr>d_neg = True, d_exp = - 1, d_dig = [2, 5]\<rparr>"
  have v: "dec_rat ?a = - (5 / 2)" by (simp add: dec_rat_def dval_Cons p10_def)
  have f: "\<lfloor>- (5 / 2) :: rat\<rfloor> = - 3" "\<lceil>- (5 / 2) :: rat\<rceil> = - 2"
    by (rule floor_unique, simp_all) (rule ceiling_unique, simp_all)
  have "dec_small ?a" by (simp add: dec_small_def dec_ok_def)
  from dec_floor_ceil_trunc_correct [OF this, of 28] show ?thesis
    unfolding v f Let_def by (simp add: eff_digits_def)
qed

text \<open>Integers and decimals: \<^verbatim>\<open>vl_dec_from_int\<close> is exact, and \<^verbatim>\<open>vl_dec_to_int\<close> answers
  exactly the decimals whose value is an integer of magnitude at most 9223372036854775800.\<close>

theorem dec_int_conversion:
  assumes "dec_ok a"
  shows "dec_rat (vl_dec_from_int n) = of_int n \<and>
    (vl_dec_to_int a = Some n \<longleftrightarrow> dec_rat a = of_int n \<and> \<bar>n\<bar> \<le> int to_int_limit)"
  using vl_dec_to_int_correct [OF assms] by simp

theorem dec_int_conversion_witness:
  "vl_dec_to_int \<lparr>d_neg = True, d_exp = - 1, d_dig = [4, 2, 0]\<rparr> = Some (- 42)"
proof -
  let ?a = "\<lparr>d_neg = True, d_exp = - 1, d_dig = [4, 2, 0]\<rparr>"
  have "dec_ok ?a" by (simp add: dec_ok_def)
  from dec_int_conversion [OF this, of "- 42"] show ?thesis
    by (simp add: dec_rat_def dval_Cons p10_def to_int_limit_def)
qed

text \<open>The limit is seven short of \<^verbatim>\<open>INT64_MAX\<close>: the largest \<^verbatim>\<open>int\<close> becomes a decimal that
  is an integer but is refused on the way back, although it is in range.\<close>

theorem dec_int_max_refused:
  "i64 (2 ^ 63 - 1) \<and> vl_dec_is_int (vl_dec_from_int (2 ^ 63 - 1)) \<and>
   vl_dec_to_int (vl_dec_from_int (2 ^ 63 - 1)) = None"
proof -
  let ?d = "vl_dec_from_int (2 ^ 63 - 1)"
  have "vl_dec_is_int ?d" using vl_dec_is_int_correct [OF from_int_ok, of "2 ^ 63 - 1"]
    by (simp only: from_int_rat Ints_of_int)
  moreover have "vl_dec_to_int ?d \<noteq> Some n" for n
    using vl_dec_to_int_correct [OF from_int_ok, of "2 ^ 63 - 1" n]
    by (auto simp only: from_int_rat of_int_eq_iff to_int_limit_def) simp
  then have "vl_dec_to_int ?d = None" by (cases "vl_dec_to_int ?d") auto
  ultimately show ?thesis by (simp add: i64_def)
qed

end
