(* ===== verification/DecText.thy ===== *)
theory DecText
  imports DecShape
begin

section \<open>Decimal text (dec.c: parse\_into, vl\_dec\_str, vl\_dec\_fixed)\<close>

text \<open>
  Reading and writing decimals.  A C string is the list of its characters up to the
  terminating NUL.  \<open>vl_dec_parse\<close> reads every text \<open>vl_dec_str\<close> writes, and the text
  of \<open>vl_dec_fixed\<close> is the decimal rounded half-even to the places asked for.
  Sums of exponents and counts wrap to 32 bits (\<^const>\<open>w32\<close>); the theorems name the bounds they need.
\<close>

subsection \<open>Parsing\<close>

definition DEC_MAX_EXP :: int where
  "DEC_MAX_EXP = 999999999"

text \<open>\<^verbatim>\<open>strtoll(s, &end, 10)\<close> with \<^verbatim>\<open>end == s\<close> or \<^verbatim>\<open>*end != 0\<close> refused: leading space, a
  sign, digits to the end.  A value out of range sets \<^verbatim>\<open>ERANGE\<close>, which the caller's bound
  refuses as well, so the value is unbounded here.\<close>

definition strtoll_all :: "string \<Rightarrow> int option" where
  "strtoll_all s =
     (let s1 = dropWhile is_space s;
          (sn, s2) = (case s1 of
              [] \<Rightarrow> (1, [])
            | c # t \<Rightarrow> if c = CHR ''-'' then (- 1, t) else if c = CHR ''+'' then (1, t) else (1, s1))
      in if s2 = [] \<or> \<not> list_all is_digit s2 then None
         else Some (sn * int (dval (map digit_val s2))))"

text \<open>The mantissa loop: \<open>sd\<close> and \<open>sg\<close> are \<^verbatim>\<open>seen_dot\<close> and \<^verbatim>\<open>seen_digit\<close>.\<close>

fun mant_loop :: "string \<Rightarrow> bool \<Rightarrow> bool \<Rightarrow> nat list \<Rightarrow> nat \<Rightarrow> (nat list \<times> nat \<times> bool) option" where
  "mant_loop [] sd sdig buf fr = Some (buf, fr, sdig)"
| "mant_loop (c # s) sd sdig buf fr =
     (if c = CHR ''.'' then (if sd then None else mant_loop s True sdig buf fr)
      else if c = CHR ''_'' then mant_loop s sd sdig buf fr
      else if \<not> is_digit c then None
      else mant_loop s sd True (buf @ [digit_val c]) (if sd then fr + 1 else fr))"

definition is_e :: "char \<Rightarrow> bool" where
  "is_e c \<longleftrightarrow> c = CHR ''e'' \<or> c = CHR ''E''"

definition parse_into :: "string \<Rightarrow> (bool \<times> nat list \<times> int) option" where
  "parse_into str =
     (let s0 = dropWhile (\<lambda>c. c = CHR '' '' \<or> c = CHR 0x09) str;
          (n, s) = (case s0 of
              [] \<Rightarrow> (False, [])
            | c # t \<Rightarrow> if c = CHR ''+'' then (False, t) else if c = CHR ''-'' then (True, t)
                      else (False, s0));
          mant = takeWhile (\<lambda>c. \<not> is_e c) s;
          e = dropWhile (\<lambda>c. \<not> is_e c) s;
          exp_part = (case e of
              [] \<Rightarrow> Some 0
            | _ # t \<Rightarrow>
                (case strtoll_all t of
                   None \<Rightarrow> None
                 | Some v \<Rightarrow> if DEC_MAX_EXP < v \<or> v < - DEC_MAX_EXP then None else Some v))
      in case exp_part of
           None \<Rightarrow> None
         | Some x \<Rightarrow>
             (case mant_loop mant False False [] 0 of
                None \<Rightarrow> None
              | Some (buf, fr, sdig) \<Rightarrow>
                  if \<not> sdig then None
                  else if x - int fr < - DEC_MAX_EXP then None
                  else Some (n, buf, x - int fr)))"

definition vl_dec_try_parse :: "string \<Rightarrow> dec option" where
  "vl_dec_try_parse s =
     (case parse_into s of None \<Rightarrow> None | Some (n, ds, e) \<Rightarrow> Some (make n ds e))"

definition vl_dec_parse :: "string \<Rightarrow> dec result" where
  "vl_dec_parse s =
     (case parse_into s of
        None \<Rightarrow> Inl (ConvError ''str'' ''dec'' s)
      | Some (n, ds, e) \<Rightarrow> Inr (make n ds e))"

subsection \<open>Printing\<close>

text \<open>\<^verbatim>\<open>%d\<close> of a non-negative number.\<close>

definition nat_text :: "nat \<Rightarrow> string" where
  "nat_text n = map digit_char (if n = 0 then [0] else int_digits n [])"

definition digs :: "nat list \<Rightarrow> string" where
  "digs ds = map digit_char ds"

definition sign_text :: "bool \<Rightarrow> string" where
  "sign_text n = (if n then ''-'' else [])"

definition vl_dec_str :: "dec \<Rightarrow> string" where
  "vl_dec_str a =
     (let d = normalize a;
          nd = length (d_dig d);
          adj = w32 (d_exp d + int nd - 1)
      in if d_exp d \<le> 0 \<and> - 6 \<le> adj then
           let point = w32 (int nd + d_exp d)
           in if d_exp d = 0 then sign_text (d_neg d) @ digs (d_dig d)
              else if 0 < point then
                sign_text (d_neg d) @ digs (take (nat point) (d_dig d)) @ ''.''
                  @ digs (drop (nat point) (d_dig d))
              else sign_text (d_neg d) @ ''0.'' @ replicate (nat (- point)) CHR ''0'' @ digs (d_dig d)
         else if 0 < d_exp d \<and> adj \<le> 33 then
           sign_text (d_neg d) @ digs (d_dig d) @ replicate (nat (d_exp d)) CHR ''0''
         else
           sign_text (d_neg d) @ digs (take 1 (d_dig d))
             @ (if 1 < nd then ''.'' @ digs (drop 1 (d_dig d)) else [])
             @ ''E'' @ (if adj < 0 then ''-'' else ''+'') @ nat_text (nat \<bar>adj\<bar>))"

definition vl_dec_fixed :: "dec \<Rightarrow> nat \<Rightarrow> string" where
  "vl_dec_fixed a places =
     (let r = vl_dec_round a (int places);
          x = (if - int places < d_exp r then scale r (w32 (d_exp r + int places)) else r);
          nd = length (d_dig x);
          sn = sign_text (d_neg x \<and> \<not> dec_is_zero x)
      in if places = 0 then sn @ digs (d_dig x)
         else
           let padded = replicate (places + 1 - nd) 0 @ d_dig x;
               point = length padded - places
           in sn @ digs (take point padded) @ ''.'' @ digs (drop point padded))"

subsection \<open>Reading digit runs\<close>

lemma digit_val_digs: "digits ds \<Longrightarrow> map digit_val (digs ds) = ds"
  by (induction ds) (simp_all add: digs_def)

lemma all_digits_digs: "digits ds \<Longrightarrow> list_all is_digit (digs ds)"
  by (induction ds) (simp_all add: digs_def)

lemma digs_Nil [simp]: "digs [] = []" and digs_length [simp]: "length (digs ds) = length ds"
  by (simp_all add: digs_def)

lemma digs_append: "digs (xs @ ys) = digs xs @ digs ys"
  by (simp add: digs_def)

lemma digs_zeros: "replicate n CHR ''0'' = digs (replicate n 0)"
  by (simp add: digs_def digit_char_0)

lemma digit_not_e [simp]: "d < 10 \<Longrightarrow> \<not> is_e (digit_char d)"
  by (auto simp: is_e_def)

lemma digs_no_e: "digits ds \<Longrightarrow> \<forall>c \<in> set (digs ds). \<not> is_e c"
  by (induction ds) (simp_all add: digs_def)

lemma mant_digits:
  "digits ds \<Longrightarrow> mant_loop (digs ds @ rest) sd sdig buf fr =
    mant_loop rest sd (sdig \<or> ds \<noteq> []) (buf @ ds) (if sd then fr + length ds else fr)"
proof (induction ds arbitrary: sdig buf fr)
  case Nil
  then show ?case by (simp add: digs_def)
next
  case (Cons d ds)
  then have d: "digit_char d \<noteq> CHR ''.''" "digit_char d \<noteq> CHR ''_''" by simp_all
  with Cons.prems Cons.IH [of True "buf @ [d]" "if sd then fr + 1 else fr"]
  show ?case by (simp add: digs_def)
qed

text \<open>The shape of every printed text: digits, a fraction, an exponent.\<close>

definition expo_text :: "int option \<Rightarrow> string" where
  "expo_text x = (case x of None \<Rightarrow> [] | Some v \<Rightarrow> ''E'' @ (if v < 0 then ''-'' else ''+'') @ nat_text (nat \<bar>v\<bar>))"

lemma nat_text_strtoll:
  "strtoll_all ((if v < 0 then ''-'' else ''+'') @ nat_text (nat \<bar>v\<bar>)) = Some v"
proof -
  define ds where "ds = (if nat \<bar>v\<bar> = 0 then [0] else int_digits (nat \<bar>v\<bar>) [])"
  have ds: "digits ds" "dval ds = nat \<bar>v\<bar>"
    using int_digits_props [of "[]" "nat \<bar>v\<bar>"] by (simp_all add: ds_def)
  have "ds \<noteq> []" using ds(2) by (auto simp: ds_def)
  moreover have "nat_text (nat \<bar>v\<bar>) = digs ds" by (simp add: nat_text_def ds_def digs_def)
  moreover have "\<not> is_space CHR ''-''" "\<not> is_space CHR ''+''" by (simp_all add: is_space_def)
  ultimately show ?thesis
    using ds by (simp add: strtoll_all_def all_digits_digs digit_val_digs) (simp add: digs_def)
qed

lemma parse_shape:
  assumes ds: "digits ip" "digits fp" "ip \<noteq> []"
    and dot: "dot = '''' \<and> fp = [] \<or> dot = ''.''"
    and x: "xv = (case x of None \<Rightarrow> 0 | Some v \<Rightarrow> v)" "\<bar>xv\<bar> \<le> DEC_MAX_EXP"
    and f: "- DEC_MAX_EXP \<le> xv - int (length fp)"
  shows "parse_into (sign_text n @ digs ip @ dot @ digs fp @ expo_text x)
    = Some (n, ip @ fp, xv - int (length fp))"
proof -
  let ?m = "digs ip @ dot @ digs fp"
  obtain i ip' where ip: "ip = i # ip'" "i < 10" using ds(1,3) by (cases ip) auto
  have hd: "digs ip = digit_char i # digs ip'" by (simp add: ip digs_def)
  have "\<forall>c \<in> set dot. \<not> is_e c" using dot by (auto simp: is_e_def)
  then have "\<forall>c \<in> set ?m. \<not> is_e c"
    unfolding set_append ball_Un using digs_no_e [OF ds(1)] digs_no_e [OF ds(2)] by blast
  moreover have "expo_text x = [] \<or> \<not> \<not> is_e (hd (expo_text x))"
    by (simp add: expo_text_def is_e_def split: option.splits)
  ultimately have tw: "takeWhile (\<lambda>c. \<not> is_e c) (?m @ expo_text x) = ?m"
    "dropWhile (\<lambda>c. \<not> is_e c) (?m @ expo_text x) = expo_text x"
    by (rule takeWhile_run)+
  have ml: "mant_loop ?m False False [] 0 = Some (ip @ fp, length fp, True)"
    using dot mant_digits [OF ds(1), of "dot @ digs fp" False False "[]" 0]
      mant_digits [OF ds(2), of "[]" True True ip 0] ds(3) by auto
  have ex: "(case expo_text x of [] \<Rightarrow> Some 0 | _ # t \<Rightarrow>
      (case strtoll_all t of None \<Rightarrow> None
       | Some v \<Rightarrow> if DEC_MAX_EXP < v \<or> v < - DEC_MAX_EXP then None else Some v)) = Some xv"
    using x nat_text_strtoll by (auto simp: expo_text_def split: option.splits)
  have s0: "dropWhile (\<lambda>c. c = CHR '' '' \<or> c = CHR 0x09) (sign_text n @ ?m @ expo_text x)
      = sign_text n @ ?m @ expo_text x"
    using ip(2) by (auto simp: sign_text_def hd)
  have sg: "(case sign_text n @ ?m @ expo_text x of [] \<Rightarrow> (False, [])
      | c # t \<Rightarrow> if c = CHR ''+'' then (False, t) else if c = CHR ''-'' then (True, t)
                else (False, sign_text n @ ?m @ expo_text x)) = (n, ?m @ expo_text x)"
    using ip(2) by (auto simp: sign_text_def hd)
  show ?thesis
    unfolding parse_into_def Let_def s0 [unfolded append_assoc] sg [unfolded append_assoc]
      prod.case tw [unfolded append_assoc] ex ml [unfolded append_assoc] option.case
    using f by simp
qed

lemma try_parse_shape:
  assumes "digits ip" "digits fp" "ip \<noteq> []" "dot = '''' \<and> fp = [] \<or> dot = ''.''"
    "\<bar>case x of None \<Rightarrow> 0 | Some v \<Rightarrow> v\<bar> \<le> DEC_MAX_EXP"
    "- DEC_MAX_EXP \<le> (case x of None \<Rightarrow> 0 | Some v \<Rightarrow> v) - int (length fp)"
    "sg n * of_nat (dval (ip @ fp)) * p10 ((case x of None \<Rightarrow> 0 | Some v \<Rightarrow> v) - int (length fp)) = r"
    "t = sign_text n @ digs ip @ dot @ digs fp @ expo_text x"
  shows "\<exists>d'. vl_dec_try_parse t = Some d' \<and> dec_ok d' \<and> dec_rat d' = r"
proof -
  define e where "e = (case x of None \<Rightarrow> 0 | Some v \<Rightarrow> v) - int (length fp)"
  have p: "parse_into t = Some (n, ip @ fp, e)"
    using parse_shape [OF assms(1-4) refl assms(5,6), of n] assms(8) by (simp add: e_def)
  have "- DEC_MAX_EXP \<le> e" "e \<le> DEC_MAX_EXP" using assms(5,6) unfolding e_def by linarith+
  then have "dec_ok (make n (ip @ fp) e)" using assms(1,2) by (simp add: DEC_MAX_EXP_def)
  with p assms(7) show ?thesis by (simp add: vl_dec_try_parse_def flip: e_def)
qed

subsection \<open>Printing is read back\<close>

lemma normalize_exp:
  assumes "dec_ok d"
  shows "d_exp d \<le> d_exp (normalize d)"
    and "d_exp (normalize d) + int (length (d_dig (normalize d))) = d_exp d + int (length (d_dig d))"
proof -
  obtain nd e where n: "norm_loop (d_dig d) (length (d_dig d)) (d_exp d) = (nd, e)" by fastforce
  have l: "0 < length (d_dig d)" using dec_okD(2) [OF assms] by simp
  note p = norm_loop_props [OF l le_refl n]
  have "d_exp d \<le> d_exp (normalize d) \<and>
    d_exp (normalize d) + int (length (d_dig (normalize d))) = d_exp d + int (length (d_dig d))"
  proof (cases "dec_is_zero d")
    case True
    then show ?thesis by (simp add: normalize_def)
  next
    case False
    then have z: "\<not> dec_is_zero (normalize d)" using assms by (simp add: dec_is_zero_rat)
    note a = dec_rat_decade [OF assms False]
    note b = dec_rat_decade [OF normalize_rat(2) [OF assms] z, unfolded normalize_rat(1) [OF assms]]
    have "d_exp (normalize d) + int (length (d_dig (normalize d))) = d_exp d + int (length (d_dig d))"
      by (rule p10_decade_unique [where n = 0]) (use a b in simp_all)
    moreover have "normalize d = d \<or> normalize d = make (d_neg d) (take nd (d_dig d)) e"
      using False by (simp add: normalize_def n)
    then have "d_exp d \<le> d_exp (normalize d)"
      using z p by (auto simp: make_def Let_def dec_is_zero_def split: if_splits)
    ultimately show ?thesis by simp
  qed
  then show "d_exp d \<le> d_exp (normalize d)"
    and "d_exp (normalize d) + int (length (d_dig (normalize d))) = d_exp d + int (length (d_dig d))"
    by simp_all
qed

lemma dec_str_parse_lemma:
  assumes ok: "dec_ok d"
    and range: "- DEC_MAX_EXP \<le> d_exp d" "d_exp d + int (length (d_dig d)) \<le> DEC_MAX_EXP + 1"
  shows "\<exists>d'. vl_dec_try_parse (vl_dec_str d) = Some d' \<and> dec_ok d' \<and> dec_rat d' = dec_rat d"
proof -
  define c where "c = normalize d"
  let ?ds = "d_dig c" and ?nd = "int (length (d_dig c))"
  have cok: "dec_ok c" and rc: "dec_rat c = dec_rat d" using ok by (simp_all add: c_def)
  note okc = dec_okD [OF cok]
  have nd: "1 \<le> ?nd" using okc(2) by (cases ?ds) auto
  define adj where "adj = d_exp c + ?nd - 1"
  have r1: "- DEC_MAX_EXP \<le> d_exp c" "adj \<le> DEC_MAX_EXP"
    using normalize_exp [OF ok] range by (simp_all add: c_def adj_def)
  have w: "w32 (d_exp c + ?nd - 1) = adj" "w32 (?nd + d_exp c) = ?nd + d_exp c"
    using r1 nd unfolding adj_def by (intro w32_id; simp add: DEC_MAX_EXP_def)+
  have max: "0 < DEC_MAX_EXP" by (simp add: DEC_MAX_EXP_def)
  have val: "dec_rat d = sg (d_neg c) * of_nat (dval ?ds) * p10 (d_exp c)"
    unfolding rc [symmetric] by (simp add: dec_rat_def)
  consider (zero) "d_exp c = 0" "- 6 \<le> adj"
    | (point) "d_exp c < 0" "- 6 \<le> adj" "0 < ?nd + d_exp c"
    | (lead) "d_exp c < 0" "- 6 \<le> adj" "?nd + d_exp c \<le> 0"
    | (trail) "0 < d_exp c" "adj \<le> 33"
    | (sci) "\<not> (d_exp c \<le> 0 \<and> - 6 \<le> adj)" "\<not> (0 < d_exp c \<and> adj \<le> 33)" by linarith
  then show ?thesis
  proof cases
    case zero
    have t: "vl_dec_str d = sign_text (d_neg c) @ digs ?ds"
      unfolding vl_dec_str_def Let_def c_def [symmetric] w using zero by simp
    show ?thesis
      by (rule try_parse_shape [where ip = ?ds and fp = "[]" and dot = "''''" and x = None and n = "d_neg c"])
        (use zero okc val max in \<open>simp_all add: t expo_text_def digs_def\<close>)
  next
    case point
    let ?p = "nat (?nd + d_exp c)"
    have t: "vl_dec_str d = sign_text (d_neg c) @ digs (take ?p ?ds) @ ''.'' @ digs (drop ?p ?ds)"
      unfolding vl_dec_str_def Let_def c_def [symmetric] w using point by simp
    have p: "take ?p ?ds \<noteq> []" "int (length (drop ?p ?ds)) = - d_exp c" "take ?p ?ds @ drop ?p ?ds = ?ds"
      using point nd okc(2) by auto
    show ?thesis
      by (rule try_parse_shape [where ip = "take ?p ?ds" and fp = "drop ?p ?ds" and dot = "''.''"
            and x = None and n = "d_neg c"], unfold p(2,3))
        (use okc val max p(1) r1 t in \<open>simp_all add: expo_text_def\<close>)
  next
    case lead
    let ?z = "nat (- (?nd + d_exp c))"
    have t: "vl_dec_str d = sign_text (d_neg c) @ digs [0] @ ''.'' @ digs (replicate ?z 0 @ ?ds)"
      unfolding vl_dec_str_def Let_def c_def [symmetric] w using lead
      by (simp add: digs_zeros digs_append) (simp add: digs_def digit_char_0)
    have l: "int (length (replicate ?z 0 @ ?ds)) = - d_exp c" using lead by simp
    show ?thesis
      by (rule try_parse_shape [where ip = "[0]" and fp = "replicate ?z 0 @ ?ds" and dot = "''.''"
            and x = None and n = "d_neg c"], unfold l)
        (use lead okc val max r1 t in \<open>simp_all add: expo_text_def dval_append dval_Cons\<close>)
  next
    case trail
    let ?z = "nat (d_exp c)"
    have t: "vl_dec_str d = sign_text (d_neg c) @ digs (?ds @ replicate ?z 0)"
      unfolding vl_dec_str_def Let_def c_def [symmetric] w using trail
      by (simp add: digs_zeros digs_append)
    show ?thesis
      by (rule try_parse_shape [where ip = "?ds @ replicate ?z 0" and fp = "[]" and dot = "''''"
            and x = None and n = "d_neg c"])
        (use trail okc val max t in \<open>simp_all add: expo_text_def dval_append digs_def p10_nonneg_exp\<close>)
  next
    case sci
    let ?dot = "if 1 < length ?ds then ''.'' else ''''"
    have t: "vl_dec_str d = sign_text (d_neg c) @ digs (take 1 ?ds) @ ?dot @ digs (drop 1 ?ds)
        @ expo_text (Some adj)"
      unfolding vl_dec_str_def Let_def c_def [symmetric] w if_not_P [OF sci(1)]
        if_not_P [OF sci(2)]
      by (simp add: expo_text_def digs_def)
    have e: "adj - int (length (drop 1 ?ds)) = d_exp c" using nd by (simp add: adj_def)
    have sp: "take 1 ?ds @ drop 1 ?ds = ?ds" by simp
    show ?thesis
      by (rule try_parse_shape [where ip = "take 1 ?ds" and fp = "drop 1 ?ds" and dot = ?dot
            and x = "Some adj" and n = "d_neg c"], unfold option.case e sp)
        (use okc val r1 nd t in \<open>auto simp: adj_def\<close>)
  qed
qed

subsection \<open>Fixed-point text\<close>

lemma vl_dec_round_cases:
  assumes "dec_small d" "\<bar>p\<bar> \<le> 1000000000"
  obtains "vl_dec_round d p = d" "- p \<le> d_exp d"
    | ds where "vl_dec_round d p = make (d_neg d) ds (- p)"
proof (cases "- p \<le> d_exp d")
  case True
  then show thesis using that(1) by (simp add: vl_dec_round_exact(1) [OF assms])
next
  case False
  then have w: "w32 (- p - d_exp d) = - p - d_exp d" "\<not> - p - d_exp d \<le> 0"
    using vl_dec_round_exact(2,3) [OF assms] by simp_all
  have "\<exists>ds. vl_dec_round d p = make (d_neg d) ds (- p)"
    unfolding vl_dec_round_exact(1) [OF assms] if_not_P [OF False] reduce_exp_def Let_def w(1)
      if_not_P [OF w(2)]
    by (cases "int (length (d_dig d)) \<le> - p - d_exp d") auto
  then show thesis using that(2) by blast
qed

lemma vl_dec_round_exp:
  assumes "dec_small d" "\<bar>p\<bar> \<le> 1000000000"
  shows "- p \<le> d_exp (vl_dec_round d p) \<or> dec_is_zero (vl_dec_round d p)"
  by (rule vl_dec_round_cases [OF assms]) (auto simp: make_def Let_def dec_is_zero_def)

text \<open>\<^verbatim>\<open>vl_dec_fixed\<close> (the engine of \<^verbatim>\<open>%.Nf\<close>): the text is a sign, a non-empty integer part and,
  when places are asked for, a point and exactly that many digits; read as a number it is the
  decimal rounded half-even at that place.\<close>

theorem dec_fixed_correct:
  assumes small: "dec_small a" and places: "p \<le> 100000000"
  shows "\<exists>n ip fp. vl_dec_fixed a p = sign_text n @ digs ip @ (if p = 0 then [] else ''.'' @ digs fp) \<and>
    digits ip \<and> digits fp \<and> ip \<noteq> [] \<and> length fp = p \<and>
    sg n * of_nat (dval (ip @ fp)) * p10 (- int p)
      = of_int (round_he (dec_rat a * p10 (int p))) * p10 (- int p)"
proof -
  have pl: "\<bar>int p\<bar> \<le> 1000000000" using places by simp
  note ok = dec_smallD(1) [OF small] and vr = vl_dec_round_exact [OF small pl]
  define r where "r = vl_dec_round a (int p)"
  define x where "x = scale r (d_exp r - - int p)"
  have rok: "dec_ok r" and rr: "dec_rat r = of_int (round_he (dec_rat a * p10 (int p))) * p10 (- int p)"
    using vl_dec_round_correct [OF small pl] by (simp_all add: r_def)
  have re: "r = a \<or> (- int p < d_exp r \<longrightarrow> d_exp r = 0 \<and> length (d_dig r) = 1)"
  proof (rule vl_dec_round_cases [OF small pl])
    fix ds
    assume "vl_dec_round a (int p) = make (d_neg a) ds (- int p)"
    then show ?thesis using make_exp [of "d_neg a" ds "- int p"] by (auto simp: r_def)
  qed (simp add: r_def)
  have can: "can_scale r (d_exp r - - int p)"
    using re rok places dec_smallD [OF small] by (auto simp: can_scale_def)
  have "w32 (d_exp r + int p) = d_exp r + int p" if "- int p < d_exp r"
    using re that places dec_smallD [OF small] by (intro w32_id) auto
  then have x: "(if - int p < d_exp r then scale r (w32 (d_exp r + int p)) else r) = x"
    by (simp add: x_def scale_def)
  have xok: "dec_ok x" using can by (simp add: x_def)
  have val: "dec_rat r = sg (d_neg x) * of_nat (dval (d_dig x)) * p10 (- int p)"
    using scale_coef [OF can] vl_dec_round_exp [OF small pl] by (simp add: x_def r_def)
  define n where "n = (d_neg x \<and> \<not> dec_is_zero x)"
  have val': "dec_rat r = sg n * of_nat (dval (d_dig x)) * p10 (- int p)"
    unfolding val by (cases "dval (d_dig x) = 0") (simp_all add: n_def dec_is_zero_dval)
  note xd = dec_okD [OF xok]
  show ?thesis
  proof (cases "p = 0")
    case True
    have "vl_dec_fixed a p = sign_text n @ digs (d_dig x)"
      unfolding vl_dec_fixed_def Let_def r_def [symmetric] x n_def [symmetric] using True by simp
    then show ?thesis using True xd val' rr
      by (intro exI [of _ n] exI [of _ "d_dig x"] exI [of _ "[]"]) simp
  next
    case False
    define pd where "pd = replicate (p + 1 - length (d_dig x)) 0 @ d_dig x"
    define k where "k = length pd - p"
    have pd: "digits pd" "dval pd = dval (d_dig x)" "p < length pd"
      using xd by (auto simp: pd_def dval_append)
    have "vl_dec_fixed a p = sign_text n @ digs (take k pd) @ ''.'' @ digs (drop k pd)"
      unfolding vl_dec_fixed_def Let_def r_def [symmetric] x n_def [symmetric] pd_def [symmetric]
        k_def [symmetric] using False by simp
    moreover have "take k pd \<noteq> []" "length (drop k pd) = p" using pd(3) by (auto simp: k_def)
    ultimately show ?thesis using False pd val' rr
      by (intro exI [of _ n] exI [of _ "take k pd"] exI [of _ "drop k pd"]) simp
  qed
qed

theorem dec_fixed_correct_witness:
  "\<exists>n ip fp. vl_dec_fixed \<lparr>d_neg = True, d_exp = - 3, d_dig = [1, 9, 9, 9, 5]\<rparr> 2
      = sign_text n @ digs ip @ (if (2::nat) = 0 then [] else ''.'' @ digs fp) \<and>
    digits ip \<and> digits fp \<and> ip \<noteq> [] \<and> length fp = 2 \<and>
    sg n * of_nat (dval (ip @ fp)) * p10 (- int 2)
      = of_int (round_he (dec_rat \<lparr>d_neg = True, d_exp = - 3, d_dig = [1, 9, 9, 9, 5]\<rparr> * p10 (int 2)))
          * p10 (- int 2)"
  by (rule dec_fixed_correct) (simp_all add: dec_small_def dec_ok_def)

text \<open>C40. The text \<^verbatim>\<open>vl_dec_str\<close> writes is read back by \<^verbatim>\<open>vl_dec_parse\<close> as the same value,
  whichever of the plain, zero-padded and scientific forms was chosen, for every decimal whose
  exponents are within the parser's bound of 999999999.\<close>

theorem dec_str_roundtrip:
  assumes "dec_ok d" "- DEC_MAX_EXP \<le> d_exp d" "d_exp d + int (length (d_dig d)) \<le> DEC_MAX_EXP + 1"
  shows "\<exists>d'. vl_dec_parse (vl_dec_str d) = Inr d' \<and> dec_ok d' \<and> dec_rat d' = dec_rat d"
  using dec_str_parse_lemma [OF assms]
  by (auto simp: vl_dec_parse_def vl_dec_try_parse_def split: option.splits)

theorem dec_str_roundtrip_witness:
  "\<exists>d'. vl_dec_parse (vl_dec_str \<lparr>d_neg = True, d_exp = 40, d_dig = [1, 2, 5]\<rparr>) = Inr d' \<and> dec_ok d' \<and>
    dec_rat d' = dec_rat \<lparr>d_neg = True, d_exp = 40, d_dig = [1, 2, 5]\<rparr>"
  by (rule dec_str_roundtrip) (simp_all add: dec_ok_def DEC_MAX_EXP_def)

lemma mant_loop_digits:
  "digits buf \<Longrightarrow> mant_loop m sd sdig buf fr = Some (buf', fr', sdig') \<Longrightarrow> digits buf'"
  by (induction m sd sdig buf fr rule: mant_loop.induct)
    (auto simp: is_digit_def digit_val_def split: if_splits)

lemma exp_part_bound:
  "(case e of [] \<Rightarrow> Some 0 | _ # t \<Rightarrow> (case strtoll_all t of None \<Rightarrow> None
     | Some v \<Rightarrow> if DEC_MAX_EXP < v \<or> v < - DEC_MAX_EXP then None else Some v)) = Some x
   \<Longrightarrow> x \<le> DEC_MAX_EXP"
  by (auto simp: DEC_MAX_EXP_def split: list.splits option.splits if_splits)

lemma parse_tail:
  "(case E of None \<Rightarrow> None
    | Some x \<Rightarrow> (case M of None \<Rightarrow> None
        | Some (buf, fr, sdig) \<Rightarrow>
            if \<not> sdig then None else if x - int fr < - DEC_MAX_EXP then None
            else Some (n, buf, x - int fr))) = Some (n', ds, e) \<Longrightarrow>
   \<exists>x fr. E = Some x \<and> M = Some (ds, fr, True) \<and> - DEC_MAX_EXP \<le> e \<and> e = x - int fr"
  by (auto split: option.splits prod.splits if_splits)

lemma parse_into_Some:
  assumes "parse_into s = Some (n, ds, e)"
  shows "\<exists>m fr. mant_loop m False False [] 0 = Some (ds, fr, True) \<and>
    - DEC_MAX_EXP \<le> e \<and> e \<le> DEC_MAX_EXP"
proof -
  let ?s0 = "dropWhile (\<lambda>c. c = CHR '' '' \<or> c = CHR 0x09) s"
  obtain n1 s1 where p: "(case ?s0 of [] \<Rightarrow> (False, [])
      | c # t \<Rightarrow> if c = CHR ''+'' then (False, t) else if c = CHR ''-'' then (True, t)
                else (False, ?s0)) = (n1, s1)" by fastforce
  obtain x fr where x: "(case dropWhile (\<lambda>c. \<not> is_e c) s1 of [] \<Rightarrow> Some 0 | _ # t \<Rightarrow>
      (case strtoll_all t of None \<Rightarrow> None
       | Some v \<Rightarrow> if DEC_MAX_EXP < v \<or> v < - DEC_MAX_EXP then None else Some v)) = Some x"
    and m: "mant_loop (takeWhile (\<lambda>c. \<not> is_e c) s1) False False [] 0 = Some (ds, fr, True)"
    and e: "- DEC_MAX_EXP \<le> e" "e = x - int fr"
    using parse_tail [OF assms [unfolded parse_into_def Let_def p prod.case]] by blast
  show ?thesis using m e exp_part_bound [OF x] by (intro exI conjI) auto
qed

text \<open>Whatever \<^verbatim>\<open>vl_dec_parse\<close> accepts is a well-formed decimal with an exponent inside
  \<^verbatim>\<open>[-999999999, 999999999]\<close>; everything else throws \<^verbatim>\<open>ConvError\<close> with the text.\<close>

theorem dec_parse_total:
  "(\<exists>d. vl_dec_parse s = Inr d \<and> dec_ok d \<and> - DEC_MAX_EXP \<le> d_exp d \<and> d_exp d \<le> DEC_MAX_EXP) \<or>
   vl_dec_parse s = Inl (ConvError ''str'' ''dec'' s)"
proof (cases "parse_into s")
  case None
  then show ?thesis by (simp add: vl_dec_parse_def)
next
  case (Some t)
  obtain n ds e where t: "t = (n, ds, e)" by (cases t) auto
  have "digits ds \<and> - DEC_MAX_EXP \<le> e \<and> e \<le> DEC_MAX_EXP"
    using parse_into_Some [of s n ds e] Some t mant_loop_digits [of "[]"] by auto
  moreover have "d_exp (make n ds e) = e \<or> d_exp (make n ds e) = 0"
    by (simp add: make_def Let_def)
  ultimately show ?thesis
    using Some t by (auto simp: vl_dec_parse_def DEC_MAX_EXP_def)
qed

end
