(* ===== verification/Utf8.thy ===== *)
theory Utf8
  imports Prelude
begin

section \<open>UTF-8 (str.c: rune\_len\_n .. case\_map, value.c and coll.c decoding)\<close>

text \<open>
  A \<^verbatim>\<open>str\<close> is a byte string; the Unicode operations decode it as they go.  A pointer with
  the number of bytes that remain is the list of the remaining bytes; a code point is a
  natural number (the \<^verbatim>\<open>uint32_t\<close> of the code).  The strict decoder \<open>utf8_next\<close> and the encoder
  \<open>utf8_put\<close> are inverse to each other on Unicode scalar values, which makes well-formed text
  exactly the concatenations of encodings.
\<close>

unbundle bit_operations_syntax

subsection \<open>Bit operations on bytes\<close>

abbreviation byte :: "char \<Rightarrow> nat" where
  "byte \<equiv> of_char"

lemma byte_less [simp]: "byte c < 256"
  by (rule nat_of_char_less_256)
 
lemma or_low:
  fixes a x :: nat
  assumes "x < 2 ^ k" "2 ^ k dvd a"
  shows "a OR x = a + x"
proof -
  from assms(2) obtain q where q: "a = push_bit k q"
    by (auto simp: push_bit_eq_mult dvd_def mult.commute)
  have x: "take_bit k x = x" using assms(1) by (simp add: take_bit_nat_eq_self)
  have "\<not> bit a n \<or> \<not> bit x n" for n
    using x by (cases "n < k") (simp_all add: q bit_push_bit_iff, metis bit_take_bit_iff)
  then show ?thesis by (simp add: disjunctive_add)
qed

lemma and_masks:
  fixes n :: nat
  shows "n AND 0x3F = n mod 64" "n AND 0x1F = n mod 32" "n AND 0x0F = n mod 16"
    "n AND 0x07 = n mod 8"
proof -
  have m: "mask 6 = (0x3F::nat)" "mask 5 = (0x1F::nat)" "mask 4 = (0x0F::nat)" "mask 3 = (7::nat)"
    by (simp_all add: mask_eq_exp_minus_1)
  show "n AND 0x3F = n mod 64" "n AND 0x1F = n mod 32" "n AND 0x0F = n mod 16"
    "n AND 0x07 = n mod 8"
    unfolding m [symmetric] by (simp_all flip: take_bit_eq_mask add: take_bit_eq_mod)
qed

lemma and_push_mask:
  fixes b :: nat
  assumes "b < 2 ^ (k + j)"
  shows "b AND push_bit k (mask j) = push_bit k (drop_bit k b)"
proof (rule bit_eqI)
  fix n
  have "take_bit (k + j) b = b" using assms by (simp add: take_bit_nat_eq_self)
  then have "bit b n \<Longrightarrow> n < k + j" by (metis bit_take_bit_iff)
  then show "bit (b AND push_bit k (mask j)) n \<longleftrightarrow> bit (push_bit k (drop_bit k b)) n"
    by (auto simp: bit_and_iff bit_push_bit_iff bit_drop_bit_eq bit_mask_iff)
qed

lemma and_high:
  assumes "(b::nat) < 256"
  shows "b AND 0xC0 = 64 * (b div 64)" "b AND 0xE0 = 32 * (b div 32)"
    "b AND 0xF0 = 16 * (b div 16)" "b AND 0xF8 = 8 * (b div 8)"
  using assms and_push_mask [of b 6 2] and_push_mask [of b 5 3] and_push_mask [of b 4 4]
    and_push_mask [of b 3 5]
  by (simp_all add: mask_eq_exp_minus_1 push_bit_eq_mult drop_bit_eq_div)

lemmas byte_bits = and_masks and_high drop_bit_eq_div push_bit_eq_mult

subsection \<open>Decoding and encoding\<close>

definition rune_len_n :: "nat \<Rightarrow> nat \<Rightarrow> nat" where
  "rune_len_n p remaining =
     (let n = (if 0xF0 \<le> p then 4 else if 0xE0 \<le> p then 3 else if 0xC0 \<le> p then 2 else 1)
      in if remaining < n then 1 else n)"

text \<open>The continuation loop of \<^verbatim>\<open>utf8_next\<close>: \<open>n\<close> bytes are left to read.\<close>

fun utf8_cont :: "nat \<Rightarrow> string \<Rightarrow> nat \<Rightarrow> nat option" where
  "utf8_cont 0 p c = Some c"
| "utf8_cont (Suc n) [] c = None"
| "utf8_cont (Suc n) (b # p) c =
     (if byte b AND 0xC0 \<noteq> 0x80 then None
      else utf8_cont n p (push_bit 6 c OR (byte b AND 0x3F)))"

text \<open>The result \<^verbatim>\<open>-1\<close> is \<^const>\<open>None\<close>; the second component is \<^verbatim>\<open>*len\<close>.\<close>

definition utf8_next :: "string \<Rightarrow> nat option \<times> nat" where
  "utf8_next p =
     (let c = byte (hd p)
      in if c < 0x80 then (Some c, 1)
         else
           case (if c AND 0xE0 = 0xC0 then Some (2, c AND 0x1F, 0x80)
                 else if c AND 0xF0 = 0xE0 then Some (3, c AND 0x0F, 0x800)
                 else if c AND 0xF8 = 0xF0 then Some (4, c AND 0x07, 0x10000)
                 else None) of
             None \<Rightarrow> (None, 1)
           | Some (n, c, mn) \<Rightarrow>
               if length p < n then (None, 1)
               else
                 case utf8_cont (n - 1) (tl p) c of
                   None \<Rightarrow> (None, 1)
                 | Some c \<Rightarrow>
                     if c < mn \<or> 0x10FFFF < c \<or> 0xD800 \<le> c \<and> c \<le> 0xDFFF then (None, 1)
                     else (Some c, n))"

definition utf8_put :: "nat \<Rightarrow> string" where
  "utf8_put r =
     (if r < 0x80 then [char_of r]
      else if r < 0x800 then
        [char_of (0xC0 OR drop_bit 6 r), char_of (0x80 OR (r AND 0x3F))]
      else if r < 0x10000 then
        [char_of (0xE0 OR drop_bit 12 r), char_of (0x80 OR (drop_bit 6 r AND 0x3F)),
         char_of (0x80 OR (r AND 0x3F))]
      else
        [char_of (0xF0 OR drop_bit 18 r), char_of (0x80 OR (drop_bit 12 r AND 0x3F)),
         char_of (0x80 OR (drop_bit 6 r AND 0x3F)), char_of (0x80 OR (r AND 0x3F))])"

text \<open>A Unicode scalar value.\<close>

definition scalar :: "nat \<Rightarrow> bool" where
  "scalar r \<longleftrightarrow> r \<le> 0x10FFFF \<and> \<not> (0xD800 \<le> r \<and> r \<le> 0xDFFF)"

lemma or_lead:
  "x < 32 \<Longrightarrow> 0xC0 OR x = 0xC0 + (x::nat)" "x < 16 \<Longrightarrow> 0xE0 OR x = 0xE0 + (x::nat)"
  "x < 8 \<Longrightarrow> 0xF0 OR x = 0xF0 + (x::nat)" "0x80 OR (x mod 64) = 0x80 + (x::nat) mod 64"
  using or_low [of x 5 "0xC0"] or_low [of x 4 "0xE0"] or_low [of x 3 "0xF0"]
    or_low [of "x mod 64" 6 "0x80"] by simp_all

lemma utf8_put_arith:
  assumes "r < 0x200000"
  shows "utf8_put r =
    (if r < 0x80 then [char_of r]
     else if r < 0x800 then [char_of (0xC0 + r div 64), char_of (0x80 + r mod 64)]
     else if r < 0x10000 then
       [char_of (0xE0 + r div 4096), char_of (0x80 + r div 64 mod 64), char_of (0x80 + r mod 64)]
     else
       [char_of (0xF0 + r div 262144), char_of (0x80 + r div 4096 mod 64),
        char_of (0x80 + r div 64 mod 64), char_of (0x80 + r mod 64)])"
  using assms by (simp add: utf8_put_def byte_bits or_lead less_mult_imp_div_less)

lemma cont_step:
  "utf8_cont (Suc n) (b # p) c =
    (if byte b div 64 \<noteq> 2 then None else utf8_cont n p (c * 64 + byte b mod 64))"
proof -
  have "push_bit 6 c OR (byte b AND 0x3F) = push_bit 6 c + byte b mod 64"
    using or_low [of "byte b mod 64" 6 "push_bit 6 c"] by (simp add: and_masks push_bit_eq_mult)
  then show ?thesis by (simp add: byte_bits)
qed

lemma cont_single:
  "utf8_cont n p c = Some r \<Longrightarrow> n \<le> length p"
  by (induction n p c rule: utf8_cont.induct) (auto split: if_splits)

lemma not_scalar: "\<not> scalar r \<longleftrightarrow> 0x10FFFF < r \<or> 0xD800 \<le> r \<and> r \<le> 0xDFFF"
  by (auto simp: scalar_def)

lemma lead_tests:
  "byte c AND 0xE0 = 0xC0 \<longleftrightarrow> byte c div 32 = 6" "byte c AND 0xF0 = 0xE0 \<longleftrightarrow> byte c div 16 = 14"
  "byte c AND 0xF8 = 0xF0 \<longleftrightarrow> byte c div 8 = 30"
  by (simp_all add: and_high)

lemma utf8_next_arith:
  "utf8_next p =
    (let c = byte (hd p)
     in if c < 0x80 then (Some c, 1)
        else
          case (if c div 32 = 6 then Some (2, c mod 32, 0x80)
                else if c div 16 = 14 then Some (3, c mod 16, 0x800)
                else if c div 8 = 30 then Some (4, c mod 8, 0x10000)
                else None) of
            None \<Rightarrow> (None, 1)
          | Some (n, c, mn) \<Rightarrow>
              if length p < n then (None, 1)
              else
                case utf8_cont (n - 1) (tl p) c of
                  None \<Rightarrow> (None, 1)
                | Some c \<Rightarrow> if c < mn \<or> \<not> scalar c then (None, 1) else (Some c, n))"
  by (simp only: utf8_next_def Let_def lead_tests and_masks not_scalar)

subsection \<open>The decoder inverts the encoder\<close>

lemma byte_char_of [simp]: "n < 256 \<Longrightarrow> byte (char_of n) = n"
  by simp

lemma char_of_byte_eq: "byte c = n \<Longrightarrow> char_of n = c"
  by auto

lemma utf8_put_bounds: "0 < length (utf8_put r)" "length (utf8_put r) \<le> 4" "utf8_put r \<noteq> []"
  by (simp_all add: utf8_put_def)

lemma divmod_add: "a < m \<Longrightarrow> (k * m + a) mod m = a" "a < m \<Longrightarrow> (k * m + a) div m = (k::nat)"
  by simp_all

lemma lead_vals:
  fixes a :: nat
  shows "a < 32 \<Longrightarrow> (192 + a) mod 32 = a" "a < 32 \<Longrightarrow> (192 + a) div 32 = 6"
    "a < 16 \<Longrightarrow> (224 + a) mod 16 = a" "a < 16 \<Longrightarrow> (224 + a) div 16 = 14"
    "a < 16 \<Longrightarrow> (224 + a) div 32 = 7"
    "a < 8 \<Longrightarrow> (240 + a) mod 8 = a" "a < 8 \<Longrightarrow> (240 + a) div 8 = 30"
    "a < 8 \<Longrightarrow> (240 + a) div 16 = 15" "a < 8 \<Longrightarrow> (240 + a) div 32 = 7"
    "a < 64 \<Longrightarrow> (128 + a) mod 64 = a" "a < 64 \<Longrightarrow> (128 + a) div 64 = 2"
  subgoal using divmod_add [of a 32 6] by simp
  subgoal using divmod_add [of a 32 6] by simp
  subgoal using divmod_add [of a 16 14] by simp
  subgoal using divmod_add [of a 16 14] by simp
  subgoal using divmod_add [of a 32 7] by simp
  subgoal using divmod_add [of a 8 30] by simp
  subgoal using divmod_add [of a 8 30] by simp
  subgoal using divmod_add [of a 16 15] by simp
  subgoal using divmod_add [of "a + 16" 32 7] by simp
  subgoal using divmod_add [of a 64 2] by simp
  subgoal using divmod_add [of a 64 2] by simp
  done

lemma base64_digits:
  fixes r :: nat
  shows "r = r div 64 * 64 + r mod 64" "r div 64 = r div 4096 * 64 + r div 64 mod 64"
    "r div 4096 = r div 262144 * 64 + r div 4096 mod 64"
  using div_mult_mod_eq [of r 64] div_mult_mod_eq [of "r div 64" 64]
    div_mult_mod_eq [of "r div 4096" 64] div_mult2_eq [of r 64 64] div_mult2_eq [of r 4096 64]
  by simp_all

lemma cont_put: "b < 64 \<Longrightarrow> utf8_cont (Suc n) (char_of (128 + b) # p) c = utf8_cont n p (c * 64 + b)"
  by (simp only: cont_step byte_char_of lead_vals) (simp add: lead_vals)

lemma utf8_next_put:
  assumes "scalar r"
  shows "utf8_next (utf8_put r @ s) = (Some r, length (utf8_put r))"
proof -
  from assms have r: "r \<le> 0x10FFFF" by (simp add: scalar_def)
  consider (1) "r < 0x80" | (2) "0x80 \<le> r" "r < 0x800" | (3) "0x800 \<le> r" "r < 0x10000"
    | (4) "0x10000 \<le> r" by linarith
  then show ?thesis
  proof cases
    case 1
    then show ?thesis by (simp add: utf8_put_def utf8_next_def)
  next
    case 2
    define a where "a = r div 64"
    define b where "b = r mod 64"
    have ab: "r = a * 64 + b" "a < 32" "b < 64" "2 \<le> a" using 2 by (auto simp: a_def b_def)
    have "utf8_put r = [char_of (0xC0 + a), char_of (0x80 + b)]"
      using 2 r by (simp add: utf8_put_arith a_def b_def)
    then show ?thesis
      using ab assms 2 by (simp add: lead_vals utf8_next_arith cont_put numeral_2_eq_2 [symmetric] Let_def
        del: utf8_cont.simps(3))
  next
    case 3
    define a where "a = r div 4096"
    define b where "b = r div 64 mod 64"
    define c where "c = r mod 64"
    have "r = (a * 64 + b) * 64 + c"
      unfolding a_def b_def c_def by (simp only: base64_digits(1,2) [symmetric])
    then have abc: "r = (a * 64 + b) * 64 + c" "a < 16" "b < 64" "c < 64"
      using 3 less_mult_imp_div_less [of r 16 4096] by (simp_all add: a_def b_def c_def)
    have "utf8_put r = [char_of (0xE0 + a), char_of (0x80 + b), char_of (0x80 + c)]"
      using 3 r by (simp add: utf8_put_arith a_def b_def c_def)
    then show ?thesis
      using abc assms 3 by (simp add: lead_vals utf8_next_arith cont_put numeral_3_eq_3 numeral_2_eq_2 Let_def
        del: utf8_cont.simps(3))
  next
    case 4
    define a where "a = r div 262144"
    define b where "b = r div 4096 mod 64"
    define c where "c = r div 64 mod 64"
    define d where "d = r mod 64"
    have "r = ((a * 64 + b) * 64 + c) * 64 + d"
      unfolding a_def b_def c_def d_def by (simp only: base64_digits [symmetric])
    then have abcd: "r = ((a * 64 + b) * 64 + c) * 64 + d" "a < 5" "b < 64" "c < 64" "d < 64"
      using r less_mult_imp_div_less [of r 5 262144] by (simp_all add: a_def b_def c_def d_def)
    have "utf8_put r = [char_of (0xF0 + a), char_of (0x80 + b), char_of (0x80 + c), char_of (0x80 + d)]"
      using 4 r by (simp add: utf8_put_arith a_def b_def c_def d_def)
    then show ?thesis
      using abcd assms 4 by (simp add: lead_vals utf8_next_arith cont_put numeral_3_eq_3 numeral_2_eq_2 Let_def
        del: utf8_cont.simps(3))
  qed
qed

lemma cont_Some1:
  "utf8_cont (Suc n) p c = Some r \<Longrightarrow>
    \<exists>b p'. p = b # p' \<and> byte b = 128 + byte b mod 64 \<and> utf8_cont n p' (c * 64 + byte b mod 64) = Some r"
proof (cases p)
  case (Cons b p')
  assume a: "utf8_cont (Suc n) p c = Some r"
  have "byte b div 64 = 2 \<Longrightarrow> byte b = 128 + byte b mod 64"
    using div_mult_mod_eq [of "byte b" 64] by simp
  with a Cons show ?thesis by (auto simp: cont_step simp del: utf8_cont.simps(3) split: if_splits)
qed simp

lemma lead_byte:
  fixes x :: nat
  shows "x div 32 = 6 \<Longrightarrow> x = 192 + x mod 32" "x div 16 = 14 \<Longrightarrow> x = 224 + x mod 16"
    "x div 8 = 30 \<Longrightarrow> x = 240 + x mod 8"
  using div_mult_mod_eq [of x 32] div_mult_mod_eq [of x 16] div_mult_mod_eq [of x 8] by simp_all

text \<open>The converse: what the strict decoder accepts is the encoding of the value it returns,
  so every scalar value has one encoding only.\<close>

lemma put_next2:
  assumes r: "r = a * 64 + b" "b < 64" "a < 32" "128 \<le> r"
  shows "utf8_put r = [char_of (192 + a), char_of (128 + b)]"
proof -
  have "r div 64 = a" "r mod 64 = b" using r by simp_all
  then show ?thesis using r by (simp add: utf8_put_arith)
qed

lemma put_next3:
  assumes r: "r = (a * 64 + b) * 64 + c" "b < 64" "c < 64" "a < 16" "0x800 \<le> r"
  shows "utf8_put r = [char_of (224 + a), char_of (128 + b), char_of (128 + c)]"
proof -
  have "r div 64 = a * 64 + b" "r mod 64 = c" unfolding r(1) by (rule divmod_add [OF r(3)])+
  then have "r div 4096 = a" "r div 64 mod 64 = b" "r mod 64 = c"
    using divmod_add [OF r(2), of a] div_mult2_eq [of r 64 64] by simp_all
  moreover have "r < 0x10000" using r by simp
  ultimately show ?thesis using r(5) by (simp add: utf8_put_arith)
qed

lemma put_next4:
  assumes r: "r = ((a * 64 + b) * 64 + c) * 64 + d" "b < 64" "c < 64" "d < 64" "a < 8" "0x10000 \<le> r"
  shows "utf8_put r = [char_of (240 + a), char_of (128 + b), char_of (128 + c), char_of (128 + d)]"
proof -
  have "r div 64 = (a * 64 + b) * 64 + c" "r mod 64 = d" unfolding r(1) by (rule divmod_add [OF r(4)])+
  then have "r div 4096 = a * 64 + b" "r div 64 mod 64 = c" "r mod 64 = d"
    using divmod_add [OF r(3), of "a * 64 + b"] div_mult2_eq [of r 64 64] by simp_all
  moreover from this have "r div 262144 = a" "r div 4096 mod 64 = b"
    using divmod_add [OF r(2), of a] div_mult2_eq [of r 4096 64] by simp_all
  moreover have "r < 0x200000" using r by simp
  ultimately show ?thesis using r(6) by (simp add: utf8_put_arith)
qed

lemma put_utf8_next:
  assumes "utf8_next p = (Some r, n)" "p \<noteq> []"
  shows "scalar r" "n = length (utf8_put r)" "p = utf8_put r @ drop n p"
proof -
  from assms(2) obtain x q where p: "p = x # q" by (cases p) auto
  have "scalar r \<and> n = length (utf8_put r) \<and> p = utf8_put r @ drop n p"
  proof (cases "byte x < 128")
    case True
    then show ?thesis using assms(1) p by (auto simp: utf8_next_def utf8_put_def scalar_def)
  next
    case False
    note next' = assms(1) [unfolded p utf8_next_arith Let_def list.sel]
    consider (2) "byte x div 32 = 6" | (3) "byte x div 32 \<noteq> 6" "byte x div 16 = 14"
      | (4) "byte x div 32 \<noteq> 6" "byte x div 16 \<noteq> 14" "byte x div 8 = 30"
      | (bad) "byte x div 32 \<noteq> 6" "byte x div 16 \<noteq> 14" "byte x div 8 \<noteq> 30" by blast
    then show ?thesis
    proof cases
      case 2
      with False next' have u: "utf8_cont (Suc 0) q (byte x mod 32) = Some r" "0x80 \<le> r" "scalar r" "n = 2"
        by (auto split: if_splits option.splits)
      from cont_Some1 [OF u(1)] obtain b q' where "q = b # q'" "byte b = 128 + byte b mod 64"
        "r = byte x mod 32 * 64 + byte b mod 64" by auto
      then show ?thesis
        using u p put_next2 [of r "byte x mod 32" "byte b mod 64"] lead_byte(1) [OF 2]
        by (metis append_Cons append_Nil char_of_byte_eq drop_Suc_Cons drop0 length_Cons
            list.size(3) mod_less_divisor numeral_2_eq_2 zero_less_numeral)
    next
      case 3
      with False next' have u: "utf8_cont (Suc (Suc 0)) q (byte x mod 16) = Some r" "0x800 \<le> r" "scalar r" "n = 3"
        by (auto simp: numeral_2_eq_2 split: if_splits option.splits)
      from cont_Some1 [OF u(1)] obtain b q1 where b: "q = b # q1" "byte b = 128 + byte b mod 64"
        and u1: "utf8_cont (Suc 0) q1 (byte x mod 16 * 64 + byte b mod 64) = Some r" by auto
      from cont_Some1 [OF u1] obtain c q2 where c: "q1 = c # q2" "byte c = 128 + byte c mod 64"
        "r = (byte x mod 16 * 64 + byte b mod 64) * 64 + byte c mod 64" by auto
      have "utf8_put r = [x, b, c]"
        using put_next3 [OF c(3)] u(2) b(2) c(2) lead_byte(2) [OF 3(2)]
        by (metis char_of_byte_eq mod_less_divisor zero_less_numeral)
      then show ?thesis using u p b c by simp
    next
      case 4
      with False next' have u: "utf8_cont (Suc (Suc (Suc 0))) q (byte x mod 8) = Some r"
        "0x10000 \<le> r" "scalar r" "n = 4"
        by (auto simp: numeral_3_eq_3 split: if_splits option.splits)
      from cont_Some1 [OF u(1)] obtain b q1 where b: "q = b # q1" "byte b = 128 + byte b mod 64"
        and u1: "utf8_cont (Suc (Suc 0)) q1 (byte x mod 8 * 64 + byte b mod 64) = Some r" by auto
      from cont_Some1 [OF u1] obtain c q2 where c: "q1 = c # q2" "byte c = 128 + byte c mod 64"
        and u2: "utf8_cont (Suc 0) q2 ((byte x mod 8 * 64 + byte b mod 64) * 64 + byte c mod 64) = Some r"
        by auto
      from cont_Some1 [OF u2] obtain d q3 where d: "q2 = d # q3" "byte d = 128 + byte d mod 64"
        "r = ((byte x mod 8 * 64 + byte b mod 64) * 64 + byte c mod 64) * 64 + byte d mod 64" by auto
      have "utf8_put r = [x, b, c, d]"
        using put_next4 [OF d(3)] u(2) b(2) c(2) d(2) lead_byte(3) [OF 4(3)]
        by (metis char_of_byte_eq mod_less_divisor zero_less_numeral)
      then show ?thesis using u p b c d by simp
    next
      case bad
      with False next' show ?thesis by simp
    qed
  qed
  then show "scalar r" "n = length (utf8_put r)" "p = utf8_put r @ drop n p" by blast+
qed

lemma utf8_next_len: "p \<noteq> [] \<Longrightarrow> utf8_next p = (r, n) \<Longrightarrow> 0 < n \<and> n \<le> length p"
proof (cases r)
  case None
  moreover assume "p \<noteq> []" "utf8_next p = (r, n)"
  ultimately show ?thesis
    by (cases p) (auto simp: utf8_next_def Let_def split: if_splits option.splits)
next
  case (Some v)
  moreover assume "p \<noteq> []" "utf8_next p = (r, n)"
  ultimately have "p = utf8_put v @ drop n p" "n = length (utf8_put v)"
    using put_utf8_next by blast+
  then show ?thesis using utf8_put_bounds(1) [of v] by (metis drop_eq_Nil2 append_eq_conv_conj
    length_take linorder_not_le min.absorb_iff2 min.cobounded1 min_def)
qed

lemma utf8_next_None_len: "p \<noteq> [] \<Longrightarrow> utf8_next p = (None, n) \<Longrightarrow> n = 1"
  by (cases p) (auto simp: utf8_next_def Let_def split: if_splits option.splits)

subsection \<open>Loops over text\<close>

text \<open>\<^verbatim>\<open>valid_utf8\<close>: every step decodes a well-formed sequence.\<close>

function valid_utf8 :: "string \<Rightarrow> bool" where
  "valid_utf8 s =
     (if s = [] then True
      else case utf8_next s of (None, n) \<Rightarrow> False | (Some r, n) \<Rightarrow> valid_utf8 (drop n s))"
  by auto
termination
  by (relation "measure length") (auto dest!: utf8_next_len [OF _ sym])

text \<open>The loop of \<^verbatim>\<open>case_map\<close>: an ill-formed byte is copied, the first rune goes through \<open>f\<close>, the
  others through \<open>g\<close>.\<close>

function case_loop :: "(nat \<Rightarrow> nat) \<Rightarrow> (nat \<Rightarrow> nat) \<Rightarrow> bool \<Rightarrow> string \<Rightarrow> string" where
  "case_loop f g at_first s =
     (if s = [] then []
      else
        case utf8_next s of
          (None, n) \<Rightarrow> hd s # case_loop f g False (drop n s)
        | (Some r, n) \<Rightarrow> utf8_put ((if at_first then f else g) r) @ case_loop f g False (drop n s))"
  by auto
termination
  by (relation "measure (\<lambda>(f, g, b, s). length s)") (auto dest!: utf8_next_len [OF _ sym])

definition case_map :: "string \<Rightarrow> (nat \<Rightarrow> nat) \<Rightarrow> (nat \<Rightarrow> nat) \<Rightarrow> string" where
  "case_map s first rest = case_loop first rest True s"

text \<open>The lenient steps, which trust the lead byte and are clamped by the bytes that remain:
  \<^verbatim>\<open>split(s, "")\<close>, \<^verbatim>\<open>runes\<close>, \<^verbatim>\<open>rune_len\<close> and \<^verbatim>\<open>reverse\<close>.\<close>

lemma rune_len_n_bounds: "0 < n \<Longrightarrow> 0 < rune_len_n p n" "0 < n \<Longrightarrow> rune_len_n p n \<le> n" "rune_len_n p n \<le> 4"
  by (auto simp: rune_len_n_def)

function split_runes :: "string \<Rightarrow> string list" where
  "split_runes s =
     (if s = [] then []
      else let len = rune_len_n (byte (hd s)) (length s) in take len s # split_runes (drop len s))"
  by auto
termination
  by (relation "measure length") (auto simp: rune_len_n_bounds)

definition rune_at :: "nat \<Rightarrow> string \<Rightarrow> nat" where
  "rune_at len p =
     (let r = byte (p ! 0)
      in if len = 2 then push_bit 6 (r AND 31) OR (byte (p ! 1) AND 0x3F)
         else if len = 3 then
           push_bit 12 (r AND 15) OR push_bit 6 (byte (p ! 1) AND 0x3F) OR (byte (p ! 2) AND 0x3F)
         else if len = 4 then
           push_bit 18 (r AND 7) OR push_bit 12 (byte (p ! 1) AND 0x3F)
             OR push_bit 6 (byte (p ! 2) AND 0x3F) OR (byte (p ! 3) AND 0x3F)
         else r)"

function runes :: "string \<Rightarrow> nat list" where
  "runes s =
     (if s = [] then []
      else let len = rune_len_n (byte (hd s)) (length s) in rune_at len s # runes (drop len s))"
  by auto
termination
  by (relation "measure length") (auto simp: rune_len_n_bounds)

function rune_len_loop :: "string \<Rightarrow> nat \<Rightarrow> nat" where
  "rune_len_loop s c =
     (if s = [] then c
      else rune_len_loop (drop (rune_len_n (byte (hd s)) (length s)) s) (c + 1))"
  by auto
termination
  by (relation "measure (\<lambda>(s, c). length s)") (auto simp: rune_len_n_bounds)

definition rune_len :: "string \<Rightarrow> nat" where
  "rune_len s = rune_len_loop s 0"

function reverse_loop :: "string \<Rightarrow> string \<Rightarrow> string" where
  "reverse_loop s b =
     (if s = [] then b
      else
        let len = rune_len_n (byte (hd s)) (length s)
        in reverse_loop (drop len s) (take len s @ b))"
  by auto
termination
  by (relation "measure (\<lambda>(s, b). length s)") (auto simp: rune_len_n_bounds)

definition reverse :: "string \<Rightarrow> string" where
  "reverse s = reverse_loop s []"

text \<open>\<^verbatim>\<open>Sb\<close> on a rune is the same encoder written out again; \<^verbatim>\<open>from_runes\<close> concatenates.\<close>

definition Sb_rune :: "nat \<Rightarrow> string" where
  "Sb_rune r =
     (if r < 0x80 then [char_of r]
      else if r < 0x800 then
        [char_of (0xC0 OR drop_bit 6 r), char_of (0x80 OR (r AND 0x3F))]
      else if r < 0x10000 then
        [char_of (0xE0 OR drop_bit 12 r), char_of (0x80 OR (drop_bit 6 r AND 0x3F)),
         char_of (0x80 OR (r AND 0x3F))]
      else
        [char_of (0xF0 OR drop_bit 18 r), char_of (0x80 OR (drop_bit 12 r AND 0x3F)),
         char_of (0x80 OR (drop_bit 6 r AND 0x3F)), char_of (0x80 OR (r AND 0x3F))])"

definition from_runes :: "nat list \<Rightarrow> string" where
  "from_runes rs = concat (map Sb_rune rs)"

lemma Sb_rune_put: "Sb_rune = utf8_put"
  by (rule ext) (simp add: Sb_rune_def utf8_put_def)

declare valid_utf8.simps [simp del] case_loop.simps [simp del] split_runes.simps [simp del]
  runes.simps [simp del] rune_len_loop.simps [simp del] reverse_loop.simps [simp del]

subsection \<open>Loops on encoded text\<close>

lemma or_merge:
  fixes a b c d :: nat
  shows "b < 64 \<Longrightarrow> push_bit 6 a OR b = a * 64 + b"
    "b < 64 \<Longrightarrow> c < 64 \<Longrightarrow> push_bit 12 a OR (b * 64 + c) = (a * 64 + b) * 64 + c"
    "b < 64 \<Longrightarrow> c < 64 \<Longrightarrow> d < 64 \<Longrightarrow>
      push_bit 18 a OR (4096 * b + c * 64 + d) = ((a * 64 + b) * 64 + c) * 64 + d"
  using or_low [of b 6 "push_bit 6 a"] or_low [of "b * 64 + c" 12 "push_bit 12 a"]
    or_low [of "(b * 64 + c) * 64 + d" 18 "push_bit 18 a"]
  by (simp_all add: push_bit_eq_mult)

lemma lenient_put:
  assumes "scalar r"
  shows "rune_len_n (byte (hd (utf8_put r))) (length (utf8_put r) + n) = length (utf8_put r)" (is ?L)
    and "rune_at (length (utf8_put r)) (utf8_put r @ s) = r" (is ?R)
proof -
  from assms have r: "r \<le> 0x10FFFF" by (simp add: scalar_def)
  consider (1) "r < 0x80" | (2) "0x80 \<le> r" "r < 0x800" | (3) "0x800 \<le> r" "r < 0x10000"
    | (4) "0x10000 \<le> r" by linarith
  then have "?L \<and> ?R"
  proof cases
    case 1
    then show ?thesis by (simp add: utf8_put_def rune_len_n_def rune_at_def)
  next
    case 2
    define a b where "a = r div 64" and "b = r mod 64"
    have ab: "r = a * 64 + b" "b < 64" "a < 32" "2 \<le> a" using 2 by (auto simp: a_def b_def)
    then have "utf8_put r = [char_of (192 + a), char_of (128 + b)]" using 2 by (intro put_next2) auto
    then show ?thesis using ab
      by (simp add: rune_len_n_def rune_at_def Let_def and_masks lead_vals or_merge)
  next
    case 3
    define a b c where "a = r div 4096" and "b = r div 64 mod 64" and "c = r mod 64"
    have abc: "r = (a * 64 + b) * 64 + c" "b < 64" "c < 64" "a < 16"
      using 3 less_mult_imp_div_less [of r 16 4096] base64_digits(1,2) [of r]
      by (simp_all add: a_def b_def c_def)
    then have "utf8_put r = [char_of (224 + a), char_of (128 + b), char_of (128 + c)]"
      using 3 by (intro put_next3) auto
    then show ?thesis using abc
      by (simp add: rune_len_n_def rune_at_def Let_def and_masks lead_vals or_merge)
  next
    case 4
    define a b c d where "a = r div 262144" and "b = r div 4096 mod 64" and "c = r div 64 mod 64"
      and "d = r mod 64"
    have "r = ((a * 64 + b) * 64 + c) * 64 + d"
      unfolding a_def b_def c_def d_def by (simp only: base64_digits [symmetric])
    then have abcd: "r = ((a * 64 + b) * 64 + c) * 64 + d" "b < 64" "c < 64" "d < 64" "a < 8"
      using r less_mult_imp_div_less [of r 8 262144] by (simp_all add: a_def b_def c_def d_def)
    then have "utf8_put r = [char_of (240 + a), char_of (128 + b), char_of (128 + c), char_of (128 + d)]"
      using 4 by (intro put_next4) auto
    then show ?thesis using abcd
      by (simp add: rune_len_n_def rune_at_def Let_def and_masks lead_vals or_merge)
  qed
  then show ?L ?R by simp_all
qed

lemma put_step:
  assumes "scalar r"
  shows "split_runes (utf8_put r @ s) = utf8_put r # split_runes s"
    and "runes (utf8_put r @ s) = r # runes s"
    and "rune_len_loop (utf8_put r @ s) c = rune_len_loop s (c + 1)"
    and "reverse_loop (utf8_put r @ s) b = reverse_loop s (utf8_put r @ b)"
    and "valid_utf8 (utf8_put r @ s) = valid_utf8 s"
    and "case_loop f g x (utf8_put r @ s) = utf8_put ((if x then f else g) r) @ case_loop f g False s"
  using lenient_put(1) [OF assms, of "length s"] lenient_put(2) [OF assms, of s] utf8_next_put [OF assms, of s]
    utf8_put_bounds(3) [of r]
  by (simp_all add: split_runes.simps [of "utf8_put r @ s"] runes.simps [of "utf8_put r @ s"]
      rune_len_loop.simps [of "utf8_put r @ s"] reverse_loop.simps [of "utf8_put r @ s"]
      valid_utf8.simps [of "utf8_put r @ s"] case_loop.simps [of f g x "utf8_put r @ s"] hd_append2)

lemma empty_step [simp]:
  "split_runes [] = []" "runes [] = []" "rune_len_loop [] c = c" "reverse_loop [] b = b"
  "valid_utf8 []" "case_loop f g x [] = []"
  by (simp_all add: split_runes.simps runes.simps rune_len_loop.simps reverse_loop.simps
      valid_utf8.simps case_loop.simps)

lemma from_runes_simps [simp]:
  "from_runes [] = []" "from_runes (r # rs) = utf8_put r @ from_runes rs"
  "from_runes (rs @ rs') = from_runes rs @ from_runes rs'"
  by (simp_all add: from_runes_def Sb_rune_put)

definition scalars :: "nat list \<Rightarrow> bool" where
  "scalars rs \<longleftrightarrow> list_all scalar rs"

lemma scalars_simps [simp]: "scalars []" "scalars (r # rs) \<longleftrightarrow> scalar r \<and> scalars rs"
  by (simp_all add: scalars_def)

lemma from_runes_loops:
  assumes "scalars rs"
  shows "valid_utf8 (from_runes rs)" "runes (from_runes rs) = rs"
    "rune_len_loop (from_runes rs) c = c + length rs"
    "reverse_loop (from_runes rs) b = from_runes (rev rs) @ b"
    "split_runes (from_runes rs) = map utf8_put rs"
    "case_loop f g False (from_runes rs) = from_runes (map g rs)"
  using assms by (induction rs arbitrary: b c) (simp_all add: put_step)

lemma valid_utf8_decode:
  "valid_utf8 s \<Longrightarrow> \<exists>rs. scalars rs \<and> s = from_runes rs"
proof (induction s rule: valid_utf8.induct)
  case (1 s)
  show ?case
  proof (cases "s = []")
    case True
    then show ?thesis by (intro exI [of _ "[]"]) simp
  next
    case False
    with "1.prems" obtain r n where n: "utf8_next s = (Some r, n)" "valid_utf8 (drop n s)"
      by (subst (asm) valid_utf8.simps) (auto split: prod.splits option.splits)
    from "1.IH" [OF False n(1) [symmetric] refl n(2)]
    obtain rs where "scalars rs" "drop n s = from_runes rs" by blast
    with put_utf8_next [OF n(1) False] have "scalars (r # rs)" "s = from_runes (r # rs)" by simp_all
    then show ?thesis by blast
  qed
qed

lemma split_runes_concat: "concat (split_runes s) = s"
  by (induction s rule: split_runes.induct) (subst split_runes.simps, simp add: Let_def)

lemma reverse_loop_split: "reverse_loop s b = concat (rev (split_runes s)) @ b"
  by (induction s b rule: reverse_loop.induct)
    (subst reverse_loop.simps, subst split_runes.simps, simp add: Let_def)

lemma split_runes_length: "length (split_runes s) = length (runes s)"
  by (induction s rule: split_runes.induct) (subst split_runes.simps, subst runes.simps, simp add: Let_def)

lemma rune_len_loop_runes: "rune_len_loop s c = c + length (runes s)"
  by (induction s c rule: rune_len_loop.induct)
    (subst rune_len_loop.simps, subst runes.simps, simp add: Let_def)

lemma length_concat_rev: "length (concat (rev xss)) = length (concat xss)"
  by (induction xss) simp_all

lemma case_loop_id: "case_loop (\<lambda>r. r) (\<lambda>r. r) x s = s"
proof (induction "\<lambda>r::nat. r" "\<lambda>r::nat. r" x s rule: case_loop.induct)
  case (1 x s)
  show ?case
  proof (cases "s = []")
    case False
    obtain r n where n: "utf8_next s = (r, n)" by force
    show ?thesis
    proof (cases r)
      case None
      with n False utf8_next_None_len have "n = 1" by blast
      with 1 None n False show ?thesis by (subst case_loop.simps) (simp add: drop_Suc)
    next
      case (Some v)
      with 1 n False have "case_loop (\<lambda>r. r) (\<lambda>r. r) False (drop n s) = drop n s" by simp
      with put_utf8_next(3) [of s v n] n False Some show ?thesis
        by (subst case_loop.simps) simp
    qed
  qed simp
qed

subsection \<open>Properties\<close>

text \<open>C33. The strict decoder and the encoder are inverse: every Unicode scalar value decodes from its
  encoding, whatever follows it, and whatever \<^verbatim>\<open>utf8_next\<close> accepts is the encoding of a scalar value,
  so overlong forms, surrogates and values past U+10FFFF are refused and \<^verbatim>\<open>*len\<close> never
  exceeds the bytes that remain.\<close>

theorem utf8_codec:
  "(scalar r \<longrightarrow> utf8_next (utf8_put r @ s) = (Some r, length (utf8_put r))) \<and>
   (p \<noteq> [] \<and> utf8_next p = (Some r, n) \<longrightarrow>
      scalar r \<and> n = length (utf8_put r) \<and> p = utf8_put r @ drop n p) \<and>
   (p \<noteq> [] \<and> utf8_next p = (None, n) \<longrightarrow> n = 1)"
  using utf8_next_put put_utf8_next utf8_next_None_len by blast+

theorem utf8_codec_witness:
  "utf8_next (utf8_put 0x20AC @ ''x'') = (Some 0x20AC, 3) \<and>
   scalar 65 \<and> 1 = length (utf8_put 65) \<and> ''Az'' = utf8_put 65 @ drop 1 ''Az''"
proof -
  have "utf8_next (utf8_put 0x20AC @ ''x'') = (Some 0x20AC, 3)"
    using utf8_codec [of "0x20AC" "''x''"] by (simp add: scalar_def utf8_put_def)
  moreover have "scalar 65 \<and> 1 = length (utf8_put 65) \<and> ''Az'' = utf8_put 65 @ drop 1 ''Az''"
  proof -
    have "utf8_next ''Az'' = (Some 65, 1)" by (simp add: utf8_next_def)
    then show ?thesis using utf8_codec [of 65 "[]" "''Az''" 1] by blast
  qed
  ultimately show ?thesis by blast
qed

text \<open>\<^verbatim>\<open>valid_utf8\<close> accepts exactly the concatenations of encoded scalar values.\<close>

theorem valid_utf8_iff: "valid_utf8 s \<longleftrightarrow> (\<exists>rs. scalars rs \<and> s = from_runes rs)"
  using valid_utf8_decode from_runes_loops(1) by blast

text \<open>C34. On well-formed text the operations on runes are those on the list of scalar values:
  \<^verbatim>\<open>runes\<close> inverts \<^verbatim>\<open>from_runes\<close>, \<^verbatim>\<open>rune_len\<close> is its length, \<^verbatim>\<open>reverse\<close> reverses it, \<^verbatim>\<open>split\<close> by
  the empty string cuts it and \<^verbatim>\<open>case_map\<close> maps it.\<close>

theorem rune_operations:
  assumes "scalars rs"
  shows "runes (from_runes rs) = rs \<and>
    rune_len (from_runes rs) = length rs \<and>
    reverse (from_runes rs) = from_runes (rev rs) \<and>
    split_runes (from_runes rs) = map utf8_put rs \<and>
    case_map (from_runes rs) f g =
      (case rs of [] \<Rightarrow> [] | r # rs' \<Rightarrow> from_runes (f r # map g rs'))"
  using from_runes_loops [OF assms] assms
  by (auto simp: rune_len_def reverse_def case_map_def put_step split: list.splits)

theorem rune_operations_witness:
  "runes (from_runes [0x48, 0xE9, 0x1F600]) = [0x48, 0xE9, 0x1F600] \<and>
   reverse (from_runes [0x48, 0xE9, 0x1F600]) = from_runes [0x1F600, 0xE9, 0x48]"
  using rune_operations [of "[0x48, 0xE9, 0x1F600]"] by (simp add: scalar_def)

text \<open>No byte of a malformed string is lost or changed: cutting it and putting the pieces
  together gives it back, reversing keeps its length and \<^verbatim>\<open>rune_len\<close> counts its pieces, and a
  case change that maps every rune to itself is the identity.\<close>

theorem malformed_text_kept:
  "concat (split_runes s) = s \<and> length (reverse s) = length s \<and>
   rune_len s = length (split_runes s) \<and> length (runes s) = length (split_runes s) \<and>
   case_map s (\<lambda>r. r) (\<lambda>r. r) = s"
  using length_concat_rev [of "split_runes s"]
  by (simp add: split_runes_concat reverse_def reverse_loop_split rune_len_def rune_len_loop_runes
      split_runes_length case_map_def case_loop_id)

end
