(* ===== verification/UcTab.thy ===== *)
theory UcTab
  imports Utf8
begin

section \<open>Unicode tables (unicode\_tab.h)\<close>

text \<open>
  The case and property tables of \<^verbatim>\<open>unicode_tab.h\<close>, row for row.  A \<^verbatim>\<open>VlCaseRow\<close> has a
  \<^verbatim>\<open>VlRangeRow\<close> as its first member, so the C code searches both through one pointer type;
  the record extension below plays the same part.
\<close>

record range_row =
  rr_lo :: nat
  rr_hi :: nat
  rr_stride :: nat

record case_row = range_row +
  cr_delta :: int

definition rrow :: "nat \<Rightarrow> nat \<Rightarrow> nat \<Rightarrow> range_row" where
  "rrow l h s = \<lparr>rr_lo = l, rr_hi = h, rr_stride = s\<rparr>"

definition crow :: "nat \<Rightarrow> nat \<Rightarrow> nat \<Rightarrow> int \<Rightarrow> case_row" where
  "crow l h s d = \<lparr>rr_lo = l, rr_hi = h, rr_stride = s, cr_delta = d\<rparr>"

definition vl_uc_upper :: "case_row list" where
  "vl_uc_upper =
   [crow 97 122 1 (- 32), crow 181 181 1 743, crow 224 246 1 (- 32), crow 248 254 1 (- 32),
    crow 255 255 1 121, crow 257 303 2 (- 1), crow 305 305 1 (- 232), crow 307 311 2 (- 1),
    crow 314 328 2 (- 1), crow 331 375 2 (- 1), crow 378 382 2 (- 1), crow 383 383 1 (- 300),
    crow 384 384 1 195, crow 387 389 2 (- 1), crow 392 392 1 (- 1), crow 396 396 1 (- 1),
    crow 402 402 1 (- 1), crow 405 405 1 97, crow 409 409 1 (- 1), crow 410 410 1 163,
    crow 411 411 1 42561, crow 414 414 1 130, crow 417 421 2 (- 1), crow 424 424 1 (- 1),
    crow 429 429 1 (- 1), crow 432 432 1 (- 1), crow 436 438 2 (- 1), crow 441 441 1 (- 1),
    crow 445 445 1 (- 1), crow 447 447 1 56, crow 453 453 1 (- 1), crow 454 454 1 (- 2),
    crow 456 456 1 (- 1), crow 457 457 1 (- 2), crow 459 459 1 (- 1), crow 460 460 1 (- 2),
    crow 462 476 2 (- 1), crow 477 477 1 (- 79), crow 479 495 2 (- 1), crow 498 498 1 (- 1),
    crow 499 499 1 (- 2), crow 501 501 1 (- 1), crow 505 543 2 (- 1), crow 547 563 2 (- 1),
    crow 572 572 1 (- 1), crow 575 576 1 10815, crow 578 578 1 (- 1), crow 583 591 2 (- 1),
    crow 592 592 1 10783, crow 593 593 1 10780, crow 594 594 1 10782, crow 595 595 1 (- 210),
    crow 596 596 1 (- 206), crow 598 599 1 (- 205), crow 601 601 1 (- 202), crow 603 603 1 (- 203),
    crow 604 604 1 42319, crow 608 608 1 (- 205), crow 609 609 1 42315, crow 611 611 1 (- 207),
    crow 612 612 1 42343, crow 613 613 1 42280, crow 614 614 1 42308, crow 616 616 1 (- 209),
    crow 617 617 1 (- 211), crow 618 618 1 42308, crow 619 619 1 10743, crow 620 620 1 42305,
    crow 623 623 1 (- 211), crow 625 625 1 10749, crow 626 626 1 (- 213), crow 629 629 1 (- 214),
    crow 637 637 1 10727, crow 640 640 1 (- 218), crow 642 642 1 42307, crow 643 643 1 (- 218),
    crow 647 647 1 42282, crow 648 648 1 (- 218), crow 649 649 1 (- 69), crow 650 651 1 (- 217),
    crow 652 652 1 (- 71), crow 658 658 1 (- 219), crow 669 669 1 42261, crow 670 670 1 42258,
    crow 837 837 1 84, crow 881 883 2 (- 1), crow 887 887 1 (- 1), crow 891 893 1 130,
    crow 940 940 1 (- 38), crow 941 943 1 (- 37), crow 945 961 1 (- 32), crow 962 962 1 (- 31),
    crow 963 971 1 (- 32), crow 972 972 1 (- 64), crow 973 974 1 (- 63), crow 976 976 1 (- 62),
    crow 977 977 1 (- 57), crow 981 981 1 (- 47), crow 982 982 1 (- 54), crow 983 983 1 (- 8),
    crow 985 1007 2 (- 1), crow 1008 1008 1 (- 86), crow 1009 1009 1 (- 80), crow 1010 1010 1 7,
    crow 1011 1011 1 (- 116), crow 1013 1013 1 (- 96), crow 1016 1016 1 (- 1),
    crow 1019 1019 1 (- 1), crow 1072 1103 1 (- 32), crow 1104 1119 1 (- 80),
    crow 1121 1153 2 (- 1), crow 1163 1215 2 (- 1), crow 1218 1230 2 (- 1),
    crow 1231 1231 1 (- 15), crow 1233 1327 2 (- 1), crow 1377 1414 1 (- 48),
    crow 4304 4346 1 3008, crow 4349 4351 1 3008, crow 5112 5117 1 (- 8),
    crow 7296 7296 1 (- 6254), crow 7297 7297 1 (- 6253), crow 7298 7298 1 (- 6244),
    crow 7299 7300 1 (- 6242), crow 7301 7301 1 (- 6243), crow 7302 7302 1 (- 6236),
    crow 7303 7303 1 (- 6181), crow 7304 7304 1 35266, crow 7306 7306 1 (- 1),
    crow 7545 7545 1 35332, crow 7549 7549 1 3814, crow 7566 7566 1 35384, crow 7681 7829 2 (- 1),
    crow 7835 7835 1 (- 59), crow 7841 7935 2 (- 1), crow 7936 7943 1 8, crow 7952 7957 1 8,
    crow 7968 7975 1 8, crow 7984 7991 1 8, crow 8000 8005 1 8, crow 8017 8023 2 8,
    crow 8032 8039 1 8, crow 8048 8049 1 74, crow 8050 8053 1 86, crow 8054 8055 1 100,
    crow 8056 8057 1 128, crow 8058 8059 1 112, crow 8060 8061 1 126, crow 8064 8071 1 8,
    crow 8080 8087 1 8, crow 8096 8103 1 8, crow 8112 8113 1 8, crow 8115 8115 1 9,
    crow 8126 8126 1 (- 7205), crow 8131 8131 1 9, crow 8144 8145 1 8, crow 8160 8161 1 8,
    crow 8165 8165 1 7, crow 8179 8179 1 9, crow 8526 8526 1 (- 28), crow 8560 8575 1 (- 16),
    crow 8580 8580 1 (- 1), crow 9424 9449 1 (- 26), crow 11312 11359 1 (- 48),
    crow 11361 11361 1 (- 1), crow 11365 11365 1 (- 10795), crow 11366 11366 1 (- 10792),
    crow 11368 11372 2 (- 1), crow 11379 11379 1 (- 1), crow 11382 11382 1 (- 1),
    crow 11393 11491 2 (- 1), crow 11500 11502 2 (- 1), crow 11507 11507 1 (- 1),
    crow 11520 11557 1 (- 7264), crow 11559 11559 1 (- 7264), crow 11565 11565 1 (- 7264),
    crow 42561 42605 2 (- 1), crow 42625 42651 2 (- 1), crow 42787 42799 2 (- 1),
    crow 42803 42863 2 (- 1), crow 42874 42876 2 (- 1), crow 42879 42887 2 (- 1),
    crow 42892 42892 1 (- 1), crow 42897 42899 2 (- 1), crow 42900 42900 1 48,
    crow 42903 42921 2 (- 1), crow 42933 42947 2 (- 1), crow 42952 42954 2 (- 1),
    crow 42957 42957 1 (- 1), crow 42961 42961 1 (- 1), crow 42967 42971 2 (- 1),
    crow 42998 42998 1 (- 1), crow 43859 43859 1 (- 928), crow 43888 43967 1 (- 38864),
    crow 65345 65370 1 (- 32), crow 66600 66639 1 (- 40), crow 66776 66811 1 (- 40),
    crow 66967 66977 1 (- 39), crow 66979 66993 1 (- 39), crow 66995 67001 1 (- 39),
    crow 67003 67004 1 (- 39), crow 68800 68850 1 (- 64), crow 68976 68997 1 (- 32),
    crow 71872 71903 1 (- 32), crow 93792 93823 1 (- 32), crow 125218 125251 1 (- 34)]"

definition vl_uc_lower :: "case_row list" where
  "vl_uc_lower =
   [crow 65 90 1 32, crow 192 214 1 32, crow 216 222 1 32, crow 256 302 2 1,
    crow 304 304 1 (- 199), crow 306 310 2 1, crow 313 327 2 1, crow 330 374 2 1,
    crow 376 376 1 (- 121), crow 377 381 2 1, crow 385 385 1 210, crow 386 388 2 1,
    crow 390 390 1 206, crow 391 391 1 1, crow 393 394 1 205, crow 395 395 1 1, crow 398 398 1 79,
    crow 399 399 1 202, crow 400 400 1 203, crow 401 401 1 1, crow 403 403 1 205,
    crow 404 404 1 207, crow 406 406 1 211, crow 407 407 1 209, crow 408 408 1 1,
    crow 412 412 1 211, crow 413 413 1 213, crow 415 415 1 214, crow 416 420 2 1,
    crow 422 422 1 218, crow 423 423 1 1, crow 425 425 1 218, crow 428 428 1 1, crow 430 430 1 218,
    crow 431 431 1 1, crow 433 434 1 217, crow 435 437 2 1, crow 439 439 1 219, crow 440 440 1 1,
    crow 444 444 1 1, crow 452 452 1 2, crow 453 453 1 1, crow 455 455 1 2, crow 456 456 1 1,
    crow 458 458 1 2, crow 459 475 2 1, crow 478 494 2 1, crow 497 497 1 2, crow 498 500 2 1,
    crow 502 502 1 (- 97), crow 503 503 1 (- 56), crow 504 542 2 1, crow 544 544 1 (- 130),
    crow 546 562 2 1, crow 570 570 1 10795, crow 571 571 1 1, crow 573 573 1 (- 163),
    crow 574 574 1 10792, crow 577 577 1 1, crow 579 579 1 (- 195), crow 580 580 1 69,
    crow 581 581 1 71, crow 582 590 2 1, crow 880 882 2 1, crow 886 886 1 1, crow 895 895 1 116,
    crow 902 902 1 38, crow 904 906 1 37, crow 908 908 1 64, crow 910 911 1 63, crow 913 929 1 32,
    crow 931 939 1 32, crow 975 975 1 8, crow 984 1006 2 1, crow 1012 1012 1 (- 60),
    crow 1015 1015 1 1, crow 1017 1017 1 (- 7), crow 1018 1018 1 1, crow 1021 1023 1 (- 130),
    crow 1024 1039 1 80, crow 1040 1071 1 32, crow 1120 1152 2 1, crow 1162 1214 2 1,
    crow 1216 1216 1 15, crow 1217 1229 2 1, crow 1232 1326 2 1, crow 1329 1366 1 48,
    crow 4256 4293 1 7264, crow 4295 4295 1 7264, crow 4301 4301 1 7264, crow 5024 5103 1 38864,
    crow 5104 5109 1 8, crow 7305 7305 1 1, crow 7312 7354 1 (- 3008), crow 7357 7359 1 (- 3008),
    crow 7680 7828 2 1, crow 7838 7838 1 (- 7615), crow 7840 7934 2 1, crow 7944 7951 1 (- 8),
    crow 7960 7965 1 (- 8), crow 7976 7983 1 (- 8), crow 7992 7999 1 (- 8), crow 8008 8013 1 (- 8),
    crow 8025 8031 2 (- 8), crow 8040 8047 1 (- 8), crow 8072 8079 1 (- 8), crow 8088 8095 1 (- 8),
    crow 8104 8111 1 (- 8), crow 8120 8121 1 (- 8), crow 8122 8123 1 (- 74),
    crow 8124 8124 1 (- 9), crow 8136 8139 1 (- 86), crow 8140 8140 1 (- 9),
    crow 8152 8153 1 (- 8), crow 8154 8155 1 (- 100), crow 8168 8169 1 (- 8),
    crow 8170 8171 1 (- 112), crow 8172 8172 1 (- 7), crow 8184 8185 1 (- 128),
    crow 8186 8187 1 (- 126), crow 8188 8188 1 (- 9), crow 8486 8486 1 (- 7517),
    crow 8490 8490 1 (- 8383), crow 8491 8491 1 (- 8262), crow 8498 8498 1 28, crow 8544 8559 1 16,
    crow 8579 8579 1 1, crow 9398 9423 1 26, crow 11264 11311 1 48, crow 11360 11360 1 1,
    crow 11362 11362 1 (- 10743), crow 11363 11363 1 (- 3814), crow 11364 11364 1 (- 10727),
    crow 11367 11371 2 1, crow 11373 11373 1 (- 10780), crow 11374 11374 1 (- 10749),
    crow 11375 11375 1 (- 10783), crow 11376 11376 1 (- 10782), crow 11378 11378 1 1,
    crow 11381 11381 1 1, crow 11390 11391 1 (- 10815), crow 11392 11490 2 1, crow 11499 11501 2 1,
    crow 11506 11506 1 1, crow 42560 42604 2 1, crow 42624 42650 2 1, crow 42786 42798 2 1,
    crow 42802 42862 2 1, crow 42873 42875 2 1, crow 42877 42877 1 (- 35332), crow 42878 42886 2 1,
    crow 42891 42891 1 1, crow 42893 42893 1 (- 42280), crow 42896 42898 2 1, crow 42902 42920 2 1,
    crow 42922 42922 1 (- 42308), crow 42923 42923 1 (- 42319), crow 42924 42924 1 (- 42315),
    crow 42925 42925 1 (- 42305), crow 42926 42926 1 (- 42308), crow 42928 42928 1 (- 42258),
    crow 42929 42929 1 (- 42282), crow 42930 42930 1 (- 42261), crow 42931 42931 1 928,
    crow 42932 42946 2 1, crow 42948 42948 1 (- 48), crow 42949 42949 1 (- 42307),
    crow 42950 42950 1 (- 35384), crow 42951 42953 2 1, crow 42955 42955 1 (- 42343),
    crow 42956 42956 1 1, crow 42960 42960 1 1, crow 42966 42970 2 1, crow 42972 42972 1 (- 42561),
    crow 42997 42997 1 1, crow 65313 65338 1 32, crow 66560 66599 1 40, crow 66736 66771 1 40,
    crow 66928 66938 1 39, crow 66940 66954 1 39, crow 66956 66962 1 39, crow 66964 66965 1 39,
    crow 68736 68786 1 64, crow 68944 68965 1 32, crow 71840 71871 1 32, crow 93760 93791 1 32,
    crow 125184 125217 1 34]"

definition vl_uc_title :: "case_row list" where
  "vl_uc_title =
   [crow 452 452 1 1, crow 453 453 1 0, crow 454 454 1 (- 1), crow 455 455 1 1, crow 456 456 1 0,
    crow 457 457 1 (- 1), crow 458 458 1 1, crow 459 459 1 0, crow 460 460 1 (- 1),
    crow 497 497 1 1, crow 498 498 1 0, crow 499 499 1 (- 1), crow 4304 4346 1 0,
    crow 4349 4351 1 0]"

definition vl_uc_letter :: "range_row list" where
  "vl_uc_letter =
   [rrow 65 90 1, rrow 97 122 1, rrow 170 170 1, rrow 181 181 1, rrow 186 186 1, rrow 192 214 1,
    rrow 216 246 1, rrow 248 705 1, rrow 710 721 1, rrow 736 740 1, rrow 748 750 2, rrow 880 884 1,
    rrow 886 887 1, rrow 890 893 1, rrow 895 895 1, rrow 902 904 2, rrow 905 906 1, rrow 908 910 2,
    rrow 911 929 1, rrow 931 1013 1, rrow 1015 1153 1, rrow 1162 1327 1, rrow 1329 1366 1,
    rrow 1369 1369 1, rrow 1376 1416 1, rrow 1488 1514 1, rrow 1519 1522 1, rrow 1568 1610 1,
    rrow 1646 1647 1, rrow 1649 1747 1, rrow 1749 1749 1, rrow 1765 1766 1, rrow 1774 1775 1,
    rrow 1786 1788 1, rrow 1791 1791 1, rrow 1808 1810 2, rrow 1811 1839 1, rrow 1869 1957 1,
    rrow 1969 1969 1, rrow 1994 2026 1, rrow 2036 2037 1, rrow 2042 2042 1, rrow 2048 2069 1,
    rrow 2074 2074 1, rrow 2084 2084 1, rrow 2088 2088 1, rrow 2112 2136 1, rrow 2144 2154 1,
    rrow 2160 2183 1, rrow 2185 2190 1, rrow 2208 2249 1, rrow 2308 2361 1, rrow 2365 2365 1,
    rrow 2384 2384 1, rrow 2392 2401 1, rrow 2417 2432 1, rrow 2437 2444 1, rrow 2447 2448 1,
    rrow 2451 2472 1, rrow 2474 2480 1, rrow 2482 2482 1, rrow 2486 2489 1, rrow 2493 2493 1,
    rrow 2510 2510 1, rrow 2524 2525 1, rrow 2527 2529 1, rrow 2544 2545 1, rrow 2556 2556 1,
    rrow 2565 2570 1, rrow 2575 2576 1, rrow 2579 2600 1, rrow 2602 2608 1, rrow 2610 2611 1,
    rrow 2613 2614 1, rrow 2616 2617 1, rrow 2649 2652 1, rrow 2654 2654 1, rrow 2674 2676 1,
    rrow 2693 2701 1, rrow 2703 2705 1, rrow 2707 2728 1, rrow 2730 2736 1, rrow 2738 2739 1,
    rrow 2741 2745 1, rrow 2749 2749 1, rrow 2768 2768 1, rrow 2784 2785 1, rrow 2809 2809 1,
    rrow 2821 2828 1, rrow 2831 2832 1, rrow 2835 2856 1, rrow 2858 2864 1, rrow 2866 2867 1,
    rrow 2869 2873 1, rrow 2877 2877 1, rrow 2908 2909 1, rrow 2911 2913 1, rrow 2929 2929 1,
    rrow 2947 2949 2, rrow 2950 2954 1, rrow 2958 2960 1, rrow 2962 2965 1, rrow 2969 2970 1,
    rrow 2972 2974 2, rrow 2975 2975 1, rrow 2979 2980 1, rrow 2984 2986 1, rrow 2990 3001 1,
    rrow 3024 3024 1, rrow 3077 3084 1, rrow 3086 3088 1, rrow 3090 3112 1, rrow 3114 3129 1,
    rrow 3133 3133 1, rrow 3160 3162 1, rrow 3165 3165 1, rrow 3168 3169 1, rrow 3200 3200 1,
    rrow 3205 3212 1, rrow 3214 3216 1, rrow 3218 3240 1, rrow 3242 3251 1, rrow 3253 3257 1,
    rrow 3261 3261 1, rrow 3293 3294 1, rrow 3296 3297 1, rrow 3313 3314 1, rrow 3332 3340 1,
    rrow 3342 3344 1, rrow 3346 3386 1, rrow 3389 3389 1, rrow 3406 3406 1, rrow 3412 3414 1,
    rrow 3423 3425 1, rrow 3450 3455 1, rrow 3461 3478 1, rrow 3482 3505 1, rrow 3507 3515 1,
    rrow 3517 3517 1, rrow 3520 3526 1, rrow 3585 3632 1, rrow 3634 3635 1, rrow 3648 3654 1,
    rrow 3713 3714 1, rrow 3716 3718 2, rrow 3719 3722 1, rrow 3724 3747 1, rrow 3749 3751 2,
    rrow 3752 3760 1, rrow 3762 3763 1, rrow 3773 3773 1, rrow 3776 3780 1, rrow 3782 3782 1,
    rrow 3804 3807 1, rrow 3840 3840 1, rrow 3904 3911 1, rrow 3913 3948 1, rrow 3976 3980 1,
    rrow 4096 4138 1, rrow 4159 4159 1, rrow 4176 4181 1, rrow 4186 4189 1, rrow 4193 4193 1,
    rrow 4197 4198 1, rrow 4206 4208 1, rrow 4213 4225 1, rrow 4238 4238 1, rrow 4256 4293 1,
    rrow 4295 4295 1, rrow 4301 4301 1, rrow 4304 4346 1, rrow 4348 4680 1, rrow 4682 4685 1,
    rrow 4688 4694 1, rrow 4696 4698 2, rrow 4699 4701 1, rrow 4704 4744 1, rrow 4746 4749 1,
    rrow 4752 4784 1, rrow 4786 4789 1, rrow 4792 4798 1, rrow 4800 4802 2, rrow 4803 4805 1,
    rrow 4808 4822 1, rrow 4824 4880 1, rrow 4882 4885 1, rrow 4888 4954 1, rrow 4992 5007 1,
    rrow 5024 5109 1, rrow 5112 5117 1, rrow 5121 5740 1, rrow 5743 5759 1, rrow 5761 5786 1,
    rrow 5792 5866 1, rrow 5873 5880 1, rrow 5888 5905 1, rrow 5919 5937 1, rrow 5952 5969 1,
    rrow 5984 5996 1, rrow 5998 6000 1, rrow 6016 6067 1, rrow 6103 6103 1, rrow 6108 6108 1,
    rrow 6176 6264 1, rrow 6272 6276 1, rrow 6279 6312 1, rrow 6314 6314 1, rrow 6320 6389 1,
    rrow 6400 6430 1, rrow 6480 6509 1, rrow 6512 6516 1, rrow 6528 6571 1, rrow 6576 6601 1,
    rrow 6656 6678 1, rrow 6688 6740 1, rrow 6823 6823 1, rrow 6917 6963 1, rrow 6981 6988 1,
    rrow 7043 7072 1, rrow 7086 7087 1, rrow 7098 7141 1, rrow 7168 7203 1, rrow 7245 7247 1,
    rrow 7258 7293 1, rrow 7296 7306 1, rrow 7312 7354 1, rrow 7357 7359 1, rrow 7401 7404 1,
    rrow 7406 7411 1, rrow 7413 7414 1, rrow 7418 7418 1, rrow 7424 7615 1, rrow 7680 7957 1,
    rrow 7960 7965 1, rrow 7968 8005 1, rrow 8008 8013 1, rrow 8016 8023 1, rrow 8025 8031 2,
    rrow 8032 8061 1, rrow 8064 8116 1, rrow 8118 8124 1, rrow 8126 8126 1, rrow 8130 8132 1,
    rrow 8134 8140 1, rrow 8144 8147 1, rrow 8150 8155 1, rrow 8160 8172 1, rrow 8178 8180 1,
    rrow 8182 8188 1, rrow 8305 8305 1, rrow 8319 8319 1, rrow 8336 8348 1, rrow 8450 8450 1,
    rrow 8455 8455 1, rrow 8458 8467 1, rrow 8469 8469 1, rrow 8473 8477 1, rrow 8484 8490 2,
    rrow 8491 8493 1, rrow 8495 8505 1, rrow 8508 8511 1, rrow 8517 8521 1, rrow 8526 8526 1,
    rrow 8579 8580 1, rrow 11264 11492 1, rrow 11499 11502 1, rrow 11506 11507 1,
    rrow 11520 11557 1, rrow 11559 11559 1, rrow 11565 11565 1, rrow 11568 11623 1,
    rrow 11631 11631 1, rrow 11648 11670 1, rrow 11680 11686 1, rrow 11688 11694 1,
    rrow 11696 11702 1, rrow 11704 11710 1, rrow 11712 11718 1, rrow 11720 11726 1,
    rrow 11728 11734 1, rrow 11736 11742 1, rrow 11823 11823 1, rrow 12293 12294 1,
    rrow 12337 12341 1, rrow 12347 12348 1, rrow 12353 12438 1, rrow 12445 12447 1,
    rrow 12449 12538 1, rrow 12540 12543 1, rrow 12549 12591 1, rrow 12593 12686 1,
    rrow 12704 12735 1, rrow 12784 12799 1, rrow 13312 19903 1, rrow 19968 42124 1,
    rrow 42192 42237 1, rrow 42240 42508 1, rrow 42512 42527 1, rrow 42538 42539 1,
    rrow 42560 42606 1, rrow 42623 42653 1, rrow 42656 42725 1, rrow 42775 42783 1,
    rrow 42786 42888 1, rrow 42891 42957 1, rrow 42960 42961 1, rrow 42963 42965 2,
    rrow 42966 42972 1, rrow 42994 43009 1, rrow 43011 43013 1, rrow 43015 43018 1,
    rrow 43020 43042 1, rrow 43072 43123 1, rrow 43138 43187 1, rrow 43250 43255 1,
    rrow 43259 43261 2, rrow 43262 43262 1, rrow 43274 43301 1, rrow 43312 43334 1,
    rrow 43360 43388 1, rrow 43396 43442 1, rrow 43471 43471 1, rrow 43488 43492 1,
    rrow 43494 43503 1, rrow 43514 43518 1, rrow 43520 43560 1, rrow 43584 43586 1,
    rrow 43588 43595 1, rrow 43616 43638 1, rrow 43642 43642 1, rrow 43646 43695 1,
    rrow 43697 43697 1, rrow 43701 43702 1, rrow 43705 43709 1, rrow 43712 43714 2,
    rrow 43739 43741 1, rrow 43744 43754 1, rrow 43762 43764 1, rrow 43777 43782 1,
    rrow 43785 43790 1, rrow 43793 43798 1, rrow 43808 43814 1, rrow 43816 43822 1,
    rrow 43824 43866 1, rrow 43868 43881 1, rrow 43888 44002 1, rrow 44032 55203 1,
    rrow 55216 55238 1, rrow 55243 55291 1, rrow 63744 64109 1, rrow 64112 64217 1,
    rrow 64256 64262 1, rrow 64275 64279 1, rrow 64285 64287 2, rrow 64288 64296 1,
    rrow 64298 64310 1, rrow 64312 64316 1, rrow 64318 64320 2, rrow 64321 64323 2,
    rrow 64324 64326 2, rrow 64327 64433 1, rrow 64467 64829 1, rrow 64848 64911 1,
    rrow 64914 64967 1, rrow 65008 65019 1, rrow 65136 65140 1, rrow 65142 65276 1,
    rrow 65313 65338 1, rrow 65345 65370 1, rrow 65382 65470 1, rrow 65474 65479 1,
    rrow 65482 65487 1, rrow 65490 65495 1, rrow 65498 65500 1, rrow 65536 65547 1,
    rrow 65549 65574 1, rrow 65576 65594 1, rrow 65596 65597 1, rrow 65599 65613 1,
    rrow 65616 65629 1, rrow 65664 65786 1, rrow 66176 66204 1, rrow 66208 66256 1,
    rrow 66304 66335 1, rrow 66349 66368 1, rrow 66370 66377 1, rrow 66384 66421 1,
    rrow 66432 66461 1, rrow 66464 66499 1, rrow 66504 66511 1, rrow 66560 66717 1,
    rrow 66736 66771 1, rrow 66776 66811 1, rrow 66816 66855 1, rrow 66864 66915 1,
    rrow 66928 66938 1, rrow 66940 66954 1, rrow 66956 66962 1, rrow 66964 66965 1,
    rrow 66967 66977 1, rrow 66979 66993 1, rrow 66995 67001 1, rrow 67003 67004 1,
    rrow 67008 67059 1, rrow 67072 67382 1, rrow 67392 67413 1, rrow 67424 67431 1,
    rrow 67456 67461 1, rrow 67463 67504 1, rrow 67506 67514 1, rrow 67584 67589 1,
    rrow 67592 67594 2, rrow 67595 67637 1, rrow 67639 67640 1, rrow 67644 67644 1,
    rrow 67647 67669 1, rrow 67680 67702 1, rrow 67712 67742 1, rrow 67808 67826 1,
    rrow 67828 67829 1, rrow 67840 67861 1, rrow 67872 67897 1, rrow 67968 68023 1,
    rrow 68030 68031 1, rrow 68096 68096 1, rrow 68112 68115 1, rrow 68117 68119 1,
    rrow 68121 68149 1, rrow 68192 68220 1, rrow 68224 68252 1, rrow 68288 68295 1,
    rrow 68297 68324 1, rrow 68352 68405 1, rrow 68416 68437 1, rrow 68448 68466 1,
    rrow 68480 68497 1, rrow 68608 68680 1, rrow 68736 68786 1, rrow 68800 68850 1,
    rrow 68864 68899 1, rrow 68938 68965 1, rrow 68975 68997 1, rrow 69248 69289 1,
    rrow 69296 69297 1, rrow 69314 69316 1, rrow 69376 69404 1, rrow 69415 69415 1,
    rrow 69424 69445 1, rrow 69488 69505 1, rrow 69552 69572 1, rrow 69600 69622 1,
    rrow 69635 69687 1, rrow 69745 69746 1, rrow 69749 69749 1, rrow 69763 69807 1,
    rrow 69840 69864 1, rrow 69891 69926 1, rrow 69956 69956 1, rrow 69959 69959 1,
    rrow 69968 70002 1, rrow 70006 70006 1, rrow 70019 70066 1, rrow 70081 70084 1,
    rrow 70106 70108 2, rrow 70144 70161 1, rrow 70163 70187 1, rrow 70207 70208 1,
    rrow 70272 70278 1, rrow 70280 70282 2, rrow 70283 70285 1, rrow 70287 70301 1,
    rrow 70303 70312 1, rrow 70320 70366 1, rrow 70405 70412 1, rrow 70415 70416 1,
    rrow 70419 70440 1, rrow 70442 70448 1, rrow 70450 70451 1, rrow 70453 70457 1,
    rrow 70461 70461 1, rrow 70480 70480 1, rrow 70493 70497 1, rrow 70528 70537 1,
    rrow 70539 70539 1, rrow 70542 70544 2, rrow 70545 70581 1, rrow 70583 70583 1,
    rrow 70609 70611 2, rrow 70656 70708 1, rrow 70727 70730 1, rrow 70751 70753 1,
    rrow 70784 70831 1, rrow 70852 70853 1, rrow 70855 70855 1, rrow 71040 71086 1,
    rrow 71128 71131 1, rrow 71168 71215 1, rrow 71236 71236 1, rrow 71296 71338 1,
    rrow 71352 71352 1, rrow 71424 71450 1, rrow 71488 71494 1, rrow 71680 71723 1,
    rrow 71840 71903 1, rrow 71935 71942 1, rrow 71945 71945 1, rrow 71948 71955 1,
    rrow 71957 71958 1, rrow 71960 71983 1, rrow 71999 72001 2, rrow 72096 72103 1,
    rrow 72106 72144 1, rrow 72161 72163 2, rrow 72192 72192 1, rrow 72203 72242 1,
    rrow 72250 72250 1, rrow 72272 72272 1, rrow 72284 72329 1, rrow 72349 72349 1,
    rrow 72368 72440 1, rrow 72640 72672 1, rrow 72704 72712 1, rrow 72714 72750 1,
    rrow 72768 72768 1, rrow 72818 72847 1, rrow 72960 72966 1, rrow 72968 72969 1,
    rrow 72971 73008 1, rrow 73030 73030 1, rrow 73056 73061 1, rrow 73063 73064 1,
    rrow 73066 73097 1, rrow 73112 73112 1, rrow 73440 73458 1, rrow 73474 73476 2,
    rrow 73477 73488 1, rrow 73490 73523 1, rrow 73648 73648 1, rrow 73728 74649 1,
    rrow 74880 75075 1, rrow 77712 77808 1, rrow 77824 78895 1, rrow 78913 78918 1,
    rrow 78944 82938 1, rrow 82944 83526 1, rrow 90368 90397 1, rrow 92160 92728 1,
    rrow 92736 92766 1, rrow 92784 92862 1, rrow 92880 92909 1, rrow 92928 92975 1,
    rrow 92992 92995 1, rrow 93027 93047 1, rrow 93053 93071 1, rrow 93504 93548 1,
    rrow 93760 93823 1, rrow 93952 94026 1, rrow 94032 94032 1, rrow 94099 94111 1,
    rrow 94176 94177 1, rrow 94179 94179 1, rrow 94208 100343 1, rrow 100352 101589 1,
    rrow 101631 101640 1, rrow 110576 110579 1, rrow 110581 110587 1, rrow 110589 110590 1,
    rrow 110592 110882 1, rrow 110898 110898 1, rrow 110928 110930 1, rrow 110933 110933 1,
    rrow 110948 110951 1, rrow 110960 111355 1, rrow 113664 113770 1, rrow 113776 113788 1,
    rrow 113792 113800 1, rrow 113808 113817 1, rrow 119808 119892 1, rrow 119894 119964 1,
    rrow 119966 119967 1, rrow 119970 119970 1, rrow 119973 119974 1, rrow 119977 119980 1,
    rrow 119982 119993 1, rrow 119995 119997 2, rrow 119998 120003 1, rrow 120005 120069 1,
    rrow 120071 120074 1, rrow 120077 120084 1, rrow 120086 120092 1, rrow 120094 120121 1,
    rrow 120123 120126 1, rrow 120128 120132 1, rrow 120134 120134 1, rrow 120138 120144 1,
    rrow 120146 120485 1, rrow 120488 120512 1, rrow 120514 120538 1, rrow 120540 120570 1,
    rrow 120572 120596 1, rrow 120598 120628 1, rrow 120630 120654 1, rrow 120656 120686 1,
    rrow 120688 120712 1, rrow 120714 120744 1, rrow 120746 120770 1, rrow 120772 120779 1,
    rrow 122624 122654 1, rrow 122661 122666 1, rrow 122928 122989 1, rrow 123136 123180 1,
    rrow 123191 123197 1, rrow 123214 123214 1, rrow 123536 123565 1, rrow 123584 123627 1,
    rrow 124112 124139 1, rrow 124368 124397 1, rrow 124400 124400 1, rrow 124896 124902 1,
    rrow 124904 124907 1, rrow 124909 124910 1, rrow 124912 124926 1, rrow 124928 125124 1,
    rrow 125184 125251 1, rrow 125259 125259 1, rrow 126464 126467 1, rrow 126469 126495 1,
    rrow 126497 126498 1, rrow 126500 126500 1, rrow 126503 126505 2, rrow 126506 126514 1,
    rrow 126516 126519 1, rrow 126521 126523 2, rrow 126530 126530 1, rrow 126535 126541 2,
    rrow 126542 126543 1, rrow 126545 126546 1, rrow 126548 126548 1, rrow 126551 126561 2,
    rrow 126562 126564 2, rrow 126567 126570 1, rrow 126572 126578 1, rrow 126580 126583 1,
    rrow 126585 126588 1, rrow 126590 126592 2, rrow 126593 126601 1, rrow 126603 126619 1,
    rrow 126625 126627 1, rrow 126629 126633 1, rrow 126635 126651 1, rrow 131072 173791 1,
    rrow 173824 177977 1, rrow 177984 178205 1, rrow 178208 183969 1, rrow 183984 191456 1,
    rrow 191472 192093 1, rrow 194560 195101 1, rrow 196608 201546 1, rrow 201552 205743 1]"

definition vl_uc_notupper :: "range_row list" where
  "vl_uc_notupper =
   [rrow 97 122 1, rrow 170 170 1, rrow 181 181 1, rrow 186 186 1, rrow 223 246 1, rrow 248 255 1,
    rrow 257 311 2, rrow 312 328 2, rrow 329 375 2, rrow 378 382 2, rrow 383 384 1, rrow 387 389 2,
    rrow 392 392 1, rrow 396 397 1, rrow 402 402 1, rrow 405 405 1, rrow 409 411 1, rrow 414 414 1,
    rrow 417 421 2, rrow 424 426 2, rrow 427 429 2, rrow 432 432 1, rrow 436 438 2, rrow 441 442 1,
    rrow 445 447 1, rrow 453 454 1, rrow 456 457 1, rrow 459 460 1, rrow 462 476 2, rrow 477 495 2,
    rrow 496 498 2, rrow 499 501 2, rrow 505 563 2, rrow 564 569 1, rrow 572 572 1, rrow 575 576 1,
    rrow 578 578 1, rrow 583 591 2, rrow 592 659 1, rrow 661 696 1, rrow 704 705 1, rrow 736 740 1,
    rrow 837 837 1, rrow 881 883 2, rrow 887 887 1, rrow 890 893 1, rrow 912 912 1, rrow 940 974 1,
    rrow 976 977 1, rrow 981 983 1, rrow 985 1007 2, rrow 1008 1011 1, rrow 1013 1013 1,
    rrow 1016 1016 1, rrow 1019 1020 1, rrow 1072 1119 1, rrow 1121 1153 2, rrow 1163 1215 2,
    rrow 1218 1230 2, rrow 1231 1327 2, rrow 1376 1416 1, rrow 4304 4346 1, rrow 4348 4351 1,
    rrow 5112 5117 1, rrow 7296 7304 1, rrow 7306 7306 1, rrow 7424 7615 1, rrow 7681 7829 2,
    rrow 7830 7837 1, rrow 7839 7935 2, rrow 7936 7943 1, rrow 7952 7957 1, rrow 7968 7975 1,
    rrow 7984 7991 1, rrow 8000 8005 1, rrow 8016 8023 1, rrow 8032 8039 1, rrow 8048 8061 1,
    rrow 8064 8116 1, rrow 8118 8119 1, rrow 8124 8126 2, rrow 8130 8132 1, rrow 8134 8135 1,
    rrow 8140 8140 1, rrow 8144 8147 1, rrow 8150 8151 1, rrow 8160 8167 1, rrow 8178 8180 1,
    rrow 8182 8183 1, rrow 8188 8188 1, rrow 8305 8305 1, rrow 8319 8319 1, rrow 8336 8348 1,
    rrow 8458 8458 1, rrow 8462 8463 1, rrow 8467 8467 1, rrow 8495 8495 1, rrow 8500 8500 1,
    rrow 8505 8505 1, rrow 8508 8509 1, rrow 8518 8521 1, rrow 8526 8526 1, rrow 8560 8575 1,
    rrow 8580 8580 1, rrow 9424 9449 1, rrow 11312 11359 1, rrow 11361 11361 1, rrow 11365 11366 1,
    rrow 11368 11372 2, rrow 11377 11379 2, rrow 11380 11382 2, rrow 11383 11389 1,
    rrow 11393 11491 2, rrow 11492 11492 1, rrow 11500 11502 2, rrow 11507 11507 1,
    rrow 11520 11557 1, rrow 11559 11559 1, rrow 11565 11565 1, rrow 42561 42605 2,
    rrow 42625 42651 2, rrow 42652 42653 1, rrow 42787 42799 2, rrow 42800 42801 1,
    rrow 42803 42863 2, rrow 42864 42872 1, rrow 42874 42876 2, rrow 42879 42887 2,
    rrow 42892 42894 2, rrow 42897 42899 2, rrow 42900 42901 1, rrow 42903 42921 2,
    rrow 42927 42927 1, rrow 42933 42947 2, rrow 42952 42954 2, rrow 42957 42957 1,
    rrow 42961 42971 2, rrow 42994 42996 1, rrow 42998 43000 2, rrow 43001 43002 1,
    rrow 43824 43866 1, rrow 43868 43881 1, rrow 43888 43967 1, rrow 64256 64262 1,
    rrow 64275 64279 1, rrow 65345 65370 1, rrow 66600 66639 1, rrow 66776 66811 1,
    rrow 66967 66977 1, rrow 66979 66993 1, rrow 66995 67001 1, rrow 67003 67004 1,
    rrow 67456 67456 1, rrow 67459 67461 1, rrow 67463 67504 1, rrow 67506 67514 1,
    rrow 68800 68850 1, rrow 68976 68997 1, rrow 71872 71903 1, rrow 93792 93823 1,
    rrow 119834 119859 1, rrow 119886 119892 1, rrow 119894 119911 1, rrow 119938 119963 1,
    rrow 119990 119993 1, rrow 119995 119997 2, rrow 119998 120003 1, rrow 120005 120015 1,
    rrow 120042 120067 1, rrow 120094 120119 1, rrow 120146 120171 1, rrow 120198 120223 1,
    rrow 120250 120275 1, rrow 120302 120327 1, rrow 120354 120379 1, rrow 120406 120431 1,
    rrow 120458 120485 1, rrow 120514 120538 1, rrow 120540 120545 1, rrow 120572 120596 1,
    rrow 120598 120603 1, rrow 120630 120654 1, rrow 120656 120661 1, rrow 120688 120712 1,
    rrow 120714 120719 1, rrow 120746 120770 1, rrow 120772 120777 1, rrow 120779 120779 1,
    rrow 122624 122633 1, rrow 122635 122654 1, rrow 122661 122666 1, rrow 122928 122989 1,
    rrow 125218 125251 1]"

definition vl_uc_uppercase :: "range_row list" where
  "vl_uc_uppercase =
   [rrow 65 90 1, rrow 192 214 1, rrow 216 222 1, rrow 256 310 2, rrow 313 327 2, rrow 330 376 2,
    rrow 377 381 2, rrow 385 386 1, rrow 388 390 2, rrow 391 393 2, rrow 394 395 1, rrow 398 401 1,
    rrow 403 404 1, rrow 406 408 1, rrow 412 413 1, rrow 415 416 1, rrow 418 422 2, rrow 423 425 2,
    rrow 428 430 2, rrow 431 433 2, rrow 434 435 1, rrow 437 439 2, rrow 440 440 1, rrow 444 444 1,
    rrow 452 452 1, rrow 455 455 1, rrow 458 458 1, rrow 461 475 2, rrow 478 494 2, rrow 497 497 1,
    rrow 500 502 2, rrow 503 504 1, rrow 506 562 2, rrow 570 571 1, rrow 573 574 1, rrow 577 579 2,
    rrow 580 582 1, rrow 584 590 2, rrow 880 882 2, rrow 886 886 1, rrow 895 895 1, rrow 902 904 2,
    rrow 905 906 1, rrow 908 910 2, rrow 911 913 2, rrow 914 929 1, rrow 931 939 1, rrow 975 975 1,
    rrow 978 980 1, rrow 984 1006 2, rrow 1012 1012 1, rrow 1015 1017 2, rrow 1018 1018 1,
    rrow 1021 1071 1, rrow 1120 1152 2, rrow 1162 1216 2, rrow 1217 1229 2, rrow 1232 1326 2,
    rrow 1329 1366 1, rrow 4256 4293 1, rrow 4295 4295 1, rrow 4301 4301 1, rrow 5024 5109 1,
    rrow 7305 7305 1, rrow 7312 7354 1, rrow 7357 7359 1, rrow 7680 7828 2, rrow 7838 7934 2,
    rrow 7944 7951 1, rrow 7960 7965 1, rrow 7976 7983 1, rrow 7992 7999 1, rrow 8008 8013 1,
    rrow 8025 8031 2, rrow 8040 8047 1, rrow 8120 8123 1, rrow 8136 8139 1, rrow 8152 8155 1,
    rrow 8168 8172 1, rrow 8184 8187 1, rrow 8450 8450 1, rrow 8455 8455 1, rrow 8459 8461 1,
    rrow 8464 8466 1, rrow 8469 8469 1, rrow 8473 8477 1, rrow 8484 8490 2, rrow 8491 8493 1,
    rrow 8496 8499 1, rrow 8510 8511 1, rrow 8517 8517 1, rrow 8544 8559 1, rrow 8579 8579 1,
    rrow 9398 9423 1, rrow 11264 11311 1, rrow 11360 11362 2, rrow 11363 11364 1,
    rrow 11367 11373 2, rrow 11374 11376 1, rrow 11378 11378 1, rrow 11381 11381 1,
    rrow 11390 11392 1, rrow 11394 11490 2, rrow 11499 11501 2, rrow 11506 11506 1,
    rrow 42560 42604 2, rrow 42624 42650 2, rrow 42786 42798 2, rrow 42802 42862 2,
    rrow 42873 42877 2, rrow 42878 42886 2, rrow 42891 42893 2, rrow 42896 42898 2,
    rrow 42902 42922 2, rrow 42923 42926 1, rrow 42928 42932 1, rrow 42934 42948 2,
    rrow 42949 42951 1, rrow 42953 42955 2, rrow 42956 42956 1, rrow 42960 42960 1,
    rrow 42966 42972 2, rrow 42997 42997 1, rrow 65313 65338 1, rrow 66560 66599 1,
    rrow 66736 66771 1, rrow 66928 66938 1, rrow 66940 66954 1, rrow 66956 66962 1,
    rrow 66964 66965 1, rrow 68736 68786 1, rrow 68944 68965 1, rrow 71840 71871 1,
    rrow 93760 93791 1, rrow 119808 119833 1, rrow 119860 119885 1, rrow 119912 119937 1,
    rrow 119964 119966 2, rrow 119967 119967 1, rrow 119970 119970 1, rrow 119973 119974 1,
    rrow 119977 119980 1, rrow 119982 119989 1, rrow 120016 120041 1, rrow 120068 120069 1,
    rrow 120071 120074 1, rrow 120077 120084 1, rrow 120086 120092 1, rrow 120120 120121 1,
    rrow 120123 120126 1, rrow 120128 120132 1, rrow 120134 120134 1, rrow 120138 120144 1,
    rrow 120172 120197 1, rrow 120224 120249 1, rrow 120276 120301 1, rrow 120328 120353 1,
    rrow 120380 120405 1, rrow 120432 120457 1, rrow 120488 120512 1, rrow 120546 120570 1,
    rrow 120604 120628 1, rrow 120662 120686 1, rrow 120720 120744 1, rrow 120778 120778 1,
    rrow 125184 125217 1, rrow 127280 127305 1, rrow 127312 127337 1, rrow 127344 127369 1]"

end
