(* ===== verification/Unicode.thy ===== *)
theory Unicode
  imports UcTab
begin

section \<open>Unicode case and classes (str.c: uc\_row .. case\_map, is\_digit .. is\_upper)\<close>

text \<open>
  The binary search over the tables and what is built on it.  The search finds the row that covers a
  code point in any table whose rows are in order, which the tables are shown to be; a case
  mapping takes scalar values to scalar values and never makes a text longer by more than half.
\<close>

subsection \<open>The search\<close>

function uc_search :: "'a range_row_scheme list \<Rightarrow> nat \<Rightarrow> int \<Rightarrow> int \<Rightarrow> int \<Rightarrow> int" where
  "uc_search rows c lo hi hit =
     (if lo \<le> hi then
        let mid = (lo + hi) div 2
        in if rr_lo (rows ! nat mid) \<le> c then uc_search rows c (mid + 1) hi mid
           else uc_search rows c lo (mid - 1) hit
      else hit)"
  by auto
termination
  by (relation "measure (\<lambda>(rows, c, lo, hi, hit). nat (hi - lo + 1))") auto

definition uc_row :: "'a range_row_scheme list \<Rightarrow> nat \<Rightarrow> nat option" where
  "uc_row rows c =
     (let hit = uc_search rows c 0 (int (length rows) - 1) (- 1)
      in if hit < 0 then None
         else
           let r = rows ! nat hit
           in if rr_hi r < c \<or> (c - rr_lo r) mod rr_stride r \<noteq> 0 then None else Some (nat hit))"

definition uc_case :: "case_row list \<Rightarrow> nat \<Rightarrow> nat" where
  "uc_case t c =
     (case uc_row t c of None \<Rightarrow> c | Some i \<Rightarrow> nat ((int c + cr_delta (t ! i)) mod 2 ^ 32))"

definition uc_upper :: "nat \<Rightarrow> nat" where
  "uc_upper c = uc_case vl_uc_upper c"

definition uc_lower :: "nat \<Rightarrow> nat" where
  "uc_lower c = uc_case vl_uc_lower c"

definition uc_is_letter :: "nat \<Rightarrow> bool" where
  "uc_is_letter c \<longleftrightarrow> uc_row vl_uc_letter c \<noteq> None"

definition uc_title :: "nat \<Rightarrow> nat" where
  "uc_title c =
     (case uc_row vl_uc_title c of
        None \<Rightarrow> uc_upper c
      | Some i \<Rightarrow> nat ((int c + cr_delta (vl_uc_title ! i)) mod 2 ^ 32))"

definition uc_not_upper :: "nat \<Rightarrow> bool" where
  "uc_not_upper c \<longleftrightarrow> uc_row vl_uc_notupper c \<noteq> None"

definition uc_is_upper :: "nat \<Rightarrow> bool" where
  "uc_is_upper c \<longleftrightarrow> uc_row vl_uc_uppercase c \<noteq> None"

definition uc_is_space :: "nat \<Rightarrow> bool" where
  "uc_is_space c \<longleftrightarrow> 0x09 \<le> c \<and> c \<le> 0x0D \<or> c = 0x20 \<or> c = 0x85 \<or> c = 0xA0 \<or> c = 0x1680
     \<or> 0x2000 \<le> c \<and> c \<le> 0x200A \<or> c = 0x2028 \<or> c = 0x2029 \<or> c = 0x202F \<or> c = 0x205F \<or> c = 0x3000"

definition str_upper :: "string \<Rightarrow> string" where
  "str_upper s = case_map s uc_upper uc_upper"

definition str_lower :: "string \<Rightarrow> string" where
  "str_lower s = case_map s uc_lower uc_lower"

text \<open>The class tests of one name each share a loop; \<open>k\<close> stands for the name.\<close>

datatype rune_class = Is_digit | Is_alpha | Is_space | Is_upper

function class_loop :: "rune_class \<Rightarrow> string \<Rightarrow> bool \<Rightarrow> bool" where
  "class_loop k s has_upper =
     (if s = [] then (if k = Is_upper then has_upper else True)
      else
        case utf8_next s of
          (None, n) \<Rightarrow> False
        | (Some c, n) \<Rightarrow>
            let has_upper = (if uc_is_upper c then True else has_upper)
            in if k = Is_digit \<and> \<not> (48 \<le> c \<and> c \<le> 57) then False
               else if k = Is_alpha \<and> \<not> uc_is_letter c then False
               else if k = Is_space \<and> \<not> uc_is_space c then False
               else if k = Is_upper \<and> uc_not_upper c then False
               else class_loop k (drop n s) has_upper)"
  by auto
termination
  by (relation "measure (\<lambda>(k, s, h). length s)") (auto dest!: utf8_next_len [OF _ sym])

definition str_class :: "rune_class \<Rightarrow> string \<Rightarrow> bool" where
  "str_class k s = (if s = [] then False else class_loop k s False)"

declare uc_search.simps [simp del] class_loop.simps [simp del]

subsection \<open>The search is correct on ordered tables\<close>

definition covers :: "'a range_row_scheme \<Rightarrow> nat \<Rightarrow> bool" where
  "covers r c \<longleftrightarrow> rr_lo r \<le> c \<and> c \<le> rr_hi r \<and> (c - rr_lo r) mod rr_stride r = 0"

fun rows_ok :: "'a range_row_scheme list \<Rightarrow> bool" where
  "rows_ok (x # y # rs) \<longleftrightarrow> rr_lo x \<le> rr_hi x \<and> rr_hi x < rr_lo y \<and> rows_ok (y # rs)"
| "rows_ok [x] \<longleftrightarrow> rr_lo x \<le> rr_hi x"
| "rows_ok [] \<longleftrightarrow> True"

lemma rows_ok_Cons: "rows_ok (x # rs) \<Longrightarrow> rows_ok rs \<and> rr_lo x \<le> rr_hi x"
  by (cases rs) auto

lemma rows_ok_ge: "rows_ok (x # rs) \<Longrightarrow> r \<in> set rs \<Longrightarrow> rr_hi x < rr_lo r"
proof (induction rs arbitrary: x)
  case (Cons y rs)
  then have "rr_hi x < rr_lo y" "rows_ok (y # rs)" by auto
  with Cons rows_ok_Cons [of y rs] show ?case by fastforce
qed simp

lemma rows_ok_nth:
  "rows_ok rs \<Longrightarrow> i < j \<Longrightarrow> j < length rs \<Longrightarrow> rr_hi (rs ! i) < rr_lo (rs ! j)"
proof (induction rs arbitrary: i j)
  case (Cons x rs)
  from Cons.prems have ok: "rows_ok rs" using rows_ok_Cons by blast
  from Cons.prems obtain j' where "j = Suc j'" by (cases j) auto
  then show ?case
    using Cons ok rows_ok_ge [OF Cons.prems(1), of "rs ! j'"] by (cases i) auto
qed simp

lemma rows_ok_le: "rows_ok rs \<Longrightarrow> i < length rs \<Longrightarrow> rr_lo (rs ! i) \<le> rr_hi (rs ! i)"
proof (induction rs arbitrary: i)
  case (Cons x rs)
  then have "rows_ok rs" "rr_lo x \<le> rr_hi x" using rows_ok_Cons by blast+
  with Cons show ?case by (cases i) auto
qed simp

lemma uc_search_correct:
  assumes "rows_ok rows" "0 \<le> lo" "lo \<le> hi + 1" "hi < int (length rows)" "hit = lo - 1"
    and "\<forall>i. 0 \<le> i \<and> i < lo \<longrightarrow> rr_lo (rows ! nat i) \<le> c"
    and "\<forall>i. hi < i \<and> i < int (length rows) \<longrightarrow> c < rr_lo (rows ! nat i)"
    and "h = uc_search rows c lo hi hit"
  shows "- 1 \<le> h \<and> h < int (length rows) \<and> (\<forall>i. 0 \<le> i \<and> i \<le> h \<longrightarrow> rr_lo (rows ! nat i) \<le> c) \<and>
    (\<forall>i. h < i \<and> i < int (length rows) \<longrightarrow> c < rr_lo (rows ! nat i))"
  using assms
proof (induction rows c lo hi hit rule: uc_search.induct)
  case (1 rows c lo hi hit)
  note IH = "1.IH" and prems = "1.prems"
  have mono: "rr_lo (rows ! nat i) \<le> rr_lo (rows ! nat j)" if "0 \<le> i" "i \<le> j" "j < int (length rows)" for i j
    using rows_ok_nth [OF prems(1), of "nat i" "nat j"] rows_ok_le [OF prems(1), of "nat i"] that
    by (cases "i = j") (auto simp: nat_less_iff)
  show ?case
  proof (cases "lo \<le> hi")
    case False
    then have "h = lo - 1" "hi + 1 = lo" using prems by (auto simp: uc_search.simps)
    then show ?thesis using prems by simp
  next
    case True
    define mid where "mid = (lo + hi) div 2"
    have m: "lo \<le> mid" "mid \<le> hi" "0 \<le> mid" using True prems(2) by (auto simp: mid_def)
    show ?thesis
    proof (cases "rr_lo (rows ! nat mid) \<le> c")
      case le: True
      have "rr_lo (rows ! nat i) \<le> c" if "0 \<le> i" "i < mid + 1" for i
        using le m prems(4) mono [of i mid] that by linarith
      moreover have "h = uc_search rows c (mid + 1) hi mid"
        using prems(8) le True by (simp add: uc_search.simps [of rows c lo hi] Let_def mid_def [symmetric])
      ultimately show ?thesis
        using m prems by (intro IH(1) [OF True mid_def le]) simp_all
    next
      case gt: False
      have "c < rr_lo (rows ! nat i)" if "mid - 1 < i" "i < int (length rows)" for i
        using gt m mono [of mid i] that by linarith
      moreover have "h = uc_search rows c lo (mid - 1) hit"
        using prems(8) gt True by (simp add: uc_search.simps [of rows c lo hi] Let_def mid_def [symmetric])
      ultimately show ?thesis
        using m prems by (intro IH(2) [OF True mid_def gt]) simp_all
    qed
  qed
qed

lemma uc_row_correct:
  assumes "rows_ok rows"
  shows "uc_row rows c = Some i \<longleftrightarrow> i < length rows \<and> covers (rows ! i) c"
proof -
  define h where "h = uc_search rows c 0 (int (length rows) - 1) (- 1)"
  have "- 1 \<le> h \<and> h < int (length rows) \<and> (\<forall>i. 0 \<le> i \<and> i \<le> h \<longrightarrow> rr_lo (rows ! nat i) \<le> c) \<and>
      (\<forall>i. h < i \<and> i < int (length rows) \<longrightarrow> c < rr_lo (rows ! nat i))"
    by (rule uc_search_correct [OF assms _ _ _ _ _ _ h_def]) auto
  then have h: "- 1 \<le> h" "h < int (length rows)" "\<And>i. 0 \<le> i \<Longrightarrow> i \<le> h \<Longrightarrow> rr_lo (rows ! nat i) \<le> c"
    "\<And>i. h < i \<Longrightarrow> i < int (length rows) \<Longrightarrow> c < rr_lo (rows ! nat i)" by auto
  show ?thesis
  proof
    assume "uc_row rows c = Some i"
    then have "i = nat h" "0 \<le> h" "\<not> rr_hi (rows ! nat h) < c"
      "(c - rr_lo (rows ! nat h)) mod rr_stride (rows ! nat h) = 0"
      by (auto simp: uc_row_def h_def [symmetric] Let_def split: if_splits)
    then show "i < length rows \<and> covers (rows ! i) c"
      using h(2) h(3) [of h] by (auto simp: covers_def)
  next
    assume i: "i < length rows \<and> covers (rows ! i) c"
    then have "\<not> h < int i" using h(4) [of "int i"] by (auto simp: covers_def)
    moreover have "\<not> int i < h"
    proof
      assume "int i < h"
      then have "rr_hi (rows ! i) < rr_lo (rows ! nat h)" "rr_lo (rows ! nat h) \<le> c"
        using rows_ok_nth [OF assms, of i "nat h"] h(2) h(3) [of h] by auto
      with i show False by (simp add: covers_def)
    qed
    ultimately have "h = int i" by simp
    with i show "uc_row rows c = Some i"
      by (simp add: uc_row_def h_def [symmetric] covers_def Let_def)
  qed
qed

lemma uc_row_None:
  assumes "rows_ok rows"
  shows "uc_row rows c = None \<longleftrightarrow> (\<forall>r \<in> set rows. \<not> covers r c)"
  using uc_row_correct [OF assms, of c] by (metis in_set_conv_nth not_None_eq)

subsection \<open>The tables\<close>

lemmas row_defs = rrow_def crow_def

lemma tables_ok:
  "rows_ok vl_uc_upper" "rows_ok vl_uc_lower" "rows_ok vl_uc_title" "rows_ok vl_uc_letter"
  "rows_ok vl_uc_notupper" "rows_ok vl_uc_uppercase"
  by (simp_all only: vl_uc_upper_def vl_uc_lower_def vl_uc_title_def vl_uc_letter_def
      vl_uc_notupper_def vl_uc_uppercase_def row_defs rows_ok.simps range_row.simps case_row.simps) simp_all

definition utf8_len :: "nat \<Rightarrow> nat" where
  "utf8_len r = (if r < 0x80 then 1 else if r < 0x800 then 2 else if r < 0x10000 then 3 else 4)"

lemma utf8_put_length: "length (utf8_put r) = utf8_len r"
  by (simp add: utf8_put_def utf8_len_def)

lemma utf8_len_mono: "a \<le> b \<Longrightarrow> utf8_len a \<le> utf8_len b"
  by (simp add: utf8_len_def)

text \<open>A row whose whole range maps to scalar values that are at most half longer.\<close>

definition row_maps :: "case_row \<Rightarrow> bool" where
  "row_maps r \<longleftrightarrow>
     (let a = int (rr_lo r) + cr_delta r; b = int (rr_hi r) + cr_delta r
      in 0 \<le> a \<and> b \<le> 0x10FFFF \<and> (b < 0xD800 \<or> 0xDFFF < a)
         \<and> 2 * utf8_len (nat b) \<le> 3 * utf8_len (rr_lo r))"

lemma tables_map:
  "list_all row_maps vl_uc_upper" "list_all row_maps vl_uc_lower" "list_all row_maps vl_uc_title"
  by (simp_all add: vl_uc_upper_def vl_uc_lower_def vl_uc_title_def row_defs row_maps_def
      utf8_len_def)

lemma row_maps_image:
  assumes "row_maps r" "rr_lo r \<le> c" "c \<le> rr_hi r"
  shows "scalar (nat ((int c + cr_delta r) mod 2 ^ 32))"
    and "2 * utf8_len (nat ((int c + cr_delta r) mod 2 ^ 32)) \<le> 3 * utf8_len c"
proof -
  let ?a = "int (rr_lo r) + cr_delta r" and ?b = "int (rr_hi r) + cr_delta r"
  let ?x = "int c + cr_delta r"
  from assms have x: "0 \<le> ?a" "?a \<le> ?x" "?x \<le> ?b" "?b \<le> 0x10FFFF" "?b < 0xD800 \<or> 0xDFFF < ?a"
    and l: "2 * utf8_len (nat ?b) \<le> 3 * utf8_len (rr_lo r)"
    by (auto simp: row_maps_def Let_def)
  then have m: "?x mod 2 ^ 32 = ?x" by (intro mod_pos_pos_trivial) auto
  show "scalar (nat (?x mod 2 ^ 32))" using x unfolding m scalar_def by linarith
  have "utf8_len (nat ?x) \<le> utf8_len (nat ?b)" "utf8_len (rr_lo r) \<le> utf8_len c"
    using x assms by (auto intro!: utf8_len_mono)
  then show "2 * utf8_len (nat (?x mod 2 ^ 32)) \<le> 3 * utf8_len c" using l unfolding m by linarith
qed

definition good_map :: "(nat \<Rightarrow> nat) \<Rightarrow> bool" where
  "good_map f \<longleftrightarrow> (\<forall>c. scalar c \<longrightarrow> scalar (f c) \<and> 2 * utf8_len (f c) \<le> 3 * utf8_len c)"

lemma uc_row_covers: "rows_ok t \<Longrightarrow> uc_row t c = Some i \<Longrightarrow> i < length t \<and> covers (t ! i) c"
  using uc_row_correct by blast

lemma good_maps [simp]: "good_map uc_upper" "good_map uc_lower" "good_map uc_title"
proof -
  have case_good: "scalar (uc_case t c) \<and> 2 * utf8_len (uc_case t c) \<le> 3 * utf8_len c"
    if "rows_ok t" "list_all row_maps t" "scalar c" for t c
    using that uc_row_covers [OF that(1), of c] row_maps_image [of _ c]
    by (auto simp: uc_case_def covers_def list_all_length split: option.split)
  then show u: "good_map uc_upper" and "good_map uc_lower"
    using tables_ok tables_map by (simp_all add: good_map_def uc_upper_def uc_lower_def)
  show "good_map uc_title"
    using u uc_row_covers [OF tables_ok(3)] row_maps_image tables_map(3)
    by (auto simp: good_map_def uc_title_def covers_def list_all_length split: option.split)
qed

lemma case_loop_growth:
  assumes "good_map f" "good_map g"
  shows "2 * length (case_loop f g x s) \<le> 3 * length s"
  using assms
proof (induction f g x s rule: case_loop.induct)
  case (1 f g x s)
  show ?case
  proof (cases "s = []")
    case False
    obtain r n where n: "utf8_next s = (r, n)" by force
    with False have l: "0 < n" "n \<le> length s" using utf8_next_len by blast+
    show ?thesis
    proof (cases r)
      case None
      with 1 n False have "2 * length (case_loop f g False (drop n s)) \<le> 3 * length (drop n s)" by simp
      with None n l False show ?thesis by (subst case_loop.simps) simp
    next
      case (Some c)
      with 1 n False have "2 * length (case_loop f g False (drop n s)) \<le> 3 * length (drop n s)" by simp
      moreover have "scalar c" "n = utf8_len c"
        using put_utf8_next [of s c n] n False Some by (simp_all add: utf8_put_length)
      then have "2 * utf8_len ((if x then f else g) c) \<le> 3 * n"
        using "1.prems" by (simp add: good_map_def)
      ultimately show ?thesis
        using Some n l False by (subst case_loop.simps) (simp add: utf8_put_length)
    qed
  qed simp
qed

lemma case_map_valid:
  assumes "good_map f" "good_map g" "valid_utf8 s"
  shows "valid_utf8 (case_map s f g)"
proof -
  obtain rs where rs: "scalars rs" "s = from_runes rs" using assms(3) valid_utf8_decode by blast
  have g: "scalars rs \<Longrightarrow> scalars (map g rs)" for rs
    using assms(2) by (induction rs) (auto simp: good_map_def)
  show ?thesis
  proof (cases rs)
    case (Cons r rs')
    then have "scalars (f r # map g rs')" using rs g assms(1) by (simp add: good_map_def)
    then show ?thesis using rs Cons from_runes_loops(1) [of "f r # map g rs'"]
      by (simp add: case_map_def put_step from_runes_loops)
  qed (simp add: rs case_map_def)
qed

subsection \<open>Classes\<close>

definition class_test :: "rune_class \<Rightarrow> nat \<Rightarrow> bool" where
  "class_test k c =
     (case k of Is_digit \<Rightarrow> 48 \<le> c \<and> c \<le> 57 | Is_alpha \<Rightarrow> uc_is_letter c
      | Is_space \<Rightarrow> uc_is_space c | Is_upper \<Rightarrow> \<not> uc_not_upper c)"

lemma class_loop_step:
  assumes "s \<noteq> []"
  shows "class_loop k s h \<longleftrightarrow>
    (case utf8_next s of (None, n) \<Rightarrow> False
     | (Some c, n) \<Rightarrow> class_test k c \<and> class_loop k (drop n s) (uc_is_upper c \<or> h))"
proof -
  have if_or: "(if b then True else c) = (b \<or> c)" for b c by simp
  show ?thesis using assms unfolding class_loop.simps [of k s h] Let_def if_or
    by (cases k) (auto simp: class_test_def split: prod.split option.split)
qed

lemma class_loop_runes:
  "scalars rs \<Longrightarrow> class_loop k (from_runes rs) h \<longleftrightarrow>
    list_all (class_test k) rs \<and> (k = Is_upper \<longrightarrow> h \<or> list_ex uc_is_upper rs)"
proof (induction rs arbitrary: h)
  case Nil
  show ?case by (simp add: class_loop.simps)
next
  case (Cons r rs)
  have "utf8_put r @ from_runes rs \<noteq> []" using utf8_put_bounds(3) by simp
  then show ?case
    using Cons utf8_next_put [of r "from_runes rs"] by (auto simp: class_loop_step)
qed

lemma class_loop_valid: "class_loop k s h \<Longrightarrow> valid_utf8 s"
proof (induction s arbitrary: h rule: length_induct)
  case (1 s)
  show ?case
  proof (cases "s = []")
    case False
    with "1.prems" obtain c n where n: "utf8_next s = (Some c, n)"
      and l: "class_loop k (drop n s) (uc_is_upper c \<or> h)"
      by (auto simp: class_loop_step split: prod.splits option.splits)
    then have "valid_utf8 (drop n s)"
      using "1.IH" False utf8_next_len [OF False n] by (metis diff_less length_drop length_greater_0_conv)
    with n False show ?thesis by (simp add: valid_utf8.simps [of s])
  qed simp
qed

subsection \<open>Properties\<close>

text \<open>The table search is right: on any table whose rows are in order, \<^verbatim>\<open>uc_row\<close> returns the row
  that covers the code point if there is one, and every table of \<^verbatim>\<open>unicode_tab.h\<close> is in order.\<close>

theorem uc_row_search:
  "(rows_ok rows \<longrightarrow> (uc_row rows c = Some i \<longleftrightarrow> i < length rows \<and> covers (rows ! i) c)) \<and>
   (rows_ok vl_uc_upper \<and> rows_ok vl_uc_lower \<and> rows_ok vl_uc_title \<and> rows_ok vl_uc_letter \<and>
      rows_ok vl_uc_notupper \<and> rows_ok vl_uc_uppercase)"
  using uc_row_correct tables_ok by blast+

theorem uc_row_search_witness:
  "uc_row vl_uc_title 0x1C5 = Some 1 \<longleftrightarrow> 1 < length vl_uc_title \<and> covers (vl_uc_title ! 1) 0x1C5"
  using uc_row_search [of vl_uc_title "0x1C5" 1] tables_ok(3) by blast

text \<open>A case change is memory safe and keeps text well formed: whatever the bytes, the result of
  \<^verbatim>\<open>upper\<close>, \<^verbatim>\<open>lower\<close> or a title-cased word is at most half longer than its argument, so it fits the
  buffer of \<^verbatim>\<open>2n + 4\<close> bytes, and well-formed text stays well formed.\<close>

theorem case_change_safe:
  "length (str_upper s) < 2 * length s + 4 \<and> length (str_lower s) < 2 * length s + 4 \<and>
   length (case_map s uc_title uc_lower) < 2 * length s + 4 \<and>
   (valid_utf8 s \<longrightarrow>
      valid_utf8 (str_upper s) \<and> valid_utf8 (str_lower s) \<and> valid_utf8 (case_map s uc_title uc_lower))"
proof (intro conjI [of "length (str_upper s) < _"] conjI [of "length (str_lower s) < _"]
    conjI [of "length (case_map s uc_title uc_lower) < _"] impI)
  have "2 * length (case_map s f g) \<le> 3 * length s" if "good_map f" "good_map g" for f g
    using that case_loop_growth by (simp add: case_map_def)
  from this [of uc_upper uc_upper] this [of uc_lower uc_lower] this [of uc_title uc_lower]
  show "length (str_upper s) < 2 * length s + 4" "length (str_lower s) < 2 * length s + 4"
    "length (case_map s uc_title uc_lower) < 2 * length s + 4"
    by (simp_all add: str_upper_def str_lower_def)
  show "valid_utf8 s \<Longrightarrow>
      valid_utf8 (str_upper s) \<and> valid_utf8 (str_lower s) \<and> valid_utf8 (case_map s uc_title uc_lower)"
    using case_map_valid by (simp add: str_upper_def str_lower_def)
qed

theorem case_change_safe_witness:
  "valid_utf8 (str_upper (from_runes [0x250]))"
  using case_change_safe [of "from_runes [0x250]"] from_runes_loops(1) [of "[0x250]"]
  by (simp add: scalar_def)

text \<open>\<^verbatim>\<open>is_digit\<close>, \<^verbatim>\<open>is_alpha\<close>, \<^verbatim>\<open>is_space\<close> and \<^verbatim>\<open>is_upper\<close> hold of a text exactly when it is
  well-formed, not empty, and every rune passes the test (and, for \<^verbatim>\<open>is_upper\<close>, one is upper case).\<close>

theorem str_class_iff:
  "str_class k s \<longleftrightarrow>
    (\<exists>rs. scalars rs \<and> s = from_runes rs \<and> rs \<noteq> [] \<and> list_all (class_test k) rs \<and>
      (if k = Is_upper then list_ex uc_is_upper rs else True))"
proof
  assume *: "str_class k s"
  then have "s \<noteq> []" "class_loop k s False" by (auto simp: str_class_def split: if_splits)
  moreover from this obtain rs where "scalars rs" "s = from_runes rs"
    using class_loop_valid valid_utf8_decode by blast
  ultimately show "\<exists>rs. scalars rs \<and> s = from_runes rs \<and> rs \<noteq> [] \<and> list_all (class_test k) rs \<and>
      (if k = Is_upper then list_ex uc_is_upper rs else True)"
    by (intro exI [of _ rs]) (cases k; auto simp: class_loop_runes)
next
  assume "\<exists>rs. scalars rs \<and> s = from_runes rs \<and> rs \<noteq> [] \<and> list_all (class_test k) rs \<and>
      (if k = Is_upper then list_ex uc_is_upper rs else True)"
  then obtain rs where rs: "scalars rs" "s = from_runes rs" "rs \<noteq> []" "list_all (class_test k) rs"
    "if k = Is_upper then list_ex uc_is_upper rs else True" by blast
  then have "s \<noteq> []" using utf8_put_bounds(3) by (cases rs) auto
  with rs show "str_class k s" by (cases k) (simp_all add: str_class_def class_loop_runes)
qed

end
