(* ===== verification/Str.thy ===== *)
theory Str
  imports Unicode DecText "HOL-Library.Sublist"
begin

section \<open>The string library (str.c: split\_str .. vl\_str\_call)\<close>

text \<open>
  The operations of \<^verbatim>\<open>std/str\<close> on byte strings.  A loop over an index is a recursion over the same
  index; a pointer into a string is the string and an offset.  \<open>int\<close> arguments are the
  \<^verbatim>\<open>int64_t\<close> values of the code.  An operation that can leave defined behaviour (a negative length
  handed to \<^verbatim>\<open>vl_str_n\<close>, a signed overflow, a copy outside its buffer) returns an option, and
  \<^const>\<open>None\<close> is that case; every other operation is total.
\<close>

abbreviation slen :: "string \<Rightarrow> int" where
  "slen s \<equiv> int (length s)"

subsection \<open>Scanning\<close>

text \<open>\<^verbatim>\<open>while (i < z && P(s[i])) i++\<close> and its mirror image, the shape of most scans of the file.\<close>

function scan :: "(char \<Rightarrow> bool) \<Rightarrow> string \<Rightarrow> nat \<Rightarrow> nat \<Rightarrow> nat" where
  "scan P s i z = (if i < z \<and> P (s ! i) then scan P s (i + 1) z else i)"
  by auto
termination
  by (relation "measure (\<lambda>(P, s, i, z). z - i)") auto

function rscan :: "(char \<Rightarrow> bool) \<Rightarrow> string \<Rightarrow> nat \<Rightarrow> nat \<Rightarrow> nat" where
  "rscan P s a z = (if a < z \<and> P (s ! (z - 1)) then rscan P s a (z - 1) else z)"
  by auto
termination
  by (relation "measure (\<lambda>(P, s, a, z). z - a)") auto

declare scan.simps [simp del] rscan.simps [simp del]

definition is_space_c :: "char \<Rightarrow> bool" where
  "is_space_c c \<longleftrightarrow> c = CHR '' '' \<or> c = CHR 0x09 \<or> c = CHR 0x0A \<or> c = CHR 0x0D \<or> c = CHR 0x0B \<or> c = CHR 0x0C"

text \<open>\<open>lft\<close> and \<open>rgt\<close> say which of \<^verbatim>\<open>trim\<close>, \<^verbatim>\<open>trim_left\<close>, \<^verbatim>\<open>trim_right\<close> is meant.\<close>

definition str_trim :: "bool \<Rightarrow> bool \<Rightarrow> string \<Rightarrow> string" where
  "str_trim lft rgt s =
     (let n = length s;
          a = (if lft then scan is_space_c s 0 n else 0);
          z = (if rgt then rscan is_space_c s a n else n)
      in take (z - a) (drop a s))"

definition str_strip :: "string \<Rightarrow> string \<Rightarrow> string" where
  "str_strip s chars =
     (let n = length s;
          a = scan (\<lambda>c. c \<in> set chars) s 0 n;
          z = rscan (\<lambda>c. c \<in> set chars) s a n
      in take (z - a) (drop a s))"

definition find_any :: "string \<Rightarrow> string \<Rightarrow> int \<Rightarrow> int" where
  "find_any s stops from =
     (let f = (if from < 0 then 0 else from);
          i = scan (\<lambda>c. c \<notin> set stops) s (nat f) (length s)
      in if i < length s then int i else - 1)"

definition skip_any :: "string \<Rightarrow> string \<Rightarrow> int \<Rightarrow> int" where
  "skip_any s chars from =
     (let f = (if from < 0 then 0 else from);
          i = scan (\<lambda>c. c \<in> set chars) s (nat f) (length s)
      in if i < length s then int i else slen s)"

lemma scan_spec:
  assumes "i \<le> length s"
  shows "scan P s i (length s) = i + length (takeWhile P (drop i s))"
  using assms
proof (induction P s i "length s" rule: scan.induct)
  case (1 P s i)
  show ?case
  proof (cases "i < length s \<and> P (s ! i)")
    case True
    then have "drop i s = s ! i # drop (i + 1) s" by (simp add: Cons_nth_drop_Suc)
    with 1 True show ?thesis by (subst scan.simps) simp
  next
    case False
    have "takeWhile P (drop i s) = []"
    proof (cases "i < length s")
      case True
      then have "drop i s = s ! i # drop (i + 1) s" by (simp add: Cons_nth_drop_Suc)
      with False True show ?thesis by simp
    qed simp
    with False show ?thesis by (subst scan.simps) auto
  qed
qed

lemma scan_ge: "i \<le> scan P s i z"
proof (induction P s i z rule: scan.induct)
  case (1 P s i z)
  then show ?case by (subst scan.simps) auto
qed

lemma scan_stop: "scan P s i z < z \<Longrightarrow> \<not> P (s ! scan P s i z)"
proof (induction P s i z rule: scan.induct)
  case (1 P s i z)
  then show ?case by (subst scan.simps, subst (asm) (2) scan.simps) (auto split: if_splits)
qed

lemma scan_run: "i < z \<Longrightarrow> P (s ! i) \<Longrightarrow> i < scan P s i z"
  using scan_ge [of "i + 1" P s z] by (subst scan.simps) simp

lemma rscan_spec:
  assumes "a \<le> z" "z \<le> length s"
  shows "rscan P s a z = z - length (takeWhile P (rev (take (z - a) (drop a s))))"
  using assms
proof (induction P s a z rule: rscan.induct)
  case (1 P s a z)
  show ?case
  proof (cases "a < z")
    case False
    with 1 show ?thesis by (subst rscan.simps) simp
  next
    case True
    define t where "t = take (z - 1 - a) (drop a s)"
    have t: "take (z - a) (drop a s) = t @ [s ! (z - 1)]"
      using True 1(3) take_Suc_conv_app_nth [of "z - 1 - a" "drop a s"]
      by (simp add: t_def Suc_diff_Suc)
    show ?thesis
    proof (cases "P (s ! (z - 1))")
      case True
      with \<open>a < z\<close> 1 t show ?thesis by (subst rscan.simps) (simp add: t_def)
    next
      case False
      with t show ?thesis by (subst rscan.simps) simp
    qed
  qed
qed

lemma trim_bounds:
  "take (rscan P s (scan P s 0 (length s)) (length s) - scan P s 0 (length s)) (drop (scan P s 0 (length s)) s) =
    rev (dropWhile P (rev (dropWhile P s)))"
proof -
  define a where "a = scan P s 0 (length s)"
  have a: "a = length (takeWhile P s)" "a \<le> length s"
    using scan_spec [of 0 s P] by (auto simp: a_def length_takeWhile_le)
  then have d: "drop a s = dropWhile P s" by (simp add: dropWhile_eq_drop)
  have z: "rscan P s a (length s) = length s - length (takeWhile P (rev (dropWhile P s)))"
    using rscan_spec [OF a(2), of s P] d by (metis length_drop order_refl take_all)
  let ?w = "dropWhile P s"
  have "take (rscan P s a (length s) - a) (drop a s) = take (length ?w - length (takeWhile P (rev ?w))) ?w"
    using a z d by (metis diff_commute length_drop)
  also have "\<dots> = rev (drop (length (takeWhile P (rev ?w))) (rev ?w))" by (simp add: rev_drop)
  also have "\<dots> = rev (dropWhile P (rev ?w))" by (simp add: dropWhile_eq_drop)
  finally show ?thesis by (simp add: a_def)
qed

lemma str_trim_spec:
  "str_trim True True s = rev (dropWhile is_space_c (rev (dropWhile is_space_c s)))"
  "str_trim True False s = dropWhile is_space_c s"
  "str_trim False True s = rev (dropWhile is_space_c (rev s))"
proof -
  show "str_trim True True s = rev (dropWhile is_space_c (rev (dropWhile is_space_c s)))"
    using trim_bounds by (simp add: str_trim_def Let_def)
  show "str_trim True False s = dropWhile is_space_c s"
    using scan_spec [of 0 s is_space_c] by (simp add: str_trim_def Let_def dropWhile_eq_drop)
  show "str_trim False True s = rev (dropWhile is_space_c (rev s))"
    using rscan_spec [of 0 "length s" s is_space_c]
    by (simp add: str_trim_def Let_def dropWhile_eq_drop rev_drop)
qed

lemma str_strip_spec: "str_strip s chars = rev (dropWhile (\<lambda>c. c \<in> set chars) (rev (dropWhile (\<lambda>c. c \<in> set chars) s)))"
  using trim_bounds [of "\<lambda>c. c \<in> set chars" s] by (simp add: str_strip_def Let_def)

subsection \<open>Searching and splitting\<close>

text \<open>\<^verbatim>\<open>memcmp(s + i, p, pn) == 0\<close>.\<close>

definition match_at :: "string \<Rightarrow> nat \<Rightarrow> string \<Rightarrow> bool" where
  "match_at s i p \<longleftrightarrow> take (length p) (drop i s) = p"

function find_from :: "string \<Rightarrow> string \<Rightarrow> nat \<Rightarrow> nat option" where
  "find_from s p i =
     (if i + length p \<le> length s then if match_at s i p then Some i else find_from s p (i + 1)
      else None)"
  by auto
termination
  by (relation "measure (\<lambda>(s, p, i). length s + 1 - i)") auto

function last_from :: "string \<Rightarrow> string \<Rightarrow> nat \<Rightarrow> int \<Rightarrow> int" where
  "last_from s p i found =
     (if i + length p \<le> length s then last_from s p (i + 1) (if match_at s i p then int i else found)
      else found)"
  by auto
termination
  by (relation "measure (\<lambda>(s, p, i, f). length s + 1 - i)") auto

function count_from :: "string \<Rightarrow> string \<Rightarrow> nat \<Rightarrow> nat \<Rightarrow> nat" where
  "count_from s p i c =
     (if p \<noteq> [] \<and> i + length p \<le> length s then
        if match_at s i p then count_from s p (i + length p) (c + 1) else count_from s p (i + 1) c
      else c)"
  by auto
termination
  by (relation "measure (\<lambda>(s, p, i, c). length s + 1 - i)") (auto simp flip: length_greater_0_conv)

declare find_from.simps [simp del] last_from.simps [simp del] count_from.simps [simp del]

definition str_contains :: "string \<Rightarrow> string \<Rightarrow> bool" where
  "str_contains s p = (if p = [] then True else find_from s p 0 \<noteq> None)"

definition str_index :: "string \<Rightarrow> string \<Rightarrow> int" where
  "str_index s p = (case find_from s p 0 of None \<Rightarrow> - 1 | Some i \<Rightarrow> int i)"

definition last_index :: "string \<Rightarrow> string \<Rightarrow> int" where
  "last_index s p = last_from s p 0 (- 1)"

text \<open>The empty text occurs \<open>n + 1\<close> times.\<close>

definition str_count :: "string \<Rightarrow> string \<Rightarrow> nat" where
  "str_count s p = (if p = [] then length s + 1 else count_from s p 0 0)"

definition trim_prefix :: "string \<Rightarrow> string \<Rightarrow> string" where
  "trim_prefix s p =
     (if length s < length p then s else if match_at s 0 p then drop (length p) s else s)"

definition trim_suffix :: "string \<Rightarrow> string \<Rightarrow> string" where
  "trim_suffix s p =
     (if length s < length p then s
      else if match_at s (length s - length p) p then take (length s - length p) s else s)"

definition str_cut :: "string \<Rightarrow> string \<Rightarrow> string \<times> string \<times> bool" where
  "str_cut s p =
     (case find_from s p 0 of
        None \<Rightarrow> (s, [], False)
      | Some i \<Rightarrow> (take i s, drop (i + length p) s, True))"

definition starts_with :: "string \<Rightarrow> string \<Rightarrow> bool" where
  "starts_with s p = (if length s < length p then False else match_at s 0 p)"

definition ends_with :: "string \<Rightarrow> string \<Rightarrow> bool" where
  "ends_with s p = (if length s < length p then False else match_at s (length s - length p) p)"

text \<open>C's \<^verbatim>\<open>tolower\<close> in the C locale.\<close>

definition to_lower :: "char \<Rightarrow> char" where
  "to_lower c = (if 65 \<le> byte c \<and> byte c \<le> 90 then char_of (byte c + 32) else c)"

definition equal_fold :: "string \<Rightarrow> string \<Rightarrow> bool" where
  "equal_fold s b = (if length s \<noteq> length b then False else map to_lower s = map to_lower b)"

text \<open>\<^verbatim>\<open>split_str\<close> with a separator: \<open>start\<close> is where the current part began.\<close>

function split_loop :: "string \<Rightarrow> string \<Rightarrow> int \<Rightarrow> nat \<Rightarrow> nat \<Rightarrow> int \<Rightarrow> string list" where
  "split_loop s sep limit i start parts =
     (if sep \<noteq> [] \<and> i + length sep \<le> length s then
        if 0 < limit \<and> parts = limit - 1 \<or> \<not> match_at s i sep then
          split_loop s sep limit (i + 1) start parts
        else
          take (i - start) (drop start s)
            # split_loop s sep limit (i + length sep) (i + length sep) (parts + 1)
      else [drop start s])"
  by auto
termination
  by (relation "measure (\<lambda>(s, sep, limit, i, start, parts). length s + 1 - i)") (auto simp flip: length_greater_0_conv)

declare split_loop.simps [simp del]

definition split_str :: "string \<Rightarrow> string \<Rightarrow> int \<Rightarrow> string list" where
  "split_str s sep limit = (if sep = [] then split_runes s else split_loop s sep limit 0 0 0)"

definition str_lines :: "string \<Rightarrow> string list" where
  "str_lines s =
     (let n = length s;
          m = (if 0 < n \<and> s ! (n - 1) = CHR 0x0A then n - 1 else n)
      in if m = 0 then [] else split_str (take m s) [CHR 0x0A] 0)"

text \<open>\<^verbatim>\<open>join\<close> of texts: the separator goes before every element but the first.\<close>

fun join_loop :: "string \<Rightarrow> string list \<Rightarrow> nat \<Rightarrow> string" where
  "join_loop sep [] i = []"
| "join_loop sep (e # es) i = (if i \<noteq> 0 then sep else []) @ e @ join_loop sep es (i + 1)"

definition str_join :: "string list \<Rightarrow> string \<Rightarrow> string" where
  "str_join es sep = join_loop sep es 0"

function replace_loop :: "string \<Rightarrow> string \<Rightarrow> string \<Rightarrow> int \<Rightarrow> nat \<Rightarrow> int \<Rightarrow> string" where
  "replace_loop s old nw limit i done =
     (if i < length s then
        if 0 < length old \<and> i + length old \<le> length s \<and> match_at s i old
           \<and> (limit < 0 \<or> done < limit)
        then nw @ replace_loop s old nw limit (i + length old) (done + 1)
        else s ! i # replace_loop s old nw limit (i + 1) done
      else [])"
  by auto
termination
  by (relation "measure (\<lambda>(s, old, nw, limit, i, done). length s - i)") (auto simp flip: length_greater_0_conv)

declare replace_loop.simps [simp del]

definition replace_n :: "string \<Rightarrow> string \<Rightarrow> string \<Rightarrow> int \<Rightarrow> string" where
  "replace_n s old nw limit = replace_loop s old nw limit 0 0"

definition str_replace :: "string \<Rightarrow> string \<Rightarrow> string \<Rightarrow> string" where
  "str_replace s old nw = replace_loop s old nw (- 1) 0 0"

subsection \<open>Searching is correct\<close>

lemma match_at_iff:
  "i + length p \<le> length s \<Longrightarrow> match_at s i p \<longleftrightarrow> (\<exists>v. s = take i s @ p @ v)"
proof
  assume *: "i + length p \<le> length s" "match_at s i p"
  have "s = take i s @ take (length p) (drop i s) @ drop (length p) (drop i s)" by (metis append_take_drop_id)
  with *(2) have "s = take i s @ p @ drop (length p) (drop i s)" by (simp add: match_at_def)
  then show "\<exists>v. s = take i s @ p @ v" by blast
next
  assume *: "i + length p \<le> length s" "\<exists>v. s = take i s @ p @ v"
  then obtain v where v: "s = take i s @ p @ v" by blast
  have "length (take i s) = i" using *(1) by simp
  then have "drop i (take i s @ p @ v) = p @ v" by simp
  then have "drop i s = p @ v" using v by simp
  then show "match_at s i p" by (simp add: match_at_def)
qed

lemma find_from_Some:
  "find_from s p i = Some j \<longleftrightarrow>
    i \<le> j \<and> j + length p \<le> length s \<and> match_at s j p \<and> (\<forall>k. i \<le> k \<and> k < j \<longrightarrow> \<not> match_at s k p)"
proof (induction s p i rule: find_from.induct)
  case (1 s p i)
  show ?case
  proof (cases "i + length p \<le> length s")
    case True
    show ?thesis
    proof (cases "match_at s i p")
      case True
      with \<open>i + length p \<le> length s\<close> show ?thesis
        by (subst find_from.simps) (auto intro: antisym dest: leD)
    next
      case False
      then have "find_from s p i = find_from s p (i + 1)" using True by (subst find_from.simps) simp
      with 1 [OF True False] False show ?thesis
        by (metis Suc_eq_plus1 Suc_le_eq le_eq_less_or_eq)
    qed
  qed (subst find_from.simps, auto)
qed

lemma find_from_None:
  "find_from s p i = None \<longleftrightarrow> (\<forall>j. i \<le> j \<and> j + length p \<le> length s \<longrightarrow> \<not> match_at s j p)"
proof (induction s p i rule: find_from.induct)
  case (1 s p i)
  show ?case
  proof (cases "i + length p \<le> length s \<and> \<not> match_at s i p")
    case True
    then have "find_from s p i = find_from s p (i + 1)" by (subst find_from.simps) simp
    with 1 True show ?thesis by (metis Suc_eq_plus1 Suc_le_eq le_eq_less_or_eq)
  qed (subst find_from.simps, auto)
qed

lemma sublist_match:
  "sublist p s \<longleftrightarrow> (\<exists>i. i + length p \<le> length s \<and> match_at s i p)"
proof
  assume "sublist p s"
  then obtain u v where s: "s = u @ p @ v" by (auto simp: sublist_def)
  then have "length u + length p \<le> length s" "match_at s (length u) p" by (auto simp: match_at_def)
  then show "\<exists>i. i + length p \<le> length s \<and> match_at s i p" by blast
next
  assume "\<exists>i. i + length p \<le> length s \<and> match_at s i p"
  then show "sublist p s" by (auto simp: match_at_iff sublist_def)
qed

lemma contains_iff: "str_contains s p \<longleftrightarrow> sublist p s"
  using find_from_None [of s p 0]
  by (cases "p = []") (auto simp: str_contains_def sublist_match [of p] simp del: sublist_code)

lemma last_from_spec:
  "last_from s p i f =
    (if \<exists>j. i \<le> j \<and> j + length p \<le> length s \<and> match_at s j p
     then int (GREATEST j. i \<le> j \<and> j + length p \<le> length s \<and> match_at s j p) else f)"
proof (induction s p i f rule: last_from.induct)
  case (1 s p i f)
  let ?Q = "\<lambda>i j. i \<le> j \<and> j + length p \<le> length s \<and> match_at s j p"
  show ?case
  proof (cases "i + length p \<le> length s")
    case False
    then have "\<not> (\<exists>j. ?Q i j)" by auto
    with False show ?thesis by (subst last_from.simps) (simp only: if_False)
  next
    case True
    have bound: "?Q k j \<Longrightarrow> j \<le> length s" for k j by auto
    have IH: "last_from s p i f = (if \<exists>j. ?Q (i + 1) j then int (GREATEST j. ?Q (i + 1) j)
        else if match_at s i p then int i else f)"
      using 1 [OF True] True by (subst last_from.simps) simp
    show ?thesis
    proof (cases "\<exists>j. ?Q (i + 1) j")
      case ex: True
      then have g: "?Q (i + 1) (GREATEST j. ?Q (i + 1) j)"
        by (rule GreatestI_ex_nat [where b = "length s"]) (use bound in blast)
      have "(GREATEST j. ?Q i j) = (GREATEST j. ?Q (i + 1) j)"
      proof (rule Greatest_equality)
        show "?Q i (GREATEST j. ?Q (i + 1) j)" using g by auto
        fix y assume y: "?Q i y"
        show "y \<le> (GREATEST j. ?Q (i + 1) j)"
        proof (cases "y = i")
          case False
          with y have "?Q (i + 1) y" by auto
          then show ?thesis by (rule Greatest_le_nat [where b = "length s"]) (use bound in blast)
        qed (use g in auto)
      qed
      moreover have "\<exists>j. ?Q i j" using g by (intro exI [of _ "GREATEST j. ?Q (i + 1) j"]) auto
      ultimately show ?thesis using IH ex by simp
    next
      case no: False
      then have one: "?Q i j \<longleftrightarrow> j = i \<and> match_at s i p" for j
        using True by (metis Suc_eq_plus1 Suc_leI le_neq_implies_less order_refl)
      have e: "last_from s p i f = (if match_at s i p then int i else f)"
        using IH unfolding if_not_P [OF no] .
      show ?thesis
      proof (cases "match_at s i p")
        case True
        then have "\<exists>j. ?Q i j" "(GREATEST j. ?Q i j) = i" unfolding one by (auto intro: Greatest_equality)
        then show ?thesis using e True by simp
      next
        case False
        then have "\<not> (\<exists>j. ?Q i j)" unfolding one by blast
        then show ?thesis using e False by (simp only: if_False)
      qed
    qed
  qed
qed

subsection \<open>Splitting, joining, replacing and counting\<close>

lemma take_drop_split: "a \<le> b \<Longrightarrow> drop a s = take (b - a) (drop a s) @ drop b s"
  by (metis append_take_drop_id drop_drop le_add_diff_inverse2)

lemma match_drop: "match_at s i p \<Longrightarrow> drop i s = p @ drop (i + length p) s"
  by (metis add.commute append_take_drop_id drop_drop match_at_def)

lemma split_end: "sep = [] \<or> \<not> i + length sep \<le> length s \<Longrightarrow> split_loop s sep limit i start parts = [drop start s]"
  by (subst split_loop.simps) auto

lemma split_skip:
  "sep \<noteq> [] \<Longrightarrow> i + length sep \<le> length s \<Longrightarrow> 0 < limit \<and> parts = limit - 1 \<or> \<not> match_at s i sep \<Longrightarrow>
    split_loop s sep limit i start parts = split_loop s sep limit (i + 1) start parts"
  by (subst split_loop.simps) simp

lemma split_piece:
  "sep \<noteq> [] \<Longrightarrow> i + length sep \<le> length s \<Longrightarrow> \<not> (0 < limit \<and> parts = limit - 1 \<or> \<not> match_at s i sep) \<Longrightarrow>
    split_loop s sep limit i start parts =
      take (i - start) (drop start s) # split_loop s sep limit (i + length sep) (i + length sep) (parts + 1)"
  by (subst split_loop.simps) (simp only: if_True if_False simp_thms)

lemma join_split_loop:
  assumes "start \<le> i"
  shows "join_loop sep (split_loop s sep limit i start parts) k =
    (if k \<noteq> 0 then sep else []) @ drop start s"
  using assms
proof (induction s sep limit i start parts arbitrary: k rule: split_loop.induct)
  case (1 s sep limit i start parts)
  show ?case
  proof (cases "sep \<noteq> [] \<and> i + length sep \<le> length s")
    case False
    then have "split_loop s sep limit i start parts = [drop start s]" by (intro split_end) blast
    then show ?thesis by simp
  next
    case in_range: True
    note r = conjunct1 [OF in_range] conjunct2 [OF in_range]
    show ?thesis
    proof (cases "0 < limit \<and> parts = limit - 1 \<or> \<not> match_at s i sep")
      case True
      with in_range 1 show ?thesis unfolding split_skip [OF r True] by simp
    next
      case False
      then have "drop i s = sep @ drop (i + length sep) s" using match_drop by blast
      moreover have "drop start s = take (i - start) (drop start s) @ drop i s"
        using 1(3) by (rule take_drop_split)
      ultimately have "drop start s = take (i - start) (drop start s) @ sep @ drop (i + length sep) s" by simp
      with in_range False 1 show ?thesis unfolding split_piece [OF r False] by simp
    qed
  qed
qed

lemma drop_step: "i < length s \<Longrightarrow> start \<le> i \<Longrightarrow>
    take (i + 1 - start) (drop start s) = take (i - start) (drop start s) @ [s ! i]"
  using take_Suc_conv_app_nth [of "i - start" "drop start s"] by (simp add: Suc_diff_le)

lemma replace_tail:
  "length s < i + length old \<Longrightarrow> replace_loop s old nw lm i done = drop i s"
proof (induction s old nw lm i "done" rule: replace_loop.induct)
  case (1 s old nw lm i d)
  show ?case
  proof (cases "i < length s")
    case True
    then have "drop i s = s ! i # drop (i + 1) s" by (simp add: Cons_nth_drop_Suc)
    with True 1 show ?thesis by (subst replace_loop.simps) simp
  qed (subst replace_loop.simps, simp)
qed

lemma replace_split_loop:
  assumes "start \<le> i" "old \<noteq> []"
    and "0 < limit \<longrightarrow> lm = limit - 1 \<and> done = parts \<and> parts \<le> limit - 1"
    and "limit \<le> 0 \<longrightarrow> lm < 0"
  shows "join_loop nw (split_loop s old limit i start parts) k =
    (if k \<noteq> 0 then nw else []) @ take (i - start) (drop start s) @ replace_loop s old nw lm i done"
  using assms
proof (induction s old limit i start parts arbitrary: k "done" rule: split_loop.induct)
  case (1 s old limit i start parts)
  show ?case
  proof (cases "i + length old \<le> length s")
    case False
    then have "replace_loop s old nw lm i done = drop i s" by (simp add: replace_tail)
    with False 1(3) take_drop_split [of start i s] show ?thesis by (simp add: split_end)
  next
    case in_range: True
    have "0 < length old" using 1(4) by simp
    then have il: "i < length s" using in_range by linarith
    show ?thesis
    proof (cases "0 < limit \<and> parts = limit - 1 \<or> \<not> match_at s i old")
      case True
      then have "\<not> (match_at s i old \<and> (lm < 0 \<or> done < lm))" using 1(5,6) by auto
      then have r: "replace_loop s old nw lm i done = s ! i # replace_loop s old nw lm (i + 1) done"
        using il by (subst replace_loop.simps) auto
      have "join_loop nw (split_loop s old limit (i + 1) start parts) k =
          (if k \<noteq> 0 then nw else []) @ take (i + 1 - start) (drop start s) @ replace_loop s old nw lm (i + 1) done"
        using in_range True 1 by (intro 1(1)) auto
      then show ?thesis
        unfolding split_skip [OF 1(4) in_range True] r drop_step [OF il 1(3)] by simp
    next
      case False
      then have "match_at s i old" "lm < 0 \<or> done < lm" using 1(5,6) by auto
      then have r: "replace_loop s old nw lm i done = nw @ replace_loop s old nw lm (i + length old) (done + 1)"
        using il in_range 1(4) by (subst replace_loop.simps) auto
      have "join_loop nw (split_loop s old limit (i + length old) (i + length old) (parts + 1)) (k + 1) =
          nw @ replace_loop s old nw lm (i + length old) (done + 1)"
        using in_range False 1 by (subst 1(2)) auto
      then show ?thesis unfolding split_piece [OF 1(4) in_range False] r by simp
    qed
  qed
qed

lemma count_split_loop:
  assumes "p \<noteq> []"
  shows "length (split_loop s p 0 i start parts) + c = count_from s p i c + 1"
  using assms
proof (induction s p "0::int" i start parts arbitrary: c rule: split_loop.induct)
  case (1 s p i start parts)
  show ?case
  proof (cases "i + length p \<le> length s")
    case False
    with 1 show ?thesis by (subst count_from.simps) (simp add: split_end)
  next
    case True
    show ?thesis
    proof (cases "match_at s i p")
      case m: True
      with 1(2) [of "c + 1"] 1(3) True show ?thesis
        by (subst count_from.simps) (simp add: split_piece)
    next
      case False
      with 1(1) 1(3) True show ?thesis by (subst count_from.simps) (simp add: split_skip)
    qed
  qed
qed

lemma split_loop_limit:
  "0 < limit \<Longrightarrow> parts \<le> limit - 1 \<Longrightarrow> int (length (split_loop s p limit i start parts)) \<le> limit - parts"
proof (induction s p limit i start parts rule: split_loop.induct)
  case (1 s p limit i start parts)
  then show ?case by (subst split_loop.simps) auto
qed

lemma match_take_drop:
  "j + length p \<le> b - a \<Longrightarrow> match_at (take (b - a) (drop a s)) j p \<longleftrightarrow> match_at s (a + j) p"
  by (simp add: match_at_def drop_take add.commute min_def)

lemma split_loop_pieces:
  assumes "sep \<noteq> []" "limit \<le> 0" "start \<le> i" "\<And>k. start \<le> k \<Longrightarrow> k < i \<Longrightarrow> \<not> match_at s k sep"
    and "x \<in> set (split_loop s sep limit i start parts)"
  shows "\<not> sublist sep x"
  using assms
proof (induction s sep limit i start parts rule: split_loop.induct)
  case (1 s sep limit i start parts)
  note IH = 1(1,2) and sep = 1(3) and lm = 1(4) and le = 1(5) and none = 1(6) and x = 1(7)
  have pos: "0 < length sep" using sep by simp
  show ?case
  proof (cases "i + length sep \<le> length s")
    case False
    with x have xd: "x = drop start s" by (simp add: split_end)
    show ?thesis
    proof
      assume "sublist sep x"
      then obtain j where j: "j + length sep \<le> length x" "match_at x j sep" by (auto simp: sublist_match)
      then have "j + length sep \<le> length s - start" by (simp add: xd)
      then have "start + j < i" using False pos by linarith
      moreover have "match_at s (start + j) sep" using j xd by (simp add: match_at_def add.commute)
      ultimately show False using none by simp
    qed
  next
    case in_range: True
    show ?thesis
    proof (cases "match_at s i sep")
      case False
      then have "\<not> match_at s k sep" if "start \<le> k" "k < i + 1" for k
        using none [of k] that by (cases "k = i") auto
      moreover have "x \<in> set (split_loop s sep limit (i + 1) start parts)"
        using x in_range False sep by (simp add: split_skip)
      ultimately show ?thesis using IH(1) sep lm le in_range False by auto
    next
      case True
      with x in_range sep lm consider (here) "x = take (i - start) (drop start s)"
        | (later) "x \<in> set (split_loop s sep limit (i + length sep) (i + length sep) (parts + 1))"
        by (auto simp: split_piece)
      then show ?thesis
      proof cases
        case here
        show ?thesis
        proof
          assume "sublist sep x"
          then obtain j where j: "j + length sep \<le> length x" "match_at x j sep" by (auto simp: sublist_match)
          then have l: "j + length sep \<le> i - start" by (simp add: here)
          then have "match_at s (start + j) sep"
            using j match_take_drop [of j sep i start s] by (simp add: here)
          moreover have "start + j < i" using l pos by linarith
          ultimately show False using none by simp
        qed
      next
        case later
        have "\<not> (0 < limit \<and> parts = limit - 1 \<or> \<not> match_at s i sep)" using lm True by simp
        then show ?thesis using later sep lm in_range by (intro IH(2)) auto
      qed
    qed
  qed
qed

subsection \<open>Words\<close>

function fields_loop :: "string \<Rightarrow> nat \<Rightarrow> string list" where
  "fields_loop s i =
     (if i < length s then
        let start = scan is_space_c s i (length s)
        in if length s \<le> start then []
           else
             let stop = scan (\<lambda>c. \<not> is_space_c c) s start (length s)
             in take (stop - start) (drop start s) # fields_loop s stop
      else [])"
  by auto
termination
proof (relation "measure (\<lambda>(s, i). length s - i)")
  fix s i start stop
  assume *: "i < length s" "start = scan is_space_c s i (length s)" "\<not> length s \<le> start"
    "stop = scan (\<lambda>c. \<not> is_space_c c) s start (length s)"
  then have "i \<le> start" "start < stop" using scan_ge scan_stop by (metis scan_run not_le)+
  with * show "((s, stop), s, i) \<in> measure (\<lambda>(s, i). length s - i)" by auto
qed simp

declare fields_loop.simps [simp del]

definition fields_of :: "string \<Rightarrow> string list" where
  "fields_of s = fields_loop s 0"

definition str_words :: "string \<Rightarrow> int" where
  "str_words s = int (length (fields_of s))"

definition str_word :: "string \<Rightarrow> int \<Rightarrow> string" where
  "str_word s k =
     (let w = fields_of s
      in if 1 \<le> k \<and> k \<le> int (length w) then w ! nat (k - 1) else [])"

text \<open>\<^verbatim>\<open>subword\<close> and \<^verbatim>\<open>delword\<close>: the words of the range or the others.  \<open>cnt\<close> is absent when only two
  arguments are given; \<open>k + cnt\<close> is a signed addition.\<close>

fun take_words :: "(int \<Rightarrow> bool) \<Rightarrow> string list \<Rightarrow> int \<Rightarrow> bool \<Rightarrow> string" where
  "take_words P [] i first = []"
| "take_words P (w # ws) i first =
     (if \<not> P i then take_words P ws (i + 1) first
      else (if first then [] else '' '') @ w @ take_words P ws (i + 1) False)"

definition subword_delword :: "bool \<Rightarrow> string \<Rightarrow> int \<Rightarrow> int option \<Rightarrow> string option" where
  "subword_delword sub s k0 cnt0 =
     (let w = fields_of s;
          k = (if k0 < 1 then 1 else k0);
          cnt = (case cnt0 of None \<Rightarrow> int (length w) | Some c \<Rightarrow> c)
      in if w \<noteq> [] \<and> \<not> i64 (k + cnt) then None
         else
           Some (take_words
             (\<lambda>i. (k \<le> i + 1 \<and> i + 1 < k + cnt) = sub) w 0 True))"

definition str_title :: "string \<Rightarrow> string" where
  "str_title s = str_join (map (\<lambda>w. case_map w uc_title uc_lower) (fields_of s)) '' ''"

subsection \<open>Cutting and building\<close>

text \<open>\<^verbatim>\<open>vl_str_n(s + off, n)\<close>.\<close>

definition vl_str_n :: "string \<Rightarrow> int \<Rightarrow> int \<Rightarrow> string option" where
  "vl_str_n s off n =
     (if 0 \<le> n \<and> 0 \<le> off \<and> off + n \<le> slen s then Some (take (nat n) (drop (nat off) s)) else None)"

definition str_substr :: "string \<Rightarrow> int \<Rightarrow> int option \<Rightarrow> string option" where
  "str_substr s start0 k0 =
     (let n = slen s;
          s1 = (if start0 < 0 then 0 else start0);
          start = (if n < s1 then n else s1)
      in case k0 of
           None \<Rightarrow> vl_str_n s start (n - start)
         | Some k1 \<Rightarrow>
             let k = (if k1 < 0 then 0 else k1)
             in if \<not> i64 (start + k) then None
                else
                  let e = (if start + k < n then start + k else n)
                  in vl_str_n s start (e - start))"

definition str_left :: "string \<Rightarrow> int \<Rightarrow> string option" where
  "str_left s k0 =
     (let k1 = (if k0 < 0 then 0 else k0); k = (if slen s < k1 then slen s else k1)
      in vl_str_n s 0 k)"

definition str_right :: "string \<Rightarrow> int \<Rightarrow> string option" where
  "str_right s k0 =
     (let k1 = (if k0 < 0 then 0 else k0); k = (if slen s < k1 then slen s else k1)
      in vl_str_n s (slen s - k) k)"

datatype pad_side = Pad_right | Pad_left | Pad_center

definition str_pad :: "pad_side \<Rightarrow> string \<Rightarrow> int \<Rightarrow> string option" where
  "str_pad side s w =
     (let n = slen s
      in if w \<le> n then (if side = Pad_left then vl_str_n s (n - w) w else vl_str_n s 0 w)
         else
           let fill = nat (w - n)
           in Some (case side of
                Pad_right \<Rightarrow> s @ replicate fill CHR '' ''
              | Pad_left \<Rightarrow> replicate fill CHR '' '' @ s
              | Pad_center \<Rightarrow>
                  let l = fill div 2; r = fill - l
                  in replicate l CHR '' '' @ s @ replicate r CHR '' ''))"

definition str_repeat :: "string \<Rightarrow> int \<Rightarrow> string result" where
  "str_repeat s k0 =
     (let n = slen s; k = (if k0 < 0 then 0 else k0)
      in if 0 < n \<and> 2 ^ 31 div n < k then Inl (Throw ''RangeError'' ''repeat: result too large'')
         else Inr (concat (replicate (nat k) s)))"

text \<open>\<^verbatim>\<open>memchr(from, c, n) - from\<close>.\<close>

fun index_of :: "char \<Rightarrow> string \<Rightarrow> nat option" where
  "index_of c [] = None"
| "index_of c (d # ds) = (if c = d then Some 0 else map_option Suc (index_of c ds))"

fun str_translate :: "string \<Rightarrow> string \<Rightarrow> string \<Rightarrow> string" where
  "str_translate [] frm to = []"
| "str_translate (c # s) frm to =
     (case index_of c frm of
        None \<Rightarrow> c # str_translate s frm to
      | Some k \<Rightarrow> (if k < length to then [to ! k] else []) @ str_translate s frm to)"

text \<open>\<^verbatim>\<open>memcpy(b + at, src, n)\<close> into a buffer of \<open>length b\<close> bytes.\<close>

definition memcpy_at :: "string \<Rightarrow> int \<Rightarrow> string \<Rightarrow> string option" where
  "memcpy_at b pos src =
     (if 0 \<le> pos \<and> pos + slen src \<le> slen b
      then Some (take (nat pos) b @ src @ drop (nat pos + length src) b) else None)"

definition str_overlay :: "string \<Rightarrow> string \<Rightarrow> int \<Rightarrow> string option" where
  "str_overlay s nw at0 =
     (let n = slen s; nn = slen nw;
          pos = (if at0 < 0 then 0 else at0);
          base = (if pos < n then n else pos)
      in if \<not> i64 (pos + nn) then None
         else
           let total = (if pos + nn < base then base else pos + nn);
               b = replicate (nat total) CHR '' ''
           in case memcpy_at b 0 s of
                None \<Rightarrow> None
              | Some b \<Rightarrow> memcpy_at b pos nw)"

definition str_insert :: "string \<Rightarrow> string \<Rightarrow> int \<Rightarrow> string" where
  "str_insert s nw at0 =
     (let a1 = (if at0 < 0 then 0 else at0); pos = nat (if slen s < a1 then slen s else a1)
      in take pos s @ nw @ drop pos s)"

text \<open>\<^verbatim>\<open>delstr\<close> has a buffer of \<open>n + 1\<close> bytes, and reads \<open>n - end\<close> bytes from \<open>s + end\<close>.\<close>

definition str_delstr :: "string \<Rightarrow> int \<Rightarrow> int \<Rightarrow> string option" where
  "str_delstr s at0 k =
     (let n = slen s;
          a1 = (if at0 < 0 then 0 else at0);
          pos = (if n < a1 then n else a1)
      in if \<not> i64 (pos + k) then None
         else
           let e = (if n < pos + k then n else pos + k)
           in if e < 0 \<or> n + 1 < pos + (n - e) then None
              else Some (take (nat pos) s @ drop (nat e) s))"

definition str_bytes :: "string \<Rightarrow> int list" where
  "str_bytes s = map (\<lambda>c. int (byte c)) s"

definition int_text :: "int \<Rightarrow> string" where
  "int_text n = (if n < 0 then ''-'' else []) @ nat_text (nat \<bar>n\<bar>)"

fun from_bytes_loop :: "int list \<Rightarrow> nat \<Rightarrow> string \<Rightarrow> string + string" where
  "from_bytes_loop [] i b = Inr b"
| "from_bytes_loop (v # vs) i b =
     (if v < 0 \<or> 255 < v then
        Inl (''from_bytes: element '' @ nat_text i @ '' is '' @ int_text v @ '', not a byte'')
      else from_bytes_loop vs (i + 1) (b @ [char_of (nat v)]))"

definition from_bytes_checked :: "int list \<Rightarrow> string + string" where
  "from_bytes_checked vs = from_bytes_loop vs 0 []"

subsection \<open>Words are correct\<close>

function fields_ref :: "string \<Rightarrow> string list" where
  "fields_ref s =
     (let t = dropWhile is_space_c s
      in if t = [] then [] else takeWhile (\<lambda>c. \<not> is_space_c c) t # fields_ref (dropWhile (\<lambda>c. \<not> is_space_c c) t))"
  by auto
termination
proof (relation "measure length")
  fix s t :: string
  assume t: "t = dropWhile is_space_c s" "t \<noteq> []"
  then have "\<not> is_space_c (hd t)" using hd_dropWhile by metis
  then have "length (dropWhile (\<lambda>c. \<not> is_space_c c) t) < length t"
    using t(2) length_dropWhile_le [of "\<lambda>c. \<not> is_space_c c" "tl t"] by (cases t) (auto simp: less_Suc_eq_le)
  also have "\<dots> \<le> length s" unfolding t(1) by (rule length_dropWhile_le)
  finally show "(dropWhile (\<lambda>c. \<not> is_space_c c) t, s) \<in> measure length" by simp
qed simp

declare fields_ref.simps [simp del]

lemma fields_loop_ref: "i \<le> length s \<Longrightarrow> fields_loop s i = fields_ref (drop i s)"
proof (induction s i rule: fields_loop.induct)
  case (1 s i)
  define start where "start = scan is_space_c s i (length s)"
  define stop where "stop = scan (\<lambda>c. \<not> is_space_c c) s start (length s)"
  have st: "start = i + length (takeWhile is_space_c (drop i s))"
    using scan_spec [OF 1(2)] by (simp add: start_def)
  have le: "start \<le> length s" using st length_takeWhile_le [of is_space_c "drop i s"] 1(2) by simp
  have d: "drop start s = dropWhile is_space_c (drop i s)"
    by (simp add: st dropWhile_eq_drop add.commute)
  have sp: "stop = start + length (takeWhile (\<lambda>c. \<not> is_space_c c) (drop start s))"
    using scan_spec [OF le] by (simp add: stop_def)
  have sl: "stop \<le> length s" using sp length_takeWhile_le [of "\<lambda>c. \<not> is_space_c c" "drop start s"] le by simp
  have d2: "drop stop s = dropWhile (\<lambda>c. \<not> is_space_c c) (drop start s)"
    by (simp add: sp dropWhile_eq_drop add.commute)
  have w: "take (stop - start) (drop start s) = takeWhile (\<lambda>c. \<not> is_space_c c) (drop start s)"
    by (metis sp diff_add_inverse takeWhile_eq_take)
  show ?case
  proof (cases "i < length s \<and> start < length s")
    case True
    then have "fields_loop s stop = fields_ref (drop stop s)"
      using 1(1) [OF _ start_def _ stop_def] sl by simp
    moreover have "dropWhile is_space_c (drop i s) \<noteq> []" using d True by (metis drop_eq_Nil not_le)
    ultimately show ?thesis
      using True w d d2 by (subst fields_loop.simps, subst fields_ref.simps)
        (simp add: Let_def start_def [symmetric] stop_def [symmetric] del: dropWhile_eq_Nil_conv)
  next
    case False
    then have "dropWhile is_space_c (drop i s) = []" using d le by (metis drop_eq_Nil dropWhile.simps(1) not_le)
    then show ?thesis
      using False by (subst fields_loop.simps, subst fields_ref.simps)
        (auto simp: Let_def start_def [symmetric])
  qed
qed

lemma fields_of_ref: "fields_of s = fields_ref s"
  using fields_loop_ref [of 0 s] by (simp add: fields_of_def)

definition is_word :: "string \<Rightarrow> bool" where
  "is_word w \<longleftrightarrow> w \<noteq> [] \<and> list_all (\<lambda>c. \<not> is_space_c c) w"

lemma fields_words: "list_all is_word (fields_ref s)"
proof (induction s rule: fields_ref.induct)
  case (1 s)
  define t where "t = dropWhile is_space_c s"
  show ?case
  proof (cases "t = []")
    case False
    then have "\<not> is_space_c (hd t)" using hd_dropWhile t_def by metis
    then have "is_word (takeWhile (\<lambda>c. \<not> is_space_c c) t)"
      using False by (cases t) (auto simp: is_word_def list_all_iff dest: set_takeWhileD)
    then show ?thesis using 1 [OF t_def False] False
      by (subst fields_ref.simps) (simp add: t_def [symmetric] Let_def)
  qed (subst fields_ref.simps, simp add: t_def [symmetric])
qed

lemma filter_parts:
  "filter (\<lambda>c. \<not> P c) s = takeWhile (\<lambda>c. \<not> P c) (dropWhile P s)
    @ filter (\<lambda>c. \<not> P c) (dropWhile (\<lambda>c. \<not> P c) (dropWhile P s))"
proof -
  have a: "filter (\<lambda>c. \<not> P c) s = filter (\<lambda>c. \<not> P c) (dropWhile P s)" by (induction s) auto
  have b: "filter Q t = takeWhile Q t @ filter Q (dropWhile Q t)" for Q and t :: "'a list"
    by (induction t) auto
  show ?thesis unfolding a by (rule b)
qed

lemma fields_concat: "concat (fields_ref s) = filter (\<lambda>c. \<not> is_space_c c) s"
proof (induction s rule: fields_ref.induct)
  case (1 s)
  define t where "t = dropWhile is_space_c s"
  show ?case
  proof (cases "t = []")
    case True
    then have "filter (\<lambda>c. \<not> is_space_c c) s = []"
      by (simp add: t_def filter_empty_conv dropWhile_eq_Nil_conv)
    with True show ?thesis by (subst fields_ref.simps) (simp add: t_def [symmetric])
  next
    case False
    with 1 [OF t_def False] show ?thesis
      using filter_parts [of is_space_c s]
      by (subst fields_ref.simps) (simp add: t_def [symmetric] Let_def)
  qed
qed

lemma fields_join: "list_all is_word ws \<Longrightarrow> fields_ref (str_join ws '' '') = ws"
proof (induction ws)
  case Nil
  show ?case by (simp add: str_join_def fields_ref.simps)
next
  case (Cons w ws)
  have sp: "is_space_c CHR '' ''" by (simp add: is_space_c_def)
  have jl: "join_loop sep es (Suc i) = concat (map (\<lambda>e. sep @ e) es)" for sep es i
    by (induction es arbitrary: i) simp_all
  let ?r = "join_loop '' '' ws 1"
  have r: "?r = [] \<or> is_space_c (hd ?r)" by (cases ws) (simp_all add: jl sp)
  have w: "w \<noteq> []" "\<not> is_space_c (hd w)" "\<forall>c \<in> set w. \<not> is_space_c c"
    using Cons.prems by (auto simp: is_word_def list_all_iff)
  then have d: "dropWhile is_space_c (w @ ?r) = w @ ?r" by (cases w) auto
  have t: "takeWhile (\<lambda>c. \<not> is_space_c c) (w @ ?r) = w" "dropWhile (\<lambda>c. \<not> is_space_c c) (w @ ?r) = ?r"
    using takeWhile_run [of w "\<lambda>c. \<not> is_space_c c" ?r] r w(3) by auto
  have "fields_ref ?r = ws"
  proof (cases ws)
    case Nil
    then show ?thesis by (simp add: fields_ref.simps)
  next
    case (Cons v vs)
    then have "?r = CHR '' '' # str_join ws '' ''" by (simp add: jl str_join_def)
    then have "fields_ref ?r = fields_ref (str_join ws '' '')"
      using sp by (subst (1 2) fields_ref.simps) simp
    then show ?thesis using Cons.IH Cons.prems by simp
  qed
  moreover have "str_join (w # ws) '' '' = w @ ?r" by (simp add: str_join_def)
  ultimately show ?case using d t w(1) by (subst fields_ref.simps) (simp add: Let_def)
qed

subsection \<open>Properties\<close>

lemma starts_ends: "starts_with s p \<longleftrightarrow> prefix p s" "ends_with s p \<longleftrightarrow> suffix p s"
proof -
  show "starts_with s p \<longleftrightarrow> prefix p s"
    by (auto simp: starts_with_def match_at_def prefix_def) (metis append_take_drop_id)
  have "match_at s (length s - length p) p \<longleftrightarrow> drop (length s - length p) s = p" if "length p \<le> length s"
    using that by (simp add: match_at_def)
  then show "ends_with s p \<longleftrightarrow> suffix p s"
    by (auto simp: ends_with_def suffix_def not_less) (metis append_take_drop_id)
qed

lemma str_index_least:
  "str_index s p = (if sublist p s then int (LEAST i. i + length p \<le> length s \<and> match_at s i p) else - 1)"
proof (cases "find_from s p 0")
  case None
  then show ?thesis using find_from_None [of s p 0] by (auto simp: str_index_def sublist_match)
next
  case (Some i)
  then have "i + length p \<le> length s \<and> match_at s i p" "\<And>k. k < i \<Longrightarrow> \<not> match_at s k p"
    by (auto simp: find_from_Some)
  moreover from this have "(LEAST i. i + length p \<le> length s \<and> match_at s i p) = i"
    by (intro Least_equality) (auto simp: not_less [symmetric])
  ultimately show ?thesis using Some by (auto simp: str_index_def sublist_match)
qed

text \<open>Searching: \<^verbatim>\<open>contains\<close>, \<^verbatim>\<open>starts_with\<close> and \<^verbatim>\<open>ends_with\<close> are the sublist, prefix and suffix
  relations, \<^verbatim>\<open>index\<close> and \<^verbatim>\<open>last_index\<close> return the least and the greatest offset of an occurrence or
  \<open>-1\<close>, and \<^verbatim>\<open>cut\<close> takes the text apart around the first.\<close>

theorem str_search_correct:
  "(str_contains s p \<longleftrightarrow> sublist p s) \<and> (starts_with s p \<longleftrightarrow> prefix p s) \<and> (ends_with s p \<longleftrightarrow> suffix p s) \<and>
   str_index s p = (if sublist p s then int (LEAST i. i + length p \<le> length s \<and> match_at s i p) else - 1) \<and>
   last_index s p = (if sublist p s then int (GREATEST i. i + length p \<le> length s \<and> match_at s i p) else - 1) \<and>
   (case str_cut s p of
      (a, b, True) \<Rightarrow> sublist p s \<and> s = a @ p @ b \<and> str_index s p = int (length a)
    | (a, b, False) \<Rightarrow> \<not> sublist p s \<and> a = s \<and> b = [])"
proof -
  have "last_index s p = (if sublist p s then int (GREATEST i. i + length p \<le> length s \<and> match_at s i p) else - 1)"
    using last_from_spec [of s p 0 "- 1"] by (simp add: last_index_def sublist_match)
  moreover have "case str_cut s p of
      (a, b, True) \<Rightarrow> sublist p s \<and> s = a @ p @ b \<and> str_index s p = int (length a)
    | (a, b, False) \<Rightarrow> \<not> sublist p s \<and> a = s \<and> b = []"
  proof (cases "find_from s p 0")
    case None
    then show ?thesis using find_from_None [of s p 0] by (auto simp: str_cut_def sublist_match)
  next
    case (Some i)
    then have i: "i + length p \<le> length s" "match_at s i p" by (auto simp: find_from_Some)
    have "s = take i s @ drop i s" by simp
    also have "drop i s = p @ drop (i + length p) s" by (rule match_drop [OF i(2)])
    finally have "s = take i s @ p @ drop (i + length p) s" .
    then show ?thesis using Some i by (auto simp: str_cut_def str_index_def sublist_match)
  qed
  ultimately show ?thesis using contains_iff starts_ends str_index_least by simp
qed

text \<open>C35. Splitting: joining the parts of a split with its separator gives the text back, with or
  without a limit; without one there is one part more than \<^verbatim>\<open>count\<close> counts and no part contains the
  separator; with one there are at most that many parts.\<close>

theorem split_join_roundtrip:
  assumes "sep \<noteq> []"
  shows "str_join (split_str s sep limit) sep = s \<and>
    length (split_str s sep 0) = str_count s sep + 1 \<and>
    list_all (\<lambda>x. \<not> sublist sep x) (split_str s sep 0) \<and>
    (0 < limit \<longrightarrow> int (length (split_str s sep limit)) \<le> limit)"
proof (intro conjI impI)
  show "str_join (split_str s sep limit) sep = s"
    using assms join_split_loop [of 0 0 sep s limit 0 0] by (simp add: str_join_def split_str_def)
  show "length (split_str s sep 0) = str_count s sep + 1"
    using assms count_split_loop [OF assms, of s 0 0 0 0] by (simp add: split_str_def str_count_def)
  show "list_all (\<lambda>x. \<not> sublist sep x) (split_str s sep 0)"
    using assms split_loop_pieces [OF assms, of 0 0 0 s _ 0] by (simp add: split_str_def list_all_iff)
  show "0 < limit \<Longrightarrow> int (length (split_str s sep limit)) \<le> limit"
    using assms split_loop_limit [of limit 0 s sep 0 0] by (simp add: split_str_def)
qed

theorem split_join_roundtrip_witness:
  "str_join (split_str ''a, b, c'' '', '' 2) '', '' = ''a, b, c'' \<and>
   int (length (split_str ''a, b, c'' '', '' 2)) \<le> 2"
  using split_join_roundtrip [where sep = "'', ''" and s = "''a, b, c''" and limit = 2] by simp

text \<open>Replacing is splitting and joining: \<^verbatim>\<open>replace\<close> puts the new text between the parts, \<^verbatim>\<open>replace_n\<close>
  between the parts of a split into at most \<open>k + 1\<close>, and replacing the empty text changes nothing.\<close>

theorem replace_is_split_join:
  "(old \<noteq> [] \<longrightarrow> str_replace s old nw = str_join (split_str s old 0) nw) \<and>
   (old \<noteq> [] \<longrightarrow> 0 \<le> k \<longrightarrow> replace_n s old nw k = str_join (split_str s old (k + 1)) nw) \<and>
   str_replace s [] nw = s"
proof (intro conjI impI)
  show "old \<noteq> [] \<Longrightarrow> str_replace s old nw = str_join (split_str s old 0) nw"
    using replace_split_loop [of 0 0 old 0 "- 1" 0 0 nw s 0]
    by (simp add: str_replace_def str_join_def split_str_def)
  show "old \<noteq> [] \<Longrightarrow> 0 \<le> k \<Longrightarrow> replace_n s old nw k = str_join (split_str s old (k + 1)) nw"
    using replace_split_loop [of 0 0 old "k + 1" k 0 0 nw s 0]
    by (simp add: replace_n_def str_join_def split_str_def)
  have "replace_loop s [] nw (- 1) i 0 = drop i s" for i
  proof (induction "length s - i" arbitrary: i)
    case (Suc n)
    then have "drop i s = s ! i # drop (i + 1) s" by (simp add: Cons_nth_drop_Suc)
    with Suc show ?case by (subst replace_loop.simps) simp
  qed (subst replace_loop.simps, simp)
  then show "str_replace s [] nw = s" by (simp add: str_replace_def)
qed

theorem replace_is_split_join_witness:
  "str_replace ''banana'' ''an'' ''-'' = str_join (split_str ''banana'' ''an'' 0) ''-'' \<and>
   replace_n ''banana'' ''an'' ''-'' 1 = str_join (split_str ''banana'' ''an'' 2) ''-''"
  using replace_is_split_join [where old = "''an''" and s = "''banana''" and nw = "''-''" and k = 1] by simp

text \<open>Words: \<^verbatim>\<open>fields\<close> returns the maximal runs without white space, in order: each is a word,
  together they are the text without its white space, and cutting words joined by spaces gives them
  back.  Trimming drops white space at the ends only.\<close>

theorem fields_correct:
  "list_all is_word (fields_of s) \<and>
   concat (fields_of s) = filter (\<lambda>c. \<not> is_space_c c) s \<and>
   (list_all is_word ws \<longrightarrow> fields_of (str_join ws '' '') = ws) \<and>
   str_trim True True s = rev (dropWhile is_space_c (rev (dropWhile is_space_c s))) \<and>
   str_trim True False s = dropWhile is_space_c s \<and>
   str_trim False True s = rev (dropWhile is_space_c (rev s))"
  using fields_words fields_concat fields_join str_trim_spec by (simp_all add: fields_of_ref)

theorem fields_correct_witness:
  "fields_of (str_join [''ab'', ''c''] '' '') = [''ab'', ''c'']"
  using fields_correct [where ws = "[''ab'', ''c'']"] by (simp add: is_word_def is_space_c_def)

text \<open>Cutting by offsets: with lengths and counts below \<open>2\<^sup>6\<^sup>2\<close> every cut is defined, never throws,
  and clamps its offsets to the text; \<^verbatim>\<open>pad\<close> and its variants return exactly \<open>w\<close> bytes.\<close>

theorem str_cuts_correct:
  assumes "slen s < 2 ^ 62" "slen nw < 2 ^ 62" "k < 2 ^ 62" "pos < 2 ^ 61"
  shows "str_substr s pos None = Some (drop (nat pos) s) \<and>
    str_substr s pos (Some k) = Some (take (nat k) (drop (nat pos) s)) \<and>
    str_left s k = Some (take (nat k) s) \<and>
    str_right s k = Some (drop (length s - nat k) s) \<and>
    str_insert s nw pos = take (nat pos) s @ nw @ drop (nat pos) s \<and>
    (0 \<le> k \<longrightarrow> str_delstr s pos k = Some (take (nat pos) s @ drop (nat pos + nat k) s)) \<and>
    str_overlay s nw pos =
      Some (take (nat pos) (s @ replicate (nat pos - length s) CHR '' '') @ nw @ drop (nat pos + length nw) s) \<and>
    (0 \<le> k \<longrightarrow> (\<exists>r. str_pad side s k = Some r \<and> length r = nat k))"
proof (intro conjI impI)
  show "str_substr s pos None = Some (drop (nat pos) s)"
    by (auto simp: str_substr_def vl_str_n_def Let_def)
  show "str_substr s pos (Some k) = Some (take (nat k) (drop (nat pos) s))"
    using assms by (auto simp: str_substr_def vl_str_n_def Let_def i64_def)
  show "str_left s k = Some (take (nat k) s)"
    by (auto simp: str_left_def vl_str_n_def Let_def)
  show "str_right s k = Some (drop (length s - nat k) s)"
    by (auto simp: str_right_def vl_str_n_def Let_def nat_diff_distrib)
  show "str_insert s nw pos = take (nat pos) s @ nw @ drop (nat pos) s"
    by (auto simp: str_insert_def Let_def)
  show "str_delstr s pos k = Some (take (nat pos) s @ drop (nat pos + nat k) s)" if "0 \<le> k"
    using assms that by (auto simp: str_delstr_def Let_def i64_def nat_add_distrib not_less)
  show "str_overlay s nw pos =
      Some (take (nat pos) (s @ replicate (nat pos - length s) CHR '' '') @ nw @ drop (nat pos + length nw) s)"
  proof -
    define n where "n = nat (max pos 0)"
    define total where "total = max (max (length s) n) (n + length nw)"
    have n: "n = nat pos" "(if pos < 0 then 0 else pos) = int n" by (auto simp: n_def)
    have ov: "i64 (int n + slen nw)" using assms n by (auto simp: i64_def)
    have t: "nat (let base = (if int n < slen s then slen s else int n)
        in if int n + slen nw < base then base else int n + slen nw) = total"
      by (auto simp: total_def max_def Let_def)
    have m1: "memcpy_at (replicate total CHR '' '') 0 s = Some (s @ replicate (total - length s) CHR '' '')"
      by (simp add: memcpy_at_def total_def)
    have m2: "memcpy_at (s @ replicate (total - length s) CHR '' '') (int n) nw =
        Some (take n (s @ replicate (total - length s) CHR '' '') @ nw @
          drop (n + length nw) (s @ replicate (total - length s) CHR '' ''))"
      by (simp add: memcpy_at_def total_def)
    have e1: "take n (s @ replicate (total - length s) CHR '' '') = take n (s @ replicate (n - length s) CHR '' '')"
      by (simp add: total_def min_def)
    have e2: "drop (n + length nw) (s @ replicate (total - length s) CHR '' '') = drop (n + length nw) s"
      by (simp add: total_def) arith
    show ?thesis
      using ov t m1 m2 unfolding str_overlay_def Let_def n(2) n(1) [symmetric] e1 e2 by simp
  qed
  show "\<exists>r. str_pad side s k = Some r \<and> length r = nat k" if "0 \<le> k"
    using that by (cases side) (auto simp: str_pad_def vl_str_n_def Let_def)
qed

theorem str_cuts_correct_witness:
  "str_substr ''hello'' 1 (Some 3) = Some ''ell'' \<and> str_overlay ''abc'' ''XY'' 4 = Some ''abc XY'' \<and>
   str_delstr ''abcd'' 1 2 = Some ''ad'' \<and> (\<exists>r. str_pad Pad_center ''ab'' 5 = Some r \<and> length r = 5)"
  using str_cuts_correct [of "''hello''" "[]" 3 1] str_cuts_correct [of "''abc''" "''XY''" 0 4]
    str_cuts_correct [of "''abcd''" "[]" 2 1] str_cuts_correct [of "''ab''" "[]" 5 0 Pad_center]
  by (simp add: eval_nat_numeral)

text \<open>Outside those bounds three operations leave defined behaviour: a negative width makes \<^verbatim>\<open>pad\<close>
  ask for a text of negative length, a negative count makes \<^verbatim>\<open>delstr\<close> copy bytes twice or past its
  buffer, and a count near the largest \<^verbatim>\<open>int\<close> overflows in \<^verbatim>\<open>substr\<close>.\<close>

theorem str_cuts_undefined:
  "str_pad Pad_right ''abc'' (- 1) = None \<and> str_delstr ''abc'' 2 (- 2) = None \<and>
   str_delstr ''abc'' 1 (- 1) = Some ''aabc'' \<and> str_substr ''abc'' 1 (Some (2 ^ 63 - 1)) = None \<and>
   subword_delword True ''a b'' 2 (Some (2 ^ 63 - 1)) = None"
proof -
  have f: "fields_of ''a b'' = [''a'', ''b'']"
    using fields_join [of "[''a'', ''b'']"]
    by (simp add: fields_of_ref is_word_def is_space_c_def str_join_def)
  show ?thesis
    by (simp add: str_pad_def vl_str_n_def str_delstr_def str_substr_def subword_delword_def i64_def f)
qed

lemma from_bytes_loop_ok:
  "list_all (\<lambda>v. 0 \<le> v \<and> v \<le> 255) vs \<Longrightarrow>
    from_bytes_loop vs i b = Inr (b @ map (\<lambda>v. char_of (nat v)) vs)"
  by (induction vs arbitrary: i b) auto

lemma from_bytes_loop_bad:
  "from_bytes_loop vs i b = Inr t \<Longrightarrow> list_all (\<lambda>v. 0 \<le> v \<and> v \<le> 255) vs"
  by (induction vs arbitrary: i b) (auto split: if_splits)

text \<open>\<^verbatim>\<open>from_bytes\<close> inverts \<^verbatim>\<open>bytes\<close>, accepts exactly the lists of bytes, and \<^verbatim>\<open>bytes\<close> gives back
  what it accepted.\<close>

theorem bytes_roundtrip:
  "from_bytes_checked (str_bytes s) = Inr s \<and>
   ((\<exists>t. from_bytes_checked vs = Inr t) \<longleftrightarrow> list_all (\<lambda>v. 0 \<le> v \<and> v \<le> 255) vs) \<and>
   (case from_bytes_checked vs of Inl e \<Rightarrow> True | Inr t \<Rightarrow> str_bytes t = vs)"
proof -
  have "list_all (\<lambda>v. 0 \<le> v \<and> v \<le> 255) (str_bytes s)"
    by (auto simp: str_bytes_def list_all_iff less_Suc_eq_le [symmetric])
  then have "from_bytes_checked (str_bytes s) = Inr s"
    by (simp add: from_bytes_checked_def from_bytes_loop_ok str_bytes_def comp_def)
  moreover have "map (\<lambda>c. int (byte c)) (map (\<lambda>v. char_of (nat v)) vs) = vs"
    if "list_all (\<lambda>v. 0 \<le> v \<and> v \<le> 255) vs"
    using that by (induction vs) auto
  ultimately show ?thesis
    using from_bytes_loop_ok [of vs 0 "[]"] from_bytes_loop_bad [of vs 0 "[]"]
    by (cases "list_all (\<lambda>v. 0 \<le> v \<and> v \<le> 255) vs")
      (auto simp: from_bytes_checked_def str_bytes_def split: sum.split)
qed

end
