(* ===== verification/Enc.thy ===== *)
theory Enc
  imports Str
begin

section \<open>Text encodings (str.c: hex, unhex, b64, unb64)\<close>

text \<open>
  Base 16 and base 64.  The encoders index an alphabet; the decoders accumulate bits in a
  \<^verbatim>\<open>uint32_t\<close> (here a natural number reduced modulo \<open>2\<^sup>3\<^sup>2\<close> at each shift).  Both decoders
  invert their encoder on every byte string.
\<close>

subsection \<open>Hexadecimal\<close>

definition hex_chars :: string where
  "hex_chars = ''0123456789abcdef''"

fun hex_enc :: "string \<Rightarrow> string" where
  "hex_enc [] = []"
| "hex_enc (c # s) = hex_chars ! drop_bit 4 (byte c) # hex_chars ! (byte c AND 15) # hex_enc s"

text \<open>A \<^verbatim>\<open>char\<close> is signed: bytes from 128 are negative, which no \<^verbatim>\<open>ctype\<close> class contains.\<close>

definition schar :: "char \<Rightarrow> int" where
  "schar c = (if byte c < 128 then int (byte c) else int (byte c) - 256)"

definition unhex_digit :: "char \<Rightarrow> int" where
  "unhex_digit c =
     (let v = schar c
      in if 48 \<le> v \<and> v \<le> 57 then v - 48
         else (if 65 \<le> v \<and> v \<le> 90 then v + 32 else v) - 97 + 10)"

fun unhex_loop :: "string \<Rightarrow> string" where
  "unhex_loop (a # b # s) =
     char_of (nat ((push_bit 4 (unhex_digit a) OR unhex_digit b) mod 256)) # unhex_loop s"
| "unhex_loop _ = []"

definition str_unhex :: "string \<Rightarrow> string + string" where
  "str_unhex s = (if length s mod 2 \<noteq> 0 then Inl ''bad hex'' else Inr (unhex_loop s))"

lemma nibble_digit: "n < 16 \<Longrightarrow> unhex_digit (hex_chars ! n) = int n"
proof -
  have "list_all (\<lambda>n. unhex_digit (hex_chars ! n) = int n) [0..<16]"
    by (simp add: upt_rec hex_chars_def unhex_digit_def schar_def Let_def)
  then show "n < 16 \<Longrightarrow> unhex_digit (hex_chars ! n) = int n" by (simp add: list_all_iff)
qed

lemma or_low_int:
  "x < 2 ^ k \<Longrightarrow> push_bit k (int a) OR int x = int (a * 2 ^ k + x)"
  using or_low [of x k "push_bit k a"]
  by (metis dvd_triv_right of_nat_or_eq of_nat_push_bit push_bit_eq_mult)

lemma unhex_hex: "unhex_loop (hex_enc s) = s"
proof (induction s)
  case (Cons c s)
  have d: "drop_bit 4 (byte c) = byte c div 16" "byte c AND 15 = byte c mod 16"
    by (simp_all add: drop_bit_eq_div and_masks)
  have l: "byte c div 16 < 16" by (simp add: less_mult_imp_div_less)
  have "push_bit 4 (int (byte c div 16)) OR int (byte c mod 16) = int (byte c)"
    using or_low_int [of "byte c mod 16" 4 "byte c div 16"] by simp
  moreover have "int (byte c) mod 256 = int (byte c)" by (simp add: zmod_int [symmetric])
  ultimately show ?case using Cons by (simp add: d nibble_digit l)
qed simp

lemma hex_enc_length: "length (hex_enc s) = 2 * length s"
  by (induction s) auto

subsection \<open>Base 64\<close>

definition b64_chars :: string where
  "b64_chars = ''ABCDEFGHIJKLMNOPQRSTUVWXYZabcdefghijklmnopqrstuvwxyz0123456789+/''"

text \<open>One round of the loop takes up to three bytes.\<close>

fun b64_enc :: "string \<Rightarrow> string" where
  "b64_enc [] = []"
| "b64_enc (a # s) =
     (let v0 = push_bit 16 (byte a);
          v1 = (if 0 < length s then v0 OR push_bit 8 (byte (s ! 0)) else v0);
          v = (if 1 < length s then v1 OR byte (s ! 1) else v1)
      in [b64_chars ! (drop_bit 18 v AND 63), b64_chars ! (drop_bit 12 v AND 63),
          if 0 < length s then b64_chars ! (drop_bit 6 v AND 63) else CHR ''='',
          if 1 < length s then b64_chars ! (v AND 63) else CHR ''='']
         @ b64_enc (drop 2 s))"

definition b64_val :: "char \<Rightarrow> nat option" where
  "b64_val c =
     (let b = byte c
      in if 65 \<le> b \<and> b \<le> 90 then Some (b - 65)
         else if 97 \<le> b \<and> b \<le> 122 then Some (b - 97 + 26)
         else if 48 \<le> b \<and> b \<le> 57 then Some (b - 48 + 52)
         else if c = CHR ''+'' then Some 62
         else if c = CHR ''/'' then Some 63
         else None)"

fun unb64_loop :: "string \<Rightarrow> nat \<Rightarrow> nat \<Rightarrow> string" where
  "unb64_loop [] acc bits = []"
| "unb64_loop (c # s) acc bits =
     (case b64_val c of
        None \<Rightarrow> unb64_loop s acc bits
      | Some v \<Rightarrow>
          let acc = (push_bit 6 acc mod 2 ^ 32) OR v; bits = bits + 6
          in if 8 \<le> bits then
               char_of (drop_bit (bits - 8) acc AND 0xFF) # unb64_loop s acc (bits - 8)
             else unb64_loop s acc bits)"

definition str_unb64 :: "string \<Rightarrow> string" where
  "str_unb64 s = unb64_loop s 0 0"

lemma b64_val_chars: "v < 64 \<Longrightarrow> b64_val (b64_chars ! v) = Some v"
proof -
  have "list_all (\<lambda>v. b64_val (b64_chars ! v) = Some v) [0..<64]"
    by (simp add: upt_rec b64_chars_def b64_val_def Let_def)
  then show "v < 64 \<Longrightarrow> b64_val (b64_chars ! v) = Some v" by (simp add: list_all_iff)
qed

lemma b64_val_pad: "b64_val CHR ''='' = None"
  by (simp add: b64_val_def)

lemma and_mask_nat: "(n::nat) AND 0xFF = n mod 256"
proof -
  have "mask 8 = (0xFF::nat)" by (simp add: mask_eq_exp_minus_1)
  then show ?thesis using take_bit_eq_mask [of 8 n] take_bit_eq_mod [of 8 n] by simp
qed

text \<open>With \<open>j\<close> bits pending the accumulator is \<open>q * 2\<^sup>j + w\<close> where \<open>w\<close> is what the decoder still
  has to use; the high part does not matter.\<close>

lemma acc_step:
  fixes q w v :: nat
  assumes "v < 64" "j \<le> 26" "w < 2 ^ j"
  obtains q' where "(push_bit 6 (q * 2 ^ j + w) mod 2 ^ 32) OR v = q' * 2 ^ (j + 6) + (w * 64 + v)"
proof -
  let ?acc = "q * 2 ^ j + w"
  have "push_bit 6 ?acc mod 2 ^ 32 = (?acc mod 2 ^ 26) * 2 ^ 6"
    using mod_mult_mult2 [of ?acc "2 ^ 6" "2 ^ 26"] by (simp add: push_bit_eq_mult)
  then have e: "(push_bit 6 ?acc mod 2 ^ 32) OR v = (?acc mod 2 ^ 26) * 64 + v"
    using or_low [of v 6 "(?acc mod 2 ^ 26) * 2 ^ 6"] assms(1) by simp
  have "?acc mod 2 ^ 26 = (q mod 2 ^ (26 - j)) * 2 ^ j + w"
  proof -
    have p: "2 ^ 26 = 2 ^ j * (2 ^ (26 - j) :: nat)" using assms(2) by (simp flip: power_add)
    have "?acc mod (2 ^ j * 2 ^ (26 - j)) = 2 ^ j * (?acc div 2 ^ j mod 2 ^ (26 - j)) + ?acc mod 2 ^ j"
      by (rule mod_mult2_eq)
    then show ?thesis unfolding p using assms(3) by (simp add: mult.commute)
  qed
  then have "(push_bit 6 ?acc mod 2 ^ 32) OR v = (q mod 2 ^ (26 - j)) * 2 ^ (j + 6) + (w * 64 + v)"
    using e by (simp add: power_add algebra_simps)
  then show ?thesis using that by blast
qed

lemma unb64_wait:
  assumes "v < 64" "w < 2 ^ j" "j < 2"
  shows "\<exists>q'. unb64_loop (b64_chars ! v # s) (q * 2 ^ j + w) j = unb64_loop s (q' * 2 ^ (j + 6) + (w * 64 + v)) (j + 6)"
proof -
  obtain q' where "(push_bit 6 (q * 2 ^ j + w) mod 2 ^ 32) OR v = q' * 2 ^ (j + 6) + (w * 64 + v)"
    using acc_step [of v j w q] assms by auto
  then show ?thesis using assms by (intro exI [of _ q']) (simp add: b64_val_chars Let_def)
qed

lemma unb64_emit:
  assumes "v < 64" "w < 2 ^ j" "2 \<le> j" "j \<le> 6"
  shows "\<exists>q'. unb64_loop (b64_chars ! v # s) (q * 2 ^ j + w) j =
    char_of ((w * 64 + v) div 2 ^ (j - 2)) # unb64_loop s (q' * 2 ^ (j - 2) + (w * 64 + v) mod 2 ^ (j - 2)) (j - 2)"
proof -
  let ?t = "w * 64 + v" and ?m = "2 ^ (j - 2) :: nat"
  obtain q' where q': "(push_bit 6 (q * 2 ^ j + w) mod 2 ^ 32) OR v = q' * 2 ^ (j + 6) + ?t"
    using acc_step [of v j w q] assms by auto
  obtain i where i: "j = 2 + i" using assms(3) le_Suc_ex by blast
  have m: "2 ^ (j + 6) = 256 * ?m" "2 ^ j = 4 * ?m" by (simp_all add: i power_add)
  have "?t < 2 ^ j * 64" using assms(1,2) by simp
  then have "?t div ?m < 256" unfolding m by (intro less_mult_imp_div_less) simp
  moreover have "(q' * (256 * ?m) + ?t) div ?m = q' * 256 + ?t div ?m"
    by (simp add: mult.assoc [symmetric])
  ultimately have o: "drop_bit (j - 2) (q' * 2 ^ (j + 6) + ?t) AND 0xFF = ?t div ?m"
    using and_mask_nat [of "q' * 256 + ?t div ?m"] unfolding drop_bit_eq_div m by simp
  have "q' * 2 ^ (j + 6) + ?t = (q' * 256 + ?t div ?m) * ?m + ?t mod ?m"
    unfolding m by (simp add: algebra_simps)
  then show ?thesis using assms q' o
    by (intro exI [of _ "q' * 256 + ?t div ?m"]) (simp add: b64_val_chars Let_def)
qed

subsection \<open>Groups\<close>

lemma unb64_pad: "unb64_loop (CHR ''='' # s) acc bits = unb64_loop s acc bits"
  by (simp add: b64_val_pad)

declare unb64_loop.simps(2) [simp del]

lemma group_parts:
  fixes x y z :: nat
  assumes "x < 256" "y < 256" "z < 256"
  shows "(push_bit 16 x OR push_bit 8 y) OR z = x * 65536 + y * 256 + z"
    and "push_bit 16 x OR push_bit 8 y = x * 65536 + y * 256"
  using assms or_low [of z 8 "x * 65536 + y * 256"] or_low [of "y * 256" 16 "x * 65536"]
  by (simp_all add: push_bit_eq_mult)

lemma group_digits:
  fixes x y z :: nat
  assumes "x < 256" "y < 256" "z < 256" and v: "v = x * 65536 + y * 256 + z"
  shows "drop_bit 18 v AND 63 = x div 4" "drop_bit 12 v AND 63 = x mod 4 * 16 + y div 16"
    "drop_bit 6 v AND 63 = y mod 16 * 4 + z div 64" "v AND 63 = z mod 64"
proof -
  define x1 x2 y1 y2 z1 z2 where "x1 = x div 4" and "x2 = x mod 4" and "y1 = y div 16"
    and "y2 = y mod 16" and "z1 = z div 64" and "z2 = z mod 64"
  have parts: "x = x1 * 4 + x2" "y = y1 * 16 + y2" "z = z1 * 64 + z2"
    by (simp_all add: x1_def x2_def y1_def y2_def z1_def z2_def)
  have b: "x1 < 64" "x2 < 4" "y1 < 16" "y2 < 16" "z1 < 4" "z2 < 64"
    using assms by (simp_all add: x1_def x2_def y1_def y2_def z1_def z2_def less_mult_imp_div_less)
  define a c d where "a = x1" and "c = x2 * 16 + y1" and "d = y2 * 4 + z1"
  have acd: "a < 64" "c < 64" "d < 64" using b by (simp_all add: a_def c_def d_def)
  have veq: "v = ((a * 64 + c) * 64 + d) * 64 + z2" by (simp add: v parts a_def c_def d_def)
  have "v div 64 = (a * 64 + c) * 64 + d" "v mod 64 = z2" unfolding veq by (rule divmod_add [OF b(6)])+
  moreover from this have "v div 4096 = a * 64 + c" "v div 64 mod 64 = d"
    using divmod_add [OF acd(3), of "a * 64 + c"] div_mult2_eq [of v 64 64] by simp_all
  moreover from this have "v div 262144 = a" "v div 4096 mod 64 = c"
    using divmod_add [OF acd(2), of a] div_mult2_eq [of v 4096 64] by simp_all
  ultimately have "drop_bit 18 v AND 63 = a" "drop_bit 12 v AND 63 = c" "drop_bit 6 v AND 63 = d" "v AND 63 = z2"
    using acd by (simp_all only: drop_bit_eq_div and_masks) simp_all
  then show "drop_bit 18 v AND 63 = x div 4" "drop_bit 12 v AND 63 = x mod 4 * 16 + y div 16"
    "drop_bit 6 v AND 63 = y mod 16 * 4 + z div 64" "v AND 63 = z mod 64"
    by (simp_all only: a_def c_def d_def x1_def x2_def y1_def y2_def z1_def z2_def)
qed

lemma decode_two:
  fixes x y :: nat
  assumes "x < 256" "y < 256"
  shows "\<exists>q. unb64_loop (b64_chars ! (x div 4) # b64_chars ! (x mod 4 * 16 + y div 16) # s) acc 0 =
    char_of x # unb64_loop s (q * 2 ^ 4 + y div 16) 4"
proof -
  have b: "x div 4 < 64" "y div 16 < 16"
    using assms by (simp_all add: less_mult_imp_div_less)
  have l: "x mod 4 * 16 + y div 16 < 64"
    using b(2) mod_less_divisor [of 4 x] by linarith
  obtain q1 where q1: "unb64_loop (b64_chars ! (x div 4) # b64_chars ! (x mod 4 * 16 + y div 16) # s) acc 0 =
      unb64_loop (b64_chars ! (x mod 4 * 16 + y div 16) # s) (q1 * 2 ^ 6 + x div 4) 6"
    using unb64_wait [OF b(1), of 0 0 _ acc] by auto
  obtain q2 where q2: "unb64_loop (b64_chars ! (x mod 4 * 16 + y div 16) # s) (q1 * 2 ^ 6 + x div 4) 6 =
      char_of ((x div 4 * 64 + (x mod 4 * 16 + y div 16)) div 2 ^ 4) #
        unb64_loop s (q2 * 2 ^ 4 + (x div 4 * 64 + (x mod 4 * 16 + y div 16)) mod 2 ^ 4) 4"
    using unb64_emit [OF l, of "x div 4" 6 s q1] b(1) by auto
  have e: "x div 4 * 64 + (x mod 4 * 16 + y div 16) = x * 16 + y div 16"
    using div_mult_mod_eq [of x 4] by linarith
  have "(x * 16 + y div 16) div 2 ^ 4 = x" "(x * 16 + y div 16) mod 2 ^ 4 = y div 16"
    using divmod_add [OF b(2), of x] by simp_all
  with q1 q2 [unfolded e] show ?thesis by auto
qed

lemma decode_third:
  fixes y z :: nat
  assumes "y < 256" "z < 256"
  shows "\<exists>q. unb64_loop (b64_chars ! (y mod 16 * 4 + z div 64) # s) (q0 * 2 ^ 4 + y div 16) 4 =
    char_of y # unb64_loop s (q * 2 ^ 2 + z div 64) 2"
proof -
  have b: "y div 16 < 2 ^ 4" "z div 64 < 4" using assms by (simp_all add: less_mult_imp_div_less)
  have l: "y mod 16 * 4 + z div 64 < 64" using b(2) mod_less_divisor [of 16 y] by linarith
  obtain q where q: "unb64_loop (b64_chars ! (y mod 16 * 4 + z div 64) # s) (q0 * 2 ^ 4 + y div 16) 4 =
      char_of ((y div 16 * 64 + (y mod 16 * 4 + z div 64)) div 2 ^ 2) #
        unb64_loop s (q * 2 ^ 2 + (y div 16 * 64 + (y mod 16 * 4 + z div 64)) mod 2 ^ 2) 2"
    using unb64_emit [OF l b(1), of s q0] by auto
  have e: "y div 16 * 64 + (y mod 16 * 4 + z div 64) = y * 4 + z div 64"
    using div_mult_mod_eq [of y 16] by linarith
  have "(y * 4 + z div 64) div 2 ^ 2 = y" "(y * 4 + z div 64) mod 2 ^ 2 = z div 64"
    using divmod_add [OF b(2), of y] by simp_all
  with q [unfolded e] show ?thesis by auto
qed

lemma decode_last:
  fixes z :: nat
  assumes "z < 256"
  shows "\<exists>q. unb64_loop (b64_chars ! (z mod 64) # s) (q0 * 2 ^ 2 + z div 64) 2 = char_of z # unb64_loop s q 0"
proof -
  have b: "z div 64 < 2 ^ 2" using assms by (simp add: less_mult_imp_div_less)
  obtain q where "unb64_loop (b64_chars ! (z mod 64) # s) (q0 * 2 ^ 2 + z div 64) 2 =
      char_of ((z div 64 * 64 + z mod 64) div 2 ^ 0) #
        unb64_loop s (q * 2 ^ 0 + (z div 64 * 64 + z mod 64) mod 2 ^ 0) 0"
    using unb64_emit [OF _ b, of "z mod 64" s q0] by auto
  then show ?thesis by auto
qed

lemma unb64_b64: "unb64_loop (b64_enc s) acc 0 = s"
proof (induction s arbitrary: acc rule: b64_enc.induct)
  case 1
  show ?case by simp
next
  case (2 a s)
  consider (one) "s = []" | (two) b where "s = [b]" | (three) b c t where "s = b # c # t"
    by (metis list.exhaust)
  then show ?case
  proof cases
    case one
    have "b64_enc (a # s) = [b64_chars ! (byte a div 4), b64_chars ! (byte a mod 4 * 16 + 0 div 16), CHR ''='', CHR ''='']"
      using group_digits [of "byte a" 0 0] by (simp add: one push_bit_eq_mult Let_def)
    then show ?thesis
      using decode_two [of "byte a" 0 "[CHR ''='', CHR ''='']" acc] by (auto simp: one unb64_pad)
  next
    case (two b)
    have "b64_enc (a # s) = [b64_chars ! (byte a div 4), b64_chars ! (byte a mod 4 * 16 + byte b div 16),
        b64_chars ! (byte b mod 16 * 4 + 0 div 64), CHR ''='']"
    proof -
      let ?v = "push_bit 16 (byte a) OR push_bit 8 (byte b)"
      have "b64_enc (a # s) = [b64_chars ! (drop_bit 18 ?v AND 63), b64_chars ! (drop_bit 12 ?v AND 63),
          b64_chars ! (drop_bit 6 ?v AND 63), CHR ''='']"
        by (simp add: two Let_def)
      then show ?thesis
        using group_digits [of "byte a" "byte b" 0] group_parts(2) [of "byte a" "byte b" 0] by simp
    qed
    moreover obtain q where "unb64_loop (b64_chars ! (byte a div 4) # b64_chars ! (byte a mod 4 * 16 + byte b div 16)
        # [b64_chars ! (byte b mod 16 * 4 + 0 div 64), CHR ''='']) acc 0 =
      char_of (byte a) # unb64_loop [b64_chars ! (byte b mod 16 * 4 + 0 div 64), CHR ''=''] (q * 2 ^ 4 + byte b div 16) 4"
      using decode_two [of "byte a" "byte b"] byte_less by blast
    moreover obtain q' where "unb64_loop (b64_chars ! (byte b mod 16 * 4 + 0 div 64) # [CHR ''='']) (q * 2 ^ 4 + byte b div 16) 4 =
      char_of (byte b) # unb64_loop [CHR ''=''] (q' * 2 ^ 2 + 0 div 64) 2"
      using decode_third [of "byte b" 0] by auto
    ultimately show ?thesis by (simp only: two unb64_pad unb64_loop.simps(1) char_of_char append_Nil)
  next
    case (three b c t)
    have e: "b64_enc (a # s) = b64_chars ! (byte a div 4) # b64_chars ! (byte a mod 4 * 16 + byte b div 16) #
        b64_chars ! (byte b mod 16 * 4 + byte c div 64) # b64_chars ! (byte c mod 64) # b64_enc t"
    proof -
      let ?v = "(push_bit 16 (byte a) OR push_bit 8 (byte b)) OR byte c"
      have "b64_enc (a # s) = b64_chars ! (drop_bit 18 ?v AND 63) # b64_chars ! (drop_bit 12 ?v AND 63) #
          b64_chars ! (drop_bit 6 ?v AND 63) # b64_chars ! (?v AND 63) # b64_enc t"
        by (simp add: three Let_def)
      then show ?thesis
        using group_digits [of "byte a" "byte b" "byte c" ?v] group_parts(1) [of "byte a" "byte b" "byte c"]
        by simp
    qed
    obtain q where q: "unb64_loop (b64_enc (a # s)) acc 0 = char_of (byte a) #
        unb64_loop (b64_chars ! (byte b mod 16 * 4 + byte c div 64) # b64_chars ! (byte c mod 64) # b64_enc t)
          (q * 2 ^ 4 + byte b div 16) 4"
      using decode_two [of "byte a" "byte b"] byte_less unfolding e by blast
    obtain q' where q': "unb64_loop (b64_chars ! (byte b mod 16 * 4 + byte c div 64) # b64_chars ! (byte c mod 64) # b64_enc t)
        (q * 2 ^ 4 + byte b div 16) 4 =
      char_of (byte b) # unb64_loop (b64_chars ! (byte c mod 64) # b64_enc t) (q' * 2 ^ 2 + byte c div 64) 2"
      using decode_third [of "byte b" "byte c"] byte_less by blast
    obtain q'' where "unb64_loop (b64_chars ! (byte c mod 64) # b64_enc t) (q' * 2 ^ 2 + byte c div 64) 2 =
      char_of (byte c) # unb64_loop (b64_enc t) q'' 0"
      using decode_last [of "byte c"] byte_less by blast
    moreover have "unb64_loop (b64_enc t) q'' 0 = t"
      using 2 [of _ _ _ q''] by (simp add: three)
    ultimately show ?thesis using q q' by (simp only: three char_of_char)
  qed
qed

subsection \<open>Properties\<close>

text \<open>C36. Both decoders invert their encoder on every byte string, and the encodings have the lengths
  the code allocates.\<close>

theorem encodings_roundtrip:
  "str_unhex (hex_enc s) = Inr s \<and> str_unb64 (b64_enc s) = s \<and>
   length (hex_enc s) = length s * 2 \<and> length (b64_enc s) = (length s + 2) div 3 * 4"
proof -
  have "length (b64_enc s) = (length s + 2) div 3 * 4"
  proof (induction s rule: b64_enc.induct)
    case (2 a s)
    have "(length s - 2 + 2) div 3 + 1 = (length (a # s) + 2) div 3"
      by (cases s; cases "tl s") auto
    with 2 show ?case by (simp add: Let_def)
  qed simp
  then show ?thesis by (simp add: str_unhex_def hex_enc_length unhex_hex str_unb64_def unb64_b64)
qed

text \<open>\<^verbatim>\<open>unhex\<close> reports an odd length only: any pair of bytes, hexadecimal or not, decodes to some byte.\<close>

lemma unhex_accepts:
  "(\<exists>t. str_unhex s = Inr t) \<longleftrightarrow> even (length s)" "str_unhex ''zz'' = Inr ''3''"
  using char_of_byte_eq [of "CHR ''3''" 51]
  by (auto simp: str_unhex_def even_iff_mod_2_eq_zero unhex_digit_def schar_def Let_def)

end
