(* ===== verification/CryptoBlocks.thy ===== *)
theory CryptoBlocks
  imports Enc
begin

section \<open>Compression functions (crypto.c: rotl32 .. sha512\_block)\<close>

text \<open>
  The four block functions of \<^verbatim>\<open>crypto.c\<close> on machine words: a \<^verbatim>\<open>uint32_t\<close> is a \<^typ>\<open>32 word\<close>, a
  \<^verbatim>\<open>uint8_t\<close> an \<^typ>\<open>8 word\<close>, and \<open>+\<close> wraps as in C.  A pointer to a block is the list of its
  bytes.  A loop over the round number is a \<^const>\<open>fold\<close> over the same numbers, its variables a
  tuple.
\<close>

unbundle bit_operations_syntax

subsection \<open>Words and bytes\<close>

type_synonym octet = "8 word"

definition rotl32 :: "32 word \<Rightarrow> nat \<Rightarrow> 32 word" where
  "rotl32 x k = (push_bit k x OR drop_bit (32 - k) x)"

definition rotr32 :: "32 word \<Rightarrow> nat \<Rightarrow> 32 word" where
  "rotr32 x k = (drop_bit k x OR push_bit (32 - k) x)"

definition rotr64 :: "64 word \<Rightarrow> nat \<Rightarrow> 64 word" where
  "rotr64 x k = (drop_bit k x OR push_bit (64 - k) x)"

text \<open>\<^verbatim>\<open>rd_be32(p + i)\<close> and the other readers take the block and the offset.\<close>

definition rd_be32 :: "octet list \<Rightarrow> nat \<Rightarrow> 32 word" where
  "rd_be32 p i = push_bit 24 (ucast (p ! i)) OR push_bit 16 (ucast (p ! (i + 1)))
     OR push_bit 8 (ucast (p ! (i + 2))) OR ucast (p ! (i + 3))"

definition rd_le32 :: "octet list \<Rightarrow> nat \<Rightarrow> 32 word" where
  "rd_le32 p i = push_bit 24 (ucast (p ! (i + 3))) OR push_bit 16 (ucast (p ! (i + 2)))
     OR push_bit 8 (ucast (p ! (i + 1))) OR ucast (p ! i)"

definition rd_be64 :: "octet list \<Rightarrow> nat \<Rightarrow> 64 word" where
  "rd_be64 p i = push_bit 32 (ucast (rd_be32 p i)) OR ucast (rd_be32 p (i + 4))"

definition wr_be32 :: "32 word \<Rightarrow> octet list" where
  "wr_be32 v = [ucast (drop_bit 24 v), ucast (drop_bit 16 v), ucast (drop_bit 8 v), ucast v]"

definition wr_le32 :: "32 word \<Rightarrow> octet list" where
  "wr_le32 v = [ucast v, ucast (drop_bit 8 v), ucast (drop_bit 16 v), ucast (drop_bit 24 v)]"

definition wr_be64 :: "64 word \<Rightarrow> octet list" where
  "wr_be64 v = wr_be32 (ucast (drop_bit 32 v)) @ wr_be32 (ucast v)"

subsection \<open>MD5\<close>

definition MD5_K :: "32 word list" where
  "MD5_K =
   [0xD76AA478, 0xE8C7B756, 0x242070DB, 0xC1BDCEEE, 0xF57C0FAF, 0x4787C62A, 0xA8304613,
    0xFD469501, 0x698098D8, 0x8B44F7AF, 0xFFFF5BB1, 0x895CD7BE, 0x6B901122, 0xFD987193,
    0xA679438E, 0x49B40821, 0xF61E2562, 0xC040B340, 0x265E5A51, 0xE9B6C7AA, 0xD62F105D,
    0x02441453, 0xD8A1E681, 0xE7D3FBC8, 0x21E1CDE6, 0xC33707D6, 0xF4D50D87, 0x455A14ED,
    0xA9E3E905, 0xFCEFA3F8, 0x676F02D9, 0x8D2A4C8A, 0xFFFA3942, 0x8771F681, 0x6D9D6122,
    0xFDE5380C, 0xA4BEEA44, 0x4BDECFA9, 0xF6BB4B60, 0xBEBFBC70, 0x289B7EC6, 0xEAA127FA,
    0xD4EF3085, 0x04881D05, 0xD9D4D039, 0xE6DB99E5, 0x1FA27CF8, 0xC4AC5665, 0xF4292244,
    0x432AFF97, 0xAB9423A7, 0xFC93A039, 0x655B59C3, 0x8F0CCC92, 0xFFEFF47D, 0x85845DD1,
    0x6FA87E4F, 0xFE2CE6E0, 0xA3014314, 0x4E0811A1, 0xF7537E82, 0xBD3AF235, 0x2AD7D2BB,
    0xEB86D391]"

definition MD5_S :: "nat list" where
  "MD5_S =
   [7, 12, 17, 22, 7, 12, 17, 22, 7, 12, 17, 22, 7, 12, 17, 22, 5, 9, 14, 20, 5, 9, 14, 20, 5,
    9, 14, 20, 5, 9, 14, 20, 4, 11, 16, 23, 4, 11, 16, 23, 4, 11, 16, 23, 4, 11, 16, 23, 6, 10,
    15, 21, 6, 10, 15, 21, 6, 10, 15, 21, 6, 10, 15, 21]"

type_synonym quad = "32 word \<times> 32 word \<times> 32 word \<times> 32 word"

definition md5_round :: "32 word list \<Rightarrow> nat \<Rightarrow> quad \<Rightarrow> quad" where
  "md5_round m i = (\<lambda>(a, b, c, d).
     let (f, g) =
           (if i < 16 then ((b AND c) OR (NOT b AND d), i)
            else if i < 32 then ((d AND b) OR (NOT d AND c), (5 * i + 1) mod 16)
            else if i < 48 then (b XOR c XOR d, (3 * i + 5) mod 16)
            else (c XOR (b OR NOT d), (7 * i) mod 16));
         f = f + a + MD5_K ! i + m ! g
     in (d, b + rotl32 f (MD5_S ! i), b, c))"

definition md5_block :: "32 word list \<Rightarrow> octet list \<Rightarrow> 32 word list" where
  "md5_block h p =
     (let m = map (\<lambda>i. rd_le32 p (i * 4)) [0..<16];
          (a, b, c, d) = fold (md5_round m) [0..<64] (h ! 0, h ! 1, h ! 2, h ! 3)
      in [h ! 0 + a, h ! 1 + b, h ! 2 + c, h ! 3 + d])"

subsection \<open>SHA-1\<close>

definition sha1_sched :: "octet list \<Rightarrow> 32 word list" where
  "sha1_sched p =
     fold (\<lambda>i w. w @ [rotl32 (w ! (i - 3) XOR w ! (i - 8) XOR w ! (i - 14) XOR w ! (i - 16)) 1])
       [16..<80] (map (\<lambda>i. rd_be32 p (i * 4)) [0..<16])"

type_synonym quint = "32 word \<times> 32 word \<times> 32 word \<times> 32 word \<times> 32 word"

definition sha1_round :: "32 word list \<Rightarrow> nat \<Rightarrow> quint \<Rightarrow> quint" where
  "sha1_round w i = (\<lambda>(a, b, c, d, e).
     let (f, k) =
           (if i < 20 then ((b AND c) OR (NOT b AND d), 0x5A827999)
            else if i < 40 then (b XOR c XOR d, 0x6ED9EBA1)
            else if i < 60 then ((b AND c) OR (b AND d) OR (c AND d), 0x8F1BBCDC)
            else (b XOR c XOR d, 0xCA62C1D6));
         t = rotl32 a 5 + f + e + k + w ! i
     in (t, a, rotl32 b 30, c, d))"

definition sha1_block :: "32 word list \<Rightarrow> octet list \<Rightarrow> 32 word list" where
  "sha1_block h p =
     (let w = sha1_sched p;
          (a, b, c, d, e) = fold (sha1_round w) [0..<80] (h ! 0, h ! 1, h ! 2, h ! 3, h ! 4)
      in [h ! 0 + a, h ! 1 + b, h ! 2 + c, h ! 3 + d, h ! 4 + e])"

subsection \<open>SHA-256\<close>

definition SHA256_K :: "32 word list" where
  "SHA256_K =
   [0x428A2F98, 0x71374491, 0xB5C0FBCF, 0xE9B5DBA5, 0x3956C25B, 0x59F111F1, 0x923F82A4,
    0xAB1C5ED5, 0xD807AA98, 0x12835B01, 0x243185BE, 0x550C7DC3, 0x72BE5D74, 0x80DEB1FE,
    0x9BDC06A7, 0xC19BF174, 0xE49B69C1, 0xEFBE4786, 0x0FC19DC6, 0x240CA1CC, 0x2DE92C6F,
    0x4A7484AA, 0x5CB0A9DC, 0x76F988DA, 0x983E5152, 0xA831C66D, 0xB00327C8, 0xBF597FC7,
    0xC6E00BF3, 0xD5A79147, 0x06CA6351, 0x14292967, 0x27B70A85, 0x2E1B2138, 0x4D2C6DFC,
    0x53380D13, 0x650A7354, 0x766A0ABB, 0x81C2C92E, 0x92722C85, 0xA2BFE8A1, 0xA81A664B,
    0xC24B8B70, 0xC76C51A3, 0xD192E819, 0xD6990624, 0xF40E3585, 0x106AA070, 0x19A4C116,
    0x1E376C08, 0x2748774C, 0x34B0BCB5, 0x391C0CB3, 0x4ED8AA4A, 0x5B9CCA4F, 0x682E6FF3,
    0x748F82EE, 0x78A5636F, 0x84C87814, 0x8CC70208, 0x90BEFFFA, 0xA4506CEB, 0xBEF9A3F7,
    0xC67178F2]"

definition sha256_sched :: "octet list \<Rightarrow> 32 word list" where
  "sha256_sched p =
     fold (\<lambda>i w.
         let s0 = rotr32 (w ! (i - 15)) 7 XOR rotr32 (w ! (i - 15)) 18 XOR drop_bit 3 (w ! (i - 15));
             s1 = rotr32 (w ! (i - 2)) 17 XOR rotr32 (w ! (i - 2)) 19 XOR drop_bit 10 (w ! (i - 2))
         in w @ [w ! (i - 16) + s0 + w ! (i - 7) + s1])
       [16..<64] (map (\<lambda>i. rd_be32 p (i * 4)) [0..<16])"

text \<open>The eight working variables are a list, as they are an array of the chaining state.\<close>

definition sha256_round :: "32 word list \<Rightarrow> nat \<Rightarrow> 32 word list \<Rightarrow> 32 word list" where
  "sha256_round w i v =
     (let a = v ! 0; b = v ! 1; c = v ! 2; d = v ! 3; e = v ! 4; f = v ! 5; g = v ! 6; hh = v ! 7;
          S1 = rotr32 e 6 XOR rotr32 e 11 XOR rotr32 e 25;
          ch = (e AND f) XOR (NOT e AND g);
          t1 = hh + S1 + ch + SHA256_K ! i + w ! i;
          S0 = rotr32 a 2 XOR rotr32 a 13 XOR rotr32 a 22;
          maj = (a AND b) XOR (a AND c) XOR (b AND c);
          t2 = S0 + maj
      in [t1 + t2, a, b, c, d + t1, e, f, g])"

definition sha256_block :: "32 word list \<Rightarrow> octet list \<Rightarrow> 32 word list" where
  "sha256_block h p = map2 (+) h (fold (sha256_round (sha256_sched p)) [0..<64] h)"

subsection \<open>SHA-512\<close>

definition SHA512_K :: "64 word list" where
  "SHA512_K =
   [0x428A2F98D728AE22, 0x7137449123EF65CD, 0xB5C0FBCFEC4D3B2F, 0xE9B5DBA58189DBBC,
    0x3956C25BF348B538, 0x59F111F1B605D019, 0x923F82A4AF194F9B, 0xAB1C5ED5DA6D8118,
    0xD807AA98A3030242, 0x12835B0145706FBE, 0x243185BE4EE4B28C, 0x550C7DC3D5FFB4E2,
    0x72BE5D74F27B896F, 0x80DEB1FE3B1696B1, 0x9BDC06A725C71235, 0xC19BF174CF692694,
    0xE49B69C19EF14AD2, 0xEFBE4786384F25E3, 0x0FC19DC68B8CD5B5, 0x240CA1CC77AC9C65,
    0x2DE92C6F592B0275, 0x4A7484AA6EA6E483, 0x5CB0A9DCBD41FBD4, 0x76F988DA831153B5,
    0x983E5152EE66DFAB, 0xA831C66D2DB43210, 0xB00327C898FB213F, 0xBF597FC7BEEF0EE4,
    0xC6E00BF33DA88FC2, 0xD5A79147930AA725, 0x06CA6351E003826F, 0x142929670A0E6E70,
    0x27B70A8546D22FFC, 0x2E1B21385C26C926, 0x4D2C6DFC5AC42AED, 0x53380D139D95B3DF,
    0x650A73548BAF63DE, 0x766A0ABB3C77B2A8, 0x81C2C92E47EDAEE6, 0x92722C851482353B,
    0xA2BFE8A14CF10364, 0xA81A664BBC423001, 0xC24B8B70D0F89791, 0xC76C51A30654BE30,
    0xD192E819D6EF5218, 0xD69906245565A910, 0xF40E35855771202A, 0x106AA07032BBD1B8,
    0x19A4C116B8D2D0C8, 0x1E376C085141AB53, 0x2748774CDF8EEB99, 0x34B0BCB5E19B48A8,
    0x391C0CB3C5C95A63, 0x4ED8AA4AE3418ACB, 0x5B9CCA4F7763E373, 0x682E6FF3D6B2B8A3,
    0x748F82EE5DEFB2FC, 0x78A5636F43172F60, 0x84C87814A1F0AB72, 0x8CC702081A6439EC,
    0x90BEFFFA23631E28, 0xA4506CEBDE82BDE9, 0xBEF9A3F7B2C67915, 0xC67178F2E372532B,
    0xCA273ECEEA26619C, 0xD186B8C721C0C207, 0xEADA7DD6CDE0EB1E, 0xF57D4F7FEE6ED178,
    0x06F067AA72176FBA, 0x0A637DC5A2C898A6, 0x113F9804BEF90DAE, 0x1B710B35131C471B,
    0x28DB77F523047D84, 0x32CAAB7B40C72493, 0x3C9EBE0A15C9BEBC, 0x431D67C49C100D4C,
    0x4CC5D4BECB3E42B6, 0x597F299CFC657E2A, 0x5FCB6FAB3AD6FAEC, 0x6C44198C4A475817]"

definition sha512_sched :: "octet list \<Rightarrow> 64 word list" where
  "sha512_sched p =
     fold (\<lambda>i w.
         let s0 = rotr64 (w ! (i - 15)) 1 XOR rotr64 (w ! (i - 15)) 8 XOR drop_bit 7 (w ! (i - 15));
             s1 = rotr64 (w ! (i - 2)) 19 XOR rotr64 (w ! (i - 2)) 61 XOR drop_bit 6 (w ! (i - 2))
         in w @ [w ! (i - 16) + s0 + w ! (i - 7) + s1])
       [16..<80] (map (\<lambda>i. rd_be64 p (i * 8)) [0..<16])"

definition sha512_round :: "64 word list \<Rightarrow> nat \<Rightarrow> 64 word list \<Rightarrow> 64 word list" where
  "sha512_round w i v =
     (let a = v ! 0; b = v ! 1; c = v ! 2; d = v ! 3; e = v ! 4; f = v ! 5; g = v ! 6; hh = v ! 7;
          S1 = rotr64 e 14 XOR rotr64 e 18 XOR rotr64 e 41;
          ch = (e AND f) XOR (NOT e AND g);
          t1 = hh + S1 + ch + SHA512_K ! i + w ! i;
          S0 = rotr64 a 28 XOR rotr64 a 34 XOR rotr64 a 39;
          maj = (a AND b) XOR (a AND c) XOR (b AND c);
          t2 = S0 + maj
      in [t1 + t2, a, b, c, d + t1, e, f, g])"

definition sha512_block :: "64 word list \<Rightarrow> octet list \<Rightarrow> 64 word list" where
  "sha512_block h p = map2 (+) h (fold (sha512_round (sha512_sched p)) [0..<80] h)"

subsection \<open>Lengths\<close>

lemma sha256_round_length: "length (sha256_round w i v) = 8"
  by (simp add: sha256_round_def Let_def)

lemma sha512_round_length: "length (sha512_round w i v) = 8"
  by (simp add: sha512_round_def Let_def)

lemma fold_last: "xs \<noteq> [] \<Longrightarrow> (\<And>x s. P (f x s)) \<Longrightarrow> P (fold f xs s)"
  by (induction xs arbitrary: s) (metis fold_simps(2) fold_simps(1) neq_Nil_conv)+

lemma block_lengths:
  "length (md5_block h p) = 4" "length (sha1_block h p) = 5"
  "length h = 8 \<Longrightarrow> length (sha256_block h p) = 8"
  "length h' = 8 \<Longrightarrow> length (sha512_block h' p) = 8"
proof -
  show "length (md5_block h p) = 4" by (simp add: md5_block_def Let_def split: prod.split)
  show "length (sha1_block h p) = 5" by (simp add: sha1_block_def Let_def split: prod.split)
  show "length (sha256_block h p) = 8" if "length h = 8"
    using fold_last [of "[0..<64]" "\<lambda>v. length v = 8" "sha256_round (sha256_sched p)" h] that
    by (simp add: sha256_block_def sha256_round_length)
  show "length (sha512_block h' p) = 8" if "length h' = 8"
    using fold_last [of "[0..<80]" "\<lambda>v. length v = 8" "sha512_round (sha512_sched p)" h'] that
    by (simp add: sha512_block_def sha512_round_length)
qed

end
