(* ===== verification/CryptoHash.thy ===== *)
theory CryptoHash
  imports CryptoBlocks
begin

section \<open>The incremental hash driver and HMAC (crypto.c: alg\_block .. vl\_crypto\_equal)\<close>

text \<open>
  One context serves the four algorithms.  The bytes held in \<^verbatim>\<open>buf\<close> are the list \<open>cx_buf\<close>, whose
  length is \<^verbatim>\<open>nbuf\<close>; the union of word arrays is the datatype \<open>chain\<close>.  The central fact
  is that \<open>cry_update\<close> refines appending to the message absorbed so far, so that however a
  message is cut, \<open>cry_final\<close> returns the padded message's iterated compression.
\<close>

subsection \<open>Context and operations\<close>

datatype alg = CRY_MD5 | CRY_SHA1 | CRY_SHA256 | CRY_SHA512

datatype chain = W32 "32 word list" | W64 "64 word list"

record cry_ctx =
  cx_alg :: alg
  cx_len :: "64 word"
  cx_buf :: "octet list"
  cx_h :: chain

definition alg_block :: "alg \<Rightarrow> nat" where
  "alg_block a = (if a = CRY_SHA512 then 128 else 64)"

definition alg_digest :: "alg \<Rightarrow> nat" where
  "alg_digest a = (case a of CRY_MD5 \<Rightarrow> 16 | CRY_SHA1 \<Rightarrow> 20 | CRY_SHA256 \<Rightarrow> 32 | CRY_SHA512 \<Rightarrow> 64)"

definition init_chain :: "alg \<Rightarrow> chain" where
  "init_chain a =
     (case a of
        CRY_MD5 \<Rightarrow> W32 [0x67452301, 0xEFCDAB89, 0x98BADCFE, 0x10325476]
      | CRY_SHA1 \<Rightarrow> W32 [0x67452301, 0xEFCDAB89, 0x98BADCFE, 0x10325476, 0xC3D2E1F0]
      | CRY_SHA256 \<Rightarrow> W32 [0x6A09E667, 0xBB67AE85, 0x3C6EF372, 0xA54FF53A,
          0x510E527F, 0x9B05688C, 0x1F83D9AB, 0x5BE0CD19]
      | CRY_SHA512 \<Rightarrow> W64 [0x6A09E667F3BCC908, 0xBB67AE8584CAA73B, 0x3C6EF372FE94F82B,
          0xA54FF53A5F1D36F1, 0x510E527FADE682D1, 0x9B05688C2B3E6C1F, 0x1F83D9ABFB41BD6B,
          0x5BE0CD19137E2179])"

definition cry_init :: "alg \<Rightarrow> cry_ctx" where
  "cry_init a = \<lparr>cx_alg = a, cx_len = 0, cx_buf = [], cx_h = init_chain a\<rparr>"

fun compress_chain :: "alg \<Rightarrow> chain \<Rightarrow> octet list \<Rightarrow> chain" where
  "compress_chain CRY_MD5 (W32 h) p = W32 (md5_block h p)"
| "compress_chain CRY_SHA1 (W32 h) p = W32 (sha1_block h p)"
| "compress_chain CRY_SHA256 (W32 h) p = W32 (sha256_block h p)"
| "compress_chain CRY_SHA512 (W64 h) p = W64 (sha512_block h p)"
| "compress_chain a h p = h"

definition cry_compress :: "cry_ctx \<Rightarrow> octet list \<Rightarrow> cry_ctx" where
  "cry_compress c p = c\<lparr>cx_h := compress_chain (cx_alg c) (cx_h c) p\<rparr>"

lemma alg_block_pos [simp]: "0 < alg_block a" "alg_block a \<noteq> 0"
  by (simp_all add: alg_block_def)

text \<open>\<^verbatim>\<open>while (n >= bs)\<close>: whole blocks are compressed where they are; the rest is returned.\<close>

function cry_blocks :: "cry_ctx \<Rightarrow> octet list \<Rightarrow> cry_ctx \<times> octet list" where
  "cry_blocks c p =
     (if alg_block (cx_alg c) \<le> length p
      then cry_blocks (cry_compress c (take (alg_block (cx_alg c)) p)) (drop (alg_block (cx_alg c)) p)
      else (c, p))"
  by auto
termination
  by (relation "measure (\<lambda>(c, p). length p)") (auto intro!: diff_less less_le_trans [OF alg_block_pos(1)])

declare cry_blocks.simps [simp del]

definition cry_tail :: "cry_ctx \<Rightarrow> octet list \<Rightarrow> cry_ctx" where
  "cry_tail c p =
     (let (c, p) = cry_blocks c p in if p \<noteq> [] then c\<lparr>cx_buf := p\<rparr> else c)"

definition cry_update :: "cry_ctx \<Rightarrow> octet list \<Rightarrow> cry_ctx" where
  "cry_update c0 p =
     (let bs = alg_block (cx_alg c0);
          c = c0\<lparr>cx_len := cx_len c0 + of_nat (length p)\<rparr>
      in if cx_buf c \<noteq> [] then
           let want0 = bs - length (cx_buf c);
               want = (if length p < want0 then length p else want0);
               c = c\<lparr>cx_buf := cx_buf c @ take want p\<rparr>;
               p = drop want p
           in if length (cx_buf c) < bs then c
              else cry_tail ((cry_compress c (cx_buf c))\<lparr>cx_buf := []\<rparr>) p
         else cry_tail c p)"

text \<open>\<^verbatim>\<open>while ((nbuf + npad + lenfield) % bs != 0) pad[npad++] = 0\<close>.\<close>

function pad_zeros :: "nat \<Rightarrow> nat \<Rightarrow> nat \<Rightarrow> octet list \<Rightarrow> octet list" where
  "pad_zeros bs nbuf lenfield pad =
     (if 0 < bs \<and> (nbuf + length pad + lenfield) mod bs \<noteq> 0
      then pad_zeros bs nbuf lenfield (pad @ [0]) else pad)"
  by auto
termination
proof (relation "measure (\<lambda>(bs, nbuf, lenfield, pad). (bs - (nbuf + length pad + lenfield) mod bs) mod bs)")
  fix bs nbuf lenfield :: nat and pad :: "octet list"
  assume a: "0 < bs \<and> (nbuf + length pad + lenfield) mod bs \<noteq> 0"
  then have "(nbuf + length pad + lenfield) mod bs < bs" by simp
  with a show "((bs, nbuf, lenfield, pad @ [0]), bs, nbuf, lenfield, pad)
      \<in> measure (\<lambda>(bs, nbuf, lenfield, pad). (bs - (nbuf + length pad + lenfield) mod bs) mod bs)"
    by (auto simp: mod_Suc)
qed simp

declare pad_zeros.simps [simp del]

definition len_bytes :: "alg \<Rightarrow> 64 word \<Rightarrow> octet list" where
  "len_bytes a bits =
     (if a = CRY_MD5 then map (\<lambda>i. ucast (drop_bit (8 * i) bits)) [0..<8]
      else (if a = CRY_SHA512 then replicate 8 0 else []) @ wr_be64 bits)"

definition cry_pad :: "alg \<Rightarrow> nat \<Rightarrow> 64 word \<Rightarrow> octet list" where
  "cry_pad a nbuf len =
     pad_zeros (alg_block a) nbuf (if a = CRY_SHA512 then 16 else 8) [0x80] @ len_bytes a (len * 8)"

definition chain_out :: "alg \<Rightarrow> chain \<Rightarrow> octet list" where
  "chain_out a h =
     (case h of
        W32 w \<Rightarrow> (if a = CRY_MD5 then concat (map (\<lambda>i. wr_le32 (w ! i)) [0..<4])
                 else concat (map (\<lambda>i. wr_be32 (w ! i)) [0..<(if a = CRY_SHA1 then 5 else 8)]))
      | W64 w \<Rightarrow> concat (map (\<lambda>i. wr_be64 (w ! i)) [0..<8]))"

definition cry_final :: "cry_ctx \<Rightarrow> octet list" where
  "cry_final c =
     (let c' = cry_update c (cry_pad (cx_alg c) (length (cx_buf c)) (cx_len c))
      in chain_out (cx_alg c) (cx_h c'))"

definition cry_hash :: "alg \<Rightarrow> octet list \<Rightarrow> octet list" where
  "cry_hash a p = cry_final (cry_update (cry_init a) p)"

definition hmac_key :: "alg \<Rightarrow> octet list \<Rightarrow> octet list" where
  "hmac_key a key =
     (let k = (if alg_block a < length key then cry_hash a key else key)
      in k @ replicate (alg_block a - length k) 0)"

definition cry_hmac :: "alg \<Rightarrow> octet list \<Rightarrow> octet list \<Rightarrow> octet list" where
  "cry_hmac a key msg =
     (let k = hmac_key a key;
          inner = cry_final (cry_update (cry_update (cry_init a) (map (\<lambda>b. b XOR 0x36) k)) msg)
      in cry_final (cry_update (cry_update (cry_init a) (map (\<lambda>b. b XOR 0x5C) k))
           (take (alg_digest a) inner)))"

subsection \<open>Streaming refines the message\<close>

fun md_blocks :: "nat \<Rightarrow> nat \<Rightarrow> octet list \<Rightarrow> octet list list" where
  "md_blocks bs 0 m = []"
| "md_blocks bs (Suc n) m = take bs m # md_blocks bs n (drop bs m)"

definition md_chain :: "alg \<Rightarrow> octet list \<Rightarrow> chain" where
  "md_chain a m =
     foldl (compress_chain a) (init_chain a) (md_blocks (alg_block a) (length m div alg_block a) m)"

text \<open>The context that has absorbed the message \<open>m\<close>.\<close>

definition cry_state :: "alg \<Rightarrow> octet list \<Rightarrow> cry_ctx" where
  "cry_state a m =
     \<lparr>cx_alg = a, cx_len = of_nat (length m),
      cx_buf = drop (length m div alg_block a * alg_block a) m, cx_h = md_chain a m\<rparr>"

lemma md_blocks_snoc:
  "length m = n * bs \<Longrightarrow> length b = bs \<Longrightarrow> md_blocks bs (n + k) (m @ b @ r) = md_blocks bs n m @ md_blocks bs k (b @ r)"
proof (induction n arbitrary: m)
  case (Suc n)
  then have "bs \<le> length m" "length (drop bs m) = n * bs" by simp_all
  with Suc show ?case by simp
qed simp

lemma md_blocks_prefix: "n * bs \<le> length m \<Longrightarrow> md_blocks bs n (take (n * bs) m) = md_blocks bs n m"
proof (induction n arbitrary: m)
  case (Suc n)
  then show ?case by (simp add: drop_take)
qed simp

lemma md_blocks_append: "n * bs \<le> length m \<Longrightarrow> md_blocks bs (n + k) m = md_blocks bs n m @ md_blocks bs k (drop (n * bs) m)"
  by (induction n arbitrary: m) (simp_all add: add.commute)

lemma md_chain_split:
  assumes "length m = n * alg_block a"
  shows "md_chain a (m @ r) = foldl (compress_chain a) (md_chain a m) (md_blocks (alg_block a) (length r div alg_block a) r)"
proof -
  let ?bs = "alg_block a"
  have "length (m @ r) div ?bs = n + length r div ?bs" using assms by simp
  moreover have "md_blocks ?bs n (m @ r) = md_blocks ?bs n m"
    using md_blocks_prefix [of n ?bs "m @ r"] assms by simp
  ultimately show ?thesis
    using assms md_blocks_append [of n ?bs "m @ r" "length r div ?bs"] by (simp add: md_chain_def)
qed

lemma cry_blocks_md:
  "cry_blocks c p =
    (c\<lparr>cx_h := foldl (compress_chain (cx_alg c)) (cx_h c) (md_blocks (alg_block (cx_alg c)) (length p div alg_block (cx_alg c)) p)\<rparr>,
     drop (length p div alg_block (cx_alg c) * alg_block (cx_alg c)) p)"
proof (induction c p rule: cry_blocks.induct)
  case (1 c p)
  let ?bs = "alg_block (cx_alg c)"
  show ?case
  proof (cases "?bs \<le> length p")
    case True
    have d: "length p div ?bs = Suc ((length p - ?bs) div ?bs)"
      using True by (simp add: div_if)
    show ?thesis using True 1 [OF True]
      by (subst cry_blocks.simps) (simp add: d cry_compress_def add.commute)
  next
    case False
    then show ?thesis by (subst cry_blocks.simps) simp
  qed
qed

lemma cry_update_state: "cry_update (cry_state a m) p = cry_state a (m @ p)"
proof -
  let ?bs = "alg_block a"
  define n where "n = length m div ?bs"
  define u where "u = take (n * ?bs) m"
  define b where "b = drop (n * ?bs) m"
  have m: "m = u @ b" by (simp add: u_def b_def)
  have lu: "length u = n * ?bs" by (simp add: u_def n_def)
  have lb: "length b < ?bs" by (simp add: b_def n_def minus_div_mult_eq_mod)
  have st: "cry_state a (u @ r) = \<lparr>cx_alg = a, cx_len = of_nat (length (u @ r)),
      cx_buf = drop (length r div ?bs * ?bs) r,
      cx_h = foldl (compress_chain a) (md_chain a u) (md_blocks ?bs (length r div ?bs) r)\<rparr>" for r
    using lu by (simp add: cry_state_def md_chain_split algebra_simps)
  have m0: "cry_state a m = \<lparr>cx_alg = a, cx_len = of_nat (length m), cx_buf = b, cx_h = md_chain a u\<rparr>"
    unfolding m st using lb by simp
  have tail: "cry_tail \<lparr>cx_alg = a, cx_len = l, cx_buf = [], cx_h = h\<rparr> r =
      \<lparr>cx_alg = a, cx_len = l, cx_buf = drop (length r div ?bs * ?bs) r,
       cx_h = foldl (compress_chain a) h (md_blocks ?bs (length r div ?bs) r)\<rparr>" for l h r
    by (simp add: cry_tail_def cry_blocks_md)
  show ?thesis
  proof (cases "b = []")
    case True
    have "cry_update (cry_state a m) p = cry_state a (u @ p)"
      unfolding m0 st by (simp add: cry_update_def Let_def tail True m)
    then show ?thesis by (simp add: m True)
  next
    case False
    show ?thesis
    proof (cases "length p < ?bs - length b")
      case True
      then have "cry_update (cry_state a m) p = cry_state a (u @ (b @ p))"
        unfolding m0 st using False by (simp add: cry_update_def Let_def m)
      then show ?thesis by (simp add: m)
    next
      case ge: False
      define q where "q = b @ take (?bs - length b) p"
      define r where "r = drop (?bs - length b) p"
      have lq: "length q = ?bs" using ge lb by (simp add: q_def)
      have bp: "b @ p = q @ r" by (simp add: q_def r_def)
      have d: "length (q @ r) div ?bs = Suc (length r div ?bs)" using lq by simp
      have "length m + length p = length (u @ q @ r)" using arg_cong [OF bp, of length] m by simp
      then have len: "(of_nat (length m) :: 64 word) + of_nat (length p) = of_nat (length (u @ q @ r))"
        by (metis of_nat_add)
      have "cry_update (cry_state a m) p =
          cry_tail \<lparr>cx_alg = a, cx_len = of_nat (length m) + of_nat (length p), cx_buf = [],
            cx_h = compress_chain a (md_chain a u) q\<rparr> r"
        unfolding m0 using False ge lq lb
        by (simp add: cry_update_def Let_def cry_compress_def q_def r_def)
      also have "\<dots> = cry_state a (u @ (b @ p))"
        unfolding st tail bp d using lq len by (simp del: of_nat_add length_append add: md_blocks.simps)
      finally show ?thesis by (simp add: m)
    qed
  qed
qed

lemma cry_init_state: "cry_init a = cry_state a []"
  by (simp add: cry_init_def cry_state_def md_chain_def)

subsection \<open>Padding\<close>

definition len_field :: "alg \<Rightarrow> nat" where
  "len_field a = (if a = CRY_SHA512 then 16 else 8)"

text \<open>The reference padding: the byte \<open>0x80\<close>, the least number of zeros that makes the whole a
  multiple of the block, the length in bits.\<close>

definition md_zeros :: "alg \<Rightarrow> nat \<Rightarrow> nat" where
  "md_zeros a n = (alg_block a - (n + 1 + len_field a) mod alg_block a) mod alg_block a"

definition md_pad :: "alg \<Rightarrow> octet list \<Rightarrow> octet list" where
  "md_pad a m = m @ [0x80] @ replicate (md_zeros a (length m)) 0 @ len_bytes a (of_nat (8 * length m))"

definition digest_ref :: "alg \<Rightarrow> octet list \<Rightarrow> octet list" where
  "digest_ref a m = chain_out a (md_chain a (md_pad a m))"

lemma neg_mod_Suc:
  assumes "0 < bs" "x mod bs \<noteq> 0"
  shows "(bs - x mod bs) mod bs = Suc ((bs - Suc x mod bs) mod bs)"
proof -
  have l: "x mod bs < bs" using assms(1) by simp
  show ?thesis
  proof (cases "Suc (x mod bs) = bs")
    case True
    then have "bs - x mod bs = 1" "Suc x mod bs = 0" by (simp_all add: mod_Suc)
    moreover have "1 < bs" using True assms(2) by linarith
    ultimately show ?thesis by simp
  next
    case False
    then have "Suc x mod bs = Suc (x mod bs)" by (simp add: mod_Suc)
    with l False assms(2) show ?thesis by simp
  qed
qed

lemma pad_zeros_spec:
  "0 < bs \<Longrightarrow> pad_zeros bs nbuf lf pad = pad @ replicate ((bs - (nbuf + length pad + lf) mod bs) mod bs) 0"
proof (induction bs nbuf lf pad rule: pad_zeros.induct)
  case (1 bs nbuf lf pad)
  let ?x = "nbuf + length pad + lf"
  show ?case
  proof (cases "?x mod bs = 0")
    case True
    then show ?thesis by (subst pad_zeros.simps) simp
  next
    case False
    with 1(2) have "pad_zeros bs nbuf lf pad = pad_zeros bs nbuf lf (pad @ [0])"
      by (subst pad_zeros.simps) simp
    also have "\<dots> = (pad @ [0]) @ replicate ((bs - Suc ?x mod bs) mod bs) 0"
      using 1 False by simp
    also have "\<dots> = pad @ replicate ((bs - ?x mod bs) mod bs) 0"
      using neg_mod_Suc [OF 1(2) False] by simp
    finally show ?thesis .
  qed
qed

lemma len_bytes_length [simp]: "length (len_bytes a bits) = len_field a"
  by (simp add: len_bytes_def len_field_def wr_be64_def wr_be32_def)

lemma cry_pad_spec:
  "cry_pad a (length m mod alg_block a) (of_nat (length m)) =
    [0x80] @ replicate (md_zeros a (length m)) 0 @ len_bytes a (of_nat (8 * length m))"
proof -
  have "(length m mod alg_block a + 1 + len_field a) mod alg_block a = (length m + 1 + len_field a) mod alg_block a"
    using mod_add_left_eq [of "length m" "alg_block a" "1 + len_field a"] by (simp only: add.assoc)
  then have "pad_zeros (alg_block a) (length m mod alg_block a) (len_field a) [0x80] =
      [0x80] @ replicate (md_zeros a (length m)) 0"
    by (simp add: pad_zeros_spec md_zeros_def)
  then show ?thesis by (simp add: cry_pad_def len_field_def [symmetric] mult.commute)
qed

lemma zeros_complete: "0 < bs \<Longrightarrow> (x + (bs - x mod bs) mod bs) mod bs = (0::nat)"
  by (metis Nat.add_diff_assoc add.commute le_add_diff_inverse mod_add_left_eq mod_add_right_eq mod_le_divisor mod_self)

lemma md_pad_multiple: "length (md_pad a m) mod alg_block a = 0"
proof -
  have "length (md_pad a m) = length m + 1 + len_field a + md_zeros a (length m)"
    by (simp add: md_pad_def)
  then show ?thesis by (simp only: md_zeros_def zeros_complete alg_block_pos)
qed

lemma cry_state_buf: "length (cx_buf (cry_state a m)) = length m mod alg_block a"
  by (simp add: cry_state_def minus_div_mult_eq_mod)

lemma cry_final_state: "cry_final (cry_state a m) = digest_ref a m"
proof -
  have "cry_update (cry_state a m) (cry_pad a (length m mod alg_block a) (of_nat (length m))) = cry_state a (md_pad a m)"
    by (simp only: cry_update_state cry_pad_spec md_pad_def)
  moreover have "cx_alg (cry_state a m) = a" "cx_len (cry_state a m) = of_nat (length m)"
    "cx_h (cry_state a m) = md_chain a m" for m by (simp_all add: cry_state_def)
  ultimately show ?thesis by (simp add: cry_final_def cry_state_buf digest_ref_def Let_def)
qed

lemma cry_hash_ref: "cry_hash a m = digest_ref a m"
  by (simp add: cry_hash_def cry_init_state cry_update_state cry_final_state)

lemma updates_state: "foldl cry_update (cry_state a m) ps = cry_state a (m @ concat ps)"
  by (induction ps arbitrary: m) (simp_all add: cry_update_state)

subsection \<open>Lengths and injectivity\<close>

fun chain_ok :: "alg \<Rightarrow> chain \<Rightarrow> bool" where
  "chain_ok CRY_MD5 (W32 w) \<longleftrightarrow> length w = 4"
| "chain_ok CRY_SHA1 (W32 w) \<longleftrightarrow> length w = 5"
| "chain_ok CRY_SHA256 (W32 w) \<longleftrightarrow> length w = 8"
| "chain_ok CRY_SHA512 (W64 w) \<longleftrightarrow> length w = 8"
| "chain_ok _ _ \<longleftrightarrow> False"

lemma compress_ok: "chain_ok a h \<Longrightarrow> chain_ok a (compress_chain a h p)"
  by (cases a; cases h) (simp_all add: block_lengths)

lemma init_ok: "chain_ok a (init_chain a)"
  by (cases a) (simp_all add: init_chain_def)

lemma md_chain_ok: "chain_ok a (md_chain a m)"
proof -
  have "chain_ok a h \<Longrightarrow> chain_ok a (foldl (compress_chain a) h bs)" for h bs
    by (induction bs arbitrary: h) (simp_all add: compress_ok)
  then show ?thesis by (simp add: md_chain_def init_ok)
qed

lemma chain_out_length: "chain_ok a h \<Longrightarrow> length (chain_out a h) = alg_digest a"
  by (cases a; cases h)
    (simp_all add: chain_out_def alg_digest_def length_concat comp_def wr_le32_def wr_be32_def wr_be64_def sum_list_triv)

lemma digest_ref_length: "length (digest_ref a m) = alg_digest a"
  by (simp add: digest_ref_def chain_out_length md_chain_ok)


subsection \<open>Properties of hashing and message authentication\<close>

text \<open>C28. However a message is cut into pieces, feeding the pieces to \<open>cry_update\<close> and finishing
  gives the reference digest of the whole message: the iterated compression of the padded
  message.  In particular the partial-block buffer never shows, and the digest has the length
  that \<open>alg_digest\<close> announces.\<close>

theorem cry_streaming:
  "cry_final (foldl cry_update (cry_init a) ps) = digest_ref a (concat ps) \<and>
   cry_final (foldl cry_update (cry_init a) ps) = cry_hash a (concat ps) \<and>
   length (cry_hash a (concat ps)) = alg_digest a"
  by (simp add: cry_init_state updates_state cry_final_state cry_hash_ref digest_ref_length)

lemma le_bytes_inject:
  fixes x y :: "64 word"
  assumes "map (\<lambda>i. ucast (drop_bit (8 * i) x) :: octet) [0..<8] = map (\<lambda>i. ucast (drop_bit (8 * i) y)) [0..<8]"
  shows "x = y"
proof (rule bit_word_eqI)
  fix n assume n: "n < LENGTH(64)"
  then have "n div 8 < 8" by simp
  with assms have "ucast (drop_bit (8 * (n div 8)) x) = (ucast (drop_bit (8 * (n div 8)) y) :: octet)" by simp
  then have "bit (ucast (drop_bit (8 * (n div 8)) x) :: octet) (n mod 8) = bit (ucast (drop_bit (8 * (n div 8)) y) :: octet) (n mod 8)"
    by simp
  then show "bit x n = bit y n" by (simp add: bit_simps)
qed

lemma wr_be64_rev: "wr_be64 x = rev (map (\<lambda>i. ucast (drop_bit (8 * i) x)) [0..<8])"
  by (rule nth_equalityI) (auto simp: wr_be64_def wr_be32_def less_Suc_eq numeral_eq_Suc upt_rec intro!: bit_word_eqI simp: bit_simps)

lemma len_bytes_inject: "len_bytes a x = len_bytes a y \<Longrightarrow> x = y"
  unfolding len_bytes_def wr_be64_rev by (rule le_bytes_inject) (simp del: map_eq_conv split: if_splits)

lemma bits_inject:
  assumes "m < 2 ^ 61" "n < 2 ^ 61" "(of_nat (8 * m) :: 64 word) = of_nat (8 * n)"
  shows "m = n"
proof -
  have u: "unat (of_nat x :: 64 word) = x" if "x < 2 ^ 64" for x
    unfolding unat_of_nat using that by (intro mod_less) simp
  have "8 * m < 2 ^ 64" "8 * n < 2 ^ 64" using assms(1,2) by simp_all
  then have "8 * m = 8 * n" using u assms(3) by metis
  then show ?thesis by simp
qed

lemma append_tail_eq: "xs @ us = ys @ vs \<Longrightarrow> length us = length vs \<Longrightarrow> us = vs"
  by simp

text \<open>The padding is exact and unambiguous: the padded message is the message, the byte \<open>0x80\<close>,
  fewer zeros than a block and the bit count; its length is a multiple of the block; what is
  appended fits the buffer of \<^verbatim>\<open>cry_final\<close> (\<^verbatim>\<open>CRY_MAXBLOCK * 2\<close>, 256 bytes); and two different
  messages below \<open>2 ^ 61\<close> bytes have different paddings.\<close>

theorem cry_padding:
  assumes "length m < 2 ^ 61" and "length m' < 2 ^ 61"
  shows "md_pad a m = m @ cry_pad a (length (cx_buf (cry_update (cry_init a) m))) (of_nat (length m)) \<and>
    length (md_pad a m) mod alg_block a = 0 \<and>
    length (md_pad a m) \<le> length m + 256 \<and>
    (md_pad a m = md_pad a m' \<longrightarrow> m = m')"
proof (intro conjI impI)
  show "md_pad a m = m @ cry_pad a (length (cx_buf (cry_update (cry_init a) m))) (of_nat (length m))"
    by (simp only: cry_init_state cry_update_state append_Nil cry_state_buf cry_pad_spec md_pad_def)
  show "length (md_pad a m) mod alg_block a = 0" by (rule md_pad_multiple)
  have "md_zeros a (length m) < alg_block a" by (simp add: md_zeros_def)
  then show "length (md_pad a m) \<le> length m + 256"
    by (simp add: md_pad_def len_field_def alg_block_def split: if_splits)
  assume eq: "md_pad a m = md_pad a m'"
  then have "len_bytes a (of_nat (8 * length m)) = len_bytes a (of_nat (8 * length m'))"
    unfolding md_pad_def append_assoc [symmetric] by (rule append_tail_eq) simp
  then have "length m = length m'" using assms by (blast intro: bits_inject dest: len_bytes_inject)
  with eq show "m = m'" by (simp add: md_pad_def)
qed

theorem cry_padding_witness:
  "md_pad CRY_MD5 [1] = [1] @ cry_pad CRY_MD5 (length (cx_buf (cry_update (cry_init CRY_MD5) [1]))) (of_nat (length [1::octet])) \<and>
   md_pad CRY_MD5 [1] \<noteq> md_pad CRY_MD5 [1, 0x80]"
  using cry_padding [of "[1]" "[1, 0x80]" CRY_MD5] by (auto simp del: append_Cons)

text \<open>RFC 2104: the key, hashed when it is longer than a block, padded with zeros to a block.\<close>

definition hmac_block_key :: "alg \<Rightarrow> octet list \<Rightarrow> octet list" where
  "hmac_block_key a key =
     (let k = (if alg_block a < length key then digest_ref a key else key)
      in k @ replicate (alg_block a - length k) 0)"

text \<open>\<open>cry_hmac\<close> is HMAC: with the block key \<open>K'\<close>, the digest of \<open>(K' xor opad)\<close> followed by the
  digest of \<open>(K' xor ipad)\<close> followed by the message; the block key fills exactly one block.\<close>

theorem cry_hmac_is_rfc2104:
  "cry_hmac a key msg =
     digest_ref a (map (\<lambda>b. b XOR 0x5C) (hmac_block_key a key) @
       digest_ref a (map (\<lambda>b. b XOR 0x36) (hmac_block_key a key) @ msg)) \<and>
   length (hmac_key a key) = alg_block a \<and>
   hmac_key a (key @ [0]) = (if length key < alg_block a then hmac_key a key else hmac_key a (key @ [0]))"
proof (intro conjI)
  have k: "hmac_key a key = hmac_block_key a key"
    by (simp add: hmac_key_def hmac_block_key_def cry_hash_ref)
  show "cry_hmac a key msg =
     digest_ref a (map (\<lambda>b. b XOR 0x5C) (hmac_block_key a key) @
       digest_ref a (map (\<lambda>b. b XOR 0x36) (hmac_block_key a key) @ msg))"
    by (simp add: cry_hmac_def Let_def k cry_init_state cry_update_state cry_final_state digest_ref_length)
  have "alg_digest a \<le> alg_block a" by (cases a) (simp_all add: alg_digest_def alg_block_def)
  then show "length (hmac_key a key) = alg_block a"
    by (simp add: hmac_key_def cry_hash_ref digest_ref_length Let_def)
  have "replicate (alg_block a - length key) 0 = (0::octet) # replicate (alg_block a - Suc (length key)) 0"
    if "length key < alg_block a"
    using that by (metis Suc_diff_Suc replicate_Suc)
  then show "hmac_key a (key @ [0]) = (if length key < alg_block a then hmac_key a key else hmac_key a (key @ [0]))"
    by (simp add: hmac_key_def Let_def)
qed

text \<open>A known answer, evaluated in the kernel: it exercises the round function, the tables and the
  padding of an empty message.\<close>

lemma md5_empty:
  "cry_hash CRY_MD5 [] = [0xD4, 0x1D, 0x8C, 0xD9, 0x8F, 0, 0xB2, 4, 0xE9, 0x80, 9, 0x98, 0xEC, 0xF8, 0x42, 0x7E]"
  by code_simp

end
