(* ===== verification/CryptoRand.thy ===== *)
theory CryptoRand
  imports CryptoHash Enc
begin

section \<open>Random numbers, comparison and identifiers (crypto.c: cry\_out .. vl\_uuid\_v4)\<close>

text \<open>
  The random source is not under \<^verbatim>\<open>src/\<close>: it is the list of its successive draws, an argument of
  the operations that read it.  An operation that finds the list exhausted is \<open>None\<close>.
\<close>

unbundle bit_operations_syntax

subsection \<open>Operations\<close>

definition hex_digit :: "octet \<Rightarrow> char" where
  "hex_digit w = hex_chars ! unat w"

fun hex_bytes :: "octet list \<Rightarrow> string" where
  "hex_bytes [] = []"
| "hex_bytes (d # ds) = hex_digit (drop_bit 4 d) # hex_digit (d AND 15) # hex_bytes ds"

definition cry_out :: "octet list \<Rightarrow> bool \<Rightarrow> string" where
  "cry_out d hex = (if hex then hex_bytes d else map (\<lambda>b. char_of (unat b)) d)"

definition random_limit :: "64 word \<Rightarrow> 64 word" where
  "random_limit n = - 1 - (- 1 mod n) - 1"

text \<open>The bound is the signed argument; \<^verbatim>\<open>Inl\<close> is the \<^verbatim>\<open>RangeError\<close>.\<close>

fun random_draw :: "64 word \<Rightarrow> 64 word list \<Rightarrow> (64 word \<times> 64 word list) option" where
  "random_draw n [] = None"
| "random_draw n (x # xs) = (if x \<le> random_limit n then Some (x mod n, xs) else random_draw n xs)"

definition crypto_random_int :: "64 word \<Rightarrow> 64 word list \<Rightarrow> (string + 64 word \<times> 64 word list) option" where
  "crypto_random_int n xs =
     (if sint n \<le> 0 then Some (Inl ''RangeError'') else map_option Inr (random_draw n xs))"

definition crypto_equal :: "octet list \<Rightarrow> octet list \<Rightarrow> bool" where
  "crypto_equal a b =
     (if length a = length b
      then fold (\<lambda>i diff. diff OR ucast (a ! i XOR b ! i)) [0..<length a] (0 :: 32 word) = 0
      else False)"

fun uuid_text :: "octet list \<Rightarrow> nat \<Rightarrow> string" where
  "uuid_text [] i = []"
| "uuid_text (b # bs) i =
     (if i = 4 \<or> i = 6 \<or> i = 8 \<or> i = 10 then ''-'' else []) @
     hex_digit (drop_bit 4 b) # hex_digit (b AND 15) # uuid_text bs (i + 1)"

definition uuid_v4 :: "octet list \<Rightarrow> string" where
  "uuid_v4 b =
     (let b = b[6 := (b ! 6 AND 0x0F) OR 0x40];
          b = b[8 := (b ! 8 AND 0x3F) OR 0x80]
      in uuid_text b 0)"

subsection \<open>Uniformity\<close>

lemma random_limit_unat:
  assumes "0 < sint n"
  shows "unat (random_limit n) + 1 = (2 ^ 64 - 1) div unat n * unat n" "0 < unat n" "unat n < 2 ^ 63"
proof -
  have "0 \<le> uint n" "uint n < 2 ^ 64" "int (unat n) = uint n" using uint_lt2p [of n] by simp_all
  with assms have "0 < int (unat n)" "unat n < 2 ^ 63" by (simp_all add: sint_cases split: if_splits)
  then show n: "0 < unat n" "unat n < 2 ^ 63" by linarith+
  let ?m = "(2 ^ 64 - 1) mod unat n"
  have m: "unat (- 1 mod n) = ?m" by (simp add: unat_mod_distrib unsigned_minus_1_eq_mask mask_eq_exp_minus_1)
  have top: "unat (- 1 :: 64 word) = 2 ^ 64 - 1" by (simp add: unsigned_minus_1_eq_mask mask_eq_exp_minus_1)
  have lt: "?m < unat n" using n by simp
  have 1: "unat (- 1 - (- 1 mod n)) = 2 ^ 64 - 1 - ?m"
    using unat_sub [of "- 1 mod n" "- 1"] by (simp add: m top)
  have "1 \<le> 2 ^ 64 - 1 - ?m" using less_trans [OF lt n(2)] by simp
  then have "1 \<le> unat (- 1 - (- 1 mod n))" by (simp only: 1)
  then have "unat (random_limit n) = 2 ^ 64 - 1 - ?m - 1"
    unfolding random_limit_def using unat_sub [of 1 "- 1 - (- 1 mod n)"] by (simp add: 1 word_le_nat_alt)
  moreover have "2 ^ 64 - 1 - r - 1 + 1 = 2 ^ 64 - 1 - r" if "r < 2 ^ 63" for r :: nat using that by simp
  ultimately have "unat (random_limit n) + 1 = 2 ^ 64 - 1 - ?m" using less_trans [OF lt n(2)] by metis
  then show "unat (random_limit n) + 1 = (2 ^ 64 - 1) div unat n * unat n"
    by (simp only: minus_mod_eq_div_mult)
qed

lemma card_residue:
  assumes "r < (n::nat)"
  shows "card {x. x < q * n \<and> x mod n = r} = q"
proof -
  have "bij_betw (\<lambda>k. k * n + r) {0..<q} {x. x < q * n \<and> x mod n = r}"
  proof (rule bij_betw_byWitness [where f' = "\<lambda>x. x div n"])
    show "(\<lambda>k. k * n + r) ` {0..<q} \<subseteq> {x. x < q * n \<and> x mod n = r}"
    proof clarify
      fix k assume "k \<in> {0..<q}"
      then have "(k + 1) * n \<le> q * n" by (intro mult_right_mono) auto
      with assms show "k * n + r < q * n \<and> (k * n + r) mod n = r" by simp
    qed
    show "(\<lambda>x. x div n) ` {x. x < q * n \<and> x mod n = r} \<subseteq> {0..<q}"
      using assms by (auto simp: less_mult_imp_div_less)
  qed (use assms in auto)
  from bij_betw_same_card [OF this] show ?thesis by simp
qed

lemma card_words: "card {x :: 64 word. P (unat x)} = card {k. k < 2 ^ 64 \<and> P k}"
  by (rule bij_betw_same_card [of unat], rule bij_betw_byWitness [where f' = of_nat])
    (auto simp: unat_of_nat intro: unsigned_less [where 'b = 64, simplified])

lemma random_accepted:
  assumes "0 < sint n"
  shows "x \<le> random_limit n \<longleftrightarrow> unat x < (2 ^ 64 - 1) div unat n * unat n"
    and "(2 ^ 64 - 1) div unat n * unat n < 2 ^ 64" "2 ^ 63 \<le> (2 ^ 64 - 1) div unat n * unat n"
proof -
  note l = random_limit_unat [OF assms]
  show "x \<le> random_limit n \<longleftrightarrow> unat x < (2 ^ 64 - 1) div unat n * unat n"
    unfolding word_le_nat_alt l(1) [symmetric] by linarith
  have m: "(2 ^ 64 - 1) div unat n * unat n + (2 ^ 64 - 1) mod unat n = 2 ^ 64 - 1"
    by (rule div_mult_mod_eq)
  have "(2 ^ 64 - 1) mod unat n < unat n" using l(2) by (rule mod_less_divisor)
  moreover have "\<And>q r u :: nat. q + r = 2 ^ 64 - 1 \<Longrightarrow> r < u \<Longrightarrow> u < 2 ^ 63 \<Longrightarrow> q < 2 ^ 64 \<and> 2 ^ 63 \<le> q"
    by simp
  ultimately have "(2 ^ 64 - 1) div unat n * unat n < 2 ^ 64 \<and> 2 ^ 63 \<le> (2 ^ 64 - 1) div unat n * unat n"
    using m l(3) by blast
  then show "(2 ^ 64 - 1) div unat n * unat n < 2 ^ 64" "2 ^ 63 \<le> (2 ^ 64 - 1) div unat n * unat n"
    by simp_all
qed

text \<open>C31. \<open>crypto.random_int(n)\<close> is unbiased: for a positive bound it returns the remainder of the first
  draw that is not above the limit; every remainder below \<open>n\<close> comes from the same number of
  accepted draws; and more than half of the draws are accepted.\<close>

theorem random_int_uniform:
  assumes "0 < sint n"
  shows "crypto_random_int n xs =
      (case dropWhile (\<lambda>x. random_limit n < x) xs of [] \<Rightarrow> None | x # ys \<Rightarrow> Some (Inr (x mod n, ys))) \<and>
    (\<forall>r < n. card {x. x \<le> random_limit n \<and> x mod n = r} = (2 ^ 64 - 1) div unat n) \<and>
    2 ^ 63 \<le> card {x :: 64 word. x \<le> random_limit n}"
proof (intro conjI allI impI)
  show "crypto_random_int n xs =
      (case dropWhile (\<lambda>x. random_limit n < x) xs of [] \<Rightarrow> None | x # ys \<Rightarrow> Some (Inr (x mod n, ys)))"
    using assms by (induction xs) (auto simp: crypto_random_int_def not_le dest: leD)
  let ?q = "(2 ^ 64 - 1) div unat n"
  note le = random_accepted [OF assms]
  fix r assume "r < n"
  then have r: "unat r < unat n" by (simp add: word_less_nat_alt)
  have "card {x. x \<le> random_limit n \<and> x mod n = r} = card {x :: 64 word. unat x < ?q * unat n \<and> unat x mod unat n = unat r}"
    by (simp only: le(1) word_unat_eq_iff unat_mod_distrib)
  also have "\<dots> = card {k. k < 2 ^ 64 \<and> k < ?q * unat n \<and> k mod unat n = unat r}"
    by (rule card_words)
  also have "\<dots> = card {k. k < ?q * unat n \<and> k mod unat n = unat r}"
    using le(2) by (intro arg_cong [where f = card]) (auto intro: less_trans)
  finally show "card {x. x \<le> random_limit n \<and> x mod n = r} = ?q" by (simp only: card_residue [OF r])
next
  let ?q = "(2 ^ 64 - 1) div unat n"
  note le = random_accepted [OF assms]
  have "card {x :: 64 word. x \<le> random_limit n} = card {k. k < 2 ^ 64 \<and> k < ?q * unat n}"
    unfolding le(1) by (rule card_words)
  also have "\<dots> = card {..< ?q * unat n}"
    using le(2) by (intro arg_cong [where f = card]) (auto intro: less_trans)
  finally show "2 ^ 63 \<le> card {x :: 64 word. x \<le> random_limit n}" using le(3) by simp
qed

theorem random_int_uniform_witness:
  "crypto_random_int 6 [- 1, 20] = Some (Inr (2, [])) \<and>
   card {x :: 64 word. x \<le> random_limit 6 \<and> x mod 6 = 5} = 3074457345618258602"
  using random_int_uniform [of 6 "[- 1, 20]"]
  by (auto simp: random_limit_def)

lemma fold_or_zero:
  "(fold (\<lambda>i d. d OR f i) xs d = (0 :: 32 word)) \<longleftrightarrow> d = 0 \<and> (\<forall>i \<in> set xs. f i = 0)"
  by (induction xs arbitrary: d) (auto simp: or_eq_0_iff)

lemma ucast_octet_0: "(ucast (w :: octet) :: 32 word) = 0 \<longleftrightarrow> w = 0"
  by transfer (simp add: take_bit_take_bit)

lemma xor_octet: "a XOR b = 0 \<longleftrightarrow> a = (b :: octet)"
  by (auto simp: bit_eq_iff bit_xor_iff)

text \<open>\<open>crypto.equal\<close> decides equality of byte strings: the OR of all differences is zero exactly
  when there is none.\<close>

theorem crypto_equal_iff: "crypto_equal a b = (a = b)"
proof -
  have "fold (\<lambda>i diff. diff OR ucast (a ! i XOR b ! i)) [0..<length a] (0 :: 32 word) = 0 \<longleftrightarrow>
      (\<forall>i < length a. a ! i = b ! i)"
    unfolding fold_or_zero ucast_octet_0 xor_octet by auto
  then show ?thesis unfolding crypto_equal_def list_eq_iff_nth_eq [of a b] by (cases "length a = length b") (simp_all only: if_True if_False simp_thms)
qed


subsection \<open>Output forms\<close>

lemma unat_nibbles: "unat (drop_bit 4 (b :: octet)) = drop_bit 4 (unat b)" "unat (b AND 15) = unat b AND 15"
  using unsigned_less [of b, where 'a = nat]
  by (simp_all add: unsigned_drop_bit_eq unsigned_and_eq take_bit_nat_eq_self)

text \<open>The hexadecimal form is the \<^verbatim>\<open>hex\<close> of the raw form.\<close>

lemma cry_out_hex: "cry_out d True = hex_enc (cry_out d False)"
proof (induction d)
  case (Cons b d)
  have "byte (char_of (unat b)) = unat b" using unsigned_less [of b, where 'a = nat] by simp
  with Cons show ?case by (simp add: cry_out_def hex_digit_def unat_nibbles)
qed (simp add: cry_out_def)

text \<open>A version 4 identifier: 36 characters, the four dashes, the version digit and the variant digit.\<close>

lemma version_digit: "hex_digit (drop_bit 4 ((b AND 0x0F) OR 0x40 :: octet)) = CHR ''4''"
proof -
  have "drop_bit 4 ((b AND 0x0F) OR 0x40 :: octet) = 4"
    by (rule bit_word_eqI) (auto simp: bit_simps less_Suc_eq numeral_eq_Suc)
  then show ?thesis by (simp add: hex_digit_def hex_chars_def)
qed

lemma hex_digit_4: "hex_digit 4 = CHR ''4''"
  by (simp add: hex_digit_def hex_chars_def)

lemma uuid_shape:
  assumes "length b = 16"
  shows "length (uuid_v4 b) = 36" "uuid_v4 b ! 14 = CHR ''4''"
    "map (\<lambda>i. uuid_v4 b ! i) [8, 13, 18, 23] = ''----''"
proof -
  from assms obtain b0 b1 b2 b3 b4 b5 b6 b7 b8 b9 b10 b11 b12 b13 b14 b15
    where "b = [b0, b1, b2, b3, b4, b5, b6, b7, b8, b9, b10, b11, b12, b13, b14, b15]"
    by (auto simp: numeral_eq_Suc length_Suc_conv)
  then show "length (uuid_v4 b) = 36" "uuid_v4 b ! 14 = CHR ''4''"
    "map (\<lambda>i. uuid_v4 b ! i) [8, 13, 18, 23] = ''----''"
    by (simp_all add: uuid_v4_def Let_def version_digit hex_digit_4)
qed

end
