(* ===== verification/Probe.thy ===== *)
theory Probe
  imports Prelude
begin

section \<open>Open addressing\<close>

text \<open>
  The loop \<^verbatim>\<open>while (idx[s] is taken) s = (s + 1) & mask\<close> that the index of a map (coll.c) and the
  method table (types.c) share.  It is a \<^theory_text>\<open>partial_function\<close>: that it returns is a theorem
  (\<open>probe_returns\<close>), which needs a slot where it stops; the tables below keep one empty.
\<close>

unbundle bit_operations_syntax

partial_function (option) probe :: "(nat \<Rightarrow> bool) \<Rightarrow> nat \<Rightarrow> nat \<Rightarrow> nat option" where
  "probe stop msk s = (if stop s then Some s else probe stop msk ((s + 1) AND msk))"

declare probe.simps [code]

text \<open>The \<open>j\<close>-th slot after \<open>s\<close> in a table of \<open>n\<close> slots, and the first at which the loop stops.\<close>

definition stops_at :: "(nat \<Rightarrow> bool) \<Rightarrow> nat \<Rightarrow> nat \<Rightarrow> nat \<Rightarrow> bool" where
  "stops_at stop n s j \<longleftrightarrow> stop ((s + j) mod n) \<and> (\<forall>i < j. \<not> stop ((s + i) mod n))"

lemma and_mask_mod: "a AND (2 ^ k - 1) = a mod (2 ^ k :: nat)"
  by (simp only: take_bit_eq_mod flip: take_bit_eq_mask mask_eq_exp_minus_1)

lemma probe_Some:
  assumes n: "n = 2 ^ k" and "s < n" and "stops_at stop n s j"
  shows "probe stop (n - 1) s = Some ((s + j) mod n)"
  using assms(2,3)
proof (induction j arbitrary: s)
  case 0
  then show ?case by (subst probe.simps) (simp add: stops_at_def)
next
  case (Suc j)
  have "\<not> stop s" using Suc.prems by (force simp: stops_at_def)
  then have "probe stop (n - 1) s = probe stop (n - 1) ((s + 1) mod n)"
    unfolding n and_mask_mod [symmetric] by (subst probe.simps) simp
  also have "\<dots> = Some (((s + 1) mod n + j) mod n)"
  proof (rule Suc.IH)
    show "(s + 1) mod n < n" using Suc.prems by simp
    have e: "((s + 1) mod n + i) mod n = (s + Suc i) mod n" for i by (simp add: mod_add_left_eq)
    show "stops_at stop n ((s + 1) mod n) j"
      using Suc.prems(2) unfolding stops_at_def e by auto
  qed
  finally show ?case by (simp add: mod_simps)
qed

lemma stops_at_exists:
  assumes "t < n" "stop t" "s < n"
  shows "\<exists>j < n. stops_at stop n s j"
proof -
  have "(s + (t + n - s) mod n) mod n = t"
    using assms by (simp add: mod_add_right_eq)
  then have ex: "\<exists>j. stop ((s + j) mod n)" using assms(2) by metis
  define j where "j = (LEAST j. stop ((s + j) mod n))"
  have "stop ((s + j) mod n)" unfolding j_def using ex by (rule LeastI_ex)
  moreover have "\<forall>i < j. \<not> stop ((s + i) mod n)" unfolding j_def using not_less_Least by blast
  moreover have "j \<le> (t + n - s) mod n" unfolding j_def
    by (rule Least_le) (use \<open>(s + (t + n - s) mod n) mod n = t\<close> assms(2) in simp)
  moreover have "(t + n - s) mod n < n" using assms(1) by simp
  ultimately show ?thesis unfolding stops_at_def by (blast intro: le_less_trans)
qed

lemma probe_returns:
  assumes "n = 2 ^ k" "s < n" "t < n" "stop t"
  shows "\<exists>u < n. probe stop (n - 1) s = Some u \<and> stop u"
proof -
  obtain j where j: "stops_at stop n s j" using stops_at_exists assms by blast
  then have "probe stop (n - 1) s = Some ((s + j) mod n)" "stop ((s + j) mod n)"
    using probe_Some assms(1,2) by (blast, simp add: stops_at_def)
  moreover have "(s + j) mod n < n" using assms(2) by simp
  ultimately show ?thesis by blast
qed

lemma stops_at_unique: "stops_at stop n s i \<Longrightarrow> stops_at stop n s j \<Longrightarrow> i = j"
  by (metis stops_at_def linorder_neqE_nat)

subsection \<open>Tables\<close>

text \<open>A table of \<open>n\<close> slots holds exactly the entries \<open>E\<close>, each once, and every slot from an entry's
  home \<open>h e\<close> up to where it is stored is taken.\<close>

definition good_tab :: "nat \<Rightarrow> (nat \<Rightarrow> 'e option) \<Rightarrow> ('e \<Rightarrow> nat) \<Rightarrow> 'e set \<Rightarrow> bool" where
  "good_tab n tab h E \<longleftrightarrow>
     (\<forall>t < n. \<forall>e. tab t = Some e \<longrightarrow> e \<in> E) \<and>
     (\<forall>t < n. \<forall>u < n. \<forall>e. tab t = Some e \<longrightarrow> tab u = Some e \<longrightarrow> t = u) \<and>
     (\<forall>e \<in> E. h e < n \<and> (\<exists>j < n. tab ((h e + j) mod n) = Some e \<and> (\<forall>i < j. tab ((h e + i) mod n) \<noteq> None)))"

lemma good_tab_empty: "good_tab n (\<lambda>_. None) h {}"
  by (simp add: good_tab_def)

lemma good_tab_free_slot:
  assumes "good_tab n tab h E" "finite E" "card E < n"
  shows "\<exists>t < n. tab t = None"
proof (rule ccontr)
  assume "\<not> (\<exists>t < n. tab t = None)"
  then have full: "\<forall>t < n. \<exists>e. tab t = Some e" by auto
  define f where "f t = the (tab t)" for t
  have "f ` {..<n} \<subseteq> E" using assms(1) full by (force simp: good_tab_def f_def)
  moreover have "inj_on f {..<n}"
  proof (rule inj_onI)
    fix t u assume "t \<in> {..<n}" "u \<in> {..<n}" "f t = f u"
    moreover have "tab v = Some (f v)" if "v < n" for v using full that by (force simp: f_def)
    ultimately have "tab t = Some (f t)" "tab u = Some (f t)" "t < n" "u < n" by simp_all
    then show "t = u" using assms(1) unfolding good_tab_def by blast
  qed
  ultimately have "n \<le> card E" using assms(2) by (metis card_image card_lessThan card_mono)
  then show False using assms(3) by simp
qed

lemma good_tab_insert:
  assumes g: "good_tab n tab h E" and e: "e \<notin> E" "h e < n"
    and st: "stops_at (\<lambda>t. tab t = None) n (h e) j" and j: "j < n"
  shows "good_tab n (tab((h e + j) mod n := Some e)) h (insert e E)"
proof -
  let ?u = "(h e + j) mod n"
  have u: "?u < n" "tab ?u = None" using e(2) st by (simp_all add: stops_at_def)
  have new: "tab t \<noteq> Some e" if "t < n" for t using g e(1) that by (auto simp: good_tab_def)
  have 1: "\<forall>t < n. \<forall>x. (tab(?u := Some e)) t = Some x \<longrightarrow> x \<in> insert e E"
    using g by (auto simp: good_tab_def)
  have 2: "\<forall>t < n. \<forall>v < n. \<forall>x. (tab(?u := Some e)) t = Some x \<longrightarrow> (tab(?u := Some e)) v = Some x \<longrightarrow> t = v"
    using g new by (auto simp: good_tab_def split: if_splits)
  have 3: "h x < n \<and> (\<exists>i < n. (tab(?u := Some e)) ((h x + i) mod n) = Some x \<and>
      (\<forall>i' < i. (tab(?u := Some e)) ((h x + i') mod n) \<noteq> None))" if x: "x \<in> insert e E" for x
  proof (cases "x = e")
    case True
    then show ?thesis using e(2) j st by (auto simp: stops_at_def)
  next
    case False
    then have "x \<in> E" using x by simp
    then obtain i where "h x < n" "i < n" "tab ((h x + i) mod n) = Some x" "\<forall>i' < i. tab ((h x + i') mod n) \<noteq> None"
      using g unfolding good_tab_def by blast
    moreover from this have "(h x + i) mod n \<noteq> ?u" using u(2) by auto
    ultimately show ?thesis by (intro conjI exI [of _ i]) auto
  qed
  show ?thesis unfolding good_tab_def using 1 2 3 by blast
qed

text \<open>Searching: the loop stops at an empty slot or at a matching entry.  When matching entries live
  at the home the search starts from, and there is at most one, the search decides.\<close>

lemma good_tab_search:
  assumes n: "n = 2 ^ k" and g: "good_tab n tab h E" and fin: "finite E" "card E < n" and s: "s < n"
    and home: "\<And>e. e \<in> E \<Longrightarrow> match e \<Longrightarrow> h e = s"
  shows "\<exists>t < n. probe (\<lambda>t. case tab t of None \<Rightarrow> True | Some e \<Rightarrow> match e) (n - 1) s = Some t \<and>
    (case tab t of
       None \<Rightarrow> (\<forall>e \<in> E. \<not> match e) \<and> (\<exists>j < n. stops_at (\<lambda>t. tab t = None) n s j \<and> t = (s + j) mod n)
     | Some e \<Rightarrow> e \<in> E \<and> match e)"
proof -
  let ?stop = "\<lambda>t. case tab t of None \<Rightarrow> True | Some e \<Rightarrow> match e"
  obtain t0 where "t0 < n" "tab t0 = None" using good_tab_free_slot [OF g fin] by blast
  then obtain j where j: "j < n" "stops_at ?stop n s j" using stops_at_exists [of t0 n ?stop s] s by auto
  define t where "t = (s + j) mod n"
  have t: "t < n" "probe ?stop (n - 1) s = Some t" "?stop t"
    using probe_Some [OF n s j(2)] s j(2) by (simp_all add: t_def stops_at_def)
  have before: "\<exists>e. tab ((s + i) mod n) = Some e \<and> \<not> match e" if "i < j" for i
    using j(2) that by (auto simp: stops_at_def split: option.splits)
  show ?thesis
  proof (cases "tab t")
    case (Some e)
    then show ?thesis using t g by (auto simp: good_tab_def)
  next
    case None
    have "\<not> match e" if e: "e \<in> E" for e
    proof
      assume m: "match e"
      then have "h e = s" using home e by blast
      with g e obtain i where i: "i < n" "tab ((s + i) mod n) = Some e" "\<forall>i' < i. tab ((s + i') mod n) \<noteq> None"
        unfolding good_tab_def by blast
      show False
      proof (cases "i < j")
        case True
        then show False using before [OF True] i(2) m by simp
      next
        case False
        then have "i \<noteq> j" using i(2) None by (auto simp: t_def)
        with False have "j < i" by simp
        then have "tab ((s + j) mod n) \<noteq> None" using i(3) by blast
        then show False using None by (simp add: t_def)
      qed
    qed
    moreover have "stops_at (\<lambda>t. tab t = None) n s j"
      using None before by (fastforce simp: stops_at_def t_def)
    ultimately show ?thesis using t None j(1) by (auto simp: t_def)
  qed
qed

end
