(* ===== verification/IntOps.thy ===== *)
theory IntOps
  imports Str "HOL-Library.Signed_Division"
begin

section \<open>Integer arithmetic with traps (ops.c, voila.h)\<close>

text \<open>
  An \<^verbatim>\<open>int64_t\<close> is an integer with \<open>i64\<close>; the overflow built-ins compute exactly and report
  whether the result fits.  Every operation either returns the exact result or throws
  the trap of its operator; no result wraps around silently.  The sized forms check
  the range of the declared type as well.  C's \<^verbatim>\<open>/\<close> and \<^verbatim>\<open>%\<close> truncate: they are \<open>sdiv\<close> and \<open>smod\<close>.
\<close>

subsection \<open>Traps\<close>

definition vl_trap_iovf :: "string \<Rightarrow> int \<Rightarrow> int \<Rightarrow> exn" where
  "vl_trap_iovf op a b =
     Throw ''OverflowError'' (''integer overflow: '' @ int_text a @ '' '' @ op @ '' '' @ int_text b)"

definition vl_trap_div0 :: exn where
  "vl_trap_div0 = Throw ''RangeError'' ''division by zero''"

definition vl_trap_shift :: "int \<Rightarrow> exn" where
  "vl_trap_shift n = Throw ''RangeError'' (''shift count '' @ int_text n @ '' out of range'')"

definition vl_trap_inegovf :: exn where
  "vl_trap_inegovf = Throw ''OverflowError'' ''integer overflow negating''"

definition vl_trap_itof :: "int \<Rightarrow> exn" where
  "vl_trap_itof n = Throw ''ConvError''
     (''int value '' @ int_text n @ '' is not exactly representable as float; use float(x)'')"

subsection \<open>Checked operations\<close>

definition vl_iadd_ck :: "int \<Rightarrow> int \<Rightarrow> int result" where
  "vl_iadd_ck a b = (if i64 (a + b) then Inr (a + b) else Inl (vl_trap_iovf ''+'' a b))"

definition vl_isub_ck :: "int \<Rightarrow> int \<Rightarrow> int result" where
  "vl_isub_ck a b = (if i64 (a - b) then Inr (a - b) else Inl (vl_trap_iovf ''-'' a b))"

definition vl_imul_ck :: "int \<Rightarrow> int \<Rightarrow> int result" where
  "vl_imul_ck a b = (if i64 (a * b) then Inr (a * b) else Inl (vl_trap_iovf ''*'' a b))"

definition vl_ineg_ck :: "int \<Rightarrow> int result" where
  "vl_ineg_ck a = (if a = - (2 ^ 63) then Inl vl_trap_inegovf else Inr (- a))"

definition vl_ifloordiv :: "int \<Rightarrow> int \<Rightarrow> int result" where
  "vl_ifloordiv a b =
     (if b = 0 then Inl vl_trap_div0
      else if b = - 1 \<and> a = - (2 ^ 63) then Inl (vl_trap_iovf ''~/'' a (- 1))
      else let q = a sdiv b
           in Inr (if a smod b \<noteq> 0 \<and> (a < 0) \<noteq> (b < 0) then q - 1 else q))"

definition vl_ifloormod :: "int \<Rightarrow> int \<Rightarrow> int result" where
  "vl_ifloormod a b =
     (if b = 0 then Inl vl_trap_div0
      else if b = - 1 then Inr 0
      else let m = a smod b
           in Inr (if m \<noteq> 0 \<and> (a < 0) \<noteq> (b < 0) then m + b else m))"

text \<open>\<^verbatim>\<open>for (e = b; e > 0; e >>= 1)\<close>: \<open>None\<close> is an overflow of one of the two products.\<close>

function ipow_loop :: "int \<Rightarrow> int \<Rightarrow> int \<Rightarrow> int option" where
  "ipow_loop e result base =
     (if e \<le> 0 then Some result
      else if odd e \<and> \<not> i64 (result * base) then None
      else if e > 1 \<and> \<not> i64 (base * base) then None
      else ipow_loop (e div 2) (if odd e then result * base else result)
             (if e > 1 then base * base else base))"
  by auto
termination by (relation "measure (\<lambda>(e, r, b). nat e)") auto

declare ipow_loop.simps [simp del]

definition vl_ipow_i :: "int \<Rightarrow> int \<Rightarrow> int result" where
  "vl_ipow_i a b =
     (if b < 0 then Inl (Throw ''RangeError''
        (''negative integer exponent '' @ int_text b @ '' (use float or dec base)''))
      else case ipow_loop b 1 a of
             None \<Rightarrow> Inl (vl_trap_iovf ''**'' a b)
           | Some r \<Rightarrow> Inr r)"

text \<open>Shifts go through the unsigned type; \<open>>>\<close> of a signed value is arithmetic.\<close>

definition to_i64 :: "int \<Rightarrow> int" where
  "to_i64 u = (if u mod 2 ^ 64 < 2 ^ 63 then u mod 2 ^ 64 else u mod 2 ^ 64 - 2 ^ 64)"

definition vl_ishl_ck :: "int \<Rightarrow> int \<Rightarrow> int result" where
  "vl_ishl_ck a n =
     (if n < 0 \<or> n > 63 then Inl (vl_trap_shift n) else Inr (to_i64 (a mod 2 ^ 64 * 2 ^ nat n)))"

definition vl_ishr_ck :: "int \<Rightarrow> int \<Rightarrow> int result" where
  "vl_ishr_ck a n = (if n < 0 \<or> n > 63 then Inl (vl_trap_shift n) else Inr (drop_bit (nat n) a))"

subsection \<open>Sized integers\<close>

datatype sz = VL_SZ_I8 | VL_SZ_I16 | VL_SZ_I32 | VL_SZ_U8 | VL_SZ_U16 | VL_SZ_U32 | VL_SZ_U64

definition vl_sz_lo :: "sz \<Rightarrow> int" where
  "vl_sz_lo t = (case t of VL_SZ_I8 \<Rightarrow> - 128 | VL_SZ_I16 \<Rightarrow> - 32768 | VL_SZ_I32 \<Rightarrow> - 2147483648 | _ \<Rightarrow> 0)"

definition vl_sz_hi :: "sz \<Rightarrow> int" where
  "vl_sz_hi t = (case t of VL_SZ_I8 \<Rightarrow> 127 | VL_SZ_I16 \<Rightarrow> 32767 | VL_SZ_I32 \<Rightarrow> 2147483647
     | VL_SZ_U8 \<Rightarrow> 255 | VL_SZ_U16 \<Rightarrow> 65535 | VL_SZ_U32 \<Rightarrow> 4294967295 | VL_SZ_U64 \<Rightarrow> 2 ^ 63 - 1)"

definition sz_name :: "sz \<Rightarrow> string" where
  "sz_name t = (case t of VL_SZ_I8 \<Rightarrow> ''i8'' | VL_SZ_I16 \<Rightarrow> ''i16'' | VL_SZ_I32 \<Rightarrow> ''i32''
     | VL_SZ_U8 \<Rightarrow> ''u8'' | VL_SZ_U16 \<Rightarrow> ''u16'' | VL_SZ_U32 \<Rightarrow> ''u32'' | VL_SZ_U64 \<Rightarrow> ''u64'')"

definition sz_code :: "string \<Rightarrow> sz option" where
  "sz_code n =
     (if n = ''i8'' then Some VL_SZ_I8 else if n = ''i16'' then Some VL_SZ_I16
      else if n = ''i32'' then Some VL_SZ_I32 else if n = ''u8'' \<or> n = ''byte'' then Some VL_SZ_U8
      else if n = ''u16'' then Some VL_SZ_U16 else if n = ''u32'' then Some VL_SZ_U32
      else if n = ''u64'' then Some VL_SZ_U64 else None)"

definition in_sz :: "sz \<Rightarrow> int \<Rightarrow> bool" where
  "in_sz t c \<longleftrightarrow> \<not> (c < vl_sz_lo t \<or> c > vl_sz_hi t)"

definition vl_trap_szovf :: "string \<Rightarrow> int \<Rightarrow> int \<Rightarrow> sz \<Rightarrow> exn" where
  "vl_trap_szovf op a b t =
     Throw ''OverflowError'' (''integer overflow: '' @ int_text a @ '' '' @ op @ '' '' @ int_text b
       @ '' is out of range for '' @ sz_name t)"

definition vl_trap_szneg :: "int \<Rightarrow> sz \<Rightarrow> exn" where
  "vl_trap_szneg a t =
     Throw ''OverflowError'' (''integer overflow: -('' @ int_text a @ '') is out of range for '' @ sz_name t)"

definition vl_trap_szval :: "int \<Rightarrow> sz \<Rightarrow> exn" where
  "vl_trap_szval v t =
     Throw ''OverflowError'' (''integer overflow: '' @ int_text v @ '' is out of range for '' @ sz_name t)"

definition vl_iadd_sz :: "int \<Rightarrow> int \<Rightarrow> sz \<Rightarrow> int result" where
  "vl_iadd_sz a b t = (if \<not> i64 (a + b) \<or> \<not> in_sz t (a + b) then Inl (vl_trap_szovf ''+'' a b t) else Inr (a + b))"

definition vl_isub_sz :: "int \<Rightarrow> int \<Rightarrow> sz \<Rightarrow> int result" where
  "vl_isub_sz a b t = (if \<not> i64 (a - b) \<or> \<not> in_sz t (a - b) then Inl (vl_trap_szovf ''-'' a b t) else Inr (a - b))"

definition vl_imul_sz :: "int \<Rightarrow> int \<Rightarrow> sz \<Rightarrow> int result" where
  "vl_imul_sz a b t = (if \<not> i64 (a * b) \<or> \<not> in_sz t (a * b) then Inl (vl_trap_szovf ''*'' a b t) else Inr (a * b))"

definition vl_ineg_sz :: "int \<Rightarrow> sz \<Rightarrow> int result" where
  "vl_ineg_sz a t = (if a = - (2 ^ 63) \<or> \<not> in_sz t (- a) then Inl (vl_trap_szneg a t) else Inr (- a))"

definition vl_ipow_sz :: "int \<Rightarrow> int \<Rightarrow> sz \<Rightarrow> int result" where
  "vl_ipow_sz a b t =
     bind_result (vl_ipow_i a b) (\<lambda>c. if \<not> in_sz t c then Inl (vl_trap_szovf ''**'' a b t) else Inr c)"

definition vl_idiv_sz :: "int \<Rightarrow> int \<Rightarrow> sz \<Rightarrow> int result" where
  "vl_idiv_sz a b t =
     bind_result (vl_ifloordiv a b) (\<lambda>c. if \<not> in_sz t c then Inl (vl_trap_szovf ''~/'' a b t) else Inr c)"

definition vl_cksz_i :: "int \<Rightarrow> sz \<Rightarrow> int result" where
  "vl_cksz_i v t = (if \<not> in_sz t v then Inl (vl_trap_szval v t) else Inr v)"


subsection \<open>Properties\<close>

lemma i64_mult_grow: "\<not> i64 x \<Longrightarrow> 1 \<le> y \<Longrightarrow> \<not> i64 (x * y)"
proof -
  assume x: "\<not> i64 x" and y: "1 \<le> y"
  have "x < - (2 ^ 63) \<or> 2 ^ 63 \<le> x" using x by (auto simp: i64_def)
  then show ?thesis
  proof
    assume "x < - (2 ^ 63)"
    moreover have "x * y \<le> x * 1" using y \<open>x < - (2 ^ 63)\<close> by (intro mult_left_mono_neg) auto
    ultimately have "x * y < - (2 ^ 63)" by linarith
    then show ?thesis by (simp add: i64_def)
  next
    assume "2 ^ 63 \<le> x"
    moreover have "x * 1 \<le> x * y" using y \<open>2 ^ 63 \<le> x\<close> by (intro mult_left_mono) auto
    ultimately have "2 ^ 63 \<le> x * y" using \<open>2 ^ 63 \<le> x\<close> by linarith
    then show ?thesis by (simp add: i64_def)
  qed
qed

lemma square_not_2_63: "(b :: int) * b \<noteq> 2 ^ 63"
proof -
  have abs: "b * b = \<bar>b\<bar> * \<bar>b\<bar>" by simp
  show ?thesis
  proof (cases "\<bar>b\<bar> \<le> 3037000499")
    case True
    then have "\<bar>b\<bar> * \<bar>b\<bar> \<le> 3037000499 * 3037000499" by (intro mult_mono) auto
    then show ?thesis unfolding abs by simp
  next
    case False
    then have "3037000500 * 3037000500 \<le> \<bar>b\<bar> * \<bar>b\<bar>" by (intro mult_mono) auto
    then show ?thesis unfolding abs by simp
  qed
qed

lemma square_overflow: "\<not> i64 (b * b) \<Longrightarrow> s \<noteq> 0 \<Longrightarrow> \<not> i64 (s * (b * b))"
proof -
  assume b: "\<not> i64 (b * b)" and s: "s \<noteq> 0"
  have "0 \<le> b * b" by simp
  with b square_not_2_63 [of b] have big: "2 ^ 63 + 1 \<le> b * b" by (auto simp: i64_def)
  have "1 * (2 ^ 63 + 1) \<le> \<bar>s\<bar> * (b * b)" using s big by (intro mult_mono) auto
  then have "2 ^ 63 + 1 \<le> \<bar>s * (b * b)\<bar>" by (simp add: abs_mult)
  then show ?thesis by (auto simp: i64_def)
qed

lemma ipow_loop_exact:
  assumes "i64 r" "0 \<le> e" "r \<noteq> 0 \<or> b = 0"
  shows "ipow_loop e r b = (if i64 (r * b ^ nat e) then Some (r * b ^ nat e) else None)"
  using assms
proof (induction e r b rule: ipow_loop.induct)
  case (1 e r b)
  show ?case
  proof (cases "e \<le> 0")
    case True
    then show ?thesis using 1 by (simp add: ipow_loop.simps [of 0])
  next
    case pos: False
    define s where "s = (if odd e then r * b else r)"
    define k where "k = nat (e div 2)"
    have "nat e = 2 * k + (if odd e then 1 else 0)"
      using pos by (auto simp: k_def nat_eq_iff elim: evenE oddE)
    then have pow: "r * b ^ nat e = s * (b * b) ^ k"
      by (auto simp: s_def power_mult power2_eq_square algebra_simps)
    have s0: "s \<noteq> 0 \<or> b = 0" using 1(4) by (auto simp: s_def)
    consider (mul) "odd e" "\<not> i64 s" | (sq) "i64 s" "1 < e" "\<not> i64 (b * b)"
      | (last) "i64 s" "e = 1" | (rec) "i64 s" "1 < e" "i64 (b * b)"
    proof -
      have "\<not> i64 s \<Longrightarrow> odd e" using 1(2) by (auto simp: s_def split: if_splits)
      moreover have "e = 1 \<or> 1 < e" using pos by linarith
      ultimately show ?thesis using that by blast
    qed
    then show ?thesis
    proof cases
      case mul
      have "b \<noteq> 0" using mul by (auto simp: s_def i64_def)
      then have "1 \<le> b * b" using zero_less_mult_iff [of b b] by linarith
      then have "1 \<le> (b * b) ^ k" by (rule one_le_power)
      then have "\<not> i64 (r * b ^ nat e)" unfolding pow using mul(2) by (intro i64_mult_grow)
      then show ?thesis using mul pos by (simp add: ipow_loop.simps [of e] s_def)
    next
      case sq
      have "b \<noteq> 0" using sq(3) by (auto simp: i64_def)
      then have "s \<noteq> 0" "1 \<le> b * b" using s0 zero_less_mult_iff [of b b] by (simp, linarith)
      have "\<not> i64 (s * (b * b) * (b * b) ^ (k - 1))"
        using \<open>1 \<le> b * b\<close> by (intro i64_mult_grow [OF square_overflow [OF sq(3) \<open>s \<noteq> 0\<close>]] one_le_power)
      moreover have "k = Suc (k - 1)" using sq(2) by (simp add: k_def)
      then have "(b * b) ^ k = b * b * (b * b) ^ (k - 1)" by (metis power_Suc)
      ultimately have "\<not> i64 (r * b ^ nat e)" unfolding pow by (simp add: mult.assoc)
      then show ?thesis using sq pos by (simp add: ipow_loop.simps [of e] s_def)
    next
      case last
      then show ?thesis by (simp add: ipow_loop.simps [of 1] ipow_loop.simps [of 0] s_def)
    next
      case rec
      have n: "\<not> (odd e \<and> \<not> i64 (r * b))" "\<not> (1 < e \<and> \<not> i64 (b * b))"
        using rec by (auto simp: s_def split: if_splits)
      have "ipow_loop (e div 2) s (b * b) = (if i64 (s * (b * b) ^ k) then Some (s * (b * b) ^ k) else None)"
        using 1(1) [OF pos n] rec s0 pos by (cases "odd e") (simp_all add: s_def k_def)
      moreover have "ipow_loop e r b = ipow_loop (e div 2) s (b * b)"
        using n rec(2) pos by (subst ipow_loop.simps) (auto simp: s_def)
      ultimately show ?thesis by (simp only: pow)
    qed
  qed
qed

lemma sdiv_floor:
  fixes a b :: int
  assumes "b \<noteq> 0"
  shows "(if a smod b \<noteq> 0 \<and> (a < 0) \<noteq> (b < 0) then a sdiv b - 1 else a sdiv b) = a div b"
    and "(if a smod b \<noteq> 0 \<and> (a < 0) \<noteq> (b < 0) then a smod b + b else a smod b) = a mod b"
proof -
  have z: "a smod b = 0 \<longleftrightarrow> b dvd a"
    by (auto simp: signed_modulo_int_def sgn_0_0 simp flip: dvd_eq_mod_eq_0)
  have "\<not> b dvd a \<Longrightarrow> sgn a \<noteq> sgn b \<longleftrightarrow> (a < 0) \<noteq> (b < 0)"
    using assms by (cases "a = 0") (auto simp: sgn_if)
  with z assms show
    "(if a smod b \<noteq> 0 \<and> (a < 0) \<noteq> (b < 0) then a sdiv b - 1 else a sdiv b) = a div b"
    "(if a smod b \<noteq> 0 \<and> (a < 0) \<noteq> (b < 0) then a smod b + b else a smod b) = a mod b"
    by (auto simp: divide_int_eq_signed_divide_int modulo_int_eq_signed_modulo_int)
qed

lemma div_pos_range:
  fixes x c :: int
  assumes "1 \<le> c"
  shows "0 \<le> x \<Longrightarrow> 0 \<le> x div c \<and> x div c \<le> x" "x < 0 \<Longrightarrow> x \<le> x div c \<and> x div c < 0"
  using zdiv_mono2 [of x 1 c] zdiv_mono2_neg [of x 1 c] assms
  by (auto simp: pos_imp_zdiv_nonneg_iff neg_imp_zdiv_neg_iff pos_imp_zdiv_neg_iff)

lemma i64_div:
  assumes "i64 a" "b \<noteq> 0" "\<not> (b = - 1 \<and> a = - (2 ^ 63))"
  shows "i64 (a div b)"
proof -
  consider "1 \<le> b" | "b = - 1" | "b \<le> - 2" using assms(2) by linarith
  then show ?thesis
  proof cases
    case 1
    then show ?thesis using div_pos_range [OF 1, of a] assms(1) by (cases "0 \<le> a") (auto simp: i64_def)
  next
    case 2
    then show ?thesis using assms by (auto simp: i64_def)
  next
    case 3
    have e: "a div b = (- a) div (- b)" by simp
    have "(- a) div (- b) \<le> (- a) div 2" if "0 \<le> - a" using zdiv_mono2 [of "- a" 2 "- b"] 3 that by simp
    moreover have "(- a) div 2 \<le> 2 ^ 63 div 2" using assms(1) by (intro zdiv_mono1) (auto simp: i64_def)
    ultimately show ?thesis
      unfolding e using div_pos_range [of "- b" "- a"] 3 assms(1) by (cases "0 \<le> - a") (auto simp: i64_def)
  qed
qed

lemma i64_mod:
  assumes "i64 a" "i64 b"
  shows "i64 (a mod b)"
proof -
  consider "b = 0" | "0 < b" | "b < 0" by linarith
  then show ?thesis
  proof cases
    case 2
    show ?thesis using 2 assms pos_mod_bound [OF 2, of a] pos_mod_sign [OF 2, of a] unfolding i64_def by linarith
  next
    case 3
    show ?thesis using 3 assms neg_mod_bound [OF 3, of a] neg_mod_sign [OF 3, of a] unfolding i64_def by linarith
  qed (use assms in simp)
qed

text \<open>The operators \<open>~/\<close> and \<open>%\<close> on integers are floor division and its remainder, for every pair
  of \<^verbatim>\<open>int64_t\<close> operands: zero divides with a \<^verbatim>\<open>RangeError\<close>, the one quotient that does not fit
  (\<open>INT64_MIN ~/ -1\<close>) throws \<^verbatim>\<open>OverflowError\<close>, and every other result is exact and in range.\<close>

theorem int_floor_division:
  assumes "i64 a" "i64 b"
  shows "vl_ifloordiv a b =
      (if b = 0 then Inl vl_trap_div0 else if i64 (a div b) then Inr (a div b) else Inl (vl_trap_iovf ''~/'' a b)) \<and>
    vl_ifloormod a b = (if b = 0 then Inl vl_trap_div0 else Inr (a mod b)) \<and>
    i64 (a mod b)"
proof (intro conjI)
  show "vl_ifloordiv a b =
      (if b = 0 then Inl vl_trap_div0 else if i64 (a div b) then Inr (a div b) else Inl (vl_trap_iovf ''~/'' a b))"
    using i64_div [OF assms(1)] sdiv_floor(1) [of b a] by (auto simp: vl_ifloordiv_def Let_def i64_def)
  show "vl_ifloormod a b = (if b = 0 then Inl vl_trap_div0 else Inr (a mod b))"
    using sdiv_floor(2) [of b a] by (auto simp: vl_ifloormod_def Let_def)
  show "i64 (a mod b)" using assms by (rule i64_mod)
qed

theorem int_floor_division_witness:
  "vl_ifloordiv (- 7) 2 = Inr (- 4) \<and> vl_ifloormod (- 7) 2 = Inr 1 \<and>
   vl_ifloordiv (- (2 ^ 63)) (- 1) = Inl (vl_trap_iovf ''~/'' (- (2 ^ 63)) (- 1))"
  using int_floor_division [of "- 7" 2] int_floor_division [of "- (2 ^ 63)" "- 1"] by (simp add: i64_def)

text \<open>C19. The trap discipline of the integer operators: addition, subtraction, multiplication,
  negation and power return the exact mathematical value when it fits an \<^verbatim>\<open>int64_t\<close> and throw
  \<^verbatim>\<open>OverflowError\<close> when it does not; square-and-multiply never reports an overflow of an
  intermediate product when the power itself fits, nor misses one.\<close>

theorem int_ops_exact_or_trap:
  assumes "i64 a" "i64 b"
  shows "vl_iadd_ck a b = (if i64 (a + b) then Inr (a + b) else Inl (vl_trap_iovf ''+'' a b)) \<and>
    vl_isub_ck a b = (if i64 (a - b) then Inr (a - b) else Inl (vl_trap_iovf ''-'' a b)) \<and>
    vl_imul_ck a b = (if i64 (a * b) then Inr (a * b) else Inl (vl_trap_iovf ''*'' a b)) \<and>
    vl_ineg_ck a = (if i64 (- a) then Inr (- a) else Inl vl_trap_inegovf) \<and>
    (0 \<le> b \<longrightarrow> vl_ipow_i a b = (if i64 (a ^ nat b) then Inr (a ^ nat b) else Inl (vl_trap_iovf ''**'' a b))) \<and>
    (b < 0 \<longrightarrow> (\<exists>m. vl_ipow_i a b = Inl (Throw ''RangeError'' m)))"
proof (intro conjI impI)
  show "vl_ineg_ck a = (if i64 (- a) then Inr (- a) else Inl vl_trap_inegovf)"
    using assms(1) by (auto simp: vl_ineg_ck_def i64_def)
  show "vl_ipow_i a b = (if i64 (a ^ nat b) then Inr (a ^ nat b) else Inl (vl_trap_iovf ''**'' a b))" if "0 \<le> b"
    using that ipow_loop_exact [of 1 b a] by (simp add: vl_ipow_i_def i64_def)
  show "\<exists>m. vl_ipow_i a b = Inl (Throw ''RangeError'' m)" if "b < 0"
    using that by (simp add: vl_ipow_i_def)
qed (simp_all add: vl_iadd_ck_def vl_isub_ck_def vl_imul_ck_def)

theorem int_ops_exact_or_trap_witness:
  "vl_ipow_i (- 2) 63 = Inr (- (2 ^ 63)) \<and> vl_ipow_i 2 63 = Inl (vl_trap_iovf ''**'' 2 63) \<and>
   vl_imul_ck 3 5 = Inr 15"
  using int_ops_exact_or_trap [of "- 2" 63] int_ops_exact_or_trap [of 2 63] int_ops_exact_or_trap [of 3 5]
  by (simp add: i64_def)

lemma in_sz_i64: "in_sz t c \<Longrightarrow> i64 c"
  by (cases t) (auto simp: in_sz_def vl_sz_lo_def vl_sz_hi_def i64_def)

lemma in_sz_2_63: "\<not> in_sz t 9223372036854775808"
  by (cases t) (auto simp: in_sz_def vl_sz_lo_def vl_sz_hi_def)

text \<open>C20. Sized integers: for every sized type the sum, difference, product, negation, power and floor
  quotient of two values is the exact result when that is in the range of the type and an
  \<^verbatim>\<open>OverflowError\<close> naming the type otherwise (a power whose exact value leaves \<^verbatim>\<open>int64_t\<close> altogether is
  reported by the trap of the unsized operator), so a sized location never holds a value outside
  its range.\<close>

theorem sized_ops_exact_or_trap:
  assumes "i64 a" "i64 b"
  shows "vl_iadd_sz a b t = (if in_sz t (a + b) then Inr (a + b) else Inl (vl_trap_szovf ''+'' a b t)) \<and>
    vl_isub_sz a b t = (if in_sz t (a - b) then Inr (a - b) else Inl (vl_trap_szovf ''-'' a b t)) \<and>
    vl_imul_sz a b t = (if in_sz t (a * b) then Inr (a * b) else Inl (vl_trap_szovf ''*'' a b t)) \<and>
    vl_ineg_sz a t = (if in_sz t (- a) then Inr (- a) else Inl (vl_trap_szneg a t)) \<and>
    (0 \<le> b \<longrightarrow> vl_ipow_sz a b t =
       (if in_sz t (a ^ nat b) then Inr (a ^ nat b)
        else if i64 (a ^ nat b) then Inl (vl_trap_szovf ''**'' a b t) else Inl (vl_trap_iovf ''**'' a b))) \<and>
    (b \<noteq> 0 \<longrightarrow> vl_idiv_sz a b t =
       (if in_sz t (a div b) then Inr (a div b)
        else if i64 (a div b) then Inl (vl_trap_szovf ''~/'' a b t) else Inl (vl_trap_iovf ''~/'' a b)))"
proof (intro conjI impI)
  show "vl_ineg_sz a t = (if in_sz t (- a) then Inr (- a) else Inl (vl_trap_szneg a t))"
    by (auto simp: vl_ineg_sz_def in_sz_2_63)
  show "vl_ipow_sz a b t =
       (if in_sz t (a ^ nat b) then Inr (a ^ nat b)
        else if i64 (a ^ nat b) then Inl (vl_trap_szovf ''**'' a b t) else Inl (vl_trap_iovf ''**'' a b))" if "0 \<le> b"
    using that ipow_loop_exact [of 1 b a] by (auto simp: vl_ipow_sz_def vl_ipow_i_def i64_def dest: in_sz_i64)
  show "vl_idiv_sz a b t =
       (if in_sz t (a div b) then Inr (a div b)
        else if i64 (a div b) then Inl (vl_trap_szovf ''~/'' a b t) else Inl (vl_trap_iovf ''~/'' a b))" if "b \<noteq> 0"
  proof -
    have "vl_ifloordiv a b = (if i64 (a div b) then Inr (a div b) else Inl (vl_trap_iovf ''~/'' a b))"
      using that i64_div [OF assms(1) that] sdiv_floor(1) [OF that, of a]
      by (auto simp: vl_ifloordiv_def Let_def i64_def)
    then show ?thesis by (auto simp: vl_idiv_sz_def dest: in_sz_i64)
  qed
qed (auto simp: vl_iadd_sz_def vl_isub_sz_def vl_imul_sz_def dest: in_sz_i64)

theorem sized_ops_exact_or_trap_witness:
  "vl_iadd_sz 200 100 VL_SZ_U8 = Inl (vl_trap_szovf ''+'' 200 100 VL_SZ_U8) \<and>
   vl_ipow_sz 2 7 VL_SZ_U8 = Inr 128 \<and> vl_idiv_sz (- 128) (- 1) VL_SZ_I8 = Inl (vl_trap_szovf ''~/'' (- 128) (- 1) VL_SZ_I8)"
  using sized_ops_exact_or_trap [of 200 100 VL_SZ_U8] sized_ops_exact_or_trap [of 2 7 VL_SZ_U8]
    sized_ops_exact_or_trap [of "- 128" "- 1" VL_SZ_I8]
  by (simp add: i64_def in_sz_def vl_sz_lo_def vl_sz_hi_def)

subsection \<open>Shifts\<close>

lemma to_i64_range: "i64 (to_i64 u)"
  using pos_mod_bound [of "2 ^ 64" u] by (auto simp: to_i64_def i64_def not_less)

lemma to_i64_cong: "to_i64 u mod 2 ^ 64 = u mod 2 ^ 64"
  by (auto simp: to_i64_def mod_diff_right_eq mod_diff_left_eq)

lemma to_i64_id: "i64 u \<Longrightarrow> to_i64 u = u"
proof -
  assume u: "i64 u"
  have "u mod 2 ^ 64 = (if u < 0 then u + 2 ^ 64 else u)"
    using u by (auto simp: i64_def intro: mod_pos_pos_trivial) (subst mod_add_self2 [symmetric], rule mod_pos_pos_trivial, simp_all)
  then show ?thesis using u by (auto simp: to_i64_def i64_def)
qed

text \<open>A left shift is multiplication by a power of two modulo \<open>2 ^ 64\<close>, exact when the product
  fits; a right shift is floor division by it.\<close>

lemma shifts_correct:
  assumes "i64 a" "0 \<le> n" "n \<le> 63"
  shows "\<exists>r. vl_ishl_ck a n = Inr r \<and> i64 r \<and> r mod 2 ^ 64 = a * 2 ^ nat n mod 2 ^ 64 \<and>
      (i64 (a * 2 ^ nat n) \<longrightarrow> r = a * 2 ^ nat n)"
    and "vl_ishr_ck a n = Inr (a div 2 ^ nat n)"
proof -
  have e: "to_i64 (a mod 2 ^ 64 * 2 ^ nat n) = to_i64 (a * 2 ^ nat n)"
    by (simp add: to_i64_def mod_mult_left_eq)
  show "\<exists>r. vl_ishl_ck a n = Inr r \<and> i64 r \<and> r mod 2 ^ 64 = a * 2 ^ nat n mod 2 ^ 64 \<and>
      (i64 (a * 2 ^ nat n) \<longrightarrow> r = a * 2 ^ nat n)"
    using assms to_i64_range to_i64_cong to_i64_id unfolding vl_ishl_ck_def e by auto
  show "vl_ishr_ck a n = Inr (a div 2 ^ nat n)"
    using assms by (simp add: vl_ishr_ck_def drop_bit_eq_div)
qed

end
