(* ===== verification/Float64.thy ===== *)
theory Float64
  imports IntOps "HOL-Library.Log_Nat"
begin

section \<open>The C type double\<close>

text \<open>
  A \<^verbatim>\<open>double\<close> is its 64-bit pattern (IEEE 754 binary64): sign, eleven bits of exponent, 52 bits of
  fraction.  \<open>fl_num\<close> reads the number a pattern stands for; \<open>fl_of_rat\<close> rounds a rational to the
  nearest double, ties to the even significand; the arithmetic of the language is the exact
  operation followed by that rounding.  Comparisons are those of the numbers, false on NaN.
\<close>

type_synonym dbl = "64 word"

subsection \<open>Patterns and numbers\<close>

datatype flnum = FNan | FInf bool | FFin rat

definition fl_sign :: "dbl \<Rightarrow> bool" where
  "fl_sign x \<longleftrightarrow> 2 ^ 63 \<le> unat x"

definition fl_field :: "dbl \<Rightarrow> nat" where
  "fl_field x = unat x div 2 ^ 52 mod 2 ^ 11"

definition fl_frac :: "dbl \<Rightarrow> nat" where
  "fl_frac x = unat x mod 2 ^ 52"

definition fl_num :: "dbl \<Rightarrow> flnum" where
  "fl_num x =
     (if fl_field x = 2047 then (if fl_frac x = 0 then FInf (fl_sign x) else FNan)
      else FFin ((if fl_sign x then - 1 else 1) *
        (if fl_field x = 0 then of_nat (fl_frac x) * 2 powi (- 1074)
         else of_nat (2 ^ 52 + fl_frac x) * 2 powi (int (fl_field x) - 1075))))"

definition fl_nan :: dbl where "fl_nan = 0x7FF8000000000000"

definition fl_inf :: "bool \<Rightarrow> dbl" where
  "fl_inf s = (if s then 0xFFF0000000000000 else 0x7FF0000000000000)"

definition fl_zero :: "bool \<Rightarrow> dbl" where
  "fl_zero s = (if s then 0x8000000000000000 else 0)"

text \<open>The binary exponent of a positive rational, from the lengths of its numerator and
  denominator.\<close>

definition binade :: "rat \<Rightarrow> int" where
  "binade q =
     (let (n, d) = quotient_of q;
          e = int (floorlog 2 (nat n)) - int (floorlog 2 (nat d))
      in if 2 powi e \<le> q then e else e - 1)"

text \<open>The quantum of the result, the significand in quanta, and the pattern: adding the significand
  to the exponent field carries into it exactly when the rounding reached the next binade.\<close>

definition fl_of_rat :: "bool \<Rightarrow> rat \<Rightarrow> dbl" where
  "fl_of_rat zs q =
     (if q = 0 then fl_zero zs
      else let e = max (binade \<bar>q\<bar> - 52) (- 1074);
               m = nat (round_he (\<bar>q\<bar> / 2 powi e));
               b = nat (e + 1074) * 2 ^ 52 + m
           in if 2047 * 2 ^ 52 \<le> b then fl_inf (q < 0)
              else of_nat ((if q < 0 then 2 ^ 63 else 0) + b))"

definition fl_of_int :: "int \<Rightarrow> dbl" where
  "fl_of_int n = fl_of_rat False (of_int n)"

subsection \<open>Comparisons and arithmetic\<close>

fun num_lt :: "flnum \<Rightarrow> flnum \<Rightarrow> bool" where
  "num_lt (FFin x) (FFin y) \<longleftrightarrow> x < y"
| "num_lt (FInf s) (FFin y) \<longleftrightarrow> s"
| "num_lt (FFin x) (FInf s) \<longleftrightarrow> \<not> s"
| "num_lt (FInf s) (FInf t) \<longleftrightarrow> s \<and> \<not> t"
| "num_lt _ _ \<longleftrightarrow> False"

definition fl_lt :: "dbl \<Rightarrow> dbl \<Rightarrow> bool" where
  "fl_lt x y = num_lt (fl_num x) (fl_num y)"

definition fl_eq :: "dbl \<Rightarrow> dbl \<Rightarrow> bool" where
  "fl_eq x y \<longleftrightarrow> fl_num x \<noteq> FNan \<and> fl_num x = fl_num y"

definition fl_le :: "dbl \<Rightarrow> dbl \<Rightarrow> bool" where
  "fl_le x y \<longleftrightarrow> fl_lt x y \<or> fl_eq x y"

definition fl_neg :: "dbl \<Rightarrow> dbl" where
  "fl_neg x = x XOR 0x8000000000000000"

definition fl_add :: "dbl \<Rightarrow> dbl \<Rightarrow> dbl" where
  "fl_add x y =
     (case (fl_num x, fl_num y) of
        (FNan, _) \<Rightarrow> fl_nan
      | (_, FNan) \<Rightarrow> fl_nan
      | (FInf s, FInf t) \<Rightarrow> (if s = t then fl_inf s else fl_nan)
      | (FInf s, _) \<Rightarrow> fl_inf s
      | (_, FInf t) \<Rightarrow> fl_inf t
      | (FFin a, FFin b) \<Rightarrow> fl_of_rat (fl_sign x \<and> fl_sign y) (a + b))"

definition fl_sub :: "dbl \<Rightarrow> dbl \<Rightarrow> dbl" where
  "fl_sub x y = fl_add x (fl_neg y)"

definition fl_mul :: "dbl \<Rightarrow> dbl \<Rightarrow> dbl" where
  "fl_mul x y =
     (let s = (fl_sign x \<noteq> fl_sign y)
      in case (fl_num x, fl_num y) of
           (FNan, _) \<Rightarrow> fl_nan
         | (_, FNan) \<Rightarrow> fl_nan
         | (FInf _, FFin b) \<Rightarrow> (if b = 0 then fl_nan else fl_inf s)
         | (FFin a, FInf _) \<Rightarrow> (if a = 0 then fl_nan else fl_inf s)
         | (FInf _, FInf _) \<Rightarrow> fl_inf s
         | (FFin a, FFin b) \<Rightarrow> fl_of_rat s (a * b))"

definition fl_div :: "dbl \<Rightarrow> dbl \<Rightarrow> dbl" where
  "fl_div x y =
     (let s = (fl_sign x \<noteq> fl_sign y)
      in case (fl_num x, fl_num y) of
           (FNan, _) \<Rightarrow> fl_nan
         | (_, FNan) \<Rightarrow> fl_nan
         | (FInf _, FInf _) \<Rightarrow> fl_nan
         | (FInf _, FFin _) \<Rightarrow> fl_inf s
         | (FFin _, FInf _) \<Rightarrow> fl_zero s
         | (FFin a, FFin b) \<Rightarrow>
             (if b = 0 then (if a = 0 then fl_nan else fl_inf s) else fl_of_rat s (a / b)))"

text \<open>\<^verbatim>\<open>floor\<close> and \<^verbatim>\<open>fmod\<close> of the C library: exact on finite arguments; a zero result has the sign of
  the argument.\<close>

definition fl_floor :: "dbl \<Rightarrow> dbl" where
  "fl_floor x = (case fl_num x of FFin a \<Rightarrow> fl_of_rat (fl_sign x) (of_int \<lfloor>a\<rfloor>) | _ \<Rightarrow> x)"

definition fl_fmod :: "dbl \<Rightarrow> dbl \<Rightarrow> dbl" where
  "fl_fmod x y =
     (case (fl_num x, fl_num y) of
        (FFin a, FFin b) \<Rightarrow>
          (if b = 0 then fl_nan
           else fl_of_rat (fl_sign x) (a - b * of_int (let q = a / b in if 0 \<le> q then \<lfloor>q\<rfloor> else \<lceil>q\<rceil>)))
      | (FFin a, FInf _) \<Rightarrow> x
      | _ \<Rightarrow> fl_nan)"

subsection \<open>Rounding integers\<close>

lemma unat_of_nat64: "n < 2 ^ 64 \<Longrightarrow> unat (of_nat n :: 64 word) = n"
  unfolding unat_of_nat by (intro mod_less) simp

lemma floorlog_powi:
  assumes "0 < k"
  shows "(2 :: rat) powi (int (floorlog 2 k) - 1) \<le> of_nat k" "of_nat k < (2 :: rat) powi int (floorlog 2 k)"
proof -
  note b = floorlog_bounds [OF assms, of 2]
  have "floorlog 2 k \<noteq> 0" using assms by (simp add: floorlog_eq_zero_iff)
  then have "int (floorlog 2 k) - 1 = int (floorlog 2 k - 1)" by simp
  then have "(2 :: rat) powi (int (floorlog 2 k) - 1) = of_nat (2 ^ (floorlog 2 k - 1))"
    by (simp only: power_int_of_nat of_nat_power of_nat_numeral)
  also have "\<dots> \<le> of_nat k" using b by (simp only: of_nat_le_iff)
  finally show "(2 :: rat) powi (int (floorlog 2 k) - 1) \<le> of_nat k" .
  have "(of_nat k :: rat) < of_nat (2 ^ floorlog 2 k)" using b by (simp only: of_nat_less_iff)
  then show "of_nat k < (2 :: rat) powi int (floorlog 2 k)" by simp
qed

lemma binade_bounds:
  assumes "0 < q"
  shows "2 powi (binade q) \<le> q" "q < 2 powi (binade q + 1)"
proof -
  obtain n d where nd: "quotient_of q = (n, d)" by (cases "quotient_of q")
  then have q: "q = of_int n / of_int d" and d: "0 < d" by (simp_all add: quotient_of_div quotient_of_denom_pos)
  with assms have n: "0 < n" by (simp add: zero_less_divide_iff)
  define a where "a = int (floorlog 2 (nat n))"
  define b where "b = int (floorlog 2 (nat d))"
  have "of_nat (nat n) = (of_int n :: rat)" "of_nat (nat d) = (of_int d :: rat)" using n d by simp_all
  then have n2: "2 powi (a - 1) \<le> (of_int n :: rat)" "(of_int n :: rat) < 2 powi a"
    and d2: "2 powi (b - 1) \<le> (of_int d :: rat)" "(of_int d :: rat) < 2 powi b"
    using floorlog_powi [of "nat n"] floorlog_powi [of "nat d"] n d by (simp_all add: a_def b_def)
  have "q < 2 powi a / 2 powi (b - 1)"
    unfolding q using n2(2) d2(1) n by (intro frac_less of_int_nonneg) (simp_all only: less_imp_le zero_less_power_int zero_less_numeral)
  also have "\<dots> = 2 powi (a - b + 1)" by (simp add: power_int_diff [symmetric] algebra_simps)
  finally have hi: "q < 2 powi (a - b + 1)" .
  have "2 powi (a - b - 1) = (2 :: rat) powi (a - 1) / 2 powi b" by (simp add: power_int_diff [symmetric] algebra_simps)
  also have "\<dots> \<le> q" unfolding q using n2 d2 d n by (intro frac_le) simp_all
  finally have "2 powi (a - b - 1) \<le> q" .
  with hi show "2 powi (binade q) \<le> q" "q < 2 powi (binade q + 1)"
    by (auto simp: binade_def nd Let_def a_def b_def)
qed

lemma binade_unique:
  assumes "2 powi e \<le> q" "q < 2 powi (e + 1)"
  shows "binade q = e"
proof -
  have "0 < q" using assms(1) less_le_trans [of 0 "2 powi e" q] by simp
  note b = binade_bounds [OF this]
  have "(2 :: rat) powi binade q < 2 powi (e + 1)" "(2 :: rat) powi e < 2 powi (binade q + 1)"
    using b assms by (blast intro: le_less_trans)+
  then have "\<not> e + 1 \<le> binade q" "\<not> binade q + 1 \<le> e"
    using power_int_increasing [of "e + 1" "binade q" "2 :: rat"] power_int_increasing [of "binade q + 1" e "2 :: rat"]
    by linarith+
  then show ?thesis by linarith
qed

lemma round_he_floor: "\<lfloor>x\<rfloor> \<le> round_he x" "round_he x \<le> \<lfloor>x\<rfloor> + 1"
  by (simp_all add: round_he_def Let_def)

lemma field_frac:
  assumes "j < 2 ^ 52" "k < 2 ^ 11"
  shows "fl_field (of_nat ((if s then 2 ^ 63 else 0) + (k * 2 ^ 52 + j))) = k"
    and "fl_frac (of_nat ((if s then 2 ^ 63 else 0) + (k * 2 ^ 52 + j))) = j"
    and "fl_sign (of_nat ((if s then 2 ^ 63 else 0) + (k * 2 ^ 52 + j))) = s"
proof -
  let ?b = "(if s then 2 ^ 63 else 0) + (k * 2 ^ 52 + j)"
  have kj: "k * 2 ^ 52 + j < 2 ^ 63" using assms by simp
  then have u: "unat (of_nat ?b :: 64 word) = ?b" by (intro unat_of_nat64) simp
  have d: "?b div 2 ^ 52 = (if s then 2 ^ 11 else 0) + k" "?b mod 2 ^ 52 = j"
  proof -
    have e: "?b = j + ((if s then 2 ^ 11 else 0) + k) * 2 ^ 52" by simp
    show "?b div 2 ^ 52 = (if s then 2 ^ 11 else 0) + k" unfolding e using assms(1) by (subst div_mult_self1) simp_all
    show "?b mod 2 ^ 52 = j" unfolding e using assms(1) by (subst mod_mult_self1) simp_all
  qed
  show "fl_field (of_nat ?b) = k" unfolding fl_field_def u d(1) using assms(2) by simp
  show "fl_frac (of_nat ?b) = j" unfolding fl_frac_def u d(2) ..
  show "fl_sign (of_nat ?b) = s" unfolding fl_sign_def u using kj by simp
qed

text \<open>A pattern assembled from a quantum and a significand stands for their product.\<close>

lemma fl_num_pattern:
  assumes "m \<le> 2 ^ 53" "k = 0 \<or> 2 ^ 52 \<le> m" "k * 2 ^ 52 + m < 2047 * 2 ^ 52"
  shows "fl_num (of_nat ((if s then 2 ^ 63 else 0) + (k * 2 ^ 52 + m))) =
    FFin ((if s then - 1 else 1) * (of_nat m * 2 powi (int k - 1074)))"
proof -
  consider "k = 0" "m < 2 ^ 52" | "2 ^ 52 \<le> m" "m < 2 ^ 53" | "m = 2 ^ 53" using assms(1,2) by linarith
  then show ?thesis
  proof cases
    case 1
    then show ?thesis using field_frac [of m 0 s] by (simp add: fl_num_def)
  next
    case 2
    then have e: "k * 2 ^ 52 + m = (k + 1) * 2 ^ 52 + (m - 2 ^ 52)" by simp
    have "k + 1 < 2047" using 2 assms(3) by simp
    then show ?thesis unfolding e
      using field_frac [of "m - 2 ^ 52" "k + 1" s] 2 by (simp add: fl_num_def algebra_simps del: of_nat_add)
  next
    case 3
    then have e: "k * 2 ^ 52 + m = (k + 2) * 2 ^ 52 + 0" by simp
    have "k + 2 < 2047" using 3 assms(3) by simp
    moreover have "(2 :: rat) powi (int (k + 2) - 1075) = 2 * 2 powi (int k - 1074)"
      using power_int_add_1 [of "2 :: rat" "int k - 1074"] by (simp add: algebra_simps)
    ultimately show ?thesis unfolding e
      using field_frac [of 0 "k + 2" s] 3 by (simp add: fl_num_def algebra_simps del: of_nat_add)
  qed
qed

text \<open>Rounding is right: for a nonzero rational below the overflow bound, \<open>fl_of_rat\<close> is the pattern
  of the multiple of the quantum \<open>2 powi e\<close> nearest to it, ties to even.\<close>

lemma fl_of_rat_value:
  assumes q: "q \<noteq> 0" and e: "e = max (binade \<bar>q\<bar> - 52) (- 1074)"
    and small: "\<bar>q\<bar> < 2 powi 1023"
  shows "fl_num (fl_of_rat zs q) = FFin (of_int (round_he (q / 2 powi e)) * 2 powi e)"
proof -
  let ?x = "\<bar>q\<bar> / 2 powi e"
  define m where "m = nat (round_he ?x)"
  define k where "k = nat (e + 1074)"
  have b: "2 powi binade \<bar>q\<bar> \<le> \<bar>q\<bar>" "\<bar>q\<bar> < 2 powi (binade \<bar>q\<bar> + 1)" using binade_bounds [of "\<bar>q\<bar>"] q by auto
  have "\<bar>q\<bar> < 2 powi (e + 53)"
    using b(2) power_int_increasing [of "binade \<bar>q\<bar> + 1" "e + 53" "2 :: rat"] e by linarith
  then have x: "?x < 2 ^ 53" by (simp add: divide_less_eq power_int_add)
  then have "\<lfloor>?x\<rfloor> < 2 ^ 53" by (simp add: floor_less_iff)
  then have "round_he ?x \<le> 2 ^ 53" using round_he_floor(2) [of ?x] by linarith
  then have m53: "m \<le> 2 ^ 53" by (simp add: m_def)
  have "0 \<le> \<lfloor>?x\<rfloor>" by simp
  then have "0 \<le> round_he ?x" using round_he_floor(1) [of ?x] by linarith
  then have m0: "int m = round_he ?x" by (simp add: m_def)
  have k52: "k = 0 \<or> 2 ^ 52 \<le> m"
  proof (cases "- 1074 < binade \<bar>q\<bar> - 52")
    case True
    then have "e = binade \<bar>q\<bar> - 52" by (simp add: e)
    then have "2 powi e * 2 ^ 52 \<le> \<bar>q\<bar>" using b(1) power_int_add [of "2 :: rat" e 52] by simp
    then have "2 ^ 52 \<le> ?x" by (simp add: le_divide_eq mult.commute)
    then have "2 ^ 52 \<le> \<lfloor>?x\<rfloor>" by (simp add: le_floor_iff)
    then have "2 ^ 52 \<le> round_he ?x" using round_he_floor(1) [of ?x] by linarith
    then have "int (2 ^ 52) \<le> int m" unfolding m0 by simp
    then show ?thesis by (simp only: of_nat_le_iff simp_thms)
  qed (simp add: k_def e)
  have "binade \<bar>q\<bar> < 1023"
    using b(1) small power_int_increasing [of 1023 "binade \<bar>q\<bar>" "2 :: rat"] by linarith
  then have "k \<le> 2044" by (simp add: k_def e)
  then have big: "k * 2 ^ 52 + m < 2047 * 2 ^ 52" using m53 by simp
  have "- 1074 \<le> e" by (simp add: e)
  then have ke: "int k - 1074 = e" by (simp add: k_def)
  have "fl_of_rat zs q = of_nat ((if q < 0 then 2 ^ 63 else 0) + (k * 2 ^ 52 + m))"
    using q big by (simp add: fl_of_rat_def Let_def e [symmetric] k_def [symmetric] m_def [symmetric])
  then have "fl_num (fl_of_rat zs q) = FFin ((if q < 0 then - 1 else 1) * (of_nat m * 2 powi e))"
    using fl_num_pattern [OF m53 k52 big, of "q < 0"] by (simp only: ke)
  moreover have "(if q < 0 then - 1 else 1) * of_nat m = (of_int (round_he (q / 2 powi e)) :: rat)"
  proof -
    have "(of_nat m :: rat) = of_int (round_he ?x)" using m0 by (metis of_int_of_nat_eq)
    then show ?thesis using round_he_minus [of "q / 2 powi e"] by (cases "q < 0") simp_all
  qed
  ultimately show ?thesis by (simp only: mult.assoc [symmetric])
qed

lemma fl_of_rat_exact:
  assumes q: "q \<noteq> 0" "\<bar>q\<bar> < 2 powi 1023" and i: "q / 2 powi max (binade \<bar>q\<bar> - 52) (- 1074) = of_int i"
  shows "fl_num (fl_of_rat zs q) = FFin q"
  using fl_of_rat_value [OF q(1) refl q(2)] i by (simp add: field_simps)

lemma fl_num_zero: "fl_num (fl_zero s) = FFin 0"
  by (simp add: fl_num_def fl_zero_def fl_field_def fl_frac_def)

text \<open>Every integer up to \<open>2 ^ 53\<close> in magnitude is a double; \<open>2 ^ 53 + 1\<close> is not, and rounds to its
  even neighbour.\<close>

lemma fl_of_int_exact:
  assumes "\<bar>n\<bar> \<le> 2 ^ 53"
  shows "fl_num (fl_of_int n) = FFin (of_int n)"
proof (cases "n = 0")
  case True
  then show ?thesis by (simp add: fl_of_int_def fl_of_rat_def fl_num_zero)
next
  case False
  let ?q = "of_int n :: rat"
  define e where "e = max (binade \<bar>?q\<bar> - 52) (- 1074)"
  have b: "2 powi binade \<bar>?q\<bar> \<le> \<bar>?q\<bar>" using binade_bounds [of "\<bar>?q\<bar>"] False by simp
  have le: "\<bar>?q\<bar> \<le> 2 ^ 53" using assms by (simp flip: of_int_abs)
  have small: "\<bar>?q\<bar> < 2 powi 1023"
    using le power_int_strict_increasing [of 53 1023 "2 :: rat"] by simp
  have "binade \<bar>?q\<bar> \<le> 53"
  proof (rule ccontr)
    assume "\<not> binade \<bar>?q\<bar> \<le> 53"
    then have "(2 :: rat) powi 54 \<le> 2 powi binade \<bar>?q\<bar>" by (intro power_int_increasing) simp_all
    then have "(2 :: rat) ^ 54 \<le> 2 ^ 53" using b le by simp
    then show False by simp
  qed
  then consider "e \<le> 0" | "e = 1" "binade \<bar>?q\<bar> = 53" unfolding e_def by linarith
  then have "\<exists>i. ?q / 2 powi e = of_int i"
  proof cases
    case 1
    then have "?q / 2 powi e = of_int (n * 2 ^ nat (- e))"
      by (simp add: power_int_def field_simps)
    then show ?thesis by blast
  next
    case 2
    then have "\<bar>n\<bar> = 2 ^ 53" using b le assms by (simp flip: of_int_abs)
    then have "n = 2 ^ 53 \<or> n = - (2 ^ 53)" by linarith
    then have "n = 2 * (n div 2)" by auto
    then have "?q / 2 powi e = of_int (n div 2)" using 2 by (metis (no_types) nonzero_mult_div_cancel_left of_int_mult of_int_numeral power_int_1_right zero_neq_numeral)
    then show ?thesis by blast
  qed
  then show ?thesis unfolding fl_of_int_def e_def using fl_of_rat_exact [of ?q] False small by auto
qed

text \<open>Implicit widening traps beyond \<open>2 ^ 53\<close>.\<close>

definition vl_itof_ck :: "int \<Rightarrow> dbl result" where
  "vl_itof_ck n = (if n > 2 ^ 53 \<or> n < - (2 ^ 53) then Inl (vl_trap_itof n) else Inr (fl_of_int n))"

definition vl_fdiv_ck :: "dbl \<Rightarrow> dbl \<Rightarrow> dbl result" where
  "vl_fdiv_ck x y = (if fl_eq y 0 then Inl vl_trap_div0 else Inr (fl_div x y))"

definition vl_idivf_ck :: "int \<Rightarrow> int \<Rightarrow> dbl result" where
  "vl_idivf_ck a b =
     (if b = 0 then Inl vl_trap_div0
      else bind_result (vl_itof_ck a) (\<lambda>x. bind_result (vl_itof_ck b) (\<lambda>y. Inr (fl_div x y))))"

definition vl_ffloormod :: "dbl \<Rightarrow> dbl \<Rightarrow> dbl result" where
  "vl_ffloormod x y =
     (if fl_eq y 0 then Inl vl_trap_div0
      else let m = fl_fmod x y
           in Inr (if \<not> fl_eq m 0 \<and> fl_lt m 0 \<noteq> fl_lt y 0 then fl_add m y else m))"

text \<open>The text of the quotient in the message (\<^verbatim>\<open>%g\<close>) is a parameter.\<close>

definition vl_ifloordiv_f :: "(dbl \<Rightarrow> string) \<Rightarrow> dbl \<Rightarrow> dbl \<Rightarrow> int result" where
  "vl_ifloordiv_f g x y =
     (if fl_eq y 0 then Inl vl_trap_div0
      else let q = fl_floor (fl_div x y)
           in case fl_num q of
                FFin r \<Rightarrow>
                  (if - (2 ^ 63) \<le> r \<and> r < 2 ^ 63 then Inr \<lfloor>r\<rfloor>
                   else Inl (Throw ''OverflowError'' (''floor division result '' @ g q @ '' is out of int range'')))
              | _ \<Rightarrow> Inl (Throw ''OverflowError'' (''floor division result '' @ g q @ '' is out of int range'')))"

lemma fl_of_int_rounds: "fl_num (fl_of_int (2 ^ 53 + 1)) = FFin (2 ^ 53)"
proof -
  let ?q = "of_int (2 ^ 53 + 1) :: rat"
  have "binade \<bar>?q\<bar> = 53" by (rule binade_unique) simp_all
  moreover have "\<lfloor>?q / 2\<rfloor> = 2 ^ 52" by (rule floor_unique) simp_all
  then have "round_he (?q / 2) = 2 ^ 52" by (simp add: round_he_def Let_def)
  moreover have "\<bar>?q\<bar> < 2 powi 1023"
    using power_int_strict_increasing [of 54 1023 "2 :: rat"] by simp
  ultimately show ?thesis
    unfolding fl_of_int_def using fl_of_rat_value [of ?q 1 False] by simp
qed

text \<open>Mixed arithmetic widens an integer only without loss: \<open>vl_itof_ck\<close> returns the double whose
  value is the integer, or throws \<^verbatim>\<open>ConvError\<close>; the quotient of two integers is the exact rational
  quotient correctly rounded; division by zero throws before anything is widened.  The guard is
  needed: \<open>2 ^ 53 + 1\<close> converts to the double \<open>2 ^ 53\<close>.\<close>

theorem int_to_float_lossless:
  "(case vl_itof_ck n of Inr x \<Rightarrow> fl_num x = FFin (of_int n) | Inl e \<Rightarrow> e = vl_trap_itof n \<and> 2 ^ 53 < \<bar>n\<bar>) \<and>
   (if \<bar>a\<bar> \<le> 2 ^ 53 \<and> \<bar>b\<bar> \<le> 2 ^ 53 \<and> b \<noteq> 0
    then vl_idivf_ck a b = Inr (fl_of_rat (fl_sign (fl_of_int a) \<noteq> fl_sign (fl_of_int b)) (of_int a / of_int b))
    else True) \<and>
   vl_idivf_ck a 0 = Inl vl_trap_div0 \<and>
   fl_num (fl_of_int (2 ^ 53 + 1)) = FFin (2 ^ 53)"
proof (intro conjI)
  show "case vl_itof_ck n of Inr x \<Rightarrow> fl_num x = FFin (of_int n) | Inl e \<Rightarrow> e = vl_trap_itof n \<and> 2 ^ 53 < \<bar>n\<bar>"
    using fl_of_int_exact [of n] by (auto simp: vl_itof_ck_def)
  show "if \<bar>a\<bar> \<le> 2 ^ 53 \<and> \<bar>b\<bar> \<le> 2 ^ 53 \<and> b \<noteq> 0
    then vl_idivf_ck a b = Inr (fl_of_rat (fl_sign (fl_of_int a) \<noteq> fl_sign (fl_of_int b)) (of_int a / of_int b))
    else True"
    using fl_of_int_exact [of a] fl_of_int_exact [of b]
    by (auto simp: vl_idivf_ck_def vl_itof_ck_def fl_div_def Let_def)
  show "vl_idivf_ck a 0 = Inl vl_trap_div0" by (simp add: vl_idivf_ck_def)
  show "fl_num (fl_of_int (2 ^ 53 + 1)) = FFin (2 ^ 53)" by (rule fl_of_int_rounds)
qed

end
