(* ===== verification/Value.thy ===== *)
theory Value
  imports Float64
begin

section \<open>Values: kinds, equality and hashing (value.c, voila.h, voila\_int.h)\<close>

text \<open>
  A \<^verbatim>\<open>Value\<close> is the tree of what it holds at one moment.  Scalars carry their payload; text,
  decimals, slices, tuples, structs, enums and boxes carry their contents; everything that
  \<^verbatim>\<open>vl_equal\<close> compares by identity carries its address (maps, sets, ranges and shared or cell
  values also carry their contents, for printing).  A type or variant descriptor is a record that
  includes its address, so two descriptors are the same object exactly when they are equal.
\<close>

unbundle bit_operations_syntax

type_synonym addr = "64 word"

record vtype =
  ty_addr :: addr
  ty_name :: string
  ty_fields :: "string list"
  ty_ftypes :: "string list"
  ty_newtype :: bool

record vvariant =
  va_addr :: addr
  va_type :: string
  va_variant :: string
  va_fields :: "string list"

datatype okind =
    K_err | K_closure | K_native | K_chan | K_task | K_weak | K_file | K_builder | K_type | K_frame
  | K_iter | K_socket | K_reader | K_writer | K_mutex | K_rwlock | K_atomic | K_regex | K_proc | K_handle

datatype val =
    V_nil | V_unit | V_bool bool | V_int int | V_float dbl | V_rune nat | V_dur int | V_instant int
  | O_str string | O_dec dec | O_slice "val list" | O_map addr "(val \<times> val) list" | O_set addr "val list"
  | O_tuple "val list" | O_struct vtype "val list" | O_enum vvariant "val list" | O_box val
  | O_range addr int int int bool | O_shared addr val | O_cell addr val | O_opaque okind addr string

subsection \<open>Boxes and newtypes\<close>

fun vl_is_box :: "val \<Rightarrow> bool" where
  "vl_is_box (O_box v) = True"
| "vl_is_box _ = False"

fun vl_is_newtype :: "val \<Rightarrow> bool" where
  "vl_is_newtype (O_struct t fs) = ty_newtype t"
| "vl_is_newtype _ = False"

fun vl_unbox :: "val \<Rightarrow> val" where
  "vl_unbox (O_box v) = vl_unbox v"
| "vl_unbox v = v"

text \<open>A newtype holds its value in its first field.\<close>

fun vl_deref :: "val \<Rightarrow> val" where
  "vl_deref (O_box v) = vl_deref v"
| "vl_deref (O_struct t (v # fs)) = (if ty_newtype t then vl_deref v else O_struct t (v # fs))"
| "vl_deref v = v"

text \<open>An error carries the name of its class, a native function and the handle of an extension their own
  name.\<close>

fun opaque_name :: "okind \<Rightarrow> string \<Rightarrow> string" where
  "opaque_name K_err n = (if n = [] then ''error'' else n)"
| "opaque_name K_closure n = ''func''" | "opaque_name K_native n = ''func''"
| "opaque_name K_chan n = ''chan''" | "opaque_name K_task n = ''task''" | "opaque_name K_weak n = ''weak''"
| "opaque_name K_file n = ''file''" | "opaque_name K_builder n = ''builder''" | "opaque_name K_type n = ''type''"
| "opaque_name K_frame n = ''frame''" | "opaque_name K_iter n = ''iter''" | "opaque_name K_socket n = ''socket''"
| "opaque_name K_reader n = ''reader''" | "opaque_name K_writer n = ''writer''" | "opaque_name K_mutex n = ''mutex''"
| "opaque_name K_rwlock n = ''rwlock''" | "opaque_name K_atomic n = ''atomic''" | "opaque_name K_regex n = ''regex''"
| "opaque_name K_proc n = ''proc''" | "opaque_name K_handle n = n"

fun vl_kind_name :: "val \<Rightarrow> string" where
  "vl_kind_name V_nil = ''nil''" | "vl_kind_name V_unit = ''unit''" | "vl_kind_name (V_bool _) = ''bool''"
| "vl_kind_name (V_int _) = ''int''" | "vl_kind_name (V_float _) = ''float''" | "vl_kind_name (V_rune _) = ''rune''"
| "vl_kind_name (V_dur _) = ''duration''" | "vl_kind_name (V_instant _) = ''instant''"
| "vl_kind_name (O_str _) = ''str''" | "vl_kind_name (O_dec _) = ''dec''" | "vl_kind_name (O_slice _) = ''slice''"
| "vl_kind_name (O_map _ _) = ''map''" | "vl_kind_name (O_set _ _) = ''set''" | "vl_kind_name (O_tuple _) = ''tuple''"
| "vl_kind_name (O_struct t _) = ty_name t" | "vl_kind_name (O_enum va _) = va_type va"
| "vl_kind_name (O_box _) = ''Box''" | "vl_kind_name (O_range _ _ _ _ _) = ''range''"
| "vl_kind_name (O_shared _ _) = ''shared''" | "vl_kind_name (O_cell _ _) = ''cell''"
| "vl_kind_name (O_opaque k _ n) = opaque_name k n"

subsection \<open>Equality\<close>

text \<open>The UTF-8 encoder inside \<^verbatim>\<open>quote_into\<close>: it takes any 32-bit code.\<close>

definition rune_bytes :: "nat \<Rightarrow> string" where
  "rune_bytes r =
     map char_of
       (if r < 0x80 then [r]
        else if r < 0x800 then [0xC0 OR drop_bit 6 r, 0x80 OR (r AND 0x3F)]
        else if r < 0x10000 then [0xE0 OR drop_bit 12 r, 0x80 OR (drop_bit 6 r AND 0x3F), 0x80 OR (r AND 0x3F)]
        else [0xF0 OR drop_bit 18 r, 0x80 OR (drop_bit 12 r AND 0x3F), 0x80 OR (drop_bit 6 r AND 0x3F),
          0x80 OR (r AND 0x3F)])"

text \<open>A measure under which a rune is above the text it denotes.\<close>

primrec vrank :: "val \<Rightarrow> nat" where
  "vrank V_nil = 0" | "vrank V_unit = 0" | "vrank (V_bool _) = 0" | "vrank (V_int _) = 0" | "vrank (V_float _) = 0"
| "vrank (V_rune _) = 1" | "vrank (V_dur _) = 0" | "vrank (V_instant _) = 0" | "vrank (O_str _) = 0"
| "vrank (O_dec _) = 0" | "vrank (O_slice xs) = Suc (sum_list (map vrank xs))"
| "vrank (O_map _ kvs) = Suc (sum_list (map (\<lambda>(k, v). k + v) (map (map_prod vrank vrank) kvs)))"
| "vrank (O_set _ xs) = Suc (sum_list (map vrank xs))" | "vrank (O_tuple xs) = Suc (sum_list (map vrank xs))"
| "vrank (O_struct _ xs) = Suc (sum_list (map vrank xs))" | "vrank (O_enum _ xs) = Suc (sum_list (map vrank xs))"
| "vrank (O_box v) = Suc (vrank v)" | "vrank (O_range _ _ _ _ _) = 0" | "vrank (O_shared _ v) = Suc (vrank v)"
| "vrank (O_cell _ v) = Suc (vrank v)" | "vrank (O_opaque _ _ _) = 0"

lemma vrank_member: "x \<in> set xs \<Longrightarrow> vrank x \<le> sum_list (map vrank xs)"
  by (simp add: member_le_sum_list)

lemma vrank_unbox: "vrank (vl_unbox v) \<le> vrank v" "vl_is_box v \<Longrightarrow> vrank (vl_unbox v) < vrank v"
proof -
  show "vrank (vl_unbox v) \<le> vrank v" for v by (induction v rule: vl_unbox.induct) simp_all
  then show "vl_is_box v \<Longrightarrow> vrank (vl_unbox v) < vrank v" by (cases v) (simp_all add: less_Suc_eq_le)
qed

lemma vrank_unbox_pair:
  "vl_is_box a \<or> vl_is_box b \<Longrightarrow> vrank (vl_unbox a) + vrank (vl_unbox b) < vrank a + vrank b"
  using vrank_unbox [of a] vrank_unbox [of b] by linarith

function vl_equal :: "val \<Rightarrow> val \<Rightarrow> bool" where
  "vl_equal a b =
     (if vl_is_box a \<or> vl_is_box b then vl_equal (vl_unbox a) (vl_unbox b)
      else case (a, b) of
        (V_rune r, V_int i) \<Rightarrow> int r = i
      | (V_int i, V_rune r) \<Rightarrow> i = int r
      | (V_rune r, O_str s) \<Rightarrow> vl_equal (O_str (rune_bytes r)) b
      | (O_str s, V_rune r) \<Rightarrow> vl_equal (O_str (rune_bytes r)) a
      | (O_dec x, O_dec y) \<Rightarrow> vl_dec_cmp x y = 0
      | (O_dec x, V_int i) \<Rightarrow> vl_dec_cmp x (vl_dec_from_int i) = 0
      | (V_int i, O_dec y) \<Rightarrow> vl_dec_cmp (vl_dec_from_int i) y = 0
      | (V_int i, V_float f) \<Rightarrow> fl_eq (fl_of_int i) f
      | (V_float f, V_int i) \<Rightarrow> fl_eq f (fl_of_int i)
      | (V_nil, V_nil) \<Rightarrow> True
      | (V_unit, V_unit) \<Rightarrow> True
      | (V_bool x, V_bool y) \<Rightarrow> x = y
      | (V_int x, V_int y) \<Rightarrow> x = y
      | (V_dur x, V_dur y) \<Rightarrow> x = y
      | (V_instant x, V_instant y) \<Rightarrow> x = y
      | (V_float x, V_float y) \<Rightarrow> fl_eq x y
      | (V_rune x, V_rune y) \<Rightarrow> x = y
      | (O_str x, O_str y) \<Rightarrow> x = y
      | (O_slice xs, O_slice ys) \<Rightarrow> length xs = length ys \<and> list_all2 vl_equal xs ys
      | (O_tuple xs, O_tuple ys) \<Rightarrow> length xs = length ys \<and> list_all2 vl_equal xs ys
      | (O_struct t xs, O_struct u ys) \<Rightarrow>
          t = u \<and> list_all2 vl_equal (take (length (ty_fields t)) xs) (take (length (ty_fields t)) ys)
      | (O_enum t xs, O_enum u ys) \<Rightarrow> t = u \<and> length xs = length ys \<and> list_all2 vl_equal xs ys
      | (O_map p _, O_map q _) \<Rightarrow> p = q
      | (O_set p _, O_set q _) \<Rightarrow> p = q
      | (O_range p _ _ _ _, O_range q _ _ _ _) \<Rightarrow> p = q
      | (O_shared p _, O_shared q _) \<Rightarrow> p = q
      | (O_cell p _, O_cell q _) \<Rightarrow> p = q
      | (O_opaque k p _, O_opaque l q _) \<Rightarrow> k = l \<and> p = q
      | _ \<Rightarrow> False)"
  by auto
termination
  by (relation "measure (\<lambda>(a, b). vrank a + vrank b)")
    (auto simp: vrank_unbox_pair dest!: in_set_takeD intro: add_mono_thms_linordered_field
      le_less_trans [OF add_mono [OF vrank_member vrank_member]])

declare vl_equal.simps [simp del]


subsection \<open>Hashing\<close>

text \<open>FNV-1a over bytes; the text \<^verbatim>\<open>%p\<close> makes of a pointer is a parameter.\<close>

definition fnv_basis :: "64 word" where "fnv_basis = 1469598103934665603"

definition fnv :: "nat list \<Rightarrow> 64 word \<Rightarrow> 64 word" where
  "fnv bs h = foldl (\<lambda>h b. (h XOR of_nat b) * 1099511628211) h bs"

text \<open>The bytes of an \<^verbatim>\<open>int64_t\<close> in memory, least significant first.\<close>

definition i64_bytes :: "int \<Rightarrow> nat list" where
  "i64_bytes n = map (\<lambda>i. nat (n div 256 ^ i mod 256)) [0..<8]"

definition word_bytes :: "64 word \<Rightarrow> nat list" where
  "word_bytes w = map (\<lambda>i. unat w div 256 ^ i mod 256) [0..<8]"

text \<open>A float with an integral value inside the range of \<^verbatim>\<open>int64_t\<close> hashes as that integer.\<close>

definition fl_hash_bytes :: "dbl \<Rightarrow> nat list" where
  "fl_hash_bytes f =
     (let d = (if fl_eq f 0 then 0 else f)
      in case fl_num d of
           FFin r \<Rightarrow>
             (if - (2 ^ 63) < r \<and> r < 2 ^ 63 \<and> r = of_int \<lfloor>r\<rfloor> then i64_bytes \<lfloor>r\<rfloor> else word_bytes d)
         | _ \<Rightarrow> word_bytes d)"

lemma take_size [termination_simp]: "x \<in> set (take n xs) \<Longrightarrow> size x < Suc (size_list size xs)"
  by (metis in_set_takeD size_list_estimation' le_imp_less_Suc order_refl)

fun vl_hash :: "(addr \<Rightarrow> string) \<Rightarrow> val \<Rightarrow> 64 word" where
  "vl_hash pt V_nil = 2166136261"
| "vl_hash pt V_unit = 2166136262"
| "vl_hash pt (V_bool b) = (if b then 1231 else 1237)"
| "vl_hash pt (V_rune r) = fnv (i64_bytes (int r)) fnv_basis"
| "vl_hash pt (V_int i) = fnv (i64_bytes i) fnv_basis"
| "vl_hash pt (V_dur i) = fnv (i64_bytes i) fnv_basis"
| "vl_hash pt (V_instant i) = fnv (i64_bytes i) fnv_basis"
| "vl_hash pt (V_float f) = fnv (fl_hash_bytes f) fnv_basis"
| "vl_hash pt (O_str s) = fnv (map byte s) fnv_basis"
| "vl_hash pt (O_dec d) = fnv (map byte (vl_dec_str d)) fnv_basis"
| "vl_hash pt (O_enum va xs) = foldl (\<lambda>h x. h * 31 + vl_hash pt x) (fnv (map byte (pt (va_addr va))) fnv_basis) xs"
| "vl_hash pt (O_box v) = vl_hash pt v"
| "vl_hash pt (O_tuple xs) = foldl (\<lambda>h x. h * 31 + vl_hash pt x) (0x9E3779B97F4A7C15 XOR of_nat (length xs)) xs"
| "vl_hash pt (O_struct t xs) =
     foldl (\<lambda>h x. h * 31 + vl_hash pt x) (ty_addr t) (take (length (ty_fields t)) xs)"
| "vl_hash pt (O_slice xs) = foldl (\<lambda>h x. h * 31 + vl_hash pt x) (0x51CE5EED XOR of_nat (length xs)) xs"
| "vl_hash pt (O_map p _) = fnv (word_bytes p) fnv_basis"
| "vl_hash pt (O_set p _) = fnv (word_bytes p) fnv_basis"
| "vl_hash pt (O_range p _ _ _ _) = fnv (word_bytes p) fnv_basis"
| "vl_hash pt (O_shared p _) = fnv (word_bytes p) fnv_basis"
| "vl_hash pt (O_cell p _) = fnv (word_bytes p) fnv_basis"
| "vl_hash pt (O_opaque k p _) = fnv (word_bytes p) fnv_basis"

subsection \<open>Keys\<close>

text \<open>What a value is as a key: boxes are transparent, identity objects are their address.\<close>

fun strip :: "val \<Rightarrow> val" where
  "strip (O_box v) = strip v"
| "strip (O_slice xs) = O_slice (map strip xs)"
| "strip (O_tuple xs) = O_tuple (map strip xs)"
| "strip (O_struct t xs) = O_struct t (map strip xs)"
| "strip (O_enum va xs) = O_enum va (map strip xs)"
| "strip (O_map p _) = O_map p []"
| "strip (O_set p _) = O_set p []"
| "strip (O_range p _ _ _ _) = O_range p 0 0 0 False"
| "strip (O_shared p _) = O_shared p V_nil"
| "strip (O_cell p _) = O_cell p V_nil"
| "strip (O_opaque k p _) = O_opaque k p []"
| "strip v = v"

text \<open>The keys whose equality the hash respects: no float, rune or decimal inside, structs with a
  value for every field.\<close>

fun key_ok :: "val \<Rightarrow> bool" where
  "key_ok (V_float _) \<longleftrightarrow> False"
| "key_ok (V_rune _) \<longleftrightarrow> False"
| "key_ok (O_dec _) \<longleftrightarrow> False"
| "key_ok (O_box v) \<longleftrightarrow> key_ok v"
| "key_ok (O_slice xs) \<longleftrightarrow> list_all key_ok xs"
| "key_ok (O_tuple xs) \<longleftrightarrow> list_all key_ok xs"
| "key_ok (O_struct t xs) \<longleftrightarrow> length xs = length (ty_fields t) \<and> list_all key_ok xs"
| "key_ok (O_enum _ xs) \<longleftrightarrow> list_all key_ok xs"
| "key_ok _ \<longleftrightarrow> True"

lemma strip_unbox: "strip (vl_unbox v) = strip v" "key_ok (vl_unbox v) = key_ok v"
  by (induction v rule: vl_unbox.induct) simp_all

lemma unbox_not_box: "\<not> vl_is_box (vl_unbox v)"
  by (induction v rule: vl_unbox.induct) simp_all

lemma list_all2_strip:
  assumes "\<And>x y. x \<in> set xs \<Longrightarrow> y \<in> set ys \<Longrightarrow> P x y \<longleftrightarrow> strip x = strip y"
  shows "list_all2 P xs ys \<longleftrightarrow> map strip xs = map strip ys"
  using assms by (auto simp: list_all2_conv_all_nth list_eq_iff_nth_eq)

lemma vl_equal_strip: "key_ok a \<Longrightarrow> key_ok b \<Longrightarrow> vl_equal a b \<longleftrightarrow> strip a = strip b"
proof (induction "vrank a + vrank b" arbitrary: a b rule: less_induct)
  case less
  show ?case
  proof (cases "vl_is_box a \<or> vl_is_box b")
    case True
    then have "vl_equal a b = vl_equal (vl_unbox a) (vl_unbox b)" by (subst vl_equal.simps) simp
    then show ?thesis
      using less(1) [OF vrank_unbox_pair [OF True]] less(2,3) by (simp add: strip_unbox)
  next
    case False
    have L: "list_all2 vl_equal xs ys \<longleftrightarrow> map strip xs = map strip ys"
      if "sum_list (map vrank xs) < vrank a" "sum_list (map vrank ys) < vrank b" "list_all key_ok xs" "list_all key_ok ys" for xs ys
    proof (rule list_all2_strip)
      fix x y assume "x \<in> set xs" "y \<in> set ys"
      then show "vl_equal x y \<longleftrightarrow> strip x = strip y"
        using that vrank_member [of x xs] vrank_member [of y ys] by (intro less(1)) (auto simp: list_all_iff)
    qed
    note kl = less(2,3)
    have "vl_equal a b = strip_eq" if "strip_eq = (strip a = strip b)" for strip_eq
      using kl False that
      by (subst vl_equal.simps, cases a; cases b) (auto simp: L dest: map_eq_imp_length_eq)
    then show ?thesis by simp
  qed
qed


lemma foldl_hash_cong:
  "(\<And>x. x \<in> set xs \<Longrightarrow> f (g x) = f x) \<Longrightarrow>
    foldl (\<lambda>h x. h * 31 + (f x :: 64 word)) h (map g xs) = foldl (\<lambda>h x. h * 31 + f x) h xs"
  by (induction xs arbitrary: h) simp_all

lemma vl_hash_strip: "vl_hash pt (strip v) = vl_hash pt v"
proof (induction pt v rule: vl_hash.induct)
  case (14 pt t xs)
  then show ?case by (simp add: take_map foldl_hash_cong)
qed (simp_all add: foldl_hash_cong)

text \<open>C17. The contract of keys: on values without floats, runes and decimals inside, \<open>vl_equal\<close> is an
  equivalence (equality up to boxes and identity) and equal values have equal hashes, so a map
  finds under one key what it stored under an equal one.\<close>

theorem equal_keys_hash_alike:
  assumes "key_ok a" "key_ok b" "key_ok c"
  shows "vl_equal a a \<and> (vl_equal a b \<longrightarrow> vl_equal b a) \<and>
    (vl_equal a b \<longrightarrow> vl_equal b c \<longrightarrow> vl_equal a c) \<and>
    (vl_equal a b \<longrightarrow> vl_hash pt a = vl_hash pt b) \<and>
    (vl_equal a b \<longleftrightarrow> strip a = strip b)"
  using assms vl_hash_strip [of pt a] vl_hash_strip [of pt b] by (auto simp: vl_equal_strip)

theorem equal_keys_hash_alike_witness:
  "vl_equal (O_tuple [V_int 1, O_box (O_str ''a'')]) (O_tuple [V_int 1, O_str ''a'']) \<and>
   vl_hash (\<lambda>_. []) (O_tuple [V_int 1, O_box (O_str ''a'')]) = vl_hash (\<lambda>_. []) (O_tuple [V_int 1, O_str ''a''])"
  using equal_keys_hash_alike [of "O_tuple [V_int 1, O_box (O_str ''a'')]" "O_tuple [V_int 1, O_str ''a'']" V_nil "\<lambda>_. []"]
  by simp

subsection \<open>Where hashing and equality disagree\<close>

definition big_float :: dbl where "big_float = fl_of_int (2 ^ 53)"

lemma big_float_num: "fl_num big_float = FFin (2 ^ 53)"
  using fl_of_int_exact [of "2 ^ 53"] by (simp add: big_float_def)

lemma fl_num_0: "fl_num 0 = FFin 0"
  using fl_num_zero [of False] by (simp add: fl_zero_def)

lemma big_float_hash: "vl_hash pt (V_float big_float) = fnv (i64_bytes (2 ^ 53)) fnv_basis"
  by (simp add: fl_hash_bytes_def fl_eq_def big_float_num fl_num_0)

lemma differing_hashes:
  "fnv (i64_bytes (2 ^ 53 + 1)) fnv_basis \<noteq> fnv (i64_bytes (2 ^ 53)) fnv_basis"
  "fnv (i64_bytes 97) fnv_basis \<noteq> fnv (map byte ''a'') fnv_basis"
  "fnv (i64_bytes 1) fnv_basis \<noteq> fnv (map byte (vl_dec_str (vl_dec_from_int 1))) fnv_basis"
  by (code_simp, code_simp, code_simp)

lemma rune_a: "rune_bytes 97 = ''a''"
  by code_simp

text \<open>C18. Outside that class equality is not respected by the hash: \<open>2 ^ 53 + 1\<close> equals the float
  \<open>2 ^ 53\<close>, a rune equals its one-character text and an integer equals the decimal of the same
  value, and in each case the hashes differ, so a map holds both as different keys; and equality
  is not transitive.\<close>

theorem hash_breaks_equality:
  "vl_equal (V_int (2 ^ 53 + 1)) (V_float big_float) \<and>
   vl_hash pt (V_int (2 ^ 53 + 1)) \<noteq> vl_hash pt (V_float big_float) \<and>
   vl_equal (V_rune 97) (O_str ''a'') \<and> vl_hash pt (V_rune 97) \<noteq> vl_hash pt (O_str ''a'') \<and>
   vl_equal (V_int 1) (O_dec (vl_dec_from_int 1)) \<and> vl_hash pt (V_int 1) \<noteq> vl_hash pt (O_dec (vl_dec_from_int 1)) \<and>
   vl_equal (V_float big_float) (V_int (2 ^ 53)) \<and> \<not> vl_equal (V_int (2 ^ 53 + 1)) (V_int (2 ^ 53))"
proof (intro conjI)
  show "vl_equal (V_int (2 ^ 53 + 1)) (V_float big_float)"
    by (subst vl_equal.simps) (simp add: fl_eq_def big_float_num fl_of_int_rounds [simplified])
  show "vl_equal (V_float big_float) (V_int (2 ^ 53))"
    by (subst vl_equal.simps) (simp add: fl_eq_def big_float_num big_float_num [unfolded big_float_def, simplified])
  show "vl_hash pt (V_int (2 ^ 53 + 1)) \<noteq> vl_hash pt (V_float big_float)"
    unfolding big_float_hash vl_hash.simps(5) by (rule differing_hashes)
  show "vl_hash pt (V_rune 97) \<noteq> vl_hash pt (O_str ''a'')"
    unfolding vl_hash.simps using differing_hashes(2) by simp
  show "vl_hash pt (V_int 1) \<noteq> vl_hash pt (O_dec (vl_dec_from_int 1))"
    unfolding vl_hash.simps by (rule differing_hashes)
  show "vl_equal (V_rune 97) (O_str ''a'')"
    by (subst vl_equal.simps) (simp add: rune_a vl_equal.simps)
  show "vl_equal (V_int 1) (O_dec (vl_dec_from_int 1))"
    by (subst vl_equal.simps) (simp add: vl_dec_cmp_cases small_aligns i64_def)
  show "\<not> vl_equal (V_int (2 ^ 53 + 1)) (V_int (2 ^ 53))"
    by (subst vl_equal.simps) simp
qed

end
