(* ===== verification/Show.thy ===== *)
theory Show
  imports Value Enc
begin

section \<open>Printing values (value.c: vl\_fmt\_float .. vl\_builder\_done)\<close>

text \<open>
  The text of a value.  A builder is the text written so far, so a function that writes returns
  what it appends.  What the program or the system supplies is the record \<open>show_env\<close>: the result of
  a user's \<^verbatim>\<open>show\<close> method, the C library's \<^verbatim>\<open>printf("%.*e")\<close> and \<^verbatim>\<open>strtod\<close>, the text of the objects that
  print their own state (files, sockets, errors, ...).
\<close>

subsection \<open>Floats\<close>

record show_env =
  se_show :: "val \<Rightarrow> string option"
  se_sci :: "nat \<Rightarrow> dbl \<Rightarrow> string"
  se_strtod :: "string \<Rightarrow> dbl"
  se_opaque :: "okind \<Rightarrow> addr \<Rightarrow> string"

text \<open>\<^verbatim>\<open>for (prec = 1; prec <= 17; prec++)\<close>: the text that reads back, or the one with 17 digits.\<close>

function shortest_sci :: "show_env \<Rightarrow> dbl \<Rightarrow> nat \<Rightarrow> string" where
  "shortest_sci E f prec =
     (if fl_eq (se_strtod E (se_sci E (prec - 1) f)) f \<or> 17 \<le> prec then se_sci E (prec - 1) f
      else shortest_sci E f (prec + 1))"
  by auto
termination by (relation "measure (\<lambda>(E, f, prec). 17 - prec)") auto

declare shortest_sci.simps [simp del]

text \<open>\<^verbatim>\<open>atoi\<close> after the \<^verbatim>\<open>e\<close>.\<close>

definition atoi :: "string \<Rightarrow> int" where
  "atoi s =
     (let neg = (s \<noteq> [] \<and> hd s = CHR ''-'');
          t = (if s \<noteq> [] \<and> (hd s = CHR ''-'' \<or> hd s = CHR ''+'') then tl s else s);
          n = int (dval (map digit_val (takeWhile is_digit t)))
      in if neg then - n else n)"

definition two_digits :: "nat \<Rightarrow> string" where
  "two_digits n = (if n < 10 then CHR ''0'' # nat_text n else nat_text n)"

text \<open>The layout chosen from the digits (most significant first) and the decimal exponent.\<close>

definition layout_float :: "bool \<Rightarrow> string \<Rightarrow> int \<Rightarrow> string" where
  "layout_float neg ds exp10 =
     (if neg then ''-'' else []) @
     (if exp10 < - 4 \<or> exp10 > 20 then
        [hd ds] @ (if 1 < length ds then ''.'' @ tl ds else []) @
        ''e'' @ (if exp10 < 0 then ''-'' else ''+'') @ two_digits (nat \<bar>exp10\<bar>)
      else if 0 \<le> exp10 then
        (let intlen = nat exp10 + 1
         in map (\<lambda>i. if i < length ds then ds ! i else CHR ''0'') [0..<intlen] @
            (if intlen < length ds then ''.'' @ drop intlen ds else []))
      else ''0.'' @ replicate (nat (- exp10 - 1)) CHR ''0'' @ ds)"

definition vl_fmt_float :: "show_env \<Rightarrow> dbl \<Rightarrow> string" where
  "vl_fmt_float E f =
     (case fl_num f of
        FNan \<Rightarrow> ''NaN''
      | FInf s \<Rightarrow> (if s then ''-Inf'' else ''+Inf'')
      | FFin _ \<Rightarrow>
          let sci = shortest_sci E f 1;
              neg = (sci \<noteq> [] \<and> hd sci = CHR ''-'');
              m = (if neg then tl sci else sci);
              ds = filter (\<lambda>c. c \<noteq> CHR ''.'') (takeWhile (\<lambda>c. c \<noteq> CHR ''e'') m);
              exp10 = atoi (tl (dropWhile (\<lambda>c. c \<noteq> CHR ''e'') m))
          in layout_float neg ds exp10)"

subsection \<open>Quoting\<close>

definition quote_char :: "char \<Rightarrow> string" where
  "quote_char c =
     (if c = CHR 0x22 then [CHR 0x5C, CHR 0x22]
      else if c = CHR 0x5C then [CHR 0x5C, CHR 0x5C]
      else if c = CHR 0x0A then [CHR 0x5C, CHR ''n'']
      else if c = CHR 0x09 then [CHR 0x5C, CHR ''t'']
      else if c = CHR 0x0D then [CHR 0x5C, CHR ''r'']
      else if byte c < 0x20 then CHR 0x5C # CHR ''x'' # hex_enc [c]
      else [c])"

definition quote_text :: "string \<Rightarrow> string" where
  "quote_text s = [CHR 0x22] @ concat (map quote_char s) @ [CHR 0x22]"

definition quote_rune :: "nat \<Rightarrow> string" where
  "quote_rune r = [CHR 0x27] @ rune_bytes r @ [CHR 0x27]"

definition dur_text :: "int \<Rightarrow> string" where
  "dur_text ns =
     (if ns smod 1000000000 = 0 then int_text (ns sdiv 1000000000) @ ''s''
      else if ns smod 1000000 = 0 then int_text (ns sdiv 1000000) @ ''ms''
      else if ns smod 1000 = 0 then int_text (ns sdiv 1000) @ [CHR 0xC2, CHR 0xB5, CHR ''s'']
      else int_text ns @ ''ns'')"

definition range_text :: "int \<Rightarrow> int \<Rightarrow> int \<Rightarrow> bool \<Rightarrow> string" where
  "range_text lo hi by incl =
     int_text lo @ (if incl then ''..='' else ''..'') @ int_text hi @
     (if by \<noteq> 1 then '' by '' @ int_text by else [])"

text \<open>The elements of a list, separated: \<^verbatim>\<open>if (i) bputs(b, ", ")\<close>.\<close>

fun commas :: "string list \<Rightarrow> string" where
  "commas [] = []"
| "commas [x] = x"
| "commas (x # y # xs) = x @ '', '' @ commas (y # xs)"

fun opaque_text :: "okind \<Rightarrow> string \<Rightarrow> string option" where
  "opaque_text K_closure n = Some ''<closure>''" | "opaque_text K_native n = Some (''<builtin '' @ n @ ''>'')"
| "opaque_text K_chan n = Some ''<chan>''" | "opaque_text K_task n = Some ''<task>''"
| "opaque_text K_weak n = Some ''<weak>''" | "opaque_text K_mutex n = Some ''<mutex>''"
| "opaque_text K_rwlock n = Some ''<rwlock>''" | "opaque_text K_builder n = Some ''<builder>''"
| "opaque_text K_type n = Some ''<type>''" | "opaque_text K_frame n = Some ''<frame>''"
| "opaque_text K_iter n = Some ''<iter>''" | "opaque_text K_handle n = Some (''<'' @ n @ ''>'')"
| "opaque_text _ n = None"

definition ellipsis :: string where "ellipsis = [CHR 0xE2, CHR 0x80, CHR 0xA6]"

definition STR_MAX_DEPTH :: nat where "STR_MAX_DEPTH = 2048"


subsection \<open>The text of a value\<close>

text \<open>\<^verbatim>\<open>str_into\<close> counts its nesting and cuts the text at \<^verbatim>\<open>STR_MAX_DEPTH\<close>.\<close>

lemma size_members:
  "(x :: val) \<in> set xs \<Longrightarrow> size x \<le> size_list size xs"
  "(k, v) \<in> set kvs \<Longrightarrow> size (k :: val) \<le> size_list (size_prod size size) kvs"
  "(k, v) \<in> set kvs \<Longrightarrow> size (v :: val) \<le> size_list (size_prod size size) kvs"
  "(n, x) \<in> set (zip ns xs) \<Longrightarrow> size x \<le> size_list size xs"
proof -
  show m: "x \<in> set xs \<Longrightarrow> size x \<le> size_list size xs" for x :: val and xs
    by (induction xs) auto
  show "(k, v) \<in> set kvs \<Longrightarrow> size k \<le> size_list (size_prod size size) kvs"
    "(k, v) \<in> set kvs \<Longrightarrow> size v \<le> size_list (size_prod size size) kvs"
    by (induction kvs) auto
  show "(n, x) \<in> set (zip ns xs) \<Longrightarrow> size x \<le> size_list size xs"
    by (rule m) (rule set_zip_rightD)
qed

function (sequential) quote_into :: "show_env \<Rightarrow> nat \<Rightarrow> val \<Rightarrow> string" and
  str_into :: "show_env \<Rightarrow> nat \<Rightarrow> val \<Rightarrow> string" where
  "quote_into E d (O_str s) = quote_text s"
| "quote_into E d (O_box v) = quote_into E d v"
| "quote_into E d (V_rune r) = quote_rune r"
| "quote_into E d (O_struct t (x # xs)) =
     (if ty_newtype t then
        (case se_show E (O_struct t (x # xs)) of Some s \<Rightarrow> s | None \<Rightarrow> quote_into E d x)
      else str_into E d (O_struct t (x # xs)))"
| "quote_into E d v = str_into E d v"
| "str_into E d v =
     (if STR_MAX_DEPTH \<le> d then ellipsis
      else case v of
        V_nil \<Rightarrow> ''nil''
      | V_unit \<Rightarrow> ''()''
      | V_bool b \<Rightarrow> (if b then ''true'' else ''false'')
      | V_int i \<Rightarrow> int_text i
      | V_float f \<Rightarrow> vl_fmt_float E f
      | V_rune r \<Rightarrow> butlast (tl (quote_rune r))
      | V_dur ns \<Rightarrow> dur_text ns
      | V_instant i \<Rightarrow> int_text i
      | O_str s \<Rightarrow> s
      | O_dec x \<Rightarrow> vl_dec_str x
      | O_slice xs \<Rightarrow> ''['' @ commas (map (quote_into E (d + 1)) xs) @ '']''
      | O_map p kvs \<Rightarrow>
          ''{'' @ commas (map (\<lambda>(k, x). quote_into E (d + 1) k @ '': '' @ quote_into E (d + 1) x) kvs) @ ''}''
      | O_set p xs \<Rightarrow> ''{'' @ commas (map (quote_into E (d + 1)) xs) @ ''}''
      | O_tuple xs \<Rightarrow> ''('' @ commas (map (quote_into E (d + 1)) xs) @ '')''
      | O_struct t xs \<Rightarrow>
          (case se_show E v of
             Some s \<Rightarrow> s
           | None \<Rightarrow>
               if ty_newtype t then (case xs of x # _ \<Rightarrow> str_into E (d + 1) x | [] \<Rightarrow> [])
               else ty_name t @ ''{'' @
                 commas (map (\<lambda>(n, x). n @ '': '' @ quote_into E (d + 1) x) (zip (ty_fields t) xs)) @ ''}'')
      | O_enum va xs \<Rightarrow>
          (case se_show E v of
             Some s \<Rightarrow> s
           | None \<Rightarrow>
               va_variant va @
                 (if xs = [] then [] else ''('' @ commas (map (quote_into E (d + 1)) xs) @ '')''))
      | O_box x \<Rightarrow> str_into E (d + 1) x
      | O_range p lo hi by incl \<Rightarrow> range_text lo hi by incl
      | O_shared p x \<Rightarrow> str_into E (d + 1) x
      | O_cell p x \<Rightarrow> str_into E (d + 1) x
      | O_opaque k p n \<Rightarrow> (case opaque_text k n of Some s \<Rightarrow> s | None \<Rightarrow> se_opaque E k p))"
  by pat_completeness auto
termination
  by (relation "measure (\<lambda>p. case p of Inl (E, d, v) \<Rightarrow> 2 * size v + 1 | Inr (E, d, v) \<Rightarrow> 2 * size v)")
    (auto simp: less_Suc_eq_le dest: size_members)

definition vl_tostr :: "show_env \<Rightarrow> nat \<Rightarrow> val \<Rightarrow> string" where
  "vl_tostr E d v = (case v of O_str s \<Rightarrow> s | _ \<Rightarrow> str_into E d v)"

lemma vl_tostr_int_str [simp]: "vl_tostr E 0 (V_int n) = int_text n" "vl_tostr E d (O_str t) = t"
  by (simp_all add: vl_tostr_def STR_MAX_DEPTH_def)

definition vl_interp :: "show_env \<Rightarrow> nat \<Rightarrow> val list \<Rightarrow> string" where
  "vl_interp E d parts = concat (map (str_into E d) parts)"

text \<open>The line \<^verbatim>\<open>say\<close> writes.\<close>

fun say_text :: "show_env \<Rightarrow> val list \<Rightarrow> string" where
  "say_text E [] = []"
| "say_text E [v] = str_into E 0 v"
| "say_text E (v # w # vs) = str_into E 0 v @ '' '' @ say_text E (w # vs)"

definition vl_say :: "show_env \<Rightarrow> val list \<Rightarrow> string" where
  "vl_say E vs = say_text E vs @ [CHR 0x0A]"


subsection \<open>Quoted texts are unambiguous\<close>

text \<open>The reader of a quoted text, after its opening quote: the text and what follows the closing
  quote.\<close>

fun unquote :: "string \<Rightarrow> (string \<times> string) option" where
  "unquote [] = None"
| "unquote (c # t) =
     (if c = CHR 0x22 then Some ([], t)
      else if c = CHR 0x5C then
        (case t of
           [] \<Rightarrow> None
         | e # u \<Rightarrow>
             if e = CHR ''x'' then
               (case u of
                  h # l # w \<Rightarrow> map_option (apfst ((#) (char_of (nat (unhex_digit h * 16 + unhex_digit l))))) (unquote w)
                | _ \<Rightarrow> None)
             else map_option (apfst ((#)
               (if e = CHR ''n'' then CHR 0x0A else if e = CHR ''t'' then CHR 0x09
                else if e = CHR ''r'' then CHR 0x0D else e))) (unquote u))
      else map_option (apfst ((#) c)) (unquote t))"

lemma hex_of_char:
  "hex_enc [c] = [hex_chars ! (byte c div 16), hex_chars ! (byte c mod 16)]"
proof -
  have "byte c AND mask 4 = byte c mod 2 ^ 4" by (simp only: take_bit_eq_mod flip: take_bit_eq_mask)
  then show ?thesis by (simp add: drop_bit_eq_div mask_eq_exp_minus_1)
qed

lemma unquote_char: "unquote (quote_char c @ t) = map_option (apfst ((#) c)) (unquote t)"
proof (cases "c \<in> {CHR 0x22, CHR 0x5C, CHR 0x0A, CHR 0x09, CHR 0x0D}")
  case True
  then show ?thesis by (auto simp: quote_char_def)
next
  case nospecial: False
  show ?thesis
  proof (cases "byte c < 0x20")
    case True
    with nospecial have q: "quote_char c = CHR 0x5C # CHR ''x'' # hex_enc [c]"
      by (simp add: quote_char_def del: hex_enc.simps)
    have d: "byte c div 16 < 16" "byte c mod 16 < 16" using True by simp_all
    have "nat (int (byte c div 16) * 16 + int (byte c mod 16)) = byte c"
      by (metis div_mult_mod_eq nat_int of_nat_add of_nat_mult of_nat_numeral)
    then show ?thesis using d by (simp add: q hex_of_char nibble_digit del: hex_enc.simps)
  next
    case False
    with nospecial have q: "quote_char c = [c]" by (simp add: quote_char_def del: hex_enc.simps)
    show ?thesis unfolding q using nospecial by simp
  qed
qed

lemma unquote_quoted: "unquote (concat (map quote_char s) @ CHR 0x22 # t) = Some (s, t)"
  by (induction s) (simp_all add: unquote_char)

lemma quote_text_append: "quote_text s @ x = quote_text t @ y \<longleftrightarrow> s = t \<and> x = y"
proof
  assume "quote_text s @ x = quote_text t @ y"
  then have "concat (map quote_char s) @ CHR 0x22 # x = concat (map quote_char t) @ CHR 0x22 # y"
    by (simp add: quote_text_def)
  then have "Some (s, x) = Some (t, y)" by (metis unquote_quoted)
  then show "s = t \<and> x = y" by simp
qed simp

lemma commas_Cons: "commas (x # xs) = x @ (if xs = [] then [] else '', '' @ commas xs)"
  by (cases xs) simp_all

lemma commas_quoted_inject:
  "commas (map quote_text ss) @ '']'' = commas (map quote_text ts) @ '']'' \<Longrightarrow> ss = ts"
proof (induction ss arbitrary: ts)
  case Nil
  then show ?case by (cases ts) (simp_all add: commas_Cons quote_text_def)
next
  case (Cons s ss)
  then obtain t us where ts: "ts = t # us" by (cases ts) (simp_all add: commas_Cons quote_text_def)
  have "quote_text s @ (if ss = [] then [] else '', '' @ commas (map quote_text ss)) @ '']'' =
      quote_text t @ (if us = [] then [] else '', '' @ commas (map quote_text us)) @ '']''"
    using Cons.prems by (simp add: ts commas_Cons)
  then have "s = t" "(if ss = [] then [] else '', '' @ commas (map quote_text ss)) @ '']'' =
      (if us = [] then [] else '', '' @ commas (map quote_text us)) @ '']''"
    unfolding quote_text_append by simp_all
  then show ?case using Cons.IH [of us] by (auto simp: ts split: if_splits)
qed

text \<open>C21. Printed texts are unambiguous: a reader of the escapes recovers a quoted text and knows where
  it ends, so two slices of texts print alike only when they are equal; an interpolated text is
  inserted byte for byte; below the nesting bound no text is cut.\<close>

theorem printed_texts_unambiguous:
  "unquote (tl (quote_text s) @ t) = Some (s, t) \<and>
   (if d < STR_MAX_DEPTH
    then (str_into E d (O_slice (map O_str ss)) = str_into E d (O_slice (map O_str ts))) = (ss = ts) \<and>
      vl_interp E d (map O_str ss) = concat ss
    else str_into E d v = ellipsis)"
proof -
  have "unquote (tl (quote_text s) @ t) = Some (s, t)" by (simp add: quote_text_def unquote_quoted)
  moreover have "(str_into E d (O_slice (map O_str ss)) = str_into E d (O_slice (map O_str ts))) = (ss = ts)"
    if "d < STR_MAX_DEPTH"
    using that commas_quoted_inject [of ss ts] by (auto simp: comp_def)
  moreover have "vl_interp E d (map O_str ss) = concat ss" if "d < STR_MAX_DEPTH"
    using that by (simp add: vl_interp_def comp_def)
  ultimately show ?thesis by simp
qed

end
