(* ===== verification/Coll.thy ===== *)
theory Coll
  imports Probe Show
begin

section \<open>Insertion-ordered maps (coll.c: new\_map .. vl\_map\_values)\<close>

text \<open>
  A \<^verbatim>\<open>VlMap\<close>: the entries in insertion order, deleted ones marked unused, and an open-addressed
  index into them.  The operations take the equality and the hash of the keys as arguments; the
  runtime passes \<open>vl_equal\<close> and \<open>vl_hash\<close>.  Reference counts are not modelled.  A loop over the
  index is \<open>probe\<close>, so an operation returns an option: \<^const>\<open>None\<close> would be a search that never ends.
\<close>

subsection \<open>State\<close>

record entry =
  en_k :: val
  en_v :: val
  en_hash :: "64 word"
  en_used :: bool

record vmap =
  vm_ents :: "entry list"
  vm_capents :: nat
  vm_idx :: "int list"
  vm_count :: nat
  vm_is_set :: bool

abbreviation vm_nidx :: "vmap \<Rightarrow> nat" where
  "vm_nidx m \<equiv> length (vm_idx m)"

definition new_map :: "bool \<Rightarrow> vmap" where
  "new_map is_set =
     \<lparr>vm_ents = [], vm_capents = 8, vm_idx = replicate 16 (- 1), vm_count = 0, vm_is_set = is_set\<rparr>"

subsection \<open>Operations\<close>

text \<open>\<^verbatim>\<open>while (m->idx[s] != -1) s = (s + 1) & (m->nidx - 1); m->idx[s] = i\<close>.\<close>

definition home :: "nat \<Rightarrow> 64 word \<Rightarrow> nat" where
  "home nidx h = unat (h AND of_nat (nidx - 1))"

definition place :: "64 word \<Rightarrow> nat \<Rightarrow> int list \<Rightarrow> int list option" where
  "place h i idx =
     map_option (\<lambda>s. idx[s := int i])
       (probe (\<lambda>s. idx ! s = - 1) (length idx - 1) (home (length idx) h))"

fun reindex :: "entry list \<Rightarrow> nat \<Rightarrow> int list \<Rightarrow> int list option" where
  "reindex [] i idx = Some idx"
| "reindex (e # es) i idx =
     (if en_used e then Option.bind (place (en_hash e) i idx) (reindex es (i + 1))
      else reindex es (i + 1) idx)"

definition rehash :: "vmap \<Rightarrow> vmap option" where
  "rehash m =
     map_option (\<lambda>idx. m\<lparr>vm_idx := idx\<rparr>)
       (reindex (vm_ents m) 0 (replicate (2 * vm_nidx m) (- 1)))"

text \<open>The slot and the entry there: the matching one, or \<open>- 1\<close> with the slot to insert at.\<close>

definition find_slot :: "(val \<Rightarrow> val \<Rightarrow> bool) \<Rightarrow> vmap \<Rightarrow> val \<Rightarrow> 64 word \<Rightarrow> (nat \<times> int) option" where
  "find_slot eq m k h =
     map_option (\<lambda>s. (s, vm_idx m ! s))
       (probe (\<lambda>s. vm_idx m ! s = - 1 \<or>
            (let e = vm_ents m ! nat (vm_idx m ! s) in en_used e \<and> en_hash e = h \<and> eq (en_k e) k))
          (vm_nidx m - 1) (home (vm_nidx m) h))"

definition vl_map_set :: "(val \<Rightarrow> val \<Rightarrow> bool) \<Rightarrow> (val \<Rightarrow> 64 word) \<Rightarrow> vmap \<Rightarrow> val \<Rightarrow> val \<Rightarrow> vmap option" where
  "vl_map_set eq hash m k v =
     (let h = hash k
      in Option.bind (find_slot eq m k h) (\<lambda>(slot, entry).
           if 0 \<le> entry then
             Some (if vm_is_set m then m
                   else m\<lparr>vm_ents := (vm_ents m)[nat entry := (vm_ents m ! nat entry)\<lparr>en_v := v\<rparr>]\<rparr>)
           else
             let e = length (vm_ents m);
                 cap = (if e = vm_capents m then 2 * vm_capents m else vm_capents m);
                 en = \<lparr>en_k = k, en_v = (if vm_is_set m then V_nil else v), en_hash = h, en_used = True\<rparr>;
                 m = m\<lparr>vm_ents := vm_ents m @ [en], vm_capents := cap,
                       vm_idx := (vm_idx m)[slot := int e], vm_count := vm_count m + 1\<rparr>
             in if vm_nidx m < 2 * vm_count m then rehash m else Some m))"

definition vl_map_get :: "(val \<Rightarrow> val \<Rightarrow> bool) \<Rightarrow> (val \<Rightarrow> 64 word) \<Rightarrow> vmap \<Rightarrow> val \<Rightarrow> val option option" where
  "vl_map_get eq hash m k =
     map_option (\<lambda>(slot, entry). if entry < 0 then None else Some (en_v (vm_ents m ! nat entry)))
       (find_slot eq m k (hash k))"

definition vl_map_has :: "(val \<Rightarrow> val \<Rightarrow> bool) \<Rightarrow> (val \<Rightarrow> 64 word) \<Rightarrow> vmap \<Rightarrow> val \<Rightarrow> bool option" where
  "vl_map_has eq hash m k = map_option (\<lambda>(slot, entry). 0 \<le> entry) (find_slot eq m k (hash k))"

definition vl_map_delete :: "(val \<Rightarrow> val \<Rightarrow> bool) \<Rightarrow> (val \<Rightarrow> 64 word) \<Rightarrow> vmap \<Rightarrow> val \<Rightarrow> vmap option" where
  "vl_map_delete eq hash m k =
     Option.bind (find_slot eq m k (hash k)) (\<lambda>(slot, entry).
       if entry < 0 then Some m
       else let i = nat entry;
                m = m\<lparr>vm_ents := (vm_ents m)[i := (vm_ents m ! i)\<lparr>en_used := False, en_k := V_nil, en_v := V_nil\<rparr>],
                      vm_count := vm_count m - 1\<rparr>
            in map_option (\<lambda>idx. m\<lparr>vm_idx := idx\<rparr>)
                 (reindex (vm_ents m) 0 (replicate (vm_nidx m) (- 1))))"

definition vl_map_count :: "vmap \<Rightarrow> nat" where
  "vl_map_count m = vm_count m"

definition vl_map_keys :: "vmap \<Rightarrow> val list" where
  "vl_map_keys m = map en_k (filter en_used (vm_ents m))"

definition vl_map_values :: "vmap \<Rightarrow> val list" where
  "vl_map_values m = map en_v (filter en_used (vm_ents m))"


subsection \<open>Well-formed maps\<close>

definition tab :: "int list \<Rightarrow> nat \<Rightarrow> nat option" where
  "tab idx t = (if idx ! t = - 1 then None else Some (nat (idx ! t)))"

definition live :: "entry list \<Rightarrow> nat set" where
  "live es = {i. i < length es \<and> en_used (es ! i)}"

abbreviation homes :: "nat \<Rightarrow> entry list \<Rightarrow> nat \<Rightarrow> nat" where
  "homes n es i \<equiv> home n (en_hash (es ! i))"

text \<open>The entries: keys in order, with their hashes, no two equal.\<close>

definition ents_wf :: "(val \<Rightarrow> val \<Rightarrow> bool) \<Rightarrow> (val \<Rightarrow> 64 word) \<Rightarrow> (val \<Rightarrow> bool) \<Rightarrow> bool \<Rightarrow> entry list \<Rightarrow> bool" where
  "ents_wf eq hash ok is_set es \<longleftrightarrow>
     (\<forall>i \<in> live es. ok (en_k (es ! i)) \<and> en_hash (es ! i) = hash (en_k (es ! i))) \<and>
     (\<forall>i \<in> live es. \<forall>j \<in> live es. eq (en_k (es ! i)) (en_k (es ! j)) \<longrightarrow> i = j) \<and>
     (is_set \<longrightarrow> (\<forall>i \<in> live es. en_v (es ! i) = V_nil))"

text \<open>The index: a power of two of slots, at most half of them taken, holding the live entries.\<close>

definition idx_wf :: "entry list \<Rightarrow> int list \<Rightarrow> bool" where
  "idx_wf es idx \<longleftrightarrow>
     (\<exists>k. length idx = 2 ^ k) \<and> 2 * card (live es) \<le> length idx \<and> (\<forall>s < length idx. - 1 \<le> idx ! s) \<and>
     good_tab (length idx) (tab idx) (homes (length idx) es) (live es)"

definition map_wf :: "(val \<Rightarrow> val \<Rightarrow> bool) \<Rightarrow> (val \<Rightarrow> 64 word) \<Rightarrow> (val \<Rightarrow> bool) \<Rightarrow> vmap \<Rightarrow> bool" where
  "map_wf eq hash ok m \<longleftrightarrow>
     vm_count m = card (live (vm_ents m)) \<and> length (vm_ents m) \<le> vm_capents m \<and> 0 < vm_capents m \<and>
     ents_wf eq hash ok (vm_is_set m) (vm_ents m) \<and> idx_wf (vm_ents m) (vm_idx m)"

lemma live_finite [simp]: "finite (live es)"
  by (simp add: live_def)

lemma live_card: "card (live es) = length (filter en_used es)"
  by (simp add: live_def length_filter_conv_card)

lemma home_less: "n = 2 ^ k \<Longrightarrow> home n h < n"
proof -
  assume n: "n = 2 ^ k"
  have "unat (h AND of_nat (n - 1)) \<le> unat (of_nat (n - 1) :: 64 word)"
    using word_and_le1 [of h "of_nat (n - 1)"] by (simp add: word_le_nat_alt)
  also have "\<dots> \<le> n - 1" by (simp add: unat_of_nat)
  finally have "home n h \<le> n - 1" unfolding home_def .
  moreover have "0 < n" using n by simp
  ultimately show ?thesis by linarith
qed

lemma tab_update: "s < length idx \<Longrightarrow> tab (idx[s := int i]) = (tab idx)(s := Some i)"
  by (auto simp: tab_def fun_eq_iff nth_list_update)

lemma tab_empty: "t < n \<Longrightarrow> tab (replicate n (- 1)) t = None"
  by (simp add: tab_def)

lemma good_tab_cong: "good_tab n u h E \<Longrightarrow> (\<And>t. t < n \<Longrightarrow> u t = u' t) \<Longrightarrow> (\<And>e. e \<in> E \<Longrightarrow> h e = h' e) \<Longrightarrow> good_tab n u' h' E"
proof -
  assume g: "good_tab n u h E" and u: "\<And>t. t < n \<Longrightarrow> u t = u' t" and h: "\<And>e. e \<in> E \<Longrightarrow> h e = h' e"
  show ?thesis
  proof (cases "n = 0")
    case True
    then show ?thesis using g by (auto simp: good_tab_def)
  next
    case False
    then have "(x + j) mod n < n" for x j by simp
    then show ?thesis using g u h unfolding good_tab_def by (metis (no_types, lifting))
  qed
qed

lemma place_good:
  assumes n: "length idx = 2 ^ k" and g: "good_tab (length idx) (tab idx) h E"
    and fin: "finite E" "card E < length idx" and e: "e \<notin> E" and h: "h e = home (length idx) w"
    and lo: "\<forall>s < length idx. - 1 \<le> idx ! s"
  obtains idx' where "place w e idx = Some idx'" "length idx' = length idx"
    "good_tab (length idx') (tab idx') h (insert e E)" "\<forall>s < length idx'. - 1 \<le> idx' ! s"
proof -
  let ?n = "length idx"
  have stop: "(\<lambda>s. idx ! s = - 1) = (\<lambda>t. tab idx t = None)" by (auto simp: tab_def)
  have he: "h e < ?n" using home_less [OF n] by (simp add: h)
  obtain t where "t < ?n" "tab idx t = None" using good_tab_free_slot [OF g fin] by blast
  then obtain j where j: "j < ?n" "stops_at (\<lambda>t. tab idx t = None) ?n (h e) j"
    using stops_at_exists [of t ?n "\<lambda>t. tab idx t = None" "h e"] he by blast
  let ?u = "(h e + j) mod ?n"
  have "0 < ?n" using he by linarith
  then have u: "?u < ?n" by (rule mod_less_divisor)
  have "place w e idx = Some (idx[?u := int e])"
    unfolding place_def stop h [symmetric] using probe_Some [OF n he j(2)] by simp
  moreover have "good_tab ?n (tab (idx[?u := int e])) h (insert e E)"
    unfolding tab_update [OF u] by (rule good_tab_insert [OF g e he j(2,1)])
  moreover have "- 1 \<le> idx[?u := int e] ! s" if "s < ?n" for s
    using lo that by (cases "s = ?u") simp_all
  ultimately show ?thesis using that by simp
qed

lemma live_append: "live (es @ [e]) = (if en_used e then insert (length es) (live es) else live es)"
  by (auto simp: live_def nth_append less_Suc_eq)

lemma live_update: "i < length es \<Longrightarrow> live (es[i := e]) = (if en_used e then insert i (live es) else live es - {i})"
  by (auto simp: live_def nth_list_update split: if_splits)

lemma reindex_good:
  assumes "length idx = 2 ^ k" "good_tab (length idx) (tab idx) (homes (length idx) (pre @ es)) (live pre)"
    "card (live (pre @ es)) < length idx" "\<forall>s < length idx. - 1 \<le> idx ! s"
  shows "\<exists>idx'. reindex es (length pre) idx = Some idx' \<and> length idx' = length idx \<and>
    good_tab (length idx') (tab idx') (homes (length idx') (pre @ es)) (live (pre @ es)) \<and>
    (\<forall>s < length idx'. - 1 \<le> idx' ! s)"
  using assms
proof (induction es arbitrary: pre idx)
  case (Cons e es)
  show ?case
  proof (cases "en_used e")
    case True
    have sub: "live pre \<subseteq> live (pre @ e # es)" by (auto simp: live_def nth_append)
    then have c: "card (live pre) < length idx"
      using Cons.prems(3) card_mono [OF live_finite sub] by linarith
    have "length pre \<notin> live pre" by (simp add: live_def)
    from place_good [OF Cons.prems(1,2) live_finite c this _ Cons.prems(4), of "en_hash e"]
    obtain idx' where idx': "place (en_hash e) (length pre) idx = Some idx'" "length idx' = length idx"
      "good_tab (length idx') (tab idx') (homes (length idx) (pre @ e # es)) (insert (length pre) (live pre))"
      "\<forall>s < length idx'. - 1 \<le> idx' ! s" by auto
    have "\<exists>idx''. reindex es (length (pre @ [e])) idx' = Some idx'' \<and> length idx'' = length idx' \<and>
      good_tab (length idx'') (tab idx'') (homes (length idx'') ((pre @ [e]) @ es)) (live ((pre @ [e]) @ es)) \<and>
      (\<forall>s < length idx''. - 1 \<le> idx'' ! s)"
      using Cons.prems idx' True by (intro Cons.IH) (simp_all add: live_append)
    then show ?thesis using idx' True by simp
  next
    case False
    then have "live (pre @ [e]) = live pre" by (simp add: live_append)
    then show ?thesis using Cons.IH [of idx "pre @ [e]"] Cons.prems False by simp
  qed
qed simp

lemma reindex_empty:
  assumes "n = 2 ^ k" "card (live es) < n"
  obtains idx where "reindex es 0 (replicate n (- 1)) = Some idx" "length idx = n"
    "good_tab n (tab idx) (homes n es) (live es)" "\<forall>s < n. - 1 \<le> idx ! s"
proof -
  have "good_tab n (tab (replicate n (- 1))) (homes n es) (live [])"
    using good_tab_cong [OF good_tab_empty, of n "tab (replicate n (- 1))"] by (simp add: tab_empty live_def)
  with reindex_good [of "replicate n (- 1)" k "[]" es] assms that show ?thesis by auto
qed

subsection \<open>What an operation does to the index\<close>

text \<open>These hold for every equality and hash: the search ends because a slot is free, and a key
  that is not found is stored where its own search will look.\<close>

definition matches :: "(val \<Rightarrow> val \<Rightarrow> bool) \<Rightarrow> entry list \<Rightarrow> val \<Rightarrow> 64 word \<Rightarrow> nat \<Rightarrow> bool" where
  "matches eq es k h i \<longleftrightarrow> en_used (es ! i) \<and> en_hash (es ! i) = h \<and> eq (en_k (es ! i)) k"

lemma idx_wfD:
  assumes "idx_wf es idx"
  obtains p where "length idx = 2 ^ p" "2 * card (live es) \<le> length idx" "card (live es) < length idx"
    "\<forall>s < length idx. - 1 \<le> idx ! s" "good_tab (length idx) (tab idx) (homes (length idx) es) (live es)"
proof -
  from assms obtain p where p: "length idx = 2 ^ p" by (auto simp: idx_wf_def)
  have "0 < length idx" unfolding p by simp
  moreover have "2 * card (live es) \<le> length idx" using assms by (simp add: idx_wf_def)
  ultimately have "card (live es) < length idx" by linarith
  then show ?thesis using that p assms by (simp add: idx_wf_def)
qed

lemma find_slot_run:
  assumes "idx_wf (vm_ents m) (vm_idx m)"
  obtains (found) s e where "find_slot eq m k h = Some (s, int e)" "e \<in> live (vm_ents m)" "matches eq (vm_ents m) k h e"
  | (free) s j where "find_slot eq m k h = Some (s, - 1)" "\<forall>i \<in> live (vm_ents m). \<not> matches eq (vm_ents m) k h i"
      "s < vm_nidx m" "j < vm_nidx m" "stops_at (\<lambda>t. tab (vm_idx m) t = None) (vm_nidx m) (home (vm_nidx m) h) j"
      "s = (home (vm_nidx m) h + j) mod vm_nidx m"
proof -
  let ?n = "vm_nidx m" let ?es = "vm_ents m" let ?mt = "matches eq ?es k h" let ?tab = "tab (vm_idx m)"
  from assms obtain p where n: "?n = 2 ^ p" and c: "card (live ?es) < ?n" and lo: "\<forall>s < ?n. - 1 \<le> vm_idx m ! s"
    and g: "good_tab ?n ?tab (homes ?n ?es) (live ?es)" by (rule idx_wfD)
  have stop: "(\<lambda>s. vm_idx m ! s = - 1 \<or>
       (let e = ?es ! nat (vm_idx m ! s) in en_used e \<and> en_hash e = h \<and> eq (en_k e) k)) =
     (\<lambda>t. case ?tab t of None \<Rightarrow> True | Some e \<Rightarrow> ?mt e)"
    by (auto simp: fun_eq_iff tab_def matches_def Let_def)
  have "\<exists>t < ?n. probe (\<lambda>t. case ?tab t of None \<Rightarrow> True | Some e \<Rightarrow> ?mt e) (?n - 1) (home ?n h) = Some t \<and>
      (case ?tab t of
         None \<Rightarrow> (\<forall>i \<in> live ?es. \<not> ?mt i) \<and>
           (\<exists>j < ?n. stops_at (\<lambda>t. ?tab t = None) ?n (home ?n h) j \<and> t = (home ?n h + j) mod ?n)
       | Some e \<Rightarrow> e \<in> live ?es \<and> ?mt e)"
    by (rule good_tab_search [OF n g live_finite c home_less [OF n]]) (simp add: matches_def)
  then obtain t where t: "t < ?n" "find_slot eq m k h = Some (t, vm_idx m ! t)"
    "case ?tab t of
         None \<Rightarrow> (\<forall>i \<in> live ?es. \<not> ?mt i) \<and>
           (\<exists>j < ?n. stops_at (\<lambda>t. ?tab t = None) ?n (home ?n h) j \<and> t = (home ?n h + j) mod ?n)
       | Some e \<Rightarrow> e \<in> live ?es \<and> ?mt e" unfolding find_slot_def stop by auto
  show ?thesis
  proof (cases "vm_idx m ! t = - 1")
    case True
    then show ?thesis using free [of t] t by (auto simp: tab_def)
  next
    case False
    then have "0 \<le> vm_idx m ! t" using lo t(1) by force
    then show ?thesis using found [of t "nat (vm_idx m ! t)"] t False by (simp add: tab_def)
  qed
qed

lemma reindex_run:
  assumes "n = 2 ^ q" "2 * card (live es) \<le> n"
  obtains idx where "reindex es 0 (replicate n (- 1)) = Some idx" "idx_wf es idx" "length idx = n"
proof -
  have "0 < n" using assms(1) by simp
  then have "card (live es) < n" using assms(2) by linarith
  from reindex_empty [OF assms(1) this] obtain idx where "reindex es 0 (replicate n (- 1)) = Some idx" "length idx = n"
    "good_tab n (tab idx) (homes n es) (live es)" "\<forall>s < n. - 1 \<le> idx ! s" by metis
  with that assms show ?thesis by (auto simp: idx_wf_def)
qed

definition entry_of :: "vmap \<Rightarrow> val \<Rightarrow> val \<Rightarrow> 64 word \<Rightarrow> entry" where
  "entry_of m k v h = \<lparr>en_k = k, en_v = (if vm_is_set m then V_nil else v), en_hash = h, en_used = True\<rparr>"

lemma index_grows:
  assumes "idx_wf es idx" "en_used en" "length idx' = length idx" "s < length idx" "j < length idx"
    "stops_at (\<lambda>t. tab idx t = None) (length idx) (home (length idx) (en_hash en)) j"
    "s = (home (length idx) (en_hash en) + j) mod length idx" "2 * (card (live es) + 1) \<le> length idx"
  shows "idx_wf (es @ [en]) (idx[s := int (length es)])"
proof -
  from assms(1) obtain p where n: "length idx = 2 ^ p" and lo: "\<forall>s < length idx. - 1 \<le> idx ! s"
    and g: "good_tab (length idx) (tab idx) (homes (length idx) es) (live es)" by (rule idx_wfD)
  have new: "length es \<notin> live es" by (simp add: live_def)
  have l: "live (es @ [en]) = insert (length es) (live es)" using assms(2) by (simp add: live_append)
  have "good_tab (length idx) (tab idx) (homes (length idx) (es @ [en])) (live es)"
    by (rule good_tab_cong [OF g]) (auto simp: live_def nth_append)
  from good_tab_insert [OF this new, of j] home_less [OF n]
  have "good_tab (length idx) (tab (idx[s := int (length es)])) (homes (length idx) (es @ [en])) (live (es @ [en]))"
    using assms by (simp add: l tab_update)
  moreover have "card (live (es @ [en])) = card (live es) + 1" using new by (simp add: l)
  moreover have "- 1 \<le> idx[s := int (length es)] ! u" if "u < length idx" for u
    using lo that by (cases "u = s") simp_all
  ultimately show ?thesis using assms(8) n by (auto simp: idx_wf_def)
qed

lemma set_run:
  assumes w: "idx_wf (vm_ents m) (vm_idx m)" "vm_count m = card (live (vm_ents m))"
  obtains (update) e where "e \<in> live (vm_ents m)" "matches eq (vm_ents m) k (hash k) e"
      "vl_map_set eq hash m k v = Some (if vm_is_set m then m
         else m\<lparr>vm_ents := (vm_ents m)[e := (vm_ents m ! e)\<lparr>en_v := v\<rparr>]\<rparr>)"
  | (insert) idx where "\<forall>i \<in> live (vm_ents m). \<not> matches eq (vm_ents m) k (hash k) i"
      "vl_map_set eq hash m k v = Some (m\<lparr>vm_ents := vm_ents m @ [entry_of m k v (hash k)],
         vm_capents := (if length (vm_ents m) = vm_capents m then 2 * vm_capents m else vm_capents m),
         vm_idx := idx, vm_count := vm_count m + 1\<rparr>)"
      "idx_wf (vm_ents m @ [entry_of m k v (hash k)]) idx"
  using w(1)
proof (cases rule: find_slot_run [where eq = eq and k = k and h = "hash k"])
  case (found s e)
  then show ?thesis by (intro update [of e]) (simp_all add: vl_map_set_def)
next
  case (free s j)
  let ?es = "vm_ents m"
  define en where "en = entry_of m k v (hash k)"
  define m1 where "m1 = m\<lparr>vm_ents := ?es @ [en],
    vm_capents := (if length ?es = vm_capents m then 2 * vm_capents m else vm_capents m),
    vm_idx := (vm_idx m)[s := int (length ?es)], vm_count := vm_count m + 1\<rparr>"
  have run: "vl_map_set eq hash m k v = (if vm_nidx m1 < 2 * vm_count m1 then rehash m1 else Some m1)"
    by (simp add: vl_map_set_def free(1) m1_def en_def entry_of_def Let_def)
  have en: "en_used en" "en_hash en = hash k" by (simp_all add: en_def entry_of_def)
  from w(1) obtain p where p: "vm_nidx m = 2 ^ p" "2 * card (live ?es) \<le> vm_nidx m" by (rule idx_wfD)
  show ?thesis
  proof (cases "vm_nidx m1 < 2 * vm_count m1")
    case True
    have "card (live (?es @ [en])) \<le> card (live ?es) + 1" using en(1) by (simp add: live_append card_insert_if)
    moreover have "0 < vm_nidx m" using p(1) by simp
    ultimately have "2 * card (live (?es @ [en])) \<le> 2 * vm_nidx m" using p(2) by presburger
    moreover have "2 * vm_nidx m = 2 ^ Suc p" using p(1) by simp
    ultimately obtain idx where "reindex (?es @ [en]) 0 (replicate (2 * vm_nidx m) (- 1)) = Some idx" "idx_wf (?es @ [en]) idx"
      by (metis reindex_run)
    then show ?thesis using True run free(2) by (intro insert [of idx]) (simp_all add: rehash_def m1_def en_def)
  next
    case False
    then have "2 * (card (live ?es) + 1) \<le> vm_nidx m" using w(2) by (simp add: m1_def)
    then have "idx_wf (?es @ [en]) (vm_idx m1)"
      unfolding m1_def using index_grows [OF w(1) en(1) refl free(3,4)] free(5,6) by (simp add: en(2))
    then show ?thesis using False run free(2) by (intro insert [of "vm_idx m1"]) (simp_all add: m1_def en_def)
  qed
qed

lemma delete_run:
  assumes w: "idx_wf (vm_ents m) (vm_idx m)" "vm_count m = card (live (vm_ents m))"
  obtains (none) "\<forall>i \<in> live (vm_ents m). \<not> matches eq (vm_ents m) k (hash k) i" "vl_map_delete eq hash m k = Some m"
  | (remove) e idx x where "e \<in> live (vm_ents m)" "matches eq (vm_ents m) k (hash k) e" "\<not> en_used x"
      "vl_map_delete eq hash m k = Some (m\<lparr>vm_ents := (vm_ents m)[e := x], vm_idx := idx, vm_count := vm_count m - 1\<rparr>)"
      "idx_wf ((vm_ents m)[e := x]) idx"
  using w(1)
proof (cases rule: find_slot_run [where eq = eq and k = k and h = "hash k"])
  case (found s e)
  let ?es = "vm_ents m"
  define x where "x = (?es ! e)\<lparr>en_used := False, en_k := V_nil, en_v := V_nil\<rparr>"
  have e: "e < length ?es" using found(2) by (simp add: live_def)
  from w(1) obtain p where p: "vm_nidx m = 2 ^ p" "2 * card (live ?es) \<le> vm_nidx m" by (rule idx_wfD)
  have "card (live (?es[e := x])) \<le> card (live ?es)" using e by (simp add: live_update x_def card_Diff1_le)
  then have "2 * card (live (?es[e := x])) \<le> vm_nidx m" using p(2) by linarith
  with p(1) obtain idx where idx: "reindex (?es[e := x]) 0 (replicate (vm_nidx m) (- 1)) = Some idx" "idx_wf (?es[e := x]) idx"
    by (metis reindex_run)
  show ?thesis
    using found idx by (intro remove [of e x idx]) (simp_all add: vl_map_delete_def x_def [symmetric], simp_all add: x_def)
qed (intro none; simp add: vl_map_delete_def)

subsection \<open>The contract of keys, and the operations under it\<close>

text \<open>The abstract map: an association list in insertion order, searched with the keys' equality.\<close>

definition map_al :: "vmap \<Rightarrow> (val \<times> val) list" where
  "map_al m = map (\<lambda>e. (en_k e, en_v e)) (filter en_used (vm_ents m))"

definition al_get :: "(val \<Rightarrow> val \<Rightarrow> bool) \<Rightarrow> (val \<times> val) list \<Rightarrow> val \<Rightarrow> val option" where
  "al_get eq xs k = map_option snd (find (\<lambda>x. eq (fst x) k) xs)"

definition al_has :: "(val \<Rightarrow> val \<Rightarrow> bool) \<Rightarrow> (val \<times> val) list \<Rightarrow> val \<Rightarrow> bool" where
  "al_has eq xs k \<longleftrightarrow> (\<exists>x \<in> set xs. eq (fst x) k)"

definition al_set :: "(val \<Rightarrow> val \<Rightarrow> bool) \<Rightarrow> (val \<times> val) list \<Rightarrow> val \<Rightarrow> val \<Rightarrow> (val \<times> val) list" where
  "al_set eq xs k v =
     (if al_has eq xs k then map (\<lambda>x. (fst x, if eq (fst x) k then v else snd x)) xs else xs @ [(k, v)])"

definition al_del :: "(val \<Rightarrow> val \<Rightarrow> bool) \<Rightarrow> (val \<times> val) list \<Rightarrow> val \<Rightarrow> (val \<times> val) list" where
  "al_del eq xs k = filter (\<lambda>x. \<not> eq (fst x) k) xs"

subsection \<open>Entry lists and association lists\<close>

definition al_of :: "entry list \<Rightarrow> (val \<times> val) list" where
  "al_of es = map (\<lambda>e. (en_k e, en_v e)) (filter en_used es)"

lemma map_al_of: "map_al m = al_of (vm_ents m)"
  by (simp add: map_al_def al_of_def)

lemma al_of_append: "al_of (xs @ ys) = al_of xs @ al_of ys"
  by (simp add: al_of_def)

lemma set_al_of: "x \<in> set (al_of es) \<longleftrightarrow> (\<exists>i \<in> live es. x = (en_k (es ! i), en_v (es ! i)))"
  by (auto simp: al_of_def live_def in_set_conv_nth)

lemma al_has_live: "al_has eq (al_of es) k \<longleftrightarrow> (\<exists>i \<in> live es. eq (en_k (es ! i)) k)"
  unfolding al_has_def by (force simp: set_al_of)

lemma al_get_unique:
  assumes "x \<in> set xs" "eq (fst x) k" "\<And>y. y \<in> set xs \<Longrightarrow> eq (fst y) k \<Longrightarrow> y = x"
  shows "al_get eq xs k = Some (snd x)"
proof -
  have "find (\<lambda>x. eq (fst x) k) xs \<noteq> None"
    unfolding find_None_iff using assms(1,2) by blast
  then obtain z where z: "find (\<lambda>x. eq (fst x) k) xs = Some z" by blast
  then have "z \<in> set xs" "eq (fst z) k" by (auto simp: find_Some_iff)
  then show ?thesis using assms(3) z by (simp add: al_get_def)
qed

lemma al_get_None: "al_get eq xs k = None \<longleftrightarrow> \<not> al_has eq xs k"
  by (auto simp: al_get_def al_has_def find_None_iff)

lemma entry_split:
  assumes "i \<in> live es"
  shows "es = take i es @ es ! i # drop (Suc i) es" "es[i := x] = take i es @ x # drop (Suc i) es" "en_used (es ! i)"
  using assms by (auto simp: live_def id_take_nth_drop upd_conv_take_nth_drop)

lemma others_unmatched:
  assumes "i \<in> live es" "\<And>j. j \<in> live es \<Longrightarrow> eq (en_k (es ! j)) k \<Longrightarrow> j = i"
    "e \<in> set (take i es) \<or> e \<in> set (drop (Suc i) es)" "en_used e"
  shows "\<not> eq (en_k e) k"
proof
  assume m: "eq (en_k e) k"
  obtain j where j: "j < length es" "es ! j = e" "j \<noteq> i"
    using assms(3)
  proof
    assume "e \<in> set (take i es)"
    then show thesis using that by (auto simp: in_set_conv_nth)
  next
    assume "e \<in> set (drop (Suc i) es)"
    then obtain n where "n < length es - Suc i" "es ! (Suc i + n) = e" by (auto simp: in_set_conv_nth)
    then show thesis using that [of "Suc i + n"] by simp
  qed
  then have "j \<in> live es" using assms(4) by (simp add: live_def)
  then show False using assms(2) [of j] j m by simp
qed

lemma al_of_update:
  assumes "i \<in> live es" "eq (en_k (es ! i)) k" "\<And>j. j \<in> live es \<Longrightarrow> eq (en_k (es ! j)) k \<Longrightarrow> j = i"
  shows "al_of (es[i := (es ! i)\<lparr>en_v := v\<rparr>]) = al_set eq (al_of es) k v"
    and "\<not> en_used x \<Longrightarrow> al_of (es[i := x]) = al_del eq (al_of es) k"
proof -
  have same: "map (\<lambda>x. (fst x, if eq (fst x) k then v else snd x)) (al_of xs) = al_of xs"
    "filter (\<lambda>x. \<not> eq (fst x) k) (al_of xs) = al_of xs"
    if "\<And>e. e \<in> set xs \<Longrightarrow> en_used e \<Longrightarrow> \<not> eq (en_k e) k" for xs
    using that by (induction xs) (auto simp: al_of_def)
  note un = others_unmatched [where eq = eq and k = k, OF assms(1,3)]
  have h: "al_has eq (al_of es) k" using assms(1,2) by (auto simp: al_has_live)
  have es: "al_of es = al_of (take i es) @ (en_k (es ! i), en_v (es ! i)) # al_of (drop (Suc i) es)"
    using entry_split(3) [OF assms(1)] by (subst entry_split(1) [OF assms(1)]) (simp add: al_of_def)
  show "al_of (es[i := (es ! i)\<lparr>en_v := v\<rparr>]) = al_set eq (al_of es) k v"
    using h un entry_split(3) [OF assms(1)] assms(2)
    by (simp add: al_set_def es same entry_split(2) [OF assms(1)] al_of_append) (simp add: al_of_def)
  show "\<not> en_used x \<Longrightarrow> al_of (es[i := x]) = al_del eq (al_of es) k"
    using un assms(2)
    by (simp add: al_del_def es same entry_split(2) [OF assms(1)] al_of_append) (simp add: al_of_def)
qed

lemma idx_wf_same_hashes:
  assumes "idx_wf es idx" "live es' = live es" "\<And>i. i \<in> live es \<Longrightarrow> en_hash (es' ! i) = en_hash (es ! i)"
  shows "idx_wf es' idx"
  using assms good_tab_cong [of "length idx" "tab idx" "homes (length idx) es" "live es" "tab idx" "homes (length idx) es'"]
  by (simp add: idx_wf_def)

locale hashed_keys =
  fixes eq :: "val \<Rightarrow> val \<Rightarrow> bool" and hash :: "val \<Rightarrow> 64 word" and ok :: "val \<Rightarrow> bool"
  assumes eq_refl: "ok a \<Longrightarrow> eq a a"
    and eq_sym: "ok a \<Longrightarrow> ok b \<Longrightarrow> eq a b \<Longrightarrow> eq b a"
    and eq_trans: "ok a \<Longrightarrow> ok b \<Longrightarrow> ok c \<Longrightarrow> eq a b \<Longrightarrow> eq b c \<Longrightarrow> eq a c"
    and eq_hash: "ok a \<Longrightarrow> ok b \<Longrightarrow> eq a b \<Longrightarrow> hash a = hash b"
begin

abbreviation wf :: "vmap \<Rightarrow> bool" where "wf \<equiv> map_wf eq hash ok"

lemma wf_new: "wf (new_map b)"
proof -
  have "good_tab 16 (tab (replicate 16 (- 1))) (homes 16 []) {}"
    by (rule good_tab_cong [OF good_tab_empty, of 16 "tab (replicate 16 (- 1))" "homes 16 []"]) (simp_all add: tab_empty)
  moreover have "\<exists>k. (16 :: nat) = 2 ^ k" by (rule exI [of _ 4]) simp
  ultimately show ?thesis by (simp add: map_wf_def ents_wf_def idx_wf_def new_map_def live_def)
qed

lemma live_keys:
  assumes "wf m" "i \<in> live (vm_ents m)"
  shows "ok (en_k (vm_ents m ! i))" "en_hash (vm_ents m ! i) = hash (en_k (vm_ents m ! i))" "i < length (vm_ents m)" "en_used (vm_ents m ! i)"
  using assms by (auto simp: map_wf_def ents_wf_def live_def)

lemma unique_match:
  assumes "wf m" "ok k" "i \<in> live (vm_ents m)" "eq (en_k (vm_ents m ! i)) k" "j \<in> live (vm_ents m)" "eq (en_k (vm_ents m ! j)) k"
  shows "j = i"
proof -
  have "ok (en_k (vm_ents m ! i))" "ok (en_k (vm_ents m ! j))" using live_keys [OF assms(1)] assms by blast+
  then have "eq (en_k (vm_ents m ! i)) (en_k (vm_ents m ! j))" using eq_trans eq_sym assms by blast
  then show ?thesis using assms by (auto simp: map_wf_def ents_wf_def)
qed

lemma wfD:
  assumes "wf m"
  shows "vm_count m = card (live (vm_ents m))" "length (vm_ents m) \<le> vm_capents m" "0 < vm_capents m"
    "ents_wf eq hash ok (vm_is_set m) (vm_ents m)" "idx_wf (vm_ents m) (vm_idx m)"
  using assms by (simp_all add: map_wf_def)

lemma matches_iff:
  assumes "wf m" "ok k" "i \<in> live (vm_ents m)"
  shows "matches eq (vm_ents m) k (hash k) i \<longleftrightarrow> eq (en_k (vm_ents m ! i)) k"
  using live_keys [OF assms(1,3)] eq_hash assms(2) by (auto simp: matches_def)

lemma get_correct:
  assumes "wf m" "ok k"
  shows "vl_map_get eq hash m k = Some (al_get eq (map_al m) k) \<and> vl_map_has eq hash m k = Some (al_has eq (map_al m) k)"
  using wfD(5) [OF assms(1)]
proof (cases rule: find_slot_run [where eq = eq and k = k and h = "hash k"])
  case (found s e)
  let ?x = "(en_k (vm_ents m ! e), en_v (vm_ents m ! e))"
  have i: "e \<in> live (vm_ents m)" "eq (en_k (vm_ents m ! e)) k" using found(2,3) matches_iff [OF assms] by auto
  have "al_get eq (map_al m) k = Some (snd ?x)"
    unfolding map_al_of
  proof (rule al_get_unique)
    show "?x \<in> set (al_of (vm_ents m))" using i(1) by (auto simp: set_al_of)
    show "y = ?x" if "y \<in> set (al_of (vm_ents m))" "eq (fst y) k" for y
      using that unique_match [OF assms i] by (auto simp: set_al_of)
  qed (simp add: i(2))
  then show ?thesis using found(1) i by (auto simp: vl_map_get_def vl_map_has_def map_al_of al_has_live)
next
  case (free s j)
  then have no: "\<not> al_has eq (map_al m) k" using matches_iff [OF assms] by (auto simp: map_al_of al_has_live)
  then have "al_get eq (map_al m) k = None" by (simp only: al_get_None simp_thms)
  then show ?thesis using free(1) no by (simp add: vl_map_get_def vl_map_has_def)
qed

lemma update_wf:
  assumes "wf m" "ok k" "e \<in> live (vm_ents m)" "eq (en_k (vm_ents m ! e)) k" "\<not> vm_is_set m"
  shows "wf (m\<lparr>vm_ents := (vm_ents m)[e := (vm_ents m ! e)\<lparr>en_v := v\<rparr>]\<rparr>)"
proof -
  let ?es = "vm_ents m" let ?es' = "?es[e := (?es ! e)\<lparr>en_v := v\<rparr>]"
  have el: "e < length ?es" "en_used (?es ! e)" using assms(3) by (simp_all add: live_def)
  have l: "live ?es' = live ?es" using assms(3) by (auto simp: live_update el)
  have n: "en_k (?es' ! j) = en_k (?es ! j)" "en_hash (?es' ! j) = en_hash (?es ! j)" if "j \<in> live ?es" for j
    using el(1) by (simp_all add: nth_list_update)
  note w = wfD [OF assms(1)]
  have "ents_wf eq hash ok (vm_is_set m) ?es'" using w(4) assms(5) unfolding ents_wf_def l by (simp add: n)
  moreover have "idx_wf ?es' (vm_idx m)" by (rule idx_wf_same_hashes [OF w(5) l n(2)])
  ultimately show ?thesis using w l by (simp add: map_wf_def)
qed

lemma insert_ents_wf:
  assumes "wf m" "ok k" "\<forall>i \<in> live (vm_ents m). \<not> eq (en_k (vm_ents m ! i)) k"
  shows "ents_wf eq hash ok (vm_is_set m) (vm_ents m @ [entry_of m k v (hash k)])"
proof -
  let ?es = "vm_ents m" let ?en = "entry_of m k v (hash k)"
  have l: "live (?es @ [?en]) = insert (length ?es) (live ?es)" by (simp add: live_append entry_of_def)
  have old: "(?es @ [?en]) ! i = ?es ! i" if "i \<in> live ?es" for i using that by (simp add: live_def nth_append)
  have sym: "\<not> eq k (en_k (?es ! i))" if "i \<in> live ?es" for i
    using assms(3) eq_sym [OF assms(2), of "en_k (?es ! i)"] live_keys(1) [OF assms(1) that] that by blast
  show ?thesis
    using wfD(4) [OF assms(1)] assms(2,3) sym unfolding ents_wf_def l by (simp add: old) (simp add: entry_of_def old)
qed

lemma set_correct:
  assumes "wf m" "ok k" "vm_is_set m \<Longrightarrow> v = V_nil"
  obtains m' where "vl_map_set eq hash m k v = Some m'" "wf m'" "map_al m' = al_set eq (map_al m) k v"
    "vm_is_set m' = vm_is_set m"
  using wfD(5,1) [OF assms(1)]
proof (cases rule: set_run [where eq = eq and hash = hash and k = k and v = v])
  case (update e)
  let ?es = "vm_ents m" let ?es' = "?es[e := (?es ! e)\<lparr>en_v := v\<rparr>]"
  have i: "e \<in> live ?es" "eq (en_k (?es ! e)) k" using update(1,2) matches_iff [OF assms(1,2)] by auto
  have al: "al_of ?es' = al_set eq (al_of ?es) k v"
    by (rule al_of_update(1) [where eq = eq and k = k, OF i]) (rule unique_match [OF assms(1,2) i])
  show ?thesis
  proof (cases "vm_is_set m")
    case True
    then have "v = en_v (?es ! e)" using assms(3) wfD(4) [OF assms(1)] i(1) by (auto simp: ents_wf_def)
    then have "?es' = ?es" by (simp add: list_update_id)
    then show ?thesis using that [of m] assms(1) True update(3) al by (simp add: map_al_of)
  next
    case False
    then show ?thesis using that update(3) al update_wf [OF assms(1,2) i False] by (simp add: map_al_of)
  qed
next
  case (insert idx)
  have no: "\<forall>i \<in> live (vm_ents m). \<not> eq (en_k (vm_ents m ! i)) k" using insert(1) matches_iff [OF assms(1,2)] by blast
  define m' where "m' = m\<lparr>vm_ents := vm_ents m @ [entry_of m k v (hash k)],
    vm_capents := (if length (vm_ents m) = vm_capents m then 2 * vm_capents m else vm_capents m),
    vm_idx := idx, vm_count := vm_count m + 1\<rparr>"
  note w = wfD [OF assms(1)]
  have "wf m'" using w insert(3) insert_ents_wf [OF assms(1,2) no, of v]
    by (auto simp: map_wf_def m'_def live_append entry_of_def) (simp add: live_def)+
  moreover have "map_al m' = al_set eq (map_al m) k v"
    using no assms(3) by (cases "vm_is_set m") (simp_all add: map_al_of m'_def al_of_append al_set_def al_has_live, simp_all add: al_of_def entry_of_def)
  ultimately show ?thesis using that [of m'] insert(2) by (simp add: m'_def)
qed

lemma delete_correct:
  assumes "wf m" "ok k"
  obtains m' where "vl_map_delete eq hash m k = Some m'" "wf m'" "map_al m' = al_del eq (map_al m) k"
    "vm_is_set m' = vm_is_set m"
  using wfD(5,1) [OF assms(1)]
proof (cases rule: delete_run [where eq = eq and hash = hash and k = k])
  case none
  then have "al_del eq (map_al m) k = map_al m"
    using matches_iff [OF assms] by (auto simp: al_del_def map_al_of set_al_of filter_id_conv)
  then show ?thesis using that [of m] none assms(1) by simp
next
  case (remove e idx x)
  let ?es = "vm_ents m"
  have i: "e \<in> live ?es" "eq (en_k (?es ! e)) k" using remove(1,2) matches_iff [OF assms] by auto
  have el: "e < length ?es" using i(1) by (simp add: live_def)
  have l: "live (?es[e := x]) = live ?es - {e}" using remove(3) by (simp add: live_update el)
  note w = wfD [OF assms(1)]
  have "ents_wf eq hash ok (vm_is_set m) (?es[e := x])" using w(4) unfolding ents_wf_def l by simp
  then have "wf (m\<lparr>vm_ents := ?es[e := x], vm_idx := idx, vm_count := vm_count m - 1\<rparr>)"
    using w remove(5) i(1) by (simp add: map_wf_def l)
  moreover have "al_of (?es[e := x]) = al_del eq (al_of ?es) k"
    using al_of_update(2) [where eq = eq and k = k, OF i unique_match [OF assms i]] remove(3) by blast
  ultimately show ?thesis using that remove(4) by (simp add: map_al_of)
qed

lemma count_correct: "wf m \<Longrightarrow> vl_map_count m = length (map_al m)"
  by (simp add: vl_map_count_def map_wf_def live_card map_al_def)

end

text \<open>The keys of value.c keep the contract.\<close>

interpretation vk: hashed_keys vl_equal "vl_hash pt" key_ok for pt
proof
  show "vl_equal a a" if "key_ok a" for a using that by (simp add: vl_equal_strip)
  show "vl_equal b a" if "key_ok a" "key_ok b" "vl_equal a b" for a b using that by (simp add: vl_equal_strip)
  show "vl_equal a c" if "key_ok a" "key_ok b" "key_ok c" "vl_equal a b" "vl_equal b c" for a b c
    using that by (simp add: vl_equal_strip)
  show "vl_hash pt a = vl_hash pt b" if "key_ok a" "key_ok b" "vl_equal a b" for a b
    using that vl_hash_strip [of pt a] vl_hash_strip [of pt b] by (simp add: vl_equal_strip)
qed

subsection \<open>The ordered map as an interface\<close>

text \<open>What the users of a map rely on: an association list without duplicate keys that a store
  extends at its end or changes in place.\<close>

definition keys_distinct :: "(val \<Rightarrow> val \<Rightarrow> bool) \<Rightarrow> (val \<times> val) list \<Rightarrow> bool" where
  "keys_distinct eq xs \<longleftrightarrow> sorted_wrt (\<lambda>x y. \<not> eq (fst x) (fst y)) xs"

locale ordered_map =
  fixes inv :: "'m \<Rightarrow> bool" and entries :: "'m \<Rightarrow> (val \<times> val) list"
    and store :: "'m \<Rightarrow> val \<Rightarrow> val \<Rightarrow> 'm option" and eq :: "val \<Rightarrow> val \<Rightarrow> bool" and ok :: "val \<Rightarrow> bool"
  assumes store_correct: "inv m \<Longrightarrow> ok k \<Longrightarrow> \<exists>m'. store m k v = Some m' \<and> inv m' \<and> entries m' = al_set eq (entries m) k v"
begin

text \<open>A loop of stores.\<close>

fun store_all :: "'m \<Rightarrow> (val \<times> val) list \<Rightarrow> 'm option" where
  "store_all m [] = Some m"
| "store_all m (kv # kvs) = Option.bind (store m (fst kv) (snd kv)) (\<lambda>m'. store_all m' kvs)"

lemma store_all_correct:
  assumes "inv m" "list_all (\<lambda>kv. ok (fst kv)) kvs"
  shows "\<exists>m'. store_all m kvs = Some m' \<and> inv m' \<and> entries m' = foldl (\<lambda>xs kv. al_set eq xs (fst kv) (snd kv)) (entries m) kvs"
  using assms
proof (induction kvs arbitrary: m)
  case (Cons kv kvs)
  then have "ok (fst kv)" by simp
  then obtain m1 where "store m (fst kv) (snd kv) = Some m1" "inv m1" "entries m1 = al_set eq (entries m) (fst kv) (snd kv)"
    using store_correct [OF Cons.prems(1)] by blast
  then show ?case using Cons.IH [of m1] Cons.prems(2) by auto
qed simp

lemma al_set_new: "\<not> al_has eq xs k \<Longrightarrow> al_set eq xs k v = xs @ [(k, v)]"
  by (simp add: al_set_def)

lemma foldl_fresh:
  assumes "keys_distinct eq (xs @ kvs)"
  shows "foldl (\<lambda>xs kv. al_set eq xs (fst kv) (snd kv)) xs kvs = xs @ kvs"
  using assms
proof (induction kvs arbitrary: xs)
  case (Cons kv kvs)
  have "\<not> al_has eq xs (fst kv)"
    using Cons.prems by (auto simp: keys_distinct_def sorted_wrt_append al_has_def)
  then show ?case using Cons.IH [of "xs @ [kv]"] Cons.prems by (simp add: al_set_new)
qed simp

text \<open>Storing the entries of one map into an empty one copies it.\<close>

lemma copy_correct:
  assumes "inv m0" "entries m0 = []" "keys_distinct eq kvs" "list_all (\<lambda>kv. ok (fst kv)) kvs"
  shows "\<exists>m'. store_all m0 kvs = Some m' \<and> inv m' \<and> entries m' = kvs"
  using store_all_correct [OF assms(1,4)] foldl_fresh [of "[]" kvs] assms(2,3) by simp

end

text \<open>A map (not a set) of good keys keeps the interface.\<close>

definition good_map :: "(addr \<Rightarrow> string) \<Rightarrow> vmap \<Rightarrow> bool" where
  "good_map pt m \<longleftrightarrow> map_wf vl_equal (vl_hash pt) key_ok m \<and> \<not> vm_is_set m"

definition good_set :: "(addr \<Rightarrow> string) \<Rightarrow> vmap \<Rightarrow> bool" where
  "good_set pt m \<longleftrightarrow> map_wf vl_equal (vl_hash pt) key_ok m \<and> vm_is_set m"

interpretation om: ordered_map "good_map pt" map_al "vl_map_set vl_equal (vl_hash pt)" vl_equal key_ok for pt
proof
  fix m k v assume "good_map pt m" "key_ok k"
  then show "\<exists>m'. vl_map_set vl_equal (vl_hash pt) m k v = Some m' \<and> good_map pt m' \<and> map_al m' = al_set vl_equal (map_al m) k v"
    using vk.set_correct [of pt m k v] unfolding good_map_def by metis
qed

lemma good_map_entries:
  assumes "map_wf eq hash ok m"
  shows "keys_distinct eq (map_al m)" "list_all (\<lambda>kv. ok (fst kv)) (map_al m)"
proof -
  let ?es = "vm_ents m"
  have w: "ents_wf eq hash ok (vm_is_set m) ?es" using assms by (simp add: map_wf_def)
  have "sorted_wrt (\<lambda>e f. en_used e \<longrightarrow> en_used f \<longrightarrow> \<not> eq (en_k e) (en_k f)) ?es"
    unfolding sorted_wrt_iff_nth_less
  proof (intro allI impI notI)
    fix i j assume ij: "i < j" "j < length ?es" "en_used (?es ! i)" "en_used (?es ! j)" "eq (en_k (?es ! i)) (en_k (?es ! j))"
    then have "i \<in> live ?es" "j \<in> live ?es" by (simp_all add: live_def)
    then show False using w ij unfolding ents_wf_def by auto
  qed
  then have "sorted_wrt (\<lambda>e f. en_used e \<longrightarrow> en_used f \<longrightarrow> \<not> eq (en_k e) (en_k f)) (filter en_used ?es)"
    by (rule sorted_wrt_filter)
  then have "sorted_wrt (\<lambda>e f. \<not> eq (en_k e) (en_k f)) (filter en_used ?es)"
    by (rule sorted_wrt_mono_rel [rotated]) auto
  then show "keys_distinct eq (map_al m)" by (simp add: keys_distinct_def map_al_def sorted_wrt_map)
  show "list_all (\<lambda>kv. ok (fst kv)) (map_al m)"
    using w by (auto simp: list_all_iff map_al_of set_al_of ents_wf_def)
qed

subsection \<open>Copy on write (types.c: container\_shallow\_copy)\<close>

fun copy_entries :: "(val \<Rightarrow> val \<Rightarrow> bool) \<Rightarrow> (val \<Rightarrow> 64 word) \<Rightarrow> bool \<Rightarrow> entry list \<Rightarrow> vmap \<Rightarrow> vmap option" where
  "copy_entries eq hash is_set [] out = Some out"
| "copy_entries eq hash is_set (e # es) out =
     (if en_used e
      then Option.bind (vl_map_set eq hash out (en_k e) (if is_set then V_nil else en_v e)) (copy_entries eq hash is_set es)
      else copy_entries eq hash is_set es out)"

definition container_shallow_copy :: "(val \<Rightarrow> val \<Rightarrow> bool) \<Rightarrow> (val \<Rightarrow> 64 word) \<Rightarrow> vmap \<Rightarrow> vmap option" where
  "container_shallow_copy eq hash m = copy_entries eq hash (vm_is_set m) (vm_ents m) (new_map (vm_is_set m))"

lemma copy_entries_store_all:
  "copy_entries vl_equal (vl_hash pt) False es out = om.store_all pt out (al_of es)"
  by (induction es arbitrary: out) (auto simp: al_of_def intro!: arg_cong [where f = "Option.bind x" for x])

subsection \<open>Properties\<close>

text \<open>Every state a program can reach, whatever its keys.\<close>

inductive map_built :: "(val \<Rightarrow> val \<Rightarrow> bool) \<Rightarrow> (val \<Rightarrow> 64 word) \<Rightarrow> vmap \<Rightarrow> bool" for eq hash where
  built_new: "map_built eq hash (new_map b)"
| built_set: "map_built eq hash m \<Longrightarrow> vl_map_set eq hash m k v = Some m' \<Longrightarrow> map_built eq hash m'"
| built_delete: "map_built eq hash m \<Longrightarrow> vl_map_delete eq hash m k = Some m' \<Longrightarrow> map_built eq hash m'"

lemma new_map_idx: "idx_wf (vm_ents (new_map b)) (vm_idx (new_map b))"
proof -
  have "good_tab 16 (tab (replicate 16 (- 1))) (homes 16 []) {}"
    by (rule good_tab_cong [OF good_tab_empty, of 16 "tab (replicate 16 (- 1))" "homes 16 []"]) (simp_all add: tab_empty)
  moreover have "\<exists>k. (16 :: nat) = 2 ^ k" by (rule exI [of _ 4]) simp
  ultimately show ?thesis by (simp add: idx_wf_def new_map_def live_def)
qed

lemma map_built_idx:
  "map_built eq hash m \<Longrightarrow> idx_wf (vm_ents m) (vm_idx m) \<and> vm_count m = card (live (vm_ents m)) \<and>
    length (vm_ents m) \<le> vm_capents m \<and> 0 < vm_capents m"
proof (induction rule: map_built.induct)
  case (built_new b)
  then show ?case using new_map_idx by (simp add: new_map_def live_def)
next
  case (built_set m k v m')
  then have "idx_wf (vm_ents m) (vm_idx m)" "vm_count m = card (live (vm_ents m))" by simp_all
  then show ?case
  proof (cases rule: set_run [where eq = eq and hash = hash and k = k and v = v])
    case (update e)
    let ?es = "vm_ents m" let ?es' = "?es[e := (?es ! e)\<lparr>en_v := v\<rparr>]"
    have e: "e < length ?es" "en_used (?es ! e)" using update(1) by (simp_all add: live_def)
    then have l: "live ?es' = live ?es" using update(1) by (auto simp: live_update)
    have "idx_wf ?es' (vm_idx m)"
      using built_set.IH e by (intro idx_wf_same_hashes [OF _ l]) (auto simp: nth_list_update)
    then show ?thesis using built_set.IH built_set.hyps update(3) l by (cases "vm_is_set m") auto
  next
    case (insert idx)
    have "card (insert (length (vm_ents m)) (live (vm_ents m))) = card (live (vm_ents m)) + 1" by (simp add: live_def)
    then show ?thesis using insert(2,3) built_set.IH built_set.hyps by (auto simp: live_append entry_of_def)
  qed
next
  case (built_delete m k m')
  then have "idx_wf (vm_ents m) (vm_idx m)" "vm_count m = card (live (vm_ents m))" by simp_all
  then show ?case
  proof (cases rule: delete_run [where eq = eq and hash = hash and k = k])
    case none
    then show ?thesis using built_delete by simp
  next
    case (remove e idx x)
    then have "e < length (vm_ents m)" by (simp add: live_def)
    then have "live ((vm_ents m)[e := x]) = live (vm_ents m) - {e}" using remove(3) by (simp add: live_update)
    then show ?thesis using remove built_delete by auto
  qed
qed

text \<open>C14. Every reachable map, with any keys (floats and runes included, for which equality and hash
  disagree), satisfies the invariant of its representation: the index has a power of two of slots,
  is at most half full, holds every live entry exactly once on the probe path from its hash, and
  the count is the number of live entries.\<close>

theorem map_invariant:
  assumes "map_built eq hash m"
  shows "(\<exists>k. vm_nidx m = 2 ^ k) \<and> 2 * vm_count m \<le> vm_nidx m \<and>
    vm_count m = length (map_al m) \<and> length (vm_ents m) \<le> vm_capents m \<and>
    (\<forall>s < vm_nidx m. - 1 \<le> vm_idx m ! s) \<and>
    good_tab (vm_nidx m) (tab (vm_idx m)) (homes (vm_nidx m) (vm_ents m)) (live (vm_ents m))"
  using map_built_idx [OF assms] by (simp add: idx_wf_def live_card map_al_def)

theorem map_invariant_witness:
  "2 * vm_count (new_map True) \<le> vm_nidx (new_map True)"
  using map_invariant [OF built_new [of vl_equal "vl_hash (\<lambda>_. [])" True]] by simp

text \<open>C15. No map operation loops: on every reachable map and every key the search ends, and a store, a
  lookup, a test and a deletion return, whatever the equality and the hash of the keys are.\<close>

theorem map_operations_terminate:
  assumes "map_built eq hash m"
  shows "find_slot eq m k h \<noteq> None \<and> vl_map_set eq hash m k v \<noteq> None \<and> vl_map_get eq hash m k \<noteq> None \<and>
    vl_map_has eq hash m k \<noteq> None \<and> vl_map_delete eq hash m k \<noteq> None"
proof -
  have w: "idx_wf (vm_ents m) (vm_idx m)" "vm_count m = card (live (vm_ents m))"
    using map_built_idx [OF assms] by simp_all
  have f: "find_slot eq m k h \<noteq> None" for h
    using w(1) by (cases rule: find_slot_run [where eq = eq and k = k and h = h]) simp_all
  have s: "vl_map_set eq hash m k v \<noteq> None"
    using w by (cases rule: set_run [where eq = eq and hash = hash and k = k and v = v]) simp_all
  have d: "vl_map_delete eq hash m k \<noteq> None"
    using w by (cases rule: delete_run [where eq = eq and hash = hash and k = k]) simp_all
  show ?thesis using f s d by (simp add: vl_map_get_def vl_map_has_def)
qed

theorem map_operations_terminate_witness:
  "vl_map_delete vl_equal (vl_hash (\<lambda>_. [])) (new_map False) (V_rune 97) \<noteq> None"
  using map_operations_terminate [OF built_new [of vl_equal "vl_hash (\<lambda>_. [])" False]] by blast

text \<open>C13. Under the contract of keys the operations implement the insertion-ordered map: a store
  changes the value in place or adds the key at the end, a deletion removes the key and keeps the
  order of the others, a lookup and a test answer as the association list does, keys, values and
  count read it in order; a new map is empty and every result is well formed again.\<close>

theorem map_refines_ordered_map:
  assumes "map_wf vl_equal (vl_hash pt) key_ok m" "key_ok k" "vm_is_set m \<longrightarrow> v = V_nil"
  shows "(\<exists>m'. vl_map_set vl_equal (vl_hash pt) m k v = Some m' \<and> map_wf vl_equal (vl_hash pt) key_ok m' \<and>
      map_al m' = al_set vl_equal (map_al m) k v) \<and>
    (\<exists>m'. vl_map_delete vl_equal (vl_hash pt) m k = Some m' \<and> map_wf vl_equal (vl_hash pt) key_ok m' \<and>
      map_al m' = al_del vl_equal (map_al m) k) \<and>
    vl_map_get vl_equal (vl_hash pt) m k = Some (al_get vl_equal (map_al m) k) \<and>
    vl_map_has vl_equal (vl_hash pt) m k = Some (al_has vl_equal (map_al m) k) \<and>
    vl_map_count m = length (map_al m) \<and> vl_map_keys m = map fst (map_al m) \<and> vl_map_values m = map snd (map_al m) \<and>
    map_wf vl_equal (vl_hash pt) key_ok (new_map b) \<and> map_al (new_map b) = [] \<and> keys_distinct vl_equal (map_al m)"
proof (intro conjI)
  show "\<exists>m'. vl_map_set vl_equal (vl_hash pt) m k v = Some m' \<and> map_wf vl_equal (vl_hash pt) key_ok m' \<and>
      map_al m' = al_set vl_equal (map_al m) k v"
    using vk.set_correct [OF assms(1,2)] assms(3) by metis
  show "\<exists>m'. vl_map_delete vl_equal (vl_hash pt) m k = Some m' \<and> map_wf vl_equal (vl_hash pt) key_ok m' \<and>
      map_al m' = al_del vl_equal (map_al m) k"
    using vk.delete_correct [OF assms(1,2)] by metis
  show "vl_map_count m = length (map_al m)" by (rule vk.count_correct [OF assms(1)])
  show "map_wf vl_equal (vl_hash pt) key_ok (new_map b)" by (rule vk.wf_new)
qed (simp_all add: vk.get_correct [OF assms(1,2)] vl_map_keys_def vl_map_values_def map_al_def comp_def new_map_def
      good_map_entries [OF assms(1), unfolded map_al_def])

theorem map_refines_ordered_map_witness:
  "\<exists>m. vl_map_set vl_equal (vl_hash (\<lambda>_. [])) (new_map False) (O_str ''k'') (V_int 1) = Some m \<and> map_al m = [(O_str ''k'', V_int 1)]"
  using map_refines_ordered_map [OF vk.wf_new [of "\<lambda>_. []" False], of "O_str ''k''" "V_int 1" True]
  by (auto simp: new_map_def map_al_def al_set_def al_has_def)

text \<open>The shallow copy behind copy-on-write holds the same keys and values in the same order.\<close>

theorem copy_keeps_entries:
  assumes "good_map pt m"
  shows "\<exists>c. container_shallow_copy vl_equal (vl_hash pt) m = Some c \<and> good_map pt c \<and> map_al c = map_al m"
proof -
  have m: "map_wf vl_equal (vl_hash pt) key_ok m" "\<not> vm_is_set m" using assms by (simp_all add: good_map_def)
  have "good_map pt (new_map False)" "map_al (new_map False) = []"
    using vk.wf_new by (simp_all add: good_map_def new_map_def map_al_def)
  from om.copy_correct [OF this good_map_entries [OF m(1)]] show ?thesis
    using m(2) by (simp add: container_shallow_copy_def copy_entries_store_all map_al_of)
qed

theorem copy_keeps_entries_witness:
  "\<exists>c. container_shallow_copy vl_equal (vl_hash (\<lambda>_. [])) (new_map False) = Some c \<and> map_al c = []"
  using copy_keeps_entries [of "\<lambda>_. []" "new_map False"] vk.wf_new [of "\<lambda>_. []" False]
  by (auto simp: good_map_def new_map_def map_al_def)

end
