(* ===== verification/Methods.thy ===== *)
theory Methods
  imports Coll
begin

section \<open>The type registry and method lookup (types.c)\<close>

text \<open>
  The tables the generated program registers.  A method is found through an open-addressed index
  built once; without it (no methods, or no memory for the index) by a linear scan.  The theorem
  is that both give the first row of the table with the given type and name.
\<close>

unbundle bit_operations_syntax

record vmethod =
  me_type :: string
  me_method :: string
  me_has_self :: bool

record registry =
  g_types :: "vtype list"
  g_vars :: "vvariant list"
  g_methods :: "vmethod list"
  g_mhash :: "nat list"

text \<open>FNV-1a of the type, a bar and the name; a text ends at its first zero byte, as C reads it.\<close>

definition c_text :: "string \<Rightarrow> string" where
  "c_text s = takeWhile (\<lambda>c. byte c \<noteq> 0) s"

definition method_key :: "string \<Rightarrow> string \<Rightarrow> 64 word" where
  "method_key type name = fnv (map byte (c_text type) @ [124] @ map byte (c_text name)) fnv_basis"

text \<open>\<^verbatim>\<open>while (cap < nmethods * 2 + 1) cap <<= 1\<close>.\<close>

function grow_cap :: "nat \<Rightarrow> nat \<Rightarrow> nat" where
  "grow_cap n cap = (if 0 < cap \<and> cap < n * 2 + 1 then grow_cap n (2 * cap) else cap)"
  by auto
termination by (relation "measure (\<lambda>(n, cap). n * 2 + 1 - cap)") auto

declare grow_cap.simps [simp del]

definition same_method :: "vmethod \<Rightarrow> string \<Rightarrow> string \<Rightarrow> bool" where
  "same_method m type name \<longleftrightarrow> c_text (me_type m) = c_text type \<and> c_text (me_method m) = c_text name"

text \<open>One row enters the index, unless a row with its names is there already.\<close>

definition index_row :: "vmethod list \<Rightarrow> nat \<Rightarrow> nat list \<Rightarrow> nat list option" where
  "index_row ms i mh =
     map_option (\<lambda>sl. if mh ! sl = 0 then mh[sl := i + 1] else mh)
       (probe (\<lambda>sl. mh ! sl = 0 \<or> same_method (ms ! (mh ! sl - 1)) (me_type (ms ! i)) (me_method (ms ! i)))
          (length mh - 1) (home (length mh) (method_key (me_type (ms ! i)) (me_method (ms ! i)))))"

fun index_rows :: "vmethod list \<Rightarrow> nat list \<Rightarrow> nat list \<Rightarrow> nat list option" where
  "index_rows ms [] mh = Some mh"
| "index_rows ms (i # js) mh = Option.bind (index_row ms i mh) (index_rows ms js)"

definition index_methods :: "vmethod list \<Rightarrow> nat list option" where
  "index_methods ms = index_rows ms [0..<length ms] (replicate (grow_cap (length ms) 16) 0)"

text \<open>\<open>calloc_ok\<close> tells whether the index could be allocated; an empty list is the null pointer.\<close>

definition vl_register_types :: "bool \<Rightarrow> vtype list \<Rightarrow> vvariant list \<Rightarrow> vmethod list \<Rightarrow> registry option" where
  "vl_register_types calloc_ok types vars ms =
     map_option (\<lambda>mh. \<lparr>g_types = types, g_vars = vars, g_methods = ms, g_mhash = mh\<rparr>)
       (if ms \<noteq> [] \<and> calloc_ok then index_methods ms else Some [])"

definition vl_user_type :: "registry \<Rightarrow> string \<Rightarrow> vtype option" where
  "vl_user_type g name = find (\<lambda>t. c_text (ty_name t) = c_text name) (g_types g)"

definition vl_find_variant :: "registry \<Rightarrow> string \<Rightarrow> string \<Rightarrow> vvariant option" where
  "vl_find_variant g type variant =
     find (\<lambda>v. c_text (va_type v) = c_text type \<and> c_text (va_variant v) = c_text variant) (g_vars g)"

definition vl_enum_exists :: "registry \<Rightarrow> string \<Rightarrow> bool" where
  "vl_enum_exists g type \<longleftrightarrow> list_ex (\<lambda>v. c_text (va_type v) = c_text type) (g_vars g)"

definition scan_methods :: "vmethod list \<Rightarrow> string \<Rightarrow> string \<Rightarrow> vmethod option" where
  "scan_methods ms type name = find (\<lambda>m. same_method m type name) ms"

text \<open>The outer option is the search that never ends.\<close>

definition vl_find_method :: "registry \<Rightarrow> string option \<Rightarrow> string \<Rightarrow> vmethod option option" where
  "vl_find_method g ty name =
     (case ty of
        None \<Rightarrow> Some None
      | Some type \<Rightarrow>
          if g_mhash g \<noteq> [] then
            map_option (\<lambda>sl. if g_mhash g ! sl = 0 then None else Some (g_methods g ! (g_mhash g ! sl - 1)))
              (probe (\<lambda>sl. g_mhash g ! sl = 0 \<or> same_method (g_methods g ! (g_mhash g ! sl - 1)) type name)
                 (length (g_mhash g) - 1) (home (length (g_mhash g)) (method_key type name)))
          else Some (scan_methods (g_methods g) type name))"

subsection \<open>The index is right\<close>

definition mtab :: "nat list \<Rightarrow> nat \<Rightarrow> nat option" where
  "mtab mh t = (if mh ! t = 0 then None else Some (mh ! t - 1))"

abbreviation mhome :: "nat \<Rightarrow> vmethod list \<Rightarrow> nat \<Rightarrow> nat" where
  "mhome n ms i \<equiv> home n (method_key (me_type (ms ! i)) (me_method (ms ! i)))"

text \<open>The first rows of their names among the first \<open>n\<close>.\<close>

definition firsts :: "vmethod list \<Rightarrow> nat \<Rightarrow> nat set" where
  "firsts ms n = {i. i < n \<and> (\<forall>j < i. \<not> same_method (ms ! j) (me_type (ms ! i)) (me_method (ms ! i)))}"

lemma firsts_Suc:
  "firsts ms (Suc n) = (if \<exists>j < n. same_method (ms ! j) (me_type (ms ! n)) (me_method (ms ! n))
     then firsts ms n else insert n (firsts ms n))"
  by (auto simp: firsts_def less_Suc_eq)

lemma firsts_finite: "finite (firsts ms n)" "card (firsts ms n) \<le> n"
proof -
  have s: "firsts ms n \<subseteq> {..<n}" by (auto simp: firsts_def)
  then show "finite (firsts ms n)" by (rule finite_subset) simp
  show "card (firsts ms n) \<le> n" using card_mono [OF _ s] by simp
qed

lemma same_methodD: "same_method m type name \<Longrightarrow> method_key (me_type m) (me_method m) = method_key type name"
  by (simp add: same_method_def method_key_def)

lemma same_method_trans:
  "same_method m (me_type k) (me_method k) \<Longrightarrow> same_method k type name = same_method m type name"
  by (simp add: same_method_def)

lemma first_match:
  assumes "j < n" "same_method (ms ! j) type name"
  obtains i where "i \<in> firsts ms n" "same_method (ms ! i) type name" "\<forall>i' < i. \<not> same_method (ms ! i') type name"
proof -
  define i where "i = (LEAST i. same_method (ms ! i) type name)"
  have i: "same_method (ms ! i) type name" unfolding i_def using assms(2) by (rule LeastI)
  have "i \<le> j" unfolding i_def using assms(2) by (rule Least_le)
  moreover have min: "\<forall>i' < i. \<not> same_method (ms ! i') type name" unfolding i_def using not_less_Least by blast
  moreover have "\<not> same_method (ms ! i') (me_type (ms ! i)) (me_method (ms ! i))" if "i' < i" for i'
    using min that same_method_trans [of "ms ! i'" "ms ! i" type name] i by blast
  ultimately show ?thesis using that [of i] i assms(1) by (auto simp: firsts_def)
qed

lemma grow_cap_props:
  "0 < cap \<Longrightarrow> n * 2 + 1 \<le> grow_cap n cap \<and> (cap = 2 ^ k \<longrightarrow> (\<exists>q. grow_cap n cap = 2 ^ q))"
proof (induction n cap arbitrary: k rule: grow_cap.induct)
  case (1 n cap)
  show ?case
  proof (cases "cap < n * 2 + 1")
    case True
    then have "n * 2 + 1 \<le> grow_cap n (2 * cap) \<and> (2 * cap = 2 ^ Suc k \<longrightarrow> (\<exists>q. grow_cap n (2 * cap) = 2 ^ q))"
      using 1(1) [of "Suc k"] True 1(2) by simp
    then show ?thesis using True 1(2) by (subst (1 2) grow_cap.simps) auto
  next
    case False
    then show ?thesis by (subst (1 2) grow_cap.simps) auto
  qed
qed

lemma mtab_update: "sl < length mh \<Longrightarrow> mtab (mh[sl := i + 1]) = (mtab mh)(sl := Some i)"
  by (auto simp: mtab_def fun_eq_iff nth_list_update)

lemma stop_mtab:
  "(\<lambda>sl. mh ! sl = 0 \<or> same_method (ms ! (mh ! sl - 1)) type name) =
   (\<lambda>sl. case mtab mh sl of None \<Rightarrow> True | Some e \<Rightarrow> same_method (ms ! e) type name)"
  by (auto simp: mtab_def fun_eq_iff)

lemma index_row_correct:
  assumes n: "length mh = 2 ^ k" and g: "good_tab (length mh) (mtab mh) (mhome (length mh) ms) (firsts ms i)" and c: "i < length mh"
  shows "\<exists>mh'. index_row ms i mh = Some mh' \<and> length mh' = length mh \<and>
    good_tab (length mh') (mtab mh') (mhome (length mh') ms) (firsts ms (Suc i))"
proof -
  let ?n = "length mh" let ?type = "me_type (ms ! i)" let ?name = "me_method (ms ! i)"
  have c': "card (firsts ms i) < ?n" using firsts_finite(2) [of ms i] c by linarith
  have "mhome ?n ms i < ?n" using home_less [OF n] .
  from good_tab_search [OF n g firsts_finite(1) c' this, of "\<lambda>e. same_method (ms ! e) ?type ?name"]
  obtain t where t: "t < ?n"
    "probe (\<lambda>t. case mtab mh t of None \<Rightarrow> True | Some e \<Rightarrow> same_method (ms ! e) ?type ?name) (?n - 1) (mhome ?n ms i) = Some t"
    "case mtab mh t of
       None \<Rightarrow> (\<forall>e \<in> firsts ms i. \<not> same_method (ms ! e) ?type ?name) \<and>
         (\<exists>j < ?n. stops_at (\<lambda>t. mtab mh t = None) ?n (mhome ?n ms i) j \<and> t = (mhome ?n ms i + j) mod ?n)
     | Some e \<Rightarrow> e \<in> firsts ms i \<and> same_method (ms ! e) ?type ?name"
    by (auto simp: same_methodD)
  have run: "index_row ms i mh = Some (if mh ! t = 0 then mh[t := i + 1] else mh)"
    unfolding index_row_def stop_mtab t(2) by simp
  show ?thesis
  proof (cases "mh ! t = 0")
    case True
    then have none: "\<forall>e \<in> firsts ms i. \<not> same_method (ms ! e) ?type ?name" using t(3) by (simp add: mtab_def)
    then have f: "firsts ms (Suc i) = insert i (firsts ms i)"
      using first_match [of _ i ms ?type ?name] by (auto simp: firsts_Suc)
    obtain j where j: "j < ?n" "stops_at (\<lambda>t. mtab mh t = None) ?n (mhome ?n ms i) j" "t = (mhome ?n ms i + j) mod ?n"
      using True t(3) by (auto simp: mtab_def)
    have "i \<notin> firsts ms i" by (simp add: firsts_def)
    from good_tab_insert [OF g this home_less [OF n] j(2,1)]
    have "good_tab ?n (mtab (mh[t := i + 1])) (mhome ?n ms) (firsts ms (Suc i))"
      unfolding mtab_update [OF t(1)] f unfolding j(3) .
    then show ?thesis using run True by simp
  next
    case False
    then have "mh ! t - 1 \<in> firsts ms i" "same_method (ms ! (mh ! t - 1)) ?type ?name" using t(3) by (simp_all add: mtab_def)
    then have "firsts ms (Suc i) = firsts ms i" by (auto simp: firsts_Suc) (auto simp: firsts_def)
    then show ?thesis using run False g by simp
  qed
qed

lemma index_rows_correct:
  assumes "length mh = 2 ^ k" "good_tab (length mh) (mtab mh) (mhome (length mh) ms) (firsts ms i)" "i \<le> n" "n \<le> length mh"
  shows "\<exists>mh'. index_rows ms [i..<n] mh = Some mh' \<and> length mh' = length mh \<and>
    good_tab (length mh') (mtab mh') (mhome (length mh') ms) (firsts ms n)"
  using assms
proof (induction "n - i" arbitrary: i mh)
  case (Suc d)
  then have i: "i < n" "i < length mh" by simp_all
  from index_row_correct [OF Suc.prems(1,2) i(2)] obtain mh1 where m1: "index_row ms i mh = Some mh1" "length mh1 = length mh"
    "good_tab (length mh1) (mtab mh1) (mhome (length mh1) ms) (firsts ms (Suc i))" by blast
  have "\<exists>mh'. index_rows ms [Suc i..<n] mh1 = Some mh' \<and> length mh' = length mh1 \<and>
      good_tab (length mh') (mtab mh') (mhome (length mh') ms) (firsts ms n)"
    using Suc.hyps(2) Suc.prems m1 i by (intro Suc.hyps(1)) simp_all
  then show ?case using m1 i(1) by (simp add: upt_conv_Cons)
qed auto

lemma index_methods_correct:
  obtains mh k where "index_methods ms = Some mh" "length mh = 2 ^ k" "length ms < length mh"
    "good_tab (length mh) (mtab mh) (mhome (length mh) ms) (firsts ms (length ms))"
proof -
  let ?c = "grow_cap (length ms) 16"
  have p: "length ms * 2 + 1 \<le> ?c" "\<exists>q. ?c = 2 ^ q" using grow_cap_props [of 16 "length ms" 4] by auto
  then obtain q where q: "?c = 2 ^ q" by blast
  have "good_tab ?c (mtab (replicate ?c 0)) (mhome ?c ms) (firsts ms 0)"
    using good_tab_cong [OF good_tab_empty, of ?c "mtab (replicate ?c 0)" "mhome ?c ms" "mhome ?c ms"]
    by (simp add: mtab_def firsts_def)
  with index_rows_correct [of "replicate ?c 0" q ms 0 "length ms"] p(1) q that show ?thesis
    by (auto simp: index_methods_def)
qed

text \<open>C16. Method lookup: registration builds its index without looping, whatever the table and whether
  or not the index can be allocated, and \<open>vl_find_method\<close> then returns exactly what a linear scan of
  the method table returns: the first row with the given type and name, or nothing.\<close>

theorem method_lookup_is_scan:
  "\<exists>g. vl_register_types calloc_ok types vars ms = Some g \<and> g_methods g = ms \<and>
    vl_find_method g (Some type) name = Some (scan_methods ms type name) \<and>
    vl_find_method g None name = Some None"
proof (cases "ms \<noteq> [] \<and> calloc_ok")
  case False
  then show ?thesis by (auto simp: vl_register_types_def vl_find_method_def)
next
  case True
  obtain mh k where mh: "index_methods ms = Some mh" "length mh = 2 ^ k" "length ms < length mh"
    "good_tab (length mh) (mtab mh) (mhome (length mh) ms) (firsts ms (length ms))" by (rule index_methods_correct)
  let ?g = "\<lparr>g_types = types, g_vars = vars, g_methods = ms, g_mhash = mh\<rparr>"
  let ?n = "length mh" let ?s = "home ?n (method_key type name)"
  have "card (firsts ms (length ms)) < ?n" using firsts_finite(2) [of ms "length ms"] mh(3) by linarith
  from good_tab_search [OF mh(2,4) firsts_finite(1) this home_less [OF mh(2)], of "\<lambda>e. same_method (ms ! e) type name" "method_key type name"]
  obtain t where t: "probe (\<lambda>t. case mtab mh t of None \<Rightarrow> True | Some e \<Rightarrow> same_method (ms ! e) type name) (?n - 1) ?s = Some t"
    "case mtab mh t of
       None \<Rightarrow> (\<forall>e \<in> firsts ms (length ms). \<not> same_method (ms ! e) type name)
     | Some e \<Rightarrow> e \<in> firsts ms (length ms) \<and> same_method (ms ! e) type name"
    by (auto simp: same_methodD split: option.splits)
  have "mh \<noteq> []" using mh(3) by auto
  then have run: "vl_find_method ?g (Some type) name = Some (if mh ! t = 0 then None else Some (ms ! (mh ! t - 1)))"
    unfolding vl_find_method_def by (simp add: stop_mtab t(1) del: One_nat_def)
  have "scan_methods ms type name = (if mh ! t = 0 then None else Some (ms ! (mh ! t - 1)))"
  proof (cases "mh ! t = 0")
    case True
    then have "\<forall>e \<in> firsts ms (length ms). \<not> same_method (ms ! e) type name" using t(2) by (simp add: mtab_def)
    then have "\<not> same_method (ms ! j) type name" if "j < length ms" for j
      using that by (metis first_match)
    then have "find (\<lambda>m. same_method m type name) ms = None"
      unfolding find_None_iff by (auto simp: in_set_conv_nth)
    then show ?thesis using True by (simp add: scan_methods_def)
  next
    case False
    let ?e = "mh ! t - 1"
    have e: "?e \<in> firsts ms (length ms)" "same_method (ms ! ?e) type name" using False t(2) by (simp_all add: mtab_def)
    then have "\<forall>j < ?e. \<not> same_method (ms ! j) type name"
      by (auto simp: firsts_def same_method_def)
    then have "find (\<lambda>m. same_method m type name) ms = Some (ms ! ?e)"
      using e unfolding find_Some_iff by (auto simp: firsts_def intro!: exI [of _ ?e])
    then show ?thesis using False by (simp add: scan_methods_def)
  qed
  then show ?thesis using run mh(1) True by (auto simp: vl_register_types_def vl_find_method_def)
qed

end
