(* ===== verification/Chan.thy ===== *)
theory Chan
  imports Value
begin

section \<open>Channels (task.c: vl\_chan\_new .. vl\_select, after\_main)\<close>

text \<open>
  A channel is a ring buffer guarded by the one monitor of the runtime.  A blocking operation is a
  loop whose body runs under the monitor and which then sleeps on it (\<^verbatim>\<open>monitor_wait\<close>, at most
  20 ms): one pass of the loop is a \<open>turn\<close>, an atomic step that waits, throws or ends the loop.
\<close>

subsection \<open>The ring buffer\<close>

record chan =
  ch_buf :: "val list"
  ch_cap :: nat
  ch_head :: int
  ch_count :: nat
  ch_closed :: bool

definition vl_chan_new :: "int \<Rightarrow> chan" where
  "vl_chan_new cap =
     (let n = (if 0 < cap then nat cap else 1)
      in \<lparr>ch_buf = replicate n V_nil, ch_cap = n, ch_head = (if cap \<le> 0 then - 1 else 0),
          ch_count = 0, ch_closed = False\<rparr>)"

definition is_rendezvous :: "chan \<Rightarrow> bool" where
  "is_rendezvous c \<longleftrightarrow> ch_head c = - 1"

definition ring_head :: "chan \<Rightarrow> nat" where
  "ring_head c = (if is_rendezvous c then 0 else nat (ch_head c))"

text \<open>\<^verbatim>\<open>c->buf[(h + c->count) % c->cap] = owned; c->count++\<close>, in every sender.\<close>

definition chan_put :: "chan \<Rightarrow> val \<Rightarrow> chan" where
  "chan_put c v =
     c\<lparr>ch_buf := (ch_buf c)[(ring_head c + ch_count c) mod ch_cap c := v], ch_count := ch_count c + 1\<rparr>"

definition chan_take :: "chan \<Rightarrow> (val \<times> chan) option" where
  "chan_take c =
     (if ch_count c = 0 then None
      else Some (ch_buf c ! (ring_head c mod ch_cap c),
        c\<lparr>ch_head := (if is_rendezvous c then ch_head c else (ch_head c + 1) mod int (ch_cap c)),
          ch_count := ch_count c - 1\<rparr>))"

definition vl_chan_close :: "chan \<Rightarrow> chan result" where
  "vl_chan_close c =
     (if ch_closed c then Inl (Throw ''RuntimeError'' ''close of already-closed channel'')
      else Inr (c\<lparr>ch_closed := True\<rparr>))"

definition vl_chan_try_send :: "chan \<Rightarrow> val \<Rightarrow> chan option" where
  "vl_chan_try_send c v =
     (if ch_closed c \<or> is_rendezvous c \<or> ch_cap c \<le> ch_count c then None else Some (chan_put c v))"

text \<open>The timer thread of \<^verbatim>\<open>time.after\<close>, when its time has come.\<close>

definition after_main :: "int \<Rightarrow> chan \<Rightarrow> chan option" where
  "after_main now c =
     (if \<not> ch_closed c \<and> ch_count c < ch_cap c then Some (chan_put c (V_instant now)) else None)"

subsection \<open>Turns of the blocking loops\<close>

datatype 'a turn = T_wait | T_throw exn | T_done 'a

definition send_turn :: "bool \<Rightarrow> chan \<Rightarrow> val \<Rightarrow> chan turn" where
  "send_turn cancelled c v =
     (if ch_closed c then T_throw (Throw ''RuntimeError'' ''send on closed channel'')
      else if cancelled then T_throw (Throw ''Cancelled'' ''task cancelled during channel send'')
      else if ch_count c < ch_cap c then T_done (chan_put c v)
      else T_wait)"

text \<open>\<^verbatim>\<open>while (c->count > 0 && !c->closed) { if (cancelled) break; monitor_wait(); }\<close>.\<close>

definition handoff_over :: "bool \<Rightarrow> chan \<Rightarrow> bool" where
  "handoff_over cancelled c \<longleftrightarrow> \<not> (0 < ch_count c \<and> \<not> ch_closed c) \<or> cancelled"

text \<open>The value and \<^verbatim>\<open>ok\<close>.\<close>

definition recv_turn :: "bool \<Rightarrow> chan \<Rightarrow> (val \<times> bool \<times> chan) turn" where
  "recv_turn cancelled c =
     (case chan_take c of
        Some (v, c') \<Rightarrow> T_done (v, True, c')
      | None \<Rightarrow>
          if ch_closed c then T_done (V_nil, False, c)
          else if cancelled then T_throw (Throw ''Cancelled'' ''task cancelled during channel receive'')
          else T_wait)"

datatype selcase = Sel_recv nat | Sel_send nat val | Sel_default

text \<open>What a select did: the case chosen is an index, the channels are given by number.\<close>

datatype chan_event = Put nat val | Took nat val | Drained nat | Untouched

fun select_pass :: "(nat \<Rightarrow> chan) \<Rightarrow> nat \<Rightarrow> selcase list \<Rightarrow> (nat \<times> chan_event \<times> (nat \<Rightarrow> chan)) option" where
  "select_pass C i [] = None"
| "select_pass C i (Sel_recv c # cs) =
     (case chan_take (C c) of
        Some (v, c') \<Rightarrow> Some (i, Took c v, C(c := c'))
      | None \<Rightarrow> if ch_closed (C c) then Some (i, Drained c, C) else select_pass C (i + 1) cs)"
| "select_pass C i (Sel_send c v # cs) =
     (if \<not> ch_closed (C c) \<and> ch_count (C c) < ch_cap (C c)
      then Some (i, Put c v, C(c := chan_put (C c) v)) else select_pass C (i + 1) cs)"
| "select_pass C i (Sel_default # cs) = select_pass C (i + 1) cs"

text \<open>The last default case.\<close>

fun default_case :: "nat \<Rightarrow> selcase list \<Rightarrow> nat option \<Rightarrow> nat option" where
  "default_case i [] d = d"
| "default_case i (x # cs) d = default_case (i + 1) cs (if x = Sel_default then Some i else d)"

definition select_turn :: "bool \<Rightarrow> (nat \<Rightarrow> chan) \<Rightarrow> selcase list \<Rightarrow> (nat \<times> chan_event \<times> (nat \<Rightarrow> chan)) turn" where
  "select_turn cancelled C cs =
     (case select_pass C 0 cs of
        Some r \<Rightarrow> T_done r
      | None \<Rightarrow>
          (case default_case 0 cs None of
             Some d \<Rightarrow> T_done (d, Untouched, C)
           | None \<Rightarrow>
               if cancelled then T_throw (Throw ''Cancelled'' ''task cancelled in select'') else T_wait))"

subsection \<open>The queue a channel holds\<close>

definition chan_wf :: "chan \<Rightarrow> bool" where
  "chan_wf c \<longleftrightarrow> 0 < ch_cap c \<and> length (ch_buf c) = ch_cap c \<and> ch_count c \<le> ch_cap c \<and>
     (if is_rendezvous c then ch_cap c = 1 else 0 \<le> ch_head c \<and> ch_head c < int (ch_cap c))"

definition chan_queue :: "chan \<Rightarrow> val list" where
  "chan_queue c = map (\<lambda>k. ch_buf c ! ((ring_head c + k) mod ch_cap c)) [0..<ch_count c]"

lemma length_chan_queue [simp]: "length (chan_queue c) = ch_count c"
  by (simp add: chan_queue_def)

lemma mod_add_inject:
  "((h + i) mod n = (h + j) mod n) \<longleftrightarrow> i = j" if "i < n" "j < n" for h i j n :: nat
proof -
  have le: "i = j" if "(h + i) mod n = (h + j) mod n" "i \<le> j" "j < n" for i j :: nat
  proof -
    have "n dvd (h + j) - (h + i)" using that mod_eq_dvd_iff_nat [of "h + i" "h + j" n] by (simp del: diff_add_inverse)
    then show "i = j" using that by (auto dest: dvd_imp_le)
  qed
  show ?thesis using le [of i j] le [of j i] that by (metis nat_le_linear)
qed

lemma chan_new_queue:
  "chan_wf (vl_chan_new cap)" "chan_queue (vl_chan_new cap) = []" "\<not> ch_closed (vl_chan_new cap)"
  "is_rendezvous (vl_chan_new cap) \<longleftrightarrow> cap \<le> 0"
  by (auto simp: vl_chan_new_def chan_wf_def chan_queue_def is_rendezvous_def Let_def)

lemma chan_put_queue:
  assumes "chan_wf c" "ch_count c < ch_cap c"
  shows "chan_wf (chan_put c v)" "chan_queue (chan_put c v) = chan_queue c @ [v]"
    "is_rendezvous (chan_put c v) \<longleftrightarrow> is_rendezvous c" "ch_closed (chan_put c v) = ch_closed c"
    "ch_cap (chan_put c v) = ch_cap c" "ch_count (chan_put c v) = ch_count c + 1"
proof -
  show r: "is_rendezvous (chan_put c v) \<longleftrightarrow> is_rendezvous c"
    by (simp add: is_rendezvous_def chan_put_def)
  show "ch_closed (chan_put c v) = ch_closed c" "ch_cap (chan_put c v) = ch_cap c"
    "ch_count (chan_put c v) = ch_count c + 1"
    by (simp_all add: chan_put_def)
  show "chan_wf (chan_put c v)"
    using assms r by (simp add: chan_wf_def chan_put_def)
  have h: "ring_head (chan_put c v) = ring_head c"
    using r by (simp add: ring_head_def) (simp add: chan_put_def)
  show "chan_queue (chan_put c v) = chan_queue c @ [v]"
    using assms unfolding chan_queue_def h
    by (auto simp: chan_put_def chan_wf_def nth_list_update mod_add_inject intro!: nth_equalityI)
qed

lemma chan_take_queue:
  assumes "chan_wf c"
  shows "chan_take c = None \<longleftrightarrow> chan_queue c = []"
    and "chan_take c = Some (v, c') \<Longrightarrow>
      chan_wf c' \<and> chan_queue c = v # chan_queue c' \<and> (is_rendezvous c' \<longleftrightarrow> is_rendezvous c) \<and>
      ch_closed c' = ch_closed c \<and> ch_cap c' = ch_cap c \<and> ch_count c = ch_count c' + 1"
proof -
  show "chan_take c = None \<longleftrightarrow> chan_queue c = []"
    by (simp add: chan_take_def chan_queue_def)
  assume "chan_take c = Some (v, c')"
  then have k: "0 < ch_count c" and v: "v = ch_buf c ! (ring_head c mod ch_cap c)"
    and c': "c' = c\<lparr>ch_head := (if is_rendezvous c then ch_head c else (ch_head c + 1) mod int (ch_cap c)),
      ch_count := ch_count c - 1\<rparr>"
    by (auto simp: chan_take_def split: if_splits)
  have cap: "0 < ch_cap c" "ch_count c \<le> ch_cap c" using assms by (auto simp: chan_wf_def)
  have nn: "0 \<le> (ch_head c + 1) mod int (ch_cap c)" "(ch_head c + 1) mod int (ch_cap c) < int (ch_cap c)"
    using cap by simp_all
  have r: "is_rendezvous c' \<longleftrightarrow> is_rendezvous c"
    using nn by (auto simp: c' is_rendezvous_def)
  have w: "chan_wf c'"
    using assms k r nn by (simp add: chan_wf_def) (auto simp: c')
  have q: "(ring_head c + (i + 1)) mod ch_cap c = (ring_head c' + i) mod ch_cap c" if "i < ch_count c - 1" for i
  proof (cases "is_rendezvous c")
    case True
    then show ?thesis using that assms by (simp add: chan_wf_def)
  next
    case False
    then have "nat ((ch_head c + 1) mod int (ch_cap c)) = (nat (ch_head c) + 1) mod ch_cap c"
      using assms by (simp add: chan_wf_def nat_mod_distrib nat_add_distrib)
    then show ?thesis using False r by (simp add: ring_head_def) (simp add: c' mod_simps ac_simps)
  qed
  have "chan_queue c = map (\<lambda>k. ch_buf c ! ((ring_head c + k) mod ch_cap c)) (0 # map Suc [0..<ch_count c - 1])"
    using k by (simp add: chan_queue_def map_Suc_upt upt_conv_Cons)
  also have "\<dots> = v # map (\<lambda>k. ch_buf c ! ((ring_head c + (k + 1)) mod ch_cap c)) [0..<ch_count c - 1]"
    by (simp add: v comp_def)
  also have "map (\<lambda>k. ch_buf c ! ((ring_head c + (k + 1)) mod ch_cap c)) [0..<ch_count c - 1] =
      map (\<lambda>k. ch_buf c ! ((ring_head c' + k) mod ch_cap c)) [0..<ch_count c - 1]"
    by (rule map_cong [OF refl]) (subst q, simp_all)
  also have "\<dots> = chan_queue c'" by (simp add: chan_queue_def c')
  finally show "chan_wf c' \<and> chan_queue c = v # chan_queue c' \<and> (is_rendezvous c' \<longleftrightarrow> is_rendezvous c) \<and>
      ch_closed c' = ch_closed c \<and> ch_cap c' = ch_cap c \<and> ch_count c = ch_count c' + 1"
    using w r k by (simp add: c')
qed

subsection \<open>What a user of a queue relies on\<close>

locale fifo =
  fixes inv :: "'c \<Rightarrow> bool" and room :: "'c \<Rightarrow> bool" and content :: "'c \<Rightarrow> 'v list"
    and put :: "'c \<Rightarrow> 'v \<Rightarrow> 'c" and get :: "'c \<Rightarrow> ('v \<times> 'c) option"
  assumes put_law: "inv c \<Longrightarrow> room c \<Longrightarrow> inv (put c v) \<and> content (put c v) = content c @ [v]"
    and get_law: "inv c \<Longrightarrow> get c = Some (v, c') \<Longrightarrow> inv c' \<and> content c = v # content c'"
    and empty_law: "inv c \<Longrightarrow> get c = None \<longleftrightarrow> content c = []"
begin

text \<open>The account of a queue: what went in is what came out and what is still inside, in order.\<close>

definition accounts :: "'v list \<Rightarrow> 'v list \<Rightarrow> 'c \<Rightarrow> bool" where
  "accounts sent got c \<longleftrightarrow> inv c \<and> sent = got @ content c"

lemma accounts_put: "accounts sent got c \<Longrightarrow> room c \<Longrightarrow> accounts (sent @ [v]) got (put c v)"
  using put_law by (simp add: accounts_def)

lemma accounts_get: "accounts sent got c \<Longrightarrow> get c = Some (v, c') \<Longrightarrow> accounts sent (got @ [v]) c'"
  using get_law by (auto simp: accounts_def)

lemma accounts_drained: "accounts sent got c \<Longrightarrow> get c = None \<Longrightarrow> sent = got"
  using empty_law by (auto simp: accounts_def)

lemma accounts_new: "inv c \<Longrightarrow> content c = [] \<Longrightarrow> accounts [] [] c"
  by (simp add: accounts_def)

end

interpretation ring: fifo chan_wf "\<lambda>c. ch_count c < ch_cap c" chan_queue chan_put chan_take
  by unfold_locales (blast intro: chan_put_queue, blast dest: chan_take_queue(2), rule chan_take_queue(1))

lemma ring_accounts_close:
  assumes "ring.accounts sent got c"
  shows "ring.accounts sent got (c\<lparr>ch_closed := True\<rparr>)"
proof -
  have "chan_wf (c\<lparr>ch_closed := True\<rparr>) = chan_wf c" "chan_queue (c\<lparr>ch_closed := True\<rparr>) = chan_queue c"
    by (simp_all add: chan_wf_def chan_queue_def ring_head_def is_rendezvous_def)
  then show ?thesis using assms by (simp add: ring.accounts_def)
qed

end
