(* ===== verification/Tasks.thy ===== *)
theory Tasks
  imports Chan
begin

section \<open>Groups and tasks (task.c)\<close>

text \<open>
  Tasks are threads; every operation of theirs on channels and groups is a sequence of turns under
  the monitor.  A group is a number; a task knows the chain of groups it runs in, innermost first
  (\<^verbatim>\<open>VlGroup.parent\<close> never changes).  The clock is an argument of a turn, and a system step is one
  turn of one task, one action of a task that is not blocked, or a timer.
\<close>

subsection \<open>Groups\<close>

record group =
  g_live :: nat
  g_cancelled :: bool
  g_failure :: val
  g_is_value :: bool
  g_suppressed :: "val list"
  g_deadline :: int

definition new_group :: group where
  "new_group = \<lparr>g_live = 0, g_cancelled = False, g_failure = V_nil, g_is_value = False,
     g_suppressed = [], g_deadline = 0\<rparr>"

text \<open>\<^verbatim>\<open>vl_group_begin\<close>: the duration, if the argument is one.\<close>

definition vl_group_begin :: "int \<Rightarrow> val \<Rightarrow> group" where
  "vl_group_begin now timeout =
     new_group\<lparr>g_deadline := (case timeout of V_dur d \<Rightarrow> now + d | _ \<Rightarrow> 0)\<rparr>"

definition group_cancelled :: "(nat \<Rightarrow> group) \<Rightarrow> nat list \<Rightarrow> bool" where
  "group_cancelled G chain \<longleftrightarrow> list_ex (\<lambda>g. g_cancelled (G g)) chain"

definition group_fail :: "val \<Rightarrow> bool \<Rightarrow> group \<Rightarrow> group" where
  "group_fail exc is_value g =
     (if g_failure g = V_nil then g\<lparr>g_failure := exc, g_is_value := is_value, g_cancelled := True\<rparr>
      else g\<lparr>g_suppressed := g_suppressed g @ [exc]\<rparr>)"

definition is_err :: "val \<Rightarrow> bool" where
  "is_err v \<longleftrightarrow> (case v of O_opaque K_err p n \<Rightarrow> True | _ \<Rightarrow> False)"

definition err_type :: "val \<Rightarrow> string" where
  "err_type v = (case v of O_opaque K_err p n \<Rightarrow> n | _ \<Rightarrow> [])"

text \<open>What \<^verbatim>\<open>vl_group_end\<close> does after the join: nothing, return the failure as a value, or throw it;
  with the errors it appends to the failure's list of suppressed ones.  The \<^verbatim>\<open>Timeout\<close> error it may
  make is a parameter.\<close>

datatype group_out = G_ok | G_value val "val list" | G_throw val "val list"

definition group_result :: "val \<Rightarrow> bool \<Rightarrow> bool \<Rightarrow> group \<Rightarrow> group_out" where
  "group_result timeout_err timed_out as_error_value g =
     (let f = g_failure g;
          swap = (timed_out \<and> \<not> (is_err f \<and> err_type f \<noteq> ''Cancelled''));
          failure = (if swap then timeout_err else f);
          own = (if swap \<and> f \<noteq> V_nil then [f] else []);
          sup = own @ (if is_err failure then g_suppressed g else [])
      in if failure = V_nil then G_ok
         else if as_error_value then G_value failure sup else G_throw failure sup)"

text \<open>One turn of the join: the group afterwards, the timeout flag, and whether the loop has ended.\<close>

definition join_turn :: "int \<Rightarrow> bool \<Rightarrow> group \<Rightarrow> group \<times> bool \<times> bool" where
  "join_turn now timed_out g =
     (if g_live g = 0 then (g, timed_out, True)
      else if g_deadline g \<noteq> 0 \<and> g_deadline g \<le> now \<and> \<not> g_cancelled g then (g\<lparr>g_cancelled := True\<rparr>, True, False)
      else (g, timed_out, False))"

subsection \<open>Tasks\<close>

datatype wait =
    W_send nat val
  | W_handoff nat
  | W_recv nat
  | W_select "selcase list"
  | W_sleep int
  | W_join bool bool \<comment> \<open>\<^verbatim>\<open>timed_out\<close>, \<^verbatim>\<open>as_error_value\<close>\<close>
  | W_await nat
  | W_exit \<comment> \<open>the task has ended and leaves its group\<close>

datatype pc = Unborn | Running | Waiting wait | Finished

record task =
  tk_chain :: "nat list"
  tk_home :: "nat option"
  tk_pc :: pc
  tk_result :: val
  tk_exc :: val

record sys =
  sy_ch :: "nat \<Rightarrow> chan"
  sy_gr :: "nat \<Rightarrow> group"
  sy_ngr :: nat
  sy_tk :: "nat \<Rightarrow> task"

datatype event =
    Quiet
  | Did chan_event
  | Closed nat
  | Threw exn
  | Raised val
  | Awaited nat val
  | Joined nat group_out

abbreviation pc_of :: "sys \<Rightarrow> nat \<Rightarrow> pc" where
  "pc_of s t \<equiv> tk_pc (sy_tk s t)"

definition set_pc :: "sys \<Rightarrow> nat \<Rightarrow> pc \<Rightarrow> sys" where
  "set_pc s t p = s\<lparr>sy_tk := (sy_tk s)(t := (sy_tk s t)\<lparr>tk_pc := p\<rparr>)\<rparr>"

definition set_ch :: "sys \<Rightarrow> nat \<Rightarrow> chan \<Rightarrow> sys" where
  "set_ch s c ch = s\<lparr>sy_ch := (sy_ch s)(c := ch)\<rparr>"

definition set_gr :: "sys \<Rightarrow> nat \<Rightarrow> group \<Rightarrow> sys" where
  "set_gr s g gr = s\<lparr>sy_gr := (sy_gr s)(g := gr)\<rparr>"

definition cancelled :: "sys \<Rightarrow> nat \<Rightarrow> bool" where
  "cancelled s t \<longleftrightarrow> group_cancelled (sy_gr s) (tk_chain (sy_tk s t))"

text \<open>A turn of a blocked task, at time \<open>now\<close>; \<open>te\<close> is the \<^verbatim>\<open>Timeout\<close> error a join would make.\<close>

definition turn :: "int \<Rightarrow> val \<Rightarrow> sys \<Rightarrow> nat \<Rightarrow> wait \<Rightarrow> event \<times> sys" where
  "turn now te s t w =
     (case w of
        W_send c v \<Rightarrow>
          (case send_turn (cancelled s t) (sy_ch s c) v of
             T_wait \<Rightarrow> (Quiet, s)
           | T_throw e \<Rightarrow> (Threw e, set_pc s t Running)
           | T_done ch \<Rightarrow>
               (Did (Put c v),
                set_pc (set_ch s c ch) t (if is_rendezvous ch then Waiting (W_handoff c) else Running)))
      | W_handoff c \<Rightarrow>
          (Quiet, if handoff_over (cancelled s t) (sy_ch s c) then set_pc s t Running else s)
      | W_recv c \<Rightarrow>
          (case recv_turn (cancelled s t) (sy_ch s c) of
             T_wait \<Rightarrow> (Quiet, s)
           | T_throw e \<Rightarrow> (Threw e, set_pc s t Running)
           | T_done (v, ok, ch) \<Rightarrow>
               (Did (if ok then Took c v else Drained c), set_pc (set_ch s c ch) t Running))
      | W_select cs \<Rightarrow>
          (case select_turn (cancelled s t) (sy_ch s) cs of
             T_wait \<Rightarrow> (Quiet, s)
           | T_throw e \<Rightarrow> (Threw e, set_pc s t Running)
           | T_done (i, ev, C) \<Rightarrow> (Did ev, set_pc (s\<lparr>sy_ch := C\<rparr>) t Running))
      | W_sleep deadline \<Rightarrow>
          if deadline \<le> now then (Quiet, set_pc s t Running)
          else if cancelled s t then
            (Threw (Throw ''Cancelled'' ''task cancelled during sleep''), set_pc s t Running)
          else (Quiet, s)
      | W_join timed_out as_value \<Rightarrow>
          (case tk_chain (sy_tk s t) of
             [] \<Rightarrow> (Quiet, set_pc s t Running)
           | g # gs \<Rightarrow>
               (case join_turn now timed_out (sy_gr s g) of
                  (gr, to, ended) \<Rightarrow>
                    if ended then
                      (Joined g (group_result te to as_value gr),
                       s\<lparr>sy_tk := (sy_tk s)(t := (sy_tk s t)\<lparr>tk_pc := Running, tk_chain := gs\<rparr>)\<rparr>)
                    else (Quiet, set_pc (set_gr s g gr) t (Waiting (W_join to as_value)))))
      | W_await u \<Rightarrow>
          if pc_of s u = Finished then
            (if is_err (tk_exc (sy_tk s u)) then Raised (tk_exc (sy_tk s u)) else Awaited u (tk_result (sy_tk s u)),
             set_pc s t Running)
          else (Quiet, s)
      | W_exit \<Rightarrow>
          (Quiet,
           set_pc (case tk_home (sy_tk s t) of
               None \<Rightarrow> s
             | Some g \<Rightarrow> set_gr s g ((sy_gr s g)\<lparr>g_live := g_live (sy_gr s g) - 1\<rparr>)) t Finished))"

text \<open>What a running task does without waiting, or to begin to wait.\<close>

datatype act =
    A_call wait
  | A_try_send nat val
  | A_close nat
  | A_group_begin val
  | A_spawn nat
  | A_return val
  | A_raise val

text \<open>The blocking operations a program can call.\<close>

fun callable :: "wait \<Rightarrow> bool" where
  "callable (W_handoff c) = False"
| "callable (W_join timed_out as_value) = (\<not> timed_out)"
| "callable W_exit = False"
| "callable _ = True"

definition fail_home :: "sys \<Rightarrow> nat \<Rightarrow> val \<Rightarrow> bool \<Rightarrow> sys" where
  "fail_home s t v is_value =
     (case tk_home (sy_tk s t) of
        None \<Rightarrow> s
      | Some g \<Rightarrow> set_gr s g (group_fail v is_value (sy_gr s g)))"

text \<open>\<^const>\<open>None\<close>: the action is not possible.  A spawn outside a group ends the process; the new task
  has the number \<open>u\<close>, which was not used before.  A task with no home is the main one.\<close>

definition action :: "int \<Rightarrow> sys \<Rightarrow> nat \<Rightarrow> act \<Rightarrow> (event \<times> sys) option" where
  "action now s t a =
     (case a of
        A_call w \<Rightarrow> if callable w then Some (Quiet, set_pc s t (Waiting w)) else None
      | A_try_send c v \<Rightarrow>
          (case vl_chan_try_send (sy_ch s c) v of
             None \<Rightarrow> Some (Quiet, s)
           | Some ch \<Rightarrow> Some (Did (Put c v), set_ch s c ch))
      | A_close c \<Rightarrow>
          (case vl_chan_close (sy_ch s c) of
             Inl e \<Rightarrow> Some (Threw e, s)
           | Inr ch \<Rightarrow> Some (Closed c, set_ch s c ch))
      | A_group_begin timeout \<Rightarrow>
          Some (Quiet,
            s\<lparr>sy_gr := (sy_gr s)(sy_ngr s := vl_group_begin now timeout), sy_ngr := sy_ngr s + 1,
              sy_tk := (sy_tk s)(t := (sy_tk s t)\<lparr>tk_chain := sy_ngr s # tk_chain (sy_tk s t)\<rparr>)\<rparr>)
      | A_spawn u \<Rightarrow>
          (case tk_chain (sy_tk s t) of
             [] \<Rightarrow> None
           | g # gs \<Rightarrow>
               if pc_of s u = Unborn then
                 Some (Quiet,
                   set_gr (s\<lparr>sy_tk := (sy_tk s)(u :=
                     \<lparr>tk_chain = g # gs, tk_home = Some g, tk_pc = Running, tk_result = V_nil, tk_exc = V_nil\<rparr>)\<rparr>)
                     g ((sy_gr s g)\<lparr>g_live := g_live (sy_gr s g) + 1\<rparr>))
               else None)
      | A_return r \<Rightarrow>
          (let s' = s\<lparr>sy_tk := (sy_tk s)(t := (sy_tk s t)\<lparr>tk_result := r\<rparr>)\<rparr>
           in Some (Quiet, set_pc (if is_err r then fail_home s' t r True else s') t (Waiting W_exit)))
      | A_raise e \<Rightarrow>
          if is_err e then
            (let s' = s\<lparr>sy_tk := (sy_tk s)(t := (sy_tk s t)\<lparr>tk_exc := e\<rparr>)\<rparr>
             in Some (Quiet, set_pc (fail_home s' t e False) t (Waiting W_exit)))
          else None)"

subsection \<open>Runs\<close>

text \<open>The actor of a step is a task, or \<^const>\<open>None\<close> for a timer thread.\<close>

inductive step :: "sys \<Rightarrow> nat option \<Rightarrow> event \<Rightarrow> sys \<Rightarrow> bool" where
  step_turn: "pc_of s t = Waiting w \<Longrightarrow> turn now te s t w = (e, s') \<Longrightarrow> is_err te \<Longrightarrow> step s (Some t) e s'"
| step_act: "pc_of s t = Running \<Longrightarrow> action now s t a = Some (e, s') \<Longrightarrow> step s (Some t) e s'"
| step_timer: "after_main now (sy_ch s c) = Some ch \<Longrightarrow> step s None (Did (Put c (V_instant now))) (set_ch s c ch)"

text \<open>At the start the main task, number 0, runs outside every group; channel \<open>c\<close> has the capacity the
  program will give it.\<close>

definition init_sys :: "(nat \<Rightarrow> int) \<Rightarrow> sys" where
  "init_sys caps =
     \<lparr>sy_ch = (\<lambda>c. vl_chan_new (caps c)), sy_gr = (\<lambda>_. new_group), sy_ngr = 0,
      sy_tk = (\<lambda>t. \<lparr>tk_chain = [], tk_home = None, tk_pc = (if t = 0 then Running else Unborn),
        tk_result = V_nil, tk_exc = V_nil\<rparr>)\<rparr>"

inductive run :: "(nat \<Rightarrow> int) \<Rightarrow> event list \<Rightarrow> sys \<Rightarrow> bool" for caps where
  run_init: "run caps [] (init_sys caps)"
| run_step: "run caps es s \<Longrightarrow> step s a e s' \<Longrightarrow> run caps (es @ [e]) s'"

inductive_cases stepE: "step s a e s'"

subsection \<open>What a step does to the channels\<close>

fun ch_effect :: "event \<Rightarrow> (nat \<Rightarrow> chan) \<Rightarrow> (nat \<Rightarrow> chan) \<Rightarrow> bool" where
  "ch_effect (Did (Put c v)) C C' \<longleftrightarrow>
     C' = C(c := chan_put (C c) v) \<and> \<not> ch_closed (C c) \<and> ch_count (C c) < ch_cap (C c)"
| "ch_effect (Did (Took c v)) C C' \<longleftrightarrow> (\<exists>ch. chan_take (C c) = Some (v, ch) \<and> C' = C(c := ch))"
| "ch_effect (Did (Drained c)) C C' \<longleftrightarrow> C' = C \<and> chan_take (C c) = None \<and> ch_closed (C c)"
| "ch_effect (Closed c) C C' \<longleftrightarrow> C' = C(c := (C c)\<lparr>ch_closed := True\<rparr>) \<and> \<not> ch_closed (C c)"
| "ch_effect _ C C' \<longleftrightarrow> C' = C"

lemma set_sel [simp]:
  "sy_ch (set_pc s t p) = sy_ch s" "sy_gr (set_pc s t p) = sy_gr s" "sy_ngr (set_pc s t p) = sy_ngr s"
  "sy_ch (set_ch s c ch) = (sy_ch s)(c := ch)" "sy_gr (set_ch s c ch) = sy_gr s"
  "sy_ngr (set_ch s c ch) = sy_ngr s" "sy_tk (set_ch s c ch) = sy_tk s"
  "sy_ch (set_gr s g gr) = sy_ch s" "sy_gr (set_gr s g gr) = (sy_gr s)(g := gr)"
  "sy_ngr (set_gr s g gr) = sy_ngr s" "sy_tk (set_gr s g gr) = sy_tk s"
  "sy_tk (set_pc s t p) = (sy_tk s)(t := (sy_tk s t)\<lparr>tk_pc := p\<rparr>)"
  by (simp_all add: set_pc_def set_ch_def set_gr_def)

lemma select_pass_effect:
  "select_pass C i cs = Some (j, ev, C') \<Longrightarrow> ch_effect (Did ev) C C'"
  by (induction C i cs rule: select_pass.induct) (auto split: option.splits if_splits prod.splits)

lemma send_turn_done:
  "send_turn b c v = T_done ch \<longleftrightarrow> ch = chan_put c v \<and> \<not> ch_closed c \<and> \<not> b \<and> ch_count c < ch_cap c"
  by (auto simp: send_turn_def)

lemma recv_turn_done:
  "recv_turn b c = T_done (v, ok, ch) \<longleftrightarrow>
     (if ok then chan_take c = Some (v, ch) else chan_take c = None \<and> ch_closed c \<and> v = V_nil \<and> ch = c)"
  by (auto simp: recv_turn_def split: option.splits)

lemma select_turn_done:
  assumes "select_turn b C cs = T_done (i, ev, C')"
  shows "ch_effect (Did ev) C C'"
  using assms by (auto simp: select_turn_def split: option.splits if_splits dest: select_pass_effect)

lemma fail_home_sel [simp]: "sy_ch (fail_home s t v b) = sy_ch s" "sy_tk (fail_home s t v b) = sy_tk s"
  "sy_ngr (fail_home s t v b) = sy_ngr s"
  by (simp_all add: fail_home_def split: option.splits)

lemma turn_channels: "turn now te s t w = (e, s') \<Longrightarrow> ch_effect e (sy_ch s) (sy_ch s')"
proof (cases w)
  case (W_select cs)
  then show "turn now te s t w = (e, s') \<Longrightarrow> ?thesis"
    by (auto simp: turn_def split: turn.splits dest: select_turn_done)
qed (auto simp: turn_def send_turn_done recv_turn_done split: turn.splits option.splits if_splits list.splits prod.splits)

lemma action_channels: "action now s t a = Some (e, s') \<Longrightarrow> ch_effect e (sy_ch s) (sy_ch s')"
  by (cases a)
    (auto simp: action_def vl_chan_try_send_def vl_chan_close_def Let_def split: option.splits if_splits list.splits sum.splits)

lemma step_channels: "step s a e s' \<Longrightarrow> ch_effect e (sy_ch s) (sy_ch s')"
  by (erule stepE) (auto simp: turn_channels action_channels after_main_def split: if_splits)

subsection \<open>Values sent and received on a channel\<close>

definition sent_on :: "nat \<Rightarrow> event list \<Rightarrow> val list" where
  "sent_on c es = concat (map (\<lambda>e. case e of Did (Put d v) \<Rightarrow> if d = c then [v] else [] | _ \<Rightarrow> []) es)"

definition got_on :: "nat \<Rightarrow> event list \<Rightarrow> val list" where
  "got_on c es = concat (map (\<lambda>e. case e of Did (Took d v) \<Rightarrow> if d = c then [v] else [] | _ \<Rightarrow> []) es)"

lemma sent_got_Nil [simp]: "sent_on c [] = []" "got_on c [] = []"
  by (simp_all add: sent_on_def got_on_def)

lemma sent_got_snoc:
  "sent_on c (es @ [e]) = sent_on c es @ (case e of Did (Put d v) \<Rightarrow> if d = c then [v] else [] | _ \<Rightarrow> [])"
  "got_on c (es @ [e]) = got_on c es @ (case e of Did (Took d v) \<Rightarrow> if d = c then [v] else [] | _ \<Rightarrow> [])"
  by (simp_all add: sent_on_def got_on_def)

lemma effect_accounts:
  assumes "ring.accounts (sent_on c es) (got_on c es) (C c)" "ch_effect e C C'"
  shows "ring.accounts (sent_on c (es @ [e])) (got_on c (es @ [e])) (C' c)"
  using assms
  by (cases "(e, C, C')" rule: ch_effect.cases)
    (auto simp: sent_got_snoc intro: ring.accounts_put ring.accounts_get ring_accounts_close)

lemma run_accounts: "run caps es s \<Longrightarrow> ring.accounts (sent_on c es) (got_on c es) (sy_ch s c)"
proof (induction rule: run.induct)
  case run_init
  show ?case by (simp add: init_sys_def ring.accounts_new chan_new_queue)
next
  case (run_step es s a e s')
  show ?case by (rule effect_accounts [OF run_step.IH step_channels [OF run_step.hyps(2)]])
qed

lemma effect_static:
  assumes "ch_effect e C C'"
  shows "ch_cap (C' c) = ch_cap (C c) \<and> (ch_closed (C c) \<longrightarrow> ch_closed (C' c)) \<and>
    (ch_closed (C' c) \<and> \<not> ch_closed (C c) \<longrightarrow> e = Closed c)"
  using assms
  by (cases "(e, C, C')" rule: ch_effect.cases) (auto simp: chan_put_def chan_take_def split: if_splits)

lemma run_closed: "run caps es s \<Longrightarrow> ch_closed (sy_ch s c) \<longleftrightarrow> Closed c \<in> set es"
proof (induction rule: run.induct)
  case run_init
  show ?case by (simp add: init_sys_def chan_new_queue)
next
  case (run_step es s a e s')
  then show ?case
    using effect_static [OF step_channels [OF run_step.hyps(2)], of c] step_channels [OF run_step.hyps(2)]
    by auto
qed

lemma run_no_late_put:
  "run caps es s \<Longrightarrow> i < j \<Longrightarrow> j < length es \<Longrightarrow> es ! i = Closed c \<Longrightarrow> es ! j \<noteq> Did (Put c v) \<and> es ! j \<noteq> Closed c"
proof (induction arbitrary: i j rule: run.induct)
  case run_init
  then show ?case by simp
next
  case (run_step es s a e s')
  show ?case
  proof (cases "j = length es")
    case True
    then have "Closed c \<in> set es" using run_step.prems by (auto simp: nth_append in_set_conv_nth)
    then have "ch_closed (sy_ch s c)" using run_closed [OF run_step.hyps(1)] by simp
    then show ?thesis using True step_channels [OF run_step.hyps(2)] by (auto simp: nth_append)
  next
    case False
    then show ?thesis using run_step.IH [of i j] run_step.prems by (simp add: nth_append)
  qed
qed

subsection \<open>Groups count their tasks\<close>

definition members :: "sys \<Rightarrow> nat \<Rightarrow> nat set" where
  "members s g = {t. tk_home (sy_tk s t) = Some g \<and> pc_of s t \<noteq> Finished}"

definition sys_wf :: "sys \<Rightarrow> bool" where
  "sys_wf s \<longleftrightarrow>
     (\<forall>t. \<forall>g \<in> set (tk_chain (sy_tk s t)). g < sy_ngr s) \<and>
     (\<forall>t g. tk_home (sy_tk s t) = Some g \<longrightarrow> g < sy_ngr s) \<and>
     (\<forall>t. pc_of s t = Unborn \<longrightarrow> tk_home (sy_tk s t) = None) \<and>
     (\<forall>g < sy_ngr s. finite (members s g) \<and> g_live (sy_gr s g) = card (members s g))"

text \<open>Steps that neither create nor end a task, nor open a group.\<close>

definition mild :: "sys \<Rightarrow> sys \<Rightarrow> bool" where
  "mild s s' \<longleftrightarrow>
     (\<forall>t. tk_home (sy_tk s' t) = tk_home (sy_tk s t) \<and>
       (pc_of s' t = Finished \<longleftrightarrow> pc_of s t = Finished) \<and> (pc_of s' t = Unborn \<longleftrightarrow> pc_of s t = Unborn) \<and>
       set (tk_chain (sy_tk s' t)) \<subseteq> set (tk_chain (sy_tk s t))) \<and>
     sy_ngr s' = sy_ngr s \<and> (\<forall>g. g_live (sy_gr s' g) = g_live (sy_gr s g))"

lemma mild_wf: "mild s s' \<Longrightarrow> sys_wf s \<Longrightarrow> sys_wf s'"
proof -
  assume m: "mild s s'" and w: "sys_wf s"
  have "members s' g = members s g" for g using m by (simp add: members_def mild_def)
  then show "sys_wf s'"
    using m w unfolding sys_wf_def mild_def by simp (meson subsetD)
qed

lemma group_fail_live [simp]: "g_live (group_fail v b g) = g_live g"
  by (simp add: group_fail_def)

lemma fail_home_live [simp]: "g_live (sy_gr (fail_home s t v b) g) = g_live (sy_gr s g)"
  by (simp add: fail_home_def split: option.splits)

lemma join_turn_live:
  "join_turn now b g = (g', b', ended) \<Longrightarrow> g_live g' = g_live g \<and> (g_cancelled g \<longrightarrow> g_cancelled g') \<and> (ended \<longrightarrow> g_live g = 0 \<and> g' = g)"
  by (auto simp: join_turn_def split: if_splits)

lemma turn_mild:
  assumes "pc_of s t = Waiting w" "w \<noteq> W_exit" "turn now te s t w = (e, s')"
  shows "mild s s'"
  using assms
  by (cases w)
    (auto simp: turn_def mild_def split: turn.splits if_splits list.splits prod.splits dest: join_turn_live)

lemma turn_exit_wf:
  assumes "pc_of s t = Waiting W_exit" "turn now te s t W_exit = (e, s')" "sys_wf s"
  shows "sys_wf s'"
proof (cases "tk_home (sy_tk s t)")
  case None
  then have s': "s' = set_pc s t Finished" using assms(2) by (simp add: turn_def)
  have "members s' g = members s g" for g
    using None assms(1) by (auto simp: members_def s')
  then show ?thesis using assms(1,3) by (auto simp: sys_wf_def s')
next
  case (Some g)
  then have s': "s' = set_pc (set_gr s g ((sy_gr s g)\<lparr>g_live := g_live (sy_gr s g) - 1\<rparr>)) t Finished"
    using assms(2) by (simp add: turn_def)
  have mem: "members s' h = (if h = g then members s g - {t} else members s h)" for h
    using Some assms(1) by (auto simp: members_def s')
  have "t \<in> members s g" using Some assms(1) by (simp add: members_def)
  then show ?thesis
    using assms(3) unfolding sys_wf_def mem by (auto simp: s' card_Diff_singleton)
qed

lemma action_mild:
  assumes "pc_of s t = Running" "action now s t a = Some (e, s')"
    "\<forall>v. a \<noteq> A_group_begin v" "\<forall>u. a \<noteq> A_spawn u"
  shows "mild s s'"
  using assms
  by (cases a) (auto simp: action_def mild_def Let_def split: if_splits option.splits sum.splits)

lemma action_group_begin_wf:
  assumes "action now s t (A_group_begin v) = Some (e, s')" "sys_wf s"
  shows "sys_wf s'"
proof -
  from assms(1) have s': "s' = s\<lparr>sy_gr := (sy_gr s)(sy_ngr s := vl_group_begin now v), sy_ngr := sy_ngr s + 1,
      sy_tk := (sy_tk s)(t := (sy_tk s t)\<lparr>tk_chain := sy_ngr s # tk_chain (sy_tk s t)\<rparr>)\<rparr>"
    by (simp add: action_def)
  have mem: "members s' g = members s g" for g by (auto simp: members_def s')
  have "members s (sy_ngr s) = {}" using assms(2) by (fastforce simp: members_def sys_wf_def)
  moreover have "g_live (vl_group_begin now v) = 0" by (simp add: vl_group_begin_def new_group_def)
  ultimately show ?thesis
    using assms(2) unfolding sys_wf_def mem by (auto simp: s' less_Suc_eq)
qed

lemma action_spawn_wf:
  assumes "action now s t (A_spawn u) = Some (e, s')" "sys_wf s"
  shows "sys_wf s'"
proof -
  from assms(1) obtain g gs where c: "tk_chain (sy_tk s t) = g # gs" and u: "pc_of s u = Unborn"
    and s': "s' = set_gr (s\<lparr>sy_tk := (sy_tk s)(u :=
      \<lparr>tk_chain = g # gs, tk_home = Some g, tk_pc = Running, tk_result = V_nil, tk_exc = V_nil\<rparr>)\<rparr>)
      g ((sy_gr s g)\<lparr>g_live := g_live (sy_gr s g) + 1\<rparr>)"
    by (auto simp: action_def split: list.splits if_splits)
  have h: "tk_home (sy_tk s u) = None" using assms(2) u by (simp add: sys_wf_def)
  then have mem: "members s' x = (if x = g then insert u (members s g) else members s x)" for x
    by (auto simp: members_def s')
  have "u \<notin> members s g" using h by (simp add: members_def)
  moreover have "\<forall>x \<in> set (g # gs). x < sy_ngr s" using assms(2) c unfolding sys_wf_def by metis
  ultimately show ?thesis
    using assms(2) unfolding sys_wf_def mem by (auto simp: s')
qed

lemma step_wf: "step s a e s' \<Longrightarrow> sys_wf s \<Longrightarrow> sys_wf s'"
proof (induction rule: step.induct)
  case (step_turn s t w now te e s')
  then show ?case
    by (cases "w = W_exit") (auto intro: turn_exit_wf mild_wf [OF turn_mild])
next
  case (step_act s t now a e s')
  then show ?case
    by (cases a) (auto intro: action_group_begin_wf action_spawn_wf mild_wf [OF action_mild])
next
  case (step_timer now s c ch)
  then show ?case by (simp add: sys_wf_def members_def)
qed

lemma init_wf: "sys_wf (init_sys caps)"
  by (simp add: sys_wf_def init_sys_def)

lemma run_wf: "run caps es s \<Longrightarrow> sys_wf s"
  by (induction rule: run.induct) (auto intro: init_wf step_wf)

lemma step_joined:
  assumes "step s a (Joined g out) s'"
  shows "\<exists>t gs. a = Some t \<and> tk_chain (sy_tk s t) = g # gs \<and> g_live (sy_gr s g) = 0 \<and>
    tk_chain (sy_tk s' t) = gs \<and> (\<exists>te b v. out = group_result te b v (sy_gr s g)) \<and>
    (\<forall>u. u \<noteq> t \<longrightarrow> sy_tk s' u = sy_tk s u)"
  using assms
proof (cases rule: step.cases)
  case (step_turn t w now te)
  then show ?thesis
    by (auto simp: turn_def split: wait.splits turn.splits if_splits list.splits prod.splits dest!: join_turn_live)
next
  case (step_act t now a)
  then show ?thesis
    by (auto simp: action_def Let_def split: act.splits if_splits option.splits sum.splits list.splits)
qed

subsection \<open>Stability\<close>

lemma step_frame:
  assumes "step s a e s'" "a \<noteq> Some t" "pc_of s t \<noteq> Unborn"
  shows "sy_tk s' t = sy_tk s t"
  using assms
proof (induction rule: step.induct)
  case (step_turn s u w now te e s')
  then show ?case
    by (auto simp: turn_def split: wait.splits turn.splits if_splits list.splits prod.splits option.splits)
next
  case (step_act s u now a e s')
  then show ?case
    by (auto simp: action_def Let_def split: act.splits if_splits option.splits sum.splits list.splits)
qed simp

lemma group_fail_cancelled: "g_cancelled g \<Longrightarrow> g_cancelled (group_fail v b g)"
  by (simp add: group_fail_def)

lemma step_cancel_stable:
  assumes "step s a e s'" "g < sy_ngr s" "g_cancelled (sy_gr s g)"
  shows "g_cancelled (sy_gr s' g)"
  using assms
proof (induction rule: step.induct)
  case (step_turn s u w now te e s')
  then show ?case
    by (auto simp: turn_def split: wait.splits turn.splits if_splits list.splits prod.splits option.splits
        dest: join_turn_live)
next
  case (step_act s u now a e s')
  then show ?case
    by (auto simp: action_def fail_home_def group_fail_cancelled Let_def
        split: act.splits if_splits option.splits sum.splits list.splits)
qed simp

definition fair_run :: "(nat \<Rightarrow> sys) \<Rightarrow> (nat \<Rightarrow> nat option) \<Rightarrow> bool" where
  "fair_run R A \<longleftrightarrow>
     (\<forall>i. \<exists>e. step (R i) (A i) e (R (Suc i))) \<and>
     (\<forall>t i. (\<forall>j \<ge> i. \<exists>w. pc_of (R j) t = Waiting w) \<longrightarrow> (\<exists>j \<ge> i. A j = Some t))"

text \<open>What is stable along a run and holds when a task begins to wait still holds at its next turn.\<close>

lemma next_turn:
  assumes f: "fair_run R A" and w: "pc_of (R i) t = Waiting w"
    and stable: "\<And>k e. step (R k) (A k) e (R (Suc k)) \<Longrightarrow> sy_tk (R k) t = sy_tk (R i) t \<Longrightarrow> P (R k) \<Longrightarrow> P (R (Suc k))"
    and P: "P (R i)"
  shows "\<exists>j \<ge> i. A j = Some t \<and> sy_tk (R j) t = sy_tk (R i) t \<and> P (R j)"
proof -
  have keep: "sy_tk (R k) t = sy_tk (R i) t \<and> P (R k)" if "i \<le> k" "\<forall>j. i \<le> j \<and> j < k \<longrightarrow> A j \<noteq> Some t" for k
    using that
  proof (induction k rule: dec_induct)
    case base
    then show ?case using P by simp
  next
    case (step k)
    then have IH: "sy_tk (R k) t = sy_tk (R i) t" "P (R k)" and a: "A k \<noteq> Some t" by auto
    obtain e where e: "step (R k) (A k) e (R (Suc k))" using f unfolding fair_run_def by blast
    then show ?case using step_frame [OF e a] stable [OF e IH] IH w by simp
  qed
  have "\<exists>j \<ge> i. A j = Some t"
  proof (rule ccontr)
    assume n: "\<not> (\<exists>j \<ge> i. A j = Some t)"
    have "\<exists>w. pc_of (R j) t = Waiting w" if j: "i \<le> j" for j
    proof -
      have "sy_tk (R j) t = sy_tk (R i) t" using keep [OF j] n by blast
      then show ?thesis using w by simp
    qed
    then show False using f n unfolding fair_run_def by meson
  qed
  then obtain j where j: "i \<le> j" "A j = Some t" by blast
  then obtain m where m: "i \<le> m" "A m = Some t" "\<forall>k. i \<le> k \<and> k < m \<longrightarrow> A k \<noteq> Some t"
    using exists_least_iff [of "\<lambda>j. i \<le> j \<and> A j = Some t"] by blast
  show ?thesis using keep [OF m(1,3)] m(1,2) by blast
qed

text \<open>The turns that end a wait.\<close>

definition must_end :: "sys \<Rightarrow> nat \<Rightarrow> wait \<Rightarrow> bool" where
  "must_end s t w \<longleftrightarrow>
     (case w of
        W_send c v \<Rightarrow> ch_closed (sy_ch s c) \<or> cancelled s t
      | W_handoff c \<Rightarrow> ch_closed (sy_ch s c) \<or> cancelled s t
      | W_recv c \<Rightarrow> ch_closed (sy_ch s c) \<or> cancelled s t
      | W_select cs \<Rightarrow> cancelled s t
      | W_sleep d \<Rightarrow> cancelled s t
      | W_join to b \<Rightarrow> False
      | W_await u \<Rightarrow> pc_of s u = Finished
      | W_exit \<Rightarrow> True)"

lemma must_end_step:
  assumes "must_end s t w" "pc_of s t = Waiting w" "step s (Some t) e s'"
  shows "pc_of s' t = Running \<or> pc_of s' t = Finished"
  using assms(3)
proof (cases rule: step.cases)
  case (step_turn w' now te)
  then have "turn now te s t w = (e, s')" using assms(2) by simp
  then show ?thesis using assms(1)
    by (auto simp: turn_def must_end_def send_turn_def recv_turn_def select_turn_def handoff_over_def
        split: wait.splits option.splits if_splits prod.splits turn.splits)
qed (use assms(2) in simp_all)

lemma must_end_stable:
  assumes "step s a e s'" "must_end s t w" "sys_wf s" "pc_of s t = Waiting w" "sy_tk s' t = sy_tk s t"
  shows "must_end s' t w"
proof -
  have "cancelled s' t" if c: "cancelled s t"
  proof -
    obtain g where g: "g \<in> set (tk_chain (sy_tk s t))" "g_cancelled (sy_gr s g)"
      using c unfolding cancelled_def group_cancelled_def list_ex_iff by blast
    then have "g < sy_ngr s" using assms(3) by (auto simp: sys_wf_def)
    then show ?thesis using step_cancel_stable [OF assms(1) _ g(2)] g(1) assms(5)
      by (auto simp: cancelled_def group_cancelled_def list_ex_iff)
  qed
  moreover have "ch_closed (sy_ch s' c)" if "ch_closed (sy_ch s c)" for c
    using effect_static [OF step_channels [OF assms(1)]] that by blast
  moreover have "pc_of s' u = Finished" if "pc_of s u = Finished" for u
  proof -
    have "a \<noteq> Some u" using assms(1) that by (auto elim: stepE)
    then show ?thesis using step_frame [OF assms(1)] that by simp
  qed
  ultimately show ?thesis using assms(2) by (auto simp: must_end_def split: wait.splits)
qed

subsection \<open>Playing a schedule\<close>

text \<open>A schedule names the task that moves, with its action when it is not blocked.\<close>

definition move :: "sys \<Rightarrow> nat \<Rightarrow> act option \<Rightarrow> (event \<times> sys) option" where
  "move s t a =
     (case (pc_of s t, a) of
        (Waiting w, None) \<Rightarrow> Some (turn 0 (O_opaque K_err 0 ''Timeout'') s t w)
      | (Running, Some a) \<Rightarrow> action 0 s t a
      | _ \<Rightarrow> None)"

fun play :: "sys \<Rightarrow> (nat \<times> act option) list \<Rightarrow> (event list \<times> sys) option" where
  "play s [] = Some ([], s)"
| "play s ((t, a) # xs) =
     Option.bind (move s t a) (\<lambda>(e, s'). map_option (\<lambda>(es, s''). (e # es, s'')) (play s' xs))"

lemma move_step:
  assumes "move s t a = Some (e, s')"
  shows "step s (Some t) e s'"
proof (cases "pc_of s t")
  case Running
  then show ?thesis using assms by (auto simp: move_def intro: step_act split: option.splits)
next
  case (Waiting w)
  then show ?thesis using assms
    by (intro step_turn [where now = 0 and te = "O_opaque K_err 0 ''Timeout''"])
      (auto simp: move_def is_err_def split: option.splits)
qed (use assms in \<open>auto simp: move_def\<close>)

lemma play_run: "run caps es s \<Longrightarrow> play s xs = Some (fs, s') \<Longrightarrow> run caps (es @ fs) s'"
proof (induction xs arbitrary: s es fs)
  case (Cons x xs)
  obtain t a where x: "x = (t, a)" by fastforce
  from Cons.prems(2) obtain e s1 gs where "move s t a = Some (e, s1)" "play s1 xs = Some (gs, s')" "fs = e # gs"
    by (auto simp: x bind_eq_Some_conv)
  then show ?case using Cons.IH [of "es @ [e]" s1 gs] run_step [OF Cons.prems(1) move_step] by simp
qed simp

text \<open>Two senders on an unbuffered channel and one receive.\<close>

definition two_senders :: "(nat \<times> act option) list" where
  "two_senders =
     [(0, Some (A_group_begin V_nil)), (0, Some (A_spawn 1)), (0, Some (A_spawn 2)),
      (1, Some (A_call (W_send 0 (V_int 1)))), (1, None),
      (0, Some (A_call (W_recv 0))), (0, None),
      (2, Some (A_call (W_send 0 (V_int 2)))), (2, None),
      (0, Some (A_call (W_join False True)))]"

definition stuck :: "event list \<times> sys" where
  "stuck = the (play (init_sys (\<lambda>_. 0)) two_senders)"

lemma stuck_played: "play (init_sys (\<lambda>_. 0)) two_senders = Some stuck"
proof -
  have "play (init_sys (\<lambda>_. 0)) two_senders \<noteq> None" by code_simp
  then show ?thesis by (simp add: stuck_def)
qed

lemma stuck_run: "run (\<lambda>_. 0) (fst stuck) (snd stuck)"
  using play_run [OF run_init, of "\<lambda>_. 0" two_senders "fst stuck" "snd stuck"] stuck_played by simp

lemma stuck_facts:
  "fst stuck = [Quiet, Quiet, Quiet, Quiet, Did (Put 0 (V_int 1)), Quiet, Did (Took 0 (V_int 1)), Quiet, Did (Put 0 (V_int 2)), Quiet]"
  "pc_of (snd stuck) 0 = Waiting (W_join False True)" "pc_of (snd stuck) 1 = Waiting (W_handoff 0)"
  "pc_of (snd stuck) 2 = Waiting (W_handoff 0)"
  "tk_chain (sy_tk (snd stuck) 0) = [0]" "g_live (sy_gr (snd stuck) 0) = 2" "g_deadline (sy_gr (snd stuck) 0) = 0"
  "\<not> handoff_over (cancelled (snd stuck) 1) (sy_ch (snd stuck) 0)"
  "\<not> handoff_over (cancelled (snd stuck) 2) (sy_ch (snd stuck) 0)"
  by (code_simp, code_simp, code_simp, code_simp, code_simp, code_simp, code_simp, code_simp, code_simp)

subsection \<open>Properties\<close>

text \<open>C8. Every value sent on a channel is received at most once and in order, whatever the
  interleaving of sends, receives, selects, non-blocking sends and timers: the values put are the
  values taken followed by the queue inside, which never exceeds the capacity; a channel is closed
  exactly when a close succeeded, and nothing is put into it and no close succeeds after that.\<close>

theorem channels_keep_order:
  assumes "run caps es s"
  shows "sent_on c es = got_on c es @ chan_queue (sy_ch s c) \<and>
    length (chan_queue (sy_ch s c)) \<le> ch_cap (sy_ch s c) \<and>
    (ch_closed (sy_ch s c) \<longleftrightarrow> Closed c \<in> set es) \<and>
    (\<forall>i j v. i < j \<and> j < length es \<and> es ! i = Closed c \<longrightarrow> es ! j \<noteq> Did (Put c v) \<and> es ! j \<noteq> Closed c)"
proof -
  have a: "ring.accounts (sent_on c es) (got_on c es) (sy_ch s c)" by (rule run_accounts [OF assms])
  then show ?thesis
    using run_closed [OF assms] run_no_late_put [OF assms] by (auto simp: ring.accounts_def chan_wf_def)
qed

theorem channels_keep_order_witness:
  "sent_on 0 (fst stuck) = got_on 0 (fst stuck) @ chan_queue (sy_ch (snd stuck) 0) \<and> sent_on 0 (fst stuck) = [V_int 1, V_int 2]"
  using channels_keep_order [OF stuck_run, of 0] by (simp add: stuck_facts(1) sent_on_def)

text \<open>C9. A group block ends only after all its tasks: in every run, when the join of a group returns,
  every task spawned in it has finished.\<close>

theorem join_waits_for_all:
  assumes "run caps es s" "step s a (Joined g out) s'" "tk_home (sy_tk s' u) = Some g"
  shows "pc_of s' u = Finished"
proof -
  obtain t gs where a: "a = Some t" and c: "tk_chain (sy_tk s t) = g # gs" and l: "g_live (sy_gr s g) = 0"
    and o: "\<forall>u. u \<noteq> t \<longrightarrow> sy_tk s' u = sy_tk s u"
    using step_joined [OF assms(2)] by blast
  have w: "sys_wf s" by (rule run_wf [OF assms(1)])
  then have "g < sy_ngr s" using c unfolding sys_wf_def by (metis list.set_intros(1))
  then have m: "members s g = {}" using w l by (simp add: sys_wf_def)
  have ts: "pc_of s t \<noteq> Finished" using assms(2) a by (auto elim: stepE)
  have "members s' g = {}" if "tk_home (sy_tk s' t) = tk_home (sy_tk s t)"
    using m o ts that unfolding members_def by (metis (mono_tags, lifting) Collect_empty_eq)
  moreover have "tk_home (sy_tk s' t) = tk_home (sy_tk s t)"
    using assms(2) a
    by (auto elim!: stepE simp: turn_def action_def Let_def split: wait.splits turn.splits if_splits list.splits prod.splits
        option.splits act.splits sum.splits)
  ultimately show ?thesis using assms(3) by (auto simp: members_def)
qed

definition joined_schedule :: "(nat \<times> act option) list" where
  "joined_schedule =
     [(0, Some (A_group_begin V_nil)), (0, Some (A_spawn 1)), (1, Some (A_return V_unit)), (1, None),
      (0, Some (A_call (W_join False True)))]"

theorem join_waits_for_all_witness:
  "pc_of (snd (the (move (snd (the (play (init_sys (\<lambda>_. 0)) joined_schedule))) 0 None))) 1 = Finished"
proof -
  let ?p = "play (init_sys (\<lambda>_. 0)) joined_schedule"
  let ?m = "move (snd (the ?p)) 0 None"
  have p: "?p = Some (fst (the ?p), snd (the ?p))"
  proof -
    have "?p \<noteq> None" by code_simp
    then show ?thesis by simp
  qed
  have m: "?m = Some (Joined 0 G_ok, snd (the ?m))"
  proof -
    have "?m \<noteq> None" "fst (the ?m) = Joined 0 G_ok" by (code_simp, code_simp)
    then show ?thesis by (metis option.exhaust_sel prod.collapse)
  qed
  have h: "tk_home (sy_tk (snd (the ?m)) 1) = Some 0" by code_simp
  show ?thesis using join_waits_for_all [OF play_run [OF run_init p] move_step [OF m] h] .
qed

text \<open>C10. No blocked task is forgotten: in every fair run (a task that keeps waiting gets its turn, as
  the timed wait on the monitor ensures) a blocked send, receive or hand-off ends when its channel
  is closed, every blocked channel operation and sleep ends when the task's group is cancelled, and
  an await ends when the task awaited has finished.\<close>

theorem blocked_tasks_wake:
  assumes "fair_run R A" "sys_wf (R 0)" "pc_of (R i) t = Waiting w" "must_end (R i) t w"
  shows "\<exists>j > i. pc_of (R j) t = Running \<or> pc_of (R j) t = Finished"
proof -
  have wf: "sys_wf (R k)" for k
  proof (induction k)
    case (Suc k)
    obtain e where "step (R k) (A k) e (R (Suc k))" using assms(1) unfolding fair_run_def by blast
    then show ?case using Suc by (rule step_wf)
  qed (rule assms(2))
  let ?P = "\<lambda>s. pc_of s t = Waiting w \<longrightarrow> must_end s t w"
  have st: "?P (R (Suc k))"
    if e: "step (R k) (A k) e (R (Suc k))" and k: "sy_tk (R k) t = sy_tk (R i) t" "?P (R k)" for k e
  proof
    assume w: "pc_of (R (Suc k)) t = Waiting w"
    have p: "pc_of (R k) t = Waiting w" "must_end (R k) t w" using k assms(3) by simp_all
    show "must_end (R (Suc k)) t w"
    proof (cases "A k = Some t")
      case True
      then show ?thesis using must_end_step [OF p(2,1)] e w by fastforce
    next
      case False
      show ?thesis by (rule must_end_stable [OF e p(2) wf p(1) step_frame [OF e False]]) (simp add: p(1))
    qed
  qed
  obtain j where j: "i \<le> j" "A j = Some t" "sy_tk (R j) t = sy_tk (R i) t" "?P (R j)"
    using next_turn [OF assms(1,3), of ?P] st assms(4) by blast
  obtain e where "step (R j) (Some t) e (R (Suc j))" using assms(1) j(2) unfolding fair_run_def by metis
  then have "pc_of (R (Suc j)) t = Running \<or> pc_of (R (Suc j)) t = Finished"
    using must_end_step j assms(3) by simp
  then show ?thesis using j(1) by (intro exI [of _ "Suc j"]) simp
qed

text \<open>A receive on a closed channel, and a task that then tries to send on it for ever.\<close>

definition closed_sys :: "pc \<Rightarrow> sys" where
  "closed_sys p = set_pc (set_ch (init_sys (\<lambda>_. 1)) 0 ((vl_chan_new 1)\<lparr>ch_closed := True\<rparr>)) 0 p"

lemma closed_sys_run: "fair_run (\<lambda>i. closed_sys (if i = 0 then Waiting (W_recv 0) else Running)) (\<lambda>_. Some 0)"
proof -
  let ?e = "O_opaque K_err 0 ''Timeout''"
  have t: "turn 0 ?e (closed_sys (Waiting (W_recv 0))) 0 (W_recv 0) = (Did (Drained 0), closed_sys Running)"
    by (simp add: turn_def recv_turn_def chan_take_def vl_chan_new_def closed_sys_def set_pc_def set_ch_def)
  have a: "action 0 (closed_sys Running) 0 (A_try_send 0 V_nil) = Some (Quiet, closed_sys Running)"
    by (simp add: action_def vl_chan_try_send_def closed_sys_def)
  have "pc_of (closed_sys p) 0 = p" for p by (simp add: closed_sys_def)
  moreover have "pc_of (closed_sys p) u \<noteq> Waiting w" if "u \<noteq> 0" for p u w
    using that by (simp add: closed_sys_def init_sys_def)
  ultimately show ?thesis
    using step_turn [OF _ t] step_act [OF _ a] unfolding fair_run_def
    by (auto simp: is_err_def) (metis le_refl neq0_conv)
qed

theorem blocked_tasks_wake_witness:
  "\<exists>j > 0. pc_of (closed_sys (if j = (0 :: nat) then Waiting (W_recv 0) else Running)) 0 \<in> {Running, Finished}"
proof -
  have "sys_wf (closed_sys (Waiting (W_recv 0)))"
    using init_wf [of "\<lambda>_. 1"] by (auto simp: sys_wf_def closed_sys_def members_def init_sys_def)
  moreover have "must_end (closed_sys (Waiting (W_recv 0))) 0 (W_recv 0)"
    by (simp add: must_end_def closed_sys_def)
  ultimately show ?thesis
    using blocked_tasks_wake [OF closed_sys_run, of 0 0 "W_recv 0"] by (simp add: closed_sys_def)
qed

text \<open>The failures of the tasks of a group, in the order they arrive.\<close>

definition fail_all :: "(val \<times> bool) list \<Rightarrow> group \<Rightarrow> group" where
  "fail_all fs g = fold (\<lambda>(v, b). group_fail v b) fs g"

lemma fail_all_later:
  "g_failure g \<noteq> V_nil \<Longrightarrow>
     fail_all fs g = g\<lparr>g_suppressed := g_suppressed g @ map fst fs\<rparr>"
  by (induction fs arbitrary: g) (auto simp: fail_all_def group_fail_def)

text \<open>C11. The failure of a group: the first error of a task cancels the siblings and becomes the result
  of the group block, a value under \<^verbatim>\<open>try\<close> and a throw otherwise, with all later errors as its
  suppressed ones, in order; a group without errors succeeds; when the deadline has fired the result
  is the \<^verbatim>\<open>Timeout\<close> unless the first error is one other than \<^verbatim>\<open>Cancelled\<close>.\<close>

theorem first_failure_wins:
  assumes "is_err v" "is_err te"
  shows "group_result te False b (fail_all [] (vl_group_begin now d)) = G_ok \<and>
    g_cancelled (fail_all ((v, k) # fs) (vl_group_begin now d)) \<and>
    group_result te False True (fail_all ((v, k) # fs) (vl_group_begin now d)) = G_value v (map fst fs) \<and>
    group_result te False False (fail_all ((v, k) # fs) (vl_group_begin now d)) = G_throw v (map fst fs) \<and>
    group_result te True True (fail_all ((v, k) # fs) (vl_group_begin now d)) =
      (if err_type v = ''Cancelled'' then G_value te (v # map fst fs) else G_value v (map fst fs)) \<and>
    group_result te True True (fail_all [] (vl_group_begin now d)) = G_value te []"
proof -
  have nil: "v \<noteq> V_nil" "te \<noteq> V_nil" "\<not> is_err V_nil" using assms by (auto simp: is_err_def)
  let ?g = "vl_group_begin now d"
  have g: "g_failure ?g = V_nil" "g_suppressed ?g = []" by (simp_all add: vl_group_begin_def new_group_def)
  have "fail_all ((v, k) # fs) ?g = fail_all fs (group_fail v k ?g)" by (simp add: fail_all_def)
  also have "group_fail v k ?g = ?g\<lparr>g_failure := v, g_is_value := k, g_cancelled := True\<rparr>"
    using g by (simp add: group_fail_def)
  also have "fail_all fs \<dots> = ?g\<lparr>g_failure := v, g_is_value := k, g_cancelled := True, g_suppressed := map fst fs\<rparr>"
    using nil(1) g by (simp add: fail_all_later)
  finally show ?thesis
    using assms nil g by (simp add: group_result_def Let_def) (simp add: fail_all_def g)
qed

theorem first_failure_wins_witness:
  "group_result (O_opaque K_err 1 ''Timeout'') False True
     (fail_all [(O_opaque K_err 2 ''IOError'', True), (O_opaque K_err 3 ''Cancelled'', False)] (vl_group_begin 0 V_nil)) =
   G_value (O_opaque K_err 2 ''IOError'') [O_opaque K_err 3 ''Cancelled'']"
  using first_failure_wins [of "O_opaque K_err 2 ''IOError''" "O_opaque K_err 1 ''Timeout''" True 0 V_nil True
      "[(O_opaque K_err 3 ''Cancelled'', False)]"]
  by (simp add: is_err_def)

text \<open>C12. A sender on an unbuffered channel may wait for ever although its value was received: there is
  a run of two senders and one receive after which the first sender, whose value was taken, waits
  for the slot that the second sender has filled, both hand-off loops cannot end, and the join of
  the group waits for them.  A select sends on an unbuffered channel without any receiver, and waits
  on a closed channel on which a plain send throws.\<close>

theorem rendezvous_sender_stuck:
  "run (\<lambda>_. 0) (fst stuck) (snd stuck) \<and>
   sent_on 0 (fst stuck) = [V_int 1, V_int 2] \<and> got_on 0 (fst stuck) = [V_int 1] \<and>
   turn now te (snd stuck) 1 (W_handoff 0) = (Quiet, snd stuck) \<and>
   turn now te (snd stuck) 2 (W_handoff 0) = (Quiet, snd stuck) \<and>
   turn now te (snd stuck) 0 (W_join False True) = (Quiet, snd stuck) \<and>
   pc_of (snd stuck) 0 = Waiting (W_join False True) \<and>
   pc_of (snd stuck) 1 = Waiting (W_handoff 0) \<and> pc_of (snd stuck) 2 = Waiting (W_handoff 0) \<and>
   (\<exists>C. select_turn False (\<lambda>_. vl_chan_new 0) [Sel_send 0 V_unit] = T_done (0, Put 0 V_unit, C)) \<and>
   select_turn False (\<lambda>_. (vl_chan_new 1)\<lparr>ch_closed := True\<rparr>) [Sel_send 0 V_unit] = T_wait \<and>
   send_turn False ((vl_chan_new 1)\<lparr>ch_closed := True\<rparr>) V_unit =
     T_throw (Throw ''RuntimeError'' ''send on closed channel'')"
proof (intro conjI)
  show "turn now te (snd stuck) 0 (W_join False True) = (Quiet, snd stuck)"
  proof -
    have same: "set_pc (set_gr s g (sy_gr s g)) t (pc_of s t) = s" for s g t
      by (simp add: set_pc_def set_gr_def)
    show ?thesis using stuck_facts same [of "snd stuck" 0 0] by (simp add: turn_def join_turn_def)
  qed
qed (use stuck_run stuck_facts in \<open>simp_all add: sent_on_def got_on_def turn_def select_turn_def send_turn_def vl_chan_new_def\<close>)

end
