(* ===== verification/Json.thy ===== *)
theory Json
  imports Coll "HOL-Library.Sublist"
begin

section \<open>JSON text (json.c: json\_str .. vl\_json\_decode without a type)\<close>

text \<open>
  The encoder writes a value, the parser reads a text into a dynamic value.  A position in the text
  is an index; a parser returns the value and the index after it, or the reason and the position of
  the first syntax error.  The loops over elements and members are \<open>partial_function\<close>s, so that
  \<^const>\<open>None\<close> is a loop that never ends; every one is proved to return.
\<close>

subsection \<open>Encoding\<close>

definition hex4 :: "nat \<Rightarrow> string" where
  "hex4 c = map (\<lambda>k. ''0123456789abcdef'' ! (c div 16 ^ k mod 16)) [3, 2, 1, 0]"

definition json_esc :: "char \<Rightarrow> string option" where
  "json_esc c =
     (if c = CHR 0x22 then Some [CHR 0x5C, CHR 0x22]
      else if c = CHR 0x5C then Some [CHR 0x5C, CHR 0x5C]
      else if c = CHR 0x0A then Some [CHR 0x5C, CHR ''n'']
      else if c = CHR 0x09 then Some [CHR 0x5C, CHR ''t'']
      else if c = CHR 0x0D then Some [CHR 0x5C, CHR ''r'']
      else if c = CHR 0x08 then Some [CHR 0x5C, CHR ''b'']
      else if c = CHR 0x0C then Some [CHR 0x5C, CHR ''f'']
      else if byte c < 0x20 then Some ([CHR 0x5C, CHR ''u''] @ hex4 (byte c))
      else None)"

text \<open>The loop over the bytes, with the pending run of plain ones.\<close>

fun json_runs :: "string \<Rightarrow> string \<Rightarrow> string" where
  "json_runs [] run = run"
| "json_runs (c # cs) run =
     (case json_esc c of
        None \<Rightarrow> json_runs cs (run @ [c])
      | Some e \<Rightarrow> run @ e @ json_runs cs [])"

definition json_str_text :: "string \<Rightarrow> string" where
  "json_str_text s = [CHR 0x22] @ json_runs s [] @ [CHR 0x22]"

definition json_str :: "show_env \<Rightarrow> val \<Rightarrow> string" where
  "json_str E v = json_str_text (vl_tostr E 0 v)"

definition JE_MAX_DEPTH :: nat where "JE_MAX_DEPTH = 512"

text \<open>The lines of an array or an object, with \<^verbatim>\<open>","\<close> after every one but the last.\<close>

fun enc_lines :: "string \<Rightarrow> string \<Rightarrow> string list \<Rightarrow> string" where
  "enc_lines pad nl [] = []"
| "enc_lines pad nl [t] = pad @ t @ nl"
| "enc_lines pad nl (t # u # ts) = pad @ t @ '','' @ nl @ enc_lines pad nl (u # ts)"

definition enc_seq :: "string \<Rightarrow> string \<Rightarrow> string \<Rightarrow> string list \<Rightarrow> string" where
  "enc_seq cur pad nl ts = (if ts = [] then ''[]'' else ''['' @ nl @ enc_lines pad nl ts @ cur @ '']'')"

definition enc_fields :: "string \<Rightarrow> string \<Rightarrow> string \<Rightarrow> string \<Rightarrow> (string \<times> string) list \<Rightarrow> string" where
  "enc_fields cur pad nl sep kts =
     (if kts = [] then ''{}''
      else ''{'' @ nl @ enc_lines pad nl (map (\<lambda>(k, t). k @ sep @ t) kts) @ cur @ ''}'')"

text \<open>The buffer of the indentation holds 1039 characters.\<close>

definition pad_text :: "string \<Rightarrow> string \<Rightarrow> string" where
  "pad_text cur indent = take 1039 (cur @ indent)"

definition payload_named :: "vvariant \<Rightarrow> nat \<Rightarrow> bool" where
  "payload_named va n \<longleftrightarrow> va_fields va \<noteq> [] \<and> list_all (\<lambda>f. f \<noteq> []) (take n (va_fields va))"

text \<open>An encoding is the text and whether something was too deep to be written.\<close>

definition seq_out :: "string \<Rightarrow> string \<Rightarrow> string \<Rightarrow> (string \<times> bool) list \<Rightarrow> string \<times> bool" where
  "seq_out cur pad nl rs = (enc_seq cur pad nl (map fst rs), list_ex snd rs)"

definition fields_out :: "string \<Rightarrow> string \<Rightarrow> string \<Rightarrow> string \<Rightarrow> (string \<times> string \<times> bool) list \<Rightarrow> string \<times> bool" where
  "fields_out cur pad nl sep krs =
     (enc_fields cur pad nl sep (map (\<lambda>(k, r). (k, fst r)) krs), list_ex (\<lambda>(k, r). snd r) krs)"

function json_enc :: "show_env \<Rightarrow> nat \<Rightarrow> string \<Rightarrow> string \<Rightarrow> val \<Rightarrow> string \<times> bool" where
  "json_enc E d indent cur v =
     (if JE_MAX_DEPTH \<le> d then (''null'', True)
      else
        let nl = (if indent \<noteq> [] then [CHR 0x0A] else []);
            pad = pad_text cur indent;
            sep = (if indent \<noteq> [] then '': '' else '':'')
        in case v of
             V_nil \<Rightarrow> (''null'', False)
           | V_unit \<Rightarrow> (''null'', False)
           | V_bool b \<Rightarrow> (if b then ''true'' else ''false'', False)
           | V_float f \<Rightarrow> (case fl_num f of FFin r \<Rightarrow> vl_tostr E 0 v | _ \<Rightarrow> ''null'', False)
           | V_int i \<Rightarrow> (vl_tostr E 0 v, False)
           | O_dec x \<Rightarrow> (vl_tostr E 0 v, False)
           | O_slice xs \<Rightarrow> seq_out cur pad nl (map (json_enc E (d + 1) indent pad) xs)
           | O_tuple xs \<Rightarrow> seq_out cur pad nl (map (json_enc E (d + 1) indent pad) xs)
           | O_set p xs \<Rightarrow> seq_out cur pad nl (map (json_enc E (d + 1) indent pad) xs)
           | O_map p kvs \<Rightarrow>
               fields_out cur pad nl sep (map (\<lambda>(k, x). (json_str E k, json_enc E (d + 1) indent pad x)) kvs)
           | O_struct t xs \<Rightarrow>
               if ty_newtype t then (case xs of x # _ \<Rightarrow> json_enc E (d + 1) indent cur x | [] \<Rightarrow> ([], False))
               else fields_out cur pad nl sep
                 (map (\<lambda>(n, x). (json_str_text n, json_enc E (d + 1) indent pad x)) (zip (ty_fields t) xs))
           | O_enum va xs \<Rightarrow>
               if xs = [] then (json_str_text (va_variant va), False)
               else
                 let pad2 = pad_text pad indent;
                     r = (if payload_named va (length xs)
                          then fields_out pad pad2 nl sep
                            (map (\<lambda>(n, x). (json_str_text n, json_enc E (d + 1) indent pad2 x)) (zip (va_fields va) xs))
                          else seq_out pad pad2 nl (map (json_enc E (d + 1) indent pad2) xs))
                 in (''{'' @ nl @ pad @ json_str_text (va_variant va) @ sep @ fst r @ nl @ cur @ ''}'', snd r)
           | O_box x \<Rightarrow> json_enc E (d + 1) indent cur x
           | O_shared p x \<Rightarrow> json_enc E (d + 1) indent cur x
           | _ \<Rightarrow> (json_str E v, False))"
  by pat_completeness auto
termination
  by (relation "measure (\<lambda>(E, d, indent, cur, v). size v)")
    (auto simp: less_Suc_eq_le dest: size_members)

declare json_enc.simps [simp del]

definition vl_json_encode :: "show_env \<Rightarrow> val \<Rightarrow> bool \<Rightarrow> string result" where
  "vl_json_encode E v pretty =
     (case json_enc E 0 (if pretty then ''  '' else []) [] v of
        (out, deep) \<Rightarrow>
          if deep then Inl (Throw ''ValueError'' ''json.encode: the value nests deeper than 512 levels'')
          else Inr out)"

subsection \<open>Parsing\<close>

datatype 'a jres = JErr string nat | JOk 'a nat

definition JD_MAX_DEPTH :: nat where "JD_MAX_DEPTH = 512"

definition json_space :: "char \<Rightarrow> bool" where
  "json_space c \<longleftrightarrow> c = CHR '' '' \<or> c = CHR 0x0A \<or> c = CHR 0x09 \<or> c = CHR 0x0D"

definition jskip :: "string \<Rightarrow> nat \<Rightarrow> nat" where
  "jskip s i = i + length (takeWhile json_space (drop i s))"

text \<open>\<^verbatim>\<open>p->i < p->n && p->s[p->i] == c\<close>.\<close>

definition at_char :: "string \<Rightarrow> nat \<Rightarrow> char \<Rightarrow> bool" where
  "at_char s i c \<longleftrightarrow> i < length s \<and> s ! i = c"

definition hexv :: "char \<Rightarrow> int" where
  "hexv c =
     (if 48 \<le> byte c \<and> byte c \<le> 57 then int (byte c) - 48
      else if 97 \<le> byte c \<and> byte c \<le> 102 then int (byte c) - 97 + 10
      else if 65 \<le> byte c \<and> byte c \<le> 70 then int (byte c) - 65 + 10
      else - 1)"

definition read4 :: "string \<Rightarrow> nat \<Rightarrow> nat jres" where
  "read4 s i =
     (if length s < i + 4 then JErr (''truncated '' @ [CHR 0x5C] @ ''u escape'') i
      else if list_ex (\<lambda>c. hexv c < 0) (take 4 (drop i s)) then
        JErr (''bad hex digit in a '' @ [CHR 0x5C] @ ''u escape'') i
      else JOk (foldl (\<lambda>v c. v * 16 + nat (hexv c)) 0 (take 4 (drop i s))) (i + 4))"

definition put_utf8 :: "nat \<Rightarrow> string" where
  "put_utf8 r =
     map char_of
       (if r < 0x80 then [r]
        else if r < 0x800 then [0xC0 OR drop_bit 6 r, 0x80 OR (r AND 0x3F)]
        else if r < 0x10000 then [0xE0 OR drop_bit 12 r, 0x80 OR (drop_bit 6 r AND 0x3F), 0x80 OR (r AND 0x3F)]
        else [0xF0 OR drop_bit 18 r, 0x80 OR (drop_bit 12 r AND 0x3F), 0x80 OR (drop_bit 6 r AND 0x3F),
          0x80 OR (r AND 0x3F)])"

text \<open>The search for the closing quote: where it stops, and whether it met a backslash.\<close>

function find_quote :: "string \<Rightarrow> nat \<Rightarrow> bool \<Rightarrow> nat \<times> bool" where
  "find_quote s e escaped =
     (if length s \<le> e \<or> s ! e = CHR 0x22 \<or> byte (s ! e) < 0x20 then (e, escaped)
      else if s ! e = CHR 0x5C then find_quote s (e + 2) True
      else find_quote s (e + 1) escaped)"
  by auto
termination by (relation "measure (\<lambda>(s, e, b). length s - e)") auto

declare find_quote.simps [simp del]

fun json_unesc :: "char \<Rightarrow> char option" where
  "json_unesc c =
     (if c = CHR 0x22 then Some CHR 0x22
      else if c = CHR 0x5C then Some CHR 0x5C
      else if c = CHR ''/'' then Some CHR ''/''
      else if c = CHR ''b'' then Some CHR 0x08
      else if c = CHR ''f'' then Some CHR 0x0C
      else if c = CHR ''n'' then Some CHR 0x0A
      else if c = CHR ''r'' then Some CHR 0x0D
      else if c = CHR ''t'' then Some CHR 0x09
      else None)"

definition high_surrogate :: "nat \<Rightarrow> bool" where
  "high_surrogate r \<longleftrightarrow> 0xD800 \<le> r \<and> r \<le> 0xDBFF"

definition low_surrogate :: "nat \<Rightarrow> bool" where
  "low_surrogate r \<longleftrightarrow> 0xDC00 \<le> r \<and> r \<le> 0xDFFF"

definition surrogate :: "nat \<Rightarrow> bool" where
  "surrogate r \<longleftrightarrow> 0xD800 \<le> r \<and> r \<le> 0xDFFF"

text \<open>The escape \<^verbatim>\<open>\u\<close> after its \<^verbatim>\<open>u\<close>: the bytes it stands for.\<close>

definition unicode_escape :: "string \<Rightarrow> nat \<Rightarrow> string jres" where
  "unicode_escape s i =
     (case read4 s i of
        JErr w a \<Rightarrow> JErr w a
      | JOk r j \<Rightarrow>
          if high_surrogate r \<and> j + 6 \<le> length s \<and> s ! j = CHR 0x5C \<and> s ! (j + 1) = CHR ''u'' then
            (case read4 s (j + 2) of
               JErr w a \<Rightarrow> JErr w a
             | JOk lo k \<Rightarrow>
                 if low_surrogate lo then
                   JOk (put_utf8 (0x10000 + push_bit 10 (r - 0xD800) + (lo - 0xDC00))) k
                 else JOk (put_utf8 0xFFFD @ put_utf8 (if surrogate lo then 0xFFFD else lo)) k)
          else JOk (put_utf8 (if surrogate r then 0xFFFD else r)) j)"

lemma read4_index: "read4 s i = JOk r j \<Longrightarrow> j = i + 4"
  by (auto simp: read4_def split: if_splits)

lemma unicode_escape_index: "unicode_escape s i = JOk b j \<Longrightarrow> i < j"
  by (auto simp: unicode_escape_def split: jres.splits if_splits dest!: read4_index)

function jstr_loop :: "string \<Rightarrow> nat \<Rightarrow> string \<Rightarrow> string jres" where
  "jstr_loop s i buf =
     (if length s \<le> i \<or> s ! i = CHR 0x22 then JOk buf i
      else if byte (s ! i) < 0x20 then JErr ''control character in a string'' i
      else if s ! i \<noteq> CHR 0x5C then jstr_loop s (i + 1) (buf @ [s ! i])
      else if length s \<le> i + 1 then JOk buf (i + 1)
      else (case json_unesc (s ! (i + 1)) of
              Some b \<Rightarrow> jstr_loop s (i + 2) (buf @ [b])
            | None \<Rightarrow>
                if s ! (i + 1) = CHR ''u'' then
                  (case unicode_escape s (i + 2) of
                     JErr w a \<Rightarrow> JErr w a
                   | JOk b j \<Rightarrow> jstr_loop s j (buf @ b))
                else JErr ''unknown escape in a string'' (i + 1)))"
  by auto
termination by (relation "measure (\<lambda>(s, i, buf). length s - i)") (auto dest: unicode_escape_index)

declare jstr_loop.simps [simp del]

definition jstring :: "string \<Rightarrow> nat \<Rightarrow> string jres" where
  "jstring s i =
     (if \<not> at_char s i CHR 0x22 then JErr ''expected a string'' i
      else
        let start = i + 1; (e, escaped) = find_quote s start False
        in if \<not> escaped \<and> at_char s e CHR 0x22 then JOk (take (e - start) (drop start s)) (e + 1)
           else (case jstr_loop s start [] of
                   JErr w a \<Rightarrow> JErr w a
                 | JOk buf j \<Rightarrow> if length s \<le> j then JErr ''unterminated string'' j else JOk buf (j + 1)))"

subsection \<open>Numbers\<close>

definition at_digit :: "string \<Rightarrow> nat \<Rightarrow> bool" where
  "at_digit s i \<longleftrightarrow> i < length s \<and> is_digit (s ! i)"

definition skip_digits :: "string \<Rightarrow> nat \<Rightarrow> nat" where
  "skip_digits s i = i + length (takeWhile is_digit (drop i s))"

text \<open>The parts after the integer: whether there is one, and the index after it.\<close>

definition jfrac :: "string \<Rightarrow> nat \<Rightarrow> bool jres" where
  "jfrac s i =
     (if \<not> at_char s i CHR ''.'' then JOk False i
      else if \<not> at_digit s (i + 1) then JErr ''a fraction needs a digit after the point'' (i + 1)
      else JOk True (skip_digits s (i + 1)))"

definition jexpo :: "string \<Rightarrow> nat \<Rightarrow> bool jres" where
  "jexpo s i =
     (if \<not> (at_char s i CHR ''e'' \<or> at_char s i CHR ''E'') then JOk False i
      else
        let j = (if at_char s (i + 1) CHR ''+'' \<or> at_char s (i + 1) CHR ''-'' then i + 2 else i + 1)
        in if \<not> at_digit s j then JErr ''an exponent needs a digit'' j
           else JOk True (skip_digits s j))"

definition number_value :: "string \<Rightarrow> bool \<Rightarrow> val option" where
  "number_value tmp isint =
     (let n = (case strtoll_all tmp of Some n \<Rightarrow> n | None \<Rightarrow> 0)
      in if isint \<and> i64 n then Some (V_int n) else map_option O_dec (vl_dec_try_parse tmp))"

definition jnumber :: "string \<Rightarrow> nat \<Rightarrow> val jres" where
  "jnumber s start =
     (let i = (if at_char s start CHR ''-'' then start + 1 else start)
      in if \<not> at_digit s i then JErr ''invalid value'' i
         else if s ! i = CHR ''0'' \<and> at_digit s (i + 1) then
           JErr ''a number may not have a leading zero'' (i + 1)
         else
           (case jfrac s (if s ! i = CHR ''0'' then i + 1 else skip_digits s i) of
              JErr w a \<Rightarrow> JErr w a
            | JOk fr j \<Rightarrow>
                (case jexpo s j of
                   JErr w a \<Rightarrow> JErr w a
                 | JOk ex k \<Rightarrow>
                     (case number_value (take (k - start) (drop start s)) (\<not> fr \<and> \<not> ex) of
                        Some v \<Rightarrow> JOk v k
                      | None \<Rightarrow> JErr ''number out of range (the exponent is beyond 999999999)'' start))))"

subsection \<open>Values\<close>

definition jlit :: "string \<Rightarrow> nat \<Rightarrow> string \<Rightarrow> val \<Rightarrow> val jres" where
  "jlit s i word v =
     (if length s - i < length word \<or> take (length word) (drop i s) \<noteq> word then JErr ''invalid value'' i
      else JOk v (i + length word))"

partial_function (option) jarray_loop ::
  "(nat \<Rightarrow> val jres option) \<Rightarrow> string \<Rightarrow> val list \<Rightarrow> nat \<Rightarrow> val list jres option" where
  "jarray_loop vp s a i =
     Option.bind (vp i) (\<lambda>r. case r of
        JErr w e \<Rightarrow> Some (JErr w e)
      | JOk v j \<Rightarrow>
          let j = jskip s j
          in if at_char s j CHR '','' then jarray_loop vp s (a @ [v]) (j + 1)
             else if at_char s j CHR '']'' then Some (JOk (a @ [v]) (j + 1))
             else Some (JErr ''expected `,` or `]` in an array'' j))"

declare jarray_loop.simps [code]

definition jarray :: "(nat \<Rightarrow> val jres option) \<Rightarrow> string \<Rightarrow> nat \<Rightarrow> val jres option" where
  "jarray vp s i =
     (let i = jskip s (i + 1)
      in if at_char s i CHR '']'' then Some (JOk (O_slice []) (i + 1))
         else map_option (\<lambda>r. case r of JErr w e \<Rightarrow> JErr w e | JOk xs j \<Rightarrow> JOk (O_slice xs) j) (jarray_loop vp s [] i))"

text \<open>\<open>st\<close> stores a member in the map under construction.\<close>

partial_function (option) jobject_loop ::
  "(nat \<Rightarrow> val jres option) \<Rightarrow> (vmap \<Rightarrow> val \<Rightarrow> val \<Rightarrow> vmap option) \<Rightarrow> string \<Rightarrow> vmap \<Rightarrow> nat \<Rightarrow> vmap jres option" where
  "jobject_loop vp st s m i =
     (case jstring s (jskip s i) of
        JErr w e \<Rightarrow> Some (JErr w e)
      | JOk k j \<Rightarrow>
          let j = jskip s j
          in if \<not> at_char s j CHR '':'' then Some (JErr ''expected `:` after an object key'' j)
             else Option.bind (vp (j + 1)) (\<lambda>r. case r of
                    JErr w e \<Rightarrow> Some (JErr w e)
                  | JOk v j \<Rightarrow>
                      Option.bind (st m (O_str k) v) (\<lambda>m.
                        let j = jskip s j
                        in if at_char s j CHR '','' then jobject_loop vp st s m (j + 1)
                           else if at_char s j CHR ''}'' then Some (JOk m (j + 1))
                           else Some (JErr ''expected `,` or `}` in an object'' j))))"

declare jobject_loop.simps [code]

text \<open>The map that begins at index \<open>i\<close> has the address \<open>ma i\<close>.\<close>

definition jobject ::
  "(nat \<Rightarrow> val jres option) \<Rightarrow> (vmap \<Rightarrow> val \<Rightarrow> val \<Rightarrow> vmap option) \<Rightarrow> (nat \<Rightarrow> addr) \<Rightarrow> string \<Rightarrow> nat \<Rightarrow> val jres option" where
  "jobject vp st ma s i0 =
     (let i = jskip s (i0 + 1)
      in if at_char s i CHR ''}'' then Some (JOk (O_map (ma i0) []) (i + 1))
         else map_option (\<lambda>r. case r of JErr w e \<Rightarrow> JErr w e | JOk m j \<Rightarrow> JOk (O_map (ma i0) (map_al m)) j)
           (jobject_loop vp st s (new_map False) i))"

function jvalue :: "(addr \<Rightarrow> string) \<Rightarrow> (nat \<Rightarrow> addr) \<Rightarrow> string \<Rightarrow> nat \<Rightarrow> nat \<Rightarrow> val jres option" where
  "jvalue pt ma s depth i0 =
     (let i = jskip s i0
      in if length s \<le> i then Some (JErr ''unexpected end of input'' i)
         else if JD_MAX_DEPTH \<le> depth then Some (JErr ''nested too deeply'' i)
         else if s ! i = CHR ''{'' then
           jobject (\<lambda>j. jvalue pt ma s (depth + 1) j) (vl_map_set vl_equal (vl_hash pt)) ma s i
         else if s ! i = CHR ''['' then jarray (\<lambda>j. jvalue pt ma s (depth + 1) j) s i
         else if s ! i = CHR 0x22 then
           Some (case jstring s i of JErr w e \<Rightarrow> JErr w e | JOk t j \<Rightarrow> JOk (O_str t) j)
         else if s ! i = CHR ''t'' then Some (jlit s i ''true'' (V_bool True))
         else if s ! i = CHR ''f'' then Some (jlit s i ''false'' (V_bool False))
         else if s ! i = CHR ''n'' then Some (jlit s i ''null'' V_nil)
         else Some (jnumber s i))"
  by auto
termination by (relation "measure (\<lambda>(pt, ma, s, depth, i). JD_MAX_DEPTH - depth)") auto

declare jvalue.simps [simp del]

text \<open>The whole text: nothing may follow the value.\<close>

definition json_parse :: "(addr \<Rightarrow> string) \<Rightarrow> (nat \<Rightarrow> addr) \<Rightarrow> string \<Rightarrow> val jres option" where
  "json_parse pt ma s =
     map_option (\<lambda>r. case r of
         JErr w e \<Rightarrow> JErr w e
       | JOk v j \<Rightarrow> if jskip s j < length s then JErr ''unexpected text after the value'' (jskip s j) else JOk v (jskip s j))
       (jvalue pt ma s 0 0)"

text \<open>A position as a line and a column.\<close>

definition line_col :: "string \<Rightarrow> nat \<Rightarrow> nat \<times> nat" where
  "line_col s e = foldl (\<lambda>(l, c) ch. if ch = CHR 0x0A then (l + 1, 1) else (l, c + 1)) (1, 1) (take e s)"

definition vl_json_decode :: "(addr \<Rightarrow> string) \<Rightarrow> (nat \<Rightarrow> addr) \<Rightarrow> string \<Rightarrow> (string + val) option" where
  "vl_json_decode pt ma s =
     map_option (\<lambda>r. case r of
         JOk v j \<Rightarrow> Inr v
       | JErr w e \<Rightarrow>
           (case line_col s e of (l, c) \<Rightarrow>
             Inl (take 255 (''bad JSON at line '' @ nat_text l @ '', column '' @ nat_text c @ '': '' @ w))))
       (json_parse pt ma s)"

subsection \<open>Positions as suffixes\<close>

text \<open>The index at which the rest of the text is \<open>r\<close>.\<close>

definition idx :: "string \<Rightarrow> string \<Rightarrow> nat" where
  "idx s r = length s - length r"

named_theorems pos_simps

lemma drop_idx [pos_simps]: "suffix r s \<Longrightarrow> drop (idx s r) s = r"
  by (auto simp: suffix_def idx_def)

lemma idx_Cons [pos_simps]: "suffix (c # r) s \<Longrightarrow> Suc (idx s (c # r)) = idx s r"
  by (auto simp: suffix_def idx_def)

lemma idx_append: "suffix (x @ r) s \<Longrightarrow> idx s (x @ r) + length x = idx s r"
  by (auto simp: suffix_def idx_def)

lemma idx_nth [pos_simps]: "suffix (c # r) s \<Longrightarrow> s ! idx s (c # r) = c"
  by (auto simp: suffix_def idx_def nth_append)

lemma idx_end [pos_simps]: "suffix r s \<Longrightarrow> length s \<le> idx s r \<longleftrightarrow> r = []"
  by (auto simp: suffix_def idx_def)

lemma idx_Nil [simp]: "idx s [] = length s"
  by (simp add: idx_def)

lemma suffix_ConsE: "suffix (c # r) s \<Longrightarrow> suffix r s"
  by (auto simp: suffix_def)

lemma suffix_rest: "suffix (x @ r) s \<Longrightarrow> suffix r s"
  by (auto simp: suffix_def)

lemma at_char_idx: "suffix r s \<Longrightarrow> at_char s (idx s r) c \<longleftrightarrow> r \<noteq> [] \<and> hd r = c"
  by (cases r) (auto simp: at_char_def pos_simps idx_nth dest: idx_end)

lemma at_char_Cons [simp]: "suffix (x # r) s \<Longrightarrow> at_char s (idx s (x # r)) c \<longleftrightarrow> x = c"
  by (simp add: at_char_idx)

lemma not_at_end [simp]: "\<not> at_digit s (length s)" "\<not> at_char s (length s) c"
  by (simp_all add: at_digit_def at_char_def)

lemma at_digit_idx: "suffix r s \<Longrightarrow> at_digit s (idx s r) \<longleftrightarrow> r \<noteq> [] \<and> is_digit (hd r)"
  by (cases r) (auto simp: at_digit_def pos_simps idx_nth dest: idx_end)

lemma jskip_idx:
  assumes "suffix (w @ r) s" "list_all json_space w" "r = [] \<or> \<not> json_space (hd r)"
  shows "jskip s (idx s (w @ r)) = idx s r"
proof -
  have "takeWhile json_space (w @ r) = w" using assms(2,3) by (intro takeWhile_run(1)) (auto simp: list_all_iff)
  then show ?thesis using assms(1) by (simp add: jskip_def drop_idx idx_append)
qed

lemma skip_digits_idx:
  assumes "suffix (w @ r) s" "list_all is_digit w" "r = [] \<or> \<not> is_digit (hd r)"
  shows "skip_digits s (idx s (w @ r)) = idx s r"
proof -
  have "takeWhile is_digit (w @ r) = w" using assms(2,3) by (intro takeWhile_run(1)) (auto simp: list_all_iff)
  then show ?thesis using assms(1) by (simp add: skip_digits_def drop_idx idx_append)
qed

lemma take_idx: "suffix (x @ r) s \<Longrightarrow> take (idx s r - idx s (x @ r)) (drop (idx s (x @ r)) s) = x"
  using idx_append [of x r s] by (simp add: drop_idx)

subsection \<open>Strings\<close>

definition esc_text :: "char \<Rightarrow> string" where
  "esc_text c = (case json_esc c of None \<Rightarrow> [c] | Some e \<Rightarrow> e)"

lemma json_runs_concat: "json_runs cs run = run @ concat (map esc_text cs)"
  by (induction cs run rule: json_runs.induct) (simp_all add: esc_text_def split: option.splits)

lemma hexv_digit: "k < 16 \<Longrightarrow> hexv (''0123456789abcdef'' ! k) = int k"
proof -
  have "list_all (\<lambda>k. hexv (''0123456789abcdef'' ! k) = int k) [0..<16]" by code_simp
  then show "k < 16 \<Longrightarrow> ?thesis" by (simp add: list_all_iff)
qed

lemma read4_hex4:
  assumes "c < 16 ^ 4" "suffix (hex4 c @ r) s"
  shows "read4 s (idx s (hex4 c @ r)) = JOk c (idx s r)"
proof -
  have l: "length (hex4 c) = 4" by (simp add: hex4_def)
  have n: "\<not> length s < idx s (hex4 c @ r) + 4" using assms(2) l by (auto simp: suffix_def idx_def)
  have t: "take 4 (drop (idx s (hex4 c @ r)) s) = hex4 c" using assms(2) l by (simp add: drop_idx)
  have e: "c div 4096 mod 16 = c div 4096" using assms(1) by (simp add: less_mult_imp_div_less)
  have e1: "c div 16 * 16 + c mod 16 = c" by (rule div_mult_mod_eq)
  have e2: "c div 256 * 16 + c div 16 mod 16 = c div 16"
    using div_mult_mod_eq [of "c div 16" 16] by (simp only: div_mult2_eq [symmetric] mult_numeral_left semiring_norm)
  have e3: "c div 4096 * 16 + c div 256 mod 16 = c div 256"
    using div_mult_mod_eq [of "c div 256" 16] by (simp only: div_mult2_eq [symmetric] mult_numeral_left semiring_norm)
  have v: "((c div 4096 mod 16 * 16 + c div 256 mod 16) * 16 + c div 16 mod 16) * 16 + c mod 16 = c"
    by (simp only: e e3 e2 e1)
  define H where "H k = ''0123456789abcdef'' ! k" for k :: nat
  have H: "hexv (H k) = int k" if "k < 16" for k using hexv_digit [OF that] by (simp add: H_def)
  have h: "hex4 c = [H (c div 4096 mod 16), H (c div 256 mod 16), H (c div 16 mod 16), H (c mod 16)]"
    by (simp add: hex4_def H_def)
  have "\<not> list_ex (\<lambda>c. hexv c < 0) (hex4 c)" by (simp add: h H)
  moreover have "foldl (\<lambda>v c. v * 16 + nat (hexv c)) 0 (hex4 c) = c"
    using v assms(1) by (simp add: h H e less_mult_imp_div_less)
  ultimately show ?thesis
    using idx_append [OF assms(2)] l by (simp add: read4_def n t) (simp add: idx_def)
qed

lemma byte_of_char_of [simp]: "n < 256 \<Longrightarrow> char_of (n :: nat) = c \<longleftrightarrow> n = byte c"
  by (metis char_of_char mod_less of_char_of)

lemma put_utf8_byte: "byte c < 0x80 \<Longrightarrow> put_utf8 (byte c) = [c]"
  by (simp add: put_utf8_def)

text \<open>One character and its escape, in the loop of the parser.\<close>

lemma jstr_loop_char:
  assumes "suffix (esc_text c @ r) s"
  shows "jstr_loop s (idx s (esc_text c @ r)) buf = jstr_loop s (idx s r) (buf @ [c])"
proof (cases "json_esc c")
  case None
  then have e: "esc_text c = [c]" by (simp add: esc_text_def)
  have c: "c \<noteq> CHR 0x22" "c \<noteq> CHR 0x5C" "\<not> byte c < 0x20"
    using None by (auto simp: json_esc_def split: if_splits)
  show ?thesis
    using assms c idx_end [of "c # r" s] by (subst jstr_loop.simps) (simp add: e idx_nth idx_Cons)
next
  case (Some e)
  then have e: "esc_text c = e" by (simp add: esc_text_def)
  obtain x t where x: "e = CHR 0x5C # x # t" using Some by (auto simp: json_esc_def hex4_def split: if_splits)
  have s1: "suffix (CHR 0x5C # x # t @ r) s" "suffix (x # t @ r) s" "suffix (t @ r) s"
    using assms by (auto simp: e x dest: suffix_ConsE)
  have n: "s ! idx s (CHR 0x5C # x # t @ r) = CHR 0x5C" "s ! Suc (idx s (CHR 0x5C # x # t @ r)) = x"
    "Suc (Suc (idx s (CHR 0x5C # x # t @ r))) = idx s (t @ r)"
    "\<not> length s \<le> idx s (CHR 0x5C # x # t @ r)" "\<not> length s \<le> Suc (idx s (CHR 0x5C # x # t @ r))"
    using s1 idx_end [OF s1(1)] idx_end [OF s1(2)] by (simp_all add: idx_nth idx_Cons)
  show ?thesis
  proof (cases "x = CHR ''u''")
    case True
    then have t: "t = hex4 (byte c)" and c: "byte c < 0x20"
      using Some x by (auto simp: json_esc_def split: if_splits)
    then have r4: "read4 s (idx s (t @ r)) = JOk (byte c) (idx s r)"
      using s1(3) by (simp add: read4_hex4)
    have "unicode_escape s (idx s (t @ r)) = JOk [c] (idx s r)"
      using c by (simp add: unicode_escape_def r4 high_surrogate_def surrogate_def put_utf8_byte)
    then show ?thesis
      using True n by (subst jstr_loop.simps) (simp add: e x)
  next
    case False
    then have "t = [] \<and> json_unesc x = Some c"
      using Some x by (auto simp: json_esc_def split: if_splits)
    then show ?thesis using n by (subst jstr_loop.simps) (simp add: e x del: json_unesc.simps)
  qed
qed

lemma jstr_loop_text:
  "suffix (concat (map esc_text t) @ CHR 0x22 # r) s \<Longrightarrow>
   jstr_loop s (idx s (concat (map esc_text t) @ CHR 0x22 # r)) buf = JOk (buf @ t) (idx s (CHR 0x22 # r))"
proof (induction t arbitrary: buf)
  case Nil
  then show ?case by (subst jstr_loop.simps) (simp add: idx_nth)
next
  case (Cons c t)
  then show ?case
    using jstr_loop_char [of c "concat (map esc_text t) @ CHR 0x22 # r" s buf] by (simp add: suffix_rest)
qed

text \<open>The scan for the closing quote over escaped text.\<close>

lemma find_quote_plain:
  assumes "suffix (w @ r) s" "list_all (\<lambda>c. c \<noteq> CHR 0x22 \<and> c \<noteq> CHR 0x5C \<and> 0x20 \<le> byte c) w"
  shows "find_quote s (idx s (w @ r)) b = find_quote s (idx s r) b"
  using assms
proof (induction w)
  case (Cons c w)
  have "\<not> length s \<le> idx s (c # w @ r)" using Cons.prems(1) idx_end [of "c # w @ r" s] by simp
  then show ?case
    using Cons by (subst find_quote.simps) (auto simp: idx_nth idx_Cons dest: suffix_ConsE)
qed simp

lemma hex4_plain: "c < 16 ^ 4 \<Longrightarrow> list_all (\<lambda>c. c \<noteq> CHR 0x22 \<and> c \<noteq> CHR 0x5C \<and> 0x20 \<le> byte c) (hex4 c)"
proof -
  have "list_all (\<lambda>k. ''0123456789abcdef'' ! k \<noteq> CHR 0x22 \<and> ''0123456789abcdef'' ! k \<noteq> CHR 0x5C \<and>
      0x20 \<le> byte (''0123456789abcdef'' ! k)) [0..<16]" by code_simp
  then show ?thesis by (simp add: hex4_def list_all_iff)
qed

lemma find_quote_char:
  assumes "suffix (esc_text c @ r) s"
  shows "find_quote s (idx s (esc_text c @ r)) b = find_quote s (idx s r) (b \<or> json_esc c \<noteq> None)"
proof (cases "json_esc c")
  case None
  then have "esc_text c = [c]" "c \<noteq> CHR 0x22" "c \<noteq> CHR 0x5C" "\<not> byte c < 0x20"
    by (auto simp: esc_text_def json_esc_def split: if_splits)
  then show ?thesis using find_quote_plain [of "[c]" r s b] assms None by simp
next
  case (Some e)
  then have e: "esc_text c = e" by (simp add: esc_text_def)
  obtain x t where x: "e = CHR 0x5C # x # t" and t: "t = [] \<or> t = hex4 (byte c)"
    using Some by (auto simp: json_esc_def split: if_splits)
  have s1: "suffix (CHR 0x5C # x # t @ r) s" "suffix (x # t @ r) s" "suffix (t @ r) s"
    using assms by (auto simp: e x dest: suffix_ConsE)
  have "find_quote s (idx s (CHR 0x5C # x # t @ r)) b = find_quote s (idx s (t @ r)) True"
    using s1 idx_end [OF s1(1)] by (subst find_quote.simps) (simp add: idx_nth idx_Cons)
  also have "\<dots> = find_quote s (idx s r) True"
    using t find_quote_plain [OF s1(3)] hex4_plain [of "byte c"] byte_less [of c] by auto
  finally show ?thesis by (simp add: e x Some)
qed

lemma find_quote_text:
  "suffix (concat (map esc_text t) @ CHR 0x22 # r) s \<Longrightarrow>
   find_quote s (idx s (concat (map esc_text t) @ CHR 0x22 # r)) b =
     (idx s (CHR 0x22 # r), b \<or> list_ex (\<lambda>c. json_esc c \<noteq> None) t)"
proof (induction t arbitrary: b)
  case Nil
  then show ?case by (subst find_quote.simps) (simp add: idx_nth)
next
  case (Cons c t)
  then show ?case
    using find_quote_char [of c "concat (map esc_text t) @ CHR 0x22 # r" s b] by (simp add: suffix_rest)
qed

lemma jstring_text:
  assumes "suffix (json_str_text t @ r) s"
  shows "jstring s (idx s (json_str_text t @ r)) = JOk t (idx s r)"
proof -
  let ?q = "concat (map esc_text t) @ CHR 0x22 # r"
  have j: "json_str_text t @ r = CHR 0x22 # ?q" by (simp add: json_str_text_def json_runs_concat)
  have s1: "suffix (CHR 0x22 # ?q) s" "suffix ?q s" "suffix (CHR 0x22 # r) s"
    using assms j by (auto dest: suffix_ConsE suffix_rest)
  have nl: "\<not> length s \<le> idx s (CHR 0x22 # r)" using idx_end [OF s1(3)] by simp
  show ?thesis
  proof (cases "list_ex (\<lambda>c. json_esc c \<noteq> None) t")
    case True
    then show ?thesis
      using s1 nl by (simp add: j jstring_def idx_Cons find_quote_text jstr_loop_text)
  next
    case False
    then have "esc_text c = [c]" if "c \<in> set t" for c using that by (auto simp: list_ex_iff esc_text_def)
    then have c: "concat (map esc_text t) = t" by (induction t) simp_all
    then show ?thesis
      using s1 False take_idx [of t "CHR 0x22 # r" s] find_quote_text [OF s1(2), of False]
      by (simp add: j jstring_def idx_Cons)
  qed
qed

subsection \<open>Integers\<close>

lemma int_digits_hd: "0 < m \<Longrightarrow> int_digits m buf \<noteq> [] \<and> hd (int_digits m buf) \<noteq> 0"
proof (induction m buf rule: int_digits.induct)
  case (1 m buf)
  show ?case
  proof (cases "m div 10 = 0")
    case True
    then have "m mod 10 = m" "int_digits (m div 10) (m mod 10 # buf) = m mod 10 # buf"
      by (simp_all add: int_digits.simps div_eq_0_iff)
    then show ?thesis using 1 by (simp add: int_digits.simps [of m buf])
  next
    case False
    then show ?thesis using 1 by (simp add: int_digits.simps [of m buf])
  qed
qed

lemma nat_text_digits:
  "list_all is_digit (nat_text k)" "nat_text k \<noteq> []" "dval (map digit_val (nat_text k)) = k"
  "hd (nat_text k) = CHR ''0'' \<Longrightarrow> nat_text k = ''0''"
proof -
  let ?ds = "if k = 0 then [0] else int_digits k []"
  have d: "digits ?ds" "dval ?ds = k" using int_digits_props [of "[]" k] by auto
  have n: "?ds \<noteq> []" using int_digits_hd [of k "[]"] by auto
  show "list_all is_digit (nat_text k)"
    using d(1) by (auto simp: nat_text_def list_all_iff digits_def)
  show "nat_text k \<noteq> []" using n by (simp add: nat_text_def)
  have "map digit_val (nat_text k) = ?ds"
    using d(1) by (auto simp: nat_text_def digits_def comp_def intro!: map_idI)
  then show "dval (map digit_val (nat_text k)) = k" using d(2) by simp
  assume h: "hd (nat_text k) = CHR ''0''"
  show "nat_text k = ''0''"
  proof (cases "k = 0")
    case True
    then show ?thesis by (simp add: nat_text_def digit_char_0)
  next
    case False
    then have "hd ?ds \<noteq> 0" "hd ?ds < 10" using int_digits_hd [of k "[]"] d(1) n by (auto simp: digits_def)
    moreover have "hd (nat_text k) = digit_char (hd ?ds)" using n by (simp add: nat_text_def hd_map)
    ultimately have "digit_val CHR ''0'' \<noteq> 0" using h digit_char_props(2) [of "hd ?ds"] by metis
    then show ?thesis by (simp add: digit_val_def)
  qed
qed

lemma strtoll_int_text: "strtoll_all (int_text n) = Some n"
proof -
  let ?t = "nat_text (nat \<bar>n\<bar>)"
  obtain c u where cu: "?t = c # u" using nat_text_digits(2) by (meson neq_Nil_conv)
  have c: "is_digit c" using nat_text_digits(1) [of "nat \<bar>n\<bar>"] cu by simp
  then have "c \<noteq> CHR ''-''" "c \<noteq> CHR ''+''" "\<not> is_space c" by (auto simp: is_space_def is_digit_def)
  moreover have "\<not> is_space CHR ''-''" by (simp add: is_space_def)
  ultimately have "strtoll_all (int_text n) =
    (if list_all is_digit ?t then Some ((if n < 0 then - 1 else 1) * int (dval (map digit_val ?t))) else None)"
    by (simp add: strtoll_all_def int_text_def cu)
  then show ?thesis using nat_text_digits(1,3) [of "nat \<bar>n\<bar>"] by simp
qed

text \<open>What may follow a value.\<close>

definition delim :: "string \<Rightarrow> bool" where
  "delim r \<longleftrightarrow> r = [] \<or> (hd r \<noteq> CHR ''.'' \<and> hd r \<noteq> CHR ''e'' \<and> hd r \<noteq> CHR ''E'' \<and> \<not> is_digit (hd r))"

lemma jnumber_int:
  assumes "i64 n" "suffix (int_text n @ r) s" "delim r"
  shows "jnumber s (idx s (int_text n @ r)) = JOk (V_int n) (idx s r)"
proof -
  let ?k = "nat \<bar>n\<bar>" let ?t = "nat_text ?k"
  obtain c u where cu: "?t = c # u" using nat_text_digits(2) by (meson neq_Nil_conv)
  have dig: "is_digit c" "list_all is_digit u" using nat_text_digits(1) [of ?k] cu by simp_all
  have s1: "suffix (?t @ r) s" using assms(2) unfolding int_text_def by (metis append_assoc suffix_rest)
  have s2: "suffix (u @ r) s" "suffix r s" using s1 cu by (auto dest: suffix_ConsE suffix_rest)
  have sign: "(if at_char s (idx s (int_text n @ r)) CHR ''-'' then idx s (int_text n @ r) + 1 else idx s (int_text n @ r))
      = idx s (?t @ r)"
    using assms(2) dig(1) by (auto simp: int_text_def cu idx_Cons)
  have d: "at_digit s (idx s (?t @ r))" using s1 cu dig by (simp add: at_digit_idx)
  have nth: "s ! idx s (?t @ r) = c" using s1 cu by (simp add: idx_nth)
  have z: "\<not> (c = CHR ''0'' \<and> at_digit s (idx s (?t @ r) + 1))"
  proof
    assume a: "c = CHR ''0'' \<and> at_digit s (idx s (?t @ r) + 1)"
    then have "u = []" using nat_text_digits(4) [of ?k] cu by simp
    then show False using a s1 s2 cu assms(3) by (auto simp: idx_Cons at_digit_idx delim_def)
  qed
  have skip: "(if c = CHR ''0'' then idx s (?t @ r) + 1 else skip_digits s (idx s (?t @ r))) = idx s r"
  proof (cases "c = CHR ''0''")
    case True
    then have "u = []" using nat_text_digits(4) [of ?k] cu by simp
    then show ?thesis using True s1 cu by (simp add: idx_Cons)
  next
    case False
    then show ?thesis
      using skip_digits_idx [OF s1 nat_text_digits(1)] assms(3) by (auto simp: delim_def)
  qed
  have fr: "jfrac s (idx s r) = JOk False (idx s r)" "jexpo s (idx s r) = JOk False (idx s r)"
    using s2(2) assms(3) by (auto simp: jfrac_def jexpo_def at_char_idx delim_def)
  have "number_value (int_text n) True = Some (V_int n)"
    using assms(1) by (simp add: number_value_def strtoll_int_text)
  then show ?thesis
    using z unfolding jnumber_def sign Let_def by (simp add: d nth skip fr take_idx [OF assms(2)])
qed

subsection \<open>The parser returns\<close>

lemma jskip_le: "i \<le> jskip s i"
  by (simp add: jskip_def)

lemma skip_digits_le: "i \<le> skip_digits s i"
  by (simp add: skip_digits_def)

lemma jfrac_le: "jfrac s i = JOk b j \<Longrightarrow> i \<le> j"
  using skip_digits_le [of "i + 1" s] by (auto simp: jfrac_def split: if_splits)

lemma jexpo_le: "jexpo s i = JOk b j \<Longrightarrow> i \<le> j"
  using skip_digits_le [of "i + 1" s] skip_digits_le [of "i + 2" s] by (auto simp: jexpo_def Let_def split: if_splits)

lemma jnumber_less: "jnumber s i = JOk v j \<Longrightarrow> i < j"
proof -
  assume r: "jnumber s i = JOk v j"
  define i' where "i' = (if at_char s i CHR ''-'' then i + 1 else i)"
  have "i \<le> i'" by (simp add: i'_def)
  moreover have "i' < skip_digits s i'" if "at_digit s i'"
    using that by (auto simp: skip_digits_def at_digit_def Cons_nth_drop_Suc [symmetric])
  ultimately show "i < j"
    using r unfolding jnumber_def Let_def i'_def [symmetric]
    by (auto split: if_splits jres.splits option.splits dest!: jfrac_le jexpo_le)
qed

lemma jstr_loop_le: "jstr_loop s i buf = JOk b j \<Longrightarrow> i \<le> j"
proof (induction s i buf rule: jstr_loop.induct)
  case (1 s i buf)
  then show ?case
    by (subst (asm) jstr_loop.simps)
      (fastforce simp del: json_unesc.simps split: if_splits option.splits jres.splits dest: unicode_escape_index)
qed

lemma find_quote_le: "i \<le> fst (find_quote s i b)"
proof (induction s i b rule: find_quote.induct)
  case (1 s e b)
  then show ?case by (subst find_quote.simps) auto
qed

lemma jstring_less: "jstring s i = JOk t j \<Longrightarrow> i < j"
  using find_quote_le [of "i + 1" s False]
  by (auto simp: jstring_def Let_def split: if_splits prod.splits jres.splits dest: jstr_loop_le)

lemma jlit_le: "jlit s i w v = JOk u j \<Longrightarrow> w \<noteq> [] \<Longrightarrow> i < j"
  by (auto simp: jlit_def split: if_splits)

text \<open>A parser of values that always returns and moves forward.\<close>

definition progress :: "(nat \<Rightarrow> 'a jres option) \<Rightarrow> bool" where
  "progress vp \<longleftrightarrow> (\<forall>i. \<exists>r. vp i = Some r \<and> (\<forall>v j. r = JOk v j \<longrightarrow> i < j))"

lemma at_char_less: "at_char s i c \<Longrightarrow> i < length s"
  by (simp add: at_char_def)

lemma jarray_loop_returns:
  assumes "progress vp"
  shows "\<exists>r. jarray_loop vp s a i = Some r \<and> (\<forall>xs j. r = JOk xs j \<longrightarrow> i < j)"
proof (induction "length s - i" arbitrary: a i rule: less_induct)
  case less
  obtain r where r: "vp i = Some r" "\<forall>v j. r = JOk v j \<longrightarrow> i < j" using assms unfolding progress_def by blast
  show ?case
  proof (cases r)
    case (JErr w e)
    then show ?thesis using r by (subst jarray_loop.simps) simp
  next
    case (JOk v j)
    have ij: "i < jskip s j" using r(2) JOk jskip_le [of j s] by simp
    show ?thesis
    proof (cases "at_char s (jskip s j) CHR '',''")
      case True
      then have "length s - (jskip s j + 1) < length s - i" using ij at_char_less [OF True] by simp
      from less [OF this, of "a @ [v]"] show ?thesis
        using r JOk True ij by (subst jarray_loop.simps) (auto simp: Let_def)
    next
      case False
      then show ?thesis using r JOk ij by (subst jarray_loop.simps) (simp add: Let_def)
    qed
  qed
qed

lemma jobject_loop_returns:
  assumes vp: "progress vp" and st: "\<And>m k v. good m \<Longrightarrow> \<exists>m'. st m (O_str k) v = Some m' \<and> good m'" and m: "good m"
  shows "\<exists>r. jobject_loop vp st s m i = Some r \<and> (\<forall>m' j. r = JOk m' j \<longrightarrow> i < j \<and> good m')"
  using m
proof (induction "length s - i" arbitrary: m i rule: less_induct)
  case less
  show ?case
  proof (cases "jstring s (jskip s i)")
    case (JErr w e)
    then show ?thesis by (subst jobject_loop.simps) simp
  next
    case (JOk k j)
    show ?thesis
    proof (cases "at_char s (jskip s j) CHR '':''")
      case False
      then show ?thesis using JOk by (subst jobject_loop.simps) (simp add: Let_def)
    next
      case colon: True
      obtain r where r: "vp (jskip s j + 1) = Some r" "\<forall>v l. r = JOk v l \<longrightarrow> jskip s j + 1 < l"
        using vp unfolding progress_def by blast
      have b: "jobject_loop vp st s m i = (case r of JErr w e \<Rightarrow> Some (JErr w e)
          | JOk v j \<Rightarrow> Option.bind (st m (O_str k) v) (\<lambda>m.
              let j = jskip s j
              in if at_char s j CHR '','' then jobject_loop vp st s m (j + 1)
                 else if at_char s j CHR ''}'' then Some (JOk m (j + 1))
                 else Some (JErr ''expected `,` or `}` in an object'' j)))"
        using JOk colon r(1) by (subst jobject_loop.simps, unfold Let_def) simp
      show ?thesis
      proof (cases r)
        case (JErr w e)
        then show ?thesis using b by simp
      next
        case v: (JOk v l)
        obtain m' where m': "st m (O_str k) v = Some m'" "good m'" using st [OF less.prems] by blast
        have il: "i < jskip s l"
          using r(2) v JOk jstring_less [of s "jskip s i" k j] jskip_le [of i s] jskip_le [of j s] jskip_le [of l s] by auto
        show ?thesis
        proof (cases "at_char s (jskip s l) CHR '',''")
          case True
          then have "length s - (jskip s l + 1) < length s - i" using il at_char_less [OF True] by simp
          from less.hyps [OF this m'(2)] show ?thesis using b v m'(1) True il by (auto simp: Let_def)
        next
          case False
          then show ?thesis using b v m' il by (simp add: Let_def)
        qed
      qed
    qed
  qed
qed

lemma store_member:
  assumes "good_map pt m"
  shows "\<exists>m'. vl_map_set vl_equal (vl_hash pt) m (O_str k) v = Some m' \<and> good_map pt m' \<and>
    map_al m' = al_set vl_equal (map_al m) (O_str k) v"
  using om.store_correct [OF assms, of "O_str k" v] by simp

lemma new_good_map: "good_map pt (new_map False)"
  using vk.wf_new by (simp add: good_map_def new_map_def)

lemma map_jres_progress:
  assumes "x = Some r \<and> (\<forall>v j. r = JOk v j \<longrightarrow> k < j \<and> P v)" "i \<le> k"
  shows "\<exists>r'. map_option (\<lambda>r. case r of JErr w e \<Rightarrow> JErr w e | JOk v j \<Rightarrow> JOk (f v) j) x = Some r' \<and>
    (\<forall>v j. r' = JOk v j \<longrightarrow> i < j)"
  using assms by (cases r) auto

lemma jvalue_progress: "progress (jvalue pt ma s d)"
proof (induction "JD_MAX_DEPTH - d" arbitrary: d)
  case 0
  then show ?case unfolding progress_def by (subst jvalue.simps) (auto simp: Let_def)
next
  case (Suc n)
  then have IH: "progress (jvalue pt ma s (d + 1))" by (intro Suc.hyps(1)) simp
  have ar: "\<exists>r. jarray (jvalue pt ma s (d + 1)) s i = Some r \<and> (\<forall>v j. r = JOk v j \<longrightarrow> i < j)" for i
  proof -
    obtain r where "jarray_loop (jvalue pt ma s (d + 1)) s [] (jskip s (i + 1)) = Some r \<and>
        (\<forall>v j. r = JOk v j \<longrightarrow> jskip s (i + 1) < j \<and> True)"
      using jarray_loop_returns [OF IH] by blast
    from map_jres_progress [OF this, of i O_slice] show ?thesis
      using jskip_le [of "i + 1" s] by (auto simp: jarray_def Let_def)
  qed
  have ob: "\<exists>r. jobject (jvalue pt ma s (d + 1)) (vl_map_set vl_equal (vl_hash pt)) ma s i = Some r \<and>
      (\<forall>v j. r = JOk v j \<longrightarrow> i < j)" for i
  proof -
    obtain r where "jobject_loop (jvalue pt ma s (d + 1)) (vl_map_set vl_equal (vl_hash pt)) s (new_map False) (jskip s (i + 1)) = Some r \<and>
        (\<forall>m j. r = JOk m j \<longrightarrow> jskip s (i + 1) < j \<and> good_map pt m)"
      using jobject_loop_returns [OF IH, of "good_map pt" "vl_map_set vl_equal (vl_hash pt)"] store_member new_good_map by blast
    from map_jres_progress [OF this, of i "\<lambda>m. O_map (ma i) (map_al m)"] show ?thesis
      using jskip_le [of "i + 1" s] by (auto simp: jobject_def Let_def)
  qed
  have le: "i \<le> jskip s i" for i by (rule jskip_le)
  show ?case unfolding progress_def
  proof
    fix i
    show "\<exists>r. jvalue pt ma s d i = Some r \<and> (\<forall>v j. r = JOk v j \<longrightarrow> i < j)"
      using ar [of "jskip s i"] ob [of "jskip s i"] le [of i]
      by (subst jvalue.simps)
        (auto simp: Let_def split: jres.splits dest!: jstring_less jlit_le jnumber_less)
  qed
qed

text \<open>The parser returns on every text: no loop of it runs for ever, whatever the input, and a
  decoded text is a value or an error message.\<close>

theorem json_decode_returns:
  "vl_json_decode pt ma s \<noteq> None"
  using jvalue_progress [of pt ma s 0] by (auto simp: progress_def vl_json_decode_def json_parse_def)

end
