(* ===== verification/JsonRound.thy ===== *)
theory JsonRound
  imports Json
begin

section \<open>JSON documents are read back as they were written\<close>

text \<open>
  A \<open>doc\<close> is a document of the specification: null, a boolean, an \<open>int\<close>, a text, an array or an object with
  distinct names.  Floats (whose text is the C library's), decimals and an object that repeats a name are
  outside it.  \<open>doc_val\<close> is the value that holds a document, \<open>doc_ok\<close> what the runtime guarantees of it,
  \<open>height\<close> its nesting, which the parser limits.  The round trip is proved on the bytes, by induction on the
  document, with and without indentation.  The last section shows that the buffer for a decoded text,
  sized by a first scan, is never written beyond its end by the second.
\<close>

subsection \<open>Documents\<close>

datatype doc = JNull | JBool bool | JInt int | JStr string | JArr "doc list" | JObj "(string \<times> doc) list"

fun height :: "doc \<Rightarrow> nat" where
  "height (JArr js) = Suc (fold max (map height js) 0)"
| "height (JObj kjs) = Suc (fold max (map (\<lambda>(k, j). height j) kjs) 0)"
| "height _ = 1"

fun doc_ok :: "doc \<Rightarrow> bool" where
  "doc_ok (JInt n) \<longleftrightarrow> i64 n"
| "doc_ok (JArr js) \<longleftrightarrow> list_all doc_ok js"
| "doc_ok (JObj kjs) \<longleftrightarrow> distinct (map fst kjs) \<and> list_all (\<lambda>(k, j). doc_ok j) kjs"
| "doc_ok _ \<longleftrightarrow> True"

text \<open>The value that holds a document; a map may be at any address.\<close>

fun doc_val :: "doc \<Rightarrow> val" where
  "doc_val JNull = V_nil"
| "doc_val (JBool b) = V_bool b"
| "doc_val (JInt n) = V_int n"
| "doc_val (JStr t) = O_str t"
| "doc_val (JArr js) = O_slice (map doc_val js)"
| "doc_val (JObj kjs) = O_map 0 (map (\<lambda>(k, j). (O_str k, doc_val j)) kjs)"

fun reads :: "doc \<Rightarrow> val \<Rightarrow> bool" where
  "reads JNull v \<longleftrightarrow> v = V_nil"
| "reads (JBool b) v \<longleftrightarrow> v = V_bool b"
| "reads (JInt n) v \<longleftrightarrow> v = V_int n"
| "reads (JStr t) v \<longleftrightarrow> v = O_str t"
| "reads (JArr js) v \<longleftrightarrow> (case v of O_slice xs \<Rightarrow> list_all2 reads js xs | _ \<Rightarrow> False)"
| "reads (JObj kjs) v \<longleftrightarrow>
     (case v of O_map p kvs \<Rightarrow> list_all2 (\<lambda>kj kv. fst kv = O_str (fst kj) \<and> reads (snd kj) (snd kv)) kjs kvs
      | _ \<Rightarrow> False)"

lemma fold_max_le: "fold max xs (a :: nat) \<le> b \<longleftrightarrow> a \<le> b \<and> (\<forall>x \<in> set xs. x \<le> b)"
  by (induction xs arbitrary: a) auto

subsection \<open>Lists of elements and members\<close>

abbreviation spaces :: "string \<Rightarrow> bool" where
  "spaces w \<equiv> list_all json_space w"

lemma jskip_twice: "jskip s (jskip s i) = jskip s i"
proof -
  have "drop (jskip s i) s = dropWhile json_space (drop i s)"
    by (metis add.commute dropWhile_eq_drop drop_drop jskip_def)
  moreover have "takeWhile json_space (dropWhile json_space xs) = []" for xs
    by (metis dropWhile_idem takeWhile_dropWhile_id append_self_conv2 dropWhile_eq_self_iff takeWhile_eq_Nil_iff hd_dropWhile)
  ultimately show ?thesis by (simp add: jskip_def [of s "jskip s i"])
qed

lemma jvalue_skip: "jvalue pt ma s d (jskip s i) = jvalue pt ma s d i"
  by (subst (1 2) jvalue.simps) (simp add: jskip_twice)

lemma jarray_loop_skip: "jarray_loop (jvalue pt ma s d) s a (jskip s i) = jarray_loop (jvalue pt ma s d) s a i"
  by (subst (1 2) jarray_loop.simps) (simp add: jvalue_skip)

lemma jobject_loop_skip: "jobject_loop vp st s m (jskip s i) = jobject_loop vp st s m i"
  by (subst (1 2) jobject_loop.simps) (simp add: jskip_twice)

lemma not_space [simp]:
  "\<not> json_space CHR '',''" "\<not> json_space CHR '']''" "\<not> json_space CHR ''}''" "\<not> json_space CHR '':''"
  "\<not> json_space CHR 0x22" "\<not> json_space CHR ''[''" "\<not> json_space CHR ''{''"
  by (simp_all add: json_space_def)

lemma delim_tail [simp]:
  "delim []" "delim (CHR '','' # r)" "delim (CHR '']'' # r)" "delim (CHR ''}'' # r)"
  by (simp_all add: delim_def is_digit_def)

lemma delim_spaces: "spaces w \<Longrightarrow> delim r \<Longrightarrow> delim (w @ r)"
  by (cases w) (auto simp: delim_def json_space_def is_digit_def)

lemma array_lines:
  assumes el: "\<And>t j w r. (t, j) \<in> set tjs \<Longrightarrow> spaces w \<Longrightarrow> suffix (w @ t @ r) s \<Longrightarrow> delim r \<Longrightarrow>
      \<exists>v. vp (idx s (w @ t @ r)) = Some (JOk v (idx s r)) \<and> reads j v"
    and sp: "spaces pad" "spaces nl" "spaces cur" "spaces w"
    and sf: "suffix (w @ enc_lines pad nl (map fst tjs) @ cur @ CHR '']'' # r) s" and ne: "tjs \<noteq> []"
  shows "\<exists>vs. jarray_loop vp s a (idx s (w @ enc_lines pad nl (map fst tjs) @ cur @ CHR '']'' # r)) =
      Some (JOk (a @ vs) (idx s r)) \<and> list_all2 reads (map snd tjs) vs"
  using ne el sf sp(4)
proof (induction tjs arbitrary: w a rule: list_nonempty_induct)
  case (single tj)
  obtain t j where tj: "tj = (t, j)" by fastforce
  let ?r = "(nl @ cur) @ CHR '']'' # r"
  have d: "delim ?r" using sp by (intro delim_spaces) simp_all
  have s1: "suffix ((w @ pad) @ t @ ?r) s" "suffix ?r s" "suffix (CHR '']'' # r) s"
    using single.prems(2) tj suffix_rest [of "w @ pad @ t" ?r s] suffix_rest [of "w @ pad @ t @ nl @ cur" "CHR '']'' # r" s]
    by simp_all
  obtain v where v: "vp (idx s ((w @ pad) @ t @ ?r)) = Some (JOk v (idx s ?r))" "reads j v"
    using single.prems(1) [of t j "w @ pad" ?r] s1(1) d sp single.prems(3) tj by auto
  have k: "jskip s (idx s ?r) = idx s (CHR '']'' # r)" using s1(2) sp by (intro jskip_idx) simp_all
  have "jarray_loop vp s a (idx s ((w @ pad) @ t @ ?r)) = Some (JOk (a @ [v]) (idx s r))"
    using v(1) k s1(3) by (subst jarray_loop.simps) (simp add: idx_Cons Let_def)
  then show ?case using v(2) by (intro exI [of _ "[v]"]) (simp add: tj)
next
  case (cons tj tjs)
  obtain t j where tj: "tj = (t, j)" by fastforce
  obtain u us where us: "map fst tjs = u # us" using cons.hyps by (cases tjs) auto
  let ?r = "nl @ enc_lines pad nl (map fst tjs) @ cur @ CHR '']'' # r"
  have s1: "suffix ((w @ pad) @ t @ CHR '','' # ?r) s" using cons.prems(2) tj us by simp
  then have s2: "suffix (CHR '','' # ?r) s" "suffix ?r s"
    using suffix_rest [of "w @ pad @ t" "CHR '','' # ?r" s] suffix_rest [of "w @ pad @ t @ '',''" ?r s] by simp_all
  obtain v where v: "vp (idx s ((w @ pad) @ t @ CHR '','' # ?r)) = Some (JOk v (idx s (CHR '','' # ?r)))" "reads j v"
    using cons.prems(1) [of t j "w @ pad" "CHR '','' # ?r"] s1 sp cons.prems(3) tj by auto
  have k: "jskip s (idx s (CHR '','' # ?r)) = idx s (CHR '','' # ?r)"
    using jskip_idx [of "[]" "CHR '','' # ?r" s] s2 by simp
  obtain vs where vs: "jarray_loop vp s (a @ [v]) (idx s ?r) = Some (JOk ((a @ [v]) @ vs) (idx s r))"
      "list_all2 reads (map snd tjs) vs"
    using cons.IH [of nl "a @ [v]"] cons.prems(1) s2(2) sp by (metis list.set_intros(2))
  have "jarray_loop vp s a (idx s ((w @ pad) @ t @ CHR '','' # ?r)) = jarray_loop vp s (a @ [v]) (idx s ?r)"
    using v(1) k s2 by (subst jarray_loop.simps) (simp add: idx_Cons Let_def)
  then show ?case using v(2) vs us by (intro exI [of _ "v # vs"]) (simp add: tj)
qed

text \<open>Members: keys and documents, with their texts.\<close>

lemma vl_equal_str [simp]: "vl_equal (O_str a) (O_str b) \<longleftrightarrow> a = b"
  by (subst vl_equal.simps) simp

lemma al_set_new_str:
  assumes "map fst kvs = map O_str ks" "k \<notin> set ks"
  shows "al_set vl_equal kvs (O_str k) v = kvs @ [(O_str k, v)]"
proof -
  have "\<not> al_has vl_equal kvs (O_str k)"
  proof
    assume "al_has vl_equal kvs (O_str k)"
    then obtain x where x: "x \<in> set kvs" "vl_equal (fst x) (O_str k)" by (auto simp: al_has_def)
    then have "fst x \<in> set (map O_str ks)" using assms(1) by (metis image_eqI list.set_map)
    then show False using x(2) assms(2) by auto
  qed
  then show ?thesis by (simp add: al_set_def)
qed

definition member_text :: "string \<Rightarrow> string \<times> string \<times> doc \<Rightarrow> string" where
  "member_text sep x = json_str_text (fst x) @ sep @ fst (snd x)"

lemma member_start:
  assumes sp: "spaces w" and sf: "suffix (w @ json_str_text k @ CHR '':'' # q) s"
  shows "jstring s (jskip s (idx s (w @ json_str_text k @ CHR '':'' # q))) = JOk k (idx s (CHR '':'' # q))"
    "jskip s (idx s (CHR '':'' # q)) = idx s (CHR '':'' # q)" "suffix (CHR '':'' # q) s" "suffix q s"
proof -
  have s1: "suffix (json_str_text k @ CHR '':'' # q) s" using sf by (rule suffix_rest)
  show s2: "suffix (CHR '':'' # q) s" using s1 by (rule suffix_rest)
  show "suffix q s" using s2 by (rule suffix_ConsE)
  have "jskip s (idx s (w @ json_str_text k @ CHR '':'' # q)) = idx s (json_str_text k @ CHR '':'' # q)"
    by (rule jskip_idx [OF sf sp]) (simp add: json_str_text_def)
  then show "jstring s (jskip s (idx s (w @ json_str_text k @ CHR '':'' # q))) = JOk k (idx s (CHR '':'' # q))"
    by (simp add: jstring_text [OF s1])
  show "jskip s (idx s (CHR '':'' # q)) = idx s (CHR '':'' # q)"
    using jskip_idx [of "[]" "CHR '':'' # q" s] s2 by simp
qed

lemma object_step:
  assumes sp: "spaces w" and sf: "suffix (w @ json_str_text k @ CHR '':'' # q) s"
    and v: "vp (idx s q) = Some (JOk v l)" and st: "st m (O_str k) v = Some m'"
  shows "jobject_loop vp st s m (idx s (w @ json_str_text k @ CHR '':'' # q)) =
    (if at_char s (jskip s l) CHR '','' then jobject_loop vp st s m' (jskip s l + 1)
     else if at_char s (jskip s l) CHR ''}'' then Some (JOk m' (jskip s l + 1))
     else Some (JErr ''expected `,` or `}` in an object'' (jskip s l)))"
  using member_start [OF sp sf] v st by (subst jobject_loop.simps, unfold Let_def) (simp add: idx_Cons)

lemma object_lines:
  assumes el: "\<And>k t j w r. (k, t, j) \<in> set kts \<Longrightarrow> spaces w \<Longrightarrow> suffix (w @ t @ r) s \<Longrightarrow> delim r \<Longrightarrow>
      \<exists>v. vp (idx s (w @ t @ r)) = Some (JOk v (idx s r)) \<and> reads j v"
    and sp: "spaces pad" "spaces nl" "spaces cur" "spaces w" "spaces gap"
    and sf: "suffix (w @ enc_lines pad nl (map (member_text (CHR '':'' # gap)) kts) @ cur @ CHR ''}'' # r) s" and ne: "kts \<noteq> []"
    and m: "good_map pt m" "map fst (map_al m) = map O_str ks" "distinct (ks @ map fst kts)"
  shows "\<exists>m' kvs. jobject_loop vp (vl_map_set vl_equal (vl_hash pt)) s m
        (idx s (w @ enc_lines pad nl (map (member_text (CHR '':'' # gap)) kts) @ cur @ CHR ''}'' # r)) =
      Some (JOk m' (idx s r)) \<and> map_al m' = map_al m @ kvs \<and>
      list_all2 (\<lambda>kj kv. fst kv = O_str (fst kj) \<and> reads (snd kj) (snd kv)) (map (\<lambda>(k, t, j). (k, j)) kts) kvs"
  using ne el sf sp(4) m
proof (induction kts arbitrary: w m ks rule: list_nonempty_induct)
  case (single x)
  obtain k t j where x: "x = (k, t, j)" by (metis prod_cases3)
  let ?r = "(nl @ cur) @ CHR ''}'' # r" let ?q = "gap @ t @ ?r"
  have d: "delim ?r" using sp by (intro delim_spaces) simp_all
  have s1: "suffix ((w @ pad) @ json_str_text k @ CHR '':'' # ?q) s"
    using single.prems(2) x by (simp add: member_text_def)
  have s2: "suffix ?q s" using s1 by (rule member_start(4) [rotated]) (use sp single.prems(3) in simp)
  then have s3: "suffix ?r s" using suffix_rest [of "gap @ t" ?r s] by simp
  then have s4: "suffix (CHR ''}'' # r) s" by (rule suffix_rest)
  obtain v where v: "vp (idx s ?q) = Some (JOk v (idx s ?r))" "reads j v"
    using single.prems(1) [of k t j gap ?r] s2 d sp x by auto
  have kk: "jskip s (idx s ?r) = idx s (CHR ''}'' # r)" using s3 sp by (intro jskip_idx) simp_all
  obtain m' where m': "vl_map_set vl_equal (vl_hash pt) m (O_str k) v = Some m'" "good_map pt m'"
      "map_al m' = map_al m @ [(O_str k, v)]"
    using store_member [OF single.prems(4), of k v] al_set_new_str [OF single.prems(5), of k v] single.prems(6) x by auto
  have "jobject_loop vp (vl_map_set vl_equal (vl_hash pt)) s m (idx s ((w @ pad) @ json_str_text k @ CHR '':'' # ?q)) =
      Some (JOk m' (idx s r))"
    using object_step [where w = "w @ pad" and k = k and q = ?q and st = "vl_map_set vl_equal (vl_hash pt)" and m = m and v = v and m' = m' and vp = vp, OF _ s1 v(1) m'(1)] sp single.prems(3) kk s4 by (simp add: idx_Cons)
  then show ?case using v(2) m'(3) by (intro exI [of _ m'] exI [of _ "[(O_str k, v)]"]) (simp add: x member_text_def)
next
  case (cons x kts)
  obtain k t j where x: "x = (k, t, j)" by (metis prod_cases3)
  obtain u us where us: "map (member_text (CHR '':'' # gap)) kts = u # us" using cons.hyps by (cases kts) auto
  have mt: "member_text (CHR '':'' # gap) (k, t, j) = json_str_text k @ CHR '':'' # gap @ t"
    by (simp add: member_text_def)
  let ?r = "nl @ enc_lines pad nl (map (member_text (CHR '':'' # gap)) kts) @ cur @ CHR ''}'' # r"
  let ?q = "gap @ t @ CHR '','' # ?r"
  have s1: "suffix ((w @ pad) @ json_str_text k @ CHR '':'' # ?q) s"
    using cons.prems(2) x us mt by simp
  have s2: "suffix ?q s" using s1 by (rule member_start(4) [rotated]) (use sp cons.prems(3) in simp)
  then have s3: "suffix (CHR '','' # ?r) s" using suffix_rest [of "gap @ t" "CHR '','' # ?r" s] by simp
  then have s4: "suffix ?r s" by (rule suffix_ConsE)
  obtain v where v: "vp (idx s ?q) = Some (JOk v (idx s (CHR '','' # ?r)))" "reads j v"
    using cons.prems(1) [of k t j gap "CHR '','' # ?r"] s2 sp x by auto
  have kk: "jskip s (idx s (CHR '','' # ?r)) = idx s (CHR '','' # ?r)"
    using jskip_idx [of "[]" "CHR '','' # ?r" s] s3 by simp
  obtain m' where m': "vl_map_set vl_equal (vl_hash pt) m (O_str k) v = Some m'" "good_map pt m'"
      "map_al m' = map_al m @ [(O_str k, v)]"
    using store_member [OF cons.prems(4), of k v] al_set_new_str [OF cons.prems(5), of k v] cons.prems(6) x by auto
  have f: "map fst (map_al m') = map O_str (ks @ [k])" "distinct ((ks @ [k]) @ map fst kts)"
    using m'(3) cons.prems(5,6) x by auto
  have el': "\<exists>v. vp (idx s (w @ t @ r)) = Some (JOk v (idx s r)) \<and> reads j v"
    if "(k, t, j) \<in> set kts" "spaces w" "suffix (w @ t @ r) s" "delim r" for k t j w r
    using cons.prems(1) [of k t j w r] that by simp
  have "\<exists>m2 kvs. jobject_loop vp (vl_map_set vl_equal (vl_hash pt)) s m' (idx s ?r) = Some (JOk m2 (idx s r)) \<and>
      map_al m2 = map_al m' @ kvs \<and>
      list_all2 (\<lambda>kj kv. fst kv = O_str (fst kj) \<and> reads (snd kj) (snd kv)) (map (\<lambda>(k, t, j). (k, j)) kts) kvs"
    by (rule cons.IH [OF _ s4 sp(2) m'(2) f]) (rule el')
  then obtain m2 kvs where m2: "jobject_loop vp (vl_map_set vl_equal (vl_hash pt)) s m' (idx s ?r) = Some (JOk m2 (idx s r))"
      "map_al m2 = map_al m' @ kvs"
      "list_all2 (\<lambda>kj kv. fst kv = O_str (fst kj) \<and> reads (snd kj) (snd kv)) (map (\<lambda>(k, t, j). (k, j)) kts) kvs"
    by blast
  have "jobject_loop vp (vl_map_set vl_equal (vl_hash pt)) s m (idx s ((w @ pad) @ json_str_text k @ CHR '':'' # ?q)) =
      Some (JOk m2 (idx s r))"
    using object_step [where w = "w @ pad" and k = k and q = ?q and st = "vl_map_set vl_equal (vl_hash pt)" and m = m and v = v and m' = m' and vp = vp, OF _ s1 v(1) m'(1)] sp cons.prems(3) kk s3 m2(1) by (simp add: idx_Cons)
  then show ?case using v(2) m'(3) m2 us
    by (intro exI [of _ m2] exI [of _ "(O_str k, v) # kvs"]) (simp add: x mt)
qed

subsection \<open>The encoder on documents\<close>

definition enc :: "show_env \<Rightarrow> nat \<Rightarrow> string \<Rightarrow> string \<Rightarrow> doc \<Rightarrow> string" where
  "enc E d indent cur j = fst (json_enc E d indent cur (doc_val j))"

definition line_end :: "string \<Rightarrow> string" where
  "line_end indent = (if indent \<noteq> [] then [CHR 0x0A] else [])"

definition key_gap :: "string \<Rightarrow> string" where
  "key_gap indent = (if indent \<noteq> [] then '' '' else [])"

lemma enc_doc:
  assumes "d < JE_MAX_DEPTH"
  shows "enc E d indent cur JNull = ''null''" "enc E d indent cur (JBool b) = (if b then ''true'' else ''false'')"
    "enc E d indent cur (JInt n) = int_text n" "enc E d indent cur (JStr t) = json_str_text t"
    "enc E d indent cur (JArr js) =
       enc_seq cur (pad_text cur indent) (line_end indent) (map (enc E (d + 1) indent (pad_text cur indent)) js)"
    "enc E d indent cur (JObj kjs) =
       (if kjs = [] then ''{}''
        else ''{'' @ line_end indent @
          enc_lines (pad_text cur indent) (line_end indent)
            (map (member_text (CHR '':'' # key_gap indent))
              (map (\<lambda>(k, j). (k, enc E (d + 1) indent (pad_text cur indent) j, j)) kjs)) @ cur @ ''}'')"
  using assms unfolding enc_def
  by (subst json_enc.simps,
      simp add: enc_def Let_def seq_out_def fields_out_def enc_fields_def json_str_def line_end_def key_gap_def member_text_def
        comp_def split_def)+

lemma enc_too_deep:
  assumes "d \<le> JE_MAX_DEPTH"
  shows "snd (json_enc E d indent cur (doc_val j)) \<longleftrightarrow> JE_MAX_DEPTH < d + height j"
  using assms
proof (induction j arbitrary: d cur)
  case (JArr js)
  show ?case
  proof (cases "d = JE_MAX_DEPTH")
    case True
    then show ?thesis by (simp add: json_enc.simps)
  next
    case False
    then have d: "d < JE_MAX_DEPTH" using JArr.prems by simp
    then have le: "JE_MAX_DEPTH < d + 1 + n \<longleftrightarrow> \<not> n \<le> JE_MAX_DEPTH - (d + 1)" for n by arith
    have "snd (json_enc E d indent cur (doc_val (JArr js))) \<longleftrightarrow>
        (\<exists>j \<in> set js. snd (json_enc E (d + 1) indent (pad_text cur indent) (doc_val j)))"
      using d by (subst json_enc.simps) (simp add: Let_def seq_out_def list_ex_iff)
    also have "\<dots> \<longleftrightarrow> (\<exists>j \<in> set js. JE_MAX_DEPTH < d + 1 + height j)"
      using JArr.IH [of _ "d + 1"] d by auto
    also have "\<dots> \<longleftrightarrow> \<not> fold max (map height js) 0 \<le> JE_MAX_DEPTH - (d + 1)"
      using le by (simp add: fold_max_le)
    finally show ?thesis using d by auto
  qed
next
  case (JObj kjs)
  show ?case
  proof (cases "d = JE_MAX_DEPTH")
    case True
    then show ?thesis by (simp add: json_enc.simps)
  next
    case False
    then have d: "d < JE_MAX_DEPTH" using JObj.prems by simp
    then have le: "JE_MAX_DEPTH < d + 1 + n \<longleftrightarrow> \<not> n \<le> JE_MAX_DEPTH - (d + 1)" for n by arith
    have "snd (json_enc E d indent cur (doc_val (JObj kjs))) \<longleftrightarrow>
        (\<exists>kj \<in> set kjs. snd (json_enc E (d + 1) indent (pad_text cur indent) (doc_val (snd kj))))"
      using d by (subst json_enc.simps) (simp add: Let_def fields_out_def list_ex_iff split_def)
    also have "\<dots> \<longleftrightarrow> (\<exists>kj \<in> set kjs. JE_MAX_DEPTH < d + 1 + height (snd kj))"
      using JObj.IH [of _ _ "d + 1"] d by (metis (no_types, lifting) Suc_eq_plus1 Suc_leI prod.collapse snds.intros)
    also have "\<dots> \<longleftrightarrow> \<not> fold max (map (\<lambda>(k, j). height j) kjs) 0 \<le> JE_MAX_DEPTH - (d + 1)"
      using le by (simp add: fold_max_le split_def)
    finally show ?thesis using d by auto
  qed
qed (auto simp: json_enc.simps Let_def)

text \<open>How a text of a value begins.\<close>

lemma enc_head:
  assumes "d < JE_MAX_DEPTH"
  shows "\<exists>c u. enc E d indent cur j = c # u \<and> \<not> json_space c \<and> c \<noteq> CHR '']''"
proof (cases j)
  case (JInt n)
  obtain c u where cu: "nat_text (nat \<bar>n\<bar>) = c # u" using nat_text_digits(2) by (meson neq_Nil_conv)
  then have "is_digit c" using nat_text_digits(1) [of "nat \<bar>n\<bar>"] by simp
  then have "\<not> json_space c" "c \<noteq> CHR '']''" by (auto simp: json_space_def is_digit_def)
  moreover have "enc E d indent cur j = int_text n" using enc_doc(3) [OF assms] by (simp add: JInt)
  ultimately show ?thesis using cu by (cases "n < 0") (auto simp: int_text_def json_space_def)
qed (use assms in \<open>auto simp: enc_doc json_space_def json_str_text_def enc_seq_def\<close>)

lemma pad_spaces: "spaces cur \<Longrightarrow> spaces indent \<Longrightarrow> spaces (pad_text cur indent)"
  by (auto simp: pad_text_def list_all_iff dest: in_set_takeD)

lemma line_end_spaces [simp]: "spaces (line_end indent)" "spaces (key_gap indent)"
  by (simp_all add: line_end_def key_gap_def json_space_def)

subsection \<open>Reading a document\<close>

lemma jvalue_at:
  assumes "d < JD_MAX_DEPTH" "spaces w" "suffix (w @ c # u) s" "\<not> json_space c"
  shows "jvalue pt ma s d (idx s (w @ c # u)) =
    (if c = CHR ''{'' then
       jobject (\<lambda>j. jvalue pt ma s (d + 1) j) (vl_map_set vl_equal (vl_hash pt)) ma s (idx s (c # u))
     else if c = CHR ''['' then jarray (\<lambda>j. jvalue pt ma s (d + 1) j) s (idx s (c # u))
     else if c = CHR 0x22 then
       Some (case jstring s (idx s (c # u)) of JErr w e \<Rightarrow> JErr w e | JOk t j \<Rightarrow> JOk (O_str t) j)
     else if c = CHR ''t'' then Some (jlit s (idx s (c # u)) ''true'' (V_bool True))
     else if c = CHR ''f'' then Some (jlit s (idx s (c # u)) ''false'' (V_bool False))
     else if c = CHR ''n'' then Some (jlit s (idx s (c # u)) ''null'' V_nil)
     else Some (jnumber s (idx s (c # u))))"
proof -
  have s1: "suffix (c # u) s" using assms(3) by (rule suffix_rest)
  have "jskip s (idx s (w @ c # u)) = idx s (c # u)" by (rule jskip_idx) (use assms in simp_all)
  then show ?thesis
    using assms(1) idx_end [OF s1] by (subst jvalue.simps) (simp add: idx_nth [OF s1] Let_def)
qed

lemma jlit_at:
  assumes "suffix (t @ r) s"
  shows "jlit s (idx s (t @ r)) t v = JOk v (idx s r)"
  using assms idx_append [OF assms] by (simp add: jlit_def drop_idx) (auto simp: suffix_def idx_def)

lemma jvalue_doc:
  assumes "doc_ok j" "d + height j \<le> JD_MAX_DEPTH" "spaces cur" "spaces indent" "spaces w"
    "suffix (w @ enc E d indent cur j @ r) s" "delim r"
  shows "\<exists>v. jvalue pt ma s d (idx s (w @ enc E d indent cur j @ r)) = Some (JOk v (idx s r)) \<and> reads j v"
  using assms
proof (induction j arbitrary: d cur w r)
  case JNull
  then have d: "d < JD_MAX_DEPTH" "d < JE_MAX_DEPTH" by (simp_all add: JD_MAX_DEPTH_def JE_MAX_DEPTH_def)
  have e: "enc E d indent cur JNull = ''null''" using d by (simp add: enc_doc)
  have "suffix (w @ CHR ''n'' # ''ull'' @ r) s" "suffix (''null'' @ r) s"
    using JNull.prems(6) suffix_rest [of w "''null'' @ r" s] by (simp_all add: e)
  then show ?case using jvalue_at [OF d(1) JNull.prems(5), of "CHR ''n''" "''ull'' @ r"] jlit_at [of "''null''" r]
    by (simp add: e json_space_def)
next
  case (JBool b)
  then have d: "d < JD_MAX_DEPTH" "d < JE_MAX_DEPTH" by (simp_all add: JD_MAX_DEPTH_def JE_MAX_DEPTH_def)
  have e: "enc E d indent cur (JBool b) = (if b then ''true'' else ''false'')" using d by (simp add: enc_doc)
  show ?case
  proof (cases b)
    case True
    then have e: "enc E d indent cur (JBool b) = ''true''" using e by simp
    have "suffix (w @ CHR ''t'' # ''rue'' @ r) s" "suffix (''true'' @ r) s"
      using JBool.prems(6) suffix_rest [of w "''true'' @ r" s] unfolding e by simp_all
    then show ?thesis unfolding e using True jvalue_at [OF d(1) JBool.prems(5), of "CHR ''t''" "''rue'' @ r"] jlit_at [of "''true''" r]
      by (simp add: json_space_def)
  next
    case False
    then have e: "enc E d indent cur (JBool b) = ''false''" using e by simp
    have "suffix (w @ CHR ''f'' # ''alse'' @ r) s" "suffix (''false'' @ r) s"
      using JBool.prems(6) suffix_rest [of w "''false'' @ r" s] unfolding e by simp_all
    then show ?thesis unfolding e using False jvalue_at [OF d(1) JBool.prems(5), of "CHR ''f''" "''alse'' @ r"] jlit_at [of "''false''" r]
      by (simp add: json_space_def)
  qed
next
  case (JInt n)
  then have d: "d < JD_MAX_DEPTH" "d < JE_MAX_DEPTH" by (simp_all add: JD_MAX_DEPTH_def JE_MAX_DEPTH_def)
  have e: "enc E d indent cur (JInt n) = int_text n" using d by (simp add: enc_doc)
  obtain c u where cu: "int_text n = c # u" and c: "\<not> json_space c" "is_digit c \<or> c = CHR ''-''"
  proof -
    obtain c u where cu: "nat_text (nat \<bar>n\<bar>) = c # u" using nat_text_digits(2) by (meson neq_Nil_conv)
    then have "is_digit c" using nat_text_digits(1) [of "nat \<bar>n\<bar>"] by simp
    moreover from this have "\<not> json_space c" by (auto simp: json_space_def is_digit_def)
    moreover have "\<not> json_space CHR ''-''" by (simp add: json_space_def)
    ultimately show ?thesis using cu that by (cases "n < 0") (auto simp: int_text_def)
  qed
  have s1: "suffix (w @ c # u @ r) s" "suffix (int_text n @ r) s"
    using JInt.prems(6) suffix_rest [of w "int_text n @ r" s] by (simp_all add: e cu)
  have "c \<noteq> CHR ''{''" "c \<noteq> CHR ''[''" "c \<noteq> CHR 0x22" "c \<noteq> CHR ''t''" "c \<noteq> CHR ''f''" "c \<noteq> CHR ''n''"
    using c by (auto simp: is_digit_def)
  then have "jvalue pt ma s d (idx s (w @ c # u @ r)) = Some (jnumber s (idx s (int_text n @ r)))"
    using jvalue_at [OF d(1) JInt.prems(5) s1(1) c(1)] by (simp add: cu)
  then show ?case using jnumber_int [OF _ s1(2) JInt.prems(7)] JInt.prems(1) by (simp add: e cu)
next
  case (JStr t)
  then have d: "d < JD_MAX_DEPTH" "d < JE_MAX_DEPTH" by (simp_all add: JD_MAX_DEPTH_def JE_MAX_DEPTH_def)
  have e: "enc E d indent cur (JStr t) = json_str_text t" using d by (simp add: enc_doc)
  obtain u where u: "json_str_text t = CHR 0x22 # u" by (simp add: json_str_text_def)
  have s1: "suffix (w @ CHR 0x22 # u @ r) s" "suffix (json_str_text t @ r) s"
    using JStr.prems(6) suffix_rest [of w "json_str_text t @ r" s] by (simp_all add: e u)
  then show ?case
    using jvalue_at [OF d(1) JStr.prems(5) s1(1)] jstring_text [OF s1(2)] by (simp add: e u)
next
  case (JArr js)
  then have d: "d < JD_MAX_DEPTH" "d < JE_MAX_DEPTH" by (simp_all add: JD_MAX_DEPTH_def JE_MAX_DEPTH_def)
  define pad where "pad = pad_text cur indent"
  define ts where "ts = map (enc E (d + 1) indent pad) js"
  have e: "enc E d indent cur (JArr js) = enc_seq cur pad (line_end indent) ts"
    using d by (simp add: enc_doc pad_def ts_def)
  have sp: "spaces pad" using JArr.prems(3,4) by (simp add: pad_def pad_spaces)
  have h: "d + 1 + height j \<le> JD_MAX_DEPTH" if "j \<in> set js" for j
    using JArr.prems(2) that fold_max_le [of "map height js" 0 "fold max (map height js) 0"] by fastforce
  show ?case
  proof (cases "js = []")
    case True
    then have e: "enc E d indent cur (JArr js) = ''[]''" using e by (simp add: ts_def enc_seq_def)
    have s1: "suffix (w @ CHR ''['' # CHR '']'' # r) s" "suffix (CHR ''['' # CHR '']'' # r) s" "suffix (CHR '']'' # r) s"
      using JArr.prems(6) suffix_rest [of w "CHR ''['' # CHR '']'' # r" s] suffix_rest [of "w @ ''[''" "CHR '']'' # r" s]
      unfolding e by simp_all
    have "jskip s (idx s (CHR '']'' # r)) = idx s (CHR '']'' # r)"
      using jskip_idx [of "[]" "CHR '']'' # r" s] s1(3) by simp
    then have "jarray (\<lambda>j. jvalue pt ma s (d + 1) j) s (idx s (CHR ''['' # CHR '']'' # r)) = Some (JOk (O_slice []) (idx s r))"
      using s1 by (simp add: jarray_def idx_Cons)
    then show ?thesis unfolding e using jvalue_at [OF d(1) JArr.prems(5) s1(1)] True by simp
  next
    case False
    let ?q = "line_end indent @ enc_lines pad (line_end indent) ts @ cur @ CHR '']'' # r"
    have en: "enc E d indent cur (JArr js) @ r = CHR ''['' # ?q" using False by (simp add: e enc_seq_def ts_def)
    have s1: "suffix (w @ CHR ''['' # ?q) s" using JArr.prems(6) by (simp only: en)
    then have s2: "suffix (CHR ''['' # ?q) s" by (rule suffix_rest)
    then have s3: "suffix ?q s" by (rule suffix_ConsE)
    have z: "map fst (zip ts js) = ts" "map snd (zip ts js) = js" by (simp_all add: ts_def)
    have "\<exists>vs. jarray_loop (jvalue pt ma s (d + 1)) s [] (idx s (line_end indent @ enc_lines pad (line_end indent) (map fst (zip ts js)) @ cur @ CHR '']'' # r)) =
        Some (JOk ([] @ vs) (idx s r)) \<and> list_all2 reads (map snd (zip ts js)) vs"
    proof (rule array_lines)
      fix t j w' r' assume a: "(t, j) \<in> set (zip ts js)" "spaces w'" "suffix (w' @ t @ r') s" "delim r'"
      have j: "j \<in> set js" "t = enc E (d + 1) indent pad j"
        using a(1) by (auto simp: ts_def in_set_zip)
      show "\<exists>v. jvalue pt ma s (d + 1) (idx s (w' @ t @ r')) = Some (JOk v (idx s r')) \<and> reads j v"
        using JArr.IH [OF j(1) _ h [OF j(1)] sp JArr.prems(4) a(2) _ a(4)] a(3) JArr.prems(1) j by (auto simp: list_all_iff)
    qed (use sp JArr.prems s3 False z in \<open>simp_all add: ts_def\<close>)
    then obtain vs where vs: "jarray_loop (jvalue pt ma s (d + 1)) s [] (idx s ?q) = Some (JOk vs (idx s r))"
        "list_all2 reads js vs" by (auto simp: z)
    obtain c u where cu: "ts = c # u" using False by (cases ts) (auto simp: ts_def)
    obtain x xs where x: "c = x # xs" "\<not> json_space x" "x \<noteq> CHR '']''"
    proof -
      obtain j where "c = enc E (d + 1) indent pad j" "j \<in> set js" using cu by (cases js) (auto simp: ts_def)
      moreover have "1 \<le> height j" by (cases j) simp_all
      ultimately show ?thesis using that enc_head [of "d + 1" E indent pad j] h [of j] by (auto simp: JD_MAX_DEPTH_def JE_MAX_DEPTH_def)
    qed
    obtain rest where rest: "?q = (line_end indent @ pad) @ x # rest" using cu x(1) by (cases u) auto
    have "jskip s (idx s ?q) = idx s (x # rest)"
      using s3 sp x(2) unfolding rest by (intro jskip_idx) simp_all
    moreover have "suffix (x # rest) s" using s3 unfolding rest by (rule suffix_rest)
    ultimately have nb: "\<not> at_char s (jskip s (idx s ?q)) CHR '']''" using x(3) by simp
    have "jarray (\<lambda>j. jvalue pt ma s (d + 1) j) s (idx s (CHR ''['' # ?q)) = Some (JOk (O_slice vs) (idx s r))"
      using nb vs(1) s2 jarray_loop_skip [of pt ma s "d + 1" "[]" "idx s ?q"] unfolding jarray_def Let_def by (simp add: idx_Cons)
    then have "jvalue pt ma s d (idx s (w @ CHR ''['' # ?q)) = Some (JOk (O_slice vs) (idx s r))"
      using jvalue_at [OF d(1) JArr.prems(5) s1] by simp
    then show ?thesis using vs(2) unfolding en by simp
  qed
next
  case (JObj kjs)
  then have d: "d < JD_MAX_DEPTH" "d < JE_MAX_DEPTH" by (simp_all add: JD_MAX_DEPTH_def JE_MAX_DEPTH_def)
  define pad where "pad = pad_text cur indent"
  define kts where "kts = map (\<lambda>(k, j). (k, enc E (d + 1) indent pad j, j)) kjs"
  have sp: "spaces pad" using JObj.prems(3,4) by (simp add: pad_def pad_spaces)
  have h: "d + 1 + height j \<le> JD_MAX_DEPTH" if "(k, j) \<in> set kjs" for k j
    using JObj.prems(2) that fold_max_le [of "map (\<lambda>(k, j). height j) kjs" 0 "fold max (map (\<lambda>(k, j). height j) kjs) 0"] by fastforce
  show ?case
  proof (cases "kjs = []")
    case True
    then have e: "enc E d indent cur (JObj kjs) = ''{}''" using d by (simp add: enc_doc)
    have s1: "suffix (w @ CHR ''{'' # CHR ''}'' # r) s" "suffix (CHR ''{'' # CHR ''}'' # r) s" "suffix (CHR ''}'' # r) s"
      using JObj.prems(6) suffix_rest [of w "CHR ''{'' # CHR ''}'' # r" s] suffix_rest [of "w @ ''{''" "CHR ''}'' # r" s]
      unfolding e by simp_all
    have "jskip s (idx s (CHR ''}'' # r)) = idx s (CHR ''}'' # r)"
      using jskip_idx [of "[]" "CHR ''}'' # r" s] s1(3) by simp
    then have "jobject (\<lambda>j. jvalue pt ma s (d + 1) j) (vl_map_set vl_equal (vl_hash pt)) ma s (idx s (CHR ''{'' # CHR ''}'' # r)) =
        Some (JOk (O_map (ma (idx s (CHR ''{'' # CHR ''}'' # r))) []) (idx s r))"
      using s1 by (simp add: jobject_def idx_Cons)
    then show ?thesis unfolding e using jvalue_at [OF d(1) JObj.prems(5) s1(1)] True by simp
  next
    case False
    let ?le = "line_end indent" and ?gap = "key_gap indent"
    let ?q = "?le @ enc_lines pad ?le (map (member_text (CHR '':'' # ?gap)) kts) @ cur @ CHR ''}'' # r"
    have en: "enc E d indent cur (JObj kjs) @ r = CHR ''{'' # ?q"
      using False d by (simp add: enc_doc pad_def [symmetric] kts_def)
    have s1: "suffix (w @ CHR ''{'' # ?q) s" using JObj.prems(6) by (simp only: en)
    then have s2: "suffix (CHR ''{'' # ?q) s" by (rule suffix_rest)
    then have s3: "suffix ?q s" by (rule suffix_ConsE)
    have ne: "kts \<noteq> []" using False by (simp add: kts_def)
    have m0: "map_al (new_map False) = []" by (simp add: new_map_def map_al_def)
    have "\<exists>m' kvs. jobject_loop (jvalue pt ma s (d + 1)) (vl_map_set vl_equal (vl_hash pt)) s (new_map False) (idx s ?q) =
        Some (JOk m' (idx s r)) \<and> map_al m' = map_al (new_map False) @ kvs \<and>
        list_all2 (\<lambda>kj kv. fst kv = O_str (fst kj) \<and> reads (snd kj) (snd kv)) (map (\<lambda>(k, t, j). (k, j)) kts) kvs"
    proof (rule object_lines [where ks = "[]"])
      fix k t j w' r' assume a: "(k, t, j) \<in> set kts" "spaces w'" "suffix (w' @ t @ r') s" "delim r'"
      have j: "(k, j) \<in> set kjs" "t = enc E (d + 1) indent pad j" using a(1) by (auto simp: kts_def)
      have ok: "doc_ok j" using JObj.prems(1) j(1) by (auto simp: list_all_iff)
      show "\<exists>v. jvalue pt ma s (d + 1) (idx s (w' @ t @ r')) = Some (JOk v (idx s r')) \<and> reads j v"
        using JObj.IH [OF j(1) _ ok h [OF j(1)] sp JObj.prems(4) a(2) _ a(4)] a(3) j by simp
    qed (use sp JObj.prems s3 ne m0 new_good_map in \<open>simp_all add: kts_def comp_def split_def\<close>)
    then obtain m' kvs where m': "jobject_loop (jvalue pt ma s (d + 1)) (vl_map_set vl_equal (vl_hash pt)) s (new_map False) (idx s ?q) =
        Some (JOk m' (idx s r))" "map_al m' = kvs"
        "list_all2 (\<lambda>kj kv. fst kv = O_str (fst kj) \<and> reads (snd kj) (snd kv)) kjs kvs"
      by (auto simp: m0 kts_def comp_def split_def)
    obtain x xs where x: "kts = x # xs" using ne by (cases kts) auto
    obtain rest where rest: "?q = (?le @ pad) @ CHR 0x22 # rest"
      by (cases xs) (auto simp: x member_text_def json_str_text_def)
    have "jskip s (idx s ?q) = idx s (CHR 0x22 # rest)"
      using s3 sp unfolding rest by (intro jskip_idx) simp_all
    moreover have "suffix (CHR 0x22 # rest) s" using s3 unfolding rest by (rule suffix_rest)
    ultimately have nb: "\<not> at_char s (jskip s (idx s ?q)) CHR ''}''" by simp
    have "jobject (\<lambda>j. jvalue pt ma s (d + 1) j) (vl_map_set vl_equal (vl_hash pt)) ma s (idx s (CHR ''{'' # ?q)) =
        Some (JOk (O_map (ma (idx s (CHR ''{'' # ?q))) kvs) (idx s r))"
      using nb m'(1,2) s2 jobject_loop_skip [of "jvalue pt ma s (d + 1)" "vl_map_set vl_equal (vl_hash pt)" s "new_map False" "idx s ?q"]
      unfolding jobject_def Let_def by (simp add: idx_Cons)
    then have "jvalue pt ma s d (idx s (w @ CHR ''{'' # ?q)) = Some (JOk (O_map (ma (idx s (CHR ''{'' # ?q))) kvs) (idx s r))"
      using jvalue_at [OF d(1) JObj.prems(5) s1] by simp
    then show ?thesis using m'(3) unfolding en by simp
  qed
qed

text \<open>C29. What \<^verbatim>\<open>json.encode\<close> writes, compact or indented, \<^verbatim>\<open>json.decode\<close> reads back: for every document
  of null, booleans, 64-bit integers, strings of arbitrary bytes, arrays and objects with distinct
  keys, nested at most 512 deep, the text is accepted and its value holds the same document, the
  members of an object in the same order; a deeper one is refused by the encoder with a
  \<^verbatim>\<open>ValueError\<close>.\<close>

theorem json_roundtrip:
  assumes "doc_ok j"
  shows "if height j \<le> JE_MAX_DEPTH
    then \<exists>t v. vl_json_encode E (doc_val j) pretty = Inr t \<and> vl_json_decode pt ma t = Some (Inr v) \<and> reads j v
    else vl_json_encode E (doc_val j) pretty =
      Inl (Throw ''ValueError'' ''json.encode: the value nests deeper than 512 levels'')"
proof (cases "height j \<le> JE_MAX_DEPTH")
  case True
  define indent where "indent = (if pretty then ''  '' else [])"
  let ?t = "enc E 0 indent [] j"
  have "\<not> snd (json_enc E 0 indent [] (doc_val j))"
    using enc_too_deep [of 0 E indent "[]" j] True by simp
  then have e: "vl_json_encode E (doc_val j) pretty = Inr ?t"
    by (simp add: vl_json_encode_def enc_def indent_def [symmetric] split_def)
  have "spaces indent" by (simp add: json_space_def indent_def)
  then have "\<exists>v. jvalue pt ma ?t 0 (idx ?t ([] @ ?t @ [])) = Some (JOk v (idx ?t [])) \<and> reads j v"
    using assms True by (intro jvalue_doc) (simp_all add: JD_MAX_DEPTH_def JE_MAX_DEPTH_def)
  then obtain v where v: "jvalue pt ma ?t 0 0 = Some (JOk v (length ?t))" "reads j v" by (auto simp: idx_def)
  have "jskip ?t (length ?t) = length ?t" by (simp add: jskip_def)
  then have "vl_json_decode pt ma ?t = Some (Inr v)" using v(1) by (simp add: vl_json_decode_def json_parse_def)
  then show ?thesis using True e v(2) by auto
next
  case False
  define indent where "indent = (if pretty then ''  '' else [])"
  have "snd (json_enc E 0 indent [] (doc_val j))"
    using enc_too_deep [of 0 E indent "[]" j] False by simp
  then show ?thesis using False by (simp add: vl_json_encode_def indent_def [symmetric] split_def)
qed

definition sample_doc :: doc where
  "sample_doc = JObj [(''a'', JArr [JInt (- 5), JNull, JBool True]), ([CHR 0x22, CHR 0x0A], JStr [CHR 0x01])]"

theorem json_roundtrip_witness:
  "\<forall>E pt ma. \<exists>t v. vl_json_encode E (doc_val sample_doc) True = Inr t \<and> vl_json_decode pt ma t = Some (Inr v) \<and> reads sample_doc v"
proof -
  have "doc_ok sample_doc" "height sample_doc \<le> JE_MAX_DEPTH" by (code_simp, code_simp)
  then show ?thesis using json_roundtrip [of sample_doc] by simp
qed

subsection \<open>The buffer of a string\<close>

lemma put_utf8_length: "length (put_utf8 r) \<le> 4" "r < 0x10000 \<Longrightarrow> length (put_utf8 r) \<le> 3"
  by (simp_all add: put_utf8_def)

lemma hexv_less: "hexv c < 16"
  by (simp add: hexv_def)

lemma read4_value: "read4 s i = JOk r j \<Longrightarrow> r < 0x10000"
proof -
  assume r: "read4 s i = JOk r j"
  have le: "foldl (\<lambda>v c. v * 16 + nat (hexv c)) a cs < (a + 1) * 16 ^ length cs" for a cs
  proof (induction cs arbitrary: a)
    case (Cons c cs)
    have "a * 16 + nat (hexv c) + 1 \<le> (a + 1) * 16" using hexv_less [of c] by simp
    then have "(a * 16 + nat (hexv c) + 1) * 16 ^ length cs \<le> (a + 1) * 16 * 16 ^ length cs" by (rule mult_le_mono1)
    also have "\<dots> = (a + 1) * 16 ^ length (c # cs)" by (simp add: algebra_simps)
    finally show ?case using Cons.IH [of "a * 16 + nat (hexv c)"] by (simp only: foldl.simps)
  qed simp
  have "length (take 4 (drop i s)) = 4" using r by (auto simp: read4_def split: if_splits)
  then show "r < 0x10000" using r le [of 0 "take 4 (drop i s)"] by (auto simp: read4_def split: if_splits)
qed

text \<open>The search for the closing quote passes over plain bytes one by one.\<close>

lemma find_quote_fst: "fst (find_quote s e b) = fst (find_quote s e True)"
proof (induction s e b rule: find_quote.induct)
  case (1 s e b)
  show ?case
  proof (cases "length s \<le> e \<or> s ! e = CHR 0x22 \<or> byte (s ! e) < 0x20")
    case True
    then show ?thesis by (subst (1 2) find_quote.simps) simp
  next
    case False
    then show ?thesis using "1.IH"(2) by (subst (1 2) find_quote.simps) simp
  qed
qed

lemma find_quote_skip:
  assumes "i + n \<le> length s"
    and "\<And>k. i \<le> k \<Longrightarrow> k < i + n \<Longrightarrow> s ! k \<noteq> CHR 0x22 \<and> s ! k \<noteq> CHR 0x5C \<and> 0x20 \<le> byte (s ! k)"
  shows "find_quote s i b = find_quote s (i + n) b"
  using assms
proof (induction n arbitrary: i)
  case (Suc n)
  have "find_quote s i b = find_quote s (i + 1) b"
    using Suc.prems(1) Suc.prems(2) [of i] by (subst find_quote.simps) auto
  also have "\<dots> = find_quote s (i + 1 + n) b"
    using Suc.prems by (intro Suc.IH) auto
  finally show ?case by simp
qed simp

lemma hex_digit_plain: "0 \<le> hexv c \<Longrightarrow> c \<noteq> CHR 0x22 \<and> c \<noteq> CHR 0x5C \<and> 0x20 \<le> byte c"
  by (auto simp: hexv_def split: if_splits)

lemma read4_find:
  assumes "read4 s i = JOk r j"
  shows "find_quote s i b = find_quote s j b" "j \<le> length s"
proof -
  have j: "j = i + 4" "i + 4 \<le> length s" and h: "\<not> list_ex (\<lambda>c. hexv c < 0) (take 4 (drop i s))"
    using assms by (auto simp: read4_def split: if_splits)
  have "0 \<le> hexv (s ! k)" if "i \<le> k" "k < i + 4" for k
  proof -
    have "take 4 (drop i s) ! (k - i) = s ! k" "k - i < length (take 4 (drop i s))" using that j by auto
    then have "s ! k \<in> set (take 4 (drop i s))" by (metis nth_mem)
    then show ?thesis using h by (auto simp: list_ex_iff not_less)
  qed
  then show "find_quote s i b = find_quote s j b" using hex_digit_plain j unfolding j(1) by (intro find_quote_skip) auto
  show "j \<le> length s" using j by simp
qed

lemma unicode_escape_length:
  assumes "unicode_escape s i = JOk b j"
  shows "length b + i \<le> j + 2"
proof -
  obtain r where r: "read4 s i = JOk r (i + 4)"
    using assms by (auto simp: unicode_escape_def split: jres.splits dest: read4_index)
  show ?thesis
  proof (cases "high_surrogate r \<and> i + 10 \<le> length s \<and> s ! (i + 4) = CHR 0x5C \<and> s ! (i + 5) = CHR ''u''")
    case True
    then obtain lo where lo: "read4 s (i + 6) = JOk lo (i + 10)"
      using assms r by (auto simp: unicode_escape_def ac_simps split: jres.splits dest: read4_index)
    show ?thesis
    proof (cases "low_surrogate lo")
      case low: True
      then show ?thesis using True r lo assms put_utf8_length(1) [of "0x10000 + push_bit 10 (r - 0xD800) + (lo - 0xDC00)"]
        by (simp add: unicode_escape_def ac_simps)
    next
      case low: False
      then show ?thesis
        using True r lo assms put_utf8_length(2) [of "0xFFFD"] put_utf8_length(2) [of lo] read4_value [OF lo]
        by (auto simp: unicode_escape_def ac_simps split: if_splits)
    qed
  next
    case False
    then show ?thesis
      using r assms put_utf8_length(2) [of "0xFFFD"] put_utf8_length(2) [of r] read4_value [OF r]
      by (auto simp: unicode_escape_def ac_simps split: if_splits)
  qed
qed

lemma unicode_escape_find:
  assumes "unicode_escape s i = JOk b j"
  shows "fst (find_quote s i x) = fst (find_quote s j x)" "j \<le> length s"
proof -
  obtain r k where r: "read4 s i = JOk r k" using assms by (auto simp: unicode_escape_def split: jres.splits)
  have "fst (find_quote s k x) = fst (find_quote s j x) \<and> j \<le> length s"
  proof (cases "j = k")
    case True
    then show ?thesis using read4_find(2) [OF r] by simp
  next
    case False
    then obtain lo where lo: "s ! k = CHR 0x5C" "s ! (k + 1) = CHR ''u''" "k + 6 \<le> length s" "read4 s (k + 2) = JOk lo j"
      using assms r by (auto simp: unicode_escape_def split: jres.splits if_splits)
    have "find_quote s k x = find_quote s (k + 2) True" using lo(1,3) by (subst find_quote.simps) auto
    then show ?thesis using read4_find [OF lo(4)] find_quote_fst [of s "k + 2" x] by metis
  qed
  then show "fst (find_quote s i x) = fst (find_quote s j x)" "j \<le> length s" using read4_find(1) [OF r] by metis+
qed

text \<open>C30. The buffer \<^verbatim>\<open>jstring\<close> allocates from the first scan, which only looks for the closing quote,
  is large enough for what the second scan writes into it, which decodes the escapes: the decoded
  bytes are never more than the source bytes they come from, a surrogate pair and a lone surrogate
  before another escape included, and both scans stop at the same place.\<close>

theorem jstring_buffer:
  "jstr_loop s i buf = JOk b j \<Longrightarrow>
   length b + i \<le> length buf + j \<and> (i \<le> length s \<longrightarrow> j = min (fst (find_quote s i x)) (length s))"
proof (induction s i buf rule: jstr_loop.induct)
  case (1 s i buf)
  let ?c = "s ! i"
  consider (stop) "length s \<le> i \<or> ?c = CHR 0x22"
    | (control) "i < length s" "?c \<noteq> CHR 0x22" "byte ?c < 0x20"
    | (plain) "i < length s" "?c \<noteq> CHR 0x22" "0x20 \<le> byte ?c" "?c \<noteq> CHR 0x5C"
    | (last) "i + 1 = length s" "?c = CHR 0x5C"
    | (escape) "i + 1 < length s" "?c = CHR 0x5C"
    by (metis add.commute le_less_Suc_eq linorder_not_le plus_1_eq_Suc Suc_leI le_neq_implies_less)
  then show ?case
  proof cases
    case stop
    then have "find_quote s i x = (i, x)" "jstr_loop s i buf = JOk buf i"
      by (auto simp: find_quote.simps [of s i x] jstr_loop.simps [of s i buf])
    then show ?thesis using "1.prems" by auto
  next
    case control
    then show ?thesis using "1.prems" by (simp add: jstr_loop.simps [of s i buf])
  next
    case plain
    have "find_quote s i x = find_quote s (i + 1) x" using plain by (simp add: find_quote.simps [of s i x])
    then show ?thesis using plain "1.prems" "1.IH"(1) by (auto simp: jstr_loop.simps [of s i buf])
  next
    case last
    then have "find_quote s i x = find_quote s (i + 2) True" "find_quote s (i + 2) True = (i + 2, True)"
      by (simp add: find_quote.simps [of s i x]) (use last in \<open>subst find_quote.simps, simp\<close>)
    then show ?thesis using last "1.prems" by (simp add: jstr_loop.simps [of s i buf])
  next
    case escape
    have q: "fst (find_quote s i x) = fst (find_quote s (i + 2) x)"
      using escape find_quote_fst [of s "i + 2" x] by (simp add: find_quote.simps [of s i x])
    show ?thesis
    proof (cases "json_unesc (s ! (i + 1))")
      case (Some e)
      then have "jstr_loop s (i + 2) (buf @ [e]) = JOk b j"
        using escape "1.prems" by (simp add: jstr_loop.simps [of s i buf] del: json_unesc.simps)
      then show ?thesis using escape q "1.IH"(3) Some by (auto simp del: json_unesc.simps)
    next
      case None
      then obtain u k where u: "unicode_escape s (i + 2) = JOk u k" "jstr_loop s k (buf @ u) = JOk b j" "s ! (i + 1) = CHR ''u''"
        using escape "1.prems"
        by (auto simp: jstr_loop.simps [of s i buf] simp del: json_unesc.simps split: if_splits jres.splits)
      then have "length b + k \<le> length (buf @ u) + j \<and> (k \<le> length s \<longrightarrow> j = min (fst (find_quote s k x)) (length s))"
        using escape None "1.IH"(2) by (simp del: json_unesc.simps)
      then show ?thesis using q unicode_escape_length [OF u(1)] unicode_escape_find(1) [OF u(1), of x] unicode_escape_find(2) [OF u(1)] by auto
    qed
  qed
qed

theorem jstring_buffer_witness:
  "jstr_loop [CHR 0x5C, CHR ''u'', CHR ''D'', CHR ''8'', CHR ''0'', CHR ''0'', CHR 0x5C, CHR ''u'', CHR ''0'', CHR ''9'', CHR ''0'', CHR ''5'', CHR 0x22] 0 [] =
     JOk [CHR 0xEF, CHR 0xBF, CHR 0xBD, CHR 0xE0, CHR 0xA4, CHR 0x85] 12 \<and> (6 :: nat) \<le> 12"
proof -
  have "jstr_loop [CHR 0x5C, CHR ''u'', CHR ''D'', CHR ''8'', CHR ''0'', CHR ''0'', CHR 0x5C, CHR ''u'', CHR ''0'', CHR ''9'', CHR ''0'', CHR ''5'', CHR 0x22] 0 [] =
     JOk [CHR 0xEF, CHR 0xBF, CHR 0xBD, CHR 0xE0, CHR 0xA4, CHR 0x85] 12"
    by (simp add: jstr_loop.simps unicode_escape_def read4_def hexv_def high_surrogate_def low_surrogate_def surrogate_def put_utf8_def)
  from this jstring_buffer [OF this] show ?thesis by simp
qed

end
