(* ===== verification/Conv.thy ===== *)
theory Conv
  imports Methods Show
begin

section \<open>Conversions (call.c: int\_ranges .. vl\_conv)\<close>

text \<open>
  The conversion \<^verbatim>\<open>T(x)\<close> to a primitive type or a newtype.  What the C library and the program supply
  is the record \<open>conv_env\<close>: the printer's environment, \<^verbatim>\<open>strtod\<close> (the value, whether it read anything,
  whether it set \<^verbatim>\<open>ERANGE\<close>), \<^verbatim>\<open>printf("%g")\<close> and the registered types.  A result is \<^const>\<open>None\<close> when
  the call does not return one: the process ends (\<^verbatim>\<open>vl_abort\<close>), the chain of newtypes is endless, or
  the arithmetic is undefined in C.
\<close>

record conv_env =
  ce_show :: show_env
  ce_strtod :: "string \<Rightarrow> dbl \<times> bool \<times> bool"
  ce_g :: "dbl \<Rightarrow> string"
  ce_types :: registry

subsection \<open>Integer types and integer texts\<close>

definition int_ranges :: "(string \<times> int \<times> int) list" where
  "int_ranges =
     [(''int'', - (2 ^ 63), 2 ^ 63 - 1), (''i64'', - (2 ^ 63), 2 ^ 63 - 1),
      (''i8'', - 128, 127), (''i16'', - 32768, 32767), (''i32'', - 2147483648, 2147483647),
      (''u8'', 0, 255), (''byte'', 0, 255), (''u16'', 0, 65535), (''u32'', 0, 4294967295),
      (''u64'', 0, 2 ^ 63 - 1)]"

definition int_range :: "string \<Rightarrow> (int \<times> int) option" where
  "int_range t = map_of int_ranges t"

definition radix_prefix :: "string \<Rightarrow> int \<times> string" where
  "radix_prefix s =
     (case s of
        c # x # t \<Rightarrow>
          if c = CHR ''0'' \<and> (x = CHR ''x'' \<or> x = CHR ''X'') then (16, t)
          else if c = CHR ''0'' \<and> (x = CHR ''o'' \<or> x = CHR ''O'') then (8, t)
          else if c = CHR ''0'' \<and> (x = CHR ''b'' \<or> x = CHR ''B'') then (2, t)
          else if c = CHR ''0'' then (8, x # t)
          else (10, s)
      | _ \<Rightarrow> (10, s))"

definition digit36 :: "char \<Rightarrow> nat option" where
  "digit36 c =
     (if 48 \<le> byte c \<and> byte c \<le> 57 then Some (byte c - 48)
      else if 97 \<le> byte c \<and> byte c \<le> 122 then Some (byte c - 97 + 10)
      else if 65 \<le> byte c \<and> byte c \<le> 90 then Some (byte c - 65 + 10)
      else None)"

text \<open>The loop over the digits, with its \<^verbatim>\<open>uint64_t\<close> accumulator and the number of digits.\<close>

fun digit_loop :: "int \<Rightarrow> bool \<Rightarrow> string \<Rightarrow> 64 word \<Rightarrow> nat \<Rightarrow> (64 word \<times> nat) option" where
  "digit_loop radix us [] acc nd = Some (acc, nd)"
| "digit_loop radix us (c # s) acc nd =
     (if c = CHR ''_'' \<and> us then digit_loop radix us s acc nd
      else
        case digit36 c of
          None \<Rightarrow> None
        | Some d \<Rightarrow>
            if radix \<le> int d then None
            else digit_loop radix us s (acc * word_of_int radix + of_nat d) (nd + 1))"

datatype int_parse = PI_no | PI_undefined | PI_int int

text \<open>\<^verbatim>\<open>-(int64_t)acc\<close> is undefined for the smallest \<^verbatim>\<open>int64_t\<close>.\<close>

definition parse_int_str :: "string \<Rightarrow> int \<Rightarrow> int_parse" where
  "parse_int_str str radix =
     (let s0 = dropWhile (\<lambda>c. c = CHR '' '' \<or> c = CHR 0x09) (c_text str);
          neg = (s0 \<noteq> [] \<and> hd s0 = CHR ''-'');
          s1 = (if s0 \<noteq> [] \<and> (hd s0 = CHR ''+'' \<or> hd s0 = CHR ''-'') then tl s0 else s0);
          (r, s) = (if radix = 0 then radix_prefix s1 else (radix, s1))
      in case digit_loop r (radix = 0) s 0 0 of
           None \<Rightarrow> PI_no
         | Some (acc, nd) \<Rightarrow>
             if nd = 0 then PI_no
             else if \<not> neg then PI_int (sint acc)
             else if sint acc = - (2 ^ 63) then PI_undefined
             else PI_int (- sint acc))"

subsection \<open>The conversions\<close>

definition vl_throw_conv :: "conv_env \<Rightarrow> string \<Rightarrow> string \<Rightarrow> val \<Rightarrow> exn" where
  "vl_throw_conv E from to v = ConvError from to (vl_tostr (ce_show E) 0 v)"

definition to_int_checked :: "conv_env \<Rightarrow> val \<Rightarrow> string \<Rightarrow> val option \<Rightarrow> int result option" where
  "to_int_checked E v target base =
     (case v of
        V_int i \<Rightarrow> Some (Inr i)
      | V_rune r \<Rightarrow> Some (Inr (int r))
      | V_float f \<Rightarrow>
          (case fl_num f of
             FFin q \<Rightarrow>
               if q \<ge> 2 ^ 63 \<or> q \<le> - (2 ^ 63) then Some (Inl (vl_throw_conv E ''float'' target v))
               else Some (Inr (trunc_rat q))
           | _ \<Rightarrow> Some (Inl (vl_throw_conv E ''float'' target v)))
      | O_dec d \<Rightarrow>
          (case vl_dec_to_int (vl_dec_trunc d) of
             None \<Rightarrow> Some (Inl (vl_throw_conv E ''dec'' target v))
           | Some n \<Rightarrow> Some (Inr n))
      | O_str s \<Rightarrow>
          (let radix = (case base of Some (V_int b) \<Rightarrow> sint (word_of_int b :: 32 word) | _ \<Rightarrow> 10)
           in case parse_int_str s radix of
                PI_no \<Rightarrow> Some (Inl (vl_throw_conv E ''str'' target v))
              | PI_undefined \<Rightarrow> None
              | PI_int n \<Rightarrow> Some (Inr n))
      | _ \<Rightarrow> Some (Inl (vl_throw_conv E (vl_kind_name v) target v)))"

definition conv_target :: "string \<Rightarrow> bool" where
  "conv_target t \<longleftrightarrow> int_range t \<noteq> None \<or> t \<in> {''float'', ''f32'', ''dec'', ''str'', ''rune'', ''bool''}"

definition to_float :: "conv_env \<Rightarrow> val \<Rightarrow> val result" where
  "to_float E v =
     (case v of
        V_int i \<Rightarrow> Inr (V_float (fl_of_int i))
      | V_rune r \<Rightarrow> Inr (V_float (fl_of_int (int r)))
      | V_float f \<Rightarrow> Inr v
      | O_dec d \<Rightarrow>
          (let f = fst (ce_strtod E (vl_dec_str d))
           in case fl_num f of FInf _ \<Rightarrow> Inl (vl_throw_conv E ''dec'' ''float'' v) | _ \<Rightarrow> Inr (V_float f))
      | O_str s \<Rightarrow>
          (case ce_strtod E (c_text s) of
             (f, read, erange) \<Rightarrow>
               if \<not> read \<or> erange \<and> (case fl_num f of FInf _ \<Rightarrow> True | _ \<Rightarrow> False)
               then Inl (vl_throw_conv E ''str'' ''float'' v)
               else Inr (V_float f))
      | _ \<Rightarrow> Inl (vl_throw_conv E (vl_kind_name v) ''float'' v))"

definition vl_dec_from_float :: "conv_env \<Rightarrow> dbl \<Rightarrow> val result" where
  "vl_dec_from_float E f =
     (if fl_num f = FNan \<or> fl_lt (fl_of_int (17 * 10 ^ 307)) f \<or> fl_lt f (fl_of_int (- (17 * 10 ^ 307)))
      then Inl (Throw ''ConvError'' (''cannot convert '' @ ce_g E f @ '' to dec''))
      else
        case parse_into (vl_fmt_float (ce_show E) f) of
          None \<Rightarrow> Inl (Throw ''ConvError'' (''cannot convert '' @ ce_g E f @ '' to dec''))
        | Some (n, ds, x) \<Rightarrow> Inr (O_dec (DecCore.make n ds x)))"

definition to_dec :: "conv_env \<Rightarrow> val \<Rightarrow> val result" where
  "to_dec E v =
     (case v of
        O_dec d \<Rightarrow> Inr v
      | V_int i \<Rightarrow> Inr (O_dec (vl_dec_from_int i))
      | V_float f \<Rightarrow> vl_dec_from_float E f
      | O_str s \<Rightarrow> map_sum id O_dec (vl_dec_parse (dropWhile (\<lambda>c. c = CHR '' '' \<or> c = CHR 0x09) (c_text s)))
      | _ \<Rightarrow> Inl (vl_throw_conv E (vl_kind_name v) ''dec'' v))"

text \<open>The conversions to a primitive type: the branches of \<^verbatim>\<open>vl_conv\<close> after the one for newtypes.\<close>

definition conv_prim :: "conv_env \<Rightarrow> string \<Rightarrow> val \<Rightarrow> val option \<Rightarrow> val result option" where
  "conv_prim E type v base =
     (case int_range type of
        Some (lo, hi) \<Rightarrow>
          map_option (\<lambda>r. case r of
              Inl e \<Rightarrow> Inl e
            | Inr n \<Rightarrow> if n < lo \<or> n > hi then Inl (vl_throw_conv E (vl_kind_name v) type v) else Inr (V_int n))
            (to_int_checked E v type base)
      | None \<Rightarrow>
          if type = ''float'' \<or> type = ''f32'' then Some (to_float E v)
          else if type = ''dec'' then Some (to_dec E v)
          else if type = ''str'' then Some (Inr (O_str (vl_tostr (ce_show E) 0 v)))
          else if type = ''rune'' then
            Some (case v of
                V_rune r \<Rightarrow> Inr v
              | V_int i \<Rightarrow> Inr (V_rune (nat (i mod 2 ^ 32)))
              | _ \<Rightarrow> Inl (vl_throw_conv E (vl_kind_name v) ''rune'' v))
          else if type = ''bool'' then
            Some (case v of V_bool b \<Rightarrow> Inr v | _ \<Rightarrow> Inl (vl_throw_conv E (vl_kind_name v) ''bool'' v))
          else None)"

definition underlying :: "vtype \<Rightarrow> string" where
  "underlying t = (case ty_ftypes t of [] \<Rightarrow> [] | u # _ \<Rightarrow> u)"

definition is_newtype_name :: "conv_env \<Rightarrow> string \<Rightarrow> bool" where
  "is_newtype_name E t \<longleftrightarrow> (case vl_user_type (ce_types E) t of Some u \<Rightarrow> ty_newtype u | None \<Rightarrow> False)"

definition vl_newtype_wrap :: "vtype \<Rightarrow> val \<Rightarrow> val" where
  "vl_newtype_wrap t v = O_struct t [v]"

partial_function (option) vl_conv :: "conv_env \<Rightarrow> string \<Rightarrow> val \<Rightarrow> val option \<Rightarrow> val result option" where
  "vl_conv E type v base =
     (if is_newtype_name E type then
        Option.bind
          (if conv_target (underlying (the (vl_user_type (ce_types E) type))) \<or>
              is_newtype_name E (underlying (the (vl_user_type (ce_types E) type)))
           then vl_conv E (underlying (the (vl_user_type (ce_types E) type))) (vl_deref v) base
           else Some (Inr (vl_deref v)))
          (\<lambda>r. Some (map_sum id (vl_newtype_wrap (the (vl_user_type (ce_types E) type))) r))
      else conv_prim E type (vl_deref v) base)"

declare vl_conv.simps [code]

subsection \<open>Integer texts\<close>

definition radix_value :: "int \<Rightarrow> string \<Rightarrow> int" where
  "radix_value r cs = foldl (\<lambda>a c. a * r + int (the (digit36 c))) 0 cs"

definition radix_digits :: "int \<Rightarrow> string \<Rightarrow> bool" where
  "radix_digits r cs \<longleftrightarrow> (\<forall>c \<in> set cs. \<exists>d. digit36 c = Some d \<and> int d < r)"

lemma digit36_plain: "digit36 c = Some d \<Longrightarrow>
    c \<noteq> CHR ''_'' \<and> c \<noteq> CHR '' '' \<and> c \<noteq> CHR 0x09 \<and> c \<noteq> CHR ''-'' \<and> c \<noteq> CHR ''+'' \<and> byte c \<noteq> 0"
  by (auto simp: digit36_def split: if_splits)

lemma digit_loop_value:
  "radix_digits r cs \<Longrightarrow>
    digit_loop r us cs (word_of_int a) k =
      Some (word_of_int (foldl (\<lambda>a c. a * r + int (the (digit36 c))) a cs), k + length cs)"
proof (induction cs arbitrary: a k)
  case (Cons c cs)
  then obtain d where d: "digit36 c = Some d" "int d < r" by (auto simp: radix_digits_def)
  have "word_of_int a * word_of_int r + of_nat d = (word_of_int (a * r + int d) :: 64 word)"
    by simp
  then show ?case
    using Cons.IH [of "a * r + int d" "Suc k"] Cons.prems d digit36_plain [OF d(1)]
    by (simp add: radix_digits_def)
qed simp

lemma sint_to_i64: "sint (word_of_int v :: 64 word) = to_i64 v"
proof -
  have m: "0 \<le> v mod 2 ^ 64" by simp
  have u: "unat (word_of_int v :: 64 word) = nat (v mod 2 ^ 64)"
    by (simp add: unat_eq_nat_uint uint_word_of_int)
  show ?thesis
    unfolding sint_cases u to_i64_def using m nat_less_iff [OF m, of "2 ^ 63"] by simp
qed

lemma parse_int_digits:
  assumes "2 \<le> r" "radix_digits r cs" "cs \<noteq> []"
  shows "parse_int_str cs r = PI_int (to_i64 (radix_value r cs))"
    and "parse_int_str (CHR ''-'' # cs) r =
      (if to_i64 (radix_value r cs) = - (2 ^ 63) then PI_undefined else PI_int (- to_i64 (radix_value r cs)))"
proof -
  obtain c t where cs: "cs = c # t" using assms(3) by (cases cs) auto
  then obtain d where "digit36 c = Some d" using assms(2) by (auto simp: radix_digits_def)
  note p = digit36_plain [OF this]
  have "c_text cs = cs"
    unfolding c_text_def takeWhile_eq_all_conv using assms(2) digit36_plain by (fastforce simp: radix_digits_def)
  moreover have "c_text (CHR ''-'' # cs) = CHR ''-'' # c_text cs" by (simp add: c_text_def)
  moreover have "digit_loop r False cs 0 0 = Some (word_of_int (radix_value r cs), length cs)"
    using digit_loop_value [OF assms(2), of False 0 0] by (simp add: radix_value_def)
  ultimately show "parse_int_str cs r = PI_int (to_i64 (radix_value r cs))"
    "parse_int_str (CHR ''-'' # cs) r =
      (if to_i64 (radix_value r cs) = - (2 ^ 63) then PI_undefined else PI_int (- to_i64 (radix_value r cs)))"
    using assms(1) p by (simp_all add: parse_int_str_def Let_def cs sint_to_i64)
qed

lemma digit36_digit_char: "d < 10 \<Longrightarrow> digit36 (digit_char d) = Some d"
  by (simp add: digit36_def)

lemma nat_text_radix:
  "radix_digits 10 (nat_text n)" "radix_value 10 (nat_text n) = int n" "nat_text n \<noteq> []"
proof -
  define ds where "ds = (if n = 0 then [0] else int_digits n [])"
  have ds: "digits ds" "dval ds = n" using int_digits_props [of "[]" n] by (auto simp: ds_def)
  have "foldl (\<lambda>a c. a * 10 + int (the (digit36 c))) (int a) (map digit_char ds) = int (foldl (\<lambda>a d. 10 * a + d) a ds)" for a
    using ds(1)
  proof (induction ds arbitrary: a)
    case (Cons d ds)
    then show ?case using Cons.IH [of "10 * a + d"] by (simp add: digit36_digit_char mult.commute)
  qed simp
  from this [of 0] show "radix_value 10 (nat_text n) = int n"
    using ds by (simp add: radix_value_def nat_text_def ds_def dval_def)
  show "radix_digits 10 (nat_text n)" using ds(1)
    by (auto simp: radix_digits_def nat_text_def digits_def digit36_digit_char ds_def [symmetric])
  show "nat_text n \<noteq> []" using ds by (auto simp: nat_text_def ds_def)
qed

subsection \<open>Properties\<close>

text \<open>An environment without user types.\<close>

definition plain_env :: conv_env where
  "plain_env = \<lparr>ce_show = \<lparr>se_show = \<lambda>_. None, se_sci = \<lambda>_ _. [], se_strtod = \<lambda>_. 0, se_opaque = \<lambda>_ _. []\<rparr>,
     ce_strtod = \<lambda>_. (0, False, False), ce_g = \<lambda>_. [], ce_types = \<lparr>g_types = [], g_vars = [], g_methods = [], g_mhash = []\<rparr>\<rparr>"

lemma plain_env_newtypes [simp]: "\<not> is_newtype_name plain_env t"
  by (simp add: is_newtype_name_def plain_env_def vl_user_type_def)

lemma int_text_min: "parse_int_str (int_text (- (2 ^ 63))) 10 = PI_undefined"
  using parse_int_digits(2) [OF _ nat_text_radix(1,3) [of "2 ^ 63"], unfolded nat_text_radix(2)]
  by (simp add: int_text_def to_i64_def)

text \<open>C27. Printing and converting back, for every 64-bit integer: except for the smallest, the text the
  runtime prints converts to every integer type that holds the integer as the same integer, and to one
  that does not as a \<^verbatim>\<open>ConvError\<close> with the source type, the target and the text.  The text of the
  smallest integer, \<open>- (2 ^ 63)\<close>, converts to no integer type: the parser accumulates the digits and
  then negates, which overflows, and what C does is undefined.\<close>

theorem int_print_parse:
  assumes "i64 n" "int_range t = Some (lo, hi)" "\<not> is_newtype_name E t"
  shows "vl_conv E t (O_str (vl_tostr S 0 (V_int n))) None =
    (if n = - (2 ^ 63) then None
     else Some (if lo \<le> n \<and> n \<le> hi then Inr (V_int n) else Inl (ConvError ''str'' t (int_text n))))"
proof (cases "n = - (2 ^ 63)")
  case True
  then show ?thesis
    using assms(2,3) int_text_min by (subst vl_conv.simps) (simp add: conv_prim_def to_int_checked_def)
next
  case False
  with assms(1) have n: "- (2 ^ 63) < n" "n < 2 ^ 63" by (auto simp: i64_def)
  have i: "i64 (int (nat \<bar>n\<bar>))" using n by (auto simp: i64_def)
  note p = parse_int_digits [OF _ nat_text_radix(1,3) [of "nat \<bar>n\<bar>"], unfolded nat_text_radix(2) to_i64_id [OF i]]
  have "parse_int_str (int_text n) 10 = PI_int n"
    using p n by (auto simp: int_text_def)
  then show ?thesis
    using assms(2,3) False by (subst vl_conv.simps)
      (simp add: conv_prim_def to_int_checked_def vl_throw_conv_def not_less not_le)
qed

theorem int_print_parse_witness:
  "vl_conv plain_env ''i8'' (O_str (vl_tostr (ce_show plain_env) 0 (V_int (- 128)))) None = Some (Inr (V_int (- 128))) \<and>
   vl_conv plain_env ''i8'' (O_str (vl_tostr (ce_show plain_env) 0 (V_int 128))) None =
     Some (Inl (ConvError ''str'' ''i8'' (int_text 128)))"
proof -
  have "int_range ''i8'' = Some (- 128, 127)" by code_simp
  then show ?thesis
    using int_print_parse [of "- 128" "''i8''" "- 128" 127 plain_env "ce_show plain_env"]
      int_print_parse [of 128 "''i8''" "- 128" 127 plain_env "ce_show plain_env"] by (simp add: i64_def)
qed

text \<open>A text of digits that does not fit is not refused: in every radix the conversion of a digit
  string gives its value modulo \<open>2 ^ 64\<close>, read as a signed number, so \<^verbatim>\<open>int("18446744073709551617")\<close> is 1
  and \<^verbatim>\<open>u8("18446744073709551620")\<close> is 4; the text of the smallest integer leaves defined
  behaviour.\<close>

theorem int_text_wraps:
  assumes "2 \<le> r" "radix_digits r cs" "cs \<noteq> []"
  shows "parse_int_str cs r = PI_int (to_i64 (radix_value r cs)) \<and>
    vl_conv plain_env ''int'' (O_str ''18446744073709551617'') None = Some (Inr (V_int 1)) \<and>
    vl_conv plain_env ''u8'' (O_str ''18446744073709551620'') None = Some (Inr (V_int 4)) \<and>
    vl_conv plain_env ''int'' (O_str (int_text (- (2 ^ 63)))) None = None"
proof (intro conjI)
  show "parse_int_str cs r = PI_int (to_i64 (radix_value r cs))" by (rule parse_int_digits [OF assms])
  have p: "parse_int_str ''18446744073709551617'' 10 = PI_int 1" "parse_int_str ''18446744073709551620'' 10 = PI_int 4"
    by (code_simp, code_simp)
  then show "vl_conv plain_env ''int'' (O_str ''18446744073709551617'') None = Some (Inr (V_int 1))"
    "vl_conv plain_env ''u8'' (O_str ''18446744073709551620'') None = Some (Inr (V_int 4))"
    by (simp_all add: vl_conv.simps conv_prim_def to_int_checked_def int_range_def int_ranges_def)
  show "vl_conv plain_env ''int'' (O_str (int_text (- (2 ^ 63)))) None = None"
    using int_text_min by (simp add: vl_conv.simps conv_prim_def to_int_checked_def int_range_def int_ranges_def)
qed

theorem int_text_wraps_witness:
  "parse_int_str ''zz'' 36 = PI_int (to_i64 (radix_value 36 ''zz'')) \<and> radix_value 36 ''zz'' = 1295"
proof -
  have "radix_digits 36 ''zz''" "radix_value 36 ''zz'' = 1295"
    by (simp_all add: radix_digits_def radix_value_def digit36_def)
  then show ?thesis using int_text_wraps [of 36 "''zz''"] by simp
qed

text \<open>A type name and the primitive type at the end of its chain of newtypes.\<close>

inductive over :: "conv_env \<Rightarrow> string \<Rightarrow> string \<Rightarrow> bool" for E where
  over_prim: "\<not> is_newtype_name E p \<Longrightarrow> conv_target p \<Longrightarrow> over E p p"
| over_newtype: "is_newtype_name E t \<Longrightarrow> over E (underlying (the (vl_user_type (ce_types E) t))) p \<Longrightarrow> over E t p"

lemma vl_deref_idem [simp]: "vl_deref (vl_deref v) = vl_deref v"
  by (induction v rule: vl_deref.induct) simp_all

lemma is_newtype_nameD: "is_newtype_name E t \<Longrightarrow> ty_newtype (the (vl_user_type (ce_types E) t))"
  by (auto simp: is_newtype_name_def split: option.splits)

lemma over_target: "over E t p \<Longrightarrow> conv_target t \<or> is_newtype_name E t"
  by (induction rule: over.induct) simp_all

lemma map_sum_Inr: "map_sum f g z = Inr r \<longleftrightarrow> (\<exists>x. z = Inr x \<and> r = g x)"
  by (cases z) auto

text \<open>A result with the newtypes and boxes around it taken off.\<close>

definition inside :: "val result option \<Rightarrow> val result option" where
  "inside = map_option (map_sum id vl_deref)"

lemma inside_wrap [simp]: "ty_newtype u \<Longrightarrow> inside (map_option (map_sum id (vl_newtype_wrap u)) z) = inside z"
  by (cases z rule: option.exhaust [case_names None Some])
    (auto simp: inside_def vl_newtype_wrap_def map_sum_def split: sum.splits)

lemma inside_Inr: "inside z = Some (Inr r) \<longleftrightarrow> (\<exists>x. z = Some (Inr x) \<and> r = vl_deref x)"
  by (auto simp: inside_def map_sum_Inr)

lemma conv_over:
  assumes "over E t p"
  shows "inside (vl_conv E t v base) = inside (conv_prim E p (vl_deref v) base) \<and>
    (is_newtype_name E t \<longrightarrow> (\<forall>r. vl_conv E t v base = Some (Inr r) \<longrightarrow> vl_is_newtype r))"
  using assms
proof (induction arbitrary: v rule: over.induct)
  case (over_prim p)
  then show ?case by (subst vl_conv.simps) simp
next
  case (over_newtype t p)
  let ?u = "the (vl_user_type (ce_types E) t)"
  note n = is_newtype_nameD [OF over_newtype.hyps(1)]
  have c: "vl_conv E t v base =
      map_option (map_sum id (vl_newtype_wrap ?u)) (vl_conv E (underlying ?u) (vl_deref v) base)"
    using over_newtype.hyps over_target [OF over_newtype.hyps(2)]
    by (subst vl_conv.simps) (auto simp: map_option_case split: option.splits)
  have "inside (vl_conv E t v base) = inside (vl_conv E (underlying ?u) (vl_deref v) base)"
    using n by (simp add: c)
  moreover have "vl_is_newtype r" if "vl_conv E t v base = Some (Inr r)" for r
    using that n unfolding c by (auto simp: map_sum_Inr vl_newtype_wrap_def)
  ultimately show ?case using over_newtype.IH [of "vl_deref v"] by simp
qed

text \<open>C26. A conversion to an integer type, or to a newtype over one however long the chain of newtypes
  between them, never gives a value outside the range of that type, and gives the newtype asked
  for; an integer and a rune keep their value, a float and a decimal lose their fraction only.\<close>

theorem conversion_keeps_range:
  assumes "over E t p" "int_range p = Some (lo, hi)" "vl_conv E t v base = Some (Inr r)"
  shows "\<exists>n. vl_deref r = V_int n \<and> lo \<le> n \<and> n \<le> hi \<and> (is_newtype_name E t \<longrightarrow> vl_is_newtype r) \<and>
    (case vl_deref v of
       V_int i \<Rightarrow> n = i
     | V_rune c \<Rightarrow> n = int c
     | V_float f \<Rightarrow> (\<exists>q. fl_num f = FFin q \<and> n = trunc_rat q)
     | O_dec d \<Rightarrow> dec_ok d \<longrightarrow> n = trunc_rat (dec_rat d)
     | _ \<Rightarrow> True)"
proof -
  note c = conv_over [OF assms(1), of v base, unfolded assms(3)]
  then have "inside (conv_prim E p (vl_deref v) base) = Some (Inr (vl_deref r))" by (simp add: inside_def)
  then obtain x where x: "conv_prim E p (vl_deref v) base = Some (Inr x)" "vl_deref r = vl_deref x"
    unfolding inside_Inr by blast
  obtain z where z: "to_int_checked E (vl_deref v) p base = Some z"
    "(case z of Inl e \<Rightarrow> Inl e | Inr n \<Rightarrow> if n < lo \<or> n > hi then Inl (vl_throw_conv E (vl_kind_name (vl_deref v)) p (vl_deref v)) else Inr (V_int n)) = Inr x"
    using x(1) assms(2) by (auto simp: conv_prim_def)
  then obtain n where n: "to_int_checked E (vl_deref v) p base = Some (Inr n)" "x = V_int n" "lo \<le> n" "n \<le> hi"
    by (cases z) (auto split: if_splits)
  have d: "n = trunc_rat (dec_rat d)" if "vl_deref v = O_dec d" "dec_ok d" for d
  proof -
    note t = vl_dec_trunc_correct(1,2) [OF that(2)]
    have "vl_dec_to_int (vl_dec_trunc d) = Some n"
      using n(1) by (simp add: that(1) to_int_checked_def split: option.splits)
    then have "dec_rat (vl_dec_trunc d) = of_int n" unfolding vl_dec_to_int_correct [OF t(1)] ..
    then show ?thesis unfolding t(2) by (simp only: of_int_eq_iff)
  qed
  have f: "\<exists>q. fl_num g = FFin q \<and> n = trunc_rat q" if "vl_deref v = V_float g" for g
    using n(1) that by (auto simp: to_int_checked_def split: flnum.splits if_splits)
  have "case vl_deref v of
       V_int i \<Rightarrow> n = i
     | V_rune c \<Rightarrow> n = int c
     | V_float f \<Rightarrow> (\<exists>q. fl_num f = FFin q \<and> n = trunc_rat q)
     | O_dec d \<Rightarrow> dec_ok d \<longrightarrow> n = trunc_rat (dec_rat d)
     | _ \<Rightarrow> True"
    using n(1) d f by (cases "vl_deref v") (simp_all add: to_int_checked_def)
  moreover have "vl_deref r = V_int n" using x(2) n(2) by simp
  ultimately show ?thesis
    using n(3,4) conjunct2 [OF c] by (intro exI [of _ n] conjI impI) simp_all
qed

text \<open>\<^verbatim>\<open>type Age u8\<close> and \<^verbatim>\<open>type Years Age\<close>.\<close>

definition ages_env :: conv_env where
  "ages_env = plain_env\<lparr>ce_types := \<lparr>g_types =
     [\<lparr>ty_addr = 1, ty_name = ''Age'', ty_fields = [[]], ty_ftypes = [''u8''], ty_newtype = True\<rparr>,
      \<lparr>ty_addr = 2, ty_name = ''Years'', ty_fields = [[]], ty_ftypes = [''Age''], ty_newtype = True\<rparr>],
     g_vars = [], g_methods = [], g_mhash = []\<rparr>\<rparr>"

theorem conversion_keeps_range_witness:
  "\<exists>r n. vl_conv ages_env ''Years'' (V_int 200) None = Some (Inr r) \<and> vl_deref r = V_int n \<and> n = 200 \<and> vl_is_newtype r \<and>
    vl_conv ages_env ''Years'' (V_int 300) None = Some (Inl (ConvError ''int'' ''u8'' ''300''))"
proof -
  have nt: "is_newtype_name ages_env ''Years''" "is_newtype_name ages_env ''Age''" "\<not> is_newtype_name ages_env ''u8''"
    "conv_target ''u8''" "underlying (the (vl_user_type (ce_types ages_env) ''Years'')) = ''Age''"
    "underlying (the (vl_user_type (ce_types ages_env) ''Age'')) = ''u8''" "int_range ''u8'' = Some (0, 255)"
    by (simp_all add: is_newtype_name_def ages_env_def vl_user_type_def c_text_def conv_target_def underlying_def
        int_range_def int_ranges_def plain_env_def)
  have "over ages_env ''Age'' ''u8''" using nt over_prim by (metis over_newtype)
  then have o: "over ages_env ''Years'' ''u8''" using nt by (metis over_newtype)
  have "vl_conv ages_env ''Years'' (V_int 300) None = Some (Inl (ConvError ''int'' ''u8'' (int_text 300)))"
    by (simp add: vl_conv.simps [of _ "''Years''"] vl_conv.simps [of _ "''Age''"] vl_conv.simps [of _ "''u8''"] nt
        conv_prim_def to_int_checked_def vl_throw_conv_def)
  moreover have "int_text 300 = ''300''" by code_simp
  moreover obtain r where r: "vl_conv ages_env ''Years'' (V_int 200) None = Some (Inr r)"
    by (simp add: vl_conv.simps [of _ "''Years''"] vl_conv.simps [of _ "''Age''"] vl_conv.simps [of _ "''u8''"] nt
        conv_prim_def to_int_checked_def)
  ultimately show ?thesis using conversion_keeps_range [OF o nt(7) r] nt(1) by auto
qed

end
