(* ===== verification/Ops.thy ===== *)
theory Ops
  imports Conv
begin

section \<open>Operators on values (ops.c: derune .. vl\_truthy)\<close>

text \<open>
  The operators the compiled program applies when it does not know the types of the operands.  What
  is not the runtime's own is the record \<open>ops_env\<close>: the environment of conversions, the digits
  context of decimals, the C library's \<^verbatim>\<open>pow\<close>, and calls of the program's methods.  A result is
  \<^const>\<open>None\<close> when C leaves the arithmetic undefined (an overflow of a duration) or a call does not
  return.
\<close>

unbundle bit_operations_syntax

record ops_env =
  oe_conv :: conv_env
  oe_digits :: int
  oe_pow :: "dbl \<Rightarrow> dbl \<Rightarrow> dbl"
  oe_call :: "vmethod \<Rightarrow> val list \<Rightarrow> val result option"

text \<open>An operation whose result another one uses.\<close>

definition and_then :: "'a result option \<Rightarrow> ('a \<Rightarrow> 'b result option) \<Rightarrow> 'b result option" where
  "and_then m f = (case m of None \<Rightarrow> None | Some (Inl e) \<Rightarrow> Some (Inl e) | Some (Inr x) \<Rightarrow> f x)"

lemma and_then_simps [simp]:
  "and_then None f = None" "and_then (Some (Inl e)) f = Some (Inl e)" "and_then (Some (Inr x)) f = f x"
  by (simp_all add: and_then_def)

definition is_obj :: "val \<Rightarrow> bool" where
  "is_obj v \<longleftrightarrow>
     (case v of V_nil \<Rightarrow> False | V_unit \<Rightarrow> False | V_bool _ \<Rightarrow> False | V_int _ \<Rightarrow> False | V_float _ \<Rightarrow> False
      | V_rune _ \<Rightarrow> False | V_dur _ \<Rightarrow> False | V_instant _ \<Rightarrow> False | _ \<Rightarrow> True)"

definition derune :: "val \<Rightarrow> val" where
  "derune v = (case v of V_rune r \<Rightarrow> V_int (int r) | _ \<Rightarrow> v)"

datatype arith_op =
    OP_ADD | OP_SUB | OP_MUL | OP_DIV | OP_IDIV | OP_MOD | OP_POW | OP_LT | OP_LE | OP_GT | OP_GE

definition ordering :: "arith_op \<Rightarrow> bool" where
  "ordering op \<longleftrightarrow> op \<in> {OP_LT, OP_LE, OP_GT, OP_GE}"

text \<open>The answer of an ordering operator from a three-way comparison.\<close>

definition order_bool :: "arith_op \<Rightarrow> int \<Rightarrow> val" where
  "order_bool op c =
     V_bool (case op of OP_LT \<Rightarrow> c < 0 | OP_LE \<Rightarrow> c \<le> 0 | OP_GT \<Rightarrow> c > 0 | _ \<Rightarrow> c \<ge> 0)"

subsection \<open>Durations\<close>

definition dur_val :: "int \<Rightarrow> val result option" where
  "dur_val n = (if i64 n then Some (Inr (V_dur n)) else None)"

definition dur_op :: "arith_op \<Rightarrow> val \<Rightarrow> val \<Rightarrow> val result option" where
  "dur_op op a b =
     (case (a, b) of
        (V_dur x, V_dur y) \<Rightarrow>
          (case op of
             OP_ADD \<Rightarrow> dur_val (x + y)
           | OP_SUB \<Rightarrow> dur_val (x - y)
           | OP_DIV \<Rightarrow>
               if y = 0 then Some (Inl (Throw ''RangeError'' ''division by zero''))
               else Some (Inr (V_float (fl_div (fl_of_int x) (fl_of_int y))))
           | OP_LT \<Rightarrow> Some (Inr (V_bool (x < y)))
           | OP_LE \<Rightarrow> Some (Inr (V_bool (x \<le> y)))
           | OP_GT \<Rightarrow> Some (Inr (V_bool (x > y)))
           | OP_GE \<Rightarrow> Some (Inr (V_bool (x \<ge> y)))
           | _ \<Rightarrow> Some (Inl (Fault ''invalid duration operation'')))
      | (V_dur x, V_int y) \<Rightarrow>
          (case op of
             OP_MUL \<Rightarrow> dur_val (x * y)
           | OP_DIV \<Rightarrow>
               if y = 0 then Some (Inl (Throw ''RangeError'' ''division by zero'')) else dur_val (x sdiv y)
           | _ \<Rightarrow> Some (Inl (Fault ''invalid duration operation'')))
      | (V_int x, V_dur y) \<Rightarrow>
          if op = OP_MUL then dur_val (x * y) else Some (Inl (Fault ''invalid duration operation''))
      | _ \<Rightarrow> Some (Inl (Fault ''invalid duration operation'')))"

subsection \<open>Integers, floats, decimals, texts\<close>

definition int_arith :: "arith_op \<Rightarrow> int \<Rightarrow> int \<Rightarrow> val result" where
  "int_arith op a b =
     (case op of
        OP_ADD \<Rightarrow> map_sum id V_int (vl_iadd_ck a b)
      | OP_SUB \<Rightarrow> map_sum id V_int (vl_isub_ck a b)
      | OP_MUL \<Rightarrow> map_sum id V_int (vl_imul_ck a b)
      | OP_DIV \<Rightarrow> map_sum id V_float (vl_idivf_ck a b)
      | OP_IDIV \<Rightarrow> map_sum id V_int (vl_ifloordiv a b)
      | OP_MOD \<Rightarrow> map_sum id V_int (vl_ifloormod a b)
      | OP_POW \<Rightarrow> map_sum id V_int (vl_ipow_i a b)
      | OP_LT \<Rightarrow> Inr (V_bool (a < b))
      | OP_LE \<Rightarrow> Inr (V_bool (a \<le> b))
      | OP_GT \<Rightarrow> Inr (V_bool (a > b))
      | OP_GE \<Rightarrow> Inr (V_bool (a \<ge> b)))"

definition float_arith :: "ops_env \<Rightarrow> arith_op \<Rightarrow> dbl \<Rightarrow> dbl \<Rightarrow> val result" where
  "float_arith E op x y =
     (case op of
        OP_ADD \<Rightarrow> Inr (V_float (fl_add x y))
      | OP_SUB \<Rightarrow> Inr (V_float (fl_sub x y))
      | OP_MUL \<Rightarrow> Inr (V_float (fl_mul x y))
      | OP_DIV \<Rightarrow> map_sum id V_float (vl_fdiv_ck x y)
      | OP_IDIV \<Rightarrow> map_sum id V_int (vl_ifloordiv_f (ce_g (oe_conv E)) x y)
      | OP_MOD \<Rightarrow> map_sum id V_float (vl_ffloormod x y)
      | OP_POW \<Rightarrow> Inr (V_float (oe_pow E x y))
      | OP_LT \<Rightarrow> Inr (V_bool (fl_lt x y))
      | OP_LE \<Rightarrow> Inr (V_bool (fl_le x y))
      | OP_GT \<Rightarrow> Inr (V_bool (fl_lt y x))
      | OP_GE \<Rightarrow> Inr (V_bool (fl_le y x)))"

definition dec_arith :: "ops_env \<Rightarrow> arith_op \<Rightarrow> dec \<Rightarrow> dec \<Rightarrow> val result option" where
  "dec_arith E op x y =
     (let n = oe_digits E
      in case op of
           OP_ADD \<Rightarrow> Some (Inr (O_dec (vl_dec_add n x y)))
         | OP_SUB \<Rightarrow> Some (Inr (O_dec (vl_dec_sub n x y)))
         | OP_MUL \<Rightarrow> Some (Inr (O_dec (vl_dec_mul n x y)))
         | OP_DIV \<Rightarrow> map_option (map_sum id O_dec) (vl_dec_div n x y)
         | OP_IDIV \<Rightarrow> map_option (map_sum id O_dec) (vl_dec_idiv n x y)
         | OP_MOD \<Rightarrow> map_option (map_sum id O_dec) (vl_dec_mod n x y)
         | OP_POW \<Rightarrow>
             (case vl_dec_to_int y of
                None \<Rightarrow> Some (Inl (Throw ''RangeError'' ''dec exponent must be an integer''))
              | Some e \<Rightarrow> map_option (map_sum id O_dec) (vl_dec_pow n x e))
         | _ \<Rightarrow> Some (Inr (order_bool op (vl_dec_cmp x y))))"

text \<open>\<^verbatim>\<open>strcmp\<close>: bytes as unsigned characters, up to the first zero byte.\<close>

fun cmp_bytes :: "string \<Rightarrow> string \<Rightarrow> int" where
  "cmp_bytes [] [] = 0"
| "cmp_bytes [] (y # ys) = - 1"
| "cmp_bytes (x # xs) [] = 1"
| "cmp_bytes (x # xs) (y # ys) =
     (if byte x < byte y then - 1 else if byte y < byte x then 1 else cmp_bytes xs ys)"

definition strcmp :: "string \<Rightarrow> string \<Rightarrow> int" where
  "strcmp s t = cmp_bytes (c_text s) (c_text t)"

definition is_dec :: "val \<Rightarrow> bool" where
  "is_dec v \<longleftrightarrow> (case v of O_dec _ \<Rightarrow> True | _ \<Rightarrow> False)"

text \<open>The part of \<^verbatim>\<open>arith\<close> after \<^verbatim>\<open>derune\<close>.\<close>

definition invalid_operands :: "val \<Rightarrow> val \<Rightarrow> exn" where
  "invalid_operands a b = Fault (''invalid operands: '' @ vl_kind_name a @ '' and '' @ vl_kind_name b)"

definition lossy_float :: exn where
  "lossy_float = Throw ''ConvError'' ''implicit float->dec conversion is lossy; use dec(x) or a d-suffixed literal''"

definition plain_arith :: "ops_env \<Rightarrow> arith_op \<Rightarrow> val \<Rightarrow> val \<Rightarrow> val result option" where
  "plain_arith E op a b =
     (case (a, b) of
        (V_dur _, _) \<Rightarrow> dur_op op a b
      | (_, V_dur _) \<Rightarrow> dur_op op a b
      | (O_dec x, O_dec y) \<Rightarrow> dec_arith E op x y
      | (O_dec x, V_int y) \<Rightarrow> dec_arith E op x (vl_dec_from_int y)
      | (V_int x, O_dec y) \<Rightarrow> dec_arith E op (vl_dec_from_int x) y
      | (O_dec _, V_float _) \<Rightarrow> Some (Inl lossy_float)
      | (V_float _, O_dec _) \<Rightarrow> Some (Inl lossy_float)
      | (O_dec _, _) \<Rightarrow> Some (Inl (invalid_operands a b))
      | (_, O_dec _) \<Rightarrow> Some (Inl (invalid_operands a b))
      | (V_int x, V_int y) \<Rightarrow> Some (int_arith op x y)
      | (V_float x, V_float y) \<Rightarrow> Some (float_arith E op x y)
      | (V_float x, V_int y) \<Rightarrow> Some (bind_result (vl_itof_ck y) (float_arith E op x))
      | (V_int x, V_float y) \<Rightarrow> Some (bind_result (vl_itof_ck x) (\<lambda>x'. float_arith E op x' y))
      | (O_str s, O_str t) \<Rightarrow>
          if ordering op then Some (Inr (order_bool op (strcmp s t)))
          else if op = OP_ADD then
            Some (Inl (Fault (''`+` never concatenates; use `||` ('' @ [CHR 0xC2, CHR 0xA7] @ ''5.1)'')))
          else Some (Inl (invalid_operands a b))
      | _ \<Rightarrow> Some (Inl (invalid_operands a b)))"

subsection \<open>Boxes, newtypes and the program's own orders\<close>

definition cmp_type :: "val \<Rightarrow> string option" where
  "cmp_type v =
     (case v of
        O_struct t _ \<Rightarrow> if ty_newtype t then None else Some (ty_name t)
      | O_enum va _ \<Rightarrow> Some (va_type va)
      | _ \<Rightarrow> None)"

text \<open>\<^const>\<open>None\<close> inside: the pair is not ordered by a method \<^verbatim>\<open>cmp\<close>.\<close>

definition user_cmp :: "ops_env \<Rightarrow> val \<Rightarrow> val \<Rightarrow> int option result option" where
  "user_cmp E a b =
     (case (cmp_type a, cmp_type b) of
        (Some ta, Some tb) \<Rightarrow>
          if c_text ta \<noteq> c_text tb then Some (Inr None)
          else
            (case vl_find_method (ce_types (oe_conv E)) (Some ta) ''cmp'' of
               None \<Rightarrow> None
             | Some None \<Rightarrow> Some (Inr None)
             | Some (Some m) \<Rightarrow>
                 if \<not> me_has_self m then Some (Inr None)
                 else
                   and_then (oe_call E m [a, b]) (\<lambda>r.
                     case vl_deref r of
                       V_int i \<Rightarrow> Some (Inr (Some (if i < 0 then - 1 else if i > 0 then 1 else 0)))
                     | d \<Rightarrow> Some (Inl (Fault (ta @ ''.cmp must return an int, got '' @ vl_kind_name d)))))
      | _ \<Rightarrow> Some (Inr None))"

definition wrapped :: "val \<Rightarrow> bool" where
  "wrapped v \<longleftrightarrow> vl_is_box v \<or> vl_is_newtype v"

fun nt_type :: "val \<Rightarrow> vtype option" where
  "nt_type (O_struct t fs) = (if ty_newtype t then Some t else None)"
| "nt_type _ = None"

fun nt_field :: "val \<Rightarrow> val" where
  "nt_field (O_struct t (v # fs)) = v"
| "nt_field v = V_nil"

text \<open>\<^verbatim>\<open>szop\<close>: the operators \<^verbatim>\<open>vl_arith_sz\<close> knows.\<close>

definition szop :: "arith_op \<Rightarrow> bool" where
  "szop op \<longleftrightarrow> op \<in> {OP_ADD, OP_SUB, OP_MUL, OP_POW, OP_IDIV}"

definition op_sign :: "arith_op \<Rightarrow> string" where
  "op_sign op = (case op of OP_ADD \<Rightarrow> ''+'' | OP_SUB \<Rightarrow> ''-'' | OP_MUL \<Rightarrow> ''*'' | OP_POW \<Rightarrow> ''**'' | _ \<Rightarrow> ''~/'')"

definition int_arith_sz :: "arith_op \<Rightarrow> int \<Rightarrow> int \<Rightarrow> sz \<Rightarrow> int result" where
  "int_arith_sz op x y t =
     (case op of
        OP_ADD \<Rightarrow> vl_iadd_sz x y t
      | OP_SUB \<Rightarrow> vl_isub_sz x y t
      | OP_MUL \<Rightarrow> vl_imul_sz x y t
      | OP_POW \<Rightarrow> vl_ipow_sz x y t
      | _ \<Rightarrow> vl_idiv_sz x y t)"

definition int_or_0 :: "val \<Rightarrow> int" where
  "int_or_0 v = (case v of V_int i \<Rightarrow> i | _ \<Rightarrow> 0)"

text \<open>The range check \<^verbatim>\<open>vl_arith_sz\<close> makes of any other result.\<close>

definition check_sz :: "arith_op \<Rightarrow> val \<Rightarrow> val \<Rightarrow> sz \<Rightarrow> val \<Rightarrow> val result option" where
  "check_sz op x y t r =
     (case r of
        V_int i \<Rightarrow>
          if i < vl_sz_lo t \<or> i > vl_sz_hi t then
            Some (Inl (vl_trap_szovf (op_sign op) (int_or_0 x) (int_or_0 y) t))
          else Some (Inr r)
      | _ \<Rightarrow> Some (Inr r))"

definition mixed_named :: "val \<Rightarrow> val \<Rightarrow> exn" where
  "mixed_named a b =
     Fault (''invalid operands: '' @ vl_kind_name a @ '' and '' @ vl_kind_name b @
       '' (a named type mixes only with itself; convert explicitly)'')"

lemma size_unbox: "size (vl_unbox v) \<le> size v" "vl_is_box v \<Longrightarrow> size (vl_unbox v) < size v"
proof -
  show "size (vl_unbox v) \<le> size v" for v by (induction v rule: vl_unbox.induct) simp_all
  then show "vl_is_box v \<Longrightarrow> size (vl_unbox v) < size v" by (cases v) (simp_all add: less_Suc_eq_le)
qed

lemma size_nt_field: "nt_type v = Some t \<Longrightarrow> size (nt_field v) < size v"
  by (cases v rule: nt_field.cases) (auto split: if_splits)

lemma nt_type_newtype: "nt_type v = None \<longleftrightarrow> \<not> vl_is_newtype v"
  by (cases v) simp_all

lemma size_nt_pair:
  "nt_type (vl_unbox a) = Some t \<Longrightarrow> nt_type (vl_unbox b) = Some u \<Longrightarrow>
    size (nt_field (vl_unbox a)) + size (nt_field (vl_unbox b)) + 2 \<le> size a + size b"
  using size_nt_field [of "vl_unbox a" t] size_nt_field [of "vl_unbox b" u] size_unbox(1) [of a] size_unbox(1) [of b]
  by linarith

lemma size_unbox_pair:
  assumes "nt_type (vl_unbox a) = None" "nt_type (vl_unbox b) = None" "wrapped a \<or> wrapped b"
  shows "size (vl_unbox a) + size (vl_unbox b) < size a + size b"
proof -
  have "vl_is_box v" if "nt_type (vl_unbox v) = None" "wrapped v" for v
    using that by (cases v) (auto simp: wrapped_def)
  then have "vl_is_box a \<or> vl_is_box b" using assms by blast
  then show ?thesis using size_unbox [of a] size_unbox [of b] by linarith
qed

text \<open>\<^verbatim>\<open>arith\<close>, \<^verbatim>\<open>nt_arith\<close> and \<^verbatim>\<open>vl_arith_sz\<close> call each other; every round takes a box or a
  newtype off.\<close>

function (sequential) arith :: "ops_env \<Rightarrow> arith_op \<Rightarrow> val \<Rightarrow> val \<Rightarrow> val result option"
  and nt_arith :: "ops_env \<Rightarrow> arith_op \<Rightarrow> val \<Rightarrow> val \<Rightarrow> val result option"
  and vl_arith_sz :: "ops_env \<Rightarrow> arith_op \<Rightarrow> val \<Rightarrow> val \<Rightarrow> sz \<Rightarrow> val result option" where
  "arith E op a b =
     (case (if ordering op \<and> is_obj a \<and> is_obj b then user_cmp E (vl_unbox a) (vl_unbox b) else Some (Inr None)) of
        None \<Rightarrow> None
      | Some (Inl e) \<Rightarrow> Some (Inl e)
      | Some (Inr (Some c)) \<Rightarrow> Some (Inr (order_bool op c))
      | Some (Inr None) \<Rightarrow>
          if wrapped a \<or> wrapped b then nt_arith E op a b else plain_arith E op (derune a) (derune b))"
| "nt_arith E op a b =
     (case (nt_type (vl_unbox a), nt_type (vl_unbox b)) of
        (None, None) \<Rightarrow> arith E op (vl_unbox a) (vl_unbox b)
      | (Some t, Some u) \<Rightarrow>
          if t \<noteq> u then Some (Inl (mixed_named (vl_unbox a) (vl_unbox b)))
          else
            and_then
              (case sz_code (underlying t) of
                 Some z \<Rightarrow>
                   if szop op then vl_arith_sz E op (nt_field (vl_unbox a)) (nt_field (vl_unbox b)) z
                   else arith E op (nt_field (vl_unbox a)) (nt_field (vl_unbox b))
               | None \<Rightarrow> arith E op (nt_field (vl_unbox a)) (nt_field (vl_unbox b)))
              (\<lambda>r. if ordering op \<or> op = OP_DIV then Some (Inr r) else vl_conv (oe_conv E) (ty_name t) r None)
      | _ \<Rightarrow> Some (Inl (mixed_named (vl_unbox a) (vl_unbox b))))"
| "vl_arith_sz E op a b t =
     (case (derune (vl_deref a), derune (vl_deref b)) of
        (V_int x, V_int y) \<Rightarrow> Some (map_sum id V_int (int_arith_sz op x y t))
      | (x, y) \<Rightarrow>
          and_then (arith E (if szop op then op else OP_IDIV) a b) (check_sz op x y t))"
  by pat_completeness auto
termination
proof (relation "measure (\<lambda>p. case p of
      Inl (E, op, a, b) \<Rightarrow> 3 * (size a + size b) + 2
    | Inr (Inl (E, op, a, b)) \<Rightarrow> 3 * (size a + size b) + (if wrapped a \<or> wrapped b then 1 else 3)
    | Inr (Inr (E, op, a, b, t)) \<Rightarrow> 3 * (size a + size b) + 3)", goal_cases)
  case (3 E op a b)
  then show ?case using size_unbox_pair [of a b] size_unbox(1) [of a] size_unbox(1) [of b] by auto
next
  case (4 E op a b)
  then obtain t u where "nt_type (vl_unbox a) = Some t" "nt_type (vl_unbox b) = Some u" by fastforce
  from size_nt_pair [OF this] show ?case by simp
next
  case (5 E op a b)
  then obtain t u where "nt_type (vl_unbox a) = Some t" "nt_type (vl_unbox b) = Some u" by fastforce
  from size_nt_pair [OF this] show ?case by simp
next
  case (6 E op a b)
  then obtain t u where "nt_type (vl_unbox a) = Some t" "nt_type (vl_unbox b) = Some u" by fastforce
  from size_nt_pair [OF this] show ?case by simp
qed simp_all

declare arith.simps [simp del] nt_arith.simps [simp del] vl_arith_sz.simps [simp del]

subsection \<open>The other operators\<close>

function vl_neg :: "ops_env \<Rightarrow> val \<Rightarrow> val result option" where
  "vl_neg E a =
     (case nt_type (vl_unbox a) of
        Some t \<Rightarrow>
          and_then (vl_neg E (nt_field (vl_unbox a))) (\<lambda>r. vl_conv (oe_conv E) (ty_name t) r None)
      | None \<Rightarrow>
          (case derune (vl_unbox a) of
             V_int i \<Rightarrow> Some (map_sum id V_int (vl_ineg_ck i))
           | V_float f \<Rightarrow> Some (Inr (V_float (fl_neg f)))
           | O_dec d \<Rightarrow> Some (Inr (O_dec (vl_dec_neg_v d)))
           | V_dur n \<Rightarrow> dur_val (- n)
           | v \<Rightarrow> Some (Inl (Fault (''cannot negate '' @ vl_kind_name v)))))"
  by auto
termination
proof (relation "measure (\<lambda>(E, a). size a)", goal_cases)
  case (2 E a t)
  then show ?case using size_nt_field [of "vl_unbox a" t] size_unbox(1) [of a] by simp
qed simp

declare vl_neg.simps [simp del]

definition vl_neg_sz :: "ops_env \<Rightarrow> val \<Rightarrow> sz \<Rightarrow> val result option" where
  "vl_neg_sz E a t =
     (case derune (vl_deref a) of V_int i \<Rightarrow> Some (map_sum id V_int (vl_ineg_sz i t)) | _ \<Rightarrow> vl_neg E a)"

definition vl_cksz :: "val \<Rightarrow> sz \<Rightarrow> val result" where
  "vl_cksz v t = (case vl_deref v of V_int i \<Rightarrow> map_sum id V_int (vl_cksz_i i t) | _ \<Rightarrow> Inr v)"

definition vl_compare :: "ops_env \<Rightarrow> val \<Rightarrow> val \<Rightarrow> int result option" where
  "vl_compare E a b =
     and_then (user_cmp E (vl_unbox a) (vl_unbox b)) (\<lambda>c.
       case c of
         Some n \<Rightarrow> Some (Inr n)
       | None \<Rightarrow>
           if vl_equal a b then Some (Inr 0)
           else and_then (arith E OP_LT a b) (\<lambda>lt. Some (Inr (if lt = V_bool True then - 1 else 1))))"

definition vl_cat :: "ops_env \<Rightarrow> val \<Rightarrow> val \<Rightarrow> val" where
  "vl_cat E a b = O_str (vl_tostr (ce_show (oe_conv E)) 0 a @ vl_tostr (ce_show (oe_conv E)) 0 b)"

definition want_i :: "val \<Rightarrow> int result" where
  "want_i v =
     (case derune (vl_deref v) of
        V_int i \<Rightarrow> Inr i
      | d \<Rightarrow> Inl (Fault (''expected int, got '' @ vl_kind_name d)))"

text \<open>The count of a shift is read and checked before the other operand.\<close>

definition vl_shl :: "val \<Rightarrow> val \<Rightarrow> val result" where
  "vl_shl a b =
     bind_result (want_i b) (\<lambda>n.
       if n < 0 \<or> n > 63 then Inl (vl_trap_shift n)
       else bind_result (want_i a) (\<lambda>x. Inr (V_int (to_i64 (x mod 2 ^ 64 * 2 ^ nat n)))))"

definition vl_shr :: "val \<Rightarrow> val \<Rightarrow> val result" where
  "vl_shr a b =
     bind_result (want_i b) (\<lambda>n.
       if n < 0 \<or> n > 63 then Inl (vl_trap_shift n)
       else bind_result (want_i a) (\<lambda>x. Inr (V_int (drop_bit (nat n) x))))"

text \<open>C does not fix which operand is read first; here it is the left one.\<close>

definition bit_op :: "(int \<Rightarrow> int \<Rightarrow> int) \<Rightarrow> val \<Rightarrow> val \<Rightarrow> val result" where
  "bit_op f a b = bind_result (want_i a) (\<lambda>x. bind_result (want_i b) (\<lambda>y. Inr (V_int (f x y))))"

definition vl_band :: "val \<Rightarrow> val \<Rightarrow> val result" where "vl_band = bit_op (AND)"

definition vl_bor :: "val \<Rightarrow> val \<Rightarrow> val result" where "vl_bor = bit_op (OR)"

definition vl_bxor :: "val \<Rightarrow> val \<Rightarrow> val result" where "vl_bxor = bit_op (XOR)"

definition vl_bnot :: "val \<Rightarrow> val result" where
  "vl_bnot a = map_sum id (\<lambda>x. V_int (NOT x)) (want_i a)"

definition vl_not :: "val \<Rightarrow> val result" where
  "vl_not a =
     (case vl_deref a of
        V_bool b \<Rightarrow> Inr (V_bool (\<not> b))
      | v \<Rightarrow> Inl (Fault (''`not` requires bool, got '' @ vl_kind_name v)))"

definition vl_truthy :: "val \<Rightarrow> bool result" where
  "vl_truthy a =
     (case vl_deref a of
        V_bool b \<Rightarrow> Inr b
      | v \<Rightarrow> Inl (Fault (''condition must be bool, got '' @ vl_kind_name v @ '' (no implicit truthiness)'')))"

subsection \<open>Boxes are transparent\<close>

lemma wrapped_unboxed: "wrapped (vl_unbox v) \<longleftrightarrow> vl_is_newtype (vl_unbox v)"
  using unbox_not_box [of v] by (simp add: wrapped_def)

lemma unbox_id [simp]: "\<not> vl_is_box v \<Longrightarrow> vl_unbox v = v" "vl_unbox (vl_unbox v) = vl_unbox v"
proof -
  show "\<not> vl_is_box v \<Longrightarrow> vl_unbox v = v" for v by (cases v) simp_all
  then show "vl_unbox (vl_unbox v) = vl_unbox v" using unbox_not_box [of v] by simp
qed

lemma user_cmp_scalar: "\<not> is_obj a \<or> \<not> is_obj b \<Longrightarrow> user_cmp E (vl_unbox a) (vl_unbox b) = Some (Inr None)"
  by (cases a; cases b) (simp_all add: is_obj_def user_cmp_def cmp_type_def split: option.splits)

text \<open>The check for objects before \<^verbatim>\<open>user_cmp\<close> changes nothing.\<close>

lemma arith_cmp:
  "arith E op a b =
    (case (if ordering op then user_cmp E (vl_unbox a) (vl_unbox b) else Some (Inr None)) of
       None \<Rightarrow> None
     | Some (Inl e) \<Rightarrow> Some (Inl e)
     | Some (Inr (Some c)) \<Rightarrow> Some (Inr (order_bool op c))
     | Some (Inr None) \<Rightarrow>
         if wrapped a \<or> wrapped b then nt_arith E op a b else plain_arith E op (derune a) (derune b))"
  by (subst arith.simps) (auto simp: user_cmp_scalar)

lemma nt_arith_unbox: "nt_arith E op (vl_unbox a) (vl_unbox b) = nt_arith E op a b"
  unfolding nt_arith.simps [of E op "vl_unbox a"] nt_arith.simps [of E op a] unbox_id(2) ..

text \<open>A \<^verbatim>\<open>Box\<close> is transparent to every operator: arithmetic and ordering, negation, the sized forms,
  equality, three-way comparison, shifts, bit operations, \<^verbatim>\<open>not\<close> and conditions give on boxed
  operands, however deep, what they give on the values inside.\<close>

theorem boxes_transparent:
  "arith E op a b = arith E op (vl_unbox a) (vl_unbox b) \<and>
   vl_neg E a = vl_neg E (vl_unbox a) \<and>
   vl_equal a b = vl_equal (vl_unbox a) (vl_unbox b) \<and>
   vl_compare E a b = vl_compare E (vl_unbox a) (vl_unbox b) \<and>
   vl_shl a b = vl_shl (vl_unbox a) (vl_unbox b) \<and> vl_shr a b = vl_shr (vl_unbox a) (vl_unbox b) \<and>
   bit_op f a b = bit_op f (vl_unbox a) (vl_unbox b) \<and>
   vl_not a = vl_not (vl_unbox a) \<and> vl_truthy a = vl_truthy (vl_unbox a)"
proof -
  have ar: "arith E op a b = arith E op (vl_unbox a) (vl_unbox b)" for op
  proof (cases "(if ordering op then user_cmp E (vl_unbox a) (vl_unbox b) else Some (Inr None)) = Some (Inr None)")
    case cmp: True
    show ?thesis
    proof (cases "wrapped a \<or> wrapped b")
      case w: True
      show ?thesis
      proof (cases "wrapped (vl_unbox a) \<or> wrapped (vl_unbox b)")
        case True
        then show ?thesis
          using w unfolding arith_cmp [of E op a b] arith_cmp [of E op "vl_unbox a" "vl_unbox b"] unbox_id(2) cmp
          by (simp add: nt_arith_unbox)
      next
        case False
        then have "nt_arith E op a b = arith E op (vl_unbox a) (vl_unbox b)"
          by (subst nt_arith.simps) (simp add: wrapped_unboxed nt_type_newtype [symmetric])
        then show ?thesis using w unfolding arith_cmp [of E op a b] cmp by simp
      qed
    next
      case False
      then show ?thesis by (simp add: wrapped_def)
    qed
  next
    case False
    have "(case c of None \<Rightarrow> None | Some (Inl e) \<Rightarrow> Some (Inl e) | Some (Inr (Some n)) \<Rightarrow> Some (Inr (order_bool op n))
        | Some (Inr None) \<Rightarrow> x) = (case c of None \<Rightarrow> None | Some (Inl e) \<Rightarrow> Some (Inl e)
        | Some (Inr (Some n)) \<Rightarrow> Some (Inr (order_bool op n)) | Some (Inr None) \<Rightarrow> y)"
      if "c \<noteq> Some (Inr None)" for c :: "int option result option" and x y :: "val result option"
      using that by (auto split: option.splits sum.splits)
    then show ?thesis
      unfolding arith_cmp [of E op a b] arith_cmp [of E op "vl_unbox a" "vl_unbox b"] unbox_id(2) using False .
  qed
  have ng: "vl_neg E a = vl_neg E (vl_unbox a)"
    unfolding vl_neg.simps [of E "vl_unbox a"] vl_neg.simps [of E a] unbox_id(2) ..
  have eq: "vl_equal a b = vl_equal (vl_unbox a) (vl_unbox b)"
  proof (cases "vl_is_box a \<or> vl_is_box b")
    case True
    then show ?thesis by (subst vl_equal.simps) simp
  qed simp
  have dr: "vl_deref (vl_unbox v) = vl_deref v" for v by (induction v rule: vl_unbox.induct) simp_all
  have wi: "want_i (vl_unbox v) = want_i v" for v by (simp only: want_i_def dr)
  show ?thesis
    unfolding vl_compare_def vl_shl_def vl_shr_def bit_op_def wi unbox_id(2) vl_not_def vl_truthy_def dr
    using ar ng eq by simp
qed

subsection \<open>Newtypes\<close>

lemma sz_code_range:
  assumes "sz_code n = Some z"
  shows "int_range n = Some (vl_sz_lo z, vl_sz_hi z)" "conv_target n"
  using assms
  by (auto simp: sz_code_def int_range_def int_ranges_def conv_target_def vl_sz_lo_def vl_sz_hi_def split: if_splits)

lemma int_arith_sz_range: "szop op \<Longrightarrow> int_arith_sz op a b z = Inr c \<Longrightarrow> in_sz z c"
  by (auto simp: szop_def int_arith_sz_def vl_iadd_sz_def vl_isub_sz_def vl_imul_sz_def vl_ipow_sz_def vl_idiv_sz_def
      elim!: bind_result.elims split: if_splits)

lemma conv_newtype_int:
  assumes "vl_user_type (ce_types C) (ty_name t) = Some t" "ty_newtype t" "sz_code (underlying t) = Some z"
    "\<not> is_newtype_name C (underlying t)"
  shows "vl_conv C (ty_name t) (V_int c) None =
    Some (if in_sz z c then Inr (O_struct t [V_int c])
          else Inl (ConvError ''int'' (underlying t) (int_text c)))"
proof -
  have "vl_conv C (underlying t) (V_int c) None =
      Some (if in_sz z c then Inr (V_int c) else Inl (ConvError ''int'' (underlying t) (int_text c)))"
    using assms(4) sz_code_range [OF assms(3)]
    by (subst vl_conv.simps) (simp add: conv_prim_def to_int_checked_def in_sz_def vl_throw_conv_def)
  then show ?thesis
    using assms sz_code_range(2) [OF assms(3)]
    by (subst vl_conv.simps) (simp add: is_newtype_name_def vl_newtype_wrap_def)
qed

text \<open>C22. Arithmetic of a newtype over a sized integer (\<^verbatim>\<open>type Age u8\<close>): between two values of the same
  newtype it is that of the sized type, so the result is the newtype again with a value in its
  range, or the \<^verbatim>\<open>OverflowError\<close> of the sized type; the orderings are those of the integers inside;
  and with a value of any other type, boxed or not, every operator refuses.\<close>

theorem newtype_arithmetic:
  assumes "vl_user_type (ce_types (oe_conv E)) (ty_name t) = Some t" "ty_newtype t"
    "sz_code (underlying t) = Some z" "\<not> is_newtype_name (oe_conv E) (underlying t)"
  shows "(if szop op
      then arith E op (O_struct t [V_int a]) (O_struct t [V_int b]) =
        Some (case int_arith_sz op a b z of Inl e \<Rightarrow> Inl e | Inr c \<Rightarrow> Inr (O_struct t [V_int c])) \<and>
        (case int_arith_sz op a b z of Inl e \<Rightarrow> True | Inr c \<Rightarrow> in_sz z c)
      else True) \<and>
    (if ordering op then arith E op (O_struct t [V_int a]) (O_struct t [V_int b]) = Some (int_arith op a b) else True) \<and>
    (if nt_type (vl_unbox v) = Some t then True
     else arith E op (O_struct t [V_int a]) v = Some (Inl (mixed_named (O_struct t [V_int a]) (vl_unbox v))))"
proof -
  have cmp: "user_cmp E (O_struct t [V_int a]) w = Some (Inr None)" for w
    using assms(2) by (simp add: user_cmp_def cmp_type_def)
  have w: "wrapped (O_struct t [V_int a])" using assms(2) by (simp add: wrapped_def)
  have nt: "arith E op (O_struct t [V_int a]) w = nt_arith E op (O_struct t [V_int a]) w" for w
    using w cmp by (simp add: arith_cmp)
  have plain: "arith E op (V_int a) (V_int b) = Some (int_arith op a b)"
    by (simp add: arith_cmp user_cmp_def cmp_type_def wrapped_def derune_def plain_arith_def)
  have 1: "arith E op (O_struct t [V_int a]) (O_struct t [V_int b]) =
        Some (case int_arith_sz op a b z of Inl e \<Rightarrow> Inl e | Inr c \<Rightarrow> Inr (O_struct t [V_int c]))" if o: "szop op"
  proof -
    have "\<not> ordering op" "op \<noteq> OP_DIV" using o by (auto simp: szop_def ordering_def)
    moreover have "vl_arith_sz E op (V_int a) (V_int b) z = Some (map_sum id V_int (int_arith_sz op a b z))"
      by (subst vl_arith_sz.simps) (simp add: derune_def)
    ultimately show ?thesis
      using o assms(2,3) int_arith_sz_range [OF o] conv_newtype_int [OF assms]
      unfolding nt by (subst nt_arith.simps) (auto split: sum.splits)
  qed
  have 2: "arith E op (O_struct t [V_int a]) (O_struct t [V_int b]) = Some (int_arith op a b)" if "ordering op"
  proof -
    have "\<not> szop op" using that by (auto simp: szop_def ordering_def)
    then show ?thesis
      using that assms(2,3) plain unfolding nt
      by (subst nt_arith.simps) (auto simp: int_arith_def ordering_def)
  qed
  have 3: "arith E op (O_struct t [V_int a]) v = Some (Inl (mixed_named (O_struct t [V_int a]) (vl_unbox v)))"
    if "nt_type (vl_unbox v) \<noteq> Some t"
    using that assms(2) unfolding nt by (subst nt_arith.simps) (auto split: option.splits)
  show ?thesis using 1 2 3 int_arith_sz_range by (auto split: sum.splits)
qed

definition ages_ops :: ops_env where
  "ages_ops = \<lparr>oe_conv = ages_env, oe_digits = 34, oe_pow = \<lambda>_ _. 0, oe_call = \<lambda>_ _. None\<rparr>"

definition age_type :: vtype where
  "age_type = \<lparr>ty_addr = 1, ty_name = ''Age'', ty_fields = [[]], ty_ftypes = [''u8''], ty_newtype = True\<rparr>"

theorem newtype_arithmetic_witness:
  "arith ages_ops OP_ADD (O_struct age_type [V_int 200]) (O_struct age_type [V_int 55]) = Some (Inr (O_struct age_type [V_int 255])) \<and>
   (\<exists>e. arith ages_ops OP_ADD (O_struct age_type [V_int 200]) (O_struct age_type [V_int 56]) = Some (Inl e)) \<and>
   arith ages_ops OP_ADD (O_struct age_type [V_int 200]) (O_box (V_int 1)) =
     Some (Inl (mixed_named (O_struct age_type [V_int 200]) (V_int 1)))"
proof -
  have h: "vl_user_type (ce_types (oe_conv ages_ops)) (ty_name age_type) = Some age_type" "ty_newtype age_type"
    "sz_code (underlying age_type) = Some VL_SZ_U8" "\<not> is_newtype_name (oe_conv ages_ops) (underlying age_type)"
    by (simp_all add: ages_ops_def ages_env_def plain_env_def age_type_def vl_user_type_def c_text_def underlying_def
        sz_code_def is_newtype_name_def)
  show ?thesis
    using newtype_arithmetic [OF h, of OP_ADD 200 55 "O_box (V_int 1)"] newtype_arithmetic [OF h, of OP_ADD 200 56 "O_box (V_int 1)"]
    by (simp add: szop_def int_arith_sz_def vl_iadd_sz_def in_sz_def vl_sz_lo_def vl_sz_hi_def i64_def ordering_def)
qed

subsection \<open>The numeric tower\<close>

text \<open>C23. Operands of different types are widened without loss or refused: an integer next to a decimal
  becomes the decimal of the same value, next to a float the float of the same value or a
  \<^verbatim>\<open>ConvError\<close> when there is none within \<open>2 ^ 53\<close>, and a float never meets a decimal, whatever the
  operator.\<close>

theorem mixed_operands_exact:
  "arith E op (V_int n) (O_dec d) = dec_arith E op (vl_dec_from_int n) d \<and>
   arith E op (O_dec d) (V_int n) = dec_arith E op d (vl_dec_from_int n) \<and>
   dec_rat (vl_dec_from_int n) = of_int n \<and>
   (if \<bar>n\<bar> \<le> 2 ^ 53
    then arith E op (V_int n) (V_float f) = Some (float_arith E op (fl_of_int n) f) \<and>
      arith E op (V_float f) (V_int n) = Some (float_arith E op f (fl_of_int n)) \<and> fl_num (fl_of_int n) = FFin (of_int n)
    else arith E op (V_int n) (V_float f) = Some (Inl (vl_trap_itof n)) \<and>
      arith E op (V_float f) (V_int n) = Some (Inl (vl_trap_itof n))) \<and>
   arith E op (V_float f) (O_dec d) = Some (Inl lossy_float) \<and>
   arith E op (O_dec d) (V_float f) = Some (Inl lossy_float)"
proof -
  have plain: "arith E op a b = plain_arith E op a b"
    if "a \<in> {V_int n, V_float f, O_dec d}" "b \<in> {V_int n, V_float f, O_dec d}" for a b
  proof -
    have "\<not> wrapped v \<and> cmp_type (vl_unbox v) = None \<and> derune v = v" if "v \<in> {V_int n, V_float f, O_dec d}" for v
      using that by (elim insertE emptyE) (simp_all add: wrapped_def cmp_type_def derune_def)
    from this [OF that(1)] this [OF that(2)] show ?thesis by (simp add: arith_cmp user_cmp_def)
  qed
  show ?thesis
    using fl_of_int_exact [of n] by (simp add: plain plain_arith_def) (auto simp: vl_itof_ck_def)
qed

subsection \<open>Comparison\<close>

lemma cmp_bytes_Cons:
  "cmp_bytes (x # xs) (y # ys) < 0 \<longleftrightarrow> byte x < byte y \<or> x = y \<and> cmp_bytes xs ys < 0"
proof (cases "byte x" "byte y" rule: linorder_cases)
  case equal
  then have "x = y" by simp
  then show ?thesis by simp
qed auto

lemma cmp_bytes_props:
  "cmp_bytes t s = - cmp_bytes s t" "cmp_bytes s t = 0 \<longleftrightarrow> s = t" "cmp_bytes s t \<in> {- 1, 0, 1}"
proof -
  have "cmp_bytes t s = - cmp_bytes s t \<and> (cmp_bytes s t = 0 \<longleftrightarrow> s = t) \<and> cmp_bytes s t \<in> {- 1, 0, 1}"
  proof (induction s t rule: cmp_bytes.induct)
    case (4 x xs y ys)
    show ?case
    proof (cases "byte x" "byte y" rule: linorder_cases)
      case equal
      then have "x = y" by simp
      then show ?thesis using 4 by auto
    qed auto
  qed simp_all
  then show "cmp_bytes t s = - cmp_bytes s t" "cmp_bytes s t = 0 \<longleftrightarrow> s = t" "cmp_bytes s t \<in> {- 1, 0, 1}" by auto
qed

lemma cmp_bytes_trans: "cmp_bytes s t < 0 \<Longrightarrow> cmp_bytes t u < 0 \<Longrightarrow> cmp_bytes s u < 0"
proof (induction s t arbitrary: u rule: cmp_bytes.induct)
  case (2 y ys)
  then show ?case by (cases u) simp_all
next
  case (4 x xs y ys)
  obtain z zs where u: "u = z # zs" using 4(3) by (cases u) auto
  show ?case using 4 unfolding u cmp_bytes_Cons by auto
qed simp_all

text \<open>What the value of an orderable operand is: a number, a float that is not NaN, a text without
  zero bytes.\<close>

datatype key = Key_num rat | Key_float flnum | Key_text string

definition key_of :: "val \<Rightarrow> key option" where
  "key_of v =
     (case v of
        V_int i \<Rightarrow> if i64 i then Some (Key_num (of_int i)) else None
      | O_dec d \<Rightarrow> if dec_small d then Some (Key_num (dec_rat d)) else None
      | V_float f \<Rightarrow> if fl_num f = FNan then None else Some (Key_float (fl_num f))
      | O_str s \<Rightarrow> if c_text s = s then Some (Key_text s) else None
      | _ \<Rightarrow> None)"

fun key_sort :: "key \<Rightarrow> nat" where
  "key_sort (Key_num _) = 0" | "key_sort (Key_float _) = 1" | "key_sort (Key_text _) = 2"

fun key_less :: "key \<Rightarrow> key \<Rightarrow> bool" where
  "key_less (Key_num p) (Key_num q) \<longleftrightarrow> p < q"
| "key_less (Key_float x) (Key_float y) \<longleftrightarrow> num_lt x y"
| "key_less (Key_text s) (Key_text t) \<longleftrightarrow> cmp_bytes s t < 0"
| "key_less _ _ \<longleftrightarrow> False"

lemma key_less_trans: "key_less p q \<Longrightarrow> key_less q r \<Longrightarrow> key_less p r"
proof (induction p q rule: key_less.induct)
  case (1 p q)
  then show ?case by (cases r) auto
next
  case (2 x y)
  then obtain u where u: "r = Key_float u" by (cases r) auto
  show ?case using 2 unfolding u by (cases x; cases y; cases u) auto
next
  case (3 s t)
  then obtain u where u: "r = Key_text u" by (cases r) auto
  show ?case using 3 unfolding u by (auto intro: cmp_bytes_trans)
qed auto

lemma key_less_total:
  assumes "key_sort p = key_sort q" "p \<noteq> Key_float FNan" "q \<noteq> Key_float FNan"
  shows "if p = q then \<not> key_less p q else key_less p q \<noteq> key_less q p"
  using assms
proof (induction p q rule: key_less.induct)
  case (2 x y)
  then show ?case by (cases x; cases y) auto
next
  case (3 s t)
  then show ?case using cmp_bytes_props(1) [of t s] cmp_bytes_props(2,3) [of s t] by auto
qed auto

lemma key_of_nan: "key_of v = Some p \<Longrightarrow> p \<noteq> Key_float FNan"
  by (auto simp: key_of_def split: val.splits if_splits)

lemma key_plain: "key_of v = Some p \<Longrightarrow> \<not> wrapped v \<and> cmp_type (vl_unbox v) = None \<and> derune v = v"
  by (cases v) (simp_all add: key_of_def wrapped_def cmp_type_def derune_def)

lemma keys_compared:
  assumes "key_of a = Some p" "key_of b = Some q" "key_sort p = key_sort q"
  shows "arith E OP_LT a b = Some (Inr (V_bool (key_less p q)))" "vl_equal a b \<longleftrightarrow> p = q"
    "user_cmp E (vl_unbox a) (vl_unbox b) = Some (Inr None)"
proof -
  note k = key_plain [OF assms(1)] key_plain [OF assms(2)]
  show u: "user_cmp E (vl_unbox a) (vl_unbox b) = Some (Inr None)"
    using k by (simp add: user_cmp_def)
  have a: "arith E OP_LT a b = plain_arith E OP_LT a b"
    unfolding arith_cmp u using k by simp
  consider (num) x y where "p = Key_num x" "q = Key_num y" | (flt) x y where "p = Key_float x" "q = Key_float y"
    | (str) x y where "p = Key_text x" "q = Key_text y"
    using assms(3) by (cases p; cases q) auto
  then have "arith E OP_LT a b = Some (Inr (V_bool (key_less p q))) \<and> (vl_equal a b \<longleftrightarrow> p = q)"
  proof cases
    case num
    then have "(\<exists>i. a = V_int i \<and> i64 i \<and> x = of_int i) \<or> (\<exists>d. a = O_dec d \<and> dec_small d \<and> x = dec_rat d)"
      "(\<exists>i. b = V_int i \<and> i64 i \<and> y = of_int i) \<or> (\<exists>d. b = O_dec d \<and> dec_small d \<and> y = dec_rat d)"
      using assms(1,2) by (auto simp: key_of_def split: val.splits if_splits)
    then show ?thesis
      unfolding a using num
      by (elim disjE exE conjE)
        (simp_all add: plain_arith_def int_arith_def dec_arith_def order_bool_def vl_dec_cmp_cases small_aligns vl_equal.simps)
  next
    case flt
    obtain f where f: "a = V_float f" "fl_num f = x" "x \<noteq> FNan"
      using assms(1) flt by (cases a) (auto simp: key_of_def split: if_splits)
    obtain g where g: "b = V_float g" "fl_num g = y" "y \<noteq> FNan"
      using assms(2) flt by (cases b) (auto simp: key_of_def split: if_splits)
    show ?thesis unfolding a using f g flt
      by (simp add: plain_arith_def float_arith_def fl_lt_def fl_eq_def vl_equal.simps)
  next
    case str
    then have "a = O_str x" "b = O_str y" "c_text x = x" "c_text y = y"
      using assms(1,2) by (auto simp: key_of_def split: val.splits if_splits)
    then show ?thesis unfolding a using str
      by (simp add: plain_arith_def ordering_def order_bool_def strcmp_def vl_equal.simps)
  qed
  then show "arith E OP_LT a b = Some (Inr (V_bool (key_less p q)))" "vl_equal a b \<longleftrightarrow> p = q" by simp_all
qed

text \<open>C24. Comparison is a total order on numbers, on floats that are not NaN and on texts without zero
  bytes: \<open>vl_compare\<close> gives 0 exactly on equal operands and otherwise \<open>-1\<close> or \<open>1\<close> as the operator \<open><\<close> says,
  opposite results in the two directions, and it is transitive; 64-bit integers and decimals (with an
  exponent within 999999999 and at most twenty million digits) are compared by value, texts by their
  bytes.\<close>

theorem compare_total_order:
  assumes "key_of a = Some p" "key_of b = Some q" "key_of c = Some r" "key_sort p = key_sort q" "key_sort q = key_sort r"
  shows "vl_compare E a b = Some (Inr (if key_less p q then - 1 else if p = q then 0 else 1)) \<and>
    arith E OP_LT a b = Some (Inr (V_bool (key_less p q))) \<and>
    vl_compare E b a = map_option (map_sum id uminus) (vl_compare E a b) \<and>
    (vl_compare E a b = Some (Inr 0) \<longleftrightarrow> vl_equal a b) \<and>
    (if arith E OP_LT a b = Some (Inr (V_bool True)) \<and> arith E OP_LT b c = Some (Inr (V_bool True))
     then arith E OP_LT a c = Some (Inr (V_bool True)) else True)"
proof -
  have c: "vl_compare E x y = Some (Inr (if key_less k l then - 1 else if k = l then 0 else 1))"
    if "key_of x = Some k" "key_of y = Some l" "key_sort k = key_sort l" for x y k l
    using keys_compared [OF that] key_less_total [OF that(3) key_of_nan [OF that(1)] key_of_nan [OF that(2)]]
    by (simp add: vl_compare_def split: if_splits)
  have ac: "key_sort p = key_sort r" using assms(4,5) by simp
  note t = key_less_total [OF assms(4) key_of_nan [OF assms(1)] key_of_nan [OF assms(2)]]
  note ab = c [OF assms(1,2,4)] and ba = c [OF assms(2,1) assms(4) [symmetric]]
  show ?thesis
  proof (intro conjI)
    show "vl_compare E b a = map_option (map_sum id uminus) (vl_compare E a b)"
      unfolding ab ba using t by (cases "p = q"; cases "key_less p q") simp_all
    show "vl_compare E a b = Some (Inr 0) \<longleftrightarrow> vl_equal a b"
      unfolding ab keys_compared(2) [OF assms(1,2,4)] using t by (cases "p = q"; cases "key_less p q") simp_all
    show "if arith E OP_LT a b = Some (Inr (V_bool True)) \<and> arith E OP_LT b c = Some (Inr (V_bool True))
     then arith E OP_LT a c = Some (Inr (V_bool True)) else True"
      unfolding keys_compared(1) [OF assms(1,2,4)] keys_compared(1) [OF assms(2,3,5)] keys_compared(1) [OF assms(1,3) ac]
      using key_less_trans [of p q r] by simp
  qed (rule ab, rule keys_compared(1) [OF assms(1,2,4)])
qed

theorem compare_total_order_witness:
  "vl_compare ages_ops (O_str ''ab'') (O_str ''b'') = Some (Inr (- 1)) \<and>
   vl_compare ages_ops (O_str ''b'') (O_str ''ab'') = Some (Inr 1)"
proof -
  have k: "key_of (O_str ''ab'') = Some (Key_text ''ab'')" "key_of (O_str ''b'') = Some (Key_text ''b'')"
    by (simp_all add: key_of_def c_text_def)
  show ?thesis using compare_total_order [OF k(1,2,2), of ages_ops] by simp
qed

lemma compare_texts:
  "vl_compare E (O_str s) (O_str t) =
    Some (Inr (if s = t then 0 else if cmp_bytes (c_text s) (c_text t) < 0 then - 1 else 1))"
  by (simp add: vl_compare_def user_cmp_def cmp_type_def vl_equal.simps arith_cmp wrapped_def derune_def plain_arith_def
      ordering_def order_bool_def strcmp_def)

lemma compare_floats:
  "vl_compare E (V_float f) (V_float g) =
    Some (Inr (if fl_eq f g then 0 else if num_lt (fl_num f) (fl_num g) then - 1 else 1))"
  by (simp add: vl_compare_def user_cmp_def cmp_type_def vl_equal.simps arith_cmp wrapped_def derune_def plain_arith_def
      float_arith_def fl_lt_def)

text \<open>C25. Exactly when the order is none.  Two texts are each \<^emph>\<open>greater\<close> than the other if and only if they
  differ but only after a zero byte, because equality reads the whole text and the operator \<open><\<close> stops at
  the first zero byte; two floats if and only if one of them is NaN.\<close>

theorem compare_inconsistent:
  "(vl_compare E (O_str s) (O_str t) = Some (Inr 1) \<and> vl_compare E (O_str t) (O_str s) = Some (Inr 1) \<longleftrightarrow>
      s \<noteq> t \<and> c_text s = c_text t) \<and>
   (vl_compare E (V_float f) (V_float g) = Some (Inr 1) \<and> vl_compare E (V_float g) (V_float f) = Some (Inr 1) \<longleftrightarrow>
      fl_num f = FNan \<or> fl_num g = FNan)"
proof
  show "vl_compare E (O_str s) (O_str t) = Some (Inr 1) \<and> vl_compare E (O_str t) (O_str s) = Some (Inr 1) \<longleftrightarrow>
      s \<noteq> t \<and> c_text s = c_text t"
    using cmp_bytes_props [of "c_text s" "c_text t"] by (auto simp: compare_texts)
  show "vl_compare E (V_float f) (V_float g) = Some (Inr 1) \<and> vl_compare E (V_float g) (V_float f) = Some (Inr 1) \<longleftrightarrow>
      fl_num f = FNan \<or> fl_num g = FNan"
    by (cases "fl_num f"; cases "fl_num g") (auto simp: compare_floats fl_eq_def)
qed

end
