(* ===== verification/Sort.thy ===== *)
theory Sort
  imports Ops "HOL-Library.Multiset"
begin

section \<open>Sorting slices (call.c: sort\_less, msort, vl\_sort\_slice)\<close>

text \<open>
  The merge sort works in place between two index bounds of an array, with a second array of the
  same length.  The comparator may be a function of the program: it may keep state, throw on any of
  its calls, and change the very slice that is being sorted.  A call is therefore a step on a state
  (\<open>run\<close>): the state of the program with the slice's present elements; it ends with a value or an
  exception and the next state, or not at all (\<^const>\<open>None\<close>).
\<close>

subsection \<open>Steps on a state\<close>

type_synonym ('s, 'a) run = "'s \<Rightarrow> ('a result \<times> 's) option"

definition ret :: "'a \<Rightarrow> ('s, 'a) run" where
  "ret x = (\<lambda>s. Some (Inr x, s))"

definition and_run :: "('s, 'a) run \<Rightarrow> ('a \<Rightarrow> ('s, 'b) run) \<Rightarrow> ('s, 'b) run" where
  "and_run m f = (\<lambda>s. case m s of
     None \<Rightarrow> None
   | Some (Inl e, s') \<Rightarrow> Some (Inl e, s')
   | Some (Inr x, s') \<Rightarrow> f x s')"

definition map_run :: "('a \<Rightarrow> 'b) \<Rightarrow> ('s, 'a) run \<Rightarrow> ('s, 'b) run" where
  "map_run f m = and_run m (\<lambda>x. ret (f x))"

text \<open>A computation that does not look at the state.\<close>

definition stateless :: "'a result option \<Rightarrow> ('s, 'a) run" where
  "stateless m = (\<lambda>s. map_option (\<lambda>r. (r, s)) m)"

lemma and_run_cong [fundef_cong]: "m = m' \<Longrightarrow> (\<And>x. f x = g x) \<Longrightarrow> and_run m f = and_run m' g"
  by (subgoal_tac "f = g") auto

lemma and_run_ret [simp]: "and_run (ret x) f = f x"
  by (simp add: and_run_def ret_def)

lemma and_run_assoc: "and_run (and_run m f) g = and_run m (\<lambda>x. and_run (f x) g)"
  by (rule ext) (auto simp: and_run_def split: option.splits prod.splits sum.splits)

lemma map_run_ret [simp]: "map_run f (ret x) = ret (f x)"
  by (simp add: map_run_def)

lemma map_run_seq: "map_run f (and_run m g) = and_run m (\<lambda>x. map_run f (g x))"
  by (simp add: map_run_def and_run_assoc)

lemma map_run_comp: "map_run f (map_run g m) = map_run (\<lambda>z. f (g z)) m"
  by (simp add: map_run_def and_run_assoc)

lemma and_run_Inr:
  "and_run m f s = Some (Inr y, s') \<longleftrightarrow> (\<exists>x s1. m s = Some (Inr x, s1) \<and> f x s1 = Some (Inr y, s'))"
  by (auto simp: and_run_def split: option.splits prod.splits sum.splits)

lemma map_run_Inr: "map_run f m s = Some (Inr y, s') \<longleftrightarrow> (\<exists>x. m s = Some (Inr x, s') \<and> y = f x)"
  by (auto simp: map_run_def and_run_Inr ret_def)

lemma ret_Inr [simp]: "ret x s = Some (Inr y, s') \<longleftrightarrow> y = x \<and> s' = s"
  by (auto simp: ret_def)

subsection \<open>The arrays\<close>

text \<open>\<^verbatim>\<open>while (i < mid) tmp[k++] = a[i++]\<close>, and the copy back.\<close>

function drain :: "'a list \<Rightarrow> 'a list \<Rightarrow> nat \<Rightarrow> nat \<Rightarrow> nat \<Rightarrow> 'a list \<times> nat" where
  "drain a tmp i mid k = (if i < mid then drain a (tmp[k := a ! i]) (i + 1) mid (k + 1) else (tmp, k))"
  by auto
termination by (relation "measure (\<lambda>(a, tmp, i, mid, k). mid - i)") auto

function copy_back :: "'a list \<Rightarrow> 'a list \<Rightarrow> nat \<Rightarrow> nat \<Rightarrow> 'a list" where
  "copy_back a tmp x hi = (if x < hi then copy_back (a[x := tmp ! x]) tmp (x + 1) hi else a)"
  by auto
termination by (relation "measure (\<lambda>(a, tmp, x, hi). hi - x)") auto

function merge_loop ::
  "('a \<Rightarrow> 'a \<Rightarrow> ('s, bool) run) \<Rightarrow> 'a list \<Rightarrow> 'a list \<Rightarrow> nat \<Rightarrow> nat \<Rightarrow> nat \<Rightarrow> nat \<Rightarrow> nat \<Rightarrow>
    ('s, 'a list \<times> nat \<times> nat \<times> nat) run" where
  "merge_loop below a tmp i mid j hi k =
     (if i < mid \<and> j < hi then
        and_run (below (a ! j) (a ! i)) (\<lambda>l.
          if l then merge_loop below a (tmp[k := a ! j]) i mid (j + 1) hi (k + 1)
          else merge_loop below a (tmp[k := a ! i]) (i + 1) mid j hi (k + 1))
      else ret (tmp, i, j, k))"
  by auto
termination by (relation "measure (\<lambda>(below, a, tmp, i, mid, j, hi, k). (mid - i) + (hi - j))") auto

declare drain.simps [simp del] copy_back.simps [simp del] merge_loop.simps [simp del]

definition merge_halves ::
  "('a \<Rightarrow> 'a \<Rightarrow> ('s, bool) run) \<Rightarrow> 'a list \<Rightarrow> 'a list \<Rightarrow> nat \<Rightarrow> nat \<Rightarrow> nat \<Rightarrow> nat \<Rightarrow> nat \<Rightarrow> ('s, 'a list) run" where
  "merge_halves below a tmp i mid j hi k =
     and_run (merge_loop below a tmp i mid j hi k) (\<lambda>(tmp, i, j, k).
       case drain a tmp i mid k of (tmp, k) \<Rightarrow> ret (fst (drain a tmp j hi k)))"

function msort ::
  "('a \<Rightarrow> 'a \<Rightarrow> ('s, bool) run) \<Rightarrow> 'a list \<Rightarrow> 'a list \<Rightarrow> nat \<Rightarrow> nat \<Rightarrow> ('s, 'a list \<times> 'a list) run" where
  "msort below a tmp lo hi =
     (if hi - lo < 2 then ret (a, tmp)
      else
        and_run (msort below a tmp lo (lo + (hi - lo) div 2)) (\<lambda>s1.
          and_run (msort below (fst s1) (snd s1) (lo + (hi - lo) div 2) hi) (\<lambda>s2.
            and_run (merge_halves below (fst s2) (snd s2) lo (lo + (hi - lo) div 2) (lo + (hi - lo) div 2) hi lo)
              (\<lambda>tmp'. ret (copy_back (fst s2) tmp' lo hi, tmp')))))"
  by auto
termination by (relation "measure (\<lambda>(below, a, tmp, lo, hi). hi - lo)") auto

declare msort.simps [simp del]

text \<open>Without a comparator the operator \<open><\<close> decides; an answer other than \<^const>\<open>True\<close> is no.\<close>

definition sort_less :: "ops_env \<Rightarrow> (val \<Rightarrow> val \<Rightarrow> ('s, val) run) option \<Rightarrow> val \<Rightarrow> val \<Rightarrow> ('s, bool) run" where
  "sort_less E cmp a b =
     and_run (case cmp of Some f \<Rightarrow> f a b | None \<Rightarrow> stateless (arith E OP_LT a b)) (\<lambda>r. ret (r = V_bool True))"

text \<open>The state is the program's and the elements of the slice.  The elements are read once; an exception
  of the comparator leaves the slice as the comparator left it; the finished order is stored if the
  slice still has the length it had.\<close>

definition vl_sort_slice ::
  "ops_env \<Rightarrow> (val \<Rightarrow> val \<Rightarrow> ('w \<times> val list, val) run) option \<Rightarrow> ('w \<times> val list, unit) run" where
  "vl_sort_slice E cmp = (\<lambda>(w, xs).
     if length xs < 2 then Some (Inr (), w, xs)
     else
       and_run (msort (sort_less E cmp) xs (replicate (length xs) V_nil) 0 (length xs)) (\<lambda>s.
         (\<lambda>(w', now). Some (Inr (), w', if length now = length xs then fst s else now))) (w, xs))"

subsection \<open>The sort on lists\<close>

fun list_merge :: "('a \<Rightarrow> 'a \<Rightarrow> ('s, bool) run) \<Rightarrow> 'a list \<Rightarrow> 'a list \<Rightarrow> ('s, 'a list) run" where
  "list_merge below [] ys = ret ys"
| "list_merge below (x # xs) [] = ret (x # xs)"
| "list_merge below (x # xs) (y # ys) =
     and_run (below y x) (\<lambda>l.
       if l then map_run ((#) y) (list_merge below (x # xs) ys)
       else map_run ((#) x) (list_merge below xs (y # ys)))"

function list_sort :: "('a \<Rightarrow> 'a \<Rightarrow> ('s, bool) run) \<Rightarrow> 'a list \<Rightarrow> ('s, 'a list) run" where
  "list_sort below xs =
     (if length xs < 2 then ret xs
      else
        and_run (list_sort below (take (length xs div 2) xs)) (\<lambda>ys.
          and_run (list_sort below (drop (length xs div 2) xs)) (list_merge below ys)))"
  by auto
termination by (relation "measure (\<lambda>(below, xs). length xs)") auto

declare list_sort.simps [simp del]

definition seg :: "'a list \<Rightarrow> nat \<Rightarrow> nat \<Rightarrow> 'a list" where
  "seg a i j = take (j - i) (drop i a)"

lemma seg_Cons: "i < j \<Longrightarrow> j \<le> length a \<Longrightarrow> seg a i j = a ! i # seg a (i + 1) j"
  by (simp add: seg_def Cons_nth_drop_Suc [symmetric] take_Cons' Suc_diff_Suc)

lemma seg_empty [simp]: "j \<le> i \<Longrightarrow> seg a i j = []"
  by (simp add: seg_def)

lemma length_seg [simp]: "j \<le> length a \<Longrightarrow> length (seg a i j) = j - i"
  by (simp add: seg_def)

lemma update_splice:
  assumes "k < length tmp" "k < p"
  shows "take (k + 1) (tmp[k := x]) @ zs @ drop p (tmp[k := x]) = take k tmp @ (x # zs) @ drop p tmp"
  using assms by (simp add: take_Suc_conv_app_nth)

lemma drain_correct:
  assumes "i \<le> mid" "mid \<le> length a" "k + (mid - i) \<le> length tmp"
  shows "drain a tmp i mid k = (take k tmp @ seg a i mid @ drop (k + (mid - i)) tmp, k + (mid - i))"
  using assms
proof (induction "mid - i" arbitrary: i k tmp)
  case 0
  then show ?case by (subst drain.simps) simp
next
  case (Suc d)
  then have i: "i < mid" by simp
  have "drain a tmp i mid k = drain a (tmp[k := a ! i]) (i + 1) mid (k + 1)" using i by (subst drain.simps) simp
  also have "\<dots> = (take (k + 1) (tmp[k := a ! i]) @ seg a (i + 1) mid @ drop (k + 1 + (mid - (i + 1))) (tmp[k := a ! i]),
      k + 1 + (mid - (i + 1)))"
    using Suc.hyps(2) Suc.prems i by (intro Suc.hyps(1)) simp_all
  also have "\<dots> = (take k tmp @ seg a i mid @ drop (k + (mid - i)) tmp, k + (mid - i))"
    using i Suc.prems update_splice [of k tmp "k + (mid - i)" "a ! i" "seg a (i + 1) mid"]
    by (simp add: seg_Cons Suc_diff_Suc)
  finally show ?case .
qed

lemma copy_back_correct:
  assumes "x \<le> hi" "hi \<le> length a" "hi \<le> length tmp"
  shows "copy_back a tmp x hi = take x a @ seg tmp x hi @ drop hi a"
  using assms
proof (induction "hi - x" arbitrary: x a)
  case 0
  then show ?case by (subst copy_back.simps) simp
next
  case (Suc d)
  then have x: "x < hi" by simp
  have "copy_back a tmp x hi = copy_back (a[x := tmp ! x]) tmp (x + 1) hi" using x by (subst copy_back.simps) simp
  also have "\<dots> = take (x + 1) (a[x := tmp ! x]) @ seg tmp (x + 1) hi @ drop hi (a[x := tmp ! x])"
    using Suc.hyps(2) Suc.prems x by (intro Suc.hyps(1)) simp_all
  also have "\<dots> = take x a @ seg tmp x hi @ drop hi a"
    using x Suc.prems by (simp add: seg_Cons take_Suc_conv_app_nth)
  finally show ?case .
qed

lemma merge_halves_correct:
  assumes "i \<le> mid" "j \<le> hi" "mid \<le> length a" "hi \<le> length a" "k + (mid - i) + (hi - j) \<le> length tmp"
  shows "merge_halves below a tmp i mid j hi k =
    map_run (\<lambda>zs. take k tmp @ zs @ drop (k + (mid - i) + (hi - j)) tmp)
      (list_merge below (seg a i mid) (seg a j hi))"
  using assms
proof (induction "(mid - i) + (hi - j)" arbitrary: tmp i j k rule: less_induct)
  case less
  note prems = less.prems
  let ?n = "k + (mid - i) + (hi - j)"
  show ?case
  proof (cases "i < mid \<and> j < hi")
    case False
    then have l: "merge_loop below a tmp i mid j hi k = ret (tmp, i, j, k)" by (subst merge_loop.simps) auto
    show ?thesis
    proof (cases "i < mid")
      case True
      then have j: "j = hi" using False prems by simp
      have "seg a i mid \<noteq> []" using seg_Cons [OF True prems(3)] by simp
      then have "list_merge below (seg a i mid) [] = ret (seg a i mid)" by (cases "seg a i mid") simp_all
      then show ?thesis using prems by (simp add: merge_halves_def l [unfolded j] j drain_correct)
    next
      case False
      then have i: "i = mid" using prems by simp
      show ?thesis using prems by (simp add: merge_halves_def l [unfolded i] i drain_correct)
    qed
  next
    case True
    let ?x = "a ! i" and ?y = "a ! j"
    have ij: "i < mid" "j < hi" using True by simp_all
    have k: "k < length tmp" using ij prems(5) by simp
    have s: "seg a i mid = ?x # seg a (i + 1) mid" "seg a j hi = ?y # seg a (j + 1) hi"
      using ij prems by (simp_all add: seg_Cons)
    have l: "merge_halves below a tmp i mid j hi k = and_run (below ?y ?x) (\<lambda>l.
        if l then merge_halves below a (tmp[k := ?y]) i mid (j + 1) hi (k + 1)
        else merge_halves below a (tmp[k := ?x]) (i + 1) mid j hi (k + 1))"
      unfolding merge_halves_def
      by (subst merge_loop.simps) (simp add: ij and_run_assoc if_distrib [of "\<lambda>m. and_run m _"])
    have e: "k + 1 + (mid - i) + (hi - (j + 1)) = ?n" "k + 1 + (mid - (i + 1)) + (hi - j) = ?n" using ij by simp_all
    have y: "merge_halves below a (tmp[k := ?y]) i mid (j + 1) hi (k + 1) =
        map_run (\<lambda>zs. take k tmp @ (?y # zs) @ drop ?n tmp) (list_merge below (seg a i mid) (seg a (j + 1) hi))"
      using less.hyps [of i "j + 1" "k + 1" "tmp[k := ?y]"] ij prems update_splice [OF k, of ?n ?y] unfolding e by simp
    have x: "merge_halves below a (tmp[k := ?x]) (i + 1) mid j hi (k + 1) =
        map_run (\<lambda>zs. take k tmp @ (?x # zs) @ drop ?n tmp) (list_merge below (seg a (i + 1) mid) (seg a j hi))"
      using less.hyps [of "i + 1" j "k + 1" "tmp[k := ?x]"] ij prems update_splice [OF k, of ?n ?x] unfolding e by simp
    show ?thesis
      unfolding l x y unfolding s list_merge.simps map_run_seq if_distrib [of "map_run _"] map_run_comp ..
  qed
qed

lemma list_merge_mset: "list_merge below xs ys s = Some (Inr zs, s') \<Longrightarrow> mset zs = mset xs + mset ys"
proof (induction below xs ys arbitrary: zs s rule: list_merge.induct)
  case (3 below x xs y ys)
  from "3.prems" obtain l s1 where l: "below y x s = Some (Inr l, s1)"
    and m: "(if l then map_run ((#) y) (list_merge below (x # xs) ys)
       else map_run ((#) x) (list_merge below xs (y # ys))) s1 = Some (Inr zs, s')"
    by (auto simp: and_run_Inr)
  show ?case
  proof (cases l)
    case True
    with m obtain us where "list_merge below (x # xs) ys s1 = Some (Inr us, s')" "zs = y # us" by (auto simp: map_run_Inr)
    with "3.IH"(1) [OF True] show ?thesis by simp
  next
    case False
    with m obtain us where "list_merge below xs (y # ys) s1 = Some (Inr us, s')" "zs = x # us" by (auto simp: map_run_Inr)
    with "3.IH"(2) [OF False] show ?thesis by simp
  qed
qed simp_all

lemma list_merge_length: "list_merge below xs ys s = Some (Inr zs, s') \<Longrightarrow> length zs = length xs + length ys"
  using list_merge_mset [of below xs ys s zs s'] by (metis size_mset size_union)

text \<open>Two computations that fail alike, or succeed with related results, in the same states.\<close>

definition outcome :: "('a \<Rightarrow> 'b \<Rightarrow> bool) \<Rightarrow> ('s, 'a) run \<Rightarrow> ('s, 'b) run \<Rightarrow> bool" where
  "outcome R m n \<longleftrightarrow> (\<forall>s. rel_option (rel_prod (rel_sum (=) R) (=)) (m s) (n s))"

lemma outcome_ret [simp]: "outcome R (ret x) (ret y) \<longleftrightarrow> R x y"
  by (simp add: outcome_def ret_def)

lemma outcome_and_run:
  assumes "outcome R m n" "\<And>x y. R x y \<Longrightarrow> outcome S (f x) (g y)"
  shows "outcome S (and_run m f) (and_run n g)"
  unfolding outcome_def
proof
  fix s
  show "rel_option (rel_prod (rel_sum (=) S) (=)) (and_run m f s) (and_run n g s)"
    using assms(1) [unfolded outcome_def, rule_format, of s] assms(2)
    by (cases "m s"; cases "n s") (auto simp: outcome_def and_run_def rel_sum.simps split: sum.splits)
qed

lemma outcome_map: "(\<And>s x s'. m s = Some (Inr x, s') \<Longrightarrow> R (f x) x) \<Longrightarrow> outcome R (map_run f m) m"
  by (auto simp: outcome_def map_run_def and_run_def ret_def rel_sum.simps split: option.splits prod.splits sum.splits)

text \<open>The in-place sort does on the segment what the sort on lists does, and touches nothing else.\<close>

lemma msort_correct:
  fixes below :: "'a \<Rightarrow> 'a \<Rightarrow> ('s, bool) run"
  assumes "lo \<le> hi" "hi \<le> length a" "length tmp = length a"
  shows "outcome (\<lambda>s zs. fst s = take lo a @ zs @ drop hi a \<and> length zs = hi - lo \<and> length (snd s) = length a)
    (msort below a tmp lo hi) (list_sort below (seg a lo hi))"
  using assms
proof (induction "hi - lo" arbitrary: lo hi a tmp rule: less_induct)
  case less
  define mid where "mid = lo + (hi - lo) div 2"
  let ?xs = "seg a lo hi"
  show ?case
  proof (cases "hi - lo < 2")
    case True
    have "a = take lo a @ seg a lo hi @ drop hi a"
      using less.prems by (simp add: seg_def) (metis append_take_drop_id drop_drop le_add_diff_inverse2)
    then show ?thesis using True less.prems by (simp add: msort.simps [of below a] list_sort.simps [of below ?xs])
  next
    case False
    have mid: "lo \<le> mid" "mid \<le> hi" "mid - lo < hi - lo" "hi - mid < hi - lo" using False unfolding mid_def by linarith+
    have parts: "take (length ?xs div 2) ?xs = seg a lo mid" "drop (length ?xs div 2) ?xs = seg a mid hi"
      unfolding length_seg [OF less.prems(2)] using less.prems False by (simp_all add: seg_def min_def drop_take ac_simps mid_def)
    have n: "\<not> length ?xs < 2" using False less.prems by simp
    show ?thesis
      unfolding msort.simps [of below a tmp lo hi] list_sort.simps [of below ?xs] if_not_P [OF False] if_not_P [OF n] parts mid_def [symmetric]
    proof (rule outcome_and_run [OF less.hyps])
      fix s1 :: "'a list \<times> 'a list" and ys :: "'a list"
      assume s1: "fst s1 = take lo a @ ys @ drop mid a \<and> length ys = mid - lo \<and> length (snd s1) = length a"
      have l1: "length (fst s1) = length a" using s1 mid less.prems by simp
      have g: "seg a mid hi = seg (fst s1) mid hi" using s1 mid less.prems by (simp add: seg_def)
      show "outcome (\<lambda>s zs. fst s = take lo a @ zs @ drop hi a \<and> length zs = hi - lo \<and> length (snd s) = length a)
        (and_run (msort below (fst s1) (snd s1) mid hi) (\<lambda>s2. and_run
          (merge_halves below (fst s2) (snd s2) lo mid mid hi lo) (\<lambda>tmp'. ret (copy_back (fst s2) tmp' lo hi, tmp'))))
        (and_run (list_sort below (seg a mid hi)) (list_merge below ys))"
        unfolding g
      proof (rule outcome_and_run [OF less.hyps])
        fix s2 :: "'a list \<times> 'a list" and us :: "'a list"
        assume s2: "fst s2 = take mid (fst s1) @ us @ drop hi (fst s1) \<and> length us = hi - mid \<and> length (snd s2) = length (fst s1)"
        have f2: "fst s2 = take lo a @ ys @ us @ drop hi a"
          using s1 s2 mid less.prems by (simp add: drop_append)
        then have g2: "seg (fst s2) lo mid = ys" "seg (fst s2) mid hi = us" and l2: "length (fst s2) = length a"
          using s1 s2 mid less.prems by (simp_all add: seg_def)
        have "merge_halves below (fst s2) (snd s2) lo mid mid hi lo =
            map_run (\<lambda>zs. take lo (snd s2) @ zs @ drop (lo + (mid - lo) + (hi - mid)) (snd s2))
              (list_merge below ys us)"
        proof -
          have "mid \<le> length (fst s2)" "hi \<le> length (fst s2)" "lo + (mid - lo) + (hi - mid) \<le> length (snd s2)"
            using mid less.prems l1 l2 s2 by auto
          from merge_halves_correct [OF mid(1,2) this, of below] show ?thesis unfolding g2 .
        qed
        then have "outcome (\<lambda>t zs. t = take lo (snd s2) @ zs @ drop hi (snd s2) \<and> length zs = hi - lo)
            (merge_halves below (fst s2) (snd s2) lo mid mid hi lo) (list_merge below ys us)"
          using mid s1 s2 by (auto intro!: outcome_map dest: list_merge_length)
        then have "outcome (\<lambda>s zs. fst s = take lo a @ zs @ drop hi a \<and> length zs = hi - lo \<and> length (snd s) = length a)
          (and_run (merge_halves below (fst s2) (snd s2) lo mid mid hi lo) (\<lambda>tmp'. ret (copy_back (fst s2) tmp' lo hi, tmp')))
          (and_run (list_merge below ys us) ret)"
        proof (rule outcome_and_run)
          fix t zs
          assume t: "t = take lo (snd s2) @ zs @ drop hi (snd s2) \<and> length zs = hi - lo"
          then show "outcome (\<lambda>s zs. fst s = take lo a @ zs @ drop hi a \<and> length zs = hi - lo \<and> length (snd s) = length a)
            (ret (copy_back (fst s2) t lo hi, t)) (ret zs)"
          proof -
            have "take lo (fst s2) = take lo a" "drop hi (fst s2) = drop hi a"
              using s1 s2 mid less.prems by (simp_all add: f2)
            moreover have "seg t lo hi = zs" "length t = length a"
              using t less.prems s2 l1 by (simp_all add: seg_def)
            ultimately show ?thesis
              using copy_back_correct [of lo hi "fst s2" t] less.prems l2 t by simp
          qed
        qed
        moreover have "and_run m ret = m" for m :: "('s, 'a list) run"
          by (rule ext) (auto simp: and_run_def ret_def split: option.splits sum.splits)
        ultimately show "outcome (\<lambda>s zs. fst s = take lo a @ zs @ drop hi a \<and> length zs = hi - lo \<and> length (snd s) = length a)
          (and_run (merge_halves below (fst s2) (snd s2) lo mid mid hi lo) (\<lambda>tmp'. ret (copy_back (fst s2) tmp' lo hi, tmp')))
          (list_merge below ys us)" by simp
      qed (use mid s1 l1 less.prems in simp_all)
    qed (use mid less.prems in simp_all)
  qed
qed

subsection \<open>Whatever the comparator: a permutation\<close>

text \<open>The calls of a comparator that returned, on elements of \<open>A\<close>, from one state to another; and a call
  that threw, after some that returned.\<close>

inductive calls :: "('a \<Rightarrow> 'a \<Rightarrow> ('s, 'v) run) \<Rightarrow> 'a set \<Rightarrow> 's \<Rightarrow> 's \<Rightarrow> bool" for f A where
  calls_none: "calls f A s s"
| calls_more: "calls f A s s1 \<Longrightarrow> a \<in> A \<Longrightarrow> b \<in> A \<Longrightarrow> f a b s1 = Some (Inr v, s2) \<Longrightarrow> calls f A s s2"

definition threw :: "('a \<Rightarrow> 'a \<Rightarrow> ('s, 'v) run) \<Rightarrow> 'a set \<Rightarrow> 's \<Rightarrow> exn \<Rightarrow> 's \<Rightarrow> bool" where
  "threw f A s e s' \<longleftrightarrow> (\<exists>a \<in> A. \<exists>b \<in> A. \<exists>s1. calls f A s s1 \<and> f a b s1 = Some (Inl e, s'))"

text \<open>\<open>ends f A Q m s\<close>: from \<open>s\<close> the computation ends, with a result that is \<open>Q\<close> after calls that returned,
  or with the exception of the call that threw, in the state that call left.\<close>

definition ends :: "('a \<Rightarrow> 'a \<Rightarrow> ('s, 'v) run) \<Rightarrow> 'a set \<Rightarrow> ('b \<Rightarrow> bool) \<Rightarrow> ('s, 'b) run \<Rightarrow> 's \<Rightarrow> bool" where
  "ends f A Q m s \<longleftrightarrow> (\<exists>r s'. m s = Some (r, s') \<and>
     (case r of Inl e \<Rightarrow> threw f A s e s' | Inr x \<Rightarrow> calls f A s s' \<and> Q x))"

lemma calls_trans: "calls f A s1 s2 \<Longrightarrow> calls f A s s1 \<Longrightarrow> calls f A s s2"
  by (induction rule: calls.induct) (auto intro: calls_more)

lemma threw_trans: "calls f A s s1 \<Longrightarrow> threw f A s1 e s' \<Longrightarrow> threw f A s e s'"
  by (auto simp: threw_def intro: calls_trans)

lemma ends_ret [simp]: "ends f A Q (ret x) s \<longleftrightarrow> Q x"
  by (auto simp: ends_def ret_def intro: calls_none)

lemma ends_and_run:
  assumes m: "ends f A Q m s" and g: "\<And>x s1. Q x \<Longrightarrow> ends f A R (g x) s1"
  shows "ends f A R (and_run m g) s"
proof -
  obtain r s1 where r: "m s = Some (r, s1)"
    "case r of Inl e \<Rightarrow> threw f A s e s1 | Inr x \<Rightarrow> calls f A s s1 \<and> Q x"
    using m by (auto simp: ends_def)
  show ?thesis
  proof (cases r)
    case (Inl e)
    with r show ?thesis by (simp add: ends_def and_run_def)
  next
    case (Inr x)
    with r have c: "calls f A s s1" "Q x" by simp_all
    obtain r' s2 where r': "g x s1 = Some (r', s2)"
      "case r' of Inl e \<Rightarrow> threw f A s1 e s2 | Inr y \<Rightarrow> calls f A s1 s2 \<and> R y"
      using g [OF c(2), of s1] by (auto simp: ends_def)
    have "case r' of Inl e \<Rightarrow> threw f A s e s2 | Inr y \<Rightarrow> calls f A s s2 \<and> R y"
      using r'(2) c(1) by (auto intro: threw_trans calls_trans split: sum.splits)
    with r(1) r'(1) Inr show ?thesis by (simp add: ends_def and_run_def)
  qed
qed

lemma ends_map_run: "ends f A (\<lambda>x. R (g x)) m s \<Longrightarrow> ends f A R (map_run g m) s"
  unfolding map_run_def by (erule ends_and_run) simp

lemma ends_call:
  assumes "a \<in> A" "b \<in> A" "f a b s \<noteq> None"
  shows "ends f A (\<lambda>_. True) (f a b) s"
proof -
  obtain r s' where r: "f a b s = Some (r, s')" using assms(3) by fastforce
  show ?thesis
  proof (cases r)
    case (Inl e)
    then have "threw f A s e s'" using assms(1,2) r calls_none [of f A s] unfolding threw_def by blast
    with r Inl show ?thesis by (simp add: ends_def)
  next
    case (Inr v)
    with r calls_more [OF calls_none assms(1,2)] show ?thesis by (auto simp: ends_def)
  qed
qed

lemma list_merge_ends:
  assumes below: "\<And>x y s. x \<in> A \<Longrightarrow> y \<in> A \<Longrightarrow> ends f A (\<lambda>_. True) (below x y) s" and A: "set xs \<subseteq> A" "set ys \<subseteq> A"
  shows "ends f A (\<lambda>zs. mset zs = mset xs + mset ys) (list_merge below xs ys) s"
  using A
proof (induction "length xs + length ys" arbitrary: xs ys s rule: less_induct)
  case less
  show ?case
  proof (cases "xs = [] \<or> ys = []")
    case True
    then show ?thesis by (cases xs) auto
  next
    case False
    then obtain x us y vs where e: "xs = x # us" "ys = y # vs" by (cases xs; cases ys) auto
    have A: "x \<in> A" "y \<in> A" "set us \<subseteq> A" "set vs \<subseteq> A" using less.prems by (simp_all add: e)
    show ?thesis
      unfolding e list_merge.simps
    proof (rule ends_and_run [OF below [OF A(2,1)]])
      fix l :: bool and s1
      have "ends f A (\<lambda>zs. mset zs = mset xs + mset vs) (list_merge below xs vs) s1"
        "ends f A (\<lambda>zs. mset zs = mset us + mset ys) (list_merge below us ys) s1"
        using less.hyps [of xs vs] less.hyps [of us ys] less.prems A by (simp_all add: e)
      then show "ends f A (\<lambda>zs. mset zs = mset (x # us) + mset (y # vs))
          (if l then map_run ((#) y) (list_merge below (x # us) vs) else map_run ((#) x) (list_merge below us (y # vs))) s1"
        by (cases l) (auto simp: e intro!: ends_map_run)
    qed
  qed
qed

lemma list_sort_ends:
  assumes "\<And>x y s. x \<in> A \<Longrightarrow> y \<in> A \<Longrightarrow> ends f A (\<lambda>_. True) (below x y) s" "set xs \<subseteq> A"
  shows "ends f A (\<lambda>zs. mset zs = mset xs) (list_sort below xs) s"
  using assms(2)
proof (induction "length xs" arbitrary: xs s rule: less_induct)
  case less
  show ?case
  proof (cases "length xs < 2")
    case True
    then show ?thesis by (simp add: list_sort.simps)
  next
    case False
    let ?m = "length xs div 2"
    have l: "length (take ?m xs) < length xs" "length (drop ?m xs) < length xs"
      "set (take ?m xs) \<subseteq> A" "set (drop ?m xs) \<subseteq> A"
      using False less.prems by (auto dest: in_set_takeD in_set_dropD)
    have split: "mset xs = mset (take ?m xs) + mset (drop ?m xs)" by (metis append_take_drop_id mset_append)
    show ?thesis
      unfolding list_sort.simps [of below xs] if_not_P [OF False]
    proof (rule ends_and_run [OF less.hyps [OF l(1,3)]])
      fix ys s1
      assume ys: "mset ys = mset (take ?m xs)"
      then have sy: "set ys \<subseteq> A" using l(3) by (metis set_mset_mset)
      show "ends f A (\<lambda>zs. mset zs = mset xs) (and_run (list_sort below (drop ?m xs)) (list_merge below ys)) s1"
      proof (rule ends_and_run [OF less.hyps [OF l(2,4)]])
        fix us s2
        assume us: "mset us = mset (drop ?m xs)"
        then have "set us \<subseteq> A" using l(4) by (metis set_mset_mset)
        from list_merge_ends [OF assms(1) sy this] show "ends f A (\<lambda>zs. mset zs = mset xs) (list_merge below ys us) s2"
          unfolding split ys us .
      qed
    qed
  qed
qed

subsection \<open>A strict order on the elements: sorted and stable\<close>

text \<open>What a sort relies on: on the elements it is given, the comparator is a strict weak order.\<close>

locale sort_order =
  fixes A :: "'a set" and lt :: "'a \<Rightarrow> 'a \<Rightarrow> bool"
  assumes asym: "x \<in> A \<Longrightarrow> y \<in> A \<Longrightarrow> lt x y \<Longrightarrow> \<not> lt y x"
    and neg_trans: "x \<in> A \<Longrightarrow> y \<in> A \<Longrightarrow> z \<in> A \<Longrightarrow> \<not> lt x y \<Longrightarrow> \<not> lt y z \<Longrightarrow> \<not> lt x z"
begin

definition ordered :: "'a list \<Rightarrow> bool" where
  "ordered xs \<longleftrightarrow> sorted_wrt (\<lambda>x y. \<not> lt y x) xs"

definition same :: "'a \<Rightarrow> 'a \<Rightarrow> bool" where
  "same x y \<longleftrightarrow> \<not> lt x y \<and> \<not> lt y x"

lemma merge_ordered:
  assumes "\<And>x y. x \<in> A \<Longrightarrow> y \<in> A \<Longrightarrow> below x y = ret (lt x y)"
    "set xs \<subseteq> A" "set ys \<subseteq> A" "ordered xs" "ordered ys"
  shows "\<exists>zs. list_merge below xs ys = ret zs \<and> set zs = set xs \<union> set ys \<and> ordered zs \<and>
    (\<forall>v \<in> A. filter (same v) zs = filter (same v) xs @ filter (same v) ys)"
  using assms
proof (induction below xs ys rule: list_merge.induct)
  case (3 below x xs y ys)
  have b: "below y x = ret (lt y x)" using "3.prems"(1-3) by auto
  have A: "x \<in> A" "y \<in> A" "set xs \<subseteq> A" "set ys \<subseteq> A" using "3.prems"(2,3) by auto
  have o: "\<forall>w \<in> set xs. \<not> lt w x" "ordered xs" "\<forall>w \<in> set ys. \<not> lt w y" "ordered ys"
    using "3.prems"(4,5) by (auto simp: ordered_def)
  show ?case
  proof (cases "lt y x")
    case True
    then obtain zs where zs: "list_merge below (x # xs) ys = ret zs" "set zs = set (x # xs) \<union> set ys" "ordered zs"
      "\<And>v. v \<in> A \<Longrightarrow> filter (same v) zs = filter (same v) (x # xs) @ filter (same v) ys"
      using "3.IH"(1) [OF True "3.prems"(1) "3.prems"(2) A(4) "3.prems"(4) o(4)] by blast
    have yx: "\<not> lt w y" if "w \<in> set (x # xs)" for w
    proof -
      have "\<not> lt w x" using that o(1) asym [of x x] A by auto
      then show ?thesis using asym [of y x] True neg_trans [of w x y] that A by auto
    qed
    then have oz: "ordered (y # zs)" using zs(2,3) yx o(3) by (auto simp: ordered_def)
    have st: "filter (same v) (y # zs) = filter (same v) (x # xs) @ filter (same v) (y # ys)" if v: "v \<in> A" for v
    proof (cases "same v y")
      case True
      have "\<not> same v w" if w: "w \<in> set (x # xs)" for w
      proof
        assume s: "same v w"
        have wA: "w \<in> A" "y \<in> A" "x \<in> A" using w A by auto
        have "\<not> lt w x" using w o(1) asym [of x x] A by auto
        have "\<not> lt y w" using True s v wA neg_trans [of y v w] by (auto simp: same_def)
        then have "\<not> lt y x" using \<open>\<not> lt w x\<close> wA neg_trans [of y w x] by blast
        then show False using \<open>lt y x\<close> by simp
      qed
      then have "filter (same v) (x # xs) = []" by (metis filter_False)
      then show ?thesis using zs(4) [OF v] True by simp
    next
      case False
      then show ?thesis using zs(4) [OF v] by simp
    qed
    show ?thesis using True zs(1,2) oz st b by (intro exI [of _ "y # zs"]) auto
  next
    case False
    then obtain zs where zs: "list_merge below xs (y # ys) = ret zs" "set zs = set xs \<union> set (y # ys)" "ordered zs"
      "\<And>v. v \<in> A \<Longrightarrow> filter (same v) zs = filter (same v) xs @ filter (same v) (y # ys)"
      using "3.IH"(2) [OF False "3.prems"(1) A(3) "3.prems"(3) o(2) "3.prems"(5)] by blast
    have "\<not> lt w x" if "w \<in> set (y # ys)" for w
      using that False A o(3) neg_trans [of w y x] by auto
    then have oz: "ordered (x # zs)" using zs(2,3) o(1) by (auto simp: ordered_def)
    show ?thesis using False zs oz b by (intro exI [of _ "x # zs"]) auto
  qed
qed (auto simp: ordered_def)

lemma sort_ordered:
  assumes "\<And>x y. x \<in> A \<Longrightarrow> y \<in> A \<Longrightarrow> below x y = ret (lt x y)" "set xs \<subseteq> A"
  shows "\<exists>zs. list_sort below xs = ret zs \<and> set zs = set xs \<and> ordered zs \<and>
    (\<forall>v \<in> A. filter (same v) zs = filter (same v) xs)"
  using assms(2)
proof (induction "length xs" arbitrary: xs rule: less_induct)
  case less
  show ?case
  proof (cases "length xs < 2")
    case True
    then have "ordered xs" by (cases xs) (auto simp: ordered_def length_Suc_conv less_Suc_eq numeral_2_eq_2)
    then show ?thesis using True by (intro exI [of _ xs]) (simp add: list_sort.simps)
  next
    case False
    let ?m = "length xs div 2"
    have l: "length (take ?m xs) < length xs" "length (drop ?m xs) < length xs"
      "set (take ?m xs) \<subseteq> A" "set (drop ?m xs) \<subseteq> A"
      using False less.prems by (auto dest: in_set_takeD in_set_dropD)
    obtain ys where ys: "list_sort below (take ?m xs) = ret ys" "set ys = set (take ?m xs)" "ordered ys"
      "\<forall>v \<in> A. filter (same v) ys = filter (same v) (take ?m xs)" using less.hyps [OF l(1,3)] by blast
    obtain us where us: "list_sort below (drop ?m xs) = ret us" "set us = set (drop ?m xs)" "ordered us"
      "\<forall>v \<in> A. filter (same v) us = filter (same v) (drop ?m xs)" using less.hyps [OF l(2,4)] by blast
    have "set ys \<subseteq> A" "set us \<subseteq> A" using ys(2) us(2) l by simp_all
    from merge_ordered [OF assms(1) this ys(3) us(3)]
    obtain zs where zs: "list_merge below ys us = ret zs" "set zs = set ys \<union> set us" "ordered zs"
      "\<forall>v \<in> A. filter (same v) zs = filter (same v) ys @ filter (same v) us" by blast
    have "filter (same v) (take ?m xs) @ filter (same v) (drop ?m xs) = filter (same v) xs" for v
      by (simp flip: filter_append)
    moreover have "set xs = set (take ?m xs) \<union> set (drop ?m xs)" by (metis append_take_drop_id set_append)
    ultimately show ?thesis
      using False ys us zs by (intro exI [of _ zs]) (simp add: list_sort.simps [of below xs])
  qed
qed

end

subsection \<open>The sort of a slice\<close>

definition keyed :: "nat \<Rightarrow> val set" where
  "keyed n = {v. \<exists>p. key_of v = Some p \<and> key_sort p = n}"

definition val_less :: "val \<Rightarrow> val \<Rightarrow> bool" where
  "val_less v w = (case (key_of v, key_of w) of (Some p, Some q) \<Rightarrow> key_less p q | _ \<Rightarrow> False)"

interpretation keys: sort_order "keyed n" val_less for n
proof
  show "x \<in> keyed n \<Longrightarrow> y \<in> keyed n \<Longrightarrow> val_less x y \<Longrightarrow> \<not> val_less y x" for x y
    by (clarsimp simp: keyed_def val_less_def) (metis key_less_total key_of_nan)
  show "x \<in> keyed n \<Longrightarrow> y \<in> keyed n \<Longrightarrow> z \<in> keyed n \<Longrightarrow> \<not> val_less x y \<Longrightarrow> \<not> val_less y z \<Longrightarrow> \<not> val_less x z" for x y z
    by (clarsimp simp: keyed_def val_less_def) (metis key_less_total key_less_trans key_of_nan)
qed

lemma same_key:
  assumes "v \<in> keyed n" "w \<in> keyed n"
  shows "keys.same v w \<longleftrightarrow> key_of v = key_of w"
proof -
  obtain p q where p: "key_of v = Some p" "key_of w = Some q" "key_sort p = key_sort q"
    using assms by (auto simp: keyed_def)
  show ?thesis
    using key_less_total [OF p(3) key_of_nan [OF p(1)] key_of_nan [OF p(2)]] p by (auto simp: keys.same_def val_less_def split: if_splits)
qed

lemma sort_less_keys: "v \<in> keyed n \<Longrightarrow> w \<in> keyed n \<Longrightarrow> sort_less E None v w = ret (val_less v w)"
  by (rule ext) (auto simp: keyed_def sort_less_def val_less_def keys_compared(1) stateless_def and_run_def ret_def)

text \<open>The whole slice.\<close>

lemma seg_whole: "seg xs 0 (length xs) = xs"
  by (simp add: seg_def)

lemma sort_slice_list:
  "vl_sort_slice E cmp (w, xs) =
    (if length xs < 2 then Some (Inr (), w, xs)
     else and_run (list_sort (sort_less E cmp) xs) (\<lambda>zs (w', now).
       Some (Inr (), w', if length now = length xs then zs else now)) (w, xs))"
proof -
  let ?b = "sort_less E cmp :: val \<Rightarrow> val \<Rightarrow> ('a \<times> val list, bool) run"
  let ?m = "msort ?b xs (replicate (length xs) V_nil) 0 (length xs)"
  have "outcome (\<lambda>s zs. fst s = zs \<and> length zs = length xs \<and> length (snd s) = length xs) ?m (list_sort ?b xs)"
    using msort_correct [of 0 "length xs" xs "replicate (length xs) V_nil" ?b] by (simp add: seg_whole)
  then have "rel_option (rel_prod (rel_sum (=) (\<lambda>s zs. fst s = zs \<and> length zs = length xs \<and> length (snd s) = length xs)) (=))
      (?m (w, xs)) (list_sort ?b xs (w, xs))"
    by (simp add: outcome_def)
  then have "and_run ?m (\<lambda>s (w', now). Some (Inr (), w', if length now = length xs then fst s else now)) (w, xs) =
      and_run (list_sort ?b xs) (\<lambda>zs (w', now). Some (Inr (), w', if length now = length xs then zs else now)) (w, xs)"
    by (cases "?m (w, xs)"; cases "list_sort ?b xs (w, xs)")
      (auto simp: and_run_def rel_sum.simps split: sum.splits)
  then show ?thesis by (simp add: vl_sort_slice_def)
qed

text \<open>C1. Sorting a slice of numbers (64-bit integers and decimals with an exponent within 999999999 and at
  most twenty million digits), of floats without NaN or of texts without zero bytes, by the operator
  \<open><\<close>: it returns, with the same elements, none greater than one after it, and elements with equal keys
  keep their order (an integer and the equal decimal do not change places).\<close>

theorem sort_correct:
  assumes "\<forall>v \<in> set xs. \<exists>p. key_of v = Some p \<and> key_sort p = n"
  shows "\<exists>ys. vl_sort_slice E None (w, xs) = Some (Inr (), w, ys) \<and> mset ys = mset xs \<and>
    sorted_wrt (\<lambda>v w. \<not> val_less w v) ys \<and>
    (\<forall>p. filter (\<lambda>v. key_of v = Some p) ys = filter (\<lambda>v. key_of v = Some p) xs)"
proof -
  have A: "set xs \<subseteq> keyed n" using assms by (auto simp: keyed_def)
  let ?b = "sort_less E None :: val \<Rightarrow> val \<Rightarrow> ('a \<times> val list, bool) run"
  obtain ys where ys: "list_sort ?b xs = ret ys" "set ys = set xs" "keys.ordered ys"
    "\<forall>v \<in> keyed n. filter (keys.same v) ys = filter (keys.same v) xs"
    using keys.sort_ordered [where below = ?b, OF sort_less_keys [where n = n] A] by blast
  have "filter (\<lambda>v. key_of v = Some p) ys = filter (\<lambda>v. key_of v = Some p) xs" for p
  proof (cases "\<exists>v \<in> set xs. key_of v = Some p")
    case True
    then obtain v where v: "v \<in> set xs" "key_of v = Some p" by blast
    have "keys.same v w \<longleftrightarrow> key_of w = Some p" if "w \<in> set xs" for w
      using same_key [of v n w] v A that by (metis subsetD)
    then have "filter (\<lambda>w. key_of w = Some p) zs = filter (keys.same v) zs" if "set zs = set xs" for zs
      using that by (intro filter_cong) auto
    then show ?thesis using ys(2,4) v(1) A by (metis subsetD)
  next
    case False
    then show ?thesis using ys(2) by (simp add: filter_empty_conv)
  qed
  moreover have "mset ys = mset xs"
  proof -
    have "ends ?b (set xs) (\<lambda>_. True) (?b x y) s" if "x \<in> set xs" "y \<in> set xs" for x y s
    proof -
      have "?b x y = ret (val_less x y)" using that A by (intro sort_less_keys) auto
      then show ?thesis by simp
    qed
    then have "ends ?b (set xs) (\<lambda>zs. mset zs = mset xs) (list_sort ?b xs) (w, xs)"
      by (rule list_sort_ends) simp_all
    then show ?thesis using ys(1) by simp
  qed
  moreover have "vl_sort_slice E None (w, xs) = Some (Inr (), w, ys)"
  proof (cases "length xs < 2")
    case True
    then have "ret xs = (ret ys :: ('a \<times> val list, val list) run)" using ys(1) by (simp add: list_sort.simps)
    then have "ys = xs" by (simp add: ret_def fun_eq_iff)
    then show ?thesis using True by (simp add: sort_slice_list)
  next
    case False
    then show ?thesis unfolding sort_slice_list ys(1) by simp
  qed
  ultimately show ?thesis using ys(3) by (auto simp: keys.ordered_def)
qed

theorem sort_correct_witness:
  "\<exists>ys. vl_sort_slice ages_ops None ((), [V_int 3, O_dec (vl_dec_from_int 2), V_int 2]) = Some (Inr (), (), ys) \<and>
    filter (\<lambda>v. key_of v = Some (Key_num 2)) ys = [O_dec (vl_dec_from_int 2), V_int 2]"
proof -
  have "\<forall>v \<in> set [V_int 3, O_dec (vl_dec_from_int 2), V_int 2]. \<exists>p. key_of v = Some p \<and> key_sort p = 0"
    by (simp add: key_of_def i64_def)
  from sort_correct [OF this, of ages_ops "()"] show ?thesis by (fastforce simp: key_of_def i64_def)
qed

text \<open>C7. Whatever comparator sorts the slice, with state of its own, contradictory answers, exceptions on
  some calls, changes to the slice itself: as long as each call ends, the sort ends after some calls on
  elements of the slice.  If one throws, its exception is the sort's and the program and the slice are as
  that call left them; otherwise, if the slice has kept its length, it now holds a permutation of the
  elements it had at the start, and if not, it is as the last call left it.\<close>

theorem sort_permutes:
  assumes "\<forall>a \<in> set xs. \<forall>b \<in> set xs. \<forall>s. f a b s \<noteq> None"
  shows "\<exists>r w' ys. vl_sort_slice E (Some f) (w, xs) = Some (r, w', ys) \<and>
    (case r of
       Inl e \<Rightarrow> \<exists>a \<in> set xs. \<exists>b \<in> set xs. \<exists>s. calls f (set xs) (w, xs) s \<and> f a b s = Some (Inl e, w', ys)
     | Inr _ \<Rightarrow> \<exists>now. calls f (set xs) (w, xs) (w', now) \<and>
         (if length now = length xs then mset ys = mset xs else ys = now))"
proof (cases "length xs < 2")
  case True
  then show ?thesis by (auto simp: sort_slice_list intro!: exI [of _ xs] calls_none)
next
  case False
  have "ends f (set xs) (\<lambda>_. True) (sort_less E (Some f) a b) s" if "a \<in> set xs" "b \<in> set xs" for a b s
  proof -
    have "f a b s \<noteq> None" using assms that by blast
    then show ?thesis
      unfolding sort_less_def option.case using that by (intro ends_and_run [OF ends_call]) simp_all
  qed
  then have "ends f (set xs) (\<lambda>zs. mset zs = mset xs) (list_sort (sort_less E (Some f)) xs) (w, xs)"
    by (rule list_sort_ends) simp_all
  then obtain r w1 now where r: "list_sort (sort_less E (Some f)) xs (w, xs) = Some (r, w1, now)"
    "case r of Inl e \<Rightarrow> threw f (set xs) (w, xs) e (w1, now)
     | Inr zs \<Rightarrow> calls f (set xs) (w, xs) (w1, now) \<and> mset zs = mset xs"
    by (auto simp: ends_def)
  show ?thesis
  proof (cases r)
    case (Inl e)
    then show ?thesis using False r by (simp add: sort_slice_list and_run_def threw_def)
  next
    case (Inr zs)
    then show ?thesis using False r by (auto simp: sort_slice_list and_run_def)
  qed
qed

text \<open>A comparator that counts its calls and throws at the second.\<close>

definition fussy :: "val \<Rightarrow> val \<Rightarrow> (nat \<times> val list, val) run" where
  "fussy a b = (\<lambda>(n, xs). if n = 1 then Some (Inl (Throw ''Bored'' []), n + 1, xs) else Some (Inr (V_bool True), n + 1, xs))"

theorem sort_permutes_witness:
  "(\<exists>ys. vl_sort_slice ages_ops (Some fussy) (2, [V_int 1, V_nil]) = Some (Inr (), 3, ys) \<and> mset ys = {#V_int 1, V_nil#}) \<and>
   vl_sort_slice ages_ops (Some fussy) (1, [V_int 1, V_nil]) = Some (Inl (Throw ''Bored'' []), 2, [V_int 1, V_nil])"
proof -
  let ?xs = "[V_int 1, V_nil]"
  have h: "\<forall>a \<in> set ?xs. \<forall>b \<in> set ?xs. \<forall>s. fussy a b s \<noteq> None" by (auto simp: fussy_def split: prod.splits)
  have e: "vl_sort_slice ages_ops (Some fussy) (n, ?xs) = (if n = 1 then Some (Inl (Throw ''Bored'' []), 2, ?xs)
      else Some (Inr (), n + 1, [V_nil, V_int 1]))" for n
    by (simp add: sort_slice_list list_sort.simps sort_less_def fussy_def and_run_def ret_def map_run_def)
  show ?thesis using sort_permutes [OF h, of ages_ops 2] e [of 1] e [of 2] by auto
qed

end
