(* ===== verification/RxParse.thy ===== *)
theory RxParse
  imports Methods
begin

section \<open>Regular expressions: the parser (regex.c: class\_escape .. parse\_alt)\<close>

text \<open>
  The pattern syntax of \<^verbatim>\<open>std/regex\<close>.  A \<^verbatim>\<open>Node\<close> of the arena is a value of \<open>rx\<close> (the arena
  only owns memory), the 256-bit set of a class is a set of byte values, and the cursor
  \<^verbatim>\<open>ps->p\<close> with its \<^verbatim>\<open>ps->end\<close> is the rest of the pattern.  The recursive descent carries fuel,
  which stands for nothing in the code: \<open>rx_parse\<close> supplies an amount that is proved to be enough
  for every pattern.
\<close>

datatype rx =
    N_EMPTY bool bool
  | N_CHAR char
  | N_ANY
  | N_CLASS "nat set" bool
  | N_CAT rx rx
  | N_ALT rx rx
  | N_REP rx nat int bool
  | N_GROUP rx int

definition RX_MAX_REP :: nat where "RX_MAX_REP = 1000"
definition RX_MAX_GROUPS :: nat where "RX_MAX_GROUPS = 20"
definition RX_MAX_DEPTH :: nat where "RX_MAX_DEPTH = 400"

record pstate =
  p_rest :: string
  p_ngroups :: nat
  p_depth :: nat
  p_err :: "string option"
  p_names :: "string option list"

abbreviation byte_of :: "char \<Rightarrow> nat" where
  "byte_of \<equiv> of_char"

abbreviation BSL :: char where
  "BSL \<equiv> CHR 0x5C"

definition fail :: "string \<Rightarrow> pstate \<Rightarrow> pstate" where
  "fail why ps = (if p_err ps = None then ps\<lparr>p_err := Some why\<rparr> else ps)"

definition rest_to :: "string \<Rightarrow> pstate \<Rightarrow> pstate" where
  "rest_to r ps = ps\<lparr>p_rest := r\<rparr>"

subsection \<open>Character classes\<close>

definition class_escape :: "char \<Rightarrow> nat set option" where
  "class_escape e =
     (if e = CHR ''d'' then Some {48..57}
      else if e = CHR ''w'' then Some ({97..122} \<union> {65..90} \<union> {48..57} \<union> {95})
      else if e = CHR ''s'' then Some {32, 9, 10, 13, 12, 11}
      else None)"

definition escape_byte :: "char \<Rightarrow> char" where
  "escape_byte e =
     (if e = CHR ''n'' then CHR 0x0A
      else if e = CHR ''t'' then CHR 0x09
      else if e = CHR ''r'' then CHR 0x0D
      else if e = CHR ''f'' then CHR 0x0C
      else if e = CHR ''v'' then CHR 0x0B
      else if e = CHR ''0'' then CHR 0x00
      else e)"

text \<open>\<^verbatim>\<open>class_escape(pos, e + 32)\<close> for \<^verbatim>\<open>\\D\<close>, \<^verbatim>\<open>\\W\<close> and \<^verbatim>\<open>\\S\<close>.\<close>

definition neg_escape :: "char \<Rightarrow> nat set option" where
  "neg_escape e =
     (if e \<in> {CHR ''D'', CHR ''W'', CHR ''S''} then class_escape (char_of (byte_of e + 32)) else None)"

text \<open>After the byte \<open>lo\<close>: a range when a \<^verbatim>\<open>-\<close> follows that is not last, else that byte alone.\<close>

definition class_item :: "nat set \<Rightarrow> char \<Rightarrow> string \<Rightarrow> nat set \<times> string \<times> string option" where
  "class_item S lo r =
     (case r of
        d # x # r1 \<Rightarrow>
          if d = CHR ''-'' \<and> x \<noteq> CHR '']'' then
            (case (if x = BSL then (case r1 of [] \<Rightarrow> None | e # r2 \<Rightarrow> Some (escape_byte e, r2))
                   else Some (x, r1)) of
               None \<Rightarrow> (S, [], Some ''trailing backslash'')
             | Some (hi, r2) \<Rightarrow>
                 if byte_of hi < byte_of lo
                 then (S, r2, Some ''character class range is out of order'')
                 else (S \<union> {byte_of lo..byte_of hi}, r2, None))
          else (insert (byte_of lo) S, r, None)
      | _ \<Rightarrow> (insert (byte_of lo) S, r, None))"

lemma class_item_shrinks: "class_item S lo r = (S', r', e) \<Longrightarrow> length r' \<le> length r"
  by (auto simp: class_item_def split: list.splits if_splits option.splits)

function cls_loop :: "bool \<Rightarrow> nat set \<Rightarrow> string \<Rightarrow> nat set \<times> string \<times> string option" where
  "cls_loop first S [] = (S, [], Some ''unterminated character class'')"
| "cls_loop first S (c # r) =
     (if c = CHR '']'' \<and> \<not> first then (S, r, None)
      else if c = BSL then
        (case r of
           [] \<Rightarrow> (S, [], Some ''trailing backslash'')
         | e # r1 \<Rightarrow>
             (case class_escape e of
                Some fam \<Rightarrow> cls_loop False (S \<union> fam) r1
              | None \<Rightarrow>
                  (case neg_escape e of
                     Some fam \<Rightarrow> cls_loop False (S \<union> ({0..255} - fam)) r1
                   | None \<Rightarrow>
                       (case class_item S (escape_byte e) r1 of
                          (S', r', Some why) \<Rightarrow> (S', r', Some why)
                        | (S', r', None) \<Rightarrow> cls_loop False S' r'))))
      else
        (case class_item S c r of
           (S', r', Some why) \<Rightarrow> (S', r', Some why)
         | (S', r', None) \<Rightarrow> cls_loop False S' r'))"
  by pat_completeness auto
termination
proof (relation "measure (\<lambda>(f, S, r). length r)", goal_cases)
  case 1
  show ?case by simp
qed (auto dest!: class_item_shrinks [OF sym])

definition parse_class :: "pstate \<Rightarrow> rx \<times> pstate" where
  "parse_class ps =
     (let r = p_rest ps;
          neg = (case r of c # _ \<Rightarrow> c = CHR ''^'' | [] \<Rightarrow> False);
          r0 = (if neg then tl r else r)
      in case cls_loop True {} r0 of
           (S, r', None) \<Rightarrow> (N_CLASS S neg, rest_to r' ps)
         | (S, r', Some why) \<Rightarrow> (N_CLASS S neg, fail why (rest_to r' ps)))"

subsection \<open>Groups and counted repetition\<close>

definition rx_alpha :: "char \<Rightarrow> bool" where
  "rx_alpha c \<longleftrightarrow> 97 \<le> byte_of c \<and> byte_of c \<le> 122 \<or> 65 \<le> byte_of c \<and> byte_of c \<le> 90"

definition rx_digit :: "char \<Rightarrow> bool" where
  "rx_digit c \<longleftrightarrow> 48 \<le> byte_of c \<and> byte_of c \<le> 57"

text \<open>The scan \<^verbatim>\<open>while (q < ps->end && ...) q++\<close>: a digit is allowed except at the start.\<close>

fun name_run :: "bool \<Rightarrow> string \<Rightarrow> string" where
  "name_run first [] = []"
| "name_run first (c # r) =
     (if c = CHR ''_'' \<or> rx_alpha c \<or> \<not> first \<and> rx_digit c then c # name_run False r else [])"

definition named_prefix :: "string \<Rightarrow> nat option" where
  "named_prefix r =
     (case r of
        a # b # c # _ \<Rightarrow>
          if a = CHR ''?'' \<and> b = CHR ''<'' \<and> \<not> (c = CHR ''='' \<or> c = CHR ''!'') then Some 2
          else if a = CHR ''?'' \<and> b = CHR ''P'' \<and> c = CHR ''<'' then Some 3
          else None
      | _ \<Rightarrow> None)"

text \<open>\<open>open_group\<close> is what \<^verbatim>\<open>parse_atom\<close> does between \<^verbatim>\<open>ps->p++\<close> for the parenthesis and the
  recursive call: it settles the number and the name of the group.  \<^const>\<open>Inl\<close> is a failed
  parse.\<close>

definition open_group :: "pstate \<Rightarrow> pstate + int \<times> pstate" where
  "open_group ps =
     (let r = p_rest ps in
      case named_prefix r of
        Some k \<Rightarrow>
          (let nm = name_run True (drop k r); q = drop (length nm) (drop k r) in
           if nm = [] \<or> q = [] \<or> hd q \<noteq> CHR ''>''
           then Inl (fail ''a group name is letters, digits and `_`, closed by `>`'' ps)
           else if Some nm \<in> set (take (p_ngroups ps) (tl (p_names ps)))
           then Inl (fail ''duplicate group name'' ps)
           else if p_ngroups ps + 1 \<ge> RX_MAX_GROUPS
           then Inl (fail ''too many capture groups'' (rest_to (tl q) ps))
           else let g = p_ngroups ps + 1 in
                Inr (int g, ps\<lparr>p_rest := tl q, p_ngroups := g, p_names := (p_names ps)[g := Some nm]\<rparr>))
      | None \<Rightarrow>
          (if 2 \<le> length r \<and> r ! 0 = CHR ''?'' \<and> r ! 1 = CHR '':'' then Inr (- 1, rest_to (drop 2 r) ps)
           else if r \<noteq> [] \<and> hd r = CHR ''?''
           then Inl (fail ''only the non-capturing group `(?:` is supported; lookaround is not'' ps)
           else if p_ngroups ps + 1 \<ge> RX_MAX_GROUPS then Inl (fail ''too many capture groups'' ps)
           else let g = p_ngroups ps + 1 in Inr (int g, ps\<lparr>p_ngroups := g\<rparr>)))"

text \<open>A run of decimal digits with the bound \<^const>\<open>RX_MAX_REP\<close>; \<^const>\<open>Inl\<close> is the cursor at the
  digit that exceeded it.\<close>

fun count_run :: "nat \<Rightarrow> string \<Rightarrow> string + nat \<times> string" where
  "count_run a [] = Inr (a, [])"
| "count_run a (c # r) =
     (if rx_digit c then
        (let a' = a * 10 + (byte_of c - 48) in if a' > RX_MAX_REP then Inl r else count_run a' r)
      else Inr (a, c # r))"

definition parse_counted :: "pstate \<Rightarrow> (nat \<times> int) option \<times> pstate" where
  "parse_counted ps =
     (let r0 = tl (p_rest ps) in
      if r0 = [] \<or> \<not> rx_digit (hd r0) then (None, ps)
      else case count_run 0 r0 of
        Inl r \<Rightarrow> (None, fail ''repetition count is too large'' (rest_to r ps))
      | Inr (a, r1) \<Rightarrow>
          (case (if r1 \<noteq> [] \<and> hd r1 = CHR '','' then
                   (if tl r1 \<noteq> [] \<and> hd (tl r1) = CHR ''}'' then Inr (- 1, tl r1)
                    else map_sum id (\<lambda>(b, r). (int b, r)) (count_run 0 (tl r1)))
                 else Inr (int a, r1)) of
             Inl r \<Rightarrow> (None, fail ''repetition count is too large'' (rest_to r ps))
           | Inr (b, r2) \<Rightarrow>
               if r2 = [] \<or> hd r2 \<noteq> CHR ''}'' then (None, ps)
               else if 0 \<le> b \<and> b < int a
               then (None, fail ''repetition range is out of order'' (rest_to (tl r2) ps))
               else (Some (a, b), rest_to (tl r2) ps)))"

lemma count_run_shrinks:
  "count_run a r = Inr (b, r') \<Longrightarrow> length r' \<le> length r"
  "count_run a r = Inl r' \<Longrightarrow> length r' \<le> length r"
  by (induction a r rule: count_run.induct) (auto simp: Let_def split: if_splits)

lemma count_run_bound: "count_run a r = Inr (b, r') \<Longrightarrow> a \<le> RX_MAX_REP \<Longrightarrow> b \<le> RX_MAX_REP"
  by (induction a r rule: count_run.induct) (auto simp: Let_def split: if_splits)

lemma parse_counted_cases:
  assumes "parse_counted ps = (res, ps')"
  obtains (lim) why r where "res = None" "ps' = fail why (rest_to r ps)" "length r \<le> length (p_rest ps)"
  | (literal) "res = None" "ps' = ps"
  | (ok) a b r where "res = Some (a, b)" "ps' = rest_to r ps" "length r < length (p_rest ps)"
      "a \<le> RX_MAX_REP" "b = - 1 \<or> int a \<le> b \<and> b \<le> int RX_MAX_REP"
proof -
  define r0 where "r0 = tl (p_rest ps)"
  have len0: "length r0 \<le> length (p_rest ps)" by (simp add: r0_def)
  note d = assms [unfolded parse_counted_def Let_def, folded r0_def]
  show thesis
  proof (cases "r0 = [] \<or> \<not> rx_digit (hd r0)")
    case True
    then show ?thesis using d literal by auto
  next
    case nempty: False
    show ?thesis
    proof (cases "count_run 0 r0")
      case (Inl r)
      with count_run_shrinks(2) [OF Inl] len0 show ?thesis using d nempty lim by auto
    next
      case (Inr p)
      obtain a r1 where p: "p = (a, r1)" by (cases p)
      have l1: "length r1 \<le> length r0" using count_run_shrinks(1) [OF Inr [unfolded p]] .
      have a: "a \<le> RX_MAX_REP" using count_run_bound [OF Inr [unfolded p]] by simp
      have pos: "length r0 < length (p_rest ps)" using nempty by (cases "p_rest ps") (auto simp: r0_def)
      let ?s = "if r1 \<noteq> [] \<and> hd r1 = CHR '','' then
                   (if tl r1 \<noteq> [] \<and> hd (tl r1) = CHR ''}'' then Inr (- 1, tl r1)
                    else map_sum id (\<lambda>(b, r). (int b, r)) (count_run 0 (tl r1)))
                 else Inr (int a, r1) :: string + int \<times> string"
      have s1: "length r \<le> length r0" if "?s = Inl r" for r
        using that l1 count_run_shrinks(2) [of 0 "tl r1"]
        by (cases "count_run 0 (tl r1)") (fastforce split: if_splits)+
      have s2: "length r2 \<le> length r0 \<and> (b = - 1 \<or> b \<le> int RX_MAX_REP)" if "?s = Inr (b, r2)" for b r2
        using that l1 a count_run_shrinks(1) [of 0 "tl r1"] count_run_bound [of 0 "tl r1"]
        by (cases "count_run 0 (tl r1)") (fastforce split: if_splits)+
      show ?thesis
      proof (cases ?s)
        case s: (Inl r)
        with s1 [OF s] pos show ?thesis using d nempty Inr p lim [of _ r] by auto
      next
        case s: (Inr p2)
        obtain b r2 where p2: "p2 = (b, r2)" by (cases p2)
        note s' = s2 [OF s [unfolded p2]]
        from d nempty Inr p s p2
        have d': "(if r2 = [] \<or> hd r2 \<noteq> CHR ''}'' then (None, ps)
               else if 0 \<le> b \<and> b < int a
               then (None, fail ''repetition range is out of order'' (rest_to (tl r2) ps))
               else (Some (a, b), rest_to (tl r2) ps)) = (res, ps')" by simp
        have b1: "b = - 1 \<or> 0 \<le> b"
          using s p2 by (cases "count_run 0 (tl r1)") (auto split: if_splits)
        consider "r2 = [] \<or> hd r2 \<noteq> CHR ''}''" | "r2 \<noteq> []" "0 \<le> b \<and> b < int a" "hd r2 = CHR ''}''"
          | "r2 \<noteq> []" "\<not> (0 \<le> b \<and> b < int a)" "hd r2 = CHR ''}''" by blast
        then show ?thesis
        proof cases
          case 1
          then show ?thesis using d' literal by simp
        next
          case 2
          then show ?thesis using d' lim [of _ "tl r2"] s' pos by auto
        next
          case 3
          then have "b = - 1 \<or> int a \<le> b \<and> b \<le> int RX_MAX_REP" using b1 s' by auto
          then show ?thesis using 3 d' ok [of a b "tl r2"] s' pos a by auto
        qed
      qed
    qed
  qed
qed

lemma rest_to_simps [simp]:
  "p_rest (rest_to r ps) = r" "p_err (rest_to r ps) = p_err ps" "p_depth (rest_to r ps) = p_depth ps"
  "p_ngroups (rest_to r ps) = p_ngroups ps" "p_names (rest_to r ps) = p_names ps"
  by (simp_all add: rest_to_def)

lemma fail_simps [simp]:
  "p_rest (fail why ps) = p_rest ps" "p_depth (fail why ps) = p_depth ps"
  "p_ngroups (fail why ps) = p_ngroups ps" "p_names (fail why ps) = p_names ps"
  "p_err (fail why ps) = (case p_err ps of None \<Rightarrow> Some why | Some w \<Rightarrow> Some w)"
  by (auto simp: fail_def split: option.splits)

lemma parse_counted_shrinks:
  "parse_counted ps = (Some (a, b), ps') \<Longrightarrow> length (p_rest ps') < length (p_rest ps)"
  by (rule parse_counted_cases) auto

subsection \<open>The recursive descent\<close>

abbreviation rx_nothing :: rx where
  "rx_nothing \<equiv> N_EMPTY False False"

text \<open>The loop of \<^verbatim>\<open>parse_repeat\<close> over the quantifiers behind an atom.\<close>

definition quantifier :: "pstate \<Rightarrow> (nat \<times> int) option \<times> pstate" where
  "quantifier ps =
     (case p_rest ps of
        [] \<Rightarrow> (None, ps)
      | c # r \<Rightarrow>
          if c = CHR ''*'' then (Some (0, - 1), rest_to r ps)
          else if c = CHR ''+'' then (Some (1, - 1), rest_to r ps)
          else if c = CHR ''?'' then (Some (0, 1), rest_to r ps)
          else if c = CHR ''{'' then parse_counted ps
          else (None, ps))"

lemma quantifier_shrinks:
  "quantifier ps = (Some (a, b), ps') \<Longrightarrow> length (p_rest ps') < length (p_rest ps)"
  by (auto simp: quantifier_def dest: parse_counted_shrinks split: list.splits if_splits)

definition lazy_mark :: "pstate \<Rightarrow> bool \<times> pstate" where
  "lazy_mark ps =
     (case p_rest ps of
        c # r \<Rightarrow> if c = CHR ''?'' then (True, rest_to r ps) else (False, ps)
      | [] \<Rightarrow> (False, ps))"

lemma lazy_mark_shrinks: "lazy_mark ps = (l, ps') \<Longrightarrow> length (p_rest ps') \<le> length (p_rest ps)"
  by (auto simp: lazy_mark_def split: list.splits if_splits)

function repeat_loop :: "rx \<Rightarrow> pstate \<Rightarrow> rx \<times> pstate" where
  "repeat_loop n ps =
     (case quantifier ps of
        (None, ps') \<Rightarrow> (n, ps')
      | (Some (lo, hi), ps') \<Rightarrow>
          (case lazy_mark ps' of (l, ps'') \<Rightarrow> repeat_loop (N_REP n lo hi (\<not> l)) ps''))"
  by auto
termination
proof (relation "measure (\<lambda>(n, ps). length (p_rest ps))", goal_cases)
  case 1
  show ?case by simp
next
  case (2 n ps _ ps' _ lo hi l ps'')
  then show ?case
    using quantifier_shrinks [of ps lo hi ps'] lazy_mark_shrinks [of ps' l ps''] by simp
qed

declare repeat_loop.simps [simp del]

text \<open>An atom that does not recurse: everything of \<^verbatim>\<open>parse_atom\<close> but the group.\<close>

definition simple_escape :: "pstate \<Rightarrow> rx \<times> pstate" where
  "simple_escape ps =
     (case p_rest ps of
        [] \<Rightarrow> (rx_nothing, fail ''trailing backslash'' ps)
      | e # r \<Rightarrow>
          (let ps' = rest_to r ps in
           if 49 \<le> byte_of e \<and> byte_of e \<le> (57::nat) then
             (rx_nothing, fail ''backreferences are not supported: they cannot be matched in linear time'' ps')
           else case class_escape e of
             Some fam \<Rightarrow> (N_CLASS fam False, ps')
           | None \<Rightarrow>
               (case neg_escape e of
                  Some fam \<Rightarrow> (N_CLASS fam True, ps')
                | None \<Rightarrow>
                    if rx_alpha e then
                      (rx_nothing,
                       fail (''unknown escape; '' @ [BSL] @ ''d '' @ [BSL] @ ''w '' @ [BSL] @
                             ''s and their negations are the supported letter escapes, and '' @ [BSL] @
                             ''b is not a word boundary here'') ps')
                    else (N_CHAR (escape_byte e), ps'))))"


definition plain_atom :: "char \<Rightarrow> pstate \<Rightarrow> rx \<times> pstate" where
  "plain_atom c ps =
     (let r = tl (p_rest ps) in
      if c = CHR ''['' then parse_class (rest_to r ps)
      else if c = CHR ''.'' then (N_ANY, rest_to r ps)
      else if c = CHR ''^'' then (N_EMPTY True False, rest_to r ps)
      else if c = CHR ''$'' then (N_EMPTY False True, rest_to r ps)
      else if c = BSL then simple_escape (rest_to r ps)
      else if c = CHR '')'' \<or> c = CHR ''|'' then (rx_nothing, ps)
      else if c = CHR ''*'' \<or> c = CHR ''+'' \<or> c = CHR ''?''
      then (rx_nothing, fail ''a quantifier has nothing to repeat'' ps)
      else (N_CHAR c, rest_to r ps))"

definition close_group :: "int \<Rightarrow> rx \<Rightarrow> pstate \<Rightarrow> rx \<times> pstate" where
  "close_group g body ps =
     (if p_rest ps = [] \<or> hd (p_rest ps) \<noteq> CHR '')''
      then (rx_nothing, fail ''unbalanced `(`'' ps)
      else (N_GROUP body g, rest_to (tl (p_rest ps)) ps))"

fun parse_atom :: "nat \<Rightarrow> pstate \<Rightarrow> (rx \<times> pstate) option"
  and parse_repeat :: "nat \<Rightarrow> pstate \<Rightarrow> (rx \<times> pstate) option"
  and parse_cat :: "nat \<Rightarrow> pstate \<Rightarrow> (rx \<times> pstate) option"
  and cat_loop :: "nat \<Rightarrow> rx option \<Rightarrow> pstate \<Rightarrow> (rx \<times> pstate) option"
  and parse_alt :: "nat \<Rightarrow> pstate \<Rightarrow> (rx \<times> pstate) option"
  and alt_loop :: "nat \<Rightarrow> rx \<Rightarrow> pstate \<Rightarrow> (rx \<times> pstate) option" where
  "parse_atom 0 ps = None"
| "parse_atom (Suc f) ps =
     (case p_rest ps of
        [] \<Rightarrow> Some (rx_nothing, ps)
      | c # r \<Rightarrow>
          if c = CHR ''('' then
            if p_depth ps \<ge> RX_MAX_DEPTH then Some (rx_nothing, fail ''pattern nests too deeply'' ps)
            else (case open_group (rest_to r ps) of
               Inl ps1 \<Rightarrow> Some (rx_nothing, ps1)
             | Inr (g, ps1) \<Rightarrow>
                 (case parse_alt f (ps1\<lparr>p_depth := p_depth ps1 + 1\<rparr>) of
                    None \<Rightarrow> None
                  | Some (body, ps2) \<Rightarrow> Some (close_group g body (ps2\<lparr>p_depth := p_depth ps2 - 1\<rparr>))))
          else Some (plain_atom c ps))"
| "parse_repeat 0 ps = None"
| "parse_repeat (Suc f) ps =
     (case parse_atom f ps of
        None \<Rightarrow> None
      | Some (n, ps1) \<Rightarrow> Some (repeat_loop n ps1))"
| "parse_cat 0 ps = None"
| "parse_cat (Suc f) ps = cat_loop f None ps"
| "cat_loop 0 n ps = None"
| "cat_loop (Suc f) n ps =
     (if p_rest ps \<noteq> [] \<and> hd (p_rest ps) \<noteq> CHR ''|'' \<and> hd (p_rest ps) \<noteq> CHR '')'' then
        (case parse_repeat f ps of
           None \<Rightarrow> None
         | Some (r, ps1) \<Rightarrow>
             if p_err ps1 \<noteq> None then Some (r, ps1)
             else cat_loop f (Some (case n of None \<Rightarrow> r | Some m \<Rightarrow> N_CAT m r)) ps1)
      else Some (case n of None \<Rightarrow> rx_nothing | Some m \<Rightarrow> m, ps))"
| "parse_alt 0 ps = None"
| "parse_alt (Suc f) ps =
     (case parse_cat f ps of
        None \<Rightarrow> None
      | Some (n, ps1) \<Rightarrow> alt_loop f n ps1)"
| "alt_loop 0 n ps = None"
| "alt_loop (Suc f) n ps =
     (if p_err ps = None \<and> p_rest ps \<noteq> [] \<and> hd (p_rest ps) = CHR ''|'' then
        (case parse_cat f (rest_to (tl (p_rest ps)) ps) of
           None \<Rightarrow> None
         | Some (r, ps1) \<Rightarrow> alt_loop f (N_ALT n r) ps1)
      else Some (n, ps))"

definition parse_init :: "string \<Rightarrow> pstate" where
  "parse_init pat =
     \<lparr>p_rest = pat, p_ngroups = 0, p_depth = 0, p_err = None, p_names = replicate RX_MAX_GROUPS None\<rparr>"

text \<open>\<open>rx_parse\<close> is the first half of \<^verbatim>\<open>vl_regex_compile\<close>, up to the test of \<^verbatim>\<open>ps.err\<close>.\<close>

definition rx_parse :: "string \<Rightarrow> (rx \<times> pstate) option" where
  "rx_parse pat =
     (case parse_alt (8 * length pat + 8) (parse_init pat) of
        None \<Rightarrow> None
      | Some (n, ps) \<Rightarrow>
          Some (n, if p_err ps = None \<and> p_rest ps \<noteq> [] then fail ''unbalanced `)`'' ps else ps))"


subsection \<open>What a successful parse returns\<close>

text \<open>The capturing groups of a tree in the order of their opening parentheses, the nesting of
  groups, and the bounds on repetition counts and class members.\<close>

primrec rx_groups :: "rx \<Rightarrow> nat list" where
  "rx_groups (N_EMPTY b e) = []"
| "rx_groups (N_CHAR c) = []"
| "rx_groups N_ANY = []"
| "rx_groups (N_CLASS S neg) = []"
| "rx_groups (N_CAT l r) = rx_groups l @ rx_groups r"
| "rx_groups (N_ALT l r) = rx_groups l @ rx_groups r"
| "rx_groups (N_REP n lo hi g) = rx_groups n"
| "rx_groups (N_GROUP n g) = (if 0 \<le> g then nat g # rx_groups n else rx_groups n)"

primrec rx_nest :: "rx \<Rightarrow> nat" where
  "rx_nest (N_EMPTY b e) = 0"
| "rx_nest (N_CHAR c) = 0"
| "rx_nest N_ANY = 0"
| "rx_nest (N_CLASS S neg) = 0"
| "rx_nest (N_CAT l r) = max (rx_nest l) (rx_nest r)"
| "rx_nest (N_ALT l r) = max (rx_nest l) (rx_nest r)"
| "rx_nest (N_REP n lo hi g) = rx_nest n"
| "rx_nest (N_GROUP n g) = Suc (rx_nest n)"

primrec rx_wf :: "rx \<Rightarrow> bool" where
  "rx_wf (N_EMPTY b e) = True"
| "rx_wf (N_CHAR c) = True"
| "rx_wf N_ANY = True"
| "rx_wf (N_CLASS S neg) = (S \<subseteq> {0..255})"
| "rx_wf (N_CAT l r) = (rx_wf l \<and> rx_wf r)"
| "rx_wf (N_ALT l r) = (rx_wf l \<and> rx_wf r)"
| "rx_wf (N_REP n lo hi g) =
     (rx_wf n \<and> lo \<le> RX_MAX_REP \<and> (hi = - 1 \<or> int lo \<le> hi \<and> hi \<le> int RX_MAX_REP))"
| "rx_wf (N_GROUP n g) = rx_wf n"

definition tree_ok :: "nat \<Rightarrow> nat \<Rightarrow> rx \<Rightarrow> nat \<Rightarrow> bool" where
  "tree_ok d g n g' \<longleftrightarrow> rx_wf n \<and> d + rx_nest n \<le> RX_MAX_DEPTH \<and> g \<le> g' \<and> rx_groups n = [Suc g..<Suc g']"

definition name_ok :: "string \<Rightarrow> bool" where
  "name_ok nm \<longleftrightarrow> nm \<noteq> [] \<and> \<not> rx_digit (hd nm) \<and> (\<forall>c \<in> set nm. c = CHR ''_'' \<or> rx_alpha c \<or> rx_digit c)"

definition names_ok :: "nat \<Rightarrow> string option list \<Rightarrow> bool" where
  "names_ok ng names \<longleftrightarrow>
     length names = RX_MAX_GROUPS \<and> names ! 0 = None \<and>
     (\<forall>g < RX_MAX_GROUPS. ng < g \<longrightarrow> names ! g = None) \<and>
     (\<forall>g < RX_MAX_GROUPS. \<forall>nm. names ! g = Some nm \<longrightarrow> name_ok nm) \<and>
     (\<forall>g < RX_MAX_GROUPS. \<forall>h < RX_MAX_GROUPS. names ! g \<noteq> None \<and> names ! g = names ! h \<longrightarrow> g = h)"

definition ps_ok :: "pstate \<Rightarrow> bool" where
  "ps_ok ps \<longleftrightarrow>
     p_ngroups ps < RX_MAX_GROUPS \<and> p_depth ps \<le> RX_MAX_DEPTH \<and> names_ok (p_ngroups ps) (p_names ps)"

text \<open>One piece of the pattern parsed: what holds of the state before, the tree and the state
  after.\<close>

definition parsed :: "pstate \<Rightarrow> rx \<times> pstate \<Rightarrow> bool" where
  "parsed ps res \<longleftrightarrow>
     ps_ok (snd res) \<and> p_depth (snd res) = p_depth ps \<and> length (p_rest (snd res)) \<le> length (p_rest ps) \<and>
     (p_err (snd res) = None \<longrightarrow> tree_ok (p_depth ps) (p_ngroups ps) (fst res) (p_ngroups (snd res)))"

lemma ps_ok_init: "ps_ok (parse_init pat)"
  by (simp add: ps_ok_def parse_init_def names_ok_def RX_MAX_GROUPS_def RX_MAX_DEPTH_def)

lemma ps_ok_simps [simp]:
  "ps_ok (fail why ps) = ps_ok ps" "ps_ok (rest_to r ps) = ps_ok ps"
  by (simp_all add: ps_ok_def)

lemma tree_ok_leaf [simp]:
  assumes "d \<le> RX_MAX_DEPTH"
  shows "tree_ok d g (N_EMPTY b e) g" "tree_ok d g (N_CHAR c) g" "tree_ok d g N_ANY g"
    "tree_ok d g (N_CLASS S neg) g = (S \<subseteq> {0..255})"
  using assms by (simp_all add: tree_ok_def)

lemma tree_ok_rep:
  "tree_ok d g n g' \<Longrightarrow> lo \<le> RX_MAX_REP \<Longrightarrow> hi = - 1 \<or> int lo \<le> hi \<and> hi \<le> int RX_MAX_REP \<Longrightarrow>
   tree_ok d g (N_REP n lo hi gr) g'"
  by (simp add: tree_ok_def)

lemma upt_join: "a \<le> b \<Longrightarrow> b \<le> c \<Longrightarrow> [Suc a..<Suc b] @ [Suc b..<Suc c] = [Suc a..<Suc c]"
  using upt_add_eq_append [of "Suc a" "Suc b" "c - b"] by simp

lemma tree_ok_pair:
  assumes "tree_ok d g l g'" "tree_ok d g' r g''"
  shows "tree_ok d g (N_CAT l r) g''" "tree_ok d g (N_ALT l r) g''"
  using assms upt_join [of g g' g''] by (auto simp: tree_ok_def simp del: upt_Suc)

lemma tree_ok_group:
  assumes "tree_ok (Suc d) h n g'"
  shows "h = Suc g \<Longrightarrow> tree_ok d g (N_GROUP n (int h)) g'" "tree_ok d h (N_GROUP n (- 1)) g'"
  using assms by (auto simp: tree_ok_def upt_conv_Cons)

lemma byte_of_le: "byte_of (c::char) \<le> (255::nat)"
  using nat_of_char_less_256 [of c] by linarith

lemma class_escape_bytes: "class_escape e = Some fam \<Longrightarrow> fam \<subseteq> {0..255}"
  by (auto simp: class_escape_def split: if_splits)

lemma neg_escape_bytes: "neg_escape e = Some fam \<Longrightarrow> fam \<subseteq> {0..255}"
  by (auto simp: neg_escape_def dest!: class_escape_bytes split: if_splits)

lemma class_item_bytes: "class_item S lo r = (S', r', w) \<Longrightarrow> S \<subseteq> {0..255} \<Longrightarrow> S' \<subseteq> {0..255}"
proof -
  assume a: "class_item S lo r = (S', r', w)" and s: "S \<subseteq> {0..255}"
  have b: "{byte_of lo..byte_of h} \<subseteq> {0..255::nat}" for h :: char
    using byte_of_le [of h] by auto
  from a consider "S' = S" | h where "S' = S \<union> {byte_of lo..byte_of h}" | "S' = insert (byte_of lo) S"
    by (auto simp: class_item_def split: list.splits if_splits option.splits)
  then show ?thesis using s b byte_of_le [of lo] by cases auto
qed

lemma cls_loop_props:
  "cls_loop first S r = (S', r', w) \<Longrightarrow> S \<subseteq> {0..255} \<Longrightarrow>
   S' \<subseteq> {0..255} \<and> length r' \<le> length r \<and> (w = None \<longrightarrow> length r' < length r)"
proof (induction first S r arbitrary: S' r' w rule: cls_loop.induct)
  case (1 first S)
  then show ?case by auto
next
  case (2 first S c r)
  let ?Q = "S' \<subseteq> {0..255} \<and> length r' \<le> length (c # r) \<and> (w = None \<longrightarrow> length r' < length (c # r))"
  have item: ?Q
    if "(case class_item S lo q of (S', r', Some why) \<Rightarrow> (S', r', Some why)
         | (S', r', None) \<Rightarrow> cls_loop False S' r') = (S', r', w)" "length q \<le> length r"
      "\<And>S1 r1. class_item S lo q = (S1, r1, None) \<Longrightarrow> cls_loop False S1 r1 = (S', r', w) \<Longrightarrow>
         S1 \<subseteq> {0..255} \<Longrightarrow> S' \<subseteq> {0..255} \<and> length r' \<le> length r1 \<and> (w = None \<longrightarrow> length r' < length r1)"
    for lo q
  proof -
    obtain S1 r1 w1 where i: "class_item S lo q = (S1, r1, w1)" by (metis prod_cases3)
    note f = class_item_shrinks [OF i] class_item_bytes [OF i \<open>S \<subseteq> {0..255}\<close>]
    show ?thesis
    proof (cases w1)
      case None
      with that(1) i have "cls_loop False S1 r1 = (S', r', w)" by simp
      with that(3) [OF i [unfolded None]] f that(2) show ?thesis by auto
    next
      case (Some why)
      with that(1) i f that(2) show ?thesis by auto
    qed
  qed
  show ?case
  proof (cases "c = CHR '']'' \<and> \<not> first")
    case True
    with "2.prems" show ?thesis by auto
  next
    case nclose: False
    show ?thesis
    proof (cases "c = BSL")
      case False
      with "2.prems"(1) nclose
      have "(case class_item S c r of (S', r', Some why) \<Rightarrow> (S', r', Some why)
         | (S', r', None) \<Rightarrow> cls_loop False S' r') = (S', r', w)" by simp
      moreover have "S' \<subseteq> {0..255} \<and> length r' \<le> length r1 \<and> (w = None \<longrightarrow> length r' < length r1)"
        if "class_item S c r = (S1, r1, None)" "cls_loop False S1 r1 = (S', r', w)" "S1 \<subseteq> {0..255}" for S1 r1
        using "2.IH"(4) [OF nclose False, of S1 "(r1, None)" r1 None S' r' w] that by simp
      ultimately show ?thesis by (rule item [OF _ order_refl])
    next
      case bsl: True
      show ?thesis
      proof (cases r)
        case Nil
        with "2.prems" nclose bsl show ?thesis by auto
      next
        case (Cons e r1)
        show ?thesis
        proof (cases "class_escape e")
          case (Some fam)
          with "2.prems"(1) nclose bsl Cons have "cls_loop False (S \<union> fam) r1 = (S', r', w)" by simp
          from "2.IH"(3) [OF nclose bsl Cons Some this] "2.prems"(2) class_escape_bytes [OF Some] Cons
          show ?thesis by auto
        next
          case esc: None
          show ?thesis
          proof (cases "neg_escape e")
            case (Some fam)
            with "2.prems"(1) nclose bsl Cons esc
            have "cls_loop False (S \<union> ({0..255} - fam)) r1 = (S', r', w)" by simp
            from "2.IH"(2) [OF nclose bsl Cons esc Some this] "2.prems"(2) Cons
            show ?thesis by auto
          next
            case None
            with "2.prems"(1) nclose bsl Cons esc
            have "(case class_item S (escape_byte e) r1 of (S', r', Some why) \<Rightarrow> (S', r', Some why)
               | (S', r', None) \<Rightarrow> cls_loop False S' r') = (S', r', w)" by simp
            moreover have "S' \<subseteq> {0..255} \<and> length r' \<le> length r2 \<and> (w = None \<longrightarrow> length r' < length r2)"
              if "class_item S (escape_byte e) r1 = (S1, r2, None)" "cls_loop False S1 r2 = (S', r', w)"
                "S1 \<subseteq> {0..255}" for S1 r2
              using "2.IH"(1) [OF nclose bsl Cons esc None, of S1 "(r2, None)" r2 None S' r' w] that by simp
            ultimately show ?thesis using Cons by (intro item [of "escape_byte e" r1]) simp_all
          qed
        qed
      qed
    qed
  qed
qed


lemma ps_okD: "ps_ok ps \<Longrightarrow> p_depth ps \<le> RX_MAX_DEPTH"
  by (simp add: ps_ok_def)

lemma parsed_class:
  assumes "ps_ok ps"
  shows "parsed ps (parse_class ps)"
proof -
  define neg where "neg = (case p_rest ps of c # _ \<Rightarrow> c = CHR ''^'' | [] \<Rightarrow> False)"
  define r0 where "r0 = (if neg then tl (p_rest ps) else p_rest ps)"
  obtain S r' w where l: "cls_loop True {} r0 = (S, r', w)" by (metis prod_cases3)
  have "length r0 \<le> length (p_rest ps)" by (simp add: r0_def)
  with cls_loop_props [OF l] have "S \<subseteq> {0..255}" "length r' \<le> length (p_rest ps)" by auto
  then show ?thesis
    using assms ps_okD [OF assms] unfolding parse_class_def Let_def neg_def [symmetric] r0_def [symmetric] l
    by (cases w) (auto simp: parsed_def split: option.splits)
qed

lemma parsed_escape:
  assumes "ps_ok ps"
  shows "parsed ps (simple_escape ps)"
proof (cases "p_rest ps")
  case Nil
  then show ?thesis using assms by (simp add: simple_escape_def parsed_def split: option.splits)
next
  case (Cons e r)
  with assms ps_okD [OF assms] show ?thesis
    by (auto simp: simple_escape_def parsed_def Let_def class_escape_bytes neg_escape_bytes
        dest!: class_escape_bytes neg_escape_bytes split: option.splits)
qed

lemma parsed_shrink: "parsed ps' res \<Longrightarrow> p_depth ps' = p_depth ps \<Longrightarrow> p_ngroups ps' = p_ngroups ps \<Longrightarrow>
   length (p_rest ps') \<le> length (p_rest ps) \<Longrightarrow> parsed ps res"
  by (auto simp: parsed_def)

lemma parsed_plain:
  assumes "ps_ok ps"
  shows "parsed ps (plain_atom c ps)"
proof -
  define ps1 where "ps1 = rest_to (tl (p_rest ps)) ps"
  have ps1: "ps_ok ps1" "p_depth ps1 = p_depth ps" "p_ngroups ps1 = p_ngroups ps"
    "length (p_rest ps1) \<le> length (p_rest ps)"
    using assms by (simp_all add: ps1_def)
  note sub = parsed_shrink [OF parsed_class [OF ps1(1)] ps1(2-4)] parsed_shrink [OF parsed_escape [OF ps1(1)] ps1(2-4)]
  have leaf: "parsed ps (n, ps1)" if "tree_ok (p_depth ps) (p_ngroups ps) n (p_ngroups ps)" for n
    using that ps1 by (simp add: parsed_def)
  have self: "parsed ps (rx_nothing, ps)" "parsed ps (rx_nothing, fail why ps)" for why
    using assms ps_okD [OF assms] by (simp_all add: parsed_def split: option.splits)
  show ?thesis
    unfolding plain_atom_def Let_def ps1_def [symmetric]
    using ps_okD [OF assms] by (simp add: sub leaf self)
qed

lemma plain_progress:
  assumes "p_rest ps = c # r" "c \<noteq> CHR ''|''" "c \<noteq> CHR '')''" "p_err ps = None" "plain_atom c ps = (n, ps')" "ps_ok ps"
  shows "p_err ps' \<noteq> None \<or> length (p_rest ps') < length (p_rest ps)"
proof -
  have "length (p_rest (snd (parse_class (rest_to r ps)))) \<le> length r"
    "length (p_rest (snd (simple_escape (rest_to r ps)))) \<le> length r"
    using parsed_class [of "rest_to r ps"] parsed_escape [of "rest_to r ps"] assms(6) by (simp_all add: parsed_def)
  moreover have "parse_class (rest_to r ps) = (n, ps') \<or> simple_escape (rest_to r ps) = (n, ps') \<or>
    p_rest ps' = r \<or> p_err ps' \<noteq> None"
  proof -
    consider "c = CHR ''[''" | "c = CHR ''.''" | "c = CHR ''^''" | "c = CHR ''$''" | "c = BSL"
      | "c = CHR ''*'' \<or> c = CHR ''+'' \<or> c = CHR ''?''"
      | "c \<noteq> CHR ''['' \<and> c \<noteq> CHR ''.'' \<and> c \<noteq> CHR ''^'' \<and> c \<noteq> CHR ''$'' \<and> c \<noteq> BSL \<and>
         \<not> (c = CHR ''*'' \<or> c = CHR ''+'' \<or> c = CHR ''?'')" by blast
    then show ?thesis
    proof cases
      case 6
      with assms(4,5) have "ps' = fail ''a quantifier has nothing to repeat'' ps"
        by (elim disjE) (simp_all add: plain_atom_def Let_def)
      then show ?thesis using assms(4) by simp
    qed (use assms(1-3,5) in \<open>simp_all add: plain_atom_def Let_def\<close>, (metis rest_to_simps(1))+)
  qed
  ultimately have "length (p_rest ps') \<le> length r \<or> p_err ps' \<noteq> None"
    by (metis order_refl snd_conv)
  then show ?thesis
    using assms(1) by (simp add: less_Suc_eq_le disj_commute)
qed

lemma name_run_set: "set (name_run first r) \<subseteq> {c. c = CHR ''_'' \<or> rx_alpha c \<or> rx_digit c}"
  by (induction first r rule: name_run.induct) (simp, simp, blast)

lemma name_run_hd: "name_run True r \<noteq> [] \<Longrightarrow> \<not> rx_digit (hd (name_run True r))"
proof (cases r)
  case (Cons c q)
  have "\<not> rx_digit c" if "c = CHR ''_'' \<or> rx_alpha c"
    using that by (elim disjE) (simp_all add: rx_alpha_def rx_digit_def, linarith)
  then show "name_run True r \<noteq> [] \<Longrightarrow> \<not> rx_digit (hd (name_run True r))"
    using Cons by (cases "c = CHR ''_'' \<or> rx_alpha c") simp_all
qed simp

lemma names_ok_new:
  assumes "names_ok ng names" "ng + 1 < RX_MAX_GROUPS" "name_ok nm" "Some nm \<notin> set (take ng (tl names))"
  shows "names_ok (ng + 1) (names[ng + 1 := Some nm])"
proof -
  let ?N = "names[ng + 1 := Some nm]"
  have len: "length names = RX_MAX_GROUPS" using assms by (simp add: names_ok_def)
  have fresh: "names ! g \<noteq> Some nm" if "g < RX_MAX_GROUPS" for g
  proof
    assume eq: "names ! g = Some nm"
    with assms(1) that have "0 < g" "g \<le> ng" by (auto simp: names_ok_def not_le neq0_conv intro: ccontr)
    moreover from this have "g - 1 < length (take ng (tl names))" using len that by auto
    moreover from this have "take ng (tl names) ! (g - 1) = Some nm"
      using eq \<open>g \<le> ng\<close> \<open>0 < g\<close> by (simp add: nth_tl)
    ultimately have "Some nm \<in> set (take ng (tl names))" by (metis nth_mem)
    with assms(4) show False ..
  qed
  have upd: "?N ! g = (if g = ng + 1 then Some nm else names ! g)" if "g < RX_MAX_GROUPS" for g
    using that assms(2) len by (simp add: nth_list_update)
  have once: "g = h" if "g < RX_MAX_GROUPS" "h < RX_MAX_GROUPS" "?N ! g \<noteq> None" "?N ! g = ?N ! h" for g h
  proof -
    from that(1,2,4) have "(if g = ng + 1 then Some nm else names ! g) = (if h = ng + 1 then Some nm else names ! h)"
      by (simp only: upd)
    then consider "g = ng + 1" "h = ng + 1" | "names ! g = Some nm" | "names ! h = Some nm"
      | "g \<noteq> ng + 1" "names ! g = names ! h" by metis
    then show ?thesis
    proof cases
      case 4
      moreover from this that(1,3) have "names ! g \<noteq> None" by (simp only: upd if_False simp_thms)
      ultimately show ?thesis using assms(1) that(1,2) by (simp add: names_ok_def)
    qed (use fresh that in auto)
  qed
  have zero: "0 < RX_MAX_GROUPS" by (simp add: RX_MAX_GROUPS_def)
  note old = assms(1) [unfolded names_ok_def]
  show ?thesis
    unfolding names_ok_def
  proof (intro conjI allI impI)
    show "?N ! 0 = None" using upd [OF zero] old by simp
    show "?N ! g = None" if "g < RX_MAX_GROUPS" "ng + 1 < g" for g
      using upd [OF that(1)] old that by simp
    show "name_ok nm'" if "g < RX_MAX_GROUPS" "?N ! g = Some nm'" for g nm'
      using upd [OF that(1)] old that assms(3) by (simp split: if_split_asm)
    show "g = h" if "g < RX_MAX_GROUPS" "h < RX_MAX_GROUPS" "?N ! g \<noteq> None \<and> ?N ! g = ?N ! h" for g h
      using once that by blast
  qed (simp add: len)
qed

lemma names_ok_unnamed: "names_ok ng names \<Longrightarrow> names_ok (ng + 1) names"
  unfolding names_ok_def by (metis Suc_eq_plus1 Suc_lessD)

lemma named_prefix_bounds: "named_prefix r = Some k \<Longrightarrow> 2 \<le> k \<and> k \<le> length r"
  by (auto simp: named_prefix_def split: list.splits if_splits)

lemma open_group_fail:
  "open_group ps = Inl ps' \<Longrightarrow> \<exists>why r. ps' = fail why (rest_to r ps) \<and> length r \<le> length (p_rest ps)"
proof -
  assume a: "open_group ps = Inl ps'"
  have self: "ps = rest_to (p_rest ps) ps" by (simp add: rest_to_def)
  show ?thesis
  proof (cases "named_prefix (p_rest ps)")
    case None
    with a have "\<exists>why. ps' = fail why ps" by (auto simp: open_group_def Let_def split: if_splits)
    with self show ?thesis by (metis order_refl)
  next
    case (Some k)
    define nm where "nm = name_run True (drop k (p_rest ps))"
    define q where "q = drop (length nm) (drop k (p_rest ps))"
    from a Some have "(\<exists>why. ps' = fail why ps) \<or> (\<exists>why. ps' = fail why (rest_to (tl q) ps))"
      unfolding open_group_def Let_def option.case by (auto simp: nm_def q_def split: if_splits)
    moreover have "length (tl q) \<le> length (p_rest ps)" by (simp add: q_def)
    ultimately show ?thesis using self by (metis order_refl)
  qed
qed

lemma open_group_ok:
  assumes "open_group ps = Inr (g, ps')" "ps_ok ps"
  shows "ps_ok ps'" "p_depth ps' = p_depth ps" "length (p_rest ps') \<le> length (p_rest ps)" "p_err ps' = p_err ps"
    "g = int (Suc (p_ngroups ps)) \<and> p_ngroups ps' = Suc (p_ngroups ps) \<or> g = - 1 \<and> p_ngroups ps' = p_ngroups ps"
proof -
  have *: "ps_ok ps' \<and> p_depth ps' = p_depth ps \<and> length (p_rest ps') \<le> length (p_rest ps) \<and> p_err ps' = p_err ps \<and>
    (g = int (Suc (p_ngroups ps)) \<and> p_ngroups ps' = Suc (p_ngroups ps) \<or> g = - 1 \<and> p_ngroups ps' = p_ngroups ps)"
  proof (cases "named_prefix (p_rest ps)")
    case None
    with assms names_ok_unnamed [of "p_ngroups ps" "p_names ps"] show ?thesis
      by (auto simp: open_group_def Let_def ps_ok_def split: if_splits)
  next
    case (Some k)
    define nm where "nm = name_run True (drop k (p_rest ps))"
    define q where "q = drop (length nm) (drop k (p_rest ps))"
    from assms(1) Some have f: "nm \<noteq> []" "Some nm \<notin> set (take (p_ngroups ps) (tl (p_names ps)))"
      "p_ngroups ps + 1 < RX_MAX_GROUPS" "g = int (p_ngroups ps + 1)"
      "ps' = ps\<lparr>p_rest := tl q, p_ngroups := p_ngroups ps + 1, p_names := (p_names ps)[p_ngroups ps + 1 := Some nm]\<rparr>"
      unfolding open_group_def Let_def option.case by (auto simp: nm_def q_def split: if_splits)
    have "name_ok nm"
      using name_run_set [of True "drop k (p_rest ps)"] name_run_hd [of "drop k (p_rest ps)"] f(1)
      by (auto simp: name_ok_def nm_def)
    then have "names_ok (p_ngroups ps + 1) ((p_names ps)[p_ngroups ps + 1 := Some nm])"
      using names_ok_new f assms(2) by (simp add: ps_ok_def)
    moreover have "length (tl q) \<le> length (p_rest ps)" by (simp add: q_def)
    ultimately show ?thesis using f assms(2) by (simp add: ps_ok_def)
  qed
  show "ps_ok ps'" "p_depth ps' = p_depth ps" "length (p_rest ps') \<le> length (p_rest ps)" "p_err ps' = p_err ps"
    "g = int (Suc (p_ngroups ps)) \<and> p_ngroups ps' = Suc (p_ngroups ps) \<or> g = - 1 \<and> p_ngroups ps' = p_ngroups ps"
    using * by blast+
qed

lemma quantifier_cases:
  assumes "quantifier ps = (res, ps')" "ps_ok ps"
  shows "ps_ok ps'" "p_depth ps' = p_depth ps" "length (p_rest ps') \<le> length (p_rest ps)" "p_ngroups ps' = p_ngroups ps"
    "p_err ps \<noteq> None \<longrightarrow> p_err ps' \<noteq> None"
    "res = Some (lo, hi) \<longrightarrow> lo \<le> RX_MAX_REP \<and> (hi = - 1 \<or> int lo \<le> hi \<and> hi \<le> int RX_MAX_REP) \<and> p_err ps' = p_err ps"
proof -
  have *: "ps_ok ps' \<and> p_depth ps' = p_depth ps \<and> length (p_rest ps') \<le> length (p_rest ps) \<and> p_ngroups ps' = p_ngroups ps \<and>
    (p_err ps \<noteq> None \<longrightarrow> p_err ps' \<noteq> None) \<and>
    (res = Some (lo, hi) \<longrightarrow> lo \<le> RX_MAX_REP \<and> (hi = - 1 \<or> int lo \<le> hi \<and> hi \<le> int RX_MAX_REP) \<and> p_err ps' = p_err ps)"
  proof (cases "p_rest ps")
    case Nil
    with assms show ?thesis by (auto simp: quantifier_def)
  next
    case (Cons c r)
    show ?thesis
    proof (cases "c = CHR ''{''")
      case True
      with Cons assms(1) have "parse_counted ps = (res, ps')" by (simp add: quantifier_def)
      then show ?thesis
        by (cases rule: parse_counted_cases) (use assms(2) in \<open>auto split: option.splits\<close>)
    next
      case False
      with Cons assms show ?thesis
        by (auto simp: quantifier_def RX_MAX_REP_def split: if_splits)
    qed
  qed
  show "ps_ok ps'" "p_depth ps' = p_depth ps" "length (p_rest ps') \<le> length (p_rest ps)" "p_ngroups ps' = p_ngroups ps"
    "p_err ps \<noteq> None \<longrightarrow> p_err ps' \<noteq> None"
    "res = Some (lo, hi) \<longrightarrow> lo \<le> RX_MAX_REP \<and> (hi = - 1 \<or> int lo \<le> hi \<and> hi \<le> int RX_MAX_REP) \<and> p_err ps' = p_err ps"
    using * by blast+
qed


lemma parsed_repeat:
  assumes "parsed ps (n, ps1)" "ps_ok ps"
  shows "parsed ps (repeat_loop n ps1)"
    "p_err ps1 \<noteq> None \<Longrightarrow> p_err (snd (repeat_loop n ps1)) \<noteq> None"
    "length (p_rest (snd (repeat_loop n ps1))) \<le> length (p_rest ps1)"
proof -
  have "parsed ps (repeat_loop n ps1) \<and> (p_err ps1 \<noteq> None \<longrightarrow> p_err (snd (repeat_loop n ps1)) \<noteq> None) \<and>
    length (p_rest (snd (repeat_loop n ps1))) \<le> length (p_rest ps1)"
    using assms(1)
  proof (induction n ps1 rule: repeat_loop.induct)
    case (1 n ps1)
    obtain res ps2 where q: "quantifier ps1 = (res, ps2)" by (cases "quantifier ps1")
    have ok1: "ps_ok ps1" using "1.prems" by (simp add: parsed_def)
    note qc = quantifier_cases [OF q ok1]
    show ?case
    proof (cases res)
      case None
      have "repeat_loop n ps1 = (n, ps2)" by (subst repeat_loop.simps) (simp add: q None)
      then show ?thesis using "1.prems" qc(1-5) by (auto simp: parsed_def)
    next
      case (Some p)
      obtain lo hi where p: "p = (lo, hi)" by (cases p)
      obtain l ps3 where l: "lazy_mark ps2 = (l, ps3)" by (cases "lazy_mark ps2")
      have l': "ps_ok ps3 = ps_ok ps2" "p_depth ps3 = p_depth ps2" "p_ngroups ps3 = p_ngroups ps2" "p_err ps3 = p_err ps2"
        "length (p_rest ps3) \<le> length (p_rest ps2)"
        using l lazy_mark_shrinks [OF l] by (auto simp: lazy_mark_def split: list.splits if_splits)
      have eq: "repeat_loop n ps1 = repeat_loop (N_REP n lo hi (\<not> l)) ps3"
        by (subst repeat_loop.simps) (simp add: q Some p l)
      note b = qc(6) [of lo hi, unfolded Some p, THEN mp, OF refl]
      have "parsed ps (N_REP n lo hi (\<not> l), ps3)"
        using "1.prems" qc(1-4) l' b by (auto simp: parsed_def intro: tree_ok_rep)
      from "1.IH" [OF q [symmetric] Some p [symmetric] l [symmetric] this] eq l' qc(3) b
      show ?thesis by auto
    qed
  qed
  then show "parsed ps (repeat_loop n ps1)"
    "p_err ps1 \<noteq> None \<Longrightarrow> p_err (snd (repeat_loop n ps1)) \<noteq> None"
    "length (p_rest (snd (repeat_loop n ps1))) \<le> length (p_rest ps1)"
    by blast+
qed

text \<open>The six mutually recursive functions return, given fuel in proportion to the rest of the
  pattern; each returns a piece that is \<^const>\<open>parsed\<close>, and a piece of a concatenation consumes
  input or records an error.\<close>

definition starts_piece :: "pstate \<Rightarrow> bool" where
  "starts_piece ps \<longleftrightarrow> p_rest ps \<noteq> [] \<and> hd (p_rest ps) \<noteq> CHR ''|'' \<and> hd (p_rest ps) \<noteq> CHR '')''"

definition progress :: "pstate \<Rightarrow> rx \<times> pstate \<Rightarrow> bool" where
  "progress ps res \<longleftrightarrow> p_err (snd res) \<noteq> None \<or> length (p_rest (snd res)) < length (p_rest ps)"

definition returns_piece :: "(rx \<times> pstate) option \<Rightarrow> pstate \<Rightarrow> bool" where
  "returns_piece r ps \<longleftrightarrow> (\<exists>res. r = Some res \<and> parsed ps res)"

lemma close_group_parsed:
  assumes og: "open_group (rest_to r ps) = Inr (g, ps1)" and ps: "ps_ok ps" "p_rest ps = c # r" "p_depth ps < RX_MAX_DEPTH"
    and body: "parsed (ps1\<lparr>p_depth := p_depth ps1 + 1\<rparr>) (b, ps2)"
  shows "parsed ps (close_group g b (ps2\<lparr>p_depth := p_depth ps2 - 1\<rparr>)) \<and>
    length (p_rest (snd (close_group g b (ps2\<lparr>p_depth := p_depth ps2 - 1\<rparr>)))) < length (p_rest ps)"
proof -
  define ps3 where "ps3 = ps2\<lparr>p_depth := p_depth ps2 - 1\<rparr>"
  note o = open_group_ok [OF og, simplified, OF ps(1)]
  have ps3: "ps_ok ps3" "p_depth ps3 = p_depth ps" "length (p_rest ps3) \<le> length r" "p_err ps3 = p_err ps2"
    "p_ngroups ps3 = p_ngroups ps2"
    using body o by (auto simp: parsed_def ps3_def ps_ok_def)
  have t: "tree_ok (Suc (p_depth ps)) (p_ngroups ps1) b (p_ngroups ps2)" if "p_err ps2 = None"
    using body that o by (simp add: parsed_def)
  let ?G = "tree_ok (p_depth ps) (p_ngroups ps) (N_GROUP b g) (p_ngroups ps2)"
  have ?G if "p_err ps2 = None"
  proof (cases "g = - 1")
    case True
    with o(5) tree_ok_group(2) [OF t [OF that]] show ?G by simp
  next
    case False
    with o(5) tree_ok_group(1) [OF t [OF that], of "p_ngroups ps"] show ?G by simp
  qed
  then show ?thesis
    using ps3 ps(2) unfolding ps3_def [symmetric]
    by (auto simp: close_group_def parsed_def split: option.splits)
qed

lemma cat_join:
  assumes "n = None \<and> p_ngroups ps0 = p_ngroups ps \<or> (\<exists>m. n = Some m \<and> tree_ok (p_depth ps0) (p_ngroups ps0) m (p_ngroups ps))"
    "p_depth ps = p_depth ps0" "parsed ps (r, ps1)" "p_err ps1 = None"
  shows "tree_ok (p_depth ps0) (p_ngroups ps0) (case n of None \<Rightarrow> r | Some m \<Rightarrow> N_CAT m r) (p_ngroups ps1)"
  using assms by (auto simp: parsed_def intro: tree_ok_pair(1))


abbreviation left :: "pstate \<Rightarrow> nat" where
  "left ps \<equiv> 8 * length (p_rest ps)"

definition clean :: "pstate \<Rightarrow> bool" where
  "clean ps \<longleftrightarrow> ps_ok ps \<and> p_err ps = None"

definition piece :: "pstate \<Rightarrow> (rx \<times> pstate) option \<Rightarrow> bool" where
  "piece ps r \<longleftrightarrow> (\<exists>res. r = Some res \<and> parsed ps res \<and> (starts_piece ps \<longrightarrow> progress ps res))"

lemma atom_step:
  assumes alt: "\<And>ps. clean ps \<Longrightarrow> left ps + 6 \<le> f \<Longrightarrow> returns_piece (parse_alt f ps) ps"
    and c: "clean ps" and f: "left ps + 1 \<le> Suc f"
  shows "piece ps (parse_atom (Suc f) ps)"
proof (cases "p_rest ps")
  case Nil
  with c ps_okD [of ps] show ?thesis by (simp add: piece_def clean_def parsed_def starts_piece_def)
next
  case (Cons ch r)
  have ok: "ps_ok ps" "p_err ps = None" using c by (simp_all add: clean_def)
  have dead: "piece ps (Some (rx_nothing, ps1))" if "ps1 = fail why (rest_to q ps)" "length q \<le> length (p_rest ps)" for ps1 why q
    using that ok ps_okD [OF ok(1)] by (simp add: piece_def parsed_def progress_def)
  show ?thesis
  proof (cases "ch = CHR ''(''")
    case False
    obtain n ps1 where p: "plain_atom ch ps = (n, ps1)" by (cases "plain_atom ch ps")
    with parsed_plain [OF ok(1), of ch] plain_progress [OF Cons _ _ ok(2) p ok(1)] Cons False
    show ?thesis by (auto simp: piece_def progress_def starts_piece_def)
  next
    case True
    show ?thesis
    proof (cases "p_depth ps \<ge> RX_MAX_DEPTH")
      case deep: True
      have "piece ps (Some (rx_nothing, fail ''pattern nests too deeply'' ps))"
        by (rule dead [of _ _ "p_rest ps"]) (simp_all add: rest_to_def)
      then show ?thesis using True Cons deep by simp
    next
      case nd: False
      show ?thesis
      proof (cases "open_group (rest_to r ps)")
        case (Inl ps1)
        from open_group_fail [OF this] obtain why q where q: "ps1 = fail why (rest_to q (rest_to r ps))" "length q \<le> length r"
          by auto
        then have "ps1 = fail why (rest_to q ps)" by (simp add: rest_to_def)
        from dead [OF this] q True Cons nd Inl show ?thesis by simp
      next
        case (Inr p)
        obtain g ps1 where p: "p = (g, ps1)" by (cases p)
        note og = Inr [unfolded p]
        note o = open_group_ok [OF og, simplified, OF ok(1)]
        define psa where "psa = ps1\<lparr>p_depth := p_depth ps1 + 1\<rparr>"
        have "clean psa" "left psa + 6 \<le> f"
          using o ok nd f Cons by (auto simp: clean_def psa_def ps_ok_def)
        from alt [OF this] obtain b ps2 where b: "parse_alt f psa = Some (b, ps2)" "parsed psa (b, ps2)"
          by (auto simp: returns_piece_def)
        from close_group_parsed [OF og ok(1) Cons _ b(2) [unfolded psa_def]] nd
        have "piece ps (Some (close_group g b (ps2\<lparr>p_depth := p_depth ps2 - 1\<rparr>)))"
          by (auto simp: piece_def progress_def)
        then show ?thesis using True Cons nd og b(1) by (simp add: psa_def)
      qed
    qed
  qed
qed

lemma repeat_step:
  assumes atom: "piece ps (parse_atom f ps)" and c: "clean ps"
  shows "piece ps (parse_repeat (Suc f) ps)"
proof -
  obtain n ps1 where a: "parse_atom f ps = Some (n, ps1)" "parsed ps (n, ps1)" "starts_piece ps \<longrightarrow> progress ps (n, ps1)"
    using atom by (auto simp: piece_def)
  from parsed_repeat [OF a(2)] c have "parsed ps (repeat_loop n ps1)"
    "p_err ps1 \<noteq> None \<Longrightarrow> p_err (snd (repeat_loop n ps1)) \<noteq> None"
    "length (p_rest (snd (repeat_loop n ps1))) \<le> length (p_rest ps1)"
    by (simp_all add: clean_def)
  then show ?thesis using a by (auto simp: piece_def progress_def)
qed

text \<open>Where the loop of \<^verbatim>\<open>parse_cat\<close> stands: what it has built since \<open>ps0\<close>.\<close>

definition cat_at :: "pstate \<Rightarrow> rx option \<Rightarrow> pstate \<Rightarrow> bool" where
  "cat_at ps0 n ps \<longleftrightarrow> clean ps \<and> p_depth ps = p_depth ps0 \<and> length (p_rest ps) \<le> length (p_rest ps0) \<and>
     (n = None \<and> p_ngroups ps0 = p_ngroups ps \<or>
      (\<exists>m. n = Some m \<and> tree_ok (p_depth ps0) (p_ngroups ps0) m (p_ngroups ps)))"

lemma cat_step:
  assumes rep: "\<And>ps. clean ps \<Longrightarrow> left ps + 2 \<le> f \<Longrightarrow> piece ps (parse_repeat f ps)"
    and loop: "\<And>ps0 n ps. cat_at ps0 n ps \<Longrightarrow> left ps + 3 \<le> f \<Longrightarrow> returns_piece (cat_loop f n ps) ps0"
    and c: "cat_at ps0 n ps" and f: "left ps + 3 \<le> Suc f"
  shows "returns_piece (cat_loop (Suc f) n ps) ps0"
proof (cases "starts_piece ps")
  case False
  then have eq: "cat_loop (Suc f) n ps = Some (case n of None \<Rightarrow> rx_nothing | Some m \<Rightarrow> m, ps)"
    by (auto simp: starts_piece_def)
  have "p_depth ps \<le> RX_MAX_DEPTH" using c ps_okD [of ps] by (simp add: cat_at_def clean_def)
  with c show ?thesis unfolding eq returns_piece_def cat_at_def clean_def parsed_def by auto
next
  case True
  have cl: "clean ps" using c by (simp add: cat_at_def)
  from rep [OF cl] f obtain r ps1 where r: "parse_repeat f ps = Some (r, ps1)" "parsed ps (r, ps1)" "progress ps (r, ps1)"
    using True by (auto simp: piece_def)
  let ?n = "case n of None \<Rightarrow> r | Some m \<Rightarrow> N_CAT m r"
  have eq: "cat_loop (Suc f) n ps = (if p_err ps1 \<noteq> None then Some (r, ps1) else cat_loop f (Some ?n) ps1)"
    using True r(1) by (simp add: starts_piece_def)
  show ?thesis
  proof (cases "p_err ps1 = None")
    case False
    with r(2) c eq show ?thesis by (auto simp: returns_piece_def parsed_def cat_at_def)
  next
    case err: True
    have "tree_ok (p_depth ps0) (p_ngroups ps0) ?n (p_ngroups ps1)"
      by (rule cat_join [OF _ _ r(2) err]) (use c in \<open>simp_all add: cat_at_def\<close>)
    then have "cat_at ps0 (Some ?n) ps1"
      using r(2) c err by (auto simp: cat_at_def clean_def parsed_def)
    moreover have "left ps1 + 3 \<le> f" using r(3) err f by (simp add: progress_def)
    ultimately show ?thesis using loop eq err by simp
  qed
qed

lemma alt_step:
  assumes cat: "\<And>ps. clean ps \<Longrightarrow> left ps + 4 \<le> f \<Longrightarrow> returns_piece (parse_cat f ps) ps"
    and loop: "\<And>ps0 n ps. parsed ps0 (n, ps) \<Longrightarrow> left ps + 5 \<le> f \<Longrightarrow> returns_piece (alt_loop f n ps) ps0"
    and c: "parsed ps0 (n, ps)" and f: "left ps + 5 \<le> Suc f"
  shows "returns_piece (alt_loop (Suc f) n ps) ps0"
proof (cases "p_err ps = None \<and> p_rest ps \<noteq> [] \<and> hd (p_rest ps) = CHR ''|''")
  case False
  then have "alt_loop (Suc f) n ps = Some (n, ps)" by (simp only: alt_loop.simps if_False)
  with c show ?thesis by (simp add: returns_piece_def)
next
  case True
  define psr where "psr = rest_to (tl (p_rest ps)) ps"
  have len: "length (p_rest psr) < length (p_rest ps)" using True by (cases "p_rest ps") (simp_all add: psr_def)
  have "clean psr" using c True by (simp add: clean_def psr_def parsed_def)
  from cat [OF this] len f obtain r ps1 where r: "parse_cat f psr = Some (r, ps1)" "parsed psr (r, ps1)"
    by (auto simp: returns_piece_def)
  have eq: "alt_loop (Suc f) n ps = alt_loop f (N_ALT n r) ps1"
    using True r(1) by (simp add: psr_def)
  have "parsed ps0 (N_ALT n r, ps1)"
    using r(2) c True len by (auto simp: parsed_def psr_def intro: tree_ok_pair(2))
  moreover have "left ps1 + 5 \<le> f" using r(2) len f by (simp add: parsed_def)
  ultimately show ?thesis using loop eq by simp
qed

lemma descent:
  "(\<forall>ps. clean ps \<longrightarrow> left ps + 1 \<le> f \<longrightarrow> piece ps (parse_atom f ps)) \<and>
   (\<forall>ps. clean ps \<longrightarrow> left ps + 2 \<le> f \<longrightarrow> piece ps (parse_repeat f ps)) \<and>
   (\<forall>ps0 n ps. cat_at ps0 n ps \<longrightarrow> left ps + 3 \<le> f \<longrightarrow> returns_piece (cat_loop f n ps) ps0) \<and>
   (\<forall>ps. clean ps \<longrightarrow> left ps + 4 \<le> f \<longrightarrow> returns_piece (parse_cat f ps) ps) \<and>
   (\<forall>ps0 n ps. parsed ps0 (n, ps) \<longrightarrow> left ps + 5 \<le> f \<longrightarrow> returns_piece (alt_loop f n ps) ps0) \<and>
   (\<forall>ps. clean ps \<longrightarrow> left ps + 6 \<le> f \<longrightarrow> returns_piece (parse_alt f ps) ps)"
  (is "?A f \<and> ?R f \<and> ?L f \<and> ?C f \<and> ?M f \<and> ?T f")
proof (induction f)
  case 0
  show ?case by simp
next
  case (Suc f)
  then have ih: "?A f" "?R f" "?L f" "?C f" "?M f" "?T f" by blast+
  have "?A (Suc f)" using atom_step [of f] ih(6) by blast
  moreover have "?R (Suc f)" using repeat_step ih(1) by simp
  moreover have "?L (Suc f)" using cat_step [of f] ih(2,3) by blast
  moreover have "?C (Suc f)" using ih(3) by (simp add: cat_at_def)
  moreover have "?M (Suc f)" using alt_step [of f] ih(4,5) by blast
  moreover have "?T (Suc f)"
  proof (intro allI impI)
    fix ps assume c: "clean ps" and l: "left ps + 6 \<le> Suc f"
    with ih(4) obtain n ps1 where r: "parse_cat f ps = Some (n, ps1)" "parsed ps (n, ps1)"
      by (fastforce simp: returns_piece_def)
    then have "left ps1 + 5 \<le> f" using l by (simp add: parsed_def)
    with ih(5) r show "returns_piece (parse_alt (Suc f) ps) ps" by simp
  qed
  ultimately show ?case by blast
qed

text \<open>Every pattern is parsed: the descent returns, and without an error the whole pattern was
  consumed, groups are numbered by their opening parentheses, group names are distinct, repetition
  bounds are ordered and at most 1000 and groups nest at most 400 deep.\<close>

theorem rx_parse_returns:
  "\<exists>n ps. rx_parse pat = Some (n, ps) \<and> p_ngroups ps < RX_MAX_GROUPS \<and> names_ok (p_ngroups ps) (p_names ps) \<and>
     (if p_err ps = None
      then p_rest ps = [] \<and> rx_wf n \<and> rx_groups n = [1..<Suc (p_ngroups ps)] \<and> rx_nest n \<le> RX_MAX_DEPTH
      else True)"
proof -
  have "clean (parse_init pat)" using ps_ok_init by (simp add: clean_def parse_init_def)
  with descent [of "8 * length pat + 8"] have "returns_piece (parse_alt (8 * length pat + 8) (parse_init pat)) (parse_init pat)"
    by (simp add: parse_init_def)
  then obtain n ps where p: "parse_alt (8 * length pat + 8) (parse_init pat) = Some (n, ps)" "parsed (parse_init pat) (n, ps)"
    by (auto simp: returns_piece_def)
  then show ?thesis
    by (auto simp: rx_parse_def parsed_def ps_ok_def tree_ok_def parse_init_def simp del: upt_Suc)
qed

end
