(* ===== verification/RxEmit.thy ===== *)
theory RxEmit
  imports RxParse
begin

section \<open>Regular expressions: the code generator (regex.c: emit .. vl\_regex\_compile)\<close>

text \<open>
  The tree is turned into a list of instructions.  An instruction is appended with every field
  zero and patched afterwards, as in the code.  The buffer of the code doubles its capacity up to
  \<^verbatim>\<open>RX_MAX_PROG\<close>, so it is full exactly when that many instructions are in it; \<^verbatim>\<open>emit\<close> then
  records the overflow and hands out the last instruction, which later patches may overwrite.
  A program that overflowed is discarded.
  The C functions recurse on the tree; their stack is not modelled (\<open>emit_depth\<close> in \<^verbatim>\<open>RxLit\<close> says how
  much of it a literal takes).
\<close>

datatype opcode = I_CHAR | I_ANY | I_CLASS | I_MATCH | I_JMP | I_SPLIT | I_SAVE | I_BOL | I_EOL

record inst =
  in_op :: opcode
  in_x :: nat
  in_y :: nat
  in_c :: char
  in_cls :: nat

record estate =
  e_prog :: "inst list"
  e_sets :: "(nat set \<times> bool) list"
  e_over :: bool

definition RX_MAX_PROG :: nat where "RX_MAX_PROG = 20000"

definition inst0 :: "opcode \<Rightarrow> inst" where
  "inst0 op = \<lparr>in_op = op, in_x = 0, in_y = 0, in_c = CHR 0x00, in_cls = 0\<rparr>"

definition e_n :: "estate \<Rightarrow> nat" where
  "e_n e = length (e_prog e)"

definition emit :: "opcode \<Rightarrow> estate \<Rightarrow> nat \<times> estate" where
  "emit op e =
     (if e_n e \<ge> RX_MAX_PROG then (e_n e - 1, e\<lparr>e_over := True\<rparr>)
      else (e_n e, e\<lparr>e_prog := e_prog e @ [inst0 op]\<rparr>))"

definition patch :: "(inst \<Rightarrow> inst) \<Rightarrow> nat \<Rightarrow> estate \<Rightarrow> estate" where
  "patch f i e = e\<lparr>e_prog := (e_prog e)[i := f (e_prog e ! i)]\<rparr>"

abbreviation set_x :: "nat \<Rightarrow> nat \<Rightarrow> estate \<Rightarrow> estate" where
  "set_x i v \<equiv> patch (in_x_update (\<lambda>_. v)) i"

abbreviation set_y :: "nat \<Rightarrow> nat \<Rightarrow> estate \<Rightarrow> estate" where
  "set_y i v \<equiv> patch (in_y_update (\<lambda>_. v)) i"

definition add_set :: "nat set \<Rightarrow> bool \<Rightarrow> estate \<Rightarrow> nat \<times> estate" where
  "add_set S neg e = (length (e_sets e), e\<lparr>e_sets := e_sets e @ [(S, neg)]\<rparr>)"

text \<open>\<open>emit_class k\<close> is \<^verbatim>\<open>int i = emit(e, I_CLASS); e->prog[i].cls = k;\<close>\<close>

definition emit_class :: "nat \<Rightarrow> estate \<Rightarrow> estate" where
  "emit_class k e = (case emit I_CLASS e of (i, e1) \<Rightarrow> patch (in_cls_update (\<lambda>_. k)) i e1)"

definition emit_new_class :: "nat set \<Rightarrow> bool \<Rightarrow> estate \<Rightarrow> estate" where
  "emit_new_class S neg e =
     (case emit I_CLASS e of (i, e1) \<Rightarrow>
        (case add_set S neg e1 of (k, e2) \<Rightarrow> patch (in_cls_update (\<lambda>_. k)) i e2))"

definition rx_cont :: "nat set" where "rx_cont = {0x80..0xBF}"
definition utf8_lead2 :: "nat set" where "utf8_lead2 = {0xC2..0xDF}"
definition utf8_lead3 :: "nat set" where "utf8_lead3 = {0xE0..0xEF}"
definition utf8_lead4 :: "nat set" where "utf8_lead4 = {0xF0..0xF4}"

definition emit_utf8_class :: "nat set \<Rightarrow> estate \<Rightarrow> estate" where
  "emit_utf8_class ascii e0 =
     (let (ci, e) = add_set rx_cont False e0;
          (sp1, e) = emit I_SPLIT e;
          e = set_x sp1 (e_n e) e;
          e = emit_new_class ascii False e;
          (j1, e) = emit I_JMP e;
          e = set_y sp1 (e_n e) e;
          (sp2, e) = emit I_SPLIT e;
          e = set_x sp2 (e_n e) e;
          e = emit_new_class utf8_lead2 False e;
          e = emit_class ci e;
          (j2, e) = emit I_JMP e;
          e = set_y sp2 (e_n e) e;
          (sp3, e) = emit I_SPLIT e;
          e = set_x sp3 (e_n e) e;
          e = emit_new_class utf8_lead3 False e;
          e = emit_class ci (emit_class ci e);
          (j3, e) = emit I_JMP e;
          e = set_y sp3 (e_n e) e;
          e = emit_new_class utf8_lead4 False e;
          e = emit_class ci (emit_class ci (emit_class ci e))
      in set_x j3 (e_n e) (set_x j2 (e_n e) (set_x j1 (e_n e) e)))"

text \<open>\<^verbatim>\<open>emit_rep\<close>, with \<open>F\<close> the emission of the body.\<close>

primrec emit_copies :: "(estate \<Rightarrow> estate) \<Rightarrow> nat \<Rightarrow> estate \<Rightarrow> estate" where
  "emit_copies F 0 e = e"
| "emit_copies F (Suc k) e = (let e' = F e in if e_over e' then e' else emit_copies F k e')"

definition emit_star :: "(estate \<Rightarrow> estate) \<Rightarrow> bool \<Rightarrow> estate \<Rightarrow> estate" where
  "emit_star F greedy e =
     (let (sp, e) = emit I_SPLIT e;
          start = e_n e;
          e = F e;
          (jp, e) = emit I_JMP e;
          e = set_x jp sp e
      in if e_over e then e
         else if greedy then set_y sp (e_n e) (set_x sp start e)
         else set_y sp start (set_x sp (e_n e) e))"

text \<open>The optional copies; the result lists the splits still to be patched.\<close>

primrec emit_opts :: "(estate \<Rightarrow> estate) \<Rightarrow> bool \<Rightarrow> nat \<Rightarrow> nat list \<Rightarrow> estate \<Rightarrow> nat list \<times> estate" where
  "emit_opts F greedy 0 splits e = (splits, e)"
| "emit_opts F greedy (Suc k) splits e =
     (let (sp, e) = emit I_SPLIT e;
          start = e_n e;
          e = F e
      in if e_over e then (splits, e)
         else emit_opts F greedy k (splits @ [sp]) (if greedy then set_x sp start e else set_y sp start e))"

definition emit_rep :: "(estate \<Rightarrow> estate) \<Rightarrow> nat \<Rightarrow> int \<Rightarrow> bool \<Rightarrow> estate \<Rightarrow> estate" where
  "emit_rep F lo hi greedy e0 =
     (let e = emit_copies F lo e0 in
      if e_over e then e
      else if hi < 0 then emit_star F greedy e
      else case emit_opts F greedy (nat (hi - int lo)) [] e of (splits, e) \<Rightarrow>
        if e_over e then e
        else fold (\<lambda>sp e. if greedy then set_y sp (e_n e) e else set_x sp (e_n e) e) splits e)"

definition emit_save :: "nat \<Rightarrow> estate \<Rightarrow> estate" where
  "emit_save slot e = (case emit I_SAVE e of (i, e) \<Rightarrow> set_x i slot e)"

primrec emit_body :: "rx \<Rightarrow> estate \<Rightarrow> estate" where
  "emit_body (N_EMPTY bol eol) = (\<lambda>e.
     if e_over e then e
     else let e = (if bol then snd (emit I_BOL e) else e) in if eol then snd (emit I_EOL e) else e)"
| "emit_body (N_CHAR c) = (\<lambda>e.
     if e_over e then e
     else case emit I_CHAR e of (i, e) \<Rightarrow> patch (in_c_update (\<lambda>_. c)) i e)"
| "emit_body N_ANY = (\<lambda>e. if e_over e then e else emit_utf8_class ({0..127} - {10}) e)"
| "emit_body (N_CLASS S neg) = (\<lambda>e.
     if e_over e then e
     else if \<not> neg then (case add_set S False e of (k, e) \<Rightarrow> emit_class k e)
     else emit_utf8_class (({0..255} - S) - {128..255}) e)"
| "emit_body (N_CAT l r) = (\<lambda>e. if e_over e then e else emit_body r (emit_body l e))"
| "emit_body (N_ALT l r) = (\<lambda>e.
     if e_over e then e
     else let (sp, e) = emit I_SPLIT e;
              e = set_x sp (e_n e) e;
              e = emit_body l e;
              (jp, e) = emit I_JMP e;
              e = set_y sp (e_n e) e;
              e = emit_body r e
          in set_x jp (e_n e) e)"
| "emit_body (N_REP n lo hi greedy) = (\<lambda>e. if e_over e then e else emit_rep (emit_body n) lo hi greedy e)"
| "emit_body (N_GROUP n g) = (\<lambda>e.
     if e_over e then e
     else if g < 0 then emit_body n e
     else emit_save (2 * nat g + 1) (emit_body n (emit_save (2 * nat g) e)))"


subsection \<open>The shape of the emitted code\<close>

text \<open>\<open>seg P T n a b\<close>: the instructions of \<open>P\<close> at \<open>a..<b\<close>, with the class table \<open>T\<close>, are the code of
  the tree \<open>n\<close>; control leaves them only at \<open>b\<close>.\<close>

definition op_at :: "inst list \<Rightarrow> nat \<Rightarrow> opcode \<Rightarrow> bool" where
  "op_at P a op \<longleftrightarrow> a < length P \<and> in_op (P ! a) = op"

definition jmp_at :: "inst list \<Rightarrow> nat \<Rightarrow> nat \<Rightarrow> bool" where
  "jmp_at P a x \<longleftrightarrow> op_at P a I_JMP \<and> in_x (P ! a) = x"

definition save_at :: "inst list \<Rightarrow> nat \<Rightarrow> nat \<Rightarrow> bool" where
  "save_at P a x \<longleftrightarrow> op_at P a I_SAVE \<and> in_x (P ! a) = x"

definition split_at :: "inst list \<Rightarrow> nat \<Rightarrow> nat \<Rightarrow> nat \<Rightarrow> bool" where
  "split_at P a x y \<longleftrightarrow> op_at P a I_SPLIT \<and> in_x (P ! a) = x \<and> in_y (P ! a) = y"

definition char_at :: "inst list \<Rightarrow> nat \<Rightarrow> char \<Rightarrow> bool" where
  "char_at P a c \<longleftrightarrow> op_at P a I_CHAR \<and> in_c (P ! a) = c"

definition class_at :: "inst list \<Rightarrow> (nat set \<times> bool) list \<Rightarrow> nat \<Rightarrow> nat set \<Rightarrow> bool" where
  "class_at P T a S \<longleftrightarrow> op_at P a I_CLASS \<and> in_cls (P ! a) < length T \<and> T ! in_cls (P ! a) = (S, False)"

definition pref_split_at :: "inst list \<Rightarrow> bool \<Rightarrow> nat \<Rightarrow> nat \<Rightarrow> nat \<Rightarrow> bool" where
  "pref_split_at P greedy a p q \<longleftrightarrow> (if greedy then split_at P a p q else split_at P a q p)"

definition utf8_seg :: "inst list \<Rightarrow> (nat set \<times> bool) list \<Rightarrow> nat set \<Rightarrow> nat \<Rightarrow> nat \<Rightarrow> bool" where
  "utf8_seg P T A a b \<longleftrightarrow> b = a + 16 \<and>
     split_at P a (a + 1) (a + 3) \<and> class_at P T (a + 1) A \<and> jmp_at P (a + 2) b \<and>
     split_at P (a + 3) (a + 4) (a + 7) \<and> class_at P T (a + 4) utf8_lead2 \<and> class_at P T (a + 5) rx_cont \<and>
       jmp_at P (a + 6) b \<and>
     split_at P (a + 7) (a + 8) (a + 12) \<and> class_at P T (a + 8) utf8_lead3 \<and> class_at P T (a + 9) rx_cont \<and>
       class_at P T (a + 10) rx_cont \<and> jmp_at P (a + 11) b \<and>
     class_at P T (a + 12) utf8_lead4 \<and> class_at P T (a + 13) rx_cont \<and> class_at P T (a + 14) rx_cont \<and>
       class_at P T (a + 15) rx_cont"

primrec copies_seg :: "(nat \<Rightarrow> nat \<Rightarrow> bool) \<Rightarrow> nat \<Rightarrow> nat \<Rightarrow> nat \<Rightarrow> bool" where
  "copies_seg R 0 a b \<longleftrightarrow> a = b"
| "copies_seg R (Suc k) a b \<longleftrightarrow> (\<exists>m. R a m \<and> copies_seg R k m b)"

primrec opts_seg :: "inst list \<Rightarrow> (nat \<Rightarrow> nat \<Rightarrow> bool) \<Rightarrow> bool \<Rightarrow> nat \<Rightarrow> nat \<Rightarrow> nat \<Rightarrow> nat \<Rightarrow> bool" where
  "opts_seg P R greedy 0 a b z \<longleftrightarrow> a = b"
| "opts_seg P R greedy (Suc k) a b z \<longleftrightarrow>
     (\<exists>m. pref_split_at P greedy a (a + 1) z \<and> R (a + 1) m \<and> opts_seg P R greedy k m b z)"

definition star_seg :: "inst list \<Rightarrow> (nat \<Rightarrow> nat \<Rightarrow> bool) \<Rightarrow> bool \<Rightarrow> nat \<Rightarrow> nat \<Rightarrow> bool" where
  "star_seg P R greedy a b \<longleftrightarrow>
     (\<exists>k. pref_split_at P greedy a (a + 1) b \<and> R (a + 1) k \<and> jmp_at P k a \<and> b = k + 1)"

primrec seg :: "inst list \<Rightarrow> (nat set \<times> bool) list \<Rightarrow> rx \<Rightarrow> nat \<Rightarrow> nat \<Rightarrow> bool" where
  "seg P T (N_EMPTY bol eol) a b \<longleftrightarrow>
     (\<exists>m. (if bol then op_at P a I_BOL \<and> m = a + 1 else m = a) \<and>
          (if eol then op_at P m I_EOL \<and> b = m + 1 else b = m))"
| "seg P T (N_CHAR c) a b \<longleftrightarrow> char_at P a c \<and> b = a + 1"
| "seg P T N_ANY a b \<longleftrightarrow> utf8_seg P T ({0..127} - {10}) a b"
| "seg P T (N_CLASS S neg) a b \<longleftrightarrow>
     (if neg then utf8_seg P T (({0..255} - S) - {128..255}) a b else class_at P T a S \<and> b = a + 1)"
| "seg P T (N_CAT l r) a b \<longleftrightarrow> (\<exists>m. seg P T l a m \<and> seg P T r m b)"
| "seg P T (N_ALT l r) a b \<longleftrightarrow>
     (\<exists>m. split_at P a (a + 1) (m + 1) \<and> seg P T l (a + 1) m \<and> jmp_at P m b \<and> seg P T r (m + 1) b)"
| "seg P T (N_REP n lo hi greedy) a b \<longleftrightarrow>
     (\<exists>m. copies_seg (seg P T n) lo a m \<and>
        (if hi < 0 then star_seg P (seg P T n) greedy m b
         else opts_seg P (seg P T n) greedy (nat (hi - int lo)) m b b))"
| "seg P T (N_GROUP n g) a b \<longleftrightarrow>
     (if g < 0 then seg P T n a b
      else \<exists>m. save_at P a (2 * nat g) \<and> seg P T n (a + 1) m \<and> save_at P m (2 * nat g + 1) \<and> b = m + 1)"

lemma copies_seg_le: "copies_seg R k a b \<Longrightarrow> (\<And>a b. R a b \<Longrightarrow> a \<le> b) \<Longrightarrow> a \<le> b"
  by (induction k arbitrary: a) (auto intro: order_trans)

lemma opts_seg_le: "opts_seg P R g k a b z \<Longrightarrow> (\<And>a b. R a b \<Longrightarrow> a \<le> b) \<Longrightarrow> a \<le> b"
proof (induction k arbitrary: a)
  case (Suc k)
  then obtain m where "R (a + 1) m" "opts_seg P R g k m b z" by auto
  with Suc.IH Suc.prems(2) [of "a + 1" m] Suc.prems(2) show ?case by fastforce
qed simp

lemma star_seg_le: "star_seg P R g a b \<Longrightarrow> (\<And>a b. R a b \<Longrightarrow> a \<le> b) \<Longrightarrow> a \<le> b"
  unfolding star_seg_def by fastforce

lemma seg_le: "seg P T n a b \<Longrightarrow> a \<le> b"
proof (induction n arbitrary: a b)
  case (N_CAT l r)
  then show ?case by (fastforce intro: order_trans)
next
  case (N_ALT l r)
  then show ?case by fastforce
next
  case (N_REP n lo hi g)
  then show ?case
    by (auto simp: star_seg_def split: if_splits intro: order_trans dest!: copies_seg_le opts_seg_le)
      (meson Suc_leD le_SucI order_trans)+
next
  case (N_GROUP n g)
  then show ?case by (auto split: if_splits dest: Suc_leD le_SucI)
qed (auto simp: utf8_seg_def split: if_splits)

text \<open>The code of a tree depends on its own instructions only.\<close>

definition same_on :: "nat \<Rightarrow> nat \<Rightarrow> inst list \<Rightarrow> inst list \<Rightarrow> bool" where
  "same_on a b P Q \<longleftrightarrow> (\<forall>k \<in> {a..<b}. k < length P \<longrightarrow> k < length Q \<and> Q ! k = P ! k)"

lemma same_on_sub: "same_on a b P Q \<Longrightarrow> a \<le> a' \<Longrightarrow> b' \<le> b \<Longrightarrow> same_on a' b' P Q"
  by (auto simp: same_on_def)

lemma at_cong:
  assumes "same_on a b P Q" "a \<le> k" "k < b"
  shows "op_at P k op \<Longrightarrow> op_at Q k op" "jmp_at P k x \<Longrightarrow> jmp_at Q k x" "save_at P k x \<Longrightarrow> save_at Q k x"
    "split_at P k x y \<Longrightarrow> split_at Q k x y" "char_at P k c \<Longrightarrow> char_at Q k c"
    "pref_split_at P g k x y \<Longrightarrow> pref_split_at Q g k x y"
  using assms
  by (auto simp: same_on_def op_at_def jmp_at_def save_at_def split_at_def char_at_def pref_split_at_def split: if_splits)

lemma class_at_cong:
  assumes "same_on a b P Q" "a \<le> k" "k < b" "prefix T T'"
  shows "class_at P T k S \<Longrightarrow> class_at Q T' k S"
  using assms by (auto simp: same_on_def class_at_def op_at_def prefix_def nth_append)

lemma copies_seg_mono:
  "copies_seg R k a b \<Longrightarrow> lo \<le> a \<Longrightarrow> b \<le> hi \<Longrightarrow> (\<And>a b. R a b \<Longrightarrow> a \<le> b) \<Longrightarrow>
   (\<And>a b. R a b \<Longrightarrow> lo \<le> a \<Longrightarrow> b \<le> hi \<Longrightarrow> R' a b) \<Longrightarrow> copies_seg R' k a b"
proof (induction k arbitrary: a)
  case (Suc k)
  from Suc.prems(1) obtain m where m: "R a m" "copies_seg R k m b" by auto
  have "m \<le> b" using copies_seg_le [OF m(2)] Suc.prems(4) .
  moreover have "a \<le> m" using Suc.prems(4) m(1) .
  ultimately show ?case using Suc m by (simp, blast intro: order_trans)
qed simp

lemma opts_seg_mono:
  "opts_seg P R g k a b z \<Longrightarrow> lo \<le> a \<Longrightarrow> b \<le> hi \<Longrightarrow> (\<And>a b. R a b \<Longrightarrow> a \<le> b) \<Longrightarrow> same_on lo hi P Q \<Longrightarrow>
   (\<And>a b. R a b \<Longrightarrow> lo \<le> a \<Longrightarrow> b \<le> hi \<Longrightarrow> R' a b) \<Longrightarrow> opts_seg Q R' g k a b z"
proof (induction k arbitrary: a)
  case (Suc k)
  from Suc.prems(1) obtain m where m: "pref_split_at P g a (a + 1) z" "R (a + 1) m" "opts_seg P R g k m b z" by auto
  have le: "m \<le> b" "a + 1 \<le> m" using opts_seg_le [OF m(3)] Suc.prems(4) m(2) by blast+
  have "pref_split_at Q g a (a + 1) z" using at_cong(6) [OF Suc.prems(5)] m(1) Suc.prems(2,3) le by auto
  moreover have "R' (a + 1) m" using Suc.prems(2,3,6) m(2) le by auto
  moreover have "opts_seg Q R' g k m b z" using Suc.IH [OF m(3)] Suc.prems le by auto
  ultimately show ?case by auto
qed simp

lemma seg_cong: "seg P T n a b \<Longrightarrow> same_on a b P Q \<Longrightarrow> prefix T T' \<Longrightarrow> seg Q T' n a b"
proof (induction n arbitrary: a b)
  case (N_EMPTY bol eol)
  then show ?case by (auto simp: same_on_def op_at_def split: if_splits)
next
  case (N_CHAR c)
  then show ?case by (auto dest: at_cong)
next
  case N_ANY
  then show ?case by (auto simp: utf8_seg_def intro: at_cong class_at_cong)
next
  case (N_CLASS S neg)
  then show ?case by (auto simp: utf8_seg_def split: if_splits intro: at_cong class_at_cong)
next
  case (N_CAT l r)
  from N_CAT.prems(1) obtain m where m: "seg P T l a m" "seg P T r m b" by auto
  note le = seg_le [OF m(1)] seg_le [OF m(2)]
  have "seg Q T' l a m" "seg Q T' r m b"
    using N_CAT.IH m N_CAT.prems(2,3) le by (blast intro: same_on_sub order_refl)+
  then show ?case by auto
next
  case (N_ALT l r)
  from N_ALT.prems(1) obtain m where m: "split_at P a (a + 1) (m + 1)" "seg P T l (a + 1) m" "jmp_at P m b" "seg P T r (m + 1) b"
    by auto
  note le = seg_le [OF m(2)] seg_le [OF m(4)]
  have "same_on (a + 1) m P Q" "same_on (m + 1) b P Q"
    using same_on_sub [OF N_ALT.prems(2)] le by auto
  then have "seg Q T' l (a + 1) m" "seg Q T' r (m + 1) b" using N_ALT.IH m N_ALT.prems(3) by blast+
  moreover have "split_at Q a (a + 1) (m + 1)" "jmp_at Q m b"
    using at_cong [OF N_ALT.prems(2)] m le by auto
  ultimately show ?case by auto
next
  case (N_REP n lo hi g)
  from N_REP.prems(1) obtain m where m: "copies_seg (seg P T n) lo a m"
    "if hi < 0 then star_seg P (seg P T n) g m b else opts_seg P (seg P T n) g (nat (hi - int lo)) m b b" by auto
  have sub: "seg Q T' n i j" if "seg P T n i j" "a \<le> i" "j \<le> b" for i j
    using N_REP.IH [OF that(1) same_on_sub [OF N_REP.prems(2) that(2,3)] N_REP.prems(3)] .
  have am: "a \<le> m" using copies_seg_le [OF m(1)] seg_le by blast
  have mb: "m \<le> b"
    using m(2) by (cases "hi < 0") (auto intro: opts_seg_le star_seg_le seg_le)
  have "copies_seg (seg Q T' n) lo a m"
    by (rule copies_seg_mono [OF m(1) order_refl mb seg_le]) (auto intro: sub)
  moreover have "if hi < 0 then star_seg Q (seg Q T' n) g m b else opts_seg Q (seg Q T' n) g (nat (hi - int lo)) m b b"
  proof (cases "hi < 0")
    case True
    with m(2) obtain k where k: "pref_split_at P g m (m + 1) b" "seg P T n (m + 1) k" "jmp_at P k m" "b = k + 1"
      by (auto simp: star_seg_def)
    note le = seg_le [OF k(2)]
    have "star_seg Q (seg Q T' n) g m b"
      unfolding star_seg_def using k at_cong [OF N_REP.prems(2)] le am sub [OF k(2)] by auto
    with True show ?thesis by simp
  next
    case False
    with m(2) have "opts_seg P (seg P T n) g (nat (hi - int lo)) m b b" by simp
    then have "opts_seg Q (seg Q T' n) g (nat (hi - int lo)) m b b"
      by (rule opts_seg_mono [OF _ am order_refl seg_le N_REP.prems(2)]) (auto intro: sub)
    with False show ?thesis by simp
  qed
  ultimately show ?case by auto
next
  case (N_GROUP n g)
  show ?case
  proof (cases "g < 0")
    case True
    with N_GROUP show ?thesis by simp
  next
    case False
    with N_GROUP.prems(1) obtain m where m: "save_at P a (2 * nat g)" "seg P T n (a + 1) m" "save_at P m (2 * nat g + 1)" "b = m + 1"
      by auto
    note le = seg_le [OF m(2)]
    have "same_on (a + 1) m P Q" using same_on_sub [OF N_GROUP.prems(2)] m(4) by auto
    from N_GROUP.IH [OF m(2) this N_GROUP.prems(3)] at_cong [OF N_GROUP.prems(2)] m le False
    show ?thesis by auto
  qed
qed


subsection \<open>Emission produces that shape\<close>

definition kept :: "nat \<Rightarrow> estate \<Rightarrow> estate \<Rightarrow> bool" where
  "kept n e e' \<longleftrightarrow> n \<le> e_n e' \<and> (\<forall>k < n. e_prog e' ! k = e_prog e ! k) \<and> prefix (e_sets e) (e_sets e')"

definition emission :: "(estate \<Rightarrow> estate) \<Rightarrow> (inst list \<Rightarrow> (nat set \<times> bool) list \<Rightarrow> nat \<Rightarrow> nat \<Rightarrow> bool) \<Rightarrow> bool" where
  "emission F R \<longleftrightarrow> (\<forall>e. e_n e \<le> RX_MAX_PROG \<longrightarrow>
     e_n (F e) \<le> RX_MAX_PROG \<and> (e_over e \<longrightarrow> e_over (F e)) \<and>
     (\<not> e_over (F e) \<longrightarrow> kept (e_n e) e (F e) \<and> R (e_prog (F e)) (e_sets (F e)) (e_n e) (e_n (F e))))"

lemma patch_simps [simp]:
  "e_n (patch f i e) = e_n e" "e_over (patch f i e) = e_over e" "e_sets (patch f i e) = e_sets e"
  "length (e_prog (patch f i e)) = e_n e"
  by (simp_all add: patch_def e_n_def)

lemma patch_nth: "k < e_n e \<Longrightarrow> e_prog (patch f i e) ! k = (if k = i then f (e_prog e ! k) else e_prog e ! k)"
  by (auto simp: patch_def e_n_def nth_list_update)

lemma emit_over: "e_over e \<Longrightarrow> e_over (snd (emit op e))"
  by (simp add: emit_def)

lemma emit_bound: "e_n e \<le> RX_MAX_PROG \<Longrightarrow> e_n (snd (emit op e)) \<le> RX_MAX_PROG"
  by (auto simp: emit_def e_n_def)

lemma emit_ok:
  assumes "emit op e = (i, e')"
  shows "e_n e \<le> RX_MAX_PROG \<Longrightarrow> e_n e' \<le> RX_MAX_PROG" "e_over e \<Longrightarrow> e_over e'"
    "\<not> e_over e' \<Longrightarrow> i = e_n e \<and> e_n e' = e_n e + 1 \<and> e_prog e' = e_prog e @ [inst0 op] \<and> e_sets e' = e_sets e \<and> \<not> e_over e"
  using assms by (auto simp: emit_def e_n_def split: if_splits)

lemma emit_nth:
  assumes "emit op e = (i, e')" "\<not> e_over e'"
  shows "k < e_n e \<Longrightarrow> e_prog e' ! k = e_prog e ! k" "e_prog e' ! e_n e = inst0 op"
  using emit_ok(3) [OF assms] by (auto simp: nth_append e_n_def)

lemma inst0_simps [simp]: "in_op (inst0 op) = op"
  by (simp add: inst0_def)

lemma kept_trans: "kept n e e' \<Longrightarrow> kept n e' e'' \<Longrightarrow> kept n e e''"
  by (auto simp: kept_def intro: prefix_order.trans)

lemma kept_mono: "kept n e e' \<Longrightarrow> m \<le> n \<Longrightarrow> kept m e e'"
  by (auto simp: kept_def)

lemma kept_emit: "emit op e = (i, e') \<Longrightarrow> \<not> e_over e' \<Longrightarrow> n \<le> e_n e \<Longrightarrow> kept n e e'"
  using emit_ok [of op e i e'] emit_nth [of op e i e'] by (auto simp: kept_def)

lemma kept_patch: "n \<le> i \<Longrightarrow> n \<le> e_n e \<Longrightarrow> kept n e (patch f i e)"
  by (auto simp: kept_def patch_nth)

lemma emissionD:
  assumes "emission F R" "e_n e \<le> RX_MAX_PROG"
  shows "e_n (F e) \<le> RX_MAX_PROG" "e_over e \<Longrightarrow> e_over (F e)"
    "\<not> e_over (F e) \<Longrightarrow> kept (e_n e) e (F e)" "\<not> e_over (F e) \<Longrightarrow> R (e_prog (F e)) (e_sets (F e)) (e_n e) (e_n (F e))"
  using assms by (auto simp: emission_def)

text \<open>Code that only reads its own instructions survives later emission and patches elsewhere.\<close>

definition local_code :: "(inst list \<Rightarrow> (nat set \<times> bool) list \<Rightarrow> nat \<Rightarrow> nat \<Rightarrow> bool) \<Rightarrow> bool" where
  "local_code R \<longleftrightarrow> (\<forall>P T a b Q T'. R P T a b \<longrightarrow> same_on a b P Q \<longrightarrow> prefix T T' \<longrightarrow> a \<le> b \<and> R Q T' a b)"

lemma local_codeD: "local_code R \<Longrightarrow> R P T a b \<Longrightarrow> same_on a b P Q \<Longrightarrow> prefix T T' \<Longrightarrow> R Q T' a b"
  by (auto simp: local_code_def)

lemma local_code_le: "local_code R \<Longrightarrow> R P T a b \<Longrightarrow> a \<le> b"
  unfolding local_code_def same_on_def by blast

lemma local_seg: "local_code (\<lambda>P T. seg P T n)"
  using seg_cong seg_le by (fastforce simp: local_code_def)

lemma kept_same_on: "kept n e e' \<Longrightarrow> n \<le> e_n e \<Longrightarrow> b \<le> n \<Longrightarrow> same_on a b (e_prog e) (e_prog e')"
  by (auto simp: kept_def same_on_def e_n_def)

lemma kept_code:
  assumes "local_code R" "R (e_prog e) (e_sets e) a b" "kept n e e'" "b \<le> n" "n \<le> e_n e"
  shows "R (e_prog e') (e_sets e') a b"
  using local_codeD [OF assms(1,2) kept_same_on [OF assms(3,5,4)]] assms(3) by (simp add: kept_def)

lemma patch_code:
  assumes "local_code R" "R (e_prog e) (e_sets e) a b" "i < a \<or> b \<le> i"
  shows "R (e_prog (patch f i e)) (e_sets (patch f i e)) a b"
proof -
  have "same_on a b (e_prog e) (e_prog (patch f i e))"
    using assms(3) by (auto simp: same_on_def patch_def nth_list_update)
  from local_codeD [OF assms(1,2) this] show ?thesis by simp
qed

lemma emission_seq:
  assumes F: "emission F R" "local_code R" and G: "emission G S"
  shows "emission (\<lambda>e. G (F e)) (\<lambda>P T a b. \<exists>m. R P T a m \<and> S P T m b)"
  unfolding emission_def
proof (intro allI impI conjI)
  fix e assume e: "e_n e \<le> RX_MAX_PROG"
  note f = emissionD [OF F(1) e] and g = emissionD [OF G, of "F e"]
  show "e_n (G (F e)) \<le> RX_MAX_PROG" using g(1) f(1) by blast
  show "e_over e \<Longrightarrow> e_over (G (F e))" using g(2) f(1,2) by blast
  assume no: "\<not> e_over (G (F e))"
  then have nf: "\<not> e_over (F e)" using g(2) f(1) by blast
  note k1 = f(3) [OF nf] and k2 = g(3) [OF f(1) no]
  have le: "e_n e \<le> e_n (F e)" using k1 by (simp add: kept_def)
  show "kept (e_n e) e (G (F e))" using kept_trans [OF k1 kept_mono [OF k2 le]] .
  have "R (e_prog (G (F e))) (e_sets (G (F e))) (e_n e) (e_n (F e))"
    using kept_code [OF F(2) f(4) [OF nf] k2] by simp
  with g(4) [OF f(1) no] show "\<exists>m. R (e_prog (G (F e))) (e_sets (G (F e))) (e_n e) m \<and> S (e_prog (G (F e))) (e_sets (G (F e))) m (e_n (G (F e)))"
    by blast
qed

lemma emission_guard: "emission F R \<Longrightarrow> emission (\<lambda>e. if e_over e then e else F e) R"
  by (auto simp: emission_def)

lemma emission_mono: "emission F R \<Longrightarrow> (\<And>P T a b. R P T a b \<Longrightarrow> S P T a b) \<Longrightarrow> emission F S"
  by (auto simp: emission_def)

lemma emission_id: "emission (\<lambda>e. e) (\<lambda>P T a b. a = b)"
  by (auto simp: emission_def kept_def)

text \<open>One instruction, appended and patched at once.\<close>

lemma emission_one:
  "emission (\<lambda>e. case emit op e of (i, e) \<Rightarrow> patch f i e)
     (\<lambda>P T a b. a < length P \<and> P ! a = f (inst0 op) \<and> b = a + 1)"
  unfolding emission_def
proof (intro allI impI conjI)
  fix e assume e: "e_n e \<le> RX_MAX_PROG"
  obtain i e1 where em: "emit op e = (i, e1)" by (cases "emit op e")
  note ok = emit_ok [OF em]
  let ?r = "case emit op e of (i, e) \<Rightarrow> patch f i e"
  show "e_n ?r \<le> RX_MAX_PROG" using em ok(1) e by simp
  show "e_over e \<Longrightarrow> e_over ?r" using em ok(2) by simp
  assume "\<not> e_over ?r"
  then have no: "\<not> e_over e1" using em by simp
  note o = ok(3) [OF no]
  show "kept (e_n e) e ?r"
    using kept_trans [OF kept_emit [OF em no order_refl] kept_patch [of "e_n e" i e1 f]] em o by simp
  show "e_n e < length (e_prog ?r)" "e_n ?r = e_n e + 1" using em o by (simp_all add: e_n_def patch_def)
  show "e_prog ?r ! e_n e = f (inst0 op)"
    using em o emit_nth(2) [OF em no] patch_nth [of "e_n e" e1 f i] by simp
qed

lemma emission_plain: "emission (\<lambda>e. snd (emit op e)) (\<lambda>P T a b. op_at P a op \<and> b = a + 1)"
proof -
  have *: "(\<lambda>e. case emit op e of (i, e) \<Rightarrow> patch (\<lambda>x. x) i e) = (\<lambda>e. snd (emit op e))"
    by (auto simp: patch_def fun_eq_iff split: prod.splits)
  show ?thesis
    by (rule emission_mono [OF emission_one [where op = op and f = "\<lambda>x. x", unfolded *]]) (auto simp: op_at_def)
qed

lemma emission_save: "emission (emit_save slot) (\<lambda>P T a b. save_at P a slot \<and> b = a + 1)"
  unfolding emit_save_def
  by (rule emission_mono [OF emission_one]) (auto simp: save_at_def op_at_def)

lemma emission_char:
  "emission (\<lambda>e. case emit I_CHAR e of (i, e) \<Rightarrow> patch (in_c_update (\<lambda>_. c)) i e)
     (\<lambda>P T a b. char_at P a c \<and> b = a + 1)"
  by (rule emission_mono [OF emission_one]) (auto simp: char_at_def op_at_def)

lemma local_one:
  "local_code (\<lambda>P T a b. op_at P a op \<and> b = a + 1)" "local_code (\<lambda>P T a b. save_at P a x \<and> b = a + 1)"
  "local_code (\<lambda>P T a b. class_at P T a S \<and> b = a + 1)" "local_code (\<lambda>P T a b. jmp_at P a x \<and> b = a + 1)"
  "local_code (\<lambda>P T (a::nat) b. a = b)"
  unfolding local_code_def by (auto dest: at_cong class_at_cong)


lemma emission_class: "emission (emit_class k) (\<lambda>P T a b. (op_at P a I_CLASS \<and> in_cls (P ! a) = k) \<and> b = a + 1)"
  unfolding emit_class_def
  by (rule emission_mono [OF emission_one]) (auto simp: op_at_def)

lemma emission_add_set:
  assumes "\<And>k. emission (F k) (\<lambda>P T a b. R k P T a b)" "\<And>k. local_code (R k)"
  shows "emission (\<lambda>e. case add_set S neg e of (k, e) \<Rightarrow> F k e)
           (\<lambda>P T a b. \<exists>k < length T. T ! k = (S, neg) \<and> R k P T a b)"
  unfolding emission_def
proof (intro allI impI conjI)
  fix e assume e: "e_n e \<le> RX_MAX_PROG"
  define k where "k = length (e_sets e)"
  define e1 where "e1 = e\<lparr>e_sets := e_sets e @ [(S, neg)]\<rparr>"
  have s: "add_set S neg e = (k, e1)" by (simp add: add_set_def k_def e1_def)
  have e1: "e_n e1 = e_n e" "e_over e1 = e_over e" "e_prog e1 = e_prog e" by (simp_all add: e1_def e_n_def)
  let ?r = "case add_set S neg e of (k, e) \<Rightarrow> F k e"
  have r: "?r = F k e1" by (simp add: s)
  have le: "e_n e1 \<le> RX_MAX_PROG" using e e1 by simp
  note f = emissionD [OF assms(1) [of k] le]
  show "e_n ?r \<le> RX_MAX_PROG" using f(1) r by simp
  show "e_over e \<Longrightarrow> e_over ?r" using f(2) r e1 by simp
  assume no: "\<not> e_over ?r"
  then have kk: "kept (e_n e) e1 (F k e1)" using f(3) r e1 by simp
  then show "kept (e_n e) e ?r" unfolding r by (auto simp: kept_def e1_def append_prefixD)
  from kk have "prefix (e_sets e1) (e_sets (F k e1))" by (simp add: kept_def)
  then have "k < length (e_sets (F k e1)) \<and> e_sets (F k e1) ! k = (S, neg)"
    by (auto simp: prefix_def e1_def k_def nth_append)
  then show "\<exists>k<length (e_sets ?r). e_sets ?r ! k = (S, neg) \<and> R k (e_prog ?r) (e_sets ?r) (e_n e) (e_n ?r)"
    using f(4) no r e1 by auto
qed

lemma emit_new_class_alt: "emit_new_class S neg e = (case add_set S neg e of (k, e) \<Rightarrow> emit_class k e)"
  by (simp add: emit_new_class_def emit_class_def add_set_def emit_def e_n_def patch_def)

lemma local_cls: "local_code (\<lambda>P T a b. (op_at P a I_CLASS \<and> in_cls (P ! a) = k) \<and> b = a + 1)"
  unfolding local_code_def by (auto simp: op_at_def same_on_def)

lemma emission_set_class:
  "emission (\<lambda>e. case add_set S False e of (k, e) \<Rightarrow> emit_class k e) (\<lambda>P T a b. class_at P T a S \<and> b = a + 1)"
  by (rule emission_mono [OF emission_add_set [OF emission_class local_cls]]) (auto simp: class_at_def)

lemma emission_new_class: "emission (emit_new_class S False) (\<lambda>P T a b. class_at P T a S \<and> b = a + 1)"
  unfolding emit_new_class_alt [abs_def] by (rule emission_set_class)

text \<open>An alternation, as the code builds it: for \<^const>\<open>N_ALT\<close> and for the byte sequences of UTF-8.\<close>

definition emit_alt :: "(estate \<Rightarrow> estate) \<Rightarrow> (estate \<Rightarrow> estate) \<Rightarrow> estate \<Rightarrow> estate" where
  "emit_alt F G e =
     (let (sp, e) = emit I_SPLIT e;
          e = set_x sp (e_n e) e;
          e = F e;
          (jp, e) = emit I_JMP e;
          e = set_y sp (e_n e) e;
          e = G e
      in set_x jp (e_n e) e)"

definition alt_seg :: "(inst list \<Rightarrow> (nat set \<times> bool) list \<Rightarrow> nat \<Rightarrow> nat \<Rightarrow> bool) \<Rightarrow>
    (inst list \<Rightarrow> (nat set \<times> bool) list \<Rightarrow> nat \<Rightarrow> nat \<Rightarrow> bool) \<Rightarrow> inst list \<Rightarrow> (nat set \<times> bool) list \<Rightarrow> nat \<Rightarrow> nat \<Rightarrow> bool" where
  "alt_seg R S P T a b \<longleftrightarrow>
     (\<exists>m. split_at P a (a + 1) (m + 1) \<and> R P T (a + 1) m \<and> jmp_at P m b \<and> S P T (m + 1) b)"

lemma split_atI:
  "e_n e0 < e_n e \<Longrightarrow> in_op (e_prog e ! e_n e0) = I_SPLIT \<Longrightarrow> in_x (e_prog e ! e_n e0) = x \<Longrightarrow>
   in_y (e_prog e ! e_n e0) = y \<Longrightarrow> split_at (e_prog e) (e_n e0) x y"
  by (simp add: split_at_def op_at_def e_n_def)

lemma emission_alt:
  assumes F: "emission F R" "local_code R" and G: "emission G S" "local_code S"
  shows "emission (emit_alt F G) (alt_seg R S)"
  unfolding emission_def
proof (intro allI impI conjI)
  fix e assume e: "e_n e \<le> RX_MAX_PROG"
  obtain sp e1 where em1: "emit I_SPLIT e = (sp, e1)" by (cases "emit I_SPLIT e")
  define e2 where "e2 = set_x sp (e_n e1) e1"
  define e3 where "e3 = F e2"
  obtain jp e4 where em2: "emit I_JMP e3 = (jp, e4)" by (cases "emit I_JMP e3")
  define e5 where "e5 = set_y sp (e_n e4) e4"
  define e6 where "e6 = G e5"
  have r: "emit_alt F G e = set_x jp (e_n e6) e6"
    by (simp add: emit_alt_def em1 em2 e2_def [symmetric] e3_def [symmetric] e5_def [symmetric] e6_def [symmetric])
  have b2: "e_n e2 \<le> RX_MAX_PROG" using emit_ok(1) [OF em1 e] by (simp add: e2_def)
  note f = emissionD [OF F(1) b2, folded e3_def]
  have b5: "e_n e5 \<le> RX_MAX_PROG" using emit_ok(1) [OF em2 f(1)] by (simp add: e5_def)
  note g = emissionD [OF G(1) b5, folded e6_def]
  show "e_n (emit_alt F G e) \<le> RX_MAX_PROG" using g(1) by (simp add: r)
  have ov: "e_over e \<Longrightarrow> e_over e1" "e_over e1 \<Longrightarrow> e_over e3" "e_over e3 \<Longrightarrow> e_over e4" "e_over e4 \<Longrightarrow> e_over e6"
    using emit_ok(2) [OF em1] f(2) emit_ok(2) [OF em2] g(2) by (simp_all add: e2_def e5_def)
  then show "e_over e \<Longrightarrow> e_over (emit_alt F G e)" by (simp add: r)
  assume "\<not> e_over (emit_alt F G e)"
  then have no: "\<not> e_over e1" "\<not> e_over e3" "\<not> e_over e4" "\<not> e_over e6" using ov by (auto simp: r)
  define a where "a = e_n e"
  define m where "m = e_n e3"
  note o1 = emit_ok(3) [OF em1 no(1)] and o2 = emit_ok(3) [OF em2 no(3)]
  note k3 = f(3) [OF no(2)] and k6 = g(3) [OF no(4)]
  have n: "e_n e1 = a + 1" "e_n e2 = a + 1" "sp = a" "jp = m" "e_n e4 = m + 1" "e_n e5 = m + 1" "a + 1 \<le> m" "m + 1 \<le> e_n e6"
    using o1 o2 k3 k6 by (simp_all add: a_def m_def e2_def e5_def kept_def)
  have p2: "e_prog e2 ! k = (if k = a then (inst0 I_SPLIT)\<lparr>in_x := a + 1\<rparr> else e_prog e ! k)" if "k \<le> a" for k
    using that n emit_nth [OF em1 no(1)] by (auto simp: e2_def patch_nth a_def)
  have p3: "e_prog e3 ! k = e_prog e2 ! k" if "k \<le> a" for k
    using k3 that n by (simp add: kept_def)
  have p5: "e_prog e5 ! k = (if k = a then (inst0 I_SPLIT)\<lparr>in_x := a + 1, in_y := m + 1\<rparr>
      else if k = m then inst0 I_JMP else e_prog e3 ! k)" if "k \<le> m" for k
    using that n emit_nth [OF em2 no(3)] p3 [of a] p2 [of a] by (auto simp: e5_def patch_nth m_def)
  have p6: "e_prog e6 ! k = e_prog e5 ! k" if "k \<le> m" for k
    using k6 that n by (simp add: kept_def)
  define P where "P = e_prog (emit_alt F G e)"
  have P: "P ! k = (if k = m then (e_prog e6 ! m)\<lparr>in_x := e_n e6\<rparr> else e_prog e6 ! k)" if "k < e_n e6" for k
    using that n patch_nth [OF that] by (simp add: P_def r)
  have len: "length P = e_n e6" by (simp add: P_def r)
  have sp: "split_at P a (a + 1) (m + 1)"
    using n P [of a] p6 [of a] p5 [of a] by (simp add: split_at_def op_at_def len)
  have jp: "jmp_at P m (e_n e6)"
    using n P [of m] p6 [of m] p5 [of m] by (simp add: jmp_at_def op_at_def len)
  have sets: "prefix (e_sets e3) (e_sets e6)" "prefix (e_sets e) (e_sets e6)"
    using k3 k6 o1 o2 prefix_order.trans [of "e_sets e3"] prefix_order.trans [of "e_sets e"]
    by (auto simp: kept_def e2_def e5_def)
  have s1: "same_on (a + 1) m (e_prog e3) P"
    using n P p6 p5 by (auto simp: same_on_def len)
  have s2: "same_on (m + 1) (e_n e6) (e_prog e6) P"
    using n P by (auto simp: same_on_def len)
  have "R P (e_sets e6) (a + 1) m"
    using local_codeD [OF F(2) f(4) [OF no(2)], of P "e_sets e6"] s1 sets(1) n by (simp add: m_def)
  moreover have "S P (e_sets e6) (m + 1) (e_n e6)"
    using local_codeD [OF G(2) g(4) [OF no(4)], of P "e_sets e6"] s2 n by simp
  ultimately show "alt_seg R S (e_prog (emit_alt F G e)) (e_sets (emit_alt F G e)) (e_n e) (e_n (emit_alt F G e))"
    using sp jp by (auto simp: alt_seg_def P_def r a_def)
  have "P ! k = e_prog e ! k" if "k < a" for k
    using that n P [of k] p6 [of k] p5 [of k] p3 [of k] p2 [of k] by simp
  then show "kept (e_n e) e (emit_alt F G e)"
    using sets(2) n by (simp add: kept_def P_def r a_def)
qed

lemma local_alt: "local_code R \<Longrightarrow> local_code S \<Longrightarrow> local_code (alt_seg R S)"
  unfolding local_code_def
proof (intro allI impI)
  fix P T a b Q T'
  assume R: "\<forall>P T a b Q T'. R P T a b \<longrightarrow> same_on a b P Q \<longrightarrow> prefix T T' \<longrightarrow> a \<le> b \<and> R Q T' a b"
    and S: "\<forall>P T a b Q T'. S P T a b \<longrightarrow> same_on a b P Q \<longrightarrow> prefix T T' \<longrightarrow> a \<le> b \<and> S Q T' a b"
    and x: "alt_seg R S P T a b" "same_on a b P Q" "prefix T T'"
  then obtain m where m: "split_at P a (a + 1) (m + 1)" "R P T (a + 1) m" "jmp_at P m b" "S P T (m + 1) b"
    by (auto simp: alt_seg_def)
  have le: "a + 1 \<le> m" "m + 1 \<le> b"
    using R S m(2,4) unfolding same_on_def by blast+
  have "R Q T' (a + 1) m" "S Q T' (m + 1) b"
    using R S m(2,4) x(3) same_on_sub [OF x(2), of "a + 1" m] same_on_sub [OF x(2), of "m + 1" b] le by auto
  then show "a \<le> b \<and> alt_seg R S Q T' a b"
    using le at_cong [OF x(2)] m by (auto simp: alt_seg_def intro!: exI [of _ m])
qed


lemma local_seq: "local_code R \<Longrightarrow> local_code S \<Longrightarrow> local_code (\<lambda>P T a b. \<exists>m. R P T a m \<and> S P T m b)"
  unfolding local_code_def
proof (intro allI impI)
  fix P T a b Q T'
  assume R: "\<forall>P T a b Q T'. R P T a b \<longrightarrow> same_on a b P Q \<longrightarrow> prefix T T' \<longrightarrow> a \<le> b \<and> R Q T' a b"
    and S: "\<forall>P T a b Q T'. S P T a b \<longrightarrow> same_on a b P Q \<longrightarrow> prefix T T' \<longrightarrow> a \<le> b \<and> S Q T' a b"
    and x: "\<exists>m. R P T a m \<and> S P T m b" "same_on a b P Q" "prefix T T'"
  then obtain m where m: "R P T a m" "S P T m b" by auto
  have le: "a \<le> m" "m \<le> b" using R S m unfolding same_on_def by blast+
  then show "a \<le> b \<and> (\<exists>m. R Q T' a m \<and> S Q T' m b)"
    using R S m x(3) same_on_sub [OF x(2), of a m] same_on_sub [OF x(2), of m b] by (meson order_refl order_trans)
qed

lemma emit_utf8_as_alts:
  "emit_utf8_class A e =
     (case add_set rx_cont False e of (ci, e) \<Rightarrow>
        emit_alt (emit_new_class A False)
          (emit_alt (\<lambda>e. emit_class ci (emit_new_class utf8_lead2 False e))
            (emit_alt (\<lambda>e. emit_class ci (emit_class ci (emit_new_class utf8_lead3 False e)))
              (\<lambda>e. emit_class ci (emit_class ci (emit_class ci (emit_new_class utf8_lead4 False e)))))) e)"
proof -
  have swap: "set_x i v (set_x j v e) = set_x j v (set_x i v e)" for i j v e
    by (cases "i = j") (simp_all add: patch_def list_update_swap)
  have swap3: "set_x i v (set_x j v (set_x k v e)) = set_x k v (set_x j v (set_x i v e))" for i j k v e
    by (metis swap)
  show ?thesis
    unfolding emit_utf8_class_def emit_alt_def Let_def
    by (simp add: split_beta swap3 cong: prod.case_cong)
qed

lemma emission_utf8: "emission (emit_utf8_class A) (\<lambda>P T. utf8_seg P T A)"
proof -
  let ?N = "\<lambda>S P T a b. class_at P T a S \<and> b = a + 1"
  let ?C = "\<lambda>k P T a b. (op_at P a I_CLASS \<and> in_cls (P ! a) = k) \<and> b = a + 1"
  let ?s = "\<lambda>R S P T a b. \<exists>m. R P T a m \<and> S P T m b"
  note n = emission_new_class and c = emission_class and ln = local_one(3) and lc = local_cls
  note s = emission_seq and ls = local_seq
  let ?F = "\<lambda>ci. emit_alt (emit_new_class A False)
          (emit_alt (\<lambda>e. emit_class ci (emit_new_class utf8_lead2 False e))
            (emit_alt (\<lambda>e. emit_class ci (emit_class ci (emit_new_class utf8_lead3 False e)))
              (\<lambda>e. emit_class ci (emit_class ci (emit_class ci (emit_new_class utf8_lead4 False e))))))"
  let ?R = "\<lambda>ci. alt_seg (?N A) (alt_seg (?s (?N utf8_lead2) (?C ci))
      (alt_seg (?s (?s (?N utf8_lead3) (?C ci)) (?C ci)) (?s (?s (?s (?N utf8_lead4) (?C ci)) (?C ci)) (?C ci))))"
  have em: "emission (?F ci) (?R ci)" for ci
    by (intro emission_alt s n c ln lc ls local_alt)
  have lo: "local_code (?R ci)" for ci
    by (intro ln lc ls local_alt)
  have main: "emission (\<lambda>e. case add_set rx_cont False e of (k, e) \<Rightarrow> ?F k e)
      (\<lambda>P T a b. \<exists>k<length T. T ! k = (rx_cont, False) \<and> ?R k P T a b)"
    by (rule emission_add_set [OF em lo])
  have shape: "utf8_seg P T A a b" if "k < length T" "T ! k = (rx_cont, False)" "?R k P T a b" for k P T a b
  proof -
    from that(3) have b: "b = a + 16"
      by (auto simp: alt_seg_def)
    show ?thesis using that b
      by (simp add: utf8_seg_def alt_seg_def class_at_def eval_nat_numeral)
  qed
  show ?thesis
    unfolding emit_utf8_as_alts [abs_def]
    by (rule emission_mono [OF main]) (use shape in blast)
qed

lemma local_utf8: "local_code (\<lambda>P T. utf8_seg P T A)"
  using local_seg [of "N_CLASS ({0..255} - A) True"] unfolding local_code_def utf8_seg_def
  by (auto intro: at_cong class_at_cong)

text \<open>Repetition.\<close>

lemma local_copies:
  assumes "local_code R"
  shows "local_code (\<lambda>P T. copies_seg (R P T) k)"
proof (induction k)
  case 0
  show ?case using local_one(5) by simp
next
  case (Suc k)
  from local_seq [OF assms Suc] show ?case by simp
qed

lemma emission_copies:
  assumes "emission F R" "local_code R"
  shows "emission (\<lambda>e. if e_over e then e else emit_copies F k e) (\<lambda>P T. copies_seg (R P T) k)"
proof (induction k)
  case 0
  show ?case using emission_id by (simp cong: if_cong)
next
  case (Suc k)
  have "emission (\<lambda>e. (\<lambda>e. if e_over e then e else emit_copies F k e) (F e))
      (\<lambda>P T a b. \<exists>m. R P T a m \<and> copies_seg (R P T) k m b)"
    by (rule emission_seq [OF assms Suc])
  then have "emission (\<lambda>e. if e_over e then e else (if e_over (F e) then F e else emit_copies F k (F e)))
      (\<lambda>P T a b. \<exists>m. R P T a m \<and> copies_seg (R P T) k m b)"
    by (rule emission_guard)
  then show ?case by (simp add: Let_def cong: if_cong)
qed

lemma emission_star:
  assumes F: "emission F R" "local_code R"
  shows "emission (emit_star F greedy) (\<lambda>P T. star_seg P (R P T) greedy)"
  unfolding emission_def
proof (intro allI impI conjI)
  fix e assume e: "e_n e \<le> RX_MAX_PROG"
  obtain sp e1 where em1: "emit I_SPLIT e = (sp, e1)" by (cases "emit I_SPLIT e")
  define e3 where "e3 = F e1"
  obtain jp e4 where em2: "emit I_JMP e3 = (jp, e4)" by (cases "emit I_JMP e3")
  define e5 where "e5 = set_x jp sp e4"
  define e6 where "e6 = (if greedy then set_y sp (e_n e5) (set_x sp (e_n e1) e5)
    else set_y sp (e_n e1) (set_x sp (e_n e5) e5))"
  have r: "emit_star F greedy e = (if e_over e5 then e5 else e6)"
    by (simp only: emit_star_def em1 Let_def prod.case e3_def [symmetric] em2 e5_def [symmetric] e6_def split: if_split)
  note f = emissionD [OF F(1) emit_ok(1) [OF em1 e], folded e3_def]
  have b5: "e_n e5 \<le> RX_MAX_PROG" using emit_ok(1) [OF em2 f(1)] by (simp add: e5_def)
  then show "e_n (emit_star F greedy e) \<le> RX_MAX_PROG" by (simp add: r e6_def)
  have ov: "e_over e \<Longrightarrow> e_over e1" "e_over e1 \<Longrightarrow> e_over e3" "e_over e3 \<Longrightarrow> e_over e4"
    using emit_ok(2) [OF em1] f(2) emit_ok(2) [OF em2] by simp_all
  then show "e_over e \<Longrightarrow> e_over (emit_star F greedy e)" by (simp add: r e5_def)
  assume "\<not> e_over (emit_star F greedy e)"
  then have no: "\<not> e_over e1" "\<not> e_over e3" "\<not> e_over e4" using ov by (auto simp: r e5_def split: if_splits)
  then have r: "emit_star F greedy e = e6" by (simp add: r e5_def)
  define a where "a = e_n e"
  define m where "m = e_n e3"
  note o1 = emit_ok(3) [OF em1 no(1)] and o2 = emit_ok(3) [OF em2 no(3)]
  note k3 = f(3) [OF no(2)]
  have n: "e_n e1 = a + 1" "sp = a" "jp = m" "e_n e4 = m + 1" "e_n e5 = m + 1" "a + 1 \<le> m" "e_n e6 = m + 1"
    using o1 o2 k3 by (simp_all add: a_def m_def e5_def e6_def kept_def)
  have p1: "e_prog e1 ! k = (if k = a then inst0 I_SPLIT else e_prog e ! k)" if "k \<le> a" for k
    using that n emit_nth [OF em1 no(1)] by (auto simp: a_def)
  have p3: "e_prog e3 ! k = e_prog e1 ! k" if "k \<le> a" for k
    using k3 that n by (simp add: kept_def)
  have p5: "e_prog e5 ! k = (if k = m then (inst0 I_JMP)\<lparr>in_x := a\<rparr> else e_prog e3 ! k)" if "k \<le> m" for k
    using that n emit_nth [OF em2 no(3)] by (auto simp: e5_def patch_nth m_def)
  define P where "P = e_prog e6"
  have len: "length P = m + 1" using n by (simp add: P_def e_n_def)
  have P: "P ! k = (if k = a then (if greedy then (e_prog e5 ! a)\<lparr>in_x := a + 1, in_y := m + 1\<rparr>
      else (e_prog e5 ! a)\<lparr>in_x := m + 1, in_y := a + 1\<rparr>) else e_prog e5 ! k)" if "k < m + 1" for k
    using that n by (auto simp: P_def e6_def patch_nth)
  have "pref_split_at P greedy a (a + 1) (m + 1)"
    using n P [of a] p5 [of a] p3 [of a] p1 [of a] by (simp add: pref_split_at_def split_at_def op_at_def len)
  moreover have "jmp_at P m a"
    using n P [of m] p5 [of m] by (simp add: jmp_at_def op_at_def len)
  moreover have sets: "e_sets e6 = e_sets e3" "e_sets e1 = e_sets e"
    using o1 o2 by (simp_all add: e6_def e5_def)
  moreover have "same_on (a + 1) m (e_prog e3) P"
    using n P p5 by (auto simp: same_on_def len)
  then have "R P (e_sets e6) (a + 1) m"
    using local_codeD [OF F(2) f(4) [OF no(2)], of P "e_sets e6"] n sets by (simp add: m_def)
  ultimately show "star_seg (e_prog (emit_star F greedy e)) (R (e_prog (emit_star F greedy e)) (e_sets (emit_star F greedy e)))
      greedy (e_n e) (e_n (emit_star F greedy e))"
    using n by (auto simp: star_seg_def P_def r a_def)
  have "P ! k = e_prog e ! k" if "k < a" for k
    using that n P [of k] p5 [of k] p3 [of k] p1 [of k] by simp
  then show "kept (e_n e) e (emit_star F greedy e)"
    using k3 sets n by (simp add: kept_def P_def r a_def)
qed


text \<open>The optional copies: until the last patches, each split has only its preferred branch set.\<close>

definition half_split :: "bool \<Rightarrow> inst \<Rightarrow> nat \<Rightarrow> bool" where
  "half_split greedy i p \<longleftrightarrow> in_op i = I_SPLIT \<and> (if greedy then in_x i = p else in_y i = p)"

primrec half_opts :: "inst list \<Rightarrow> (nat \<Rightarrow> nat \<Rightarrow> bool) \<Rightarrow> bool \<Rightarrow> nat list \<Rightarrow> nat \<Rightarrow> nat \<Rightarrow> bool" where
  "half_opts P R greedy [] a b \<longleftrightarrow> a = b"
| "half_opts P R greedy (s # ss) a b \<longleftrightarrow>
     s = a \<and> (\<exists>m. a < length P \<and> half_split greedy (P ! a) (a + 1) \<and> R (a + 1) m \<and> half_opts P R greedy ss m b)"

definition opt_patch :: "bool \<Rightarrow> nat \<Rightarrow> estate \<Rightarrow> estate" where
  "opt_patch greedy sp e = (if greedy then set_y sp (e_n e) e else set_x sp (e_n e) e)"

lemma opt_patch_simps [simp]:
  "e_n (opt_patch g sp e) = e_n e" "e_over (opt_patch g sp e) = e_over e" "e_sets (opt_patch g sp e) = e_sets e"
  by (simp_all add: opt_patch_def)

lemma fold_opt_patch:
  "e_n (fold (opt_patch g) ss e) = e_n e" "e_over (fold (opt_patch g) ss e) = e_over e"
  "e_sets (fold (opt_patch g) ss e) = e_sets e"
  by (induction ss arbitrary: e) simp_all

lemma fold_opt_patch_nth:
  "k < e_n e \<Longrightarrow> k \<notin> set ss \<Longrightarrow> e_prog (fold (opt_patch g) ss e) ! k = e_prog e ! k"
  by (induction ss arbitrary: e) (auto simp: opt_patch_def patch_nth)

lemma fold_opt_patch_split:
  "k < e_n e \<Longrightarrow> k \<in> set ss \<Longrightarrow> half_split g (e_prog e ! k) p \<Longrightarrow>
   in_op (e_prog (fold (opt_patch g) ss e) ! k) = I_SPLIT \<and>
   (if g then in_x (e_prog (fold (opt_patch g) ss e) ! k) = p \<and> in_y (e_prog (fold (opt_patch g) ss e) ! k) = e_n e
    else in_y (e_prog (fold (opt_patch g) ss e) ! k) = p \<and> in_x (e_prog (fold (opt_patch g) ss e) ! k) = e_n e)"
proof (induction ss arbitrary: e)
  case (Cons s ss)
  let ?e = "opt_patch g s e"
  have h: "half_split g (e_prog ?e ! k) p"
    using Cons.prems by (auto simp: opt_patch_def patch_nth half_split_def)
  show ?case
  proof (cases "k \<in> set ss")
    case True
    with Cons.IH [of ?e] Cons.prems(1) h show ?thesis by (cases g) simp_all
  next
    case False
    with Cons.prems have "k = s" by simp
    have "e_prog (fold (opt_patch g) ss ?e) ! k = e_prog ?e ! k"
      using fold_opt_patch_nth [of k ?e ss g] False Cons.prems(1) by simp
    moreover have "e_prog ?e ! k = (if g then (e_prog e ! k)\<lparr>in_y := e_n e\<rparr> else (e_prog e ! k)\<lparr>in_x := e_n e\<rparr>)"
      using \<open>k = s\<close> Cons.prems(1) by (simp add: opt_patch_def patch_nth)
    ultimately show ?thesis using Cons.prems(3) by (cases g) (simp_all add: half_split_def)
  qed
qed simp

lemma half_opts_splits: "half_opts P R g ss a b \<Longrightarrow> (\<And>a b. R a b \<Longrightarrow> a \<le> b) \<Longrightarrow> a \<le> b \<and> set ss \<subseteq> {a..<b}"
proof (induction ss arbitrary: a)
  case (Cons s ss)
  then obtain m where m: "s = a" "R (a + 1) m" "half_opts P R g ss m b" by auto
  from Cons.IH [OF m(3) Cons.prems(2)] Cons.prems(2) [OF m(2)] m(1) show ?case by auto
qed simp

text \<open>Patching the far branches turns \<^const>\<open>half_opts\<close> into \<^const>\<open>opts_seg\<close>.\<close>

lemma half_opts_patched:
  assumes "half_opts (e_prog e) (R (e_prog e) (e_sets e)) g ss a b" "local_code R" "b \<le> e_n e" "a0 \<le> a"
    "set all \<inter> {a..<b} = set ss"
  shows "opts_seg (e_prog (fold (opt_patch g) all e)) (R (e_prog (fold (opt_patch g) all e)) (e_sets e)) g (length ss) a b (e_n e)"
  using assms(1,3,5)
proof (induction ss arbitrary: a)
  case (Cons s ss)
  let ?P = "e_prog (fold (opt_patch g) all e)"
  from Cons.prems(1) obtain m where m: "s = a" "half_split g (e_prog e ! a) (a + 1)"
    "R (e_prog e) (e_sets e) (a + 1) m" "half_opts (e_prog e) (R (e_prog e) (e_sets e)) g ss m b" by auto
  have le: "a + 1 \<le> m" "m \<le> b" "set ss \<subseteq> {m..<b}"
    using local_code_le [OF assms(2) m(3)] half_opts_splits [OF m(4)] local_code_le [OF assms(2)] by blast+
  have nin: "k \<notin> set all" if "a < k" "k < m" for k
  proof
    assume "k \<in> set all"
    then have "k \<in> set all \<inter> {a..<b}" using that le(2) by simp
    then have "k \<in> set (s # ss)" by (simp only: Cons.prems(3))
    then have "k \<in> set ss" using m(1) that(1) by simp
    with le(3) have "m \<le> k" by (meson atLeastLessThan_iff subsetD)
    with that(2) show False by simp
  qed
  have "a \<in> set all" using Cons.prems(3) m(1) by auto
  then have "pref_split_at ?P g a (a + 1) (e_n e)"
    using fold_opt_patch_split [of a e all g "a + 1"] m(2) le Cons.prems(2) fold_opt_patch(1) [of g all e]
    by (auto simp: pref_split_at_def split_at_def op_at_def e_n_def split: if_splits)
  moreover have "same_on (a + 1) m (e_prog e) ?P"
    using fold_opt_patch_nth [of _ e all g] nin le Cons.prems(2) fold_opt_patch(1) [of g all e]
    by (auto simp: same_on_def e_n_def)
  then have "R ?P (e_sets e) (a + 1) m" using local_codeD [OF assms(2) m(3)] by simp
  moreover have "opts_seg ?P (R ?P (e_sets e)) g (length ss) m b (e_n e)"
  proof (rule Cons.IH [OF m(4) Cons.prems(2)])
    have "set all \<inter> {m..<b} = set all \<inter> {a..<b} \<inter> {m..<b}" using le by auto
    also have "\<dots> = insert a (set ss) \<inter> {m..<b}" using Cons.prems(3) m(1) by simp
    also have "\<dots> = set ss" using le by auto
    finally show "set all \<inter> {m..<b} = set ss" .
  qed
  ultimately show ?case by auto
qed simp

lemma half_opts_append:
  "half_opts P R g ss a m \<Longrightarrow> half_opts P R g tt m b \<Longrightarrow> half_opts P R g (ss @ tt) a b"
  by (induction ss arbitrary: a) auto

lemma half_opts_kept:
  "half_opts P (R P T) g ss a b \<Longrightarrow> local_code R \<Longrightarrow> same_on a b P Q \<Longrightarrow> prefix T T' \<Longrightarrow> half_opts Q (R Q T') g ss a b"
proof (induction ss arbitrary: a)
  case (Cons s ss)
  then obtain m where m: "s = a" "a < length P" "half_split g (P ! a) (a + 1)" "R P T (a + 1) m" "half_opts P (R P T) g ss m b"
    by auto
  have le: "a + 1 \<le> m" "m \<le> b"
    using local_code_le [OF Cons.prems(2) m(4)] half_opts_splits [OF m(5)] local_code_le [OF Cons.prems(2)] by blast+
  have "a < length Q" "Q ! a = P ! a" using Cons.prems(3) m(2) le by (auto simp: same_on_def)
  moreover have "R Q T' (a + 1) m"
    using local_codeD [OF Cons.prems(2) m(4) same_on_sub [OF Cons.prems(3)]] Cons.prems(4) le by auto
  moreover have "half_opts Q (R Q T') g ss m b"
    using Cons.IH [OF m(5) Cons.prems(2) same_on_sub [OF Cons.prems(3)] Cons.prems(4)] le by auto
  ultimately show ?case using m by auto
qed simp


lemma emit_opts_ok:
  assumes F: "emission F R" "local_code R"
  shows "e_n e \<le> RX_MAX_PROG \<Longrightarrow> emit_opts F g k splits e = (ss, e') \<Longrightarrow>
    e_n e' \<le> RX_MAX_PROG \<and> (e_over e \<longrightarrow> e_over e') \<and>
    (\<not> e_over e' \<longrightarrow> kept (e_n e) e e' \<and>
      (\<exists>tt. length tt = k \<and> ss = splits @ tt \<and> half_opts (e_prog e') (R (e_prog e') (e_sets e')) g tt (e_n e) (e_n e')))"
proof (induction k arbitrary: splits e)
  case 0
  then show ?case by (auto simp: kept_def)
next
  case (Suc k)
  obtain sp e1 where em: "emit I_SPLIT e = (sp, e1)" by (cases "emit I_SPLIT e")
  define e2 where "e2 = F e1"
  define e3 where "e3 = (if g then set_x sp (e_n e1) e2 else set_y sp (e_n e1) e2)"
  note f = emissionD [OF F(1) emit_ok(1) [OF em Suc.prems(1)], folded e2_def]
  have eq: "(if e_over e2 then (splits, e2) else emit_opts F g k (splits @ [sp]) e3) = (ss, e')"
    using Suc.prems(2) by (simp only: emit_opts.simps em Let_def prod.case e2_def e3_def)
  have ov: "e_over e \<Longrightarrow> e_over e2" using emit_ok(2) [OF em] f(2) by blast
  show ?case
  proof (cases "e_over e2")
    case True
    with eq f(1) show ?thesis by simp
  next
    case no: False
    have n3: "e_n e3 = e_n e2" "e_over e3 = e_over e2" "e_sets e3 = e_sets e2" by (simp_all add: e3_def)
    from eq no have eq: "emit_opts F g k (splits @ [sp]) e3 = (ss, e')" by simp
    have "e_n e3 \<le> RX_MAX_PROG" using f(1) n3 by simp
    note ih = Suc.IH [OF this eq]
    show ?thesis
    proof (cases "e_over e'")
      case True
      with ih ov no show ?thesis by simp
    next
      case no': False
      have no1: "\<not> e_over e1" using f(2) no by blast
      note o1 = emit_ok(3) [OF em no1]
      note k2 = f(3) [OF no]
      define a where "a = e_n e"
      define m where "m = e_n e2"
      have n: "e_n e1 = a + 1" "sp = a" "a + 1 \<le> m" "e_n e3 = m" using o1 k2 n3 by (simp_all add: a_def m_def kept_def)
      from ih no' obtain tt where t: "kept m e3 e'" "length tt = k" "ss = (splits @ [sp]) @ tt"
        "half_opts (e_prog e') (R (e_prog e') (e_sets e')) g tt m (e_n e')"
        by (auto simp: n(4))
      have k3: "kept a e e3"
        using kept_trans [OF kept_emit [OF em no1, of a] kept_trans [OF kept_mono [OF k2, of a] ]] kept_patch [of a sp e2] n
        by (auto simp: e3_def a_def m_def)
      have p2: "e_prog e2 ! a = inst0 I_SPLIT"
        using k2 n emit_nth(2) [OF em no1] by (simp add: kept_def a_def)
      have "half_split g (e_prog e3 ! a) (a + 1)"
        using p2 n m_def by (auto simp: e3_def patch_nth half_split_def)
      moreover have "e_prog e' ! a = e_prog e3 ! a" "m \<le> e_n e'" using t(1) n by (simp_all add: kept_def)
      moreover have "R (e_prog e') (e_sets e') (a + 1) m"
      proof -
        have "R (e_prog e3) (e_sets e3) (a + 1) m"
          unfolding e3_def using patch_code [OF F(2) f(4) [OF no], of sp] n by (auto simp: m_def)
        then show ?thesis using kept_code [OF F(2) _ t(1)] n by simp
      qed
      ultimately have "half_opts (e_prog e') (R (e_prog e') (e_sets e')) g (sp # tt) a (e_n e')"
        using t(4) n by (auto simp: e_n_def)
      moreover have "kept a e e'" using kept_trans [OF k3 kept_mono [OF t(1)]] n by simp
      moreover have "length (sp # tt) = Suc k \<and> ss = splits @ sp # tt" using t by simp
      ultimately show ?thesis using ih no' ov no unfolding a_def by blast
    qed
  qed
qed

lemma emit_rep_fold:
  "(\<lambda>sp e. if g then set_y sp (e_n e) e else set_x sp (e_n e) e) = opt_patch g"
  by (simp add: opt_patch_def fun_eq_iff)

lemma emission_opts:
  assumes F: "emission F R" "local_code R"
  shows "emission (\<lambda>e. case emit_opts F g k [] e of (ss, e) \<Rightarrow> if e_over e then e else fold (opt_patch g) ss e)
     (\<lambda>P T a b. opts_seg P (R P T) g k a b b)"
  unfolding emission_def
proof (intro allI impI conjI)
  fix e assume e: "e_n e \<le> RX_MAX_PROG"
  obtain ss e' where em: "emit_opts F g k [] e = (ss, e')" by (cases "emit_opts F g k [] e")
  note ok = emit_opts_ok [OF F e em]
  define r where "r = (case emit_opts F g k [] e of (ss, e) \<Rightarrow> if e_over e then e else fold (opt_patch g) ss e)"
  have r: "r = (if e_over e' then e' else fold (opt_patch g) ss e')" by (simp add: r_def em)
  show "e_n (case emit_opts F g k [] e of (ss, e) \<Rightarrow> if e_over e then e else fold (opt_patch g) ss e) \<le> RX_MAX_PROG"
    using ok r fold_opt_patch(1) [of g ss e'] by (simp add: r_def [symmetric])
  show "e_over e \<Longrightarrow> e_over (case emit_opts F g k [] e of (ss, e) \<Rightarrow> if e_over e then e else fold (opt_patch g) ss e)"
    using ok r by (simp add: r_def [symmetric])
  assume "\<not> e_over (case emit_opts F g k [] e of (ss, e) \<Rightarrow> if e_over e then e else fold (opt_patch g) ss e)"
  then have no: "\<not> e_over e'" using r fold_opt_patch(2) [of g ss e'] by (simp add: r_def [symmetric] split: if_splits)
  then have r: "r = fold (opt_patch g) ss e'" using r by simp
  from ok no have k: "kept (e_n e) e e'" "length ss = k"
    and h: "half_opts (e_prog e') (R (e_prog e') (e_sets e')) g ss (e_n e) (e_n e')" by auto
  have s: "set ss \<subseteq> {e_n e..<e_n e'}" using half_opts_splits [OF h] local_code_le [OF F(2)] by blast
  have "opts_seg (e_prog r) (R (e_prog r) (e_sets e')) g (length ss) (e_n e) (e_n e') (e_n e')"
    unfolding r by (rule half_opts_patched [OF h F(2) order_refl order_refl]) (use s in blast)
  then show "opts_seg (e_prog (case emit_opts F g k [] e of (ss, e) \<Rightarrow> if e_over e then e else fold (opt_patch g) ss e))
      (R (e_prog (case emit_opts F g k [] e of (ss, e) \<Rightarrow> if e_over e then e else fold (opt_patch g) ss e))
         (e_sets (case emit_opts F g k [] e of (ss, e) \<Rightarrow> if e_over e then e else fold (opt_patch g) ss e))) g k (e_n e)
      (e_n (case emit_opts F g k [] e of (ss, e) \<Rightarrow> if e_over e then e else fold (opt_patch g) ss e))
      (e_n (case emit_opts F g k [] e of (ss, e) \<Rightarrow> if e_over e then e else fold (opt_patch g) ss e))"
    unfolding r_def [symmetric] using k(2) by (simp add: r fold_opt_patch)
  have "e_prog r ! i = e_prog e' ! i" if "i < e_n e" for i
    unfolding r using s that k(1) by (intro fold_opt_patch_nth) (auto simp: kept_def)
  then show "kept (e_n e) e (case emit_opts F g k [] e of (ss, e) \<Rightarrow> if e_over e then e else fold (opt_patch g) ss e)"
    unfolding r_def [symmetric] using k(1) by (simp add: kept_def r fold_opt_patch)
qed

lemma emission_after:
  assumes "emission (\<lambda>e. G (F e)) R" "\<And>e. e_n e \<le> RX_MAX_PROG \<Longrightarrow> e_n (F e) \<le> RX_MAX_PROG \<and> (e_over e \<longrightarrow> e_over (F e))"
  shows "emission (\<lambda>e. if e_over (F e) then F e else G (F e)) R"
  using assms by (auto simp: emission_def)

lemma emission_rep:
  assumes F: "emission F R" "local_code R"
  shows "emission (\<lambda>e. if e_over e then e else emit_rep F lo hi g e)
     (\<lambda>P T a b. \<exists>m. copies_seg (R P T) lo a m \<and>
        (if hi < 0 then star_seg P (R P T) g m b else opts_seg P (R P T) g (nat (hi - int lo)) m b b))"
proof -
  define G where "G = (\<lambda>e. if hi < 0 then emit_star F g e
      else case emit_opts F g (nat (hi - int lo)) [] e of (ss, e) \<Rightarrow> if e_over e then e else fold (opt_patch g) ss e)"
  define C where "C = (\<lambda>e. if e_over e then e else emit_copies F lo e)"
  have C: "emission C (\<lambda>P T. copies_seg (R P T) lo)" unfolding C_def by (rule emission_copies [OF F])
  have "emission G (\<lambda>P T m b. if hi < 0 then star_seg P (R P T) g m b else opts_seg P (R P T) g (nat (hi - int lo)) m b b)"
    unfolding G_def using emission_star [OF F] emission_opts [OF F] by (cases "hi < 0") simp_all
  note seq = emission_seq [OF C local_copies [OF F(2)] this]
  have eq: "(\<lambda>e. if e_over e then e else emit_rep F lo hi g e) = (\<lambda>e. if e_over e then e else if e_over (C e) then C e else G (C e))"
    unfolding emit_rep_def emit_rep_fold C_def G_def Let_def by (auto simp: fun_eq_iff)
  show ?thesis
    unfolding eq
    by (rule emission_guard, rule emission_after [of G C, OF seq]) (use emissionD [OF C] in blast)
qed

lemma emission_id': "emission (\<lambda>e. e) (\<lambda>P T a b. b = a)"
  by (rule emission_mono [OF emission_id]) simp

theorem emission_body: "emission (emit_body n) (\<lambda>P T. seg P T n)"
proof (induction n)
  case (N_EMPTY bol eol)
  have "emission (\<lambda>e. if bol then snd (emit I_BOL e) else e) (\<lambda>P T a m. if bol then op_at P a I_BOL \<and> m = a + 1 else m = a)"
    using emission_plain [of I_BOL] emission_id' by (cases bol) simp_all
  moreover have "emission (\<lambda>e. if eol then snd (emit I_EOL e) else e) (\<lambda>P T m b. if eol then op_at P m I_EOL \<and> b = m + 1 else b = m)"
    using emission_plain [of I_EOL] emission_id' by (cases eol) simp_all
  moreover have "local_code (\<lambda>P T a m. if bol then op_at P a I_BOL \<and> m = a + 1 else m = a)"
    using local_one(1) local_one(5) by (cases bol) (simp_all add: local_code_def)
  ultimately have "emission (\<lambda>e. (\<lambda>e. if eol then snd (emit I_EOL e) else e) ((\<lambda>e. if bol then snd (emit I_BOL e) else e) e))
      (\<lambda>P T a b. \<exists>m. (if bol then op_at P a I_BOL \<and> m = a + 1 else m = a) \<and> (if eol then op_at P m I_EOL \<and> b = m + 1 else b = m))"
    by (intro emission_seq)
  from emission_guard [OF this] show ?case unfolding emit_body.simps seg.simps Let_def .
next
  case (N_CHAR c)
  from emission_guard [OF emission_char] show ?case by simp
next
  case N_ANY
  from emission_guard [OF emission_utf8] show ?case by simp
next
  case (N_CLASS S neg)
  show ?case
    using emission_guard [OF emission_utf8 [of "({0..255} - S) - {128..255}"]] emission_guard [OF emission_set_class [of S]]
    unfolding emit_body.simps seg.simps
    by (cases neg) (simp_all only: if_True if_False not_True_eq_False not_False_eq_True)
next
  case (N_CAT l r)
  from emission_guard [OF emission_seq [OF N_CAT.IH(1) local_seg N_CAT.IH(2)]] show ?case by simp
next
  case (N_ALT l r)
  from emission_guard [OF emission_alt [OF N_ALT.IH(1) local_seg N_ALT.IH(2) local_seg]] show ?case
    unfolding emit_body.simps seg.simps emit_alt_def alt_seg_def .
next
  case (N_REP n lo hi g)
  from emission_rep [OF N_REP.IH local_seg] show ?case by simp
next
  case (N_GROUP n g)
  show ?case
  proof (cases "g < 0")
    case True
    from emission_guard [OF N_GROUP.IH] show ?thesis
      unfolding emit_body.simps seg.simps by (simp only: True if_True)
  next
    case False
    have "emission (\<lambda>e. emit_save (2 * nat g + 1) (emit_body n (emit_save (2 * nat g) e)))
       (\<lambda>P T a b. \<exists>m. (\<exists>m'. (save_at P a (2 * nat g) \<and> m' = a + 1) \<and> seg P T n m' m) \<and> save_at P m (2 * nat g + 1) \<and> b = m + 1)"
      by (rule emission_seq [OF emission_seq [OF emission_save local_one(2) N_GROUP.IH] local_seq [OF local_one(2) local_seg] emission_save])
    from emission_guard [OF emission_mono [OF this]] False show ?thesis
      by (auto cong: if_cong)
  qed
qed


subsection \<open>Compilation (vl\_regex\_compile)\<close>

record regex =
  rx_prog :: "inst list"
  rx_sets :: "(nat set \<times> bool) list"
  rx_ngroups :: nat
  rx_src :: string
  rx_names :: "string option list option"

text \<open>The message is formatted into 512 bytes with \<^verbatim>\<open>%s\<close>, which stops at a NUL.\<close>

definition rx_error :: "string \<Rightarrow> string \<Rightarrow> exn" where
  "rx_error why pat = Throw ''ValueError'' (take 511 (''regex: '' @ why @ '' in /'' @ c_text pat @ ''/''))"

definition rx_emit :: "rx \<Rightarrow> estate" where
  "rx_emit tree =
     snd (emit I_MATCH (emit_save 1 (emit_body tree (emit_save 0 \<lparr>e_prog = [], e_sets = [], e_over = False\<rparr>))))"

text \<open>The name array of a compiled regex: absent when no group is named.\<close>

definition names_array :: "nat \<Rightarrow> string option list \<Rightarrow> string option list option" where
  "names_array ng names =
     (if \<exists>g \<in> {1..ng}. names ! g \<noteq> None
      then Some (None # map (\<lambda>g. names ! g) [1..<Suc ng]) else None)"

definition vl_regex_compile :: "string \<Rightarrow> regex result option" where
  "vl_regex_compile pat =
     (case rx_parse pat of
        None \<Rightarrow> None
      | Some (tree, ps) \<Rightarrow>
          (case p_err ps of
             Some why \<Rightarrow> Some (Inl (rx_error why pat))
           | None \<Rightarrow>
               (let e = rx_emit tree in
                if e_over e then Some (Inl (rx_error ''pattern is too large after expanding repetition'' pat))
                else Some (Inr \<lparr>rx_prog = e_prog e, rx_sets = e_sets e, rx_ngroups = p_ngroups ps,
                                rx_src = pat, rx_names = names_array (p_ngroups ps) (p_names ps)\<rparr>))))"

text \<open>A whole program: the tree bracketed by the slots of the match, then \<^const>\<open>I_MATCH\<close>.\<close>

definition program_of :: "inst list \<Rightarrow> (nat set \<times> bool) list \<Rightarrow> rx \<Rightarrow> bool" where
  "program_of P T n \<longleftrightarrow>
     (\<exists>m. save_at P 0 0 \<and> seg P T n 1 m \<and> save_at P m 1 \<and> op_at P (m + 1) I_MATCH \<and> length P = m + 2)"

definition ncap_of :: "regex \<Rightarrow> nat" where
  "ncap_of r = 2 * (rx_ngroups r + 1)"

text \<open>What the virtual machine relies on: every successor is in the program, no jump leads back to
  the first instruction, only the last instruction accepts, capture slots and class indices are in range, and slot 0 is written by the first
  instruction only.\<close>

definition inst_ok :: "inst list \<Rightarrow> (nat set \<times> bool) list \<Rightarrow> nat \<Rightarrow> nat \<Rightarrow> bool" where
  "inst_ok P T nc pc \<longleftrightarrow>
     (case in_op (P ! pc) of
        I_JMP \<Rightarrow> 0 < in_x (P ! pc) \<and> in_x (P ! pc) < length P
      | I_SPLIT \<Rightarrow> 0 < in_x (P ! pc) \<and> in_x (P ! pc) < length P \<and> 0 < in_y (P ! pc) \<and> in_y (P ! pc) < length P
      | I_SAVE \<Rightarrow> pc + 1 < length P \<and> in_x (P ! pc) < nc \<and> (in_x (P ! pc) = 0 \<longleftrightarrow> pc = 0)
      | I_CLASS \<Rightarrow> pc + 1 < length P \<and> in_cls (P ! pc) < length T
      | I_MATCH \<Rightarrow> pc + 1 = length P
      | I_ANY \<Rightarrow> False
      | _ \<Rightarrow> pc + 1 < length P)"

definition prog_ok :: "inst list \<Rightarrow> (nat set \<times> bool) list \<Rightarrow> nat \<Rightarrow> bool" where
  "prog_ok P T nc \<longleftrightarrow> save_at P 0 0 \<and> 0 < nc \<and> (\<forall>pc < length P. inst_ok P T nc pc)"

lemma inst_ok_at:
  "op_at P a I_BOL \<Longrightarrow> a + 1 < length P \<Longrightarrow> inst_ok P T nc a"
  "op_at P a I_EOL \<Longrightarrow> a + 1 < length P \<Longrightarrow> inst_ok P T nc a"
  "op_at P a I_MATCH \<Longrightarrow> a + 1 = length P \<Longrightarrow> inst_ok P T nc a"
  "char_at P a c \<Longrightarrow> a + 1 < length P \<Longrightarrow> inst_ok P T nc a"
  "class_at P T a S \<Longrightarrow> a + 1 < length P \<Longrightarrow> inst_ok P T nc a"
  "jmp_at P a x \<Longrightarrow> 0 < x \<Longrightarrow> x < length P \<Longrightarrow> inst_ok P T nc a"
  "split_at P a x y \<Longrightarrow> 0 < x \<Longrightarrow> x < length P \<Longrightarrow> 0 < y \<Longrightarrow> y < length P \<Longrightarrow> inst_ok P T nc a"
  "pref_split_at P g a x y \<Longrightarrow> 0 < x \<Longrightarrow> x < length P \<Longrightarrow> 0 < y \<Longrightarrow> y < length P \<Longrightarrow> inst_ok P T nc a"
  "save_at P a x \<Longrightarrow> a + 1 < length P \<Longrightarrow> x < nc \<Longrightarrow> (x = 0 \<longleftrightarrow> a = 0) \<Longrightarrow> inst_ok P T nc a"
  by (auto simp: inst_ok_def op_at_def char_at_def class_at_def jmp_at_def split_at_def pref_split_at_def save_at_def
      split: if_splits)

definition code_ok :: "inst list \<Rightarrow> (nat set \<times> bool) list \<Rightarrow> nat \<Rightarrow> nat \<Rightarrow> nat \<Rightarrow> bool" where
  "code_ok P T nc a b \<longleftrightarrow> (\<forall>pc \<in> {a..<b}. inst_ok P T nc pc)"

lemma code_ok_empty [simp]: "code_ok P T nc a a"
  by (simp add: code_ok_def)

lemma code_ok_one: "inst_ok P T nc a \<Longrightarrow> code_ok P T nc a (a + 1)"
  unfolding code_ok_def by (auto simp: less_Suc_eq_le dest: le_antisym)

lemma code_ok_join: "code_ok P T nc a m \<Longrightarrow> code_ok P T nc m b \<Longrightarrow> code_ok P T nc a b"
  unfolding code_ok_def by (metis atLeastLessThan_iff not_le)

lemma utf8_code_ok:
  assumes "utf8_seg P T A a b" "0 < a" "b < length P"
  shows "code_ok P T nc a b"
proof -
  have "inst_ok P T nc (a + k)" if "k < 16" for k
  proof -
    have "k = 0 \<or> k = 1 \<or> k = 2 \<or> k = 3 \<or> k = 4 \<or> k = 5 \<or> k = 6 \<or> k = 7 \<or> k = 8 \<or> k = 9 \<or> k = 10 \<or>
      k = 11 \<or> k = 12 \<or> k = 13 \<or> k = 14 \<or> k = 15" using that by presburger
    then show ?thesis
      using assms unfolding utf8_seg_def
      by (elim disjE) (auto intro: inst_ok_at)
  qed
  then show ?thesis
    using assms(1) by (auto simp: code_ok_def utf8_seg_def) (metis le_add_diff_inverse nat_add_left_cancel_less)
qed

lemma copies_code_ok:
  "copies_seg R k a b \<Longrightarrow> (\<And>a b. R a b \<Longrightarrow> a \<le> b) \<Longrightarrow> 0 < a \<Longrightarrow> b < length P \<Longrightarrow>
   (\<And>a b. R a b \<Longrightarrow> 0 < a \<Longrightarrow> b < length P \<Longrightarrow> code_ok P T nc a b) \<Longrightarrow> code_ok P T nc a b"
proof (induction k arbitrary: a)
  case (Suc k)
  then obtain m where m: "R a m" "copies_seg R k m b" by auto
  have le: "a \<le> m" "m \<le> b" using Suc.prems(2) m(1) copies_seg_le [OF m(2)] by blast+
  have "code_ok P T nc m b" using Suc.IH [OF m(2) Suc.prems(2)] Suc.prems(3-5) le by simp
  then show ?case using Suc.prems(3-5) m(1) le by (intro code_ok_join [of _ _ _ a m b]) simp_all
qed simp

lemma opts_code_ok:
  "opts_seg P R g k a b z \<Longrightarrow> (\<And>a b. R a b \<Longrightarrow> a \<le> b) \<Longrightarrow> 0 < a \<Longrightarrow> b < length P \<Longrightarrow> 0 < z \<Longrightarrow> z < length P \<Longrightarrow>
   (\<And>a b. R a b \<Longrightarrow> 0 < a \<Longrightarrow> b < length P \<Longrightarrow> code_ok P T nc a b) \<Longrightarrow> code_ok P T nc a b"
proof (induction k arbitrary: a)
  case (Suc k)
  then obtain m where m: "pref_split_at P g a (a + 1) z" "R (a + 1) m" "opts_seg P R g k m b z" by auto
  have le: "a + 1 \<le> m" "m \<le> b" using Suc.prems(2) m(2) opts_seg_le [OF m(3)] by blast+
  have "code_ok P T nc m b" using Suc.IH [OF m(3) Suc.prems(2)] Suc.prems(3-7) le by simp
  moreover have "code_ok P T nc (a + 1) m" using Suc.prems(4,7) m(2) le by simp
  moreover have "code_ok P T nc a (a + 1)"
    using code_ok_one [OF inst_ok_at(8) [OF m(1)]] Suc.prems(3-6) le by simp
  ultimately show ?case by (blast intro: code_ok_join)
qed simp

lemma seg_code_ok:
  "seg P T n a b \<Longrightarrow> 0 < a \<Longrightarrow> b < length P \<Longrightarrow> \<forall>g \<in> set (rx_groups n). 0 < g \<and> 2 * g + 1 < nc \<Longrightarrow> code_ok P T nc a b"
proof (induction n arbitrary: a b)
  case (N_EMPTY bol eol)
  then obtain m where m: "if bol then op_at P a I_BOL \<and> m = a + 1 else m = a"
    "if eol then op_at P m I_EOL \<and> b = m + 1 else b = m" by auto
  have "code_ok P T nc a m" "code_ok P T nc m b"
    using m code_ok_one inst_ok_at(1,2) N_EMPTY.prems(3) by (auto split: if_splits)
  then show ?case by (rule code_ok_join)
next
  case (N_CHAR c)
  then show ?case using code_ok_one [OF inst_ok_at(4)] by auto
next
  case N_ANY
  then show ?case using utf8_code_ok by simp
next
  case (N_CLASS S neg)
  then show ?case using utf8_code_ok code_ok_one [of P T nc a] inst_ok_at(5) by (auto split: if_splits)
next
  case (N_CAT l r)
  then obtain m where m: "seg P T l a m" "seg P T r m b" by auto
  note le = seg_le [OF m(1)] seg_le [OF m(2)]
  have "code_ok P T nc a m" "code_ok P T nc m b" using N_CAT.IH m N_CAT.prems le by auto
  then show ?case by (rule code_ok_join)
next
  case (N_ALT l r)
  then obtain m where m: "split_at P a (a + 1) (m + 1)" "seg P T l (a + 1) m" "jmp_at P m b" "seg P T r (m + 1) b" by auto
  note le = seg_le [OF m(2)] seg_le [OF m(4)]
  have "code_ok P T nc (a + 1) m" "code_ok P T nc (m + 1) b" using N_ALT.IH m N_ALT.prems le by auto
  moreover have "code_ok P T nc a (a + 1)" "code_ok P T nc m (m + 1)"
    using code_ok_one [OF inst_ok_at(7) [OF m(1)]] code_ok_one [OF inst_ok_at(6) [OF m(3)]] N_ALT.prems le by auto
  ultimately show ?case by (blast intro: code_ok_join)
next
  case (N_REP n lo hi g)
  then obtain m where m: "copies_seg (seg P T n) lo a m"
    "if hi < 0 then star_seg P (seg P T n) g m b else opts_seg P (seg P T n) g (nat (hi - int lo)) m b b" by auto
  have le: "a \<le> m" "m \<le> b"
    using copies_seg_le [OF m(1) seg_le] m(2)
    by (cases "hi < 0"; auto intro: star_seg_le [OF _ seg_le] opts_seg_le [OF _ seg_le])+
  have body: "code_ok P T nc i j" if "seg P T n i j" "0 < i" "j < length P" for i j
    using N_REP.IH that N_REP.prems(4) by simp
  have "code_ok P T nc a m"
    by (rule copies_code_ok [OF m(1) seg_le]) (use N_REP.prems le body in auto)
  moreover have "code_ok P T nc m b"
  proof (cases "hi < 0")
    case False
    with m(2) have "opts_seg P (seg P T n) g (nat (hi - int lo)) m b b" by simp
    then show ?thesis by (rule opts_code_ok [OF _ seg_le]) (use N_REP.prems le body in auto)
  next
    case True
    with m(2) obtain k where k: "pref_split_at P g m (m + 1) b" "seg P T n (m + 1) k" "jmp_at P k m" "b = k + 1"
      by (auto simp: star_seg_def)
    have "code_ok P T nc m (m + 1)" "code_ok P T nc (m + 1) k" "code_ok P T nc k b"
      using code_ok_one [OF inst_ok_at(8) [OF k(1)]] code_ok_one [OF inst_ok_at(6) [OF k(3)]] body [OF k(2)]
        N_REP.prems le k(4) seg_le [OF k(2)] by auto
    then show ?thesis by (blast intro: code_ok_join)
  qed
  ultimately show ?case by (rule code_ok_join)
next
  case (N_GROUP n g)
  show ?case
  proof (cases "g < 0")
    case True
    with N_GROUP show ?thesis by simp
  next
    case False
    with N_GROUP.prems obtain m where m: "save_at P a (2 * nat g)" "seg P T n (a + 1) m" "save_at P m (2 * nat g + 1)" "b = m + 1"
      by auto
    note le = seg_le [OF m(2)]
    have g: "0 < nat g" "2 * nat g + 1 < nc" using N_GROUP.prems(4) False by auto
    have "code_ok P T nc (a + 1) m" using N_GROUP.IH [OF m(2)] N_GROUP.prems m(4) le False by auto
    moreover have "code_ok P T nc a (a + 1)" "code_ok P T nc m (m + 1)"
      using code_ok_one [OF inst_ok_at(9) [OF m(1)]] code_ok_one [OF inst_ok_at(9) [OF m(3)]] N_GROUP.prems g m(4) le by auto
    ultimately show ?thesis unfolding m(4) by (blast intro: code_ok_join)
  qed
qed

text \<open>The compiler as a whole: it returns for every pattern; a regex it returns holds the program of
  a tree whose groups are numbered \<open>1..ngroups\<close>, at most 20000 instructions long, and safe to run.\<close>

definition compiled :: "regex \<Rightarrow> rx \<Rightarrow> bool" where
  "compiled r n \<longleftrightarrow> program_of (rx_prog r) (rx_sets r) n \<and> prog_ok (rx_prog r) (rx_sets r) (ncap_of r) \<and>
     length (rx_prog r) \<le> RX_MAX_PROG \<and> rx_wf n \<and> rx_nest n \<le> RX_MAX_DEPTH \<and>
     rx_groups n = [1..<Suc (rx_ngroups r)] \<and> rx_ngroups r < RX_MAX_GROUPS"

lemma emission_program:
  "emission (\<lambda>e. snd (emit I_MATCH (emit_save 1 (emit_body n (emit_save 0 e)))))
     (\<lambda>P T a b. \<exists>m. save_at P a 0 \<and> seg P T n (a + 1) m \<and> save_at P m 1 \<and> op_at P (m + 1) I_MATCH \<and> b = m + 2)"
  by (rule emission_mono [OF emission_seq [OF emission_seq [OF emission_seq [OF emission_save local_one(2) emission_body]
        local_seq [OF local_one(2) local_seg] emission_save]
      local_seq [OF local_seq [OF local_one(2) local_seg] local_one(2)] emission_plain]]) auto

lemma rx_emit_program:
  assumes "\<not> e_over (rx_emit n)"
  shows "program_of (e_prog (rx_emit n)) (e_sets (rx_emit n)) n" "length (e_prog (rx_emit n)) \<le> RX_MAX_PROG"
proof -
  let ?e0 = "\<lparr>e_prog = [], e_sets = [], e_over = False\<rparr>"
  have "e_n ?e0 \<le> RX_MAX_PROG" by (simp add: e_n_def)
  note d = emissionD [OF emission_program [of n] this, folded rx_emit_def]
  show "program_of (e_prog (rx_emit n)) (e_sets (rx_emit n)) n"
    using d(4) assms by (auto simp: program_of_def e_n_def)
  show "length (e_prog (rx_emit n)) \<le> RX_MAX_PROG" using d(1) by (simp add: e_n_def)
qed

lemma program_prog_ok:
  assumes "program_of P T n" "\<forall>g \<in> set (rx_groups n). 0 < g \<and> 2 * g + 1 < nc" "2 \<le> nc"
  shows "prog_ok P T nc"
proof -
  obtain m where m: "save_at P 0 0" "seg P T n 1 m" "save_at P m 1" "op_at P (m + 1) I_MATCH" "length P = m + 2"
    using assms(1) by (auto simp: program_of_def)
  have le: "1 \<le> m" using seg_le [OF m(2)] .
  have c: "code_ok P T nc 1 m" using seg_code_ok [OF m(2)] m(5) assms(2) by simp
  have ok: "inst_ok P T nc 0" "inst_ok P T nc m" "inst_ok P T nc (m + 1)"
    using inst_ok_at(9) [OF m(1)] inst_ok_at(9) [OF m(3)] inst_ok_at(3) [OF m(4)] m(5) assms(3) le by auto
  have "inst_ok P T nc pc" if pc: "pc < length P" for pc
  proof -
    consider "pc = 0" | "1 \<le> pc" "pc < m" | "pc = m" | "pc = m + 1" using pc m(5) by linarith
    then show ?thesis using ok c by cases (auto simp: code_ok_def)
  qed
  then show ?thesis using m(1) assms(3) by (auto simp: prog_ok_def)
qed

theorem compile_returns:
  "\<exists>res. vl_regex_compile pat = Some res \<and>
     (case res of
        Inl e \<Rightarrow> \<exists>why. e = rx_error why pat
      | Inr r \<Rightarrow> rx_src r = pat \<and> (\<exists>n ps. rx_parse pat = Some (n, ps) \<and> compiled r n))"
proof -
  obtain n ps where p: "rx_parse pat = Some (n, ps)" "p_ngroups ps < RX_MAX_GROUPS"
    "if p_err ps = None then p_rest ps = [] \<and> rx_wf n \<and> rx_groups n = [1..<Suc (p_ngroups ps)] \<and> rx_nest n \<le> RX_MAX_DEPTH
     else True"
    using rx_parse_returns by blast
  show ?thesis
  proof (cases "p_err ps")
    case (Some why)
    then show ?thesis using p by (auto simp: vl_regex_compile_def)
  next
    case None
    show ?thesis
    proof (cases "e_over (rx_emit n)")
      case True
      then show ?thesis using p None by (auto simp: vl_regex_compile_def)
    next
      case False
      define r where "r = \<lparr>rx_prog = e_prog (rx_emit n), rx_sets = e_sets (rx_emit n), rx_ngroups = p_ngroups ps,
                                rx_src = pat, rx_names = names_array (p_ngroups ps) (p_names ps)\<rparr>"
      have v: "vl_regex_compile pat = Some (Inr r)"
        using p(1) None False by (simp add: vl_regex_compile_def Let_def r_def)
      have g: "\<forall>g \<in> set (rx_groups n). 0 < g \<and> 2 * g + 1 < ncap_of r" "2 \<le> ncap_of r"
        using p(3) None by (auto simp: ncap_of_def r_def)
      have "compiled r n"
        using rx_emit_program [OF False] program_prog_ok [OF rx_emit_program(1) [OF False] g] p None
        by (simp add: compiled_def r_def)
      then show ?thesis using v p(1) by (auto simp: r_def)
    qed
  qed
qed

end
