(* ===== verification/RxVm.thy ===== *)
theory RxVm
  imports RxEmit
begin

section \<open>Regular expressions: the virtual machine (regex.c: addthread .. rx\_search)\<close>

text \<open>
  A thread list is the list of its threads in priority order, each with its own capture vector
  (\<^verbatim>\<open>dense\<close>, \<^verbatim>\<open>caps\<close> and \<^verbatim>\<open>pool\<close>), with the visit marks \<^verbatim>\<open>seen\<close> compared against \<^verbatim>\<open>gen\<close>.
  An access outside an array of the machine is \<^const>\<open>None\<close>.  A position is stored in a capture slot
  as a C \<^verbatim>\<open>int\<close>.
\<close>

record tlist =
  t_list :: "(nat \<times> int list) list"
  t_seen :: "nat list"
  t_gen :: nat

definition c_int :: "nat \<Rightarrow> int" where
  "c_int n = signed_take_bit 31 (int n)"

definition set_has :: "(nat set \<times> bool) list \<Rightarrow> nat \<Rightarrow> char \<Rightarrow> bool" where
  "set_has T k c = (case T ! k of (S, neg) \<Rightarrow> if neg then byte_of c \<notin> S else byte_of c \<in> S)"

partial_function (option) addthread ::
    "inst list \<Rightarrow> nat \<Rightarrow> tlist \<Rightarrow> nat \<Rightarrow> int list \<Rightarrow> nat \<Rightarrow> tlist option" where
  "addthread P len l pc cap sp =
     (if pc \<ge> length P \<or> pc \<ge> length (t_seen l) then None
      else if t_seen l ! pc = t_gen l then Some l
      else
        let l = l\<lparr>t_seen := (t_seen l)[pc := t_gen l]\<rparr>; i = P ! pc in
        (case in_op i of
           I_JMP \<Rightarrow> addthread P len l (in_x i) cap sp
         | I_SPLIT \<Rightarrow> Option.bind (addthread P len l (in_x i) cap sp) (\<lambda>l. addthread P len l (in_y i) cap sp)
         | I_SAVE \<Rightarrow>
             if in_x i < length cap then addthread P len l (pc + 1) (cap[in_x i := c_int sp]) sp else None
         | I_BOL \<Rightarrow> if sp = 0 then addthread P len l (pc + 1) cap sp else Some l
         | I_EOL \<Rightarrow> if sp = len then addthread P len l (pc + 1) cap sp else Some l
         | _ \<Rightarrow> if length (t_list l) < length P then Some (l\<lparr>t_list := t_list l @ [(pc, cap)]\<rparr>) else None))"

declare addthread.simps [code]

definition tl_clear :: "tlist \<Rightarrow> tlist" where
  "tl_clear l = l\<lparr>t_list := [], t_gen := t_gen l + 1\<rparr>"

text \<open>The loop over the threads of the current list; \<open>m\<close> is \<^verbatim>\<open>out\<close>, \<^const>\<open>None\<close> until \<^verbatim>\<open>matched\<close>.\<close>

fun step_threads :: "regex \<Rightarrow> string \<Rightarrow> nat \<Rightarrow> (nat \<times> int list) list \<Rightarrow> tlist \<Rightarrow> int list option \<Rightarrow>
    (tlist \<times> int list option) option" where
  "step_threads r w sp [] nl m = Some (nl, m)"
| "step_threads r w sp ((pc, tc) # ts) nl m =
     (let i = rx_prog r ! pc in
      case in_op i of
        I_CHAR \<Rightarrow>
          if sp < length w \<and> w ! sp = in_c i
          then Option.bind (addthread (rx_prog r) (length w) nl (pc + 1) tc (sp + 1))
                 (\<lambda>nl. step_threads r w sp ts nl m)
          else step_threads r w sp ts nl m
      | I_CLASS \<Rightarrow>
          if sp < length w \<and> set_has (rx_sets r) (in_cls i) (w ! sp)
          then Option.bind (addthread (rx_prog r) (length w) nl (pc + 1) tc (sp + 1))
                 (\<lambda>nl. step_threads r w sp ts nl m)
          else step_threads r w sp ts nl m
      | I_MATCH \<Rightarrow> Some (nl, Some tc)
      | _ \<Rightarrow> step_threads r w sp ts nl m)"

function search_loop :: "regex \<Rightarrow> string \<Rightarrow> nat \<Rightarrow> tlist \<Rightarrow> tlist \<Rightarrow> int list option \<Rightarrow> int list option option" where
  "search_loop r w sp cl nl m =
     (if sp > length w then Some m
      else Option.bind
        (if m = None
         then addthread (rx_prog r) (length w) cl 0 (replicate (ncap_of r) (- 1)) sp
         else Some cl)
        (\<lambda>cl. if t_list cl = [] \<and> m \<noteq> None then Some m
              else Option.bind (step_threads r w sp (t_list cl) (tl_clear nl) m)
                (\<lambda>(nl, m). search_loop r w (sp + 1) nl cl m)))"
  by auto
termination
  by (relation "measure (\<lambda>(r, w, sp, cl, nl, m). Suc (length w) - sp)") auto

declare search_loop.simps [simp del]

definition empty_tlist :: "nat \<Rightarrow> tlist" where
  "empty_tlist np = \<lparr>t_list = [], t_seen = replicate np 0, t_gen = 0\<rparr>"

text \<open>\<open>rx_search r w from\<close> is \<^const>\<open>Some\<close> of the filled \<^verbatim>\<open>out\<close>, or of \<^const>\<open>None\<close> without a match.\<close>

definition rx_search :: "regex \<Rightarrow> string \<Rightarrow> nat \<Rightarrow> int list option option" where
  "rx_search r w from =
     (let np = length (rx_prog r)
      in search_loop r w from (tl_clear (empty_tlist np)) (empty_tlist np) None)"

subsection \<open>What a tree matches\<close>

text \<open>A state is a position and the capture vector.  \<open>mt n w s t\<close>: from \<open>s\<close> the tree can match up to
  \<open>t\<close>.\<close>

definition byte_in :: "string \<Rightarrow> nat \<Rightarrow> nat set \<Rightarrow> bool" where
  "byte_in w i S \<longleftrightarrow> i < length w \<and> byte_of (w ! i) \<in> S"

text \<open>A byte of the set \<open>A\<close>, or a sequence of a lead byte and its continuation bytes.\<close>

definition utf8_step :: "string \<Rightarrow> nat set \<Rightarrow> nat \<Rightarrow> nat \<Rightarrow> bool" where
  "utf8_step w A i j \<longleftrightarrow>
     byte_in w i A \<and> j = i + 1 \<or>
     byte_in w i utf8_lead2 \<and> byte_in w (i + 1) rx_cont \<and> j = i + 2 \<or>
     byte_in w i utf8_lead3 \<and> byte_in w (i + 1) rx_cont \<and> byte_in w (i + 2) rx_cont \<and> j = i + 3 \<or>
     byte_in w i utf8_lead4 \<and> byte_in w (i + 1) rx_cont \<and> byte_in w (i + 2) rx_cont \<and> byte_in w (i + 3) rx_cont \<and> j = i + 4"

primrec mt :: "rx \<Rightarrow> string \<Rightarrow> nat \<times> int list \<Rightarrow> nat \<times> int list \<Rightarrow> bool" where
  "mt (N_EMPTY bol eol) w s t \<longleftrightarrow> t = s \<and> (bol \<longrightarrow> fst s = 0) \<and> (eol \<longrightarrow> fst s = length w)"
| "mt (N_CHAR c) w s t \<longleftrightarrow> fst s < length w \<and> w ! fst s = c \<and> t = (fst s + 1, snd s)"
| "mt N_ANY w s t \<longleftrightarrow> utf8_step w ({0..127} - {10}) (fst s) (fst t) \<and> snd t = snd s"
| "mt (N_CLASS S neg) w s t \<longleftrightarrow>
     (if neg then utf8_step w (({0..255} - S) - {128..255}) (fst s) (fst t) else byte_in w (fst s) S \<and> fst t = fst s + 1) \<and>
     snd t = snd s"
| "mt (N_CAT l r) w s t \<longleftrightarrow> (\<exists>u. mt l w s u \<and> mt r w u t)"
| "mt (N_ALT l r) w s t \<longleftrightarrow> mt l w s t \<or> mt r w s t"
| "mt (N_REP n lo hi greedy) w s t \<longleftrightarrow> (\<exists>k. lo \<le> k \<and> (hi < 0 \<or> int k \<le> hi) \<and> (mt n w ^^ k) s t)"
| "mt (N_GROUP n g) w s t \<longleftrightarrow>
     (if g < 0 then mt n w s t
      else \<exists>u. mt n w (fst s, (snd s)[2 * nat g := c_int (fst s)]) u \<and> t = (fst u, (snd u)[2 * nat g + 1 := c_int (fst u)]))"

subsection \<open>The steps of a thread\<close>

inductive eps :: "inst list \<Rightarrow> nat \<Rightarrow> nat \<Rightarrow> nat \<times> int list \<Rightarrow> nat \<times> int list \<Rightarrow> bool" for P len i where
  eps_jmp: "op_at P pc I_JMP \<Longrightarrow> eps P len i (pc, c) (in_x (P ! pc), c)"
| eps_x: "op_at P pc I_SPLIT \<Longrightarrow> eps P len i (pc, c) (in_x (P ! pc), c)"
| eps_y: "op_at P pc I_SPLIT \<Longrightarrow> eps P len i (pc, c) (in_y (P ! pc), c)"
| eps_save: "op_at P pc I_SAVE \<Longrightarrow> eps P len i (pc, c) (pc + 1, c[in_x (P ! pc) := c_int i])"
| eps_bol: "op_at P pc I_BOL \<Longrightarrow> i = 0 \<Longrightarrow> eps P len i (pc, c) (pc + 1, c)"
| eps_eol: "op_at P pc I_EOL \<Longrightarrow> i = len \<Longrightarrow> eps P len i (pc, c) (pc + 1, c)"

inductive_cases eps_cases: "eps P len i (pc, c) t"

definition takes :: "inst list \<Rightarrow> (nat set \<times> bool) list \<Rightarrow> string \<Rightarrow> nat \<Rightarrow> nat \<Rightarrow> bool" where
  "takes P T w pc i \<longleftrightarrow> i < length w \<and>
     (op_at P pc I_CHAR \<and> w ! i = in_c (P ! pc) \<or> op_at P pc I_CLASS \<and> set_has T (in_cls (P ! pc)) (w ! i))"

inductive rstep :: "inst list \<Rightarrow> (nat set \<times> bool) list \<Rightarrow> string \<Rightarrow>
    nat \<times> nat \<times> int list \<Rightarrow> nat \<times> nat \<times> int list \<Rightarrow> bool" for P T w where
  rstep_eps: "eps P (length w) i (pc, c) (pc', c') \<Longrightarrow> rstep P T w (pc, i, c) (pc', i, c')"
| rstep_take: "takes P T w pc i \<Longrightarrow> rstep P T w (pc, i, c) (pc + 1, i + 1, c)"

lemma eps_iff:
  "eps P len i (pc, c) t \<longleftrightarrow>
     op_at P pc I_JMP \<and> t = (in_x (P ! pc), c) \<or>
     op_at P pc I_SPLIT \<and> (t = (in_x (P ! pc), c) \<or> t = (in_y (P ! pc), c)) \<or>
     op_at P pc I_SAVE \<and> t = (pc + 1, c[in_x (P ! pc) := c_int i]) \<or>
     (op_at P pc I_BOL \<and> i = 0 \<or> op_at P pc I_EOL \<and> i = len) \<and> t = (pc + 1, c)"
  by (auto elim: eps_cases intro: eps.intros [simplified])

lemma rstep_iff:
  "rstep P T w (pc, i, c) t \<longleftrightarrow>
     (\<exists>pc' c'. eps P (length w) i (pc, c) (pc', c') \<and> t = (pc', i, c')) \<or> takes P T w pc i \<and> t = (pc + 1, i + 1, c)"
  by (auto elim: rstep.cases intro: rstep.intros [simplified])

lemma rstep_at:
  "op_at P pc I_BOL \<Longrightarrow> rstep P T w (pc, i, c) t \<longleftrightarrow> i = 0 \<and> t = (pc + 1, i, c)"
  "op_at P pc I_EOL \<Longrightarrow> rstep P T w (pc, i, c) t \<longleftrightarrow> i = length w \<and> t = (pc + 1, i, c)"
  "char_at P pc ch \<Longrightarrow> rstep P T w (pc, i, c) t \<longleftrightarrow> i < length w \<and> w ! i = ch \<and> t = (pc + 1, i + 1, c)"
  "class_at P T pc S \<Longrightarrow> rstep P T w (pc, i, c) t \<longleftrightarrow> byte_in w i S \<and> t = (pc + 1, i + 1, c)"
  "jmp_at P pc x \<Longrightarrow> rstep P T w (pc, i, c) t \<longleftrightarrow> t = (x, i, c)"
  "split_at P pc x y \<Longrightarrow> rstep P T w (pc, i, c) t \<longleftrightarrow> t = (x, i, c) \<or> t = (y, i, c)"
  "pref_split_at P g pc x y \<Longrightarrow> rstep P T w (pc, i, c) t \<longleftrightarrow> t = (x, i, c) \<or> t = (y, i, c)"
  "save_at P pc x \<Longrightarrow> rstep P T w (pc, i, c) t \<longleftrightarrow> t = (pc + 1, i, c[x := c_int i])"
  "op_at P pc I_MATCH \<Longrightarrow> \<not> rstep P T w (pc, i, c) t"
  by (auto simp: op_at_def char_at_def class_at_def jmp_at_def split_at_def pref_split_at_def save_at_def
      takes_def byte_in_def set_has_def eps_iff rstep_iff split: if_splits)


subsection \<open>The code of a tree matches what the tree matches\<close>

text \<open>\<open>code_for P T w a b M\<close>: entering the code \<open>a..<b\<close> and leaving it at \<open>b\<close> is \<open>M\<close>.  Every run that leaves
  the code does so at \<open>b\<close>, after at least one step when there is code.\<close>

definition code_for :: "inst list \<Rightarrow> (nat set \<times> bool) list \<Rightarrow> string \<Rightarrow> nat \<Rightarrow> nat \<Rightarrow>
    (nat \<times> int list \<Rightarrow> nat \<times> int list \<Rightarrow> bool) \<Rightarrow> bool" where
  "code_for P T w a b M \<longleftrightarrow> a \<le> b \<and>
     (\<forall>i c i' c'. M (i, c) (i', c') \<longrightarrow> (rstep P T w)\<^sup>*\<^sup>* (a, i, c) (b, i', c')) \<and>
     (\<forall>q i c pc j d. (rstep P T w ^^ q) (a, i, c) (pc, j, d) \<longrightarrow> pc \<notin> {a..<b} \<longrightarrow>
        (\<exists>k i' c'. k \<le> q \<and> (a < b \<longrightarrow> 0 < k) \<and> M (i, c) (i', c') \<and> (rstep P T w ^^ (q - k)) (b, i', c') (pc, j, d)))"

lemma code_for_reach: "code_for P T w a b M \<Longrightarrow> M (i, c) (i', c') \<Longrightarrow> (rstep P T w)\<^sup>*\<^sup>* (a, i, c) (b, i', c')"
  by (auto simp: code_for_def)

lemma code_for_le: "code_for P T w a b M \<Longrightarrow> a \<le> b"
  by (simp add: code_for_def)

lemma code_for_leave:
  assumes "code_for P T w a b M" "(rstep P T w ^^ q) (a, i, c) (pc, j, d)" "pc \<notin> {a..<b}"
  obtains k i' c' where "k \<le> q" "a < b \<longrightarrow> 0 < k" "M (i, c) (i', c')" "(rstep P T w ^^ (q - k)) (b, i', c') (pc, j, d)"
proof -
  from assms have "\<exists>k i' c'. k \<le> q \<and> (a < b \<longrightarrow> 0 < k) \<and> M (i, c) (i', c') \<and> (rstep P T w ^^ (q - k)) (b, i', c') (pc, j, d)"
    unfolding code_for_def by blast
  then show thesis using that by blast
qed

lemma run_first:
  assumes "(rstep P T w ^^ q) (a, i, c) (pc, j, d)" "pc \<noteq> a"
  obtains q' t where "q = Suc q'" "rstep P T w (a, i, c) t" "(rstep P T w ^^ q') t (pc, j, d)"
proof (cases q)
  case 0
  with assms show thesis by simp
next
  case (Suc q')
  with assms(1) relpowp_Suc_D2 [of q' "rstep P T w"] that show thesis by blast
qed

lemma code_for_eq: "code_for P T w a b M \<Longrightarrow> (\<And>s t. M s t = M' s t) \<Longrightarrow> code_for P T w a b M'"
  by (simp add: code_for_def)

lemma code_for_empty: "code_for P T w a a (\<lambda>s t. t = s)"
  by (auto simp: code_for_def)

lemma code_for_one:
  assumes "\<And>i c t. rstep P T w (a, i, c) t \<longleftrightarrow> (\<exists>i' c'. t = (a + 1, i', c') \<and> M (i, c) (i', c'))"
  shows "code_for P T w a (a + 1) M"
  unfolding code_for_def
proof (intro conjI allI impI)
  show "(rstep P T w)\<^sup>*\<^sup>* (a, i, c) (a + 1, i', c')" if "M (i, c) (i', c')" for i c i' c'
    using assms that by blast
  show "\<exists>k i' c'. k \<le> q \<and> (a < a + 1 \<longrightarrow> 0 < k) \<and> M (i, c) (i', c') \<and> (rstep P T w ^^ (q - k)) (a + 1, i', c') (pc, j, d)"
    if "(rstep P T w ^^ q) (a, i, c) (pc, j, d)" "pc \<notin> {a..<a + 1}" for q i c pc j d
  proof -
    from that(2) have "pc \<noteq> a" by auto
    with that(1) obtain q' t where q: "q = Suc q'" "rstep P T w (a, i, c) t" "(rstep P T w ^^ q') t (pc, j, d)"
      by (rule run_first)
    with assms obtain i' c' where "t = (a + 1, i', c')" "M (i, c) (i', c')" by blast
    with q show ?thesis by (intro exI [of _ 1] exI [of _ i'] exI [of _ c']) simp
  qed
qed simp

lemma code_for_seq:
  assumes "code_for P T w a m M" "code_for P T w m b N"
  shows "code_for P T w a b (M OO N)"
  unfolding code_for_def
proof (intro conjI allI impI)
  note le = code_for_le [OF assms(1)] code_for_le [OF assms(2)]
  show "a \<le> b" using le by simp
  show "(rstep P T w)\<^sup>*\<^sup>* (a, i, c) (b, i', c')" if "(M OO N) (i, c) (i', c')" for i c i' c'
  proof -
    from that obtain u v where "M (i, c) (u, v)" "N (u, v) (i', c')" by (auto simp: relcompp.simps)
    then show ?thesis using code_for_reach [OF assms(1)] code_for_reach [OF assms(2)] by (meson rtranclp_trans)
  qed
  show "\<exists>k i' c'. k \<le> q \<and> (a < b \<longrightarrow> 0 < k) \<and> (M OO N) (i, c) (i', c') \<and> (rstep P T w ^^ (q - k)) (b, i', c') (pc, j, d)"
    if r: "(rstep P T w ^^ q) (a, i, c) (pc, j, d)" and out: "pc \<notin> {a..<b}" for q i c pc j d
  proof -
    have "pc \<notin> {a..<m}" "pc \<notin> {m..<b}" using out le by auto
    from code_for_leave [OF assms(1) r this(1)] obtain k u v where
      k: "k \<le> q" "a < m \<longrightarrow> 0 < k" "M (i, c) (u, v)" "(rstep P T w ^^ (q - k)) (m, u, v) (pc, j, d)" .
    from code_for_leave [OF assms(2) k(4) \<open>pc \<notin> {m..<b}\<close>] obtain k' i' c' where
      k': "k' \<le> q - k" "m < b \<longrightarrow> 0 < k'" "N (u, v) (i', c')" "(rstep P T w ^^ (q - k - k')) (b, i', c') (pc, j, d)" .
    have "(M OO N) (i, c) (i', c')" using k(3) k'(3) by auto
    moreover have "k + k' \<le> q" "a < b \<longrightarrow> 0 < k + k'" using k(1,2) k'(1,2) le by auto
    ultimately show ?thesis using k'(4) by (intro exI [of _ "k + k'"] exI [of _ i'] exI [of _ c']) simp
  qed
qed

lemma code_for_alt:
  assumes "split_at P a (a + 1) (m + 1)" "code_for P T w (a + 1) m M" "jmp_at P m b" "code_for P T w (m + 1) b N"
  shows "code_for P T w a b (\<lambda>s t. M s t \<or> N s t)"
  unfolding code_for_def
proof (intro conjI allI impI)
  note le = code_for_le [OF assms(2)] code_for_le [OF assms(4)]
  note st = rstep_at(6) [OF assms(1)] rstep_at(5) [OF assms(3)]
  show "a \<le> b" using le by simp
  show "(rstep P T w)\<^sup>*\<^sup>* (a, i, c) (b, i', c')" if "M (i, c) (i', c') \<or> N (i, c) (i', c')" for i c i' c'
    using that
  proof
    assume "M (i, c) (i', c')"
    have "rstep P T w (a, i, c) (a + 1, i, c)" by (simp add: st)
    also have "(rstep P T w)\<^sup>*\<^sup>* (a + 1, i, c) (m, i', c')" using code_for_reach [OF assms(2)] \<open>M (i, c) (i', c')\<close> by blast
    also have "rstep P T w (m, i', c') (b, i', c')" by (simp add: st)
    finally show ?thesis .
  next
    assume "N (i, c) (i', c')"
    have "rstep P T w (a, i, c) (m + 1, i, c)" by (simp add: st)
    also have "(rstep P T w)\<^sup>*\<^sup>* (m + 1, i, c) (b, i', c')" using code_for_reach [OF assms(4)] \<open>N (i, c) (i', c')\<close> by blast
    finally show ?thesis .
  qed
  show "\<exists>k i' c'. k \<le> q \<and> (a < b \<longrightarrow> 0 < k) \<and> (M (i, c) (i', c') \<or> N (i, c) (i', c')) \<and> (rstep P T w ^^ (q - k)) (b, i', c') (pc, j, d)"
    if r: "(rstep P T w ^^ q) (a, i, c) (pc, j, d)" and out: "pc \<notin> {a..<b}" for q i c pc j d
  proof -
    have o: "pc \<noteq> a" "pc \<notin> {a + 1..<m}" "pc \<noteq> m" "pc \<notin> {m + 1..<b}" using out le by auto
    from run_first [OF r o(1)] obtain q1 t where q1: "q = Suc q1" "rstep P T w (a, i, c) t" "(rstep P T w ^^ q1) t (pc, j, d)" .
    from q1(2) consider (l) "t = (a + 1, i, c)" | (r) "t = (m + 1, i, c)" by (auto simp: st)
    then show ?thesis
    proof cases
      case l
      from code_for_leave [OF assms(2) q1(3) [unfolded l] o(2)] obtain k u v where
        k: "k \<le> q1" "a + 1 < m \<longrightarrow> 0 < k" "M (i, c) (u, v)" "(rstep P T w ^^ (q1 - k)) (m, u, v) (pc, j, d)" .
      from run_first [OF k(4) o(3)] obtain q2 t' where
        q2: "q1 - k = Suc q2" "rstep P T w (m, u, v) t'" "(rstep P T w ^^ q2) t' (pc, j, d)" .
      have "t' = (b, u, v)" using q2(2) by (simp add: st)
      moreover have "q2 = q - (k + 2)" using q1(1) q2(1) by simp
      ultimately show ?thesis
        using k(1,3) q2 q1(1) by (intro exI [of _ "k + 2"] exI [of _ u] exI [of _ v]) auto
    next
      case r
      from code_for_leave [OF assms(4) q1(3) [unfolded r] o(4)] obtain k u v where
        k: "k \<le> q1" "m + 1 < b \<longrightarrow> 0 < k" "N (i, c) (u, v)" "(rstep P T w ^^ (q1 - k)) (b, u, v) (pc, j, d)" .
      then show ?thesis using q1(1) by (intro exI [of _ "Suc k"] exI [of _ u] exI [of _ v]) auto
    qed
  qed
qed

lemma code_for_star:
  assumes sp: "pref_split_at P g a (a + 1) b" and M: "code_for P T w (a + 1) k M" and jp: "jmp_at P k a" and b: "b = k + 1"
  shows "code_for P T w a b (\<lambda>s t. \<exists>n. (M ^^ n) s t)"
  unfolding code_for_def
proof (intro conjI allI impI)
  note le = code_for_le [OF M]
  note st = rstep_at(7) [OF sp] rstep_at(5) [OF jp]
  show "a \<le> b" using le b by simp
  have "(rstep P T w)\<^sup>*\<^sup>* (a, s) (b, t)" if "(M ^^ n) s t" for n s t
    using that
  proof (induction n arbitrary: s)
    case 0
    then show ?case by (cases s) (auto simp: st intro!: r_into_rtranclp)
  next
    case (Suc n)
    from Suc.prems obtain u where u: "M s u" "(M ^^ n) u t" by (meson relpowp_Suc_D2)
    obtain i c i' c' where s: "s = (i, c)" "u = (i', c')" by (cases s; cases u)
    have "rstep P T w (a, i, c) (a + 1, i, c)" by (simp add: st)
    also have "(rstep P T w)\<^sup>*\<^sup>* (a + 1, i, c) (k, i', c')" using code_for_reach [OF M] u(1) s by blast
    also have "rstep P T w (k, i', c') (a, i', c')" by (simp add: st)
    also have "(rstep P T w)\<^sup>*\<^sup>* (a, i', c') (b, t)" using Suc.IH [OF u(2)] s by simp
    finally show ?case by (simp add: s)
  qed
  then show "(rstep P T w)\<^sup>*\<^sup>* (a, i, c) (b, i', c')" if "\<exists>n. (M ^^ n) (i, c) (i', c')" for i c i' c'
    using that by blast
  show "\<exists>k i' c'. k \<le> q \<and> (a < b \<longrightarrow> 0 < k) \<and> (\<exists>n. (M ^^ n) (i, c) (i', c')) \<and> (rstep P T w ^^ (q - k)) (b, i', c') (pc, j, d)"
    if r: "(rstep P T w ^^ q) (a, i, c) (pc, j, d)" and out: "pc \<notin> {a..<b}" for q i c pc j d
    using r
  proof (induction q arbitrary: i c rule: less_induct)
    case (less q)
    have o: "pc \<noteq> a" "pc \<notin> {a + 1..<k}" "pc \<noteq> k" using out le b by auto
    from run_first [OF less.prems o(1)] obtain q1 t where
      q1: "q = Suc q1" "rstep P T w (a, i, c) t" "(rstep P T w ^^ q1) t (pc, j, d)" .
    from q1(2) consider (body) "t = (a + 1, i, c)" | (exit) "t = (b, i, c)" by (auto simp: st)
    then show ?case
    proof cases
      case exit
      have "1 \<le> q \<and> (a < b \<longrightarrow> 0 < (1::nat)) \<and> (M ^^ 0) (i, c) (i, c) \<and> (rstep P T w ^^ (q - 1)) (b, i, c) (pc, j, d)"
        using q1 exit by simp
      then show ?thesis by blast
    next
      case body
      from code_for_leave [OF M q1(3) [unfolded body] o(2)] obtain k' u v where
        k: "k' \<le> q1" "a + 1 < k \<longrightarrow> 0 < k'" "M (i, c) (u, v)" "(rstep P T w ^^ (q1 - k')) (k, u, v) (pc, j, d)" .
      from run_first [OF k(4) o(3)] obtain q2 t' where
        q2: "q1 - k' = Suc q2" "rstep P T w (k, u, v) t'" "(rstep P T w ^^ q2) t' (pc, j, d)" .
      have t': "t' = (a, u, v)" using q2(2) by (simp add: st)
      have "q2 < q" using q1(1) q2(1) by simp
      from less.IH [OF this q2(3) [unfolded t']] obtain k2 i' c' n where
        k2: "k2 \<le> q2" "0 < k2" "(M ^^ n) (u, v) (i', c')" "(rstep P T w ^^ (q2 - k2)) (b, i', c') (pc, j, d)"
        using le b by auto
      have "(M ^^ Suc n) (i, c) (i', c')" using k(3) k2(3) by (rule relpowp_Suc_I2)
      moreover have "q2 - k2 = q - (k2 + k' + 2)" "k2 + k' + 2 \<le> q" using q1(1) q2(1) k2(1) k(1) by auto
      ultimately have "k2 + k' + 2 \<le> q \<and> (a < b \<longrightarrow> 0 < k2 + k' + 2) \<and> (\<exists>n. (M ^^ n) (i, c) (i', c')) \<and>
        (rstep P T w ^^ (q - (k2 + k' + 2))) (b, i', c') (pc, j, d)"
        using k2(4) by (auto simp del: relpowp.simps)
      then show ?thesis by blast
    qed
  qed
qed

lemma code_for_copies:
  "copies_seg R k a b \<Longrightarrow> (\<And>a b. R a b \<Longrightarrow> code_for P T w a b M) \<Longrightarrow> code_for P T w a b (M ^^ k)"
proof (induction k arbitrary: a)
  case 0
  then have "a = b" by simp
  then show ?case using code_for_eq [OF code_for_empty, where M' = "(=)"] by auto
next
  case (Suc k)
  then obtain m where m: "R a m" "copies_seg R k m b" by auto
  from code_for_seq [OF Suc.prems(2) [OF m(1)] Suc.IH [OF m(2) Suc.prems(2)]] show ?case
    by (simp add: relpowp_commute)
qed


lemma code_for_opts:
  assumes "opts_seg P R g k a z z" "\<And>a b. R a b \<Longrightarrow> code_for P T w a b M"
  shows "code_for P T w a z (\<lambda>s t. \<exists>n \<le> k. (M ^^ n) s t)"
  using assms(1)
proof (induction k arbitrary: a)
  case 0
  then have "a = z" by simp
  then show ?case using code_for_eq [OF code_for_empty, where M' = "\<lambda>s t. \<exists>n \<le> 0. (M ^^ n) s t"] by auto
next
  case (Suc k)
  then obtain m where m: "pref_split_at P g a (a + 1) z" "R (a + 1) m" "opts_seg P R g k m z z" by auto
  let ?N = "\<lambda>s t. \<exists>n \<le> k. (M ^^ n) s t"
  note st = rstep_at(7) [OF m(1)]
  have MN: "code_for P T w (a + 1) z (M OO ?N)"
    by (rule code_for_seq [OF assms(2) [OF m(2)] Suc.IH [OF m(3)]])
  have split: "(\<exists>n \<le> Suc k. (M ^^ n) s t) \<longleftrightarrow> t = s \<or> (M OO ?N) s t" for s t
  proof
    assume "\<exists>n \<le> Suc k. (M ^^ n) s t"
    then obtain n where n: "n \<le> Suc k" "(M ^^ n) s t" by blast
    show "t = s \<or> (M OO ?N) s t"
    proof (cases n)
      case 0
      with n show ?thesis by auto
    next
      case (Suc n')
      with n(2) obtain u where "M s u" "(M ^^ n') u t" by (meson relpowp_Suc_D2)
      with n(1) Suc show ?thesis by auto
    qed
  next
    assume "t = s \<or> (M OO ?N) s t"
    then show "\<exists>n \<le> Suc k. (M ^^ n) s t"
    proof
      assume "t = s"
      then have "(M ^^ 0) s t" by simp
      then show ?thesis by blast
    next
      assume "(M OO ?N) s t"
      then obtain u n where "M s u" "n \<le> k" "(M ^^ n) u t" by auto
      then have "(M ^^ Suc n) s t" "Suc n \<le> Suc k" by (auto intro: relpowp_Suc_I2 simp del: relpowp.simps)
      then show ?thesis by blast
    qed
  qed
  show ?case
    unfolding code_for_def split
  proof (intro conjI allI impI)
    note le = code_for_le [OF MN]
    show "a \<le> z" using le by simp
    show "(rstep P T w)\<^sup>*\<^sup>* (a, i, c) (z, i', c')" if "(i', c') = (i, c) \<or> (M OO ?N) (i, c) (i', c')" for i c i' c'
      using that
    proof
      assume "(i', c') = (i, c)"
      moreover have "rstep P T w (a, i, c) (z, i, c)" by (simp add: st)
      ultimately show ?thesis by auto
    next
      assume *: "(M OO ?N) (i, c) (i', c')"
      have "rstep P T w (a, i, c) (a + 1, i, c)" by (simp add: st)
      also have "(rstep P T w)\<^sup>*\<^sup>* (a + 1, i, c) (z, i', c')" using code_for_reach [OF MN *] .
      finally show ?thesis .
    qed
    fix q i c pc j d
    assume r: "(rstep P T w ^^ q) (a, i, c) (pc, j, d)" and out: "pc \<notin> {a..<z}"
    have o: "pc \<noteq> a" "pc \<notin> {a + 1..<z}" using out le by auto
    from run_first [OF r o(1)] obtain q1 t where
      q1: "q = Suc q1" "rstep P T w (a, i, c) t" "(rstep P T w ^^ q1) t (pc, j, d)" .
    from q1(2) consider (body) "t = (a + 1, i, c)" | (exit) "t = (z, i, c)" by (auto simp: st)
    then show "\<exists>k i' c'. k \<le> q \<and> (a < z \<longrightarrow> 0 < k) \<and> ((i', c') = (i, c) \<or> (M OO ?N) (i, c) (i', c')) \<and>
        (rstep P T w ^^ (q - k)) (z, i', c') (pc, j, d)"
    proof cases
      case exit
      have "1 \<le> q \<and> (a < z \<longrightarrow> 0 < (1::nat)) \<and> (i, c) = (i, c) \<and> (rstep P T w ^^ (q - 1)) (z, i, c) (pc, j, d)"
        using q1 exit by simp
      then show ?thesis by blast
    next
      case body
      from code_for_leave [OF MN q1(3) [unfolded body] o(2)] obtain k' u v where
        k: "k' \<le> q1" "a + 1 < z \<longrightarrow> 0 < k'" "(M OO ?N) (i, c) (u, v)" "(rstep P T w ^^ (q1 - k')) (z, u, v) (pc, j, d)" .
      have "Suc k' \<le> q \<and> (a < z \<longrightarrow> 0 < Suc k') \<and> (M OO ?N) (i, c) (u, v) \<and> (rstep P T w ^^ (q - Suc k')) (z, u, v) (pc, j, d)"
        using k q1(1) by simp
      then show ?thesis by blast
    qed
  qed
qed

lemma code_for_class: "class_at P T a S \<Longrightarrow> code_for P T w a (a + 1) (\<lambda>s t. byte_in w (fst s) S \<and> t = (fst s + 1, snd s))"
  by (rule code_for_one) (auto simp: rstep_at)

lemma code_for_utf8:
  assumes "utf8_seg P T A a b"
  shows "code_for P T w a b (\<lambda>s t. utf8_step w A (fst s) (fst t) \<and> snd t = snd s)"
proof -
  let ?B = "\<lambda>S s t. byte_in w (fst s) S \<and> t = (fst s + 1, snd (s :: nat \<times> int list))"
  have b: "b = a + 16" using assms by (simp add: utf8_seg_def)
  note u = assms [unfolded utf8_seg_def b]
  have cls: "class_at P T k S \<Longrightarrow> k' = k + 1 \<Longrightarrow> code_for P T w k k' (?B S)" for k k' S
    using code_for_class by simp
  have c: "code_for P T w (a + 1) (a + 2) (?B A)" "code_for P T w (a + 4) (a + 5) (?B utf8_lead2)"
    "code_for P T w (a + 5) (a + 6) (?B rx_cont)" "code_for P T w (a + 8) (a + 9) (?B utf8_lead3)"
    "code_for P T w (a + 9) (a + 10) (?B rx_cont)" "code_for P T w (a + 10) (a + 11) (?B rx_cont)"
    "code_for P T w (a + 12) (a + 13) (?B utf8_lead4)" "code_for P T w (a + 13) (a + 14) (?B rx_cont)"
    "code_for P T w (a + 14) (a + 15) (?B rx_cont)" "code_for P T w (a + 15) (a + 16) (?B rx_cont)"
    by (rule cls, use u in blast, simp)+
  note l2 = code_for_seq [OF c(2,3)] and l3 = code_for_seq [OF code_for_seq [OF c(4,5)] c(6)]
    and l4 = code_for_seq [OF code_for_seq [OF code_for_seq [OF c(7,8)] c(9)] c(10)] and l1 = c(1)
  have e: "a + 11 + 1 = a + 12" "a + 7 + 1 = a + 8" "a + 6 + 1 = a + 7" "a + 3 + 1 = a + 4" "a + 2 + 1 = a + 3" by simp_all
  have j3: "code_for P T w (a + 7) (a + 16) (\<lambda>s t. ((?B utf8_lead3 OO ?B rx_cont) OO ?B rx_cont) s t \<or>
      (((?B utf8_lead4 OO ?B rx_cont) OO ?B rx_cont) OO ?B rx_cont) s t)"
    by (rule code_for_alt [where m = "a + 11" and a = "a + 7", unfolded e], use u in blast, rule l3, use u in blast, rule l4)
  have j2: "code_for P T w (a + 3) (a + 16) (\<lambda>s t. (?B utf8_lead2 OO ?B rx_cont) s t \<or> ((?B utf8_lead3 OO ?B rx_cont) OO ?B rx_cont) s t \<or>
      (((?B utf8_lead4 OO ?B rx_cont) OO ?B rx_cont) OO ?B rx_cont) s t)"
    by (rule code_for_alt [where m = "a + 6" and a = "a + 3", unfolded e], use u in blast, rule l2, use u in blast, rule j3)
  have j1: "code_for P T w a (a + 16) (\<lambda>s t. ?B A s t \<or> (?B utf8_lead2 OO ?B rx_cont) s t \<or> ((?B utf8_lead3 OO ?B rx_cont) OO ?B rx_cont) s t \<or>
      (((?B utf8_lead4 OO ?B rx_cont) OO ?B rx_cont) OO ?B rx_cont) s t)"
    by (rule code_for_alt [where m = "a + 2" and a = "a", unfolded e], use u in blast, rule l1, use u in blast, rule j2)
  have seq: "(?B S OO N) s t \<longleftrightarrow> byte_in w (fst s) S \<and> N (fst s + 1, snd s) t" for S N s t
    by (auto simp: relcompp_apply)
  show ?thesis
    unfolding b by (rule code_for_eq [OF j1], simp only: relcompp_assoc seq fst_conv snd_conv)
      (auto simp: utf8_step_def prod_eq_iff numeral_3_eq_3)
qed

lemma rep_split:
  assumes "hi = - 1 \<or> int lo \<le> hi"
  shows "(M ^^ lo OO (if hi < 0 then \<lambda>s t. \<exists>n. (M ^^ n) s t else (\<lambda>s t. \<exists>n \<le> nat (hi - int lo). (M ^^ n) s t))) s t \<longleftrightarrow>
    (\<exists>k. lo \<le> k \<and> (hi < 0 \<or> int k \<le> hi) \<and> (M ^^ k) s t)"
proof -
  have add: "(M ^^ lo OO M ^^ n) s t \<longleftrightarrow> (M ^^ (lo + n)) s t" for n s t
    by (simp add: relpowp_add)
  show ?thesis
  proof
    assume l: "(M ^^ lo OO (if hi < 0 then \<lambda>s t. \<exists>n. (M ^^ n) s t else (\<lambda>s t. \<exists>n \<le> nat (hi - int lo). (M ^^ n) s t))) s t"
    then obtain n where n: "(M ^^ lo OO M ^^ n) s t" "hi < 0 \<or> n \<le> nat (hi - int lo)"
      by (auto split: if_splits)
    then show "\<exists>k. lo \<le> k \<and> (hi < 0 \<or> int k \<le> hi) \<and> (M ^^ k) s t"
      using assms unfolding add by (intro exI [of _ "lo + n"]) auto
  next
    assume "\<exists>k. lo \<le> k \<and> (hi < 0 \<or> int k \<le> hi) \<and> (M ^^ k) s t"
    then obtain k where k: "lo \<le> k" "hi < 0 \<or> int k \<le> hi" "(M ^^ k) s t" by blast
    then have "(M ^^ lo OO M ^^ (k - lo)) s t" unfolding add by simp
    moreover have "hi < 0 \<or> k - lo \<le> nat (hi - int lo)" using k(1,2) by linarith
    ultimately show "(M ^^ lo OO (if hi < 0 then \<lambda>s t. \<exists>n. (M ^^ n) s t else (\<lambda>s t. \<exists>n \<le> nat (hi - int lo). (M ^^ n) s t))) s t"
      by (auto split: if_splits)
  qed
qed

theorem seg_code_for: "seg P T n a b \<Longrightarrow> rx_wf n \<Longrightarrow> code_for P T w a b (mt n w)"
proof (induction n arbitrary: a b)
  case (N_EMPTY bol eol)
  then obtain m where m: "if bol then op_at P a I_BOL \<and> m = a + 1 else m = a"
    "if eol then op_at P m I_EOL \<and> b = m + 1 else b = m" by auto
  have "code_for P T w a m (\<lambda>s t. t = s \<and> (bol \<longrightarrow> fst s = 0))"
    using m(1) by (cases bol) (auto intro: code_for_one [simplified] code_for_eq [OF code_for_empty] simp: rstep_at)
  moreover have "code_for P T w m b (\<lambda>s t. t = s \<and> (eol \<longrightarrow> fst s = length w))"
    using m(2) by (cases eol) (auto intro: code_for_one [simplified] code_for_eq [OF code_for_empty] simp: rstep_at)
  ultimately show ?case
    by (rule code_for_eq [OF code_for_seq]) auto
next
  case (N_CHAR c)
  then show ?case by (auto intro!: code_for_one [simplified] simp: rstep_at)
next
  case N_ANY
  then show ?case using code_for_utf8 by (auto intro: code_for_eq)
next
  case (N_CLASS S neg)
  show ?case
  proof (cases neg)
    case True
    with N_CLASS show ?thesis using code_for_utf8 by (auto intro: code_for_eq)
  next
    case False
    with N_CLASS show ?thesis using code_for_eq [OF code_for_class [of P T a S]] by (auto simp: prod_eq_iff)
  qed
next
  case (N_CAT l r)
  then obtain m where m: "seg P T l a m" "seg P T r m b" by auto
  then have "code_for P T w a m (mt l w)" "code_for P T w m b (mt r w)" using N_CAT by auto
  then show ?case by (rule code_for_eq [OF code_for_seq]) (simp add: relcompp_apply)
next
  case (N_ALT l r)
  then obtain m where m: "split_at P a (a + 1) (m + 1)" "seg P T l (a + 1) m" "jmp_at P m b" "seg P T r (m + 1) b" by auto
  have "code_for P T w a b (\<lambda>s t. mt l w s t \<or> mt r w s t)"
    by (rule code_for_alt [OF m(1) _ m(3)]) (use N_ALT.IH m N_ALT.prems(2) in auto)
  then show ?case by simp
next
  case (N_REP n lo hi g)
  then obtain m where m: "copies_seg (seg P T n) lo a m"
    "if hi < 0 then star_seg P (seg P T n) g m b else opts_seg P (seg P T n) g (nat (hi - int lo)) m b b" by auto
  have body: "code_for P T w i j (mt n w)" if "seg P T n i j" for i j using N_REP.IH that N_REP.prems(2) by simp
  let ?rest = "if hi < 0 then \<lambda>s t. \<exists>n'. (mt n w ^^ n') s t else (\<lambda>s t. \<exists>n' \<le> nat (hi - int lo). (mt n w ^^ n') s t)"
  have "code_for P T w m b ?rest"
  proof (cases "hi < 0")
    case True
    with m(2) obtain k where k: "pref_split_at P g m (m + 1) b" "seg P T n (m + 1) k" "jmp_at P k m" "b = k + 1"
      by (auto simp: star_seg_def)
    from code_for_star [OF k(1) body [OF k(2)] k(3,4)] True show ?thesis by simp
  next
    case False
    with m(2) have "opts_seg P (seg P T n) g (nat (hi - int lo)) m b b" by simp
    from code_for_opts [OF this body] False show ?thesis by simp
  qed
  from code_for_seq [OF code_for_copies [OF m(1) body] this]
  have c: "code_for P T w a b (mt n w ^^ lo OO ?rest)" .
  have "hi = - 1 \<or> int lo \<le> hi" using N_REP.prems(2) by auto
  from rep_split [OF this] show ?case
    by (intro code_for_eq [OF c]) (simp only: mt.simps)
next
  case (N_GROUP n g)
  show ?case
  proof (cases "g < 0")
    case True
    with N_GROUP have "code_for P T w a b (mt n w)" by simp
    with True show ?thesis by (auto intro: code_for_eq)
  next
    case False
    with N_GROUP.prems obtain m where m: "save_at P a (2 * nat g)" "seg P T n (a + 1) m" "save_at P m (2 * nat g + 1)" "b = m + 1"
      by auto
    let ?S = "\<lambda>x s t. t = (fst s, (snd (s :: nat \<times> int list))[x := c_int (fst s)])"
    have s: "code_for P T w k (k + 1) (?S x)" if "save_at P k x" for k x
      by (rule code_for_one) (auto simp: rstep_at(8) [OF that])
    have "code_for P T w a (m + 1) ((?S (2 * nat g) OO mt n w) OO ?S (2 * nat g + 1))"
      by (rule code_for_seq [OF code_for_seq [OF s [OF m(1)]] s [OF m(3)]]) (use N_GROUP m in auto)
    then show ?thesis unfolding m(4)
      by (rule code_for_eq) (use False in \<open>auto simp: relcompp_apply\<close>)
  qed
qed


text \<open>A run of a whole program to its \<^const>\<open>I_MATCH\<close>.\<close>

definition accepts :: "regex \<Rightarrow> string \<Rightarrow> nat \<Rightarrow> nat \<Rightarrow> int list \<Rightarrow> bool" where
  "accepts r w s j c \<longleftrightarrow>
     (\<exists>pc. op_at (rx_prog r) pc I_MATCH \<and>
        (rstep (rx_prog r) (rx_sets r) w)\<^sup>*\<^sup>* (0, s, replicate (ncap_of r) (- 1)) (pc, j, c))"

definition init_caps :: "regex \<Rightarrow> nat \<Rightarrow> int list" where
  "init_caps r s = (replicate (ncap_of r) (- 1))[0 := c_int s]"

lemma program_accepts:
  assumes r: "compiled r n"
  shows "accepts r w s j c \<longleftrightarrow> (\<exists>c1. mt n w (s, init_caps r s) (j, c1) \<and> c = c1[1 := c_int j])"
proof -
  let ?P = "rx_prog r" and ?T = "rx_sets r"
  have wf: "rx_wf n" and ok: "prog_ok ?P ?T (ncap_of r)" using r by (simp_all add: compiled_def)
  from r obtain m where m: "save_at ?P 0 0" "seg ?P ?T n 1 m" "save_at ?P m 1" "op_at ?P (m + 1) I_MATCH" "length ?P = m + 2"
    by (auto simp: compiled_def program_of_def)
  note C = seg_code_for [OF m(2) wf, of w]
  note s0 = rstep_at(8) [OF m(1), of ?T w] and s1 = rstep_at(8) [OF m(3), of ?T w] and fin = rstep_at(9) [OF m(4), of ?T w]
  have last: "pc = m + 1" if "op_at ?P pc I_MATCH" for pc
  proof -
    have "inst_ok ?P ?T (ncap_of r) pc" using ok that by (simp add: prog_ok_def op_at_def)
    then show ?thesis using that m(5) by (simp add: inst_ok_def op_at_def)
  qed
  show ?thesis
  proof
    assume "accepts r w s j c"
    then obtain pc where pc: "op_at ?P pc I_MATCH" "(rstep ?P ?T w)\<^sup>*\<^sup>* (0, s, replicate (ncap_of r) (- 1)) (pc, j, c)"
      by (auto simp: accepts_def)
    then obtain q where q: "(rstep ?P ?T w ^^ q) (0, s, replicate (ncap_of r) (- 1)) (m + 1, j, c)"
      using last [OF pc(1)] by (auto simp: rtranclp_power)
    have ne: "m + 1 \<noteq> 0" "m + 1 \<noteq> m" by simp_all
    from run_first [OF q ne(1)] obtain q1 t where "q = Suc q1"
      and q1: "rstep ?P ?T w (0, s, replicate (ncap_of r) (- 1)) t" "(rstep ?P ?T w ^^ q1) t (m + 1, j, c)" .
    have t: "t = (1, s, init_caps r s)" using q1(1) by (simp add: s0 init_caps_def)
    have "m + 1 \<notin> {1..<m}" by simp
    from code_for_leave [OF C q1(2) [unfolded t] this] obtain k u v where
      "k \<le> q1" "1 < m \<longrightarrow> 0 < k"
      and k: "mt n w (s, init_caps r s) (u, v)" "(rstep ?P ?T w ^^ (q1 - k)) (m, u, v) (m + 1, j, c)" .
    from run_first [OF k(2) ne(2)] obtain q2 t2 where "q1 - k = Suc q2"
      and q2: "rstep ?P ?T w (m, u, v) t2" "(rstep ?P ?T w ^^ q2) t2 (m + 1, j, c)" .
    have t2: "t2 = (m + 1, u, v[1 := c_int u])" using q2(1) by (simp add: s1)
    have "q2 = 0"
    proof (rule ccontr)
      assume "q2 \<noteq> 0"
      then obtain q3 where "q2 = Suc q3" by (cases q2) auto
      with relpowp_Suc_D2 [of q3 "rstep ?P ?T w" t2] q2(2) fin t2 show False by metis
    qed
    with q2(2) t2 have "j = u" "c = v[1 := c_int u]" by auto
    with k(1) show "\<exists>c1. mt n w (s, init_caps r s) (j, c1) \<and> c = c1[1 := c_int j]" by blast
  next
    assume "\<exists>c1. mt n w (s, init_caps r s) (j, c1) \<and> c = c1[1 := c_int j]"
    then obtain c1 where c1: "mt n w (s, init_caps r s) (j, c1)" "c = c1[1 := c_int j]" by blast
    have "rstep ?P ?T w (0, s, replicate (ncap_of r) (- 1)) (1, s, init_caps r s)" by (simp add: s0 init_caps_def)
    also have "(rstep ?P ?T w)\<^sup>*\<^sup>* (1, s, init_caps r s) (m, j, c1)" using code_for_reach [OF C c1(1)] .
    also have "rstep ?P ?T w (m, j, c1) (m + 1, j, c)" by (simp add: s1 c1(2))
    finally show "accepts r w s j c" using m(4) by (auto simp: accepts_def)
  qed
qed

end
