(* ===== verification/RxRun.thy ===== *)
theory RxRun
  imports RxVm
begin

section \<open>Regular expressions: the search finds the leftmost match\<close>

text \<open>
  Correctness of the virtual machine against the steps of a single thread: \<^const>\<open>addthread\<close> computes the
  closure under steps that consume nothing, \<^const>\<open>step_threads\<close> advances the list by a byte and
  \<^const>\<open>search_loop\<close> keeps, for every start that can still beat the match found so far, the reachable
  instructions.
\<close>

definition marks :: "tlist \<Rightarrow> nat set" where
  "marks l = {pc. pc < length (t_seen l) \<and> t_seen l ! pc = t_gen l}"

definition stops :: "inst list \<Rightarrow> nat \<Rightarrow> bool" where
  "stops P pc \<longleftrightarrow> in_op (P ! pc) \<in> {I_CHAR, I_CLASS, I_MATCH, I_ANY}"

text \<open>The invariant of a thread list: one thread for each marked instruction that consumes or accepts.\<close>

definition tl_ok :: "inst list \<Rightarrow> nat \<Rightarrow> tlist \<Rightarrow> bool" where
  "tl_ok P nc l \<longleftrightarrow> length (t_seen l) = length P \<and> distinct (map fst (t_list l)) \<and>
     set (map fst (t_list l)) = {q \<in> marks l. stops P q} \<and> (\<forall>(q, c) \<in> set (t_list l). length c = nc) \<and>
     (\<forall>x \<in> set (t_seen l). x \<le> t_gen l)"

lemma tl_ok_room:
  assumes "tl_ok P nc l" "pc < length P" "pc \<notin> marks l"
  shows "length (t_list l) < length P"
proof -
  have "set (map fst (t_list l)) \<subseteq> {..<length P} - {pc}"
    using assms by (auto simp: tl_ok_def marks_def)
  then have "card (set (map fst (t_list l))) \<le> card ({..<length P} - {pc})" by (intro card_mono) auto
  also have "\<dots> < length P" using assms(2) by simp
  finally show ?thesis using assms(1) distinct_card [of "map fst (t_list l)"] by (simp add: tl_ok_def)
qed

definition follows :: "inst list \<Rightarrow> nat \<Rightarrow> nat \<Rightarrow> nat \<Rightarrow> nat \<Rightarrow> bool" where
  "follows P len i q q' \<longleftrightarrow> (\<exists>c c'. eps P len i (q, c) (q', c'))"

text \<open>What a call of \<^const>\<open>addthread\<close> leaves behind.\<close>

definition added :: "inst list \<Rightarrow> nat \<Rightarrow> nat \<Rightarrow> nat \<Rightarrow> tlist \<Rightarrow> nat \<Rightarrow> int list \<Rightarrow> tlist \<Rightarrow> bool" where
  "added P nc len i l pc cap l' \<longleftrightarrow>
     tl_ok P nc l' \<and> t_gen l' = t_gen l \<and> marks l \<subseteq> marks l' \<and> pc \<in> marks l' \<and>
     (\<forall>q \<in> marks l' - marks l. \<forall>q'. follows P len i q q' \<longrightarrow> q' \<in> marks l') \<and>
     (\<exists>new. t_list l' = t_list l @ new \<and> (\<forall>t \<in> set new. (eps P len i)\<^sup>*\<^sup>* (pc, cap) t))"

lemma eps_ok:
  assumes "prog_ok P T nc" "eps P len i (pc, c) (pc', c')"
  shows "pc < length P" "pc' < length P" "0 < pc'" "length c' = length c"
proof -
  show "pc < length P" using assms(2) by (auto simp: eps_iff op_at_def)
  then have "inst_ok P T nc pc" using assms(1) by (simp add: prog_ok_def)
  then show "pc' < length P" "0 < pc'" "length c' = length c"
    using assms(2) by (auto simp: eps_iff op_at_def inst_ok_def)
qed

lemma follows_op:
  "follows P len i q q' \<Longrightarrow> q < length P \<Longrightarrow>
     (in_op (P ! q) = I_JMP \<and> q' = in_x (P ! q)) \<or> (in_op (P ! q) = I_SPLIT \<and> (q' = in_x (P ! q) \<or> q' = in_y (P ! q))) \<or>
     (in_op (P ! q) = I_SAVE \<and> q' = q + 1) \<or> (in_op (P ! q) = I_BOL \<and> i = 0 \<and> q' = q + 1) \<or>
     (in_op (P ! q) = I_EOL \<and> i = len \<and> q' = q + 1)"
  by (auto simp: follows_def eps_iff op_at_def)

definition mark :: "nat \<Rightarrow> tlist \<Rightarrow> tlist" where
  "mark pc l = l\<lparr>t_seen := (t_seen l)[pc := t_gen l]\<rparr>"

lemma marks_mark: "pc < length (t_seen l) \<Longrightarrow> marks (mark pc l) = insert pc (marks l)"
  by (auto simp: marks_def mark_def nth_list_update)

lemma mark_simps [simp]:
  "t_list (mark pc l) = t_list l" "t_gen (mark pc l) = t_gen l" "length (t_seen (mark pc l)) = length (t_seen l)"
  by (simp_all add: mark_def)

lemma seen_mark: "\<forall>x \<in> set (t_seen l). x \<le> t_gen l \<Longrightarrow> \<forall>x \<in> set (t_seen (mark pc l)). x \<le> t_gen l"
  using set_update_subset_insert [of "t_seen l" pc "t_gen l"] by (auto simp: mark_def)

lemma tl_ok_mark: "tl_ok P nc l \<Longrightarrow> pc < length P \<Longrightarrow> \<not> stops P pc \<Longrightarrow> tl_ok P nc (mark pc l)"
  using seen_mark [of l pc] by (auto simp: tl_ok_def marks_mark)

text \<open>After marking \<open>pc\<close>, a call for its only successor \<open>pc'\<close> (with capture vector \<open>cap'\<close>) finishes the work.\<close>

lemma addedI:
  assumes "tl_ok P nc l'" "t_gen l' = t_gen l" "insert pc (marks l) \<subseteq> marks l'"
    "\<And>q q'. q \<in> marks l' - marks l \<Longrightarrow> follows P len i q q' \<Longrightarrow> q' \<in> marks l'"
    "t_list l' = t_list l @ new" "\<forall>t \<in> set new. (eps P len i)\<^sup>*\<^sup>* (pc, cap) t"
  shows "added P nc len i l pc cap l'"
  unfolding added_def
proof (intro conjI ballI allI impI)
  show "\<exists>new. t_list l' = t_list l @ new \<and> (\<forall>t \<in> set new. (eps P len i)\<^sup>*\<^sup>* (pc, cap) t)"
    using assms(5,6) by (rule_tac x = new in exI) simp
qed (use assms(1-4) in auto)

lemma added_step:
  assumes "added P nc len i (mark pc l) pc' cap' l'" "pc < length P" "length (t_seen l) = length P"
    "eps P len i (pc, cap) (pc', cap')" "\<And>q'. follows P len i pc q' \<Longrightarrow> q' = pc'"
  shows "added P nc len i l pc cap l'"
proof -
  have m: "marks (mark pc l) = insert pc (marks l)" using marks_mark assms(2,3) by simp
  obtain new where new: "t_list l' = t_list l @ new" "\<forall>t \<in> set new. (eps P len i)\<^sup>*\<^sup>* (pc', cap') t"
    using assms(1) by (auto simp: added_def)
  have "\<forall>t \<in> set new. (eps P len i)\<^sup>*\<^sup>* (pc, cap) t"
    using new(2) assms(4) by (meson converse_rtranclp_into_rtranclp)
  note n = new(1) this
  have a: "tl_ok P nc l'" "t_gen l' = t_gen l" "insert pc (marks l) \<subseteq> marks l'" "pc' \<in> marks l'"
    "\<forall>q \<in> marks l' - insert pc (marks l). \<forall>q'. follows P len i q q' \<longrightarrow> q' \<in> marks l'"
    using assms(1) m by (simp_all add: added_def)
  have "q' \<in> marks l'" if "q \<in> marks l' - marks l" "follows P len i q q'" for q q'
  proof (cases "q = pc")
    case True
    from assms(5) [OF that(2) [unfolded True]] a(4) show ?thesis by simp
  next
    case False
    with a(5) that show ?thesis by blast
  qed
  then show ?thesis by (intro addedI [OF a(1-3) _ n])
qed

lemma added_stuck:
  assumes "tl_ok P nc l" "pc < length P" "\<not> stops P pc" "\<And>q'. \<not> follows P len i pc q'"
  shows "added P nc len i l pc cap (mark pc l)"
  using assms tl_ok_mark [OF assms(1-3)] marks_mark [of pc l] by (auto simp: added_def tl_ok_def)

lemma added_split:
  assumes one: "added P nc len i (mark pc l) x cap l1" and two: "added P nc len i l1 y cap l2"
    and pc: "pc < length P" "length (t_seen l) = length P" and op: "op_at P pc I_SPLIT" "in_x (P ! pc) = x" "in_y (P ! pc) = y"
  shows "added P nc len i l pc cap l2"
proof -
  have m: "marks (mark pc l) = insert pc (marks l)" using marks_mark pc by simp
  obtain n1 n2 where n: "t_list l1 = t_list l @ n1" "\<forall>t \<in> set n1. (eps P len i)\<^sup>*\<^sup>* (x, cap) t"
    "t_list l2 = t_list l1 @ n2" "\<forall>t \<in> set n2. (eps P len i)\<^sup>*\<^sup>* (y, cap) t"
    using one two by (auto simp: added_def)
  have "eps P len i (pc, cap) (x, cap)" "eps P len i (pc, cap) (y, cap)" using op by (auto simp: eps_iff)
  then have "\<forall>t \<in> set (n1 @ n2). (eps P len i)\<^sup>*\<^sup>* (pc, cap) t"
    using n(2,4) by (auto intro: converse_rtranclp_into_rtranclp)
  moreover have "t_list l2 = t_list l @ n1 @ n2" using n by simp
  moreover have "\<forall>q'. follows P len i pc q' \<longrightarrow> q' \<in> marks l2"
    using follows_op [of P len i pc] op one two pc(1) by (auto simp: added_def op_at_def)
  ultimately have n: "\<forall>t \<in> set (n1 @ n2). (eps P len i)\<^sup>*\<^sup>* (pc, cap) t" "t_list l2 = t_list l @ n1 @ n2"
    and f: "\<forall>q'. follows P len i pc q' \<longrightarrow> q' \<in> marks l2" by simp_all
  have a: "tl_ok P nc l2" "t_gen l2 = t_gen l" "insert pc (marks l) \<subseteq> marks l1" "marks l1 \<subseteq> marks l2"
    "\<forall>q \<in> marks l1 - insert pc (marks l). \<forall>q'. follows P len i q q' \<longrightarrow> q' \<in> marks l1"
    "\<forall>q \<in> marks l2 - marks l1. \<forall>q'. follows P len i q q' \<longrightarrow> q' \<in> marks l2"
    using one two m by (simp_all add: added_def)
  have "q' \<in> marks l2" if "q \<in> marks l2 - marks l" "follows P len i q q'" for q q'
  proof -
    have "q = pc \<or> q \<in> marks l1 - insert pc (marks l) \<or> q \<in> marks l2 - marks l1" using that(1) by blast
    then show ?thesis
    proof (elim disjE)
      assume "q \<in> marks l1 - insert pc (marks l)"
      then show ?thesis using a(4,5) that(2) by blast
    qed (use f a(6) that(2) in blast)+
  qed
  then show ?thesis
    by (intro addedI [OF a(1,2) _ _ n(2,1)]) (use a(3,4) in auto)
qed

theorem addthread_added:
  assumes ok: "prog_ok P T nc"
  shows "tl_ok P nc l \<Longrightarrow> pc < length P \<Longrightarrow> length cap = nc \<Longrightarrow>
    \<exists>l'. addthread P len l pc cap sp = Some l' \<and> added P nc len sp l pc cap l'"
proof (induction "card ({..<length P} - marks l)" arbitrary: l pc cap rule: less_induct)
  case less
  have len: "length (t_seen l) = length P" using less.prems(1) by (simp add: tl_ok_def)
  have i: "inst_ok P T nc pc" using ok less.prems(2) by (simp add: prog_ok_def)
  show ?case
  proof (cases "t_seen l ! pc = t_gen l")
    case True
    then have "addthread P len l pc cap sp = Some l" using less.prems(2) len by (subst addthread.simps) simp
    moreover have "pc \<in> marks l" using True less.prems(2) len by (simp add: marks_def)
    ultimately show ?thesis using less.prems(1) by (auto simp: added_def)
  next
    case False
    have nm: "pc \<notin> marks l" using False by (simp add: marks_def)
    have m: "marks (mark pc l) = insert pc (marks l)" using marks_mark less.prems(2) len by simp
    have unf: "addthread P len l pc cap sp =
        (case in_op (P ! pc) of
           I_JMP \<Rightarrow> addthread P len (mark pc l) (in_x (P ! pc)) cap sp
         | I_SPLIT \<Rightarrow> Option.bind (addthread P len (mark pc l) (in_x (P ! pc)) cap sp) (\<lambda>l. addthread P len l (in_y (P ! pc)) cap sp)
         | I_SAVE \<Rightarrow>
             if in_x (P ! pc) < length cap then addthread P len (mark pc l) (pc + 1) (cap[in_x (P ! pc) := c_int sp]) sp else None
         | I_BOL \<Rightarrow> if sp = 0 then addthread P len (mark pc l) (pc + 1) cap sp else Some (mark pc l)
         | I_EOL \<Rightarrow> if sp = len then addthread P len (mark pc l) (pc + 1) cap sp else Some (mark pc l)
         | _ \<Rightarrow> if length (t_list l) < length P then Some ((mark pc l)\<lparr>t_list := t_list l @ [(pc, cap)]\<rparr>) else None)"
      using less.prems(2) len False by (subst addthread.simps) (simp add: Let_def mark_def cong: opcode.case_cong)
    have fewer: "card ({..<length P} - marks l1) < card ({..<length P} - marks l)" if "insert pc (marks l) \<subseteq> marks l1" for l1
      using that less.prems(2) nm by (intro psubset_card_mono) auto
    note ih = less.hyps [OF fewer]
    have ih1: "\<exists>l'. addthread P len (mark pc l) x c sp = Some l' \<and> added P nc len sp (mark pc l) x c l'"
      if "\<not> stops P pc" "x < length P" "length c = nc" for x c
      using ih [of "mark pc l" x c] m tl_ok_mark [OF less.prems(1,2)] that by simp
    have stuck: "added P nc len sp l pc cap (mark pc l)" if "\<not> stops P pc" "\<And>q'. \<not> follows P len sp pc q'"
      using added_stuck [OF less.prems(1,2)] that by blast
    have stop: ?thesis
      if s: "stops P pc" "addthread P len l pc cap sp =
        (if length (t_list l) < length P then Some ((mark pc l)\<lparr>t_list := t_list l @ [(pc, cap)]\<rparr>) else None)"
    proof -
      let ?l = "(mark pc l)\<lparr>t_list := t_list l @ [(pc, cap)]\<rparr>"
      have mm: "marks ?l = insert pc (marks l)" using m by (simp add: marks_def)
      have "\<not> follows P len sp pc q'" for q'
        using s(1) follows_op [of P len sp pc q'] less.prems(2) by (auto simp: stops_def)
      moreover have "tl_ok P nc ?l"
        using less.prems nm s(1) seen_mark [of l pc] by (auto simp: tl_ok_def mm)
      ultimately have "added P nc len sp l pc cap ?l" using mm by (auto simp: added_def)
      with s(2) tl_ok_room [OF less.prems(1,2) nm] show ?thesis by simp
    qed
    show ?thesis
    proof (cases "in_op (P ! pc)")
      case I_CHAR
      then show ?thesis using stop unf by (simp add: stops_def)
    next
      case I_ANY
      then show ?thesis using stop unf by (simp add: stops_def)
    next
      case I_CLASS
      then show ?thesis using stop unf by (simp add: stops_def)
    next
      case I_MATCH
      then show ?thesis using stop unf by (simp add: stops_def)
    next
      case op: I_JMP
      then have x: "in_x (P ! pc) < length P" using i by (simp add: inst_ok_def)
      from ih1 [OF _ x less.prems(3)] op obtain l' where
        l': "addthread P len (mark pc l) (in_x (P ! pc)) cap sp = Some l'" "added P nc len sp (mark pc l) (in_x (P ! pc)) cap l'"
        by (auto simp: stops_def)
      have "added P nc len sp l pc cap l'"
        by (rule added_step [OF l'(2) less.prems(2) len])
          (use op less.prems(2) follows_op [of P len sp pc] in \<open>auto simp: eps_iff op_at_def\<close>)
      then show ?thesis using unf op l'(1) by simp
    next
      case op: I_SPLIT
      then have x: "in_x (P ! pc) < length P" "in_y (P ! pc) < length P" using i by (simp_all add: inst_ok_def)
      from ih1 [OF _ x(1) less.prems(3)] op obtain l1 where
        l1: "addthread P len (mark pc l) (in_x (P ! pc)) cap sp = Some l1" "added P nc len sp (mark pc l) (in_x (P ! pc)) cap l1"
        by (auto simp: stops_def)
      have "insert pc (marks l) \<subseteq> marks l1" "tl_ok P nc l1" using l1(2) m by (auto simp: added_def)
      from ih [OF this x(2) less.prems(3)] obtain l2 where
        l2: "addthread P len l1 (in_y (P ! pc)) cap sp = Some l2" "added P nc len sp l1 (in_y (P ! pc)) cap l2" by blast
      have "added P nc len sp l pc cap l2"
        by (rule added_split [OF l1(2) l2(2) less.prems(2) len]) (use op less.prems(2) in \<open>simp_all add: op_at_def\<close>)
      then show ?thesis using unf op l1(1) l2(1) by simp
    next
      case op: I_SAVE
      then have x: "pc + 1 < length P" "in_x (P ! pc) < nc" using i by (simp_all add: inst_ok_def)
      from ih1 [OF _ x(1), of "cap[in_x (P ! pc) := c_int sp]"] op less.prems(3) obtain l' where
        l': "addthread P len (mark pc l) (pc + 1) (cap[in_x (P ! pc) := c_int sp]) sp = Some l'"
          "added P nc len sp (mark pc l) (pc + 1) (cap[in_x (P ! pc) := c_int sp]) l'"
        by (auto simp: stops_def)
      have "added P nc len sp l pc cap l'"
        by (rule added_step [OF l'(2) less.prems(2) len])
          (use op less.prems(2) follows_op [of P len sp pc] in \<open>auto simp: eps_iff op_at_def\<close>)
      then show ?thesis using unf op l'(1) x(2) less.prems(3) by simp
    next
      case op: I_BOL
      then have x: "pc + 1 < length P" using i by (simp add: inst_ok_def)
      show ?thesis
      proof (cases "sp = 0")
        case True
        from ih1 [OF _ x less.prems(3)] op obtain l' where
          l': "addthread P len (mark pc l) (pc + 1) cap sp = Some l'" "added P nc len sp (mark pc l) (pc + 1) cap l'"
          by (auto simp: stops_def)
        have "added P nc len sp l pc cap l'"
          by (rule added_step [OF l'(2) less.prems(2) len])
            (use op True less.prems(2) follows_op [of P len sp pc] in \<open>auto simp: eps_iff op_at_def\<close>)
        then show ?thesis using unf op l'(1) True by simp
      next
        case False
        then have "added P nc len sp l pc cap (mark pc l)"
          using op follows_op [of P len sp pc] less.prems(2) by (intro stuck) (auto simp: stops_def)
        then show ?thesis using unf op False by simp
      qed
    next
      case op: I_EOL
      then have x: "pc + 1 < length P" using i by (simp add: inst_ok_def)
      show ?thesis
      proof (cases "sp = len")
        case True
        from ih1 [OF _ x less.prems(3)] op obtain l' where
          l': "addthread P len (mark pc l) (pc + 1) cap sp = Some l'" "added P nc len sp (mark pc l) (pc + 1) cap l'"
          by (auto simp: stops_def)
        have "added P nc len sp l pc cap l'"
          by (rule added_step [OF l'(2) less.prems(2) len])
            (use op True less.prems(2) follows_op [of P len sp pc] in \<open>auto simp: eps_iff op_at_def\<close>)
        then show ?thesis using unf op l'(1) True by simp
      next
        case False
        then have "added P nc len sp l pc cap (mark pc l)"
          using op follows_op [of P len sp pc] less.prems(2) by (intro stuck) (auto simp: stops_def)
        then show ?thesis using unf op False by simp
      qed
    qed
  qed
qed


subsection \<open>Runs of one thread\<close>

abbreviation cap0 :: "regex \<Rightarrow> int list" where
  "cap0 r \<equiv> replicate (ncap_of r) (- 1)"

definition run_from :: "regex \<Rightarrow> string \<Rightarrow> nat \<Rightarrow> nat \<times> nat \<times> int list \<Rightarrow> bool" where
  "run_from r w s t \<longleftrightarrow> (rstep (rx_prog r) (rx_sets r) w)\<^sup>*\<^sup>* (0, s, cap0 r) t"

definition safe :: "regex \<Rightarrow> bool" where
  "safe r \<longleftrightarrow> prog_ok (rx_prog r) (rx_sets r) (ncap_of r)"

lemma run_from_start: "run_from r w s (0, s, cap0 r)"
  by (simp add: run_from_def)

lemma run_from_step: "run_from r w s t \<Longrightarrow> rstep (rx_prog r) (rx_sets r) w t u \<Longrightarrow> run_from r w s u"
  by (simp add: run_from_def)

lemma run_from_eps:
  assumes "(eps (rx_prog r) (length w) i)\<^sup>*\<^sup>* (pc, c) t" "run_from r w s (pc, i, c)"
  shows "run_from r w s (fst t, i, snd t)"
  using assms
proof (induction t rule: rtranclp_induct)
  case (step t u)
  then have "rstep (rx_prog r) (rx_sets r) w (fst t, i, snd t) (fst u, i, snd u)"
    by (intro rstep_eps) simp
  with step show ?case by (blast intro: run_from_step)
qed simp

lemma takes_ok:
  assumes "prog_ok P T nc" "takes P T w pc i"
  shows "pc < length P" "pc + 1 < length P" "stops P pc" "i < length w"
proof -
  show p: "pc < length P" and "stops P pc" "i < length w" using assms(2) by (auto simp: takes_def op_at_def stops_def)
  then have "inst_ok P T nc pc" using assms(1) by (simp add: prog_ok_def)
  then show "pc + 1 < length P" using assms(2) by (auto simp: takes_def op_at_def inst_ok_def)
qed

text \<open>A state on a run: slot 0 holds the start once the first instruction has been left.\<close>

lemma run_from_state:
  assumes "safe r" "run_from r w s t" "s \<le> length w"
  shows "fst t < length (rx_prog r)" "s \<le> fst (snd t)" "fst (snd t) \<le> length w" "length (snd (snd t)) = ncap_of r"
    "fst t = 0 \<and> t = (0, s, cap0 r) \<or> 0 < fst t \<and> snd (snd t) ! 0 = c_int s"
proof -
  let ?P = "rx_prog r"
  note ok = assms(1) [unfolded safe_def]
  have "fst t < length ?P \<and> s \<le> fst (snd t) \<and> fst (snd t) \<le> length w \<and> length (snd (snd t)) = ncap_of r \<and>
    (fst t = 0 \<and> t = (0, s, cap0 r) \<or> 0 < fst t \<and> snd (snd t) ! 0 = c_int s)"
    using assms(2) unfolding run_from_def
  proof (induction t rule: rtranclp_induct)
    case base
    then show ?case using ok assms(3) by (auto simp: prog_ok_def save_at_def op_at_def)
  next
    case (step t u)
    obtain pc i c where t: "t = (pc, i, c)" by (cases t)
    have nc: "0 < ncap_of r" by (simp add: ncap_of_def)
    from step.hyps(2) consider
      (e) pc' c' where "eps ?P (length w) i (pc, c) (pc', c')" "u = (pc', i, c')"
      | (k) "takes ?P (rx_sets r) w pc i" "u = (pc + 1, i + 1, c)"
      unfolding t rstep_iff by blast
    then show ?case
    proof cases
      case e
      have i: "inst_ok ?P (rx_sets r) (ncap_of r) pc" using ok eps_ok(1) [OF ok e(1)] by (simp add: prog_ok_def)
      have slot: "c' ! 0 = (if in_op (?P ! pc) = I_SAVE \<and> pc = 0 then c_int i else c ! 0)"
        using e(1) i step.IH nc by (auto simp: eps_iff op_at_def t inst_ok_def nth_list_update split: if_splits)
      have "c' ! 0 = c_int s"
      proof (cases "pc = 0")
        case True
        then have "c = cap0 r" "i = s" using step.IH t by auto
        moreover have "in_op (?P ! 0) = I_SAVE" using ok by (simp add: prog_ok_def save_at_def op_at_def)
        ultimately show ?thesis using slot True by simp
      next
        case False
        then show ?thesis using slot step.IH t by simp
      qed
      then show ?thesis using e eps_ok [OF ok e(1)] step.IH t by simp
    next
      case k
      have "pc \<noteq> 0"
      proof
        assume "pc = 0"
        then show False using k(1) ok by (auto simp: takes_def op_at_def prog_ok_def save_at_def)
      qed
      then show ?thesis using takes_ok [OF ok k(1)] step.IH t k(2) by simp
    qed
  qed
  then show "fst t < length ?P" "s \<le> fst (snd t)" "fst (snd t) \<le> length w" "length (snd (snd t)) = ncap_of r"
    "fst t = 0 \<and> t = (0, s, cap0 r) \<or> 0 < fst t \<and> snd (snd t) ! 0 = c_int s"
    by blast+
qed


text \<open>A run from \<open>s\<close> to a later position passes a state at every position between, and leaves it by
  consuming a byte.\<close>

lemma run_crosses:
  assumes "safe r" "run_from r w s t" "s \<le> sp" "sp < fst (snd t)"
  shows "\<exists>p c. run_from r w s (p, sp, c) \<and> takes (rx_prog r) (rx_sets r) w p sp \<and>
    (rstep (rx_prog r) (rx_sets r) w)\<^sup>*\<^sup>* (p + 1, sp + 1, c) t"
  using assms(2,4) unfolding run_from_def
proof (induction t rule: rtranclp_induct)
  case base
  then show ?case using assms(3) by simp
next
  case (step t u)
  obtain pc i c where t: "t = (pc, i, c)" by (cases t)
  show ?case
  proof (cases "sp < i")
    case True
    with step.IH t obtain p d where "(rstep (rx_prog r) (rx_sets r) w)\<^sup>*\<^sup>* (0, s, cap0 r) (p, sp, d)"
      "takes (rx_prog r) (rx_sets r) w p sp" "(rstep (rx_prog r) (rx_sets r) w)\<^sup>*\<^sup>* (p + 1, sp + 1, d) t" by auto
    with step.hyps(2) show ?thesis by (meson rtranclp.rtrancl_into_rtrancl)
  next
    case False
    with step.hyps(2) step.prems t have "takes (rx_prog r) (rx_sets r) w pc i" "u = (pc + 1, i + 1, c)" "i = sp"
      by (auto simp: rstep_iff)
    with step.hyps(1) t show ?thesis by auto
  qed
qed

text \<open>A run that stays at its position is a chain of steps that consume nothing.\<close>

lemma run_stays:
  assumes "(rstep P T w)\<^sup>*\<^sup>* t u" "fst (snd u) = fst (snd t)"
  shows "(follows P (length w) (fst (snd t)))\<^sup>*\<^sup>* (fst t) (fst u)"
proof -
  have mono: "fst (snd a) \<le> fst (snd b)" if "(rstep P T w)\<^sup>*\<^sup>* a b" for a b
    using that
  proof (induction b rule: rtranclp_induct)
    case (step b b')
    then show ?case by (cases b) (auto simp: rstep_iff)
  qed simp
  show ?thesis using assms
  proof (induction u rule: rtranclp_induct)
    case (step u v)
    have i: "fst (snd u) = fst (snd t)"
      using mono [OF step.hyps(1)] mono [OF r_into_rtranclp [of "rstep P T w", OF step.hyps(2)]] step.prems by simp
    have "follows P (length w) (fst (snd t)) (fst u) (fst v)"
      using step.hyps(2) step.prems i unfolding follows_def by (cases u) (auto simp: rstep_iff, blast)
    with step.IH [OF i] show ?case by simp
  qed simp
qed

definition closed_at :: "regex \<Rightarrow> string \<Rightarrow> nat \<Rightarrow> tlist \<Rightarrow> bool" where
  "closed_at r w i l \<longleftrightarrow> (\<forall>q \<in> marks l. \<forall>q'. follows (rx_prog r) (length w) i q q' \<longrightarrow> q' \<in> marks l)"

lemma closed_chain:
  assumes "(follows (rx_prog r) (length w) i)\<^sup>*\<^sup>* q q'" "closed_at r w i l" "q \<in> marks l"
  shows "q' \<in> marks l"
  using assms by (induction q' rule: rtranclp_induct) (auto simp: closed_at_def)

lemma sorted_const: "\<forall>x \<in> set xs. x = (a :: int) \<Longrightarrow> sorted xs"
  by (induction xs) auto

subsection \<open>The invariant of the thread lists\<close>

text \<open>A list at position \<open>i\<close>: threads on runs from starts in \<open>from..hi\<close>, in the order of their starts.\<close>

definition threads_ok :: "regex \<Rightarrow> string \<Rightarrow> nat \<Rightarrow> nat \<Rightarrow> nat \<Rightarrow> tlist \<Rightarrow> bool" where
  "threads_ok r w from hi i l \<longleftrightarrow>
     tl_ok (rx_prog r) (ncap_of r) l \<and> closed_at r w i l \<and>
     (\<forall>(q, c) \<in> set (t_list l). \<exists>s. from \<le> s \<and> s \<le> hi \<and> run_from r w s (q, i, c)) \<and>
     sorted (map (\<lambda>(q, c). c ! 0) (t_list l))"

definition covers :: "regex \<Rightarrow> string \<Rightarrow> nat \<Rightarrow> nat \<Rightarrow> tlist \<Rightarrow> bool" where
  "covers r w i s l \<longleftrightarrow> (\<forall>q c. run_from r w s (q, i, c) \<longrightarrow> stops (rx_prog r) q \<longrightarrow>
     (\<exists>d. (q, d) \<in> set (t_list l) \<and> d ! 0 \<le> int s))"

lemma c_int_small: "n < 2 ^ 31 \<Longrightarrow> c_int n = int n"
  by (simp add: c_int_def signed_take_bit_int_eq_self)

lemma thread_slot:
  assumes "safe r" "length w < 2 ^ 31" "run_from r w s (q, i, c)" "s \<le> length w" "q \<noteq> 0"
  shows "c ! 0 = int s"
  using run_from_state(5) [OF assms(1,3,4)] assms(2,4,5) c_int_small [of s] by simp

lemma stops_nonzero: "safe r \<Longrightarrow> stops (rx_prog r) q \<Longrightarrow> q \<noteq> 0"
  by (cases "q = 0") (auto simp: safe_def prog_ok_def save_at_def op_at_def stops_def)

lemma tl_ok_stops: "tl_ok P nc l \<Longrightarrow> (q, c) \<in> set (t_list l) \<Longrightarrow> stops P q \<and> q \<in> marks l \<and> q < length P \<and> length c = nc"
proof -
  assume a: "tl_ok P nc l" "(q, c) \<in> set (t_list l)"
  then have "q \<in> set (map fst (t_list l))" by force
  then show ?thesis using a by (auto simp: tl_ok_def marks_def)
qed

lemma tl_ok_thread: "tl_ok P nc l \<Longrightarrow> q \<in> marks l \<Longrightarrow> stops P q \<Longrightarrow> \<exists>c. (q, c) \<in> set (t_list l)"
proof -
  assume "tl_ok P nc l" "q \<in> marks l" "stops P q"
  then have "q \<in> set (map fst (t_list l))" by (auto simp: tl_ok_def)
  then show ?thesis by auto
qed

text \<open>Adding a thread that starts at \<open>s\<close>, later than every thread of the list.\<close>

lemma add_thread:
  assumes r: "safe r" "length w < 2 ^ 31" and l: "threads_ok r w from hi i l"
    and t: "run_from r w s (pc, i, c)" "s \<le> length w" "from \<le> s" "s \<le> hi"
    and late: "\<forall>(q, d) \<in> set (t_list l). d ! 0 \<le> int s"
  shows "\<exists>l'. addthread (rx_prog r) (length w) l pc c i = Some l' \<and> threads_ok r w from hi i l' \<and>
    marks l \<subseteq> marks l' \<and> pc \<in> marks l' \<and> set (t_list l) \<subseteq> set (t_list l') \<and>
    (\<forall>(q, d) \<in> set (t_list l'). d ! 0 \<le> int s) \<and> t_gen l' = t_gen l"
proof -
  let ?P = "rx_prog r"
  note st = run_from_state [OF r(1) t(1,2), simplified]
  have tl: "tl_ok ?P (ncap_of r) l" using l by (simp add: threads_ok_def)
  from addthread_added [OF r(1) [unfolded safe_def] tl st(1,4)] obtain l' where
    l': "addthread ?P (length w) l pc c i = Some l'" "added ?P (ncap_of r) (length w) i l pc c l'" by blast
  then obtain new where new: "t_list l' = t_list l @ new" "\<forall>t \<in> set new. (eps ?P (length w) i)\<^sup>*\<^sup>* (pc, c) t"
    by (auto simp: added_def)
  have runs: "run_from r w s (q, i, d)" if "(q, d) \<in> set new" for q d
  proof -
    have "(eps ?P (length w) i)\<^sup>*\<^sup>* (pc, c) (q, d)" using new(2) that by blast
    from run_from_eps [OF this t(1)] show ?thesis by simp
  qed
  have tl': "tl_ok ?P (ncap_of r) l'" using l'(2) by (simp add: added_def)
  have slot: "d ! 0 = int s" if "(q, d) \<in> set new" for q d
  proof -
    have "(q, d) \<in> set (t_list l')" using that new(1) by simp
    from tl_ok_stops [OF tl' this] stops_nonzero [OF r(1)] have "q \<noteq> 0" by blast
    with thread_slot [OF r runs [OF that] t(2)] show ?thesis by simp
  qed
  have "closed_at r w i l'"
    using l l'(2) unfolding closed_at_def threads_ok_def added_def by blast
  moreover have "sorted (map (\<lambda>(q, c). c ! 0) (t_list l'))"
  proof -
    have "\<forall>x \<in> set (map (\<lambda>(q, c). c ! 0) new). x = int s" using slot by auto
    moreover have "\<forall>x \<in> set (map (\<lambda>(q, c). c ! 0) (t_list l)). x \<le> int s" using late by auto
    moreover have "sorted (map (\<lambda>(q, c). c ! 0) (t_list l))" using l by (simp add: threads_ok_def)
    ultimately show ?thesis using sorted_const [of "map (\<lambda>(q, c). c ! 0) new" "int s"]
      unfolding new(1) map_append sorted_append by metis
  qed
  moreover have "\<forall>(q, d) \<in> set (t_list l'). \<exists>s. from \<le> s \<and> s \<le> hi \<and> run_from r w s (q, i, d)"
    using l runs t(3,4) new(1) by (auto simp: threads_ok_def)
  ultimately have "threads_ok r w from hi i l'" using tl' by (simp add: threads_ok_def)
  moreover have "\<forall>(q, d) \<in> set (t_list l'). d ! 0 \<le> int s" using late slot new(1) by auto
  ultimately show ?thesis using l' new(1) by (auto simp: added_def)
qed


subsection \<open>Advancing the list by one byte\<close>

definition accepting :: "regex \<Rightarrow> nat \<times> int list \<Rightarrow> bool" where
  "accepting r t \<longleftrightarrow> in_op (rx_prog r ! fst t) = I_MATCH"

text \<open>The threads that run, and the match the step ends with.\<close>

definition ahead :: "regex \<Rightarrow> (nat \<times> int list) list \<Rightarrow> (nat \<times> int list) list" where
  "ahead r ts = takeWhile (\<lambda>t. \<not> accepting r t) ts"

definition new_match :: "regex \<Rightarrow> (nat \<times> int list) list \<Rightarrow> int list option \<Rightarrow> int list option" where
  "new_match r ts m = (case dropWhile (\<lambda>t. \<not> accepting r t) ts of [] \<Rightarrow> m | t # _ \<Rightarrow> Some (snd t))"

lemma step_threads_Cons:
  "step_threads r w sp ((pc, tc) # ts) nl m =
     (if accepting r (pc, tc) then Some (nl, Some tc)
      else if pc < length (rx_prog r) \<and> takes (rx_prog r) (rx_sets r) w pc sp
      then Option.bind (addthread (rx_prog r) (length w) nl (pc + 1) tc (sp + 1)) (\<lambda>nl. step_threads r w sp ts nl m)
      else step_threads r w sp ts nl m)"
  if "pc < length (rx_prog r)"
  using that by (auto simp: Let_def accepting_def takes_def op_at_def split: opcode.split)

lemma step_threads_ok:
  assumes r: "safe r" "length w < 2 ^ 31" and hi: "hi \<le> length w"
  shows "\<forall>(q, c) \<in> set ts. \<exists>s. from \<le> s \<and> s \<le> hi \<and> run_from r w s (q, sp, c) \<and> q \<noteq> 0 \<Longrightarrow>
    sorted (map (\<lambda>(q, c). c ! 0) ts) \<Longrightarrow> threads_ok r w from hi (sp + 1) nl \<Longrightarrow>
    \<forall>(q, c) \<in> set (t_list nl). \<forall>(p, d) \<in> set ts. c ! 0 \<le> d ! 0 \<Longrightarrow>
    \<exists>nl'. step_threads r w sp ts nl m = Some (nl', new_match r ts m) \<and> threads_ok r w from hi (sp + 1) nl' \<and>
      marks nl \<subseteq> marks nl' \<and> set (t_list nl) \<subseteq> set (t_list nl') \<and>
      (\<forall>(q, c) \<in> set (t_list nl'). (q, c) \<in> set (t_list nl) \<or> (\<exists>(p, d) \<in> set (ahead r ts). c ! 0 \<le> d ! 0)) \<and>
      (\<forall>(p, d) \<in> set (ahead r ts). takes (rx_prog r) (rx_sets r) w p sp \<longrightarrow>
         (\<forall>q. (follows (rx_prog r) (length w) (sp + 1))\<^sup>*\<^sup>* (p + 1) q \<longrightarrow> stops (rx_prog r) q \<longrightarrow>
            (\<exists>c. (q, c) \<in> set (t_list nl') \<and> c ! 0 \<le> d ! 0)))"
proof (induction ts arbitrary: nl)
  case Nil
  then show ?case by (simp add: new_match_def ahead_def)
next
  case (Cons t ts)
  obtain pc tc where t: "t = (pc, tc)" by (cases t)
  from Cons.prems(1) t obtain s where s: "from \<le> s" "s \<le> hi" "run_from r w s (pc, sp, tc)" "pc \<noteq> 0" by auto
  have sl: "s \<le> length w" using s(2) hi by simp
  have pcl: "pc < length (rx_prog r)" using run_from_state(1) [OF r(1) s(3) sl] by simp
  have slot: "tc ! 0 = int s" using thread_slot [OF r s(3) sl s(4)] .
  note eq = step_threads_Cons [OF pcl, of w sp tc ts nl m]
  show ?case
  proof (cases "accepting r (pc, tc)")
    case True
    then have "new_match r (t # ts) m = Some tc" "ahead r (t # ts) = []" by (simp_all add: new_match_def ahead_def t)
    with eq True Cons.prems(3) show ?thesis by (auto simp: t)
  next
    case na: False
    have nm: "new_match r (t # ts) m = new_match r ts m" "ahead r (t # ts) = t # ahead r ts"
      using na by (simp_all add: new_match_def ahead_def t)
    have ts: "\<forall>(q, c) \<in> set ts. \<exists>s. from \<le> s \<and> s \<le> hi \<and> run_from r w s (q, sp, c) \<and> q \<noteq> 0"
      "sorted (map (\<lambda>(q, c). c ! 0) ts)" "\<forall>(p, d) \<in> set ts. tc ! 0 \<le> d ! 0"
      using Cons.prems(1,2) by (auto simp: t)
    show ?thesis
    proof (cases "takes (rx_prog r) (rx_sets r) w pc sp")
      case False
      have "\<forall>(q, c) \<in> set (t_list nl). \<forall>(p, d) \<in> set ts. c ! 0 \<le> d ! 0" using Cons.prems(4) by (auto simp: t)
      from Cons.IH [OF ts(1,2) Cons.prems(3) this] obtain nl' where
        nl': "step_threads r w sp ts nl m = Some (nl', new_match r ts m)" "threads_ok r w from hi (sp + 1) nl'"
        "marks nl \<subseteq> marks nl'" "set (t_list nl) \<subseteq> set (t_list nl')"
        "\<forall>(q, c) \<in> set (t_list nl'). (q, c) \<in> set (t_list nl) \<or> (\<exists>(p, d) \<in> set (ahead r ts). c ! 0 \<le> d ! 0)"
        "\<forall>(p, d) \<in> set (ahead r ts). takes (rx_prog r) (rx_sets r) w p sp \<longrightarrow>
         (\<forall>q. (follows (rx_prog r) (length w) (sp + 1))\<^sup>*\<^sup>* (p + 1) q \<longrightarrow> stops (rx_prog r) q \<longrightarrow>
            (\<exists>c. (q, c) \<in> set (t_list nl') \<and> c ! 0 \<le> d ! 0))" by blast
      have "step_threads r w sp (t # ts) nl m = Some (nl', new_match r (t # ts) m)"
        using eq na False nl'(1) nm(1) by (simp add: t)
      moreover have "\<forall>(q, c) \<in> set (t_list nl'). (q, c) \<in> set (t_list nl) \<or> (\<exists>(p, d) \<in> set (ahead r (t # ts)). c ! 0 \<le> d ! 0)"
        using nl'(5) nm(2) by fastforce
      moreover have "\<forall>(p, d) \<in> set (ahead r (t # ts)). takes (rx_prog r) (rx_sets r) w p sp \<longrightarrow>
         (\<forall>q. (follows (rx_prog r) (length w) (sp + 1))\<^sup>*\<^sup>* (p + 1) q \<longrightarrow> stops (rx_prog r) q \<longrightarrow>
            (\<exists>c. (q, c) \<in> set (t_list nl') \<and> c ! 0 \<le> d ! 0))"
        using nl'(6) nm(2) False by (simp add: t)
      ultimately show ?thesis using nl'(2-4) by blast
    next
      case tk: True
      have run1: "run_from r w s (pc + 1, sp + 1, tc)" using run_from_step [OF s(3) rstep_take [OF tk]] .
      have late: "\<forall>(q, d) \<in> set (t_list nl). d ! 0 \<le> int s" using Cons.prems(4) slot by (auto simp: t)
      from add_thread [OF r Cons.prems(3) run1 sl s(1,2) late] obtain n1 where
        n1: "addthread (rx_prog r) (length w) nl (pc + 1) tc (sp + 1) = Some n1" "threads_ok r w from hi (sp + 1) n1"
        "marks nl \<subseteq> marks n1" "pc + 1 \<in> marks n1" "set (t_list nl) \<subseteq> set (t_list n1)"
        "\<forall>(q, d) \<in> set (t_list n1). d ! 0 \<le> int s" by blast
      have "\<forall>(q, c) \<in> set (t_list n1). \<forall>(p, d) \<in> set ts. c ! 0 \<le> d ! 0" using n1(6) ts(3) slot by fastforce
      from Cons.IH [OF ts(1,2) n1(2) this] obtain nl' where
        nl': "step_threads r w sp ts n1 m = Some (nl', new_match r ts m)" "threads_ok r w from hi (sp + 1) nl'"
        "marks n1 \<subseteq> marks nl'" "set (t_list n1) \<subseteq> set (t_list nl')"
        "\<forall>(q, c) \<in> set (t_list nl'). (q, c) \<in> set (t_list n1) \<or> (\<exists>(p, d) \<in> set (ahead r ts). c ! 0 \<le> d ! 0)"
        "\<forall>(p, d) \<in> set (ahead r ts). takes (rx_prog r) (rx_sets r) w p sp \<longrightarrow>
         (\<forall>q. (follows (rx_prog r) (length w) (sp + 1))\<^sup>*\<^sup>* (p + 1) q \<longrightarrow> stops (rx_prog r) q \<longrightarrow>
            (\<exists>c. (q, c) \<in> set (t_list nl') \<and> c ! 0 \<le> d ! 0))" by blast
      have mine: "\<exists>c. (q, c) \<in> set (t_list nl') \<and> c ! 0 \<le> tc ! 0"
        if fol: "(follows (rx_prog r) (length w) (sp + 1))\<^sup>*\<^sup>* (pc + 1) q" and sq: "stops (rx_prog r) q" for q
      proof -
        have "q \<in> marks n1" using closed_chain [OF fol _ n1(4)] n1(2) by (simp add: threads_ok_def)
        then obtain c where "(q, c) \<in> set (t_list n1)" using tl_ok_thread n1(2) sq by (metis threads_ok_def)
        then show ?thesis using n1(6) slot nl'(4) by auto
      qed
      have "step_threads r w sp (t # ts) nl m = Some (nl', new_match r (t # ts) m)"
        using eq na tk pcl n1(1) nl'(1) nm(1) by (simp add: t)
      moreover have "\<forall>(q, c) \<in> set (t_list nl'). (q, c) \<in> set (t_list nl) \<or> (\<exists>(p, d) \<in> set (ahead r (t # ts)). c ! 0 \<le> d ! 0)"
        using nl'(5) n1(6) slot nm(2) by (fastforce simp: t)
      moreover have "\<forall>(p, d) \<in> set (ahead r (t # ts)). takes (rx_prog r) (rx_sets r) w p sp \<longrightarrow>
         (\<forall>q. (follows (rx_prog r) (length w) (sp + 1))\<^sup>*\<^sup>* (p + 1) q \<longrightarrow> stops (rx_prog r) q \<longrightarrow>
            (\<exists>c. (q, c) \<in> set (t_list nl') \<and> c ! 0 \<le> d ! 0))"
        using nl'(6) nm(2) mine by (simp add: t)
      moreover have "marks nl \<subseteq> marks nl'" "set (t_list nl) \<subseteq> set (t_list nl')" using n1 nl' by blast+
      ultimately show ?thesis using nl'(2) by blast
    qed
  qed
qed


subsection \<open>The loop of the search\<close>

text \<open>A start that can still replace the match found so far.\<close>

definition better :: "int list option \<Rightarrow> nat \<Rightarrow> bool" where
  "better m s \<longleftrightarrow> (case m of None \<Rightarrow> True | Some out \<Rightarrow> int s < out ! 0)"

definition found :: "regex \<Rightarrow> string \<Rightarrow> nat \<Rightarrow> nat \<Rightarrow> int list option \<Rightarrow> bool" where
  "found r w from sp m \<longleftrightarrow> (\<forall>out. m = Some out \<longrightarrow>
     (\<exists>s j. from \<le> s \<and> s \<le> length w \<and> j < sp \<and> accepts r w s j out \<and> out ! 0 = int s))"

definition settled :: "regex \<Rightarrow> string \<Rightarrow> nat \<Rightarrow> nat \<Rightarrow> int list option \<Rightarrow> bool" where
  "settled r w from sp m \<longleftrightarrow> (\<forall>s j c. from \<le> s \<longrightarrow> s \<le> length w \<longrightarrow> j < sp \<longrightarrow> accepts r w s j c \<longrightarrow> \<not> better m s)"

definition search_inv :: "regex \<Rightarrow> string \<Rightarrow> nat \<Rightarrow> nat \<Rightarrow> tlist \<Rightarrow> tlist \<Rightarrow> int list option \<Rightarrow> bool" where
  "search_inv r w from sp cl nl m \<longleftrightarrow>
     threads_ok r w from (length w) sp cl \<and>
     length (t_seen nl) = length (rx_prog r) \<and> (\<forall>x \<in> set (t_seen nl). x \<le> t_gen nl) \<and>
     found r w from sp m \<and> settled r w from sp m \<and>
     (\<forall>out. m = Some out \<longrightarrow> (\<forall>(q, c) \<in> set (t_list cl). c ! 0 \<le> out ! 0)) \<and>
     (\<forall>s. from \<le> s \<longrightarrow> s < sp \<longrightarrow> better m s \<longrightarrow> covers r w sp s cl)"

lemma found_later: "found r w from sp m \<Longrightarrow> sp \<le> sp' \<Longrightarrow> found r w from sp' m"
  unfolding found_def by (metis less_le_trans)

lemma accepts_run:
  "accepts r w s j c \<longleftrightarrow> (\<exists>pc. op_at (rx_prog r) pc I_MATCH \<and> run_from r w s (pc, j, c))"
  by (simp add: accepts_def run_from_def)

lemma op_match_stops: "op_at P pc I_MATCH \<Longrightarrow> stops P pc"
  by (simp add: op_at_def stops_def)

lemma cleared_ok:
  assumes "length (t_seen nl) = length (rx_prog r)" "\<forall>x \<in> set (t_seen nl). x \<le> t_gen nl"
  shows "threads_ok r w from hi i (tl_clear nl)"
proof -
  have "\<forall>k < length (t_seen nl). t_seen nl ! k \<le> t_gen nl" using assms(2) by auto
  then have "marks (tl_clear nl) = {}" by (force simp: marks_def tl_clear_def)
  moreover have "t_list (tl_clear nl) = []" by (simp add: tl_clear_def)
  moreover have "length (t_seen (tl_clear nl)) = length (rx_prog r)" "\<forall>x \<in> set (t_seen (tl_clear nl)). x \<le> t_gen (tl_clear nl)"
    using assms by (auto simp: tl_clear_def)
  ultimately show ?thesis by (simp add: threads_ok_def tl_ok_def closed_at_def)
qed

lemma covers_grow: "covers r w i s l \<Longrightarrow> set (t_list l) \<subseteq> set (t_list l') \<Longrightarrow> covers r w i s l'"
  unfolding covers_def by blast

lemma inject:
  assumes r: "safe r" "length w < 2 ^ 31" and sp: "from \<le> sp" "sp \<le> length w"
    and inv: "search_inv r w from sp cl nl m"
  shows "\<exists>cl1. (if m = None then addthread (rx_prog r) (length w) cl 0 (cap0 r) sp else Some cl) = Some cl1 \<and>
    threads_ok r w from (length w) sp cl1 \<and>
    (\<forall>out. m = Some out \<longrightarrow> (\<forall>(q, c) \<in> set (t_list cl1). c ! 0 \<le> out ! 0)) \<and>
    (\<forall>s. from \<le> s \<longrightarrow> s \<le> sp \<longrightarrow> better m s \<longrightarrow> covers r w sp s cl1)"
proof (cases m)
  case (Some out)
  have "\<not> better m sp"
    using inv Some run_from_state(2) [OF r(1)] by (fastforce simp: search_inv_def found_def better_def accepts_run)
  then have "\<forall>s. from \<le> s \<longrightarrow> s \<le> sp \<longrightarrow> better m s \<longrightarrow> covers r w sp s cl"
    using inv unfolding search_inv_def by (metis le_neq_implies_less)
  then show ?thesis using inv Some by (simp add: search_inv_def)
next
  case None
  have th: "threads_ok r w from (length w) sp cl" using inv by (simp add: search_inv_def)
  have late: "\<forall>(q, d) \<in> set (t_list cl). d ! 0 \<le> int sp"
  proof clarify
    fix q d assume qd: "(q, d) \<in> set (t_list cl)"
    then obtain s where s: "s \<le> length w" "run_from r w s (q, sp, d)" using th by (auto simp: threads_ok_def)
    have "q \<noteq> 0" using tl_ok_stops [of "rx_prog r" "ncap_of r" cl, OF _ qd] th stops_nonzero [OF r(1)] by (auto simp: threads_ok_def)
    from thread_slot [OF r s(2,1) this] run_from_state(2) [OF r(1) s(2,1)] show "d ! 0 \<le> int sp" by simp
  qed
  from add_thread [OF r th run_from_start sp(2) sp(1) sp(2) late] obtain cl1 where
    c: "addthread (rx_prog r) (length w) cl 0 (cap0 r) sp = Some cl1" "threads_ok r w from (length w) sp cl1"
      "0 \<in> marks cl1" "set (t_list cl) \<subseteq> set (t_list cl1)" "\<forall>(q, d) \<in> set (t_list cl1). d ! 0 \<le> int sp" by blast
  have "covers r w sp s cl1" if "from \<le> s" "s \<le> sp" for s
  proof (cases "s = sp")
    case False
    then have "covers r w sp s cl" using inv that None by (simp add: search_inv_def better_def)
    then show ?thesis using covers_grow c(4) by blast
  next
    case True
    show ?thesis
      unfolding covers_def True
    proof (intro allI impI)
      fix q d assume q: "run_from r w sp (q, sp, d)" "stops (rx_prog r) q"
      have "(follows (rx_prog r) (length w) sp)\<^sup>*\<^sup>* 0 q"
        using run_stays [OF q(1) [unfolded run_from_def]] by simp
      then have "q \<in> marks cl1" using closed_chain c(2,3) by (metis threads_ok_def)
      then obtain d' where "(q, d') \<in> set (t_list cl1)" using tl_ok_thread c(2) q(2) by (metis threads_ok_def)
      then show "\<exists>d. (q, d) \<in> set (t_list cl1) \<and> d ! 0 \<le> int sp" using c(5) by blast
    qed
  qed
  then show ?thesis using c(1,2) None by simp
qed

text \<open>When no thread is left, no start that is still better can accept.\<close>

lemma empty_list_settled:
  assumes r: "safe r" and st: "settled r w from sp m"
    and cov: "\<forall>s. from \<le> s \<longrightarrow> s \<le> sp \<longrightarrow> better m s \<longrightarrow> covers r w sp s cl1" and e: "t_list cl1 = []"
    and late: "\<forall>s. sp < s \<longrightarrow> \<not> better m s"
  shows "\<forall>s j c. from \<le> s \<longrightarrow> s \<le> length w \<longrightarrow> accepts r w s j c \<longrightarrow> \<not> better m s"
proof (intro allI impI notI)
  fix s j c assume s: "from \<le> s" "s \<le> length w" "accepts r w s j c" "better m s"
  then have sp: "s \<le> sp" using late by (meson not_le)
  have j: "sp \<le> j" using st s by (metis not_le settled_def)
  obtain pc where pc: "op_at (rx_prog r) pc I_MATCH" "run_from r w s (pc, j, c)" using s(3) by (auto simp: accepts_run)
  have "\<exists>q d. run_from r w s (q, sp, d) \<and> stops (rx_prog r) q"
  proof (cases "j = sp")
    case True
    then show ?thesis using pc op_match_stops by blast
  next
    case False
    with run_crosses [OF r pc(2) sp] j takes_ok(3) [OF r [unfolded safe_def]] show ?thesis by fastforce
  qed
  with cov s sp e show False by (fastforce simp: covers_def)
qed

lemma new_match_cases:
  assumes "sorted (map (\<lambda>(q, c). c ! 0 :: int) ts)"
  obtains (none) "new_match r ts m = m" "ahead r ts = ts" "\<forall>t \<in> set ts. \<not> accepting r t"
  | (hit) q c where "new_match r ts m = Some c" "(q, c) \<in> set ts" "accepting r (q, c)"
      "\<forall>(p, d) \<in> set (ahead r ts). (p, d) \<in> set ts \<and> d ! 0 \<le> c ! 0"
      "\<forall>(p, d) \<in> set ts. d ! 0 < c ! 0 \<longrightarrow> (p, d) \<in> set (ahead r ts)"
proof (cases "dropWhile (\<lambda>t. \<not> accepting r t) ts")
  case Nil
  have "new_match r ts m = m" unfolding new_match_def Nil by simp
  moreover have "\<forall>t \<in> set ts. \<not> accepting r t" using Nil by (simp add: dropWhile_eq_Nil_conv)
  ultimately show thesis using none by (simp add: ahead_def takeWhile_eq_all_conv)
next
  case (Cons t rest)
  obtain q c where t: "t = (q, c)" by (cases t)
  have app: "ts = ahead r ts @ (q, c) # rest"
    unfolding ahead_def using Cons t takeWhile_dropWhile_id [of "\<lambda>t. \<not> accepting r t" ts] by metis
  have acc: "accepting r (q, c)" using Cons t by (metis dropWhile_eq_Cons_conv)
  from assms have s: "sorted (map (\<lambda>(q, c). c ! 0) (ahead r ts @ (q, c) # rest))" using app by simp
  have le: "\<forall>(p, d) \<in> set (ahead r ts). d ! 0 \<le> c ! 0" "\<forall>(p, d) \<in> set rest. c ! 0 \<le> d ! 0"
    using s by (auto simp: sorted_append)
  have all: "set ts = set (ahead r ts) \<union> {(q, c)} \<union> set rest"
    using arg_cong [OF app, of set] by simp
  show thesis
  proof (rule hit)
    show "new_match r ts m = Some c" using Cons t by (simp add: new_match_def)
    show "(q, c) \<in> set ts" "accepting r (q, c)" using all acc by simp_all
    show "\<forall>(p, d) \<in> set (ahead r ts). (p, d) \<in> set ts \<and> d ! 0 \<le> c ! 0" using all le(1) by auto
    show "\<forall>(p, d) \<in> set ts. d ! 0 < c ! 0 \<longrightarrow> (p, d) \<in> set (ahead r ts)" using all le(2) by fastforce
  qed
qed

lemma step_inv:
  assumes r: "safe r" "length w < 2 ^ 31" and sp: "from \<le> sp" "sp \<le> length w"
    and inv: "search_inv r w from sp cl nl m"
    and cl1: "threads_ok r w from (length w) sp cl1"
      "\<forall>out. m = Some out \<longrightarrow> (\<forall>(q, c) \<in> set (t_list cl1). c ! 0 \<le> out ! 0)"
      "\<forall>s. from \<le> s \<longrightarrow> s \<le> sp \<longrightarrow> better m s \<longrightarrow> covers r w sp s cl1"
  shows "\<exists>nl' m'. step_threads r w sp (t_list cl1) (tl_clear nl) m = Some (nl', m') \<and> search_inv r w from (sp + 1) nl' cl1 m'"
proof -
  let ?P = "rx_prog r" and ?ts = "t_list cl1"
  let ?m = "new_match r ?ts m"
  have tlo: "tl_ok ?P (ncap_of r) cl1" and srt: "sorted (map (\<lambda>(q, c). c ! 0) ?ts)"
    and snd': "\<forall>(q, c) \<in> set ?ts. \<exists>s. from \<le> s \<and> s \<le> length w \<and> run_from r w s (q, sp, c)"
    using cl1(1) by (simp_all add: threads_ok_def)
  have nz: "q \<noteq> 0 \<and> q < length ?P" if "(q, c) \<in> set ?ts" for q c
    using tl_ok_stops [OF tlo that] stops_nonzero [OF r(1)] by blast
  have runs: "\<exists>s. from \<le> s \<and> s \<le> length w \<and> run_from r w s (q, sp, c) \<and> c ! 0 = int s \<and> s \<le> sp" if "(q, c) \<in> set ?ts" for q c
  proof -
    from snd' that obtain s where s: "from \<le> s" "s \<le> length w" "run_from r w s (q, sp, c)" by blast
    with thread_slot [OF r s(3,2)] nz [OF that] run_from_state(2) [OF r(1) s(3,2)] show ?thesis by auto
  qed
  have "length (t_seen nl) = length ?P" "\<forall>x \<in> set (t_seen nl). x \<le> t_gen nl" using inv by (simp_all add: search_inv_def)
  note clr = cleared_ok [OF this]
  have e: "t_list (tl_clear nl) = []" by (simp add: tl_clear_def)
  have prem: "\<forall>(q, c) \<in> set ?ts. \<exists>s. from \<le> s \<and> s \<le> length w \<and> run_from r w s (q, sp, c) \<and> q \<noteq> 0"
    using runs nz by fast
  from step_threads_ok [OF r order_refl prem srt clr, of m] obtain nl' where
    n: "step_threads r w sp ?ts (tl_clear nl) m = Some (nl', ?m)" "threads_ok r w from (length w) (sp + 1) nl'"
    "\<forall>(q, c) \<in> set (t_list nl'). \<exists>(p, d) \<in> set (ahead r ?ts). c ! 0 \<le> d ! 0"
    "\<forall>(p, d) \<in> set (ahead r ?ts). takes ?P (rx_sets r) w p sp \<longrightarrow>
         (\<forall>q. (follows ?P (length w) (sp + 1))\<^sup>*\<^sup>* (p + 1) q \<longrightarrow> stops ?P q \<longrightarrow>
            (\<exists>c. (q, c) \<in> set (t_list nl') \<and> c ! 0 \<le> d ! 0))"
    using e by auto
  have unique: "(q, c) = (p, d)" if "(q, c) \<in> set ?ts" "(p, d) \<in> set ?ts" "accepting r (q, c)" "op_at ?P p I_MATCH" for p q c d
  proof -
    have ok: "inst_ok ?P (rx_sets r) (ncap_of r) x" if "x < length ?P" for x
      using r(1) that by (simp add: safe_def prog_ok_def)
    have "q + 1 = length ?P" "p + 1 = length ?P"
      using ok [of q] ok [of p] nz [OF that(1)] that(3,4) by (auto simp: accepting_def op_at_def inst_ok_def)
    then have "q = p" by simp
    then show ?thesis using that(1,2) tlo by (metis tl_ok_def eq_key_imp_eq_value)
  qed
  have accept_thread: "\<exists>p d. op_at ?P p I_MATCH \<and> (p, d) \<in> set ?ts \<and> d ! 0 \<le> int s"
    if "accepts r w s sp c" "from \<le> s" "s \<le> length w" "better m s" for s c
  proof -
    from that(1) obtain pc where pc: "op_at ?P pc I_MATCH" "run_from r w s (pc, sp, c)" by (auto simp: accepts_run)
    have "s \<le> sp" using run_from_state(2) [OF r(1) pc(2) that(3)] by simp
    then have "covers r w sp s cl1" using cl1(3) that by blast
    then show ?thesis using pc op_match_stops [OF pc(1)] unfolding covers_def by blast
  qed
  have old: "found r w from sp m" "settled r w from sp m" using inv by (simp_all add: search_inv_def)
  have key: "found r w from (sp + 1) ?m \<and> settled r w from (sp + 1) ?m \<and>
      (\<forall>out. ?m = Some out \<longrightarrow> (\<forall>(q, c) \<in> set (t_list nl'). c ! 0 \<le> out ! 0)) \<and>
      (\<forall>s. better ?m s \<longrightarrow> better m s) \<and>
      (\<forall>(p, d) \<in> set ?ts. \<forall>s. d ! 0 \<le> int s \<longrightarrow> better ?m s \<longrightarrow> (p, d) \<in> set (ahead r ?ts))"
    using srt
  proof (cases rule: new_match_cases [of ?ts r m])
    case none
    have "found r w from (sp + 1) ?m" using found_later [OF old(1)] unfolding none(1) by simp
    moreover have "settled r w from (sp + 1) ?m"
      unfolding settled_def none(1)
    proof (intro allI impI notI)
      fix s j c assume s: "from \<le> s" "s \<le> length w" "j < sp + 1" "accepts r w s j c" "better m s"
      show False
      proof (cases "j < sp")
        case True
        with old(2) s show False by (auto simp: settled_def)
      next
        case False
        with s have "accepts r w s sp c" by (simp add: less_Suc_eq)
        from accept_thread [OF this s(1,2,5)] none(3) show False by (auto simp: accepting_def op_at_def)
      qed
    qed
    moreover have "\<forall>out. m = Some out \<longrightarrow> (\<forall>(q, c) \<in> set (t_list nl'). c ! 0 \<le> out ! 0)"
      using n(3) cl1(2) none(2) by fastforce
    ultimately show ?thesis unfolding none(1,2) by auto
  next
    case (hit q c)
    from runs [OF hit(2)] obtain s0 where s0: "from \<le> s0" "s0 \<le> length w" "run_from r w s0 (q, sp, c)" "c ! 0 = int s0" by blast
    have "op_at ?P q I_MATCH" using hit(3) nz [OF hit(2)] by (simp add: accepting_def op_at_def)
    then have acc: "accepts r w s0 sp c" using s0(3) by (auto simp: accepts_run)
    have "found r w from (sp + 1) ?m" using hit(1) acc s0 by (auto simp: found_def)
    moreover have bm: "better m s" if "better ?m s" for s
      using that hit(1,2) cl1(2) by (cases m) (fastforce simp: better_def)+
    moreover have "settled r w from (sp + 1) ?m"
      unfolding settled_def
    proof (intro allI impI notI)
      fix s j d assume s: "from \<le> s" "s \<le> length w" "j < sp + 1" "accepts r w s j d" "better ?m s"
      show False
      proof (cases "j < sp")
        case True
        with old(2) s bm show False by (auto simp: settled_def)
      next
        case False
        with s have "accepts r w s sp d" by (simp add: less_Suc_eq)
        from accept_thread [OF this s(1,2) bm [OF s(5)]] obtain p d' where
          p: "op_at ?P p I_MATCH" "(p, d') \<in> set ?ts" "d' ! 0 \<le> int s" by blast
        from unique [OF hit(2) p(2) hit(3) p(1)] p(3) s(5) hit(1) show False by (simp add: better_def)
      qed
    qed
    moreover have "\<forall>out. ?m = Some out \<longrightarrow> (\<forall>(q, c) \<in> set (t_list nl'). c ! 0 \<le> out ! 0)"
      using n(3) hit(1,4) by fastforce
    moreover have "\<forall>(p, d) \<in> set ?ts. \<forall>s. d ! 0 \<le> int s \<longrightarrow> better ?m s \<longrightarrow> (p, d) \<in> set (ahead r ?ts)"
      using hit(1,5) by (fastforce simp: better_def)
    ultimately show ?thesis by blast
  qed
  have "covers r w (sp + 1) s nl'" if s: "from \<le> s" "s < sp + 1" "better ?m s" for s
    unfolding covers_def
  proof (intro allI impI)
    fix q c assume q: "run_from r w s (q, sp + 1, c)" "stops ?P q"
    from run_crosses [OF r(1) q(1), of sp] s(2) obtain p c1 where
      p: "run_from r w s (p, sp, c1)" "takes ?P (rx_sets r) w p sp"
        "(rstep ?P (rx_sets r) w)\<^sup>*\<^sup>* (p + 1, sp + 1, c1) (q, sp + 1, c)" by auto
    have "covers r w sp s cl1" using cl1(3) s key by auto
    then obtain d where d: "(p, d) \<in> set ?ts" "d ! 0 \<le> int s"
      using p(1) takes_ok(3) [OF r(1) [unfolded safe_def] p(2)] unfolding covers_def by blast
    then have a: "(p, d) \<in> set (ahead r ?ts)" using key s(3) by blast
    have "(follows ?P (length w) (sp + 1))\<^sup>*\<^sup>* (p + 1) q" using run_stays [OF p(3)] by simp
    then obtain c2 where "(q, c2) \<in> set (t_list nl')" "c2 ! 0 \<le> d ! 0" using n(4) a p(2) q(2) by blast
    then show "\<exists>d. (q, d) \<in> set (t_list nl') \<and> d ! 0 \<le> int s" using d(2) by auto
  qed
  then have "search_inv r w from (sp + 1) nl' cl1 ?m"
    using n(2) tlo key unfolding search_inv_def tl_ok_def by blast
  then show ?thesis using n(1) by blast
qed


lemma search_loop_ok:
  assumes r: "safe r" "length w < 2 ^ 31"
  shows "from \<le> sp \<Longrightarrow> sp \<le> Suc (length w) \<Longrightarrow> search_inv r w from sp cl nl m \<Longrightarrow>
    \<exists>m'. search_loop r w sp cl nl m = Some m' \<and> found r w from (Suc (length w)) m' \<and>
      settled r w from (Suc (length w)) m'"
proof (induction "Suc (length w) - sp" arbitrary: sp cl nl m)
  case 0
  then have "sp = Suc (length w)" by simp
  then show ?case using 0 by (subst search_loop.simps) (simp add: search_inv_def)
next
  case (Suc k)
  then have sp: "sp \<le> length w" by simp
  note inv = Suc.prems(3)
  from inject [OF r Suc.prems(1) sp inv] obtain cl1 where
    c: "(if m = None then addthread (rx_prog r) (length w) cl 0 (cap0 r) sp else Some cl) = Some cl1"
      "threads_ok r w from (length w) sp cl1"
      "\<forall>out. m = Some out \<longrightarrow> (\<forall>(q, c) \<in> set (t_list cl1). c ! 0 \<le> out ! 0)"
      "\<forall>s. from \<le> s \<longrightarrow> s \<le> sp \<longrightarrow> better m s \<longrightarrow> covers r w sp s cl1" by blast
  have st: "settled r w from sp m" "found r w from sp m" using inv by (simp_all add: search_inv_def)
  have unf: "search_loop r w sp cl nl m =
      (if t_list cl1 = [] \<and> m \<noteq> None then Some m
       else Option.bind (step_threads r w sp (t_list cl1) (tl_clear nl) m) (\<lambda>(nl, m). search_loop r w (sp + 1) nl cl1 m))"
    using sp c(1) by (subst search_loop.simps [of r w sp cl nl m]) simp
  show ?case
  proof (cases "t_list cl1 = [] \<and> m \<noteq> None")
    case True
    then obtain out where m: "m = Some out" by blast
    have "\<not> better m s" if "sp < s" for s
    proof -
      obtain s0 j where "from \<le> s0" "s0 \<le> length w" "j < sp" "accepts r w s0 j out" "out ! 0 = int s0"
        using st(2) m by (auto simp: found_def)
      moreover from this have "s0 \<le> j" using run_from_state(2) [OF r(1)] by (fastforce simp: accepts_run)
      ultimately show ?thesis using that m by (simp add: better_def)
    qed
    then have "settled r w from (Suc (length w)) m"
      using empty_list_settled [OF r(1) st(1) c(4)] True by (auto simp: settled_def)
    moreover have "found r w from (Suc (length w)) m" using found_later [OF st(2)] Suc.prems(2) .
    ultimately show ?thesis using unf True by auto
  next
    case False
    from step_inv [OF r Suc.prems(1) sp inv c(2-4)] obtain nl' m' where
      n: "step_threads r w sp (t_list cl1) (tl_clear nl) m = Some (nl', m')" "search_inv r w from (sp + 1) nl' cl1 m'" by blast
    have "k = Suc (length w) - (sp + 1)" using Suc.hyps(2) by simp
    from Suc.hyps(1) [OF this _ _ n(2)] Suc.prems(1) sp obtain m2 where
      "search_loop r w (sp + 1) nl' cl1 m' = Some m2" "found r w from (Suc (length w)) m2" "settled r w from (Suc (length w)) m2"
      by auto
    with unf False n(1) show ?thesis by auto
  qed
qed

theorem search_accepts:
  assumes r: "safe r" "length w < 2 ^ 31"
  shows "\<exists>m. rx_search r w from = Some m \<and>
    (case m of
       None \<Rightarrow> (\<forall>s j c. from \<le> s \<longrightarrow> s \<le> length w \<longrightarrow> \<not> accepts r w s j c)
     | Some out \<Rightarrow> (\<exists>s j. from \<le> s \<and> s \<le> length w \<and> accepts r w s j out \<and> out ! 0 = int s \<and>
         (\<forall>s' j' c. from \<le> s' \<longrightarrow> s' < s \<longrightarrow> \<not> accepts r w s' j' c)))"
proof (cases "from \<le> Suc (length w)")
  case False
  then show ?thesis by (auto simp: rx_search_def Let_def search_loop.simps)
next
  case True
  define np where "np = length (rx_prog r)"
  have e: "length (t_seen (empty_tlist np)) = length (rx_prog r)" "\<forall>x \<in> set (t_seen (empty_tlist np)). x \<le> t_gen (empty_tlist np)"
    by (auto simp: empty_tlist_def np_def)
  have late: "j < from \<Longrightarrow> from \<le> s \<Longrightarrow> s \<le> length w \<Longrightarrow> accepts r w s j c \<Longrightarrow> False" for s j c
    using run_from_state(2) [OF r(1)] by (fastforce simp: accepts_run)
  have "t_list (tl_clear (empty_tlist np)) = []" by (simp add: tl_clear_def)
  then have "search_inv r w from from (tl_clear (empty_tlist np)) (empty_tlist np) None"
    using cleared_ok [OF e] e late by (auto simp: search_inv_def found_def settled_def)
  from search_loop_ok [OF r order_refl True this] obtain m where
    m: "rx_search r w from = Some m" "found r w from (Suc (length w)) m" "settled r w from (Suc (length w)) m"
    by (auto simp: rx_search_def Let_def np_def)
  have bound: "j < Suc (length w)" if "s \<le> length w" "accepts r w s j c" for s j c
    using that run_from_state(3) [OF r(1)] by (fastforce simp: accepts_run)
  show ?thesis
  proof (cases m)
    case None
    have "\<not> accepts r w s j c" if "from \<le> s" "s \<le> length w" for s j c
      using m(3) that bound [OF that(2), of j c] None unfolding settled_def better_def by auto
    then show ?thesis using m(1) None by auto
  next
    case (Some out)
    with m(2) obtain s j where s: "from \<le> s" "s \<le> length w" "accepts r w s j out" "out ! 0 = int s"
      by (auto simp: found_def)
    have "\<not> accepts r w s' j' c" if "from \<le> s'" "s' < s" for s' j' c
    proof
      assume a: "accepts r w s' j' c"
      have l: "s' \<le> length w" using that(2) s(2) by simp
      from m(3) that(1) l bound [OF l a] a have "\<not> better m s'" by (auto simp: settled_def)
      then show False using that(2) s(4) Some by (simp add: better_def)
    qed
    then show ?thesis using m(1) s Some by auto
  qed
qed

text \<open>The main result on the engine: for a compiled regex the search returns; it reports no match
  only when the tree matches from no position at or after \<open>from\<close>, and otherwise the captures of an
  actual match from the leftmost position that has one.\<close>

definition matches_at :: "regex \<Rightarrow> rx \<Rightarrow> string \<Rightarrow> nat \<Rightarrow> nat \<Rightarrow> int list \<Rightarrow> bool" where
  "matches_at r n w s j c \<longleftrightarrow> (\<exists>c1. mt n w (s, init_caps r s) (j, c1) \<and> c = c1[1 := c_int j])"

theorem rx_search_correct:
  assumes "compiled r n" "length w < 2 ^ 31"
  shows "\<exists>m. rx_search r w from = Some m \<and>
    (case m of
       None \<Rightarrow> (\<forall>s j c. from \<le> s \<longrightarrow> s \<le> length w \<longrightarrow> \<not> matches_at r n w s j c)
     | Some out \<Rightarrow> (\<exists>s j. from \<le> s \<and> s \<le> j \<and> j \<le> length w \<and> matches_at r n w s j out \<and>
         length out = ncap_of r \<and> out ! 0 = int s \<and> out ! 1 = int j \<and>
         (\<forall>s' j' c. from \<le> s' \<longrightarrow> s' < s \<longrightarrow> \<not> matches_at r n w s' j' c)))"
proof -
  have acc: "accepts r w s j c \<longleftrightarrow> matches_at r n w s j c" for s j c
    using program_accepts [OF assms(1)] by (simp add: matches_at_def)
  have safe: "safe r" using assms(1) by (simp add: compiled_def safe_def)
  have more: "s \<le> j \<and> j \<le> length w \<and> length c = ncap_of r \<and> c ! 1 = int j"
    if a: "matches_at r n w s j c" and sl: "s \<le> length w" for s j c
  proof -
    from a acc [of s j c] obtain pc where "run_from r w s (pc, j, c)" unfolding accepts_run by blast
    note st = run_from_state(2-4) [OF safe this sl, simplified]
    from a obtain c1 where "c = c1[1 := c_int j]" by (auto simp: matches_at_def)
    with st assms(2) c_int_small [of j] show ?thesis by (simp add: ncap_of_def)
  qed
  from search_accepts [OF safe assms(2), of "from"] obtain m where m: "rx_search r w from = Some m"
    "case m of
       None \<Rightarrow> (\<forall>s j c. from \<le> s \<longrightarrow> s \<le> length w \<longrightarrow> \<not> accepts r w s j c)
     | Some out \<Rightarrow> (\<exists>s j. from \<le> s \<and> s \<le> length w \<and> accepts r w s j out \<and> out ! 0 = int s \<and>
         (\<forall>s' j' c. from \<le> s' \<longrightarrow> s' < s \<longrightarrow> \<not> accepts r w s' j' c))" by blast
  show ?thesis
  proof (cases m)
    case None
    with m acc show ?thesis by auto
  next
    case (Some out)
    with m acc more show ?thesis by fastforce
  qed
qed

end
