(* ===== verification/RxApi.thy ===== *)
theory RxApi
  imports RxRun
begin

section \<open>Regular expressions: the natives of \<^verbatim>\<open>std/regex\<close> (regex.c: seqlen, as\_regex .. vl\_regex\_method)\<close>

text \<open>
  A pattern argument is a compiled regex or a string (\<open>rx_arg\<close>), a subject is a string; another kind of
  value is the fault of \<^verbatim>\<open>vl_cstr\<close>.  The result of a native is a value, or an error value
  (\<^const>\<open>Inl\<close>) for a bad pattern; \<^const>\<open>None\<close> is an access outside an array or a loop that does not end,
  which the theorems exclude.  A capture vector is the \<^verbatim>\<open>m\<close> of the code.
\<close>

datatype rx_arg = A_regex regex | A_str string

definition as_regex :: "rx_arg \<Rightarrow> regex result option" where
  "as_regex p = (case p of A_regex r \<Rightarrow> Some (Inr r) | A_str s \<Rightarrow> vl_regex_compile s)"

definition with_regex :: "rx_arg \<Rightarrow> (regex \<Rightarrow> 'a option) \<Rightarrow> 'a result option" where
  "with_regex p f =
     Option.bind (as_regex p) (\<lambda>res. case res of Inl e \<Rightarrow> Some (Inl e) | Inr r \<Rightarrow> map_option Inr (f r))"

definition seqlen :: "string \<Rightarrow> nat \<Rightarrow> nat" where
  "seqlen w i =
     (let c = (byte_of (w ! i) :: nat);
          n = (if 0xF0 \<le> c then 4 else if 0xE0 \<le> c then 3 else if 0xC0 \<le> c then 2 else 1)
      in if i + n > length w then 1 else n)"

definition sub :: "string \<Rightarrow> nat \<Rightarrow> nat \<Rightarrow> string" where
  "sub w i j = take (j - i) (drop i w)"

definition cap_text :: "string \<Rightarrow> int list \<Rightarrow> nat \<Rightarrow> string" where
  "cap_text w m g =
     (let a = m ! (2 * g); b = m ! (2 * g + 1)
      in if a < 0 \<or> b < 0 \<or> b < a then [] else sub w (nat a) (nat b))"

definition caps_slice :: "regex \<Rightarrow> string \<Rightarrow> int list \<Rightarrow> string list" where
  "caps_slice r w m = map (cap_text w m) [0..<Suc (rx_ngroups r)]"

abbreviation strs :: "string list \<Rightarrow> val" where
  "strs xs \<equiv> O_slice (map O_str xs)"

definition vl_regex_matches :: "rx_arg \<Rightarrow> string \<Rightarrow> val result option" where
  "vl_regex_matches p w = with_regex p (\<lambda>r. map_option (\<lambda>m. V_bool (m \<noteq> None)) (rx_search r w 0))"

definition vl_regex_find :: "rx_arg \<Rightarrow> string \<Rightarrow> val result option" where
  "vl_regex_find p w = with_regex p (\<lambda>r. map_option
     (\<lambda>m. case m of None \<Rightarrow> V_nil | Some m \<Rightarrow> strs (caps_slice r w m)) (rx_search r w 0))"

definition group_name :: "regex \<Rightarrow> nat \<Rightarrow> string option" where
  "group_name r g = (case rx_names r of None \<Rightarrow> None | Some ns \<Rightarrow> ns ! g)"

text \<open>The map of \<^verbatim>\<open>find_named\<close>, filled in the order of the groups; \<open>fresh\<close> is the address of the new map.\<close>

definition named_caps :: "regex \<Rightarrow> string \<Rightarrow> int list \<Rightarrow> (val \<times> val) list" where
  "named_caps r w m =
     fold (\<lambda>g al.
        case (if g = 0 then Some ''0'' else group_name r g) of
          None \<Rightarrow> al
        | Some nm \<Rightarrow> al_set (=) al (O_str nm) (O_str (cap_text w m g)))
      [0..<Suc (rx_ngroups r)] []"

definition vl_regex_find_named :: "addr \<Rightarrow> rx_arg \<Rightarrow> string \<Rightarrow> val result option" where
  "vl_regex_find_named fresh p w = with_regex p (\<lambda>r. map_option
     (\<lambda>m. case m of None \<Rightarrow> V_nil | Some m \<Rightarrow> O_map fresh (named_caps r w m)) (rx_search r w 0))"

definition vl_regex_names :: "rx_arg \<Rightarrow> val result option" where
  "vl_regex_names p = with_regex p (\<lambda>r. Some (strs (map
     (\<lambda>g. case (if 0 < g then group_name r g else None) of None \<Rightarrow> [] | Some nm \<Rightarrow> nm) [0..<Suc (rx_ngroups r)])))"

text \<open>Where the scan goes on after the match \<open>m\<close>.\<close>

definition next_at :: "string \<Rightarrow> int list \<Rightarrow> nat" where
  "next_at w m =
     nat (if m ! 1 > m ! 0 then m ! 1
          else m ! 0 + (if m ! 0 < int (length w) then int (seqlen w (nat (m ! 0))) else 1))"

partial_function (option) rx_find_all_loop :: "regex \<Rightarrow> string \<Rightarrow> nat \<Rightarrow> val list \<Rightarrow> val list option" where
  "rx_find_all_loop r w pos out =
     (if pos \<le> length w then
        Option.bind (rx_search r w pos) (\<lambda>m.
          case m of
            None \<Rightarrow> Some out
          | Some m \<Rightarrow> rx_find_all_loop r w (next_at w m) (out @ [strs (caps_slice r w m)]))
      else Some out)"

definition vl_regex_find_all :: "rx_arg \<Rightarrow> string \<Rightarrow> val result option" where
  "vl_regex_find_all p w = with_regex p (\<lambda>r. map_option O_slice (rx_find_all_loop r w 0 []))"

subsection \<open>Replacement\<close>

definition all_digits :: "string \<Rightarrow> bool" where
  "all_digits nm \<longleftrightarrow> nm \<noteq> [] \<and> (\<forall>c \<in> set nm. rx_digit c)"

text \<open>The number in \<^verbatim>\<open>${12}\<close>, read until it exceeds the number of groups.\<close>

fun group_number :: "nat \<Rightarrow> nat \<Rightarrow> string \<Rightarrow> nat" where
  "group_number ng g [] = g"
| "group_number ng g (c # cs) = (if g \<le> ng then group_number ng (g * 10 + (byte_of c - 48)) cs else g)"

definition group_ref :: "regex \<Rightarrow> string \<Rightarrow> nat option" where
  "group_ref r nm =
     (if all_digits nm then (let g = group_number (rx_ngroups r) 0 nm in if g \<le> rx_ngroups r then Some g else None)
      else fold (\<lambda>k g. if group_name r k = Some nm then Some k else g) [1..<Suc (rx_ngroups r)] None)"

function expand_repl :: "regex \<Rightarrow> string \<Rightarrow> int list \<Rightarrow> string \<Rightarrow> string" where
  "expand_repl r w m [] = []"
| "expand_repl r w m (c # rep) =
     (let plain = c # expand_repl r w m rep in
      if c = CHR ''$'' \<and> rep \<noteq> [] then
        let n = hd rep; rest = tl rep in
        if n = CHR ''$'' then CHR ''$'' # expand_repl r w m rest
        else if n = CHR ''{'' \<and> CHR ''}'' \<in> set rest then
          (case group_ref r (takeWhile (\<lambda>x. x \<noteq> CHR ''}'') rest) of
             Some g \<Rightarrow> cap_text w m g @ expand_repl r w m (tl (dropWhile (\<lambda>x. x \<noteq> CHR ''}'') rest))
           | None \<Rightarrow> plain)
        else if rx_digit n \<and> byte_of n - 48 \<le> rx_ngroups r
        then cap_text w m (byte_of n - 48) @ expand_repl r w m rest
        else plain
      else plain)"
  by pat_completeness auto
termination
  by (relation "measure (\<lambda>(r, w, m, rep). length rep)")
    (auto simp: less_Suc_eq_le intro!: le_trans [OF diff_le_self] le_trans [OF length_dropWhile_le])

partial_function (option) rx_replace_loop :: "regex \<Rightarrow> string \<Rightarrow> string \<Rightarrow> nat \<Rightarrow> string \<Rightarrow> (nat \<times> string) option" where
  "rx_replace_loop r w rep pos b =
     (if pos \<le> length w then
        Option.bind (rx_search r w pos) (\<lambda>m.
          case m of
            None \<Rightarrow> Some (pos, b)
          | Some m \<Rightarrow>
              (let b = (if m ! 0 > int pos then b @ sub w pos (nat (m ! 0)) else b);
                   b = b @ expand_repl r w m rep;
                   b = (if m ! 1 = m ! 0 \<and> m ! 0 < int (length w)
                        then b @ sub w (nat (m ! 0)) (nat (m ! 0) + seqlen w (nat (m ! 0))) else b)
               in rx_replace_loop r w rep (next_at w m) b))
      else Some (pos, b))"

definition vl_regex_replace :: "rx_arg \<Rightarrow> string \<Rightarrow> string \<Rightarrow> val result option" where
  "vl_regex_replace p w rep = with_regex p (\<lambda>r. map_option
     (\<lambda>(pos, b). O_str (if pos < length w then b @ sub w pos (length w) else b)) (rx_replace_loop r w rep 0 []))"

subsection \<open>Splitting and the methods\<close>

partial_function (option) rx_split_loop :: "regex \<Rightarrow> string \<Rightarrow> nat \<Rightarrow> nat \<Rightarrow> string list \<Rightarrow> (nat \<times> string list) option" where
  "rx_split_loop r w pos pstart out =
     (if pos \<le> length w then
        Option.bind (rx_search r w pos) (\<lambda>m.
          case m of
            None \<Rightarrow> Some (pstart, out)
          | Some m \<Rightarrow>
              if m ! 1 = m ! 0 then
                (if m ! 0 \<ge> int (length w) then Some (pstart, out)
                 else rx_split_loop r w (nat (m ! 0) + seqlen w (nat (m ! 0))) pstart out)
              else rx_split_loop r w (nat (m ! 1)) (nat (m ! 1)) (out @ [sub w pstart (nat (m ! 0))]))
      else Some (pstart, out))"

definition vl_regex_split :: "rx_arg \<Rightarrow> string \<Rightarrow> val result option" where
  "vl_regex_split p w = with_regex p (\<lambda>r. map_option
     (\<lambda>(pstart, out). strs (out @ [sub w pstart (length w)])) (rx_split_loop r w 0 0 []))"

text \<open>\<^const>\<open>None\<close> inside the option is \<^verbatim>\<open>*ok = false\<close>: no such method.\<close>

definition vl_regex_method :: "addr \<Rightarrow> regex \<Rightarrow> string \<Rightarrow> string list \<Rightarrow> val result option option" where
  "vl_regex_method fresh r name argv =
     (let p = A_regex r; argc = length argv in
      if name = ''matches'' \<and> 1 \<le> argc then Some (vl_regex_matches p (argv ! 0))
      else if name = ''find'' \<and> 1 \<le> argc then Some (vl_regex_find p (argv ! 0))
      else if name = ''find_all'' \<and> 1 \<le> argc then Some (vl_regex_find_all p (argv ! 0))
      else if name = ''replace'' \<and> 2 \<le> argc then Some (vl_regex_replace p (argv ! 0) (argv ! 1))
      else if name = ''split'' \<and> 1 \<le> argc then Some (vl_regex_split p (argv ! 0))
      else if name = ''find_named'' \<and> 1 \<le> argc then Some (vl_regex_find_named fresh p (argv ! 0))
      else if name = ''names'' then Some (vl_regex_names p)
      else if name = ''source'' then Some (Some (Inr (O_str (c_text (rx_src r)))))
      else None)"

declare rx_find_all_loop.simps [code] rx_replace_loop.simps [code] rx_split_loop.simps [code]


subsection \<open>The successive matches\<close>

definition no_match :: "regex \<Rightarrow> rx \<Rightarrow> string \<Rightarrow> nat \<Rightarrow> bool" where
  "no_match r n w pos \<longleftrightarrow> (\<forall>s j c. pos \<le> s \<longrightarrow> s \<le> length w \<longrightarrow> \<not> matches_at r n w s j c)"

text \<open>\<open>m\<close> holds the captures of a match from the leftmost position at or after \<open>pos\<close> that has one.\<close>

definition leftmost :: "regex \<Rightarrow> rx \<Rightarrow> string \<Rightarrow> nat \<Rightarrow> int list \<Rightarrow> bool" where
  "leftmost r n w pos m \<longleftrightarrow>
     (\<exists>s j. pos \<le> s \<and> s \<le> j \<and> j \<le> length w \<and> matches_at r n w s j m \<and>
        length m = ncap_of r \<and> m ! 0 = int s \<and> m ! 1 = int j \<and>
        (\<forall>s' j' c. pos \<le> s' \<longrightarrow> s' < s \<longrightarrow> \<not> matches_at r n w s' j' c))"

lemma search_cases:
  assumes "compiled r n" "length w < 2 ^ 31"
  obtains (none) "rx_search r w pos = Some None" "no_match r n w pos"
  | (some) m where "rx_search r w pos = Some (Some m)" "leftmost r n w pos m"
proof -
  from rx_search_correct [OF assms, of pos] obtain m where m: "rx_search r w pos = Some m"
    "case m of
       None \<Rightarrow> (\<forall>s j c. pos \<le> s \<longrightarrow> s \<le> length w \<longrightarrow> \<not> matches_at r n w s j c)
     | Some out \<Rightarrow> (\<exists>s j. pos \<le> s \<and> s \<le> j \<and> j \<le> length w \<and> matches_at r n w s j out \<and>
         length out = ncap_of r \<and> out ! 0 = int s \<and> out ! 1 = int j \<and>
         (\<forall>s' j' c. pos \<le> s' \<longrightarrow> s' < s \<longrightarrow> \<not> matches_at r n w s' j' c))" by blast
  show thesis
  proof (cases m)
    case None
    with m none show thesis by (simp add: no_match_def)
  next
    case (Some out)
    with m(2) have "leftmost r n w pos out" by (simp add: leftmost_def)
    with some m(1) Some show thesis by blast
  qed
qed

text \<open>The captures found by the loop that \<^verbatim>\<open>find_all\<close>, \<^verbatim>\<open>replace\<close> and \<^verbatim>\<open>split\<close> share, from \<open>pos\<close> on.\<close>

fun scan_ok :: "regex \<Rightarrow> rx \<Rightarrow> string \<Rightarrow> nat \<Rightarrow> int list list \<Rightarrow> bool" where
  "scan_ok r n w pos [] \<longleftrightarrow> no_match r n w pos"
| "scan_ok r n w pos (m # ms) \<longleftrightarrow> leftmost r n w pos m \<and> scan_ok r n w (next_at w m) ms"

fun scanned :: "regex \<Rightarrow> string \<Rightarrow> nat \<Rightarrow> int list list \<Rightarrow> bool" where
  "scanned r w pos [] \<longleftrightarrow> length w < pos \<or> rx_search r w pos = Some None"
| "scanned r w pos (m # ms) \<longleftrightarrow> pos \<le> length w \<and> rx_search r w pos = Some (Some m) \<and> scanned r w (next_at w m) ms"

lemma seqlen_bounds: "i < length w \<Longrightarrow> 1 \<le> seqlen w i \<and> i + seqlen w i \<le> length w"
  by (simp add: seqlen_def Let_def)

lemma leftmost_next:
  assumes "leftmost r n w pos m"
  obtains s j where "pos \<le> s" "s \<le> j" "j \<le> length w" "m ! 0 = int s" "m ! 1 = int j" "length m = ncap_of r"
    "s < j \<longrightarrow> next_at w m = j" "s = j \<longrightarrow> s < length w \<longrightarrow> next_at w m = s + seqlen w s"
    "s = j \<longrightarrow> s = length w \<longrightarrow> next_at w m = Suc (length w)" "pos < next_at w m" "j \<le> next_at w m" "s < next_at w m"
proof -
  from assms obtain s j where s: "pos \<le> s" "s \<le> j" "j \<le> length w" "m ! 0 = int s" "m ! 1 = int j" "length m = ncap_of r"
    by (auto simp: leftmost_def)
  have n: "s < j \<longrightarrow> next_at w m = j" "s = j \<longrightarrow> s < length w \<longrightarrow> next_at w m = s + seqlen w s"
    "s = j \<longrightarrow> s = length w \<longrightarrow> next_at w m = Suc (length w)"
    using s by (auto simp: next_at_def nat_add_distrib)
  have "pos < next_at w m \<and> j \<le> next_at w m \<and> s < next_at w m"
  proof (cases "s < j")
    case True
    with n s show ?thesis by simp
  next
    case False
    with n s seqlen_bounds [of s w] show ?thesis by (cases "s < length w") auto
  qed
  with s n that show thesis by blast
qed

lemma scan_exists:
  assumes "compiled r n" "length w < 2 ^ 31"
  shows "\<exists>ms. scanned r w pos ms \<and> scan_ok r n w pos ms"
proof (induction "Suc (length w) - pos" arbitrary: pos rule: less_induct)
  case less
  show ?case
  proof (cases "pos \<le> length w")
    case False
    then have "scanned r w pos [] \<and> scan_ok r n w pos []" by (auto simp: no_match_def)
    then show ?thesis by blast
  next
    case True
    show ?thesis
    proof (rule search_cases [OF assms, of pos])
      assume "rx_search r w pos = Some None" "no_match r n w pos"
      then have "scanned r w pos [] \<and> scan_ok r n w pos []" by simp
      then show ?thesis by blast
    next
      fix m assume some: "rx_search r w pos = Some (Some m)" "leftmost r n w pos m"
      from leftmost_next [OF some(2)] have "pos < next_at w m" by blast
      with less [of "next_at w m"] True obtain ms where "scanned r w (next_at w m) ms \<and> scan_ok r n w (next_at w m) ms"
        by fastforce
      with some True have "scanned r w pos (m # ms) \<and> scan_ok r n w pos (m # ms)" by simp
      then show ?thesis by blast
    qed
  qed
qed

lemma find_all_scanned:
  "scanned r w pos ms \<Longrightarrow> rx_find_all_loop r w pos out = Some (out @ map (\<lambda>m. strs (caps_slice r w m)) ms)"
proof (induction ms arbitrary: pos out)
  case Nil
  then show ?case by (subst rx_find_all_loop.simps) auto
next
  case (Cons m ms)
  then show ?case by (subst rx_find_all_loop.simps) simp
qed

lemma sub_join: "i \<le> j \<Longrightarrow> j \<le> k \<Longrightarrow> sub w i j @ sub w j k = sub w i k"
proof -
  assume ij: "i \<le> j" "j \<le> k"
  have "take (k - i) (drop i w) = take (j - i) (drop i w) @ take (k - j) (drop (j - i) (drop i w))"
    using take_add [of "j - i" "k - j" "drop i w"] ij by simp
  then show ?thesis using ij by (simp add: sub_def)
qed

lemma sub_drop: "i \<le> j \<Longrightarrow> sub w i j @ drop j w = drop i w"
  using append_take_drop_id [of "j - i" "drop i w"] by (simp add: sub_def)

lemma sub_end [simp]: "sub w i (length w) = drop i w"
  by (simp add: sub_def)

text \<open>What a replacement writes: the text between the matches, and for each match its expansion.\<close>

fun weave :: "(int list \<Rightarrow> string) \<Rightarrow> string \<Rightarrow> nat \<Rightarrow> int list list \<Rightarrow> string" where
  "weave E w i [] = drop i w"
| "weave E w i (m # ms) = sub w i (nat (m ! 0)) @ E m @ weave E w (nat (m ! 1)) ms"

lemma weave_later:
  assumes "scan_ok r n w j ms" "i \<le> j"
  shows "weave E w i ms = sub w i j @ weave E w j ms"
proof (cases ms)
  case Nil
  then show ?thesis using sub_drop [OF assms(2), of w] by simp
next
  case (Cons m ms')
  with assms(1) obtain s where "m ! 0 = int s" "j \<le> s" by (auto simp: leftmost_def)
  then show ?thesis using Cons sub_join [OF assms(2), of s w] by simp
qed

lemma replace_scanned:
  "scanned r w pos ms \<Longrightarrow> scan_ok r n w pos ms \<Longrightarrow>
   \<exists>pos' b'. rx_replace_loop r w rep pos b = Some (pos', b') \<and>
     (if pos' < length w then b' @ sub w pos' (length w) else b') = b @ weave (\<lambda>m. expand_repl r w m rep) w pos ms"
proof (induction ms arbitrary: pos b)
  case Nil
  then have "rx_replace_loop r w rep pos b = Some (pos, b)" by (subst rx_replace_loop.simps) auto
  then show ?case by simp
next
  case (Cons m ms)
  let ?E = "\<lambda>m. expand_repl r w m rep"
  from Cons.prems(2) have lm: "leftmost r n w pos m" and sc: "scan_ok r n w (next_at w m) ms" by simp_all
  from leftmost_next [OF lm] obtain s j where s: "pos \<le> s" "s \<le> j" "j \<le> length w" "m ! 0 = int s" "m ! 1 = int j"
    "s < j \<longrightarrow> next_at w m = j" "s = j \<longrightarrow> s < length w \<longrightarrow> next_at w m = s + seqlen w s"
    "s = j \<longrightarrow> s = length w \<longrightarrow> next_at w m = Suc (length w)" "j \<le> next_at w m" by blast
  define b1 where "b1 = b @ sub w pos s @ ?E m"
  define b2 where "b2 = (if s = j \<and> s < length w then b1 @ sub w s (s + seqlen w s) else b1)"
  have gap: "(if m ! 0 > int pos then b @ sub w pos (nat (m ! 0)) else b) = b @ sub w pos s"
    using s(1,4) by (auto simp: sub_def)
  have loop: "rx_replace_loop r w rep pos b = rx_replace_loop r w rep (next_at w m) b2"
    using Cons.prems(1) gap s(4,5) by (subst rx_replace_loop.simps [of r w rep pos b]) (auto simp: Let_def b1_def b2_def)
  have tx: "b2 @ weave ?E w (next_at w m) ms = b1 @ weave ?E w j ms"
  proof (cases "s < j")
    case True
    with s(6) show ?thesis by (simp add: b2_def)
  next
    case eq: False
    show ?thesis
    proof (cases "s < length w")
      case True
      have le: "j \<le> next_at w m" using s(9) .
      have "weave ?E w j ms = sub w j (next_at w m) @ weave ?E w (next_at w m) ms"
        by (rule weave_later [OF sc le])
      then show ?thesis using eq True s(2,7) by (simp add: b2_def)
    next
      case False
      then have "s = length w" "s = j" using s(2,3) eq by auto
      moreover from this have n: "next_at w m = Suc (length w)" using s(8) by simp
      moreover have "ms = []"
      proof (cases ms)
        case (Cons m' ms')
        with Cons.prems(1) n show ?thesis by simp
      qed
      ultimately show ?thesis by (simp add: b2_def)
    qed
  qed
  from Cons.IH [OF _ sc, of b2] Cons.prems(1) obtain pos' b' where
    r: "rx_replace_loop r w rep (next_at w m) b2 = Some (pos', b')"
      "(if pos' < length w then b' @ sub w pos' (length w) else b') = b2 @ weave ?E w (next_at w m) ms" by auto
  have "b2 @ weave ?E w (next_at w m) ms = b @ weave ?E w pos (m # ms)"
    unfolding tx using s(4,5) by (simp add: b1_def)
  with loop r show ?case by metis
qed

text \<open>What a split returns: the text between the non-empty matches.\<close>

fun pieces :: "string \<Rightarrow> nat \<Rightarrow> int list list \<Rightarrow> string list" where
  "pieces w i [] = [drop i w]"
| "pieces w i (m # ms) =
     (if m ! 1 = m ! 0 then pieces w i ms else sub w i (nat (m ! 0)) # pieces w (nat (m ! 1)) ms)"

lemma split_scanned:
  "scanned r w pos ms \<Longrightarrow> scan_ok r n w pos ms \<Longrightarrow>
   \<exists>p out'. rx_split_loop r w pos i out = Some (p, out') \<and> out' @ [sub w p (length w)] = out @ pieces w i ms"
proof (induction ms arbitrary: pos i out)
  case Nil
  then have "rx_split_loop r w pos i out = Some (i, out)" by (subst rx_split_loop.simps) auto
  then show ?case by simp
next
  case (Cons m ms)
  from Cons.prems(2) have lm: "leftmost r n w pos m" and sc: "scan_ok r n w (next_at w m) ms" by simp_all
  from leftmost_next [OF lm] obtain s j where s: "pos \<le> s" "s \<le> j" "j \<le> length w" "m ! 0 = int s" "m ! 1 = int j"
    "s < j \<longrightarrow> next_at w m = j" "s = j \<longrightarrow> s < length w \<longrightarrow> next_at w m = s + seqlen w s"
    "s = j \<longrightarrow> s = length w \<longrightarrow> next_at w m = Suc (length w)" by blast
  have unf: "rx_split_loop r w pos i out =
      (if s = j then (if length w \<le> s then Some (i, out) else rx_split_loop r w (s + seqlen w s) i out)
       else rx_split_loop r w j j (out @ [sub w i s]))"
    using Cons.prems(1) s(4,5) by (subst rx_split_loop.simps [of r w pos i out]) auto
  have nxt: "scanned r w (next_at w m) ms" using Cons.prems(1) by simp
  consider (final) "s = j" "s = length w" | (empty) "s = j" "s < length w" | (full) "s < j" using s(2,3) by linarith
  then show ?case
  proof cases
    case final
    have "ms = []"
    proof (cases ms)
      case (Cons m' ms')
      with nxt s(8) final show ?thesis by simp
    qed
    then show ?thesis using unf final s(4,5) by (simp add: sub_def)
  next
    case empty
    then show ?thesis using Cons.IH [OF nxt sc, of i out] unf s(4,5,7) by simp
  next
    case full
    then show ?thesis using Cons.IH [OF nxt sc, of j "out @ [sub w i s]"] unf s(4,5,6) by simp
  qed
qed


text \<open>Text that rejoins the pieces of a split.\<close>

fun rejoin :: "string list \<Rightarrow> string list \<Rightarrow> string" where
  "rejoin (p # ps) (s # ss) = p @ s @ rejoin ps ss"
| "rejoin (p # ps) [] = p"
| "rejoin [] ss = []"

fun separators :: "string \<Rightarrow> int list list \<Rightarrow> string list" where
  "separators w [] = []"
| "separators w (m # ms) =
     (if m ! 1 = m ! 0 then separators w ms else sub w (nat (m ! 0)) (nat (m ! 1)) # separators w ms)"

lemma rejoin_pieces:
  "scan_ok r n w pos ms \<Longrightarrow> i \<le> pos \<Longrightarrow>
   rejoin (pieces w i ms) (separators w ms) = drop i w \<and> length (pieces w i ms) = Suc (length (separators w ms))"
proof (induction ms arbitrary: pos i)
  case Nil
  then show ?case by simp
next
  case (Cons m ms)
  then have lm: "leftmost r n w pos m" and sc: "scan_ok r n w (next_at w m) ms" by simp_all
  from leftmost_next [OF lm] obtain s j where s: "pos \<le> s" "s \<le> j" "j \<le> length w" "m ! 0 = int s" "m ! 1 = int j"
    "pos < next_at w m" "j \<le> next_at w m" by blast
  show ?case
  proof (cases "s = j")
    case True
    with Cons.IH [OF sc, of i] s Cons.prems(2) show ?thesis by simp
  next
    case False
    have "sub w i s @ sub w s j @ drop j w = drop i w"
      using sub_drop [of i s w] sub_drop [of s j w] s Cons.prems(2) by simp
    with False Cons.IH [OF sc s(7)] s show ?thesis by simp
  qed
qed

lemma scan_matched:
  "scan_ok r n w pos ms \<Longrightarrow> m \<in> set ms \<Longrightarrow>
   \<exists>s j. s \<le> j \<and> j \<le> length w \<and> m ! 0 = int s \<and> m ! 1 = int j \<and> matches_at r n w s j m"
  by (induction ms arbitrary: pos) (auto simp: leftmost_def)

lemma separators_set:
  "sep \<in> set (separators w ms) \<Longrightarrow> \<exists>m \<in> set ms. m ! 1 \<noteq> m ! 0 \<and> sep = sub w (nat (m ! 0)) (nat (m ! 1))"
  by (induction ms) (auto split: if_splits)

text \<open>The matches of a scan are disjoint and advance.\<close>

lemma scan_ok_ordered:
  "scan_ok r n w pos ms \<Longrightarrow>
   (\<forall>m \<in> set ms. int pos \<le> m ! 0) \<and> sorted_wrt (\<lambda>m m'. m ! 1 \<le> m' ! 0 \<and> m ! 0 < m' ! 0) ms"
proof (induction ms arbitrary: pos)
  case Nil
  then show ?case by simp
next
  case (Cons m ms)
  then have lm: "leftmost r n w pos m" and sc: "scan_ok r n w (next_at w m) ms" by simp_all
  from leftmost_next [OF lm] obtain s j where s: "pos \<le> s" "s \<le> j" "m ! 0 = int s" "m ! 1 = int j"
    "j \<le> next_at w m" "s < next_at w m" by blast
  from Cons.IH [OF sc] s show ?case by fastforce
qed

lemma with_regex_compiled:
  assumes "vl_regex_compile pat = Some (Inr r)"
  shows "with_regex (A_str pat) f = map_option Inr (f r)"
  using assms by (simp add: with_regex_def as_regex_def)

lemma split_compiled:
  assumes "vl_regex_compile pat = Some (Inr r)" "scanned r w 0 ms" "scan_ok r n w 0 ms"
  shows "vl_regex_split (A_str pat) w = Some (Inr (strs (pieces w 0 ms)))"
proof -
  from split_scanned [OF assms(2,3), of 0 "[]"] obtain p out where
    s: "rx_split_loop r w 0 0 [] = Some (p, out)" and e: "out @ [drop p w] = pieces w 0 ms" by auto
  show ?thesis
    by (simp add: vl_regex_split_def with_regex_compiled [OF assms(1)] s e [symmetric])
qed

lemma compile_compiled:
  assumes "vl_regex_compile pat = Some (Inr r)"
  obtains n ps where "rx_parse pat = Some (n, ps)" "compiled r n"
  using compile_returns [of pat] assms by auto

lemma cap_text_whole:
  assumes "leftmost r n w pos m"
  shows "cap_text w m 0 = sub w (nat (m ! 0)) (nat (m ! 1))"
  using assms by (auto simp: leftmost_def cap_text_def Let_def)

lemma weave_same:
  "scan_ok r n w pos ms \<Longrightarrow> i \<le> pos \<Longrightarrow> (\<And>m pos. leftmost r n w pos m \<Longrightarrow> E m = sub w (nat (m ! 0)) (nat (m ! 1))) \<Longrightarrow>
   weave E w i ms = drop i w"
proof (induction ms arbitrary: pos i)
  case Nil
  then show ?case by simp
next
  case (Cons m ms)
  then have lm: "leftmost r n w pos m" and sc: "scan_ok r n w (next_at w m) ms" by simp_all
  from leftmost_next [OF lm] obtain s j where s: "pos \<le> s" "s \<le> j" "j \<le> length w" "m ! 0 = int s" "m ! 1 = int j"
    "j \<le> next_at w m" by blast
  have "weave E w j ms = drop j w" using Cons.IH [OF sc s(6) Cons.prems(3)] .
  then show ?case
    using Cons.prems(3) [OF lm] s sub_drop [of i s w] sub_drop [of s j w] Cons.prems(2) by simp
qed

end
