(* ===== verification/RxLit.thy ===== *)
theory RxLit
  imports RxApi Str
begin

section \<open>Regular expressions: quoted text as a pattern\<close>

text \<open>
  A text whose bytes are escaped, all but letters and digits, is a pattern for exactly that text.  Here the regular
  expression engine (\<^verbatim>\<open>regex.c\<close>) and the string library (\<^verbatim>\<open>str.c\<close>) meet: on such patterns they agree.
  \<open>rx_quote\<close> and \<open>lit_tree\<close> belong to the specification, the code has no such function.
\<close>

definition rx_quote1 :: "char \<Rightarrow> string" where
  "rx_quote1 c = (if rx_alpha c \<or> rx_digit c then [c] else [BSL, c])"

definition rx_quote :: "string \<Rightarrow> string" where
  "rx_quote s = concat (map rx_quote1 s)"

definition lit_tree :: "string \<Rightarrow> rx" where
  "lit_tree s = (case s of [] \<Rightarrow> rx_nothing | c # cs \<Rightarrow> foldl N_CAT (N_CHAR c) (map N_CHAR cs))"

lemma rx_quote_simps [simp]:
  "rx_quote [] = []" "rx_quote (c # s) = rx_quote1 c @ rx_quote s"
  by (simp_all add: rx_quote_def)

subsection \<open>Parsing\<close>

lemma byte_of_eq: "c = d \<longleftrightarrow> byte_of c = (byte_of d :: nat)"
  by (metis char_of_char)

lemma alnum_plain:
  assumes "rx_alpha c \<or> rx_digit c"
  shows "c \<notin> {CHR ''('', CHR '')'', CHR ''['', CHR ''.'', CHR ''^'', CHR ''$'', BSL, CHR ''|'', CHR ''*'', CHR ''+'', CHR ''?'', CHR ''{''}"
  using assms by (auto simp: rx_alpha_def rx_digit_def)

lemma other_escape:
  assumes "\<not> rx_alpha c" "\<not> rx_digit c"
  shows "\<not> (49 \<le> byte_of c \<and> byte_of c \<le> (57::nat))" "class_escape c = None" "neg_escape c = None" "escape_byte c = c"
proof -
  show "\<not> (49 \<le> byte_of c \<and> byte_of c \<le> (57::nat))" using assms(2) by (auto simp: rx_digit_def)
  have n: "c \<notin> {CHR ''d'', CHR ''w'', CHR ''s'', CHR ''D'', CHR ''W'', CHR ''S'', CHR ''n'', CHR ''t'', CHR ''r'', CHR ''f'', CHR ''v'', CHR ''0''}"
    using assms by (auto simp: rx_alpha_def rx_digit_def)
  then show "class_escape c = None" "neg_escape c = None" "escape_byte c = c"
    by (simp_all add: class_escape_def neg_escape_def escape_byte_def)
qed

lemma rest_to_rest [simp]: "rest_to r (rest_to r' ps) = rest_to r ps"
  by (simp add: rest_to_def)

lemma atom_quote:
  assumes "p_rest ps = rx_quote1 c @ r"
  shows "parse_atom (Suc f) ps = Some (N_CHAR c, rest_to r ps)"
proof (cases "rx_alpha c \<or> rx_digit c")
  case True
  with assms alnum_plain [OF True] show ?thesis by (simp add: rx_quote1_def plain_atom_def)
next
  case False
  with assms other_escape [of c] show ?thesis
    by (simp add: rx_quote1_def plain_atom_def simple_escape_def Let_def)
qed

lemma quote_hd: "s \<noteq> [] \<Longrightarrow> \<exists>d r. rx_quote s = d # r \<and> (d = BSL \<or> rx_alpha d \<or> rx_digit d)"
  by (cases s) (auto simp: rx_quote1_def)

lemma quote_head_plain:
  assumes "d = BSL \<or> rx_alpha d \<or> rx_digit d"
  shows "d \<noteq> CHR ''*'' \<and> d \<noteq> CHR ''+'' \<and> d \<noteq> CHR ''?'' \<and> d \<noteq> CHR ''{''" "d \<noteq> CHR ''|'' \<and> d \<noteq> CHR '')''"
proof -
  from assms consider "d = BSL" | "rx_alpha d \<or> rx_digit d" by blast
  then show "d \<noteq> CHR ''*'' \<and> d \<noteq> CHR ''+'' \<and> d \<noteq> CHR ''?'' \<and> d \<noteq> CHR ''{''"
    by cases (simp, use alnum_plain [of d] in simp)
  from assms consider "d = BSL" | "rx_alpha d \<or> rx_digit d" by blast
  then show "d \<noteq> CHR ''|'' \<and> d \<noteq> CHR '')''"
    by cases (simp, use alnum_plain [of d] in simp)
qed

lemma quote_no_quantifier:
  assumes "p_rest ps = rx_quote s"
  shows "quantifier ps = (None, ps)"
proof (cases "s = []")
  case True
  then show ?thesis using assms by (simp add: quantifier_def)
next
  case False
  from quote_hd [OF this] obtain d r where d: "rx_quote s = d # r" "d = BSL \<or> rx_alpha d \<or> rx_digit d" by blast
  have "d \<noteq> CHR ''*'' \<and> d \<noteq> CHR ''+'' \<and> d \<noteq> CHR ''?'' \<and> d \<noteq> CHR ''{''" by (rule quote_head_plain [OF d(2)])
  then show ?thesis using assms d(1) by (simp add: quantifier_def)
qed

lemma repeat_quote:
  assumes "p_rest ps = rx_quote1 c @ rx_quote s"
  shows "parse_repeat (Suc (Suc f)) ps = Some (N_CHAR c, rest_to (rx_quote s) ps)"
  using quote_no_quantifier [of "rest_to (rx_quote s) ps" s]
  by (subst parse_repeat.simps(2)) (simp add: atom_quote [OF assms] repeat_loop.simps del: parse_atom.simps)

lemma cat_quote:
  "p_rest ps = rx_quote s \<Longrightarrow> p_err ps = None \<Longrightarrow> length s + 3 \<le> f \<Longrightarrow>
   cat_loop f (Some n) ps = Some (foldl N_CAT n (map N_CHAR s), rest_to [] ps)"
proof (induction s arbitrary: ps n f)
  case Nil
  then obtain f' where "f = Suc f'" by (cases f) auto
  moreover have "rest_to [] ps = ps" using Nil by (simp add: rest_to_def)
  ultimately show ?case using Nil by simp
next
  case (Cons c s)
  define f' where "f' = f - 3"
  then have f: "f = Suc (Suc (Suc f'))" using Cons.prems(3) by simp
  from quote_hd [of "c # s"] obtain d r where d: "rx_quote (c # s) = d # r" "d = BSL \<or> rx_alpha d \<or> rx_digit d" by blast
  have nd: "d \<noteq> CHR ''|''" "d \<noteq> CHR '')''" using quote_head_plain(2) [OF d(2)] by simp_all
  have rep: "parse_repeat (Suc (Suc f')) ps = Some (N_CHAR c, rest_to (rx_quote s) ps)"
    by (rule repeat_quote) (use Cons.prems in simp)
  have "cat_loop f (Some n) ps = cat_loop (Suc (Suc f')) (Some (N_CAT n (N_CHAR c))) (rest_to (rx_quote s) ps)"
    unfolding f using Cons.prems(1,2) d(1) nd rep
    by (subst cat_loop.simps(2)) (simp del: cat_loop.simps parse_repeat.simps rx_quote_simps)
  also have "\<dots> = Some (foldl N_CAT (N_CAT n (N_CHAR c)) (map N_CHAR s), rest_to [] (rest_to (rx_quote s) ps))"
    by (rule Cons.IH) (use Cons.prems f in auto)
  finally show ?case by simp
qed

lemma quote_length: "length s \<le> length (rx_quote s)"
  by (induction s) (auto simp: rx_quote1_def)

lemma parse_quote: "rx_parse (rx_quote s) = Some (lit_tree s, rest_to [] (parse_init (rx_quote s)))"
proof -
  let ?ps = "parse_init (rx_quote s)"
  define g where "g = 8 * length (rx_quote s) + 4"
  have fu: "8 * length (rx_quote s) + 8 = Suc (Suc (Suc (Suc g)))" by (simp add: g_def)
  have init: "p_rest ?ps = rx_quote s" "p_err ?ps = None" by (simp_all add: parse_init_def)
  have cat: "cat_loop (Suc (Suc g)) None ?ps = Some (lit_tree s, rest_to [] ?ps)"
  proof (cases s)
    case Nil
    then show ?thesis using init by (simp add: lit_tree_def parse_init_def rest_to_def)
  next
    case (Cons c cs)
    from quote_hd [of s] Cons obtain d r where d: "rx_quote s = d # r" "d = BSL \<or> rx_alpha d \<or> rx_digit d" by blast
    have nd: "d \<noteq> CHR ''|''" "d \<noteq> CHR '')''" using quote_head_plain(2) [OF d(2)] by simp_all
    obtain g' where g': "g = Suc g'" by (cases g) (simp_all add: g_def)
    have rep: "parse_repeat (Suc g) ?ps = Some (N_CHAR c, rest_to (rx_quote cs) ?ps)"
      unfolding g' by (rule repeat_quote) (use Cons init in simp)
    have "cat_loop (Suc (Suc g)) None ?ps = cat_loop (Suc g) (Some (N_CHAR c)) (rest_to (rx_quote cs) ?ps)"
      using init d(1) nd rep
      by (subst cat_loop.simps(2)) (simp del: cat_loop.simps parse_repeat.simps rx_quote_simps)
    also have "\<dots> = Some (foldl N_CAT (N_CHAR c) (map N_CHAR cs), rest_to [] (rest_to (rx_quote cs) ?ps))"
      by (rule cat_quote) (use init quote_length [of cs] Cons in \<open>auto simp: g_def\<close>)
    finally show ?thesis using Cons by (simp add: lit_tree_def)
  qed
  have "alt_loop (Suc (Suc (Suc g))) (lit_tree s) (rest_to [] ?ps) = Some (lit_tree s, rest_to [] ?ps)"
    by (subst alt_loop.simps(2)) simp
  then have "parse_alt (8 * length (rx_quote s) + 8) ?ps = Some (lit_tree s, rest_to [] ?ps)"
    unfolding fu using cat by (simp del: cat_loop.simps alt_loop.simps)
  then show ?thesis using init(2) by (simp add: rx_parse_def del: parse_alt.simps)
qed

text \<open>The code generator of the code is a recursive C function, whose stack the model does not have.  Its
  depth on a tree is \<open>emit_depth\<close>, counted before \<^verbatim>\<open>RX_MAX_PROG\<close> can stop it: \<^verbatim>\<open>emit_node\<close> visits the
  left end of a concatenation before it emits anything.  \<^verbatim>\<open>RX_MAX_DEPTH\<close> bounds the nesting of groups only,
  so a literal of \<open>n\<close> characters needs \<open>n\<close> frames.\<close>

primrec emit_depth :: "rx \<Rightarrow> nat" where
  "emit_depth (N_EMPTY _ _) = 1"
| "emit_depth (N_CHAR _) = 1"
| "emit_depth N_ANY = 1"
| "emit_depth (N_CLASS _ _) = 1"
| "emit_depth (N_CAT a b) = Suc (max (emit_depth a) (emit_depth b))"
| "emit_depth (N_ALT a b) = Suc (max (emit_depth a) (emit_depth b))"
| "emit_depth (N_REP a _ _ _) = Suc (emit_depth a)"
| "emit_depth (N_GROUP a _) = Suc (emit_depth a)"

lemma emit_depth_foldl: "1 \<le> emit_depth n \<Longrightarrow> emit_depth (foldl N_CAT n (map N_CHAR s)) = emit_depth n + length s"
  by (induction s arbitrary: n) (auto simp: max_def)

lemma emit_depth_unbounded:
  assumes "s \<noteq> []"
  shows "\<exists>t ps. rx_parse (rx_quote s) = Some (t, ps) \<and> p_err ps = None \<and> emit_depth t = length s"
proof -
  have "emit_depth (lit_tree s) = length s" using assms by (cases s) (auto simp: lit_tree_def emit_depth_foldl)
  then show ?thesis by (simp add: parse_quote parse_init_def rest_to_def)
qed


subsection \<open>Compiling\<close>

lemma emit_room: "e_n e < RX_MAX_PROG \<Longrightarrow> e_over (snd (emit op e)) = e_over e \<and> e_n (snd (emit op e)) = e_n e + 1"
  by (simp add: emit_def e_n_def)

lemma emit_save_room: "e_n e < RX_MAX_PROG \<Longrightarrow> e_over (emit_save k e) = e_over e \<and> e_n (emit_save k e) = e_n e + 1"
  using emit_room [of e I_SAVE] by (simp add: emit_save_def case_prod_beta)

lemma emit_char_room:
  "e_n e < RX_MAX_PROG \<Longrightarrow> \<not> e_over e \<Longrightarrow> \<not> e_over (emit_body (N_CHAR c) e) \<and> e_n (emit_body (N_CHAR c) e) = e_n e + 1"
  using emit_room [of e I_CHAR] by (simp add: case_prod_beta)

lemma emit_foldl_room:
  "\<not> e_over e \<Longrightarrow> (\<And>e. \<not> e_over e \<Longrightarrow> e_n e + k \<le> RX_MAX_PROG \<Longrightarrow>
      \<not> e_over (emit_body n e) \<and> e_n (emit_body n e) = e_n e + k) \<Longrightarrow> e_n e + k + length s \<le> RX_MAX_PROG \<Longrightarrow>
   \<not> e_over (emit_body (foldl N_CAT n (map N_CHAR s)) e) \<and>
   e_n (emit_body (foldl N_CAT n (map N_CHAR s)) e) = e_n e + k + length s"
proof (induction s arbitrary: n k)
  case Nil
  then show ?case by simp
next
  case (Cons c s)
  have "\<not> e_over (emit_body (N_CAT n (N_CHAR c)) e') \<and> e_n (emit_body (N_CAT n (N_CHAR c)) e') = e_n e' + (k + 1)"
    if "\<not> e_over e'" "e_n e' + (k + 1) \<le> RX_MAX_PROG" for e'
    using Cons.prems(2) [OF that(1)] emit_char_room [of "emit_body n e'" c] that
    by (simp del: emit_body.simps(2))
  from Cons.IH [OF Cons.prems(1) this] Cons.prems(3) show ?case by simp
qed

lemma emit_lit_room:
  assumes "\<not> e_over e" "e_n e + length s \<le> RX_MAX_PROG"
  shows "\<not> e_over (emit_body (lit_tree s) e) \<and> e_n (emit_body (lit_tree s) e) = e_n e + length s"
proof (cases s)
  case Nil
  then show ?thesis using assms(1) by (simp add: lit_tree_def)
next
  case (Cons c cs)
  have "\<not> e_over (emit_body (N_CHAR c) e') \<and> e_n (emit_body (N_CHAR c) e') = e_n e' + 1"
    if "\<not> e_over e'" "e_n e' + 1 \<le> RX_MAX_PROG" for e'
    using emit_char_room [of e' c] that by simp
  from emit_foldl_room [OF assms(1) this, of cs] show ?thesis using assms(2) Cons by (simp add: lit_tree_def)
qed

lemma lit_compiles:
  assumes "length s + 3 \<le> RX_MAX_PROG"
  obtains r where "vl_regex_compile (rx_quote s) = Some (Inr r)" "compiled r (lit_tree s)" "rx_ngroups r = 0"
proof -
  let ?e0 = "\<lparr>e_prog = [], e_sets = [], e_over = False\<rparr>"
  have 0: "\<not> e_over (emit_save 0 ?e0) \<and> e_n (emit_save 0 ?e0) = 1"
    using emit_save_room [of ?e0 0] by (simp add: e_n_def RX_MAX_PROG_def)
  have 1: "\<not> e_over (emit_body (lit_tree s) (emit_save 0 ?e0)) \<and> e_n (emit_body (lit_tree s) (emit_save 0 ?e0)) = 1 + length s"
    using emit_lit_room [of "emit_save 0 ?e0" s] 0 assms by simp
  have "\<not> e_over (rx_emit (lit_tree s))"
    using emit_save_room [of "emit_body (lit_tree s) (emit_save 0 ?e0)" 1]
      emit_room [of "emit_save 1 (emit_body (lit_tree s) (emit_save 0 ?e0))" I_MATCH] 1 assms
    by (simp add: rx_emit_def)
  then obtain r where r: "vl_regex_compile (rx_quote s) = Some (Inr r)" "rx_ngroups r = 0"
    by (simp add: vl_regex_compile_def parse_quote parse_init_def Let_def)
  with compile_returns [of "rx_quote s"] parse_quote [of s] have "compiled r (lit_tree s)" by auto
  with r that show thesis by blast
qed

subsection \<open>Matching\<close>

lemma match_at_Cons:
  "i < length w \<Longrightarrow> match_at w i (c # s) \<longleftrightarrow> w ! i = c \<and> match_at w (i + 1) s"
  by (auto simp: match_at_def Cons_nth_drop_Suc [symmetric])

lemma mt_foldl:
  "mt (foldl N_CAT n (map N_CHAR s)) w (i, c) t \<longleftrightarrow>
   (\<exists>k c'. mt n w (i, c) (k, c') \<and> k + length s \<le> length w \<and> match_at w k s \<and> t = (k + length s, c'))"
  if "\<And>i c k c'. i \<le> length w \<Longrightarrow> mt n w (i, c) (k, c') \<Longrightarrow> k \<le> length w" and "i \<le> length w"
  using that
proof (induction s arbitrary: n)
  case Nil
  then show ?case by (cases t) (auto simp: match_at_def)
next
  case (Cons d s)
  have one: "mt (N_CAT n (N_CHAR d)) w (i, c) (k, c') \<longleftrightarrow> (\<exists>j. mt n w (i, c) (j, c') \<and> j < length w \<and> w ! j = d \<and> k = j + 1)"
    for i c k c' by auto
  have "mt (foldl N_CAT n (map N_CHAR (d # s))) w (i, c) t \<longleftrightarrow>
      (\<exists>k c'. mt (N_CAT n (N_CHAR d)) w (i, c) (k, c') \<and> k + length s \<le> length w \<and> match_at w k s \<and> t = (k + length s, c'))"
    unfolding list.map foldl_Cons by (rule Cons.IH) (use one Cons.prems(2) in auto)
  also have "\<dots> \<longleftrightarrow> (\<exists>k c'. mt n w (i, c) (k, c') \<and> k + length (d # s) \<le> length w \<and> match_at w k (d # s) \<and>
      t = (k + length (d # s), c'))"
  proof
    assume "\<exists>k c'. mt (N_CAT n (N_CHAR d)) w (i, c) (k, c') \<and> k + length s \<le> length w \<and> match_at w k s \<and> t = (k + length s, c')"
    then show "\<exists>k c'. mt n w (i, c) (k, c') \<and> k + length (d # s) \<le> length w \<and> match_at w k (d # s) \<and> t = (k + length (d # s), c')"
      unfolding one by (auto simp: match_at_Cons)
  next
    assume "\<exists>k c'. mt n w (i, c) (k, c') \<and> k + length (d # s) \<le> length w \<and> match_at w k (d # s) \<and> t = (k + length (d # s), c')"
    then obtain k c' where k: "mt n w (i, c) (k, c')" "k + length (d # s) \<le> length w" "match_at w k (d # s)" "t = (k + length (d # s), c')"
      by blast
    then show "\<exists>k c'. mt (N_CAT n (N_CHAR d)) w (i, c) (k, c') \<and> k + length s \<le> length w \<and> match_at w k s \<and> t = (k + length s, c')"
      unfolding one using match_at_Cons [of k w d s] by (intro exI [of _ "k + 1"] exI [of _ c']) auto
  qed
  finally show ?case .
qed

lemma mt_lit:
  assumes "i \<le> length w"
  shows "mt (lit_tree s) w (i, c) t \<longleftrightarrow> i + length s \<le> length w \<and> match_at w i s \<and> t = (i + length s, c)"
proof (cases s)
  case Nil
  then show ?thesis using assms by (auto simp: lit_tree_def match_at_def)
next
  case (Cons d cs)
  have "mt (lit_tree s) w (i, c) t \<longleftrightarrow>
      (\<exists>k c'. mt (N_CHAR d) w (i, c) (k, c') \<and> k + length cs \<le> length w \<and> match_at w k cs \<and> t = (k + length cs, c'))"
    unfolding lit_tree_def Cons list.case by (rule mt_foldl [OF _ assms]) auto
  also have "\<dots> \<longleftrightarrow> i + length s \<le> length w \<and> match_at w i s \<and> t = (i + length s, c)"
    using match_at_Cons [of i w d cs] Cons by auto
  finally show ?thesis .
qed

text \<open>The captures of an occurrence of \<open>s\<close> at \<open>i\<close>.\<close>

lemma lit_matches:
  assumes "rx_ngroups r = 0" "i \<le> length w" "length w < 2 ^ 31"
  shows "matches_at r (lit_tree s) w i j c \<longleftrightarrow>
    i + length s \<le> length w \<and> match_at w i s \<and> j = i + length s \<and> c = [int i, int j]"
proof -
  have "init_caps r i = [int i, - 1]" "c_int (i + length s) = int (i + length s)" if "i + length s \<le> length w"
    using assms that by (simp_all add: init_caps_def ncap_of_def c_int_small numeral_2_eq_2 replicate_Suc [symmetric])
  then show ?thesis using assms by (auto simp: matches_at_def mt_lit)
qed


lemma lit_no_match:
  assumes "rx_ngroups r = 0" "length w < 2 ^ 31"
  shows "no_match r (lit_tree s) w pos \<longleftrightarrow> find_from w s pos = None"
  unfolding no_match_def find_from_None using lit_matches [OF assms(1) _ assms(2), of _ s] by fastforce

lemma lit_leftmost:
  assumes "rx_ngroups r = 0" "length w < 2 ^ 31"
  shows "leftmost r (lit_tree s) w pos m \<longleftrightarrow>
    (\<exists>i. find_from w s pos = Some i \<and> m = [int i, int (i + length s)])"
proof
  assume "leftmost r (lit_tree s) w pos m"
  then obtain i j where i: "pos \<le> i" "i \<le> j" "j \<le> length w" "matches_at r (lit_tree s) w i j m"
    "\<forall>s' j' c. pos \<le> s' \<longrightarrow> s' < i \<longrightarrow> \<not> matches_at r (lit_tree s) w s' j' c" by (auto simp: leftmost_def)
  have m: "i + length s \<le> length w" "match_at w i s" "m = [int i, int (i + length s)]"
    using i lit_matches [OF assms(1) _ assms(2), of i s j m] by auto
  have "\<not> match_at w k s" if "pos \<le> k" "k < i" for k
    using i(5) lit_matches [OF assms(1) _ assms(2), of k s] that m(1) by fastforce
  then have "find_from w s pos = Some i" using i(1) m by (auto simp: find_from_Some)
  with m(3) show "\<exists>i. find_from w s pos = Some i \<and> m = [int i, int (i + length s)]" by blast
next
  assume "\<exists>i. find_from w s pos = Some i \<and> m = [int i, int (i + length s)]"
  then obtain i where i: "pos \<le> i" "i + length s \<le> length w" "match_at w i s" "\<And>k. pos \<le> k \<Longrightarrow> k < i \<Longrightarrow> \<not> match_at w k s"
    "m = [int i, int (i + length s)]" by (auto simp: find_from_Some)
  have "matches_at r (lit_tree s) w i (i + length s) m"
    using lit_matches [OF assms(1) _ assms(2), of i s "i + length s" m] i by simp
  moreover have "\<not> matches_at r (lit_tree s) w s' j' c" if "pos \<le> s'" "s' < i" for s' j' c
    using lit_matches [OF assms(1) _ assms(2), of s' s j' c] i(2,4) that by auto
  ultimately show "leftmost r (lit_tree s) w pos m"
    unfolding leftmost_def using i(1,2,5) assms(1)
    by (intro exI [of _ i] exI [of _ "i + length s"]) (auto simp: ncap_of_def)
qed

subsection \<open>The engine and the string library agree\<close>

lemma split_skips:
  "sep \<noteq> [] \<Longrightarrow> i \<le> j \<Longrightarrow> j + length sep \<le> length w \<Longrightarrow> \<forall>k. i \<le> k \<and> k < j \<longrightarrow> \<not> match_at w k sep \<Longrightarrow>
   split_loop w sep 0 i start parts = split_loop w sep 0 j start parts"
proof (induction "j - i" arbitrary: i)
  case 0
  then show ?case by simp
next
  case (Suc d)
  then have "split_loop w sep 0 i start parts = split_loop w sep 0 (i + 1) start parts"
    by (intro split_skip) auto
  also have "\<dots> = split_loop w sep 0 j start parts" using Suc by (intro Suc.hyps) auto
  finally show ?case .
qed

lemma split_rest:
  "\<forall>k. i \<le> k \<and> k + length sep \<le> length w \<longrightarrow> \<not> match_at w k sep \<Longrightarrow> split_loop w sep 0 i start parts = [drop start w]"
proof (induction "length w - i" arbitrary: i rule: less_induct)
  case less
  show ?case
  proof (cases "sep = [] \<or> \<not> i + length sep \<le> length w")
    case True
    then show ?thesis by (rule split_end)
  next
    case False
    then have "split_loop w sep 0 i start parts = split_loop w sep 0 (i + 1) start parts"
      using less.prems by (intro split_skip) auto
    also have "\<dots> = [drop start w]"
    proof (rule less.hyps)
      have "0 < length sep" using False by simp
      then show "length w - (i + 1) < length w - i" using False by linarith
    qed (use less.prems in auto)
    finally show ?thesis .
  qed
qed

lemma pieces_split_loop:
  assumes "rx_ngroups r = 0" "length w < 2 ^ 31" "s \<noteq> []"
  shows "scan_ok r (lit_tree s) w pos ms \<Longrightarrow> pieces w i ms = split_loop w s 0 pos i parts"
proof (induction ms arbitrary: pos i parts)
  case Nil
  then have "find_from w s pos = None" using lit_no_match [OF assms(1,2)] by simp
  then show ?case by (simp add: find_from_None split_rest)
next
  case (Cons m ms)
  then obtain k where k: "find_from w s pos = Some k" "m = [int k, int (k + length s)]"
    using lit_leftmost [OF assms(1,2), of s pos m] by auto
  then have f: "pos \<le> k" "k + length s \<le> length w" "match_at w k s" "\<forall>j. pos \<le> j \<and> j < k \<longrightarrow> \<not> match_at w j s"
    by (auto simp: find_from_Some)
  have sk: "split_loop w s 0 pos i parts = split_loop w s 0 k i parts"
    by (rule split_skips [OF assms(3) f(1,2,4)])
  have pc: "split_loop w s 0 k i parts = take (k - i) (drop i w) # split_loop w s 0 (k + length s) (k + length s) (parts + 1)"
    using split_piece [OF assms(3) f(2), of 0 parts i] f(3) by simp
  have nx: "next_at w m = k + length s" using k(2) assms(3) by (auto simp: next_at_def)
  have "pieces w (k + length s) ms = split_loop w s 0 (k + length s) (k + length s) (parts + 1)"
    by (rule Cons.IH) (use Cons.prems nx in simp)
  moreover have "pieces w i (m # ms) = take (k - i) (drop i w) # pieces w (k + length s) ms"
    using k(2) assms(3) by (simp add: sub_def nat_int_add)
  ultimately show ?case unfolding sk pc by simp
qed

lemma weave_const:
  assumes "\<forall>m \<in> set ms. m ! 1 \<noteq> m ! 0"
  shows "join_loop x (pieces w i ms) k = (if k \<noteq> 0 then x else []) @ weave (\<lambda>_. x) w i ms"
  using assms by (induction ms arbitrary: i k) auto

lemma lit_scan_nonempty:
  assumes "rx_ngroups r = 0" "length w < 2 ^ 31" "s \<noteq> []"
  shows "scan_ok r (lit_tree s) w pos ms \<Longrightarrow> \<forall>m \<in> set ms. m ! 1 \<noteq> m ! 0"
proof (induction ms arbitrary: pos)
  case Nil
  then show ?case by simp
next
  case (Cons m ms)
  then have "leftmost r (lit_tree s) w pos m" "scan_ok r (lit_tree s) w (next_at w m) ms" by simp_all
  with Cons.IH lit_leftmost [OF assms(1,2), of s pos m] assms(3) show ?case by auto
qed

lemma expand_plain: "CHR ''$'' \<notin> set rep \<Longrightarrow> expand_repl r w m rep = rep"
  by (induction rep) (auto simp: Let_def)

end
