(* ===== verification/RxProps.thy ===== *)
theory RxProps
  imports RxLit
begin

section \<open>Regular expressions: what the compiler, the search and the natives guarantee\<close>

text \<open>
  The results of the development of \<^verbatim>\<open>regex.c\<close>, stated for a pattern as the program gives it, each with an
  instance on the pattern \<^verbatim>\<open>(a|b)+c\<close>.  \<^const>\<open>mt\<close> and \<^const>\<open>matches_at\<close> say what a tree matches;
  they do not mention instructions or threads.
\<close>

definition sample :: string where
  "sample = ''(a|b)+c''"

lemma parse_sample:
  "rx_parse sample = Some
     (N_CAT (N_REP (N_GROUP (N_ALT (N_CHAR CHR ''a'') (N_CHAR CHR ''b'')) 1) 1 (- 1) True) (N_CHAR CHR ''c''),
      (parse_init [])\<lparr>p_ngroups := 1\<rparr>)"
  by (simp add: sample_def rx_parse_def parse_init_def plain_atom_def repeat_loop.simps quantifier_def rest_to_def
      lazy_mark_def eval_nat_numeral RX_MAX_DEPTH_def open_group_def named_prefix_def RX_MAX_GROUPS_def close_group_def)

lemma sample_compiles: "\<exists>r. vl_regex_compile sample = Some (Inr r)"
proof -
  have "\<not> e_over (rx_emit
     (N_CAT (N_REP (N_GROUP (N_ALT (N_CHAR CHR ''a'') (N_CHAR CHR ''b'')) 1) 1 (- 1) True) (N_CHAR CHR ''c'')))"
    by (simp add: rx_emit_def emit_save_def emit_def patch_def RX_MAX_PROG_def e_n_def emit_rep_def emit_star_def)
  then show ?thesis by (simp add: vl_regex_compile_def parse_sample parse_init_def Let_def del: emit_body.simps)
qed

text \<open>C3. Compiling returns for every byte string: an error value that names the pattern, or a regex.  For a regex
  the whole pattern was read, the tree's groups are numbered 1, 2, .. in the order of their parentheses and nest at
  most 400 deep, counts are ordered and at most 1000, group names are distinct identifiers, and the program is the
  code of that tree: at most 20000 instructions, every jump and class index in range, every capture slot in the
  vector, so the machine never reads outside its arrays.\<close>

theorem regex_compile_total:
  "\<exists>res n ps. vl_regex_compile pat = Some res \<and> rx_parse pat = Some (n, ps) \<and>
     (case res of
        Inl e \<Rightarrow> \<exists>why. e = rx_error why pat
      | Inr r \<Rightarrow>
          p_err ps = None \<and> p_rest ps = [] \<and> rx_src r = pat \<and> rx_ngroups r = p_ngroups ps \<and>
          rx_wf n \<and> rx_nest n \<le> 400 \<and> rx_groups n = [1..<Suc (rx_ngroups r)] \<and> rx_ngroups r < 20 \<and>
          names_ok (p_ngroups ps) (p_names ps) \<and>
          program_of (rx_prog r) (rx_sets r) n \<and> length (rx_prog r) \<le> 20000 \<and>
          prog_ok (rx_prog r) (rx_sets r) (ncap_of r))"
proof -
  obtain res where res: "vl_regex_compile pat = Some res"
    "case res of Inl e \<Rightarrow> \<exists>why. e = rx_error why pat
     | Inr r \<Rightarrow> rx_src r = pat \<and> (\<exists>n ps. rx_parse pat = Some (n, ps) \<and> compiled r n)"
    using compile_returns [of pat] by blast
  obtain n ps where p: "rx_parse pat = Some (n, ps)" "names_ok (p_ngroups ps) (p_names ps)"
    "if p_err ps = None then p_rest ps = [] \<and> rx_wf n \<and> rx_groups n = [1..<Suc (p_ngroups ps)] \<and> rx_nest n \<le> RX_MAX_DEPTH
     else True"
    using rx_parse_returns [of pat] by blast
  show ?thesis
  proof (cases res)
    case (Inl e)
    with res p(1) show ?thesis by auto
  next
    case (Inr r)
    then have "p_err ps = None" "rx_ngroups r = p_ngroups ps" using res(1) p(1)
      by (auto simp: vl_regex_compile_def Let_def split: option.splits if_splits)
    moreover have "rx_src r = pat" "compiled r n" using res(2) Inr p(1) by auto
    ultimately show ?thesis using res(1) Inr p
      by (auto simp: compiled_def RX_MAX_DEPTH_def RX_MAX_GROUPS_def RX_MAX_PROG_def)
  qed
qed

text \<open>C2. The search for a compiled pattern returns, on every subject below 2 GB and from every position: without a
  match only when the tree matches from no position at or after the start, else with the captures of a match of the
  tree from the leftmost position that has one.\<close>

theorem regex_search_correct:
  assumes "vl_regex_compile pat = Some (Inr r)" "length w < 2 ^ 31"
  shows "\<exists>n ps m. rx_parse pat = Some (n, ps) \<and> rx_search r w from = Some m \<and>
    (case m of
       None \<Rightarrow> (\<forall>s j c. from \<le> s \<longrightarrow> s \<le> length w \<longrightarrow> \<not> matches_at r n w s j c)
     | Some out \<Rightarrow> (\<exists>s j. from \<le> s \<and> s \<le> j \<and> j \<le> length w \<and> matches_at r n w s j out \<and>
         length out = ncap_of r \<and> out ! 0 = int s \<and> out ! 1 = int j \<and>
         (\<forall>s' j' c. from \<le> s' \<longrightarrow> s' < s \<longrightarrow> \<not> matches_at r n w s' j' c)))"
proof -
  obtain n ps where n: "rx_parse pat = Some (n, ps)" "compiled r n" by (rule compile_compiled [OF assms(1)])
  from rx_search_correct [OF n(2) assms(2), of "from"] n(1) show ?thesis by blast
qed

theorem regex_search_correct_witness:
  "\<exists>r n ps m. vl_regex_compile sample = Some (Inr r) \<and> rx_parse sample = Some (n, ps) \<and>
     rx_search r ''xabac'' 1 = Some m \<and>
     (case m of
       None \<Rightarrow> (\<forall>s j c. 1 \<le> s \<longrightarrow> s \<le> length ''xabac'' \<longrightarrow> \<not> matches_at r n ''xabac'' s j c)
     | Some out \<Rightarrow> (\<exists>s j. 1 \<le> s \<and> s \<le> j \<and> j \<le> length ''xabac'' \<and> matches_at r n ''xabac'' s j out \<and>
         length out = ncap_of r \<and> out ! 0 = int s \<and> out ! 1 = int j \<and>
         (\<forall>s' j' c. 1 \<le> s' \<longrightarrow> s' < s \<longrightarrow> \<not> matches_at r n ''xabac'' s' j' c)))"
proof -
  obtain r where r: "vl_regex_compile sample = Some (Inr r)" using sample_compiles by blast
  have "length ''xabac'' < 2 ^ 31" by simp
  from regex_search_correct [OF r this, of 1] r show ?thesis by blast
qed

text \<open>C4. \<^verbatim>\<open>find_all\<close>, \<^verbatim>\<open>replace\<close> and \<^verbatim>\<open>split\<close> of a compiled pattern return, and all three work on the
  same list of matches: each is a match of the pattern's tree from the leftmost position at or after the end
  of the one before (after an empty match, after the next character), the matches do not overlap and their
  starts increase, and no match follows the last.  \<^verbatim>\<open>find_all\<close> returns their captures, \<^verbatim>\<open>replace\<close> the
  subject with each match exchanged for its expansion, \<^verbatim>\<open>split\<close> the text between the non-empty ones.\<close>

theorem regex_scan_correct:
  assumes "vl_regex_compile pat = Some (Inr r)" "length w < 2 ^ 31"
  shows "\<exists>n ps ms. rx_parse pat = Some (n, ps) \<and> compiled r n \<and> scan_ok r n w 0 ms \<and>
     sorted_wrt (\<lambda>m m'. m ! 1 \<le> m' ! 0 \<and> m ! 0 < m' ! 0) ms \<and>
     vl_regex_find_all (A_str pat) w = Some (Inr (O_slice (map (\<lambda>m. strs (caps_slice r w m)) ms))) \<and>
     vl_regex_replace (A_str pat) w rep = Some (Inr (O_str (weave (\<lambda>m. expand_repl r w m rep) w 0 ms))) \<and>
     vl_regex_split (A_str pat) w = Some (Inr (strs (pieces w 0 ms)))"
proof -
  obtain n ps where n: "rx_parse pat = Some (n, ps)" "compiled r n" by (rule compile_compiled [OF assms(1)])
  obtain ms where ms: "scanned r w 0 ms" "scan_ok r n w 0 ms" using scan_exists [OF n(2) assms(2)] by blast
  have "vl_regex_find_all (A_str pat) w = Some (Inr (O_slice (map (\<lambda>m. strs (caps_slice r w m)) ms)))"
    using find_all_scanned [OF ms(1), of "[]"] by (simp add: vl_regex_find_all_def with_regex_compiled [OF assms(1)])
  moreover have "vl_regex_replace (A_str pat) w rep = Some (Inr (O_str (weave (\<lambda>m. expand_repl r w m rep) w 0 ms)))"
    using replace_scanned [OF ms, of rep "[]"]
    by (auto simp: vl_regex_replace_def with_regex_compiled [OF assms(1)])
  moreover have "vl_regex_split (A_str pat) w = Some (Inr (strs (pieces w 0 ms)))"
    by (rule split_compiled [OF assms(1) ms])
  ultimately show ?thesis using n ms scan_ok_ordered [OF ms(2)] by blast
qed

theorem regex_scan_correct_witness:
  "\<exists>r n ps ms. vl_regex_compile sample = Some (Inr r) \<and> rx_parse sample = Some (n, ps) \<and>
     scan_ok r n ''acxbbc'' 0 ms \<and>
     vl_regex_find_all (A_str sample) ''acxbbc'' = Some (Inr (O_slice (map (\<lambda>m. strs (caps_slice r ''acxbbc'' m)) ms))) \<and>
     vl_regex_replace (A_str sample) ''acxbbc'' ''<$1>'' =
       Some (Inr (O_str (weave (\<lambda>m. expand_repl r ''acxbbc'' m ''<$1>'') ''acxbbc'' 0 ms))) \<and>
     vl_regex_split (A_str sample) ''acxbbc'' = Some (Inr (strs (pieces ''acxbbc'' 0 ms)))"
proof -
  obtain r where r: "vl_regex_compile sample = Some (Inr r)" using sample_compiles by blast
  have "length ''acxbbc'' < 2 ^ 31" by simp
  from regex_scan_correct [OF r this, of "''<$1>''"] r show ?thesis by blast
qed

text \<open>C5. Replacing every match by \<^verbatim>\<open>$0\<close>, the text it matched, returns the subject unchanged, and
  splitting and rejoining with the separators that were matched gives the subject back: nothing is lost
  or duplicated around empty matches, adjacent matches or the ends.  Every separator is a non-empty match.\<close>

theorem regex_replace_split_roundtrip:
  assumes "vl_regex_compile pat = Some (Inr r)" "length w < 2 ^ 31"
  shows "vl_regex_replace (A_str pat) w ''$0'' = Some (Inr (O_str w)) \<and>
     (\<exists>ps seps. vl_regex_split (A_str pat) w = Some (Inr (strs ps)) \<and> length ps = Suc (length seps) \<and>
        rejoin ps seps = w \<and>
        (\<forall>sep \<in> set seps. \<exists>n nps s j c. rx_parse pat = Some (n, nps) \<and> s < j \<and> j \<le> length w \<and>
           sep = sub w s j \<and> matches_at r n w s j c))"
proof -
  obtain n ps where n: "rx_parse pat = Some (n, ps)" "compiled r n" by (rule compile_compiled [OF assms(1)])
  obtain ms where ms: "scanned r w 0 ms" "scan_ok r n w 0 ms" using scan_exists [OF n(2) assms(2)] by blast
  have "expand_repl r w m ''$0'' = cap_text w m 0" for m
    by (simp add: Let_def rx_digit_def)
  then have "weave (\<lambda>m. expand_repl r w m ''$0'') w 0 ms = w"
    using weave_same [OF ms(2), of 0 "\<lambda>m. expand_repl r w m ''$0''"] cap_text_whole [of r n w] by simp
  then have "vl_regex_replace (A_str pat) w ''$0'' = Some (Inr (O_str w))"
    using replace_scanned [OF ms, of "''$0''" "[]"]
    by (auto simp: vl_regex_replace_def with_regex_compiled [OF assms(1)])
  moreover have "vl_regex_split (A_str pat) w = Some (Inr (strs (pieces w 0 ms)))"
    by (rule split_compiled [OF assms(1) ms])
  moreover have "rejoin (pieces w 0 ms) (separators w ms) = w" "length (pieces w 0 ms) = Suc (length (separators w ms))"
    using rejoin_pieces [OF ms(2) order_refl] by simp_all
  moreover have "\<exists>s j c. s < j \<and> j \<le> length w \<and> sep = sub w s j \<and> matches_at r n w s j c"
    if sep: "sep \<in> set (separators w ms)" for sep
  proof -
    obtain m where m: "m \<in> set ms" "m ! 1 \<noteq> m ! 0" "sep = sub w (nat (m ! 0)) (nat (m ! 1))"
      using separators_set [OF sep] by blast
    obtain s j where "s \<le> j" "j \<le> length w" "m ! 0 = int s" "m ! 1 = int j" "matches_at r n w s j m"
      using scan_matched [OF ms(2) m(1)] by blast
    moreover from this m(2) have "s < j" by (cases "s = j") auto
    ultimately show ?thesis using m(3) by auto
  qed
  ultimately show ?thesis using n(1) by blast
qed

theorem regex_replace_split_roundtrip_witness:
  "vl_regex_replace (A_str sample) ''xacbc'' ''$0'' = Some (Inr (O_str ''xacbc'')) \<and>
   (\<exists>ps seps. vl_regex_split (A_str sample) ''xacbc'' = Some (Inr (strs ps)) \<and> length ps = Suc (length seps) \<and>
      rejoin ps seps = ''xacbc'')"
proof -
  obtain r where r: "vl_regex_compile sample = Some (Inr r)" using sample_compiles by blast
  have "length ''xacbc'' < 2 ^ 31" by simp
  from regex_replace_split_roundtrip [OF r this] show ?thesis by blast
qed

text \<open>C6. For quoted text the regular expression engine and the string library give the same results:
  \<^verbatim>\<open>matches\<close> is \<^verbatim>\<open>contains\<close>, \<^verbatim>\<open>find\<close> returns the text itself, \<^verbatim>\<open>split\<close> cuts where
  \<^verbatim>\<open>split\<close> of strings does, and \<^verbatim>\<open>replace\<close> with a text without \<^verbatim>\<open>$\<close> is the replacement of
  strings.  The bound is the size of the program.\<close>

theorem regex_literal_agrees:
  assumes "length s + 3 \<le> RX_MAX_PROG" "length w < 2 ^ 31"
  shows "vl_regex_matches (A_str (rx_quote s)) w = Some (Inr (V_bool (str_contains w s))) \<and>
    vl_regex_find (A_str (rx_quote s)) w = Some (Inr (if str_contains w s then strs [s] else V_nil)) \<and>
    (s = [] \<or> vl_regex_split (A_str (rx_quote s)) w = Some (Inr (strs (split_str w s 0)))) \<and>
    (s = [] \<or> CHR ''$'' \<in> set rep \<or>
       vl_regex_replace (A_str (rx_quote s)) w rep = Some (Inr (O_str (str_replace w s rep))))"
proof -
  obtain r where r: "vl_regex_compile (rx_quote s) = Some (Inr r)" "compiled r (lit_tree s)" "rx_ngroups r = 0"
    by (rule lit_compiles [OF assms(1)])
  note ll = lit_leftmost [OF r(3) assms(2)] and nm = lit_no_match [OF r(3) assms(2)]
  have f0: "find_from w [] 0 = Some 0" by (simp add: find_from_Some match_at_def)
  have con: "str_contains w s \<longleftrightarrow> find_from w s 0 \<noteq> None" using f0 by (simp add: str_contains_def)
  have find: "vl_regex_matches (A_str (rx_quote s)) w = Some (Inr (V_bool (str_contains w s))) \<and>
    vl_regex_find (A_str (rx_quote s)) w = Some (Inr (if str_contains w s then strs [s] else V_nil))"
  proof (cases rule: search_cases [OF r(2) assms(2), of 0])
    case 1
    then show ?thesis using nm [of s 0] con
      by (simp add: vl_regex_matches_def vl_regex_find_def with_regex_compiled [OF r(1)])
  next
    case (2 m)
    then obtain i where i: "find_from w s 0 = Some i" "m = [int i, int (i + length s)]" using ll [of s 0 m] by auto
    then have "sub w i (i + length s) = s" by (simp add: find_from_Some sub_def match_at_def)
    then have "caps_slice r w m = [s]" using i(2) r(3) by (simp add: caps_slice_def cap_text_def Let_def nat_int_add)
    then show ?thesis using 2(1) i(1) con
      by (simp add: vl_regex_matches_def vl_regex_find_def with_regex_compiled [OF r(1)])
  qed
  obtain ms where ms: "scanned r w 0 ms" "scan_ok r (lit_tree s) w 0 ms" using scan_exists [OF r(2) assms(2)] by blast
  have split: "vl_regex_split (A_str (rx_quote s)) w = Some (Inr (strs (split_str w s 0)))" if s: "s \<noteq> []"
    using split_compiled [OF r(1) ms] pieces_split_loop [OF r(3) assms(2) s ms(2), of 0 0] s by (simp add: split_str_def)
  have repl: "vl_regex_replace (A_str (rx_quote s)) w rep = Some (Inr (O_str (str_replace w s rep)))"
    if s: "s \<noteq> []" and p: "CHR ''$'' \<notin> set rep"
  proof -
    have "join_loop rep (split_loop w s 0 0 0 0) 0 = str_replace w s rep"
      using replace_split_loop [of 0 0 s 0 "- 1" 0 0 rep w 0] s by (simp add: str_replace_def)
    moreover have "join_loop rep (pieces w 0 ms) 0 = weave (\<lambda>_. rep) w 0 ms"
      using weave_const [OF lit_scan_nonempty [OF r(3) assms(2) s ms(2)], of rep w 0 0] by simp
    ultimately have "weave (\<lambda>m. expand_repl r w m rep) w 0 ms = str_replace w s rep"
      using pieces_split_loop [OF r(3) assms(2) s ms(2), of 0 0] expand_plain [OF p] by simp
    then show ?thesis using replace_scanned [OF ms, of rep "[]"]
      by (auto simp: vl_regex_replace_def with_regex_compiled [OF r(1)])
  qed
  show ?thesis using find split repl by blast
qed

theorem regex_literal_agrees_witness:
  "vl_regex_find (A_str (rx_quote ''a.b'')) ''xa.b'' = Some (Inr (strs [''a.b''])) \<and>
   vl_regex_split (A_str (rx_quote ''a.b'')) ''xa.by'' = Some (Inr (strs [''x'', ''y''])) \<and>
   vl_regex_replace (A_str (rx_quote ''a.b'')) ''xa.by'' ''-'' = Some (Inr (O_str ''x-y''))"
proof -
  have b: "length ''a.b'' + 3 \<le> RX_MAX_PROG" "length ''xa.b'' < 2 ^ 31" "length ''xa.by'' < 2 ^ 31"
    by (simp_all add: RX_MAX_PROG_def)
  have "str_contains ''xa.b'' ''a.b''" "split_str ''xa.by'' ''a.b'' 0 = [''x'', ''y'']" "str_replace ''xa.by'' ''a.b'' ''-'' = ''x-y''"
    by (simp_all add: str_contains_def split_str_def str_replace_def find_from.simps split_loop.simps replace_loop.simps match_at_def)
  then show ?thesis
    using regex_literal_agrees [OF b(1,2), of "''-''"] regex_literal_agrees [OF b(1,3), of "''-''"] by simp
qed


subsection \<open>A quantifier after a character of several bytes\<close>

text \<open>The encoding of a scalar value from 128 on: a lead byte, bytes between, a last byte.\<close>

lemma put_shape:
  assumes "scalar r" "128 \<le> r"
  obtains b p x where "utf8_put r = b # p @ [x]" "length p \<le> 2" "192 \<le> byte_of b" "byte_of x < (192 :: nat)"
    "\<forall>c \<in> set (b # p @ [x]). 128 \<le> byte_of c"
proof -
  have r: "r < 2097152" "\<not> r < 128" using assms by (auto simp: scalar_def)
  consider "r < 2048" | "2048 \<le> r" "r < 65536" | "65536 \<le> r" by linarith
  then show thesis
  proof cases
    case 1
    then have "r div 64 < 32" by (simp add: less_mult_imp_div_less)
    with 1 r show thesis
      using that [of "char_of (0xC0 + r div 64)" "[]" "char_of (0x80 + r mod 64)"] utf8_put_arith [of r] by simp
  next
    case 2
    then have "r div 4096 < 16" by (simp add: less_mult_imp_div_less)
    with 2 r show thesis
      using that [of "char_of (0xE0 + r div 4096)" "[char_of (0x80 + r div 64 mod 64)]" "char_of (0x80 + r mod 64)"]
        utf8_put_arith [of r] by simp
  next
    case 3
    have "r div 262144 < 8" using r by (simp add: less_mult_imp_div_less)
    with 3 r show thesis
      using that [of "char_of (0xF0 + r div 262144)" "[char_of (0x80 + r div 4096 mod 64), char_of (0x80 + r div 64 mod 64)]"
          "char_of (0x80 + r mod 64)"]
        utf8_put_arith [of r] by simp
  qed
qed

text \<open>The three quantifiers with their counts (\<open>- 1\<close>: without end).\<close>

definition is_quant :: "char \<Rightarrow> nat \<Rightarrow> int \<Rightarrow> bool" where
  "is_quant q lo hi \<longleftrightarrow> (q, lo, hi) \<in> {(CHR ''*'', 0, - 1), (CHR ''+'', 1, - 1), (CHR ''?'', 0, 1)}"

lemma high_plain:
  assumes "128 \<le> (byte_of c :: nat)"
  shows "c \<notin> {CHR ''('', CHR '')'', CHR ''['', CHR ''.'', CHR ''^'', CHR ''$'', BSL, CHR ''|'', CHR ''*'', CHR ''+'', CHR ''?'', CHR ''{''}"
  using assms by auto

lemma short_list: "length p \<le> 2 \<Longrightarrow> p = [] \<or> (\<exists>c. p = [c]) \<or> (\<exists>c d. p = [c, d])"
  by (cases p rule: list.exhaust; cases "tl p" rule: list.exhaust) auto

lemma parse_quantified:
  assumes "is_quant q lo hi" "length p \<le> 2" "\<forall>c \<in> set (b # p @ [x]). 128 \<le> (byte_of c :: nat)"
  shows "rx_parse (b # p @ [x, q]) = Some (N_CAT (lit_tree (b # p)) (N_REP (N_CHAR x) lo hi True), parse_init [])"
proof -
  have q: "(q = CHR ''*'' \<and> lo = 0 \<and> hi = - 1) \<or> (q = CHR ''+'' \<and> lo = 1 \<and> hi = - 1) \<or> (q = CHR ''?'' \<and> lo = 0 \<and> hi = 1)"
    using assms(1) by (simp add: is_quant_def)
  note defs = rx_parse_def parse_init_def plain_atom_def repeat_loop.simps quantifier_def rest_to_def
      lazy_mark_def lit_tree_def eval_nat_numeral
  have h: "\<And>c. c \<in> set (b # p @ [x]) \<Longrightarrow>
      c \<noteq> CHR ''('' \<and> c \<noteq> CHR '')'' \<and> c \<noteq> CHR ''['' \<and> c \<noteq> CHR ''.'' \<and> c \<noteq> CHR ''^'' \<and> c \<noteq> CHR ''$'' \<and> c \<noteq> BSL \<and>
      c \<noteq> CHR ''|'' \<and> c \<noteq> CHR ''*'' \<and> c \<noteq> CHR ''+'' \<and> c \<noteq> CHR ''?'' \<and> c \<noteq> CHR ''{''"
    using assms(3) high_plain by blast
  note bx = h [of b, simplified] h [of x, simplified]
  from short_list [OF assms(2)] show ?thesis
  proof (elim disjE exE)
    assume p: "p = []"
    from q show ?thesis using bx unfolding p by (elim disjE conjE) (simp_all add: defs)
  next
    fix c assume p: "p = [c]"
    note c = h [of c, unfolded p, simplified]
    from q show ?thesis using bx c unfolding p by (elim disjE conjE) (simp_all add: defs)
  next
    fix c d assume p: "p = [c, d]"
    note c = h [of c, unfolded p, simplified] h [of d, unfolded p, simplified]
    from q show ?thesis using bx c unfolding p by (elim disjE conjE) (simp_all add: defs)
  qed
qed

lemma compile_quantified:
  assumes "is_quant q lo hi" "length p \<le> 2" "\<forall>c \<in> set (b # p @ [x]). 128 \<le> (byte_of c :: nat)"
  obtains r where "vl_regex_compile (b # p @ [x, q]) = Some (Inr r)" "rx_ngroups r = 0"
    "compiled r (N_CAT (lit_tree (b # p)) (N_REP (N_CHAR x) lo hi True))"
proof -
  let ?n = "N_CAT (lit_tree (b # p)) (N_REP (N_CHAR x) lo hi True)"
  note parse = parse_quantified [OF assms]
  have q: "(lo = 0 \<and> hi = - 1) \<or> (lo = 1 \<and> hi = - 1) \<or> (lo = 0 \<and> hi = 1)"
    using assms(1) by (auto simp: is_quant_def)
  note defs = rx_emit_def emit_save_def emit_def patch_def RX_MAX_PROG_def e_n_def emit_rep_def emit_star_def lit_tree_def
  have "\<not> e_over (rx_emit ?n)"
    using short_list [OF assms(2)] q
    by (elim disjE exE conjE) (simp_all add: defs)
  then obtain r where r: "vl_regex_compile (b # p @ [x, q]) = Some (Inr r)" "rx_ngroups r = 0"
    by (simp add: vl_regex_compile_def parse parse_init_def Let_def del: emit_body.simps append_Cons append_Nil)
  from compile_returns [of "b # p @ [x, q]"] r parse have "compiled r ?n" by auto
  with r that show thesis by blast
qed

lemma char_power:
  "(mt (N_CHAR x) w ^^ k) (i, c) t \<Longrightarrow> (\<forall>j. i \<le> j \<and> j < i + k \<longrightarrow> j < length w \<and> w ! j = x) \<and> t = (i + k, c)"
proof (induction k arbitrary: t)
  case 0
  then show ?case by auto
next
  case (Suc k)
  then obtain u where u: "(mt (N_CHAR x) w ^^ k) (i, c) u" "mt (N_CHAR x) w u t" by (auto simp del: mt.simps)
  note ih = Suc.IH [OF u(1)]
  have "u = (i + k, c)" using ih by blast
  with u(2) have at: "i + k < length w" "w ! (i + k) = x" "t = (i + Suc k, c)" by simp_all
  show ?case
  proof (intro conjI allI impI)
    fix j
    assume "i \<le> j \<and> j < i + Suc k"
    then consider "i \<le> j" "j < i + k" | "j = i + k" by linarith
    then show "j < length w" "w ! j = x" using ih at(1,2) by (cases; blast)+
  qed (rule at(3))
qed

text \<open>What such a tree matches: the first bytes once, then copies of the last.\<close>

lemma quantified_match:
  assumes "i \<le> length w"
  shows "mt (N_CAT (lit_tree s) (N_REP (N_CHAR x) lo hi g)) w (i, c) (j, c') \<longleftrightarrow>
    i + length s \<le> length w \<and> match_at w i s \<and>
    (\<exists>k. lo \<le> k \<and> (0 \<le> hi \<longrightarrow> int k \<le> hi) \<and> (mt (N_CHAR x) w ^^ k) (i + length s, c) (j, c'))"
  using mt_lit [OF assms, of s c] by (auto simp del: mt.simps(1))

lemma plus_one_char:
  assumes s: "s = b # p" and bx: "b \<noteq> x" and w: "w = concat (replicate (Suc n) (s @ [x]))"
  shows "mt (N_CAT (lit_tree s) (N_REP (N_CHAR x) 1 (- 1) g)) w (0, c) (j, c') \<longleftrightarrow> j = length s + 1 \<and> c' = c"
proof -
  have at: "match_at w 0 s" "length s < length w" "w ! length s = x"
    by (simp_all add: w match_at_def nth_append)
  have two: "\<not> (length s + 1 < length w \<and> w ! (length s + 1) = x)"
  proof (cases n)
    case 0
    then show ?thesis by (simp add: w)
  next
    case (Suc m)
    have "w = (s @ [x]) @ concat (replicate n (s @ [x]))" by (simp add: w)
    then have "w ! (length s + 1) = concat (replicate n (s @ [x])) ! 0" by (simp add: nth_append)
    also have "\<dots> = b" by (simp add: Suc s)
    finally show ?thesis using bx by simp
  qed
  have "mt (N_CAT (lit_tree s) (N_REP (N_CHAR x) 1 (- 1) g)) w (0, c) (j, c') \<longleftrightarrow>
      (\<exists>k. 1 \<le> k \<and> (mt (N_CHAR x) w ^^ k) (length s, c) (j, c'))"
    using at by (simp add: quantified_match del: mt.simps)
  also have "\<dots> \<longleftrightarrow> j = length s + 1 \<and> c' = c"
  proof
    assume "\<exists>k. 1 \<le> k \<and> (mt (N_CHAR x) w ^^ k) (length s, c) (j, c')"
    then obtain k where k: "1 \<le> k" "(mt (N_CHAR x) w ^^ k) (length s, c) (j, c')" by blast
    note p = char_power [OF k(2)]
    have "\<not> 2 \<le> k"
    proof
      assume "2 \<le> k"
      with p have "length s + 1 < length w \<and> w ! (length s + 1) = x"
        by (elim conjE allE [of _ "length s + 1"]) simp
      with two show False by blast
    qed
    with k(1) have "k = 1" by linarith
    with p show "j = length s + 1 \<and> c' = c" by simp
  next
    assume j: "j = length s + 1 \<and> c' = c"
    have "(mt (N_CHAR x) w ^^ 1) (length s, c) (j, c')"
      using at j by (simp only: relpowp_1) simp
    then show "\<exists>k. 1 \<le> k \<and> (mt (N_CHAR x) w ^^ k) (length s, c) (j, c')" by blast
  qed
  finally show ?thesis .
qed

text \<open>C32. A quantifier behind a character of several bytes repeats its last byte only, for every character
  from U+0080 on and every quantifier: the parsed tree has the first bytes once and the last one repeated.
  So \<^verbatim>\<open>+\<close> finds one character in a text of any number of them, and \<^verbatim>\<open>*\<close> and \<^verbatim>\<open>?\<close>, which allow
  none, do not match the empty text.\<close>

theorem quantifier_repeats_last_byte:
  assumes "scalar r" "128 \<le> r" "is_quant q lo hi" "Suc k * length (utf8_put r) < 2 ^ 31"
  shows "rx_parse (utf8_put r @ [q]) =
      Some (N_CAT (lit_tree (butlast (utf8_put r))) (N_REP (N_CHAR (last (utf8_put r))) lo hi True), parse_init []) \<and>
    (if lo = 0 then vl_regex_find (A_str (utf8_put r @ [q])) [] = Some (Inr V_nil)
     else vl_regex_find (A_str (utf8_put r @ [q])) (concat (replicate (Suc k) (utf8_put r))) =
       Some (Inr (strs [utf8_put r])))"
proof -
  obtain b p x where u: "utf8_put r = b # p @ [x]" "length p \<le> 2" "192 \<le> byte_of b" "byte_of x < (192 :: nat)"
    "\<forall>c \<in> set (b # p @ [x]). 128 \<le> (byte_of c :: nat)" by (rule put_shape [OF assms(1,2)])
  let ?n = "N_CAT (lit_tree (b # p)) (N_REP (N_CHAR x) lo hi True)"
  have pat: "utf8_put r @ [q] = b # p @ [x, q]" by (simp add: u(1))
  obtain R where R: "vl_regex_compile (b # p @ [x, q]) = Some (Inr R)" "rx_ngroups R = 0" "compiled R ?n"
    by (rule compile_quantified [OF assms(3) u(2,5)])
  have find: "vl_regex_find (A_str (utf8_put r @ [q])) w = map_option Inr (map_option
     (\<lambda>m. case m of None \<Rightarrow> V_nil | Some m \<Rightarrow> strs (caps_slice R w m)) (rx_search R w 0))" for w
    unfolding pat vl_regex_find_def with_regex_compiled [OF R(1)] ..
  have parse: "rx_parse (utf8_put r @ [q]) =
      Some (N_CAT (lit_tree (butlast (utf8_put r))) (N_REP (N_CHAR (last (utf8_put r))) lo hi True), parse_init [])"
    using parse_quantified [OF assms(3) u(2,5)] by (simp add: u(1) butlast_append)
  show ?thesis
  proof (cases "lo = 0")
    case True
    have "\<not> matches_at R ?n [] s j c" if "s \<le> 0" for s j c
      using that by (auto simp: matches_at_def quantified_match simp del: mt.simps)
    then have "rx_search R [] 0 = Some None"
      by (cases rule: search_cases [OF R(3), of "[]" 0]) (auto simp: leftmost_def)
    then show ?thesis using True parse by (simp add: find)
  next
    case False
    then have q: "lo = 1" "hi = - 1" using assms(3) by (auto simp: is_quant_def)
    let ?w = "concat (replicate (Suc k) (utf8_put r))" and ?s = "b # p"
    have bx: "b \<noteq> x" using u(3,4) by auto
    have w: "?w = concat (replicate (Suc k) (?s @ [x]))" by (simp add: u(1))
    have len: "length ?w < 2 ^ 31" using assms(4) by (simp add: length_concat sum_list_replicate)
    note one = plus_one_char [OF refl bx w, of True]
    have some: "\<exists>c. matches_at R ?n ?w 0 (length ?s + 1) c"
      unfolding q matches_at_def using one by blast
    show ?thesis
    proof (cases rule: search_cases [OF R(3) len, of 0])
      case 1
      with some show ?thesis by (auto simp: no_match_def)
    next
      case (2 m)
      then obtain s j where s: "matches_at R ?n ?w s j m" "m ! 0 = int s" "m ! 1 = int j"
        "\<forall>s' j' c. 0 \<le> s' \<longrightarrow> s' < s \<longrightarrow> \<not> matches_at R ?n ?w s' j' c" by (auto simp: leftmost_def)
      have s0: "s = 0" using s(4) some by (cases s) blast+
      then have "j = length ?s + 1" using s(1) one by (auto simp: matches_at_def q simp del: mt.simps)
      then have m: "m ! 0 = 0" "m ! 1 = int (length (utf8_put r))" using s(2,3) s0 by (simp_all add: u(1))
      have "take (length (utf8_put r)) ?w = utf8_put r" by simp
      with m have "caps_slice R ?w m = [utf8_put r]"
        using R(2) by (simp add: caps_slice_def cap_text_def sub_def del: replicate_Suc)
      with 2(1) False parse show ?thesis by (simp add: find)
    qed
  qed
qed

theorem quantifier_repeats_last_byte_witness:
  "vl_regex_find (A_str (utf8_put 233 @ ''+'')) (utf8_put 233 @ utf8_put 233 @ utf8_put 233) =
     Some (Inr (strs [[CHR 0xC3, CHR 0xA9]])) \<and>
   vl_regex_find (A_str (utf8_put 0x1F600 @ ''*'')) [] = Some (Inr V_nil)"
proof -
  have e: "utf8_put 233 = [CHR 0xC3, CHR 0xA9]" by code_simp
  have l: "Suc 2 * length (utf8_put 233) < 2 ^ 31" "Suc 0 * length (utf8_put 0x1F600) < 2 ^ 31"
    using utf8_put_bounds(2) [of "0x1F600"] by (simp_all add: e)
  have s: "scalar 233" "(128 :: nat) \<le> 233" "scalar 0x1F600" "(128 :: nat) \<le> 0x1F600" by (simp_all add: scalar_def)
  have q: "is_quant CHR ''+'' 1 (- 1)" "is_quant CHR ''*'' 0 (- 1)" by (simp_all add: is_quant_def)
  have "concat (replicate (Suc 2) (utf8_put 233)) = utf8_put 233 @ utf8_put 233 @ utf8_put 233"
    by (simp add: numeral_2_eq_2)
  then show ?thesis
    using quantifier_repeats_last_byte [OF s(1,2) q(1) l(1)] quantifier_repeats_last_byte [OF s(3,4) q(2) l(2)]
    by (simp only: e if_True if_False one_neq_zero refl)
qed

end
