(* ===== verification/Spec2Isabelle.thy ===== *)
theory Spec2Isabelle
  imports DecText Enc CryptoRand Methods Tasks JsonRound Sort RxProps
begin

section \<open>The Voila runtime\<close>

text \<open>
  Voila is a language with a compiler written in itself, which generates C, and a runtime in C that every
  generated program links (\<^verbatim>\<open>src/runtime/src\<close>).  This development models the runtime: the values a program
  computes with, the operators and conversions on them, the containers, the string library, regular
  expressions, JSON, the cryptographic functions, and the tasks and channels.  File names below are those of
  \<^verbatim>\<open>src/runtime/src\<close>.

  A definition has the name of the C function it models where Isabelle allows it, and the functions are
  composed as the code composes them.  A loop of a function is a definition of its own, over the same
  variables and in the same direction.  The only axioms are those of HOL.

  \<^bold>\<open>How the parts meet.\<close>  A \<^verbatim>\<open>Value\<close> (\<open>val\<close>, in \<open>Value\<close>) holds scalars, texts (\<open>Str\<close>), decimals (the
  \<open>Dec\<close> theories) and containers.  The operators of the generated program (\<open>Ops\<close>) dispatch on the kinds of their
  operands to the arithmetic of integers (\<open>IntOps\<close>), doubles (\<open>Float64\<close>) and decimals, and convert with
  \<open>Conv\<close>; sorting (\<open>Sort\<close>) compares with \<open>arith\<close>.  Maps (\<open>Coll\<close>) are keyed by the equality and hash of values.
  Method calls look the name up in the registry (\<open>Methods\<close>), whose index and that of a map share one probing
  loop (\<open>Probe\<close>).  JSON (\<open>Json\<close>) builds maps and slices.  Channels (\<open>Chan\<close>) carry values between the tasks
  (\<open>Tasks\<close>).  Regular expressions (the \<open>Rx\<close> theories) work on the same byte texts as the string library.

  \<^bold>\<open>Conventions.\<close>
  \<^item> A throw is a value: \<open>'a result\<close> is a sum whose left side is an exception (\<open>exn\<close>: class and message, the
    fields of a failed conversion, or a fault) and whose right side is the result.
  \<^item> \<^const>\<open>None\<close> is what the code must not do: a loop that does not end, an access outside an array, a
    call of the program that does not return, arithmetic C leaves undefined.  Loops whose end is not structural
    are \<open>partial_function\<close>s into \<^typ>\<open>'a option\<close>, and the properties show that the result is not \<^const>\<open>None\<close>.
  \<^item> A C \<^verbatim>\<open>char\<close> is a \<^typ>\<open>char\<close>, a text the list of its bytes; a pointer into a text is an offset or the rest of
    it.  An \<^verbatim>\<open>int64_t\<close> is an \<^typ>\<open>int\<close> with \<open>i64\<close> whose overflow is a branch of the code; unsigned words are
    \<^typ>\<open>64 word\<close>, \<^typ>\<open>32 word\<close> and \<^typ>\<open>8 word\<close>.
  \<^item> The exponents and digit counts of a decimal are C \<^verbatim>\<open>int\<close>s that the code adds and subtracts without a check;
    \<open>w32\<close> wraps each sum and difference to 32 bits.  The theorems on decimal values hold for \<open>dec_small\<close>
    decimals: exponent within 999999999 (the bound of the parser), at most twenty million digits.  Then no
    such sum wraps.
  \<^item> What the C library, the operating system or the program supplies is an argument: \<^verbatim>\<open>printf\<close> and
    \<^verbatim>\<open>strtod\<close> on doubles, \<^verbatim>\<open>pow\<close>, the random source, the clock, the methods and comparators of the program.
    A comparator is a step on the state of the program and may throw; the other methods of the program are
    functions of their arguments (\<open>oe_call\<close> in \<open>Ops\<close>), which excludes methods with side effects.
\<close>

subsection \<open>Theories and what they show\<close>

text \<open>
  \<^bold>\<open>Foundations.\<close>
  \<^item> \<open>Prelude\<close>: exceptions and results, digit strings, hint collections, lemmas on lists and words.
  \<^item> \<open>Probe\<close>: the loop of open addressing that \<^verbatim>\<open>coll.c\<close> and \<^verbatim>\<open>types.c\<close> share; it ends when a slot is free.

  \<^bold>\<open>Decimals\<close> (\<^verbatim>\<open>dec.c\<close>).
  \<^item> \<open>DecMag\<close>: \<^verbatim>\<open>cmp_mag\<close>, \<^verbatim>\<open>add_mag\<close>, \<^verbatim>\<open>sub_mag\<close>, \<^verbatim>\<open>mul_mag\<close>, \<^verbatim>\<open>divmod_mag\<close> on digit lists, correct
    against the number the digits denote.
  \<^item> \<open>DecCore\<close>: the record \<open>dec\<close>, \<^verbatim>\<open>make\<close>, \<^verbatim>\<open>reduce_exp\<close>, \<^verbatim>\<open>round_to\<close>, \<^verbatim>\<open>normalize\<close>, \<^verbatim>\<open>scale\<close>; half-even rounding
    of a rational (\<open>sig_round\<close>) and the proof that \<^verbatim>\<open>reduce_exp\<close> implements it.
  \<^item> \<open>DecOps\<close>: \<^verbatim>\<open>vl_dec_add\<close>, \<^verbatim>\<open>sub\<close>, \<^verbatim>\<open>mul\<close>, \<^verbatim>\<open>div\<close>, \<^verbatim>\<open>cmp\<close>.  Sums and products are the exact value rounded
    once; quotients are rounded twice, within one unit of the last place.  The locale \<open>rounded_arith\<close> holds the laws
    of arithmetic that rounds once, interpreted on the code's operations.  The last section gives decimals
    beyond \<open>dec_small\<close> for which the code is wrong.
  \<^item> \<open>DecShape\<close>: \<^verbatim>\<open>idiv\<close>, \<^verbatim>\<open>mod\<close>, \<^verbatim>\<open>pow\<close>, \<^verbatim>\<open>round\<close>, \<^verbatim>\<open>trunc\<close>, \<^verbatim>\<open>floor\<close>, \<^verbatim>\<open>ceil\<close>, \<^verbatim>\<open>to_int\<close>.
  \<^item> \<open>DecText\<close>: \<^verbatim>\<open>parse_into\<close>, \<^verbatim>\<open>vl_dec_str\<close>, \<^verbatim>\<open>vl_dec_fixed\<close>; what is printed is read back.

  \<^bold>\<open>Text.\<close>
  \<^item> \<open>Utf8\<close> (\<^verbatim>\<open>str.c\<close>): the decoders and the encoder, inverse to each other; the operations on runes, which
    count characters on well-formed text.
  \<^item> \<open>UcTab\<close>, \<open>Unicode\<close> (\<^verbatim>\<open>unicode_tab.h\<close>, \<^verbatim>\<open>str.c\<close>): the tables row for row, the binary search, cases and classes.
  \<^item> \<open>Str\<close> (\<^verbatim>\<open>str.c\<close>): the operations of \<^verbatim>\<open>std/str\<close>; split and join are inverse.
  \<^item> \<open>Enc\<close> (\<^verbatim>\<open>str.c\<close>): base 16 and base 64, decoders inverse to encoders on all byte strings.

  \<^bold>\<open>Values and operators.\<close>
  \<^item> \<open>IntOps\<close>, \<open>Float64\<close> (\<^verbatim>\<open>ops.c\<close>, \<^verbatim>\<open>voila.h\<close>): checked, sized and floating arithmetic; an integer operator is exact
    or traps.
  \<^item> \<open>Value\<close> (\<^verbatim>\<open>value.c\<close>, \<^verbatim>\<open>voila_int.h\<close>): the kinds of values, \<^verbatim>\<open>vl_equal\<close>, \<^verbatim>\<open>vl_hash\<close>; equal keys hash alike,
    on a stated class of keys, and counterexamples outside it.
  \<^item> \<open>Show\<close> (\<^verbatim>\<open>value.c\<close>): printing and quoting; slices of texts with different contents print differently.
  \<^item> \<open>Methods\<close> (\<^verbatim>\<open>types.c\<close>): the registry; the hashed lookup of a method agrees with the scan of the table.
  \<^item> \<open>Conv\<close> (\<^verbatim>\<open>call.c\<close>): \<^verbatim>\<open>T(x)\<close> for primitive types and chains of newtypes; the result is in range.
  \<^item> \<open>Ops\<close> (\<^verbatim>\<open>ops.c\<close>): the dynamic operators and comparison; mixed operands, newtypes, the order of numbers and texts.
  \<^item> \<open>Sort\<close> (\<^verbatim>\<open>call.c\<close>): the merge sort in two arrays, with a comparator that keeps state and may throw; a
    stable sort for the built-in order (locale \<open>sort_order\<close>), a permutation for every comparator.
  \<^item> \<open>Coll\<close> (\<^verbatim>\<open>coll.c\<close>): insertion-ordered hash maps with tombstones, growth and rebuild.  The locale \<open>hashed_keys\<close>
    is what the map needs of equality and hash, interpreted on \<open>vl_equal\<close> and \<open>vl_hash\<close>; \<open>ordered_map\<close> is what it
    promises, interpreted on the code's operations.

  \<^bold>\<open>Tasks\<close> (\<^verbatim>\<open>task.c\<close>).
  \<^item> \<open>Chan\<close>: the ring buffer (locale \<open>fifo\<close>) and the blocking operations, a loop under the monitor being a sequence
    of \<open>turn\<close>s.
  \<^item> \<open>Tasks\<close>: groups, spawn, await, join, cancellation, deadlines; all interleavings are the runs of a step
    relation.  Safety is by invariants over all runs, liveness under fairness of the scheduler.  The clock and the
    bodies of tasks are arbitrary.

  \<^bold>\<open>Regular expressions\<close> (\<^verbatim>\<open>regex.c\<close>).
  \<^item> \<open>RxParse\<close>: the recursive descent parser, with fuel \<open>8 * length + 8\<close>, proved to be enough for every pattern; the
    limits on groups, counts and nesting.
  \<^item> \<open>RxEmit\<close>: the code generator with the budget of 20000 instructions and the discarded overflow.
  \<^item> \<open>RxVm\<close>, \<open>RxRun\<close>: the virtual machine and its correctness: it finds the leftmost match of the tree (\<open>mt\<close>,
    a semantics without instructions or threads).  Which of several matches from one start it prefers is not stated.
  \<^item> \<open>RxApi\<close>: the natives of \<^verbatim>\<open>std/regex\<close>, \<open>RxLit\<close>: quoted text as a pattern, \<open>RxProps\<close>: the properties.

  \<^bold>\<open>JSON\<close> (\<^verbatim>\<open>json.c\<close>).
  \<^item> \<open>Json\<close>: encoder and parser, with their limit of 512 levels; \<open>JsonRound\<close>: documents are read back as they were
    written, and the decoder stays inside its buffer.

  \<^bold>\<open>Cryptography\<close> (\<^verbatim>\<open>crypto.c\<close>).
  \<^item> \<open>CryptoBlocks\<close>, \<open>CryptoHash\<close>: MD5, SHA-1, SHA-256 and SHA-512 on machine words, the streaming driver, HMAC; a
    message gives the same digest however it is cut.
  \<^item> \<open>CryptoRand\<close>: \<^verbatim>\<open>random_int\<close>, comparison, identifiers; rejection sampling has no bias.
\<close>

subsection \<open>What is not modelled\<close>

text \<open>
  \<^item> Memory: allocation, reference counts, frames, the growth of buffers, locks on single objects.  A value is the
    tree of what it holds at one moment, so mutation through an alias is outside the model, except for the slice a
    comparator changes while it is sorted.
  \<^item> The C stack.  The parser of regular expressions bounds the nesting of groups (\<^verbatim>\<open>RX_MAX_DEPTH\<close>), but
    \<^verbatim>\<open>emit_node\<close> recurses once for each character of a long literal before the instruction budget can stop it
    (\<open>emit_depth_unbounded\<close> in \<open>RxLit\<close>).
  \<^item> \<^verbatim>\<open>err.c\<close>: recovery points are \<^verbatim>\<open>setjmp\<close> and \<^verbatim>\<open>longjmp\<close> over stacks of cleanups; an exception appears here as
    the value it carries.
  \<^item> The rest of \<^verbatim>\<open>call.c\<close> (argument passing and dispatch by name to natives and methods) and of \<^verbatim>\<open>types.c\<close>
    (construction and update of structs on the heap), \<^verbatim>\<open>fmt.c\<close> (the verbs of \<^verbatim>\<open>printf\<close>; its exact decimal text is
    \<^verbatim>\<open>vl_dec_fixed\<close>), the conversion of parsed JSON to a declared type.  The conversions
    between decimals and doubles go through the C library: \<^verbatim>\<open>vl_dec_from_float\<close> has its \<^verbatim>\<open>printf\<close> as an argument (in
    \<open>Conv\<close>), \<^verbatim>\<open>vl_dec_to_float\<close> is its \<^verbatim>\<open>strtod\<close>.
  \<^item> System calls and bindings: \<^verbatim>\<open>io.c\<close>, \<^verbatim>\<open>proc.c\<close>, \<^verbatim>\<open>ffi.c\<close>, \<^verbatim>\<open>sync.c\<close>, \<^verbatim>\<open>std.c\<close>, \<^verbatim>\<open>ext/\<close> and the
    vendored libraries; the bootstrap compiler, which is generated; the compiler and standard library, which are written
    in Voila.
\<close>

end
